(* ===== verification/Bbg_Prelude.thy ===== *)
theory Bbg_Prelude
  imports
    Main
    "HOL-Library.Word"
    "HOL-Library.Finite_Map"
    "HOL-Library.Monad_Syntax"
begin

text \<open>
  Shared ground of the development: the machine types of the Rust sources, byte strings,
  checked and saturating arithmetic, results, and ordered maps.

  \<^item> An integer of \<open>w\<close> bits is a \<open>w word\<close>; \<open>usize\<close> counts are \<open>nat\<close>.
  \<^item> A fixed array \<open>[u8; 32]\<close> is a \<open>256 word\<close> with byte 0 in the most significant place, so
    that the derived \<open>Ord\<close> of arrays (lexicographic) is the order of words; \<open>be_bytes 32\<close> is
    the array's content. A \<open>Vec<u8>\<close> or \<open>&[u8]\<close> is a list of bytes.
  \<^item> A \<open>BTreeMap\<close> is a finite map, \<open>sorted_list_of_fmap\<close> its iteration in key order; a
    \<open>BTreeSet\<close> is a finite set, \<open>sorted_list_of_fset\<close> its iteration.
  \<^item> A panic (an index out of range, an \<open>expect\<close> that fails) or a loop that does not return is
    the value \<open>None\<close> of an option; a \<open>Result\<close> is a sum with the error on the left.
\<close>

unbundle bit_operations_syntax

named_theorems byte_simps \<open>lengths and round trips of the byte encodings\<close>
named_theorems panic_free \<open>operations that return under their invariant\<close>

type_synonym u8 = "8 word"
type_synonym u16 = "16 word"
type_synonym u32 = "32 word"
type_synonym u64 = "64 word"
type_synonym u128 = "128 word"
type_synonym bytes = "u8 list"
type_synonym particle = "256 word"

section \<open>Byte strings of machine words\<close>

text \<open>\<open>to_le_bytes\<close> and \<open>to_be_bytes\<close>, with the number of bytes as an argument, and the
  functions that read them back.\<close>

definition le_bytes :: "nat \<Rightarrow> 'a::len word \<Rightarrow> bytes" where
  "le_bytes n w = map (\<lambda>i. ucast (drop_bit (8 * i) w)) [0..<n]"

definition be_bytes :: "nat \<Rightarrow> 'a::len word \<Rightarrow> bytes" where
  "be_bytes n w = rev (le_bytes n w)"

primrec of_le_bytes :: "bytes \<Rightarrow> 'a::len word" where
  "of_le_bytes [] = 0"
| "of_le_bytes (b # bs) = ucast b OR push_bit 8 (of_le_bytes bs)"

definition of_be_bytes :: "bytes \<Rightarrow> 'a::len word" where
  "of_be_bytes bs = of_le_bytes (rev bs)"

lemma length_le_bytes [simp, byte_simps]: "length (le_bytes n w) = n"
  by (simp add: le_bytes_def)

lemma length_be_bytes [simp, byte_simps]: "length (be_bytes n w) = n"
  by (simp add: be_bytes_def)

lemma nth_le_bytes: "i < n \<Longrightarrow> le_bytes n w ! i = ucast (drop_bit (8 * i) w)"
  by (simp add: le_bytes_def)

lemma bit_of_le_bytes:
  "bit (of_le_bytes bs :: 'a::len word) i \<longleftrightarrow>
     i < LENGTH('a) \<and> i div 8 < length bs \<and> bit (bs ! (i div 8)) (i mod 8)"
proof (induction bs arbitrary: i)
  case Nil
  then show ?case by simp
next
  case (Cons b bs)
  have b8: "bit b j \<Longrightarrow> j < 8" for j
    using bit_imp_le_length [of b j] by simp
  show ?case
  proof (cases "i < 8")
    case True
    then show ?thesis
      by (auto simp: bit_or_iff bit_push_bit_iff bit_unsigned_iff)
  next
    case False
    then obtain j where i: "i = j + 8"
      by (metis add.commute le_Suc_ex not_less)
    have "\<not> bit b (j + 8)" using b8 by fastforce
    then show ?thesis
      by (auto simp: i bit_or_iff bit_push_bit_iff bit_unsigned_iff Cons.IH)
  qed
qed

lemma of_le_bytes_le_bytes [simp, byte_simps]:
  fixes w :: "'a::len word"
  assumes "LENGTH('a) \<le> 8 * n"
  shows "of_le_bytes (le_bytes n w) = w"
proof (rule bit_eqI)
  fix i
  show "bit (of_le_bytes (le_bytes n w) :: 'a word) i \<longleftrightarrow> bit w i"
  proof (cases "i < LENGTH('a)")
    case True
    with assms have "i div 8 < n" by linarith
    moreover have "8 * (i div 8) + i mod 8 = i" by simp
    ultimately show ?thesis
      using True by (auto simp: bit_of_le_bytes nth_le_bytes bit_unsigned_iff bit_drop_bit_eq)
  next
    case False
    then show ?thesis
      using bit_imp_le_length by (auto simp: bit_of_le_bytes)
  qed
qed

lemma le_bytes_of_le_bytes [simp, byte_simps]:
  assumes "length bs = n" and "8 * n \<le> LENGTH('a::len)"
  shows "le_bytes n (of_le_bytes bs :: 'a word) = bs"
proof (rule nth_equalityI)
  show "length (le_bytes n (of_le_bytes bs :: 'a word)) = length bs"
    using assms(1) by simp
next
  fix i
  assume "i < length (le_bytes n (of_le_bytes bs :: 'a word))"
  then have i: "i < n" by simp
  show "le_bytes n (of_le_bytes bs :: 'a word) ! i = bs ! i"
  proof (rule bit_eqI)
    fix j
    show "bit (le_bytes n (of_le_bytes bs :: 'a word) ! i) j \<longleftrightarrow> bit (bs ! i) j"
    proof (cases "j < 8")
      case True
      then have "(8 * i + j) div 8 = i" and "(8 * i + j) mod 8 = j" and "8 * i + j < LENGTH('a)"
        using i assms(2) by auto
      then show ?thesis
        using True i assms(1)
        by (simp add: nth_le_bytes bit_unsigned_iff bit_drop_bit_eq bit_of_le_bytes)
    next
      case False
      then show ?thesis
        using bit_imp_le_length [of "bs ! i" j] bit_imp_le_length by fastforce
    qed
  qed
qed

lemma of_be_bytes_be_bytes [simp, byte_simps]:
  fixes w :: "'a::len word"
  assumes "LENGTH('a) \<le> 8 * n"
  shows "of_be_bytes (be_bytes n w) = w"
  using assms by (simp add: of_be_bytes_def be_bytes_def)

lemma be_bytes_of_be_bytes [simp, byte_simps]:
  assumes "length bs = n" and "8 * n \<le> LENGTH('a::len)"
  shows "be_bytes n (of_be_bytes bs :: 'a word) = bs"
  using assms by (simp add: of_be_bytes_def be_bytes_def)

lemma le_bytes_inj:
  fixes v w :: "'a::len word"
  assumes "LENGTH('a) \<le> 8 * n"
  shows "le_bytes n v = le_bytes n w \<longleftrightarrow> v = w"
  using assms by (metis of_le_bytes_le_bytes)

lemma be_bytes_inj:
  fixes v w :: "'a::len word"
  assumes "LENGTH('a) \<le> 8 * n"
  shows "be_bytes n v = be_bytes n w \<longleftrightarrow> v = w"
  using assms by (metis of_be_bytes_be_bytes)

text \<open>Byte \<open>j\<close> of an array \<open>[u8; 32]\<close>.\<close>

definition byte_at :: "particle \<Rightarrow> nat \<Rightarrow> u8" where
  "byte_at k j = ucast (drop_bit (8 * (31 - j)) k)"

lemma nth_be_bytes: "j < n \<Longrightarrow> be_bytes n w ! j = ucast (drop_bit (8 * (n - 1 - j)) w)"
  by (simp add: be_bytes_def rev_nth nth_le_bytes)

lemma byte_at_be_bytes: "j < 32 \<Longrightarrow> byte_at k j = be_bytes 32 k ! j"
  by (simp add: byte_at_def nth_be_bytes)

section \<open>Checked and saturating arithmetic\<close>

definition saturating_add :: "'a::len word \<Rightarrow> 'a word \<Rightarrow> 'a word" where
  "saturating_add a b = (if unat a + unat b < 2 ^ LENGTH('a) then a + b else - 1)"

definition saturating_sub :: "'a::len word \<Rightarrow> 'a word \<Rightarrow> 'a word" where
  "saturating_sub a b = (if b \<le> a then a - b else 0)"

definition checked_add :: "'a::len word \<Rightarrow> 'a word \<Rightarrow> 'a word option" where
  "checked_add a b = (if unat a + unat b < 2 ^ LENGTH('a) then Some (a + b) else None)"

lemma unat_saturating_add:
  fixes a b :: "'a::len word"
  shows "unat (saturating_add a b) = min (unat a + unat b) (2 ^ LENGTH('a) - 1)"
proof (cases "unat a + unat b < 2 ^ LENGTH('a)")
  case True
  then show ?thesis by (simp add: saturating_add_def unat_word_ariths)
next
  case False
  moreover have "unat (- 1 :: 'a word) = 2 ^ LENGTH('a) - 1"
    by (simp add: unsigned_minus_1_eq_mask mask_eq_exp_minus_1)
  ultimately show ?thesis by (simp add: saturating_add_def)
qed

lemma unat_saturating_sub:
  fixes a b :: "'a::len word"
  shows "unat (saturating_sub a b) = unat a - unat b"
  by (auto simp: saturating_sub_def unat_sub word_le_nat_alt)

lemma checked_add_Some:
  fixes a b c :: "'a::len word"
  assumes "checked_add a b = Some c"
  shows "unat c = unat a + unat b"
  using assms by (auto simp: checked_add_def unat_word_ariths split: if_splits)

lemma checked_add_eq_saturating:
  "checked_add a b = Some c \<Longrightarrow> saturating_add a b = c"
  by (simp add: checked_add_def saturating_add_def split: if_splits)

section \<open>Results\<close>

text \<open>The \<open>?\<close> operator on \<open>Result\<close>, an early return with an error, and \<open>ok_or\<close>.\<close>

definition and_then :: "'e + 'a \<Rightarrow> ('a \<Rightarrow> 'e + 'b) \<Rightarrow> 'e + 'b" where
  "and_then r f = (case r of Inl e \<Rightarrow> Inl e | Inr a \<Rightarrow> f a)"

definition fail_if :: "bool \<Rightarrow> 'e \<Rightarrow> 'e + unit" where
  "fail_if b e = (if b then Inl e else Inr ())"

definition ok_or :: "'e \<Rightarrow> 'a option \<Rightarrow> 'e + 'a" where
  "ok_or e m = (case m of None \<Rightarrow> Inl e | Some a \<Rightarrow> Inr a)"

lemma and_then_simps [simp]:
  "and_then (Inl e) f = Inl e"
  "and_then (Inr a) f = f a"
  by (simp_all add: and_then_def)

lemma and_then_Inr: "and_then r f = Inr b \<longleftrightarrow> (\<exists>a. r = Inr a \<and> f a = Inr b)"
  by (cases r) auto

lemma and_then_Inl: "and_then r f = Inl e \<longleftrightarrow> r = Inl e \<or> (\<exists>a. r = Inr a \<and> f a = Inl e)"
  by (cases r) auto

lemma fail_if_Inr [simp]: "fail_if b e = Inr u \<longleftrightarrow> \<not> b"
  by (simp add: fail_if_def)

lemma fail_if_Inl [simp]: "fail_if b e = Inl e' \<longleftrightarrow> b \<and> e' = e"
  by (auto simp: fail_if_def)

lemma ok_or_Inr [simp]: "ok_or e m = Inr a \<longleftrightarrow> m = Some a"
  by (simp add: ok_or_def split: option.splits)

lemma ok_or_Inl [simp]: "ok_or e m = Inl e' \<longleftrightarrow> m = None \<and> e' = e"
  by (auto simp: ok_or_def split: option.splits)

lemmas result_simps = and_then_Inr and_then_Inl

section \<open>Ordered maps\<close>

text \<open>A map is determined by its entries; removing an absent key changes nothing.\<close>

lemma fmdrop_absent: "fmlookup m k = None \<Longrightarrow> fmdrop k m = m"
  by (rule fmap_ext) auto

lemma fmupd_present: "fmlookup m k = Some v \<Longrightarrow> fmupd k v m = m"
  by (rule fmap_ext) auto

lemma fset_fmdom: "fset (fmdom m) = {k. fmlookup m k \<noteq> None}"
  by (auto simp: fmlookup_dom_iff)

lemma sorted_list_of_fmap_props:
  "map fst (sorted_list_of_fmap m) = sorted_list_of_fset (fmdom m)"
  "sorted (map fst (sorted_list_of_fmap m))"
  "distinct (map fst (sorted_list_of_fmap m))"
  by (simp_all add: sorted_list_of_fmap_def comp_def sorted_list_of_fset.rep_eq)

lemma set_sorted_list_of_fmap: "(k, v) \<in> set (sorted_list_of_fmap m) \<longleftrightarrow> fmlookup m k = Some v"
  by (metis map_of_eq_Some_iff map_of_sorted_list sorted_list_of_fmap_props(3))

lemma length_sorted_list_of_fmap: "length (sorted_list_of_fmap m) = fcard (fmdom m)"
  by (simp add: sorted_list_of_fmap_def sorted_list_of_fset.rep_eq fcard.rep_eq)

end
