(* ===== verification/Bbg_Root.thy ===== *)
theory Bbg_Root
  imports Bbg_Prelude
begin

text \<open>
  The primitives every commitment is built from (\<open>dim.rs\<close>, \<open>root.rs\<close>): field limbs, the
  four-limb compression, the flat table serialization of a dimension and the fold of the
  14 leaves into the state root.

  The linked crates are a parameter: a record \<open>ext\<close> of the functions the sources call. A
  \<open>nebu::Goldilocks\<close> is named by its representative, the \<open>u64\<close> that \<open>as_u64\<close> returns
  (the type is \<open>repr(transparent)\<close> over \<open>u64\<close>, \<open>unimem.rs\<close>), so only \<open>Goldilocks::new\<close>,
  \<open>canonicalize\<close> and the modulus \<open>nebu::field::P\<close> are fields of the parameter. \<open>hm_permute\<close> is
  hemera's permutation on 16 canonical representatives (\<open>HGold::new\<close> in, \<open>as_canonical_u64\<close> out), \<open>hm_hash\<close> its hash to 32 bytes, \<open>lens_commit\<close> the
  32 bytes of \<open>Brakedown::commit\<close> of the multilinear polynomial with these evaluations.
\<close>

type_synonym goldilocks = u64
type_synonym digest = "goldilocks \<times> goldilocks \<times> goldilocks \<times> goldilocks"

record ext =
  gl_P :: u64
  gl_new :: "u64 \<Rightarrow> goldilocks"
  gl_canonicalize :: "goldilocks \<Rightarrow> goldilocks"
  hm_permute :: "u64 list \<Rightarrow> u64 list"
  hm_hash :: "bytes \<Rightarrow> particle"
  lens_commit :: "goldilocks list \<Rightarrow> particle"

text \<open>What the sources rely on of \<open>nebu\<close> (documented in \<open>dim.rs\<close>, \<open>specs/state.md\<close> rule 2 and
  \<open>docs/api/query-proof-wire.md\<close>): the modulus is \<open>2^64 - 2^32 + 1\<close>, \<open>new\<close> reduces modulo it, so it
  keeps every value below, and \<open>canonicalize\<close> keeps what is reduced already.\<close>

definition nebu_laws :: "ext \<Rightarrow> bool" where
  "nebu_laws X \<longleftrightarrow> gl_P X = 0xffffffff00000001 \<and> (\<forall>v. v < gl_P X \<longrightarrow> gl_new X v = v) \<and> (\<forall>v. gl_new X v < gl_P X)
     \<and> (\<forall>v. v < gl_P X \<longrightarrow> gl_canonicalize X v = v)"

lemma gl_new_small:
  assumes "nebu_laws X" and "v < 2 ^ 32"
  shows "gl_new X v = v"
proof -
  have P: "gl_P X = 0xffffffff00000001" and new: "v < gl_P X \<Longrightarrow> gl_new X v = v"
    using assms(1) by (auto simp: nebu_laws_def)
  have "(2 :: u64) ^ 32 < 0xffffffff00000001" by simp
  then have "v < gl_P X" unfolding P using assms(2) by (rule order_less_trans [rotated])
  then show ?thesis by (rule new)
qed

text \<open>A concrete instance of the parameter, for the witnesses: the field as documented and small
  stand-ins for the hashes.\<close>

definition sample_ext :: ext where
  "sample_ext = \<lparr>
     gl_P = 0xffffffff00000001,
     gl_new = (\<lambda>v. if v < 0xffffffff00000001 then v else v - 0xffffffff00000001),
     gl_canonicalize = (\<lambda>v. if v < 0xffffffff00000001 then v else v - 0xffffffff00000001),
     hm_permute = (\<lambda>s. [3 * s ! 0 + 5 * s ! 4, 3 * s ! 1 + 5 * s ! 5 + 1, 3 * s ! 2 + 5 * s ! 6 + 2,
       3 * s ! 3 + 5 * s ! 7 + 3] @ drop 4 s),
     hm_hash = (\<lambda>bs. of_be_bytes (le_bytes 7 (foldl (\<lambda>a b. 31 * a + ucast b) 7 bs :: u64) @ replicate 25 0)),
     lens_commit = (\<lambda>vs. of_be_bytes (le_bytes 7 (foldl (\<lambda>a v. 31 * a + v) 7 vs) @ replicate 25 0))\<rparr>"

lemma nebu_laws_sample: "nebu_laws sample_ext"
proof -
  have "(v - 0xffffffff00000001 :: u64) < 0xffffffff00000001" if "\<not> v < 0xffffffff00000001" for v
  proof -
    have "unat v < 2 ^ 64" using unsigned_less [of v, where 'a = nat] by simp
    moreover have "0xffffffff00000001 \<le> v" using that by (simp add: not_less)
    ultimately show ?thesis by (simp add: word_less_nat_alt unat_sub word_le_nat_alt)
  qed
  then show ?thesis by (auto simp: nebu_laws_def sample_ext_def)
qed

section \<open>Field limbs\<close>

definition DIMENSION_VERSION :: u64 where "DIMENSION_VERSION = 4"
definition TABLE_VERSION :: u64 where "TABLE_VERSION = 2"
definition HEADER_FIELDS :: nat where "HEADER_FIELDS = 3"
definition KEY_FIELDS :: nat where "KEY_FIELDS = 8"

definition u64_limbs :: "ext \<Rightarrow> u64 \<Rightarrow> goldilocks list" where
  "u64_limbs X v = [gl_new X (v AND 0xffffffff), gl_new X (drop_bit 32 v)]"

definition scalar_fields :: "ext \<Rightarrow> u64 list \<Rightarrow> goldilocks list" where
  "scalar_fields X values = concat (map (u64_limbs X) values)"

definition limb_at :: "bytes \<Rightarrow> nat \<Rightarrow> u64" where
  "limb_at bs i = ucast (of_le_bytes (take 4 (drop (4 * i) bs)) :: u32)"

definition bytes32_limbs :: "ext \<Rightarrow> particle \<Rightarrow> goldilocks list" where
  "bytes32_limbs X b = map (\<lambda>i. gl_new X (limb_at (be_bytes 32 b) i)) [0..<8]"

definition goldilocks_from_bytes32 :: "ext \<Rightarrow> particle \<Rightarrow> digest" where
  "goldilocks_from_bytes32 X b =
     (let w = (\<lambda>i. gl_new X (of_le_bytes (take 8 (drop (8 * i) (be_bytes 32 b)))))
      in (w 0, w 1, w 2, w 3))"

text \<open>\<open>digest_limbs\<close> asserts that every word of the digest is below the modulus.\<close>

definition digest_limbs :: "ext \<Rightarrow> particle \<Rightarrow> digest option" where
  "digest_limbs X b =
     (if \<forall>i \<in> set [0..<4]. (of_le_bytes (take 8 (drop (8 * i) (be_bytes 32 b))) :: u64) < gl_P X
      then Some (goldilocks_from_bytes32 X b) else None)"

lemma length_u64_limbs [simp]: "length (u64_limbs X v) = 2"
  by (simp add: u64_limbs_def)

lemma length_scalar_fields [simp]: "length (scalar_fields X vs) = 2 * length vs"
  by (induction vs) (simp_all add: scalar_fields_def)

lemma length_bytes32_limbs [simp]: "length (bytes32_limbs X b) = 8"
  by (simp add: bytes32_limbs_def)

lemma ucast_less_32: "(ucast (x :: u32) :: u64) < 2 ^ 32"
proof -
  have "unat x < 2 ^ 32"
    using unsigned_less [of x, where 'a = nat] by simp
  moreover have "unat (ucast x :: u64) \<le> unat x"
    by (simp add: unsigned_ucast_eq take_bit_nat_less_eq_self)
  ultimately have "unat (ucast x :: u64) < 2 ^ 32" by linarith
  then show ?thesis
    by (simp add: word_less_nat_alt)
qed

lemma ucast_eq_iff_32: "(ucast (x :: u32) :: u64) = ucast y \<longleftrightarrow> x = y"
  by (metis (mono_tags) ucast_up_ucast_id is_up len_bit0 le_add1 mult_2)

lemma limb_at_small: "limb_at bs i < 2 ^ 32"
  by (simp only: limb_at_def ucast_less_32)

lemma low_limb_small: "(v :: u64) AND 0xffffffff < 2 ^ 32"
proof -
  have "v AND 0xffffffff \<le> 0xffffffff" by (rule word_and_le1)
  also have "(0xffffffff :: u64) < 2 ^ 32" by simp
  finally show ?thesis .
qed

lemma high_limb_small: "drop_bit 32 (v :: u64) < 2 ^ 32"
proof -
  have "unat v < 2 ^ 64"
    using unsigned_less [of v, where 'a = nat] by simp
  then have "unat v div 2 ^ 32 < 2 ^ 32"
    by (simp add: less_mult_imp_div_less)
  then have "unat (drop_bit 32 v) < 2 ^ 32"
    by (simp add: unsigned_drop_bit_eq drop_bit_eq_div take_bit_nat_eq_self unat_div)
  then show ?thesis by (simp add: word_less_nat_alt)
qed

lemma limbs_recompose: "(v AND 0xffffffff) OR push_bit 32 (drop_bit 32 v) = (v :: u64)"
proof (rule bit_eqI)
  fix i
  assume "possible_bit TYPE(64 word) i"
  then have i: "i < 64" by simp
  have m: "(0xffffffff :: u64) = mask 32" by (simp add: mask_eq_exp_minus_1)
  show "bit ((v AND 0xffffffff) OR push_bit 32 (drop_bit 32 v)) i \<longleftrightarrow> bit v i"
    unfolding m using i
    by (cases "i < 32") (auto simp: bit_or_iff bit_and_iff bit_mask_iff bit_push_bit_iff bit_drop_bit_eq)
qed

text \<open>The encoding of a \<open>u64\<close> is injective; a reduction modulo the field would not be.\<close>

lemma u64_limbs_inj:
  assumes "nebu_laws X"
  shows "u64_limbs X v = u64_limbs X w \<longleftrightarrow> v = w"
  by (auto simp: u64_limbs_def gl_new_small [OF assms low_limb_small] gl_new_small [OF assms high_limb_small])
     (metis limbs_recompose)

lemma scalar_fields_inj:
  assumes "nebu_laws X" and "length vs = length ws"
  shows "scalar_fields X vs = scalar_fields X ws \<longleftrightarrow> vs = ws"
  using assms(2)
proof (induction vs ws rule: list_induct2)
  case Nil
  then show ?case by simp
next
  case (Cons v vs w ws)
  then show ?case
    by (simp add: scalar_fields_def u64_limbs_inj [OF assms(1)])
qed

lemma limb_at_eq:
  assumes "length as = 32" and "length bs = 32" and "\<And>i. i < 8 \<Longrightarrow> limb_at as i = limb_at bs i"
  shows "as = bs"
proof (rule nth_equalityI)
  show "length as = length bs" using assms(1,2) by simp
next
  fix j
  assume j: "j < length as"
  have i: "j div 4 < 8" using j assms(1) by simp
  let ?c = "\<lambda>xs :: bytes. take 4 (drop (4 * (j div 4)) xs)"
  have len: "length (?c as) = 4" "length (?c bs) = 4"
    using i assms(1,2) by auto
  have "(of_le_bytes (?c as) :: u32) = of_le_bytes (?c bs)"
    using assms(3) [OF i] by (simp only: limb_at_def ucast_eq_iff_32)
  then have "le_bytes 4 (of_le_bytes (?c as) :: u32) = le_bytes 4 (of_le_bytes (?c bs) :: u32)"
    by simp
  then have "?c as = ?c bs"
    using len by (simp add: le_bytes_of_le_bytes [where 'a = 32])
  then have "?c as ! (j mod 4) = ?c bs ! (j mod 4)" by simp
  then show "as ! j = bs ! j"
    using i assms(1,2) by (simp add: mult.commute)
qed

lemma bytes32_limbs_inj:
  assumes "nebu_laws X"
  shows "bytes32_limbs X a = bytes32_limbs X b \<longleftrightarrow> a = b"
proof
  assume "bytes32_limbs X a = bytes32_limbs X b"
  then have "\<And>i. i < 8 \<Longrightarrow> limb_at (be_bytes 32 a) i = limb_at (be_bytes 32 b) i"
    by (simp add: bytes32_limbs_def gl_new_small [OF assms limb_at_small])
  then have "be_bytes 32 a = be_bytes 32 b"
    by (intro limb_at_eq) simp_all
  then show "a = b" by (simp add: be_bytes_inj)
qed simp

section \<open>The flat table of a dimension\<close>

definition dim_serialize :: "ext \<Rightarrow> (particle \<times> goldilocks list) list \<Rightarrow> goldilocks list" where
  "dim_serialize X entries =
     (let count = HEADER_FIELDS + sum_list (map (\<lambda>(_, values). KEY_FIELDS + length values) entries)
      in [gl_new X TABLE_VERSION, gl_new X (of_nat count), gl_new X (of_nat (length entries))]
         @ concat (map (\<lambda>(key, values). bytes32_limbs X key @ values) entries))"

function next_power_from :: "nat \<Rightarrow> nat \<Rightarrow> nat" where
  "next_power_from k n = (if 2 ^ k < n then next_power_from (Suc k) n else 2 ^ k)"
  by pat_completeness auto
termination
proof (relation "measure (\<lambda>(k, n). n - 2 ^ k)")
  fix k n :: nat
  assume "2 ^ k < n"
  moreover have "(2 :: nat) ^ k < 2 ^ Suc k" by simp
  ultimately show "((Suc k, n), k, n) \<in> measure (\<lambda>(k, n). n - 2 ^ k)"
    unfolding in_measure split_conv by (rule diff_less_mono2 [rotated])
qed simp

declare next_power_from.simps [simp del]

definition next_power_of_two :: "nat \<Rightarrow> nat" where
  "next_power_of_two n = next_power_from 0 n"

definition commit_fields :: "ext \<Rightarrow> goldilocks list \<Rightarrow> particle" where
  "commit_fields X fs =
     lens_commit X (fs @ replicate (next_power_of_two (length fs) - length fs) 0)"

definition commit_dim :: "ext \<Rightarrow> (particle \<times> goldilocks list) list \<Rightarrow> particle" where
  "commit_dim X entries = commit_fields X (dim_serialize X entries)"

lemma next_power_from_ge: "n \<le> next_power_from k n"
  by (induction k n rule: next_power_from.induct) (subst next_power_from.simps, simp)

lemma next_power_of_two_ge: "n \<le> next_power_of_two n"
  by (simp add: next_power_of_two_def next_power_from_ge)

lemma length_concat_entries:
  "length (concat (map (\<lambda>(key, values). bytes32_limbs X key @ values) es)) =
     sum_list (map (\<lambda>(_, values). KEY_FIELDS + length values) es)"
  by (induction es) (auto simp: KEY_FIELDS_def)

lemma length_dim_serialize:
  "length (dim_serialize X es) =
     HEADER_FIELDS + sum_list (map (\<lambda>(_, values). KEY_FIELDS + length values) es)"
  by (simp add: dim_serialize_def Let_def length_concat_entries HEADER_FIELDS_def)

text \<open>A layout whose record widths can be read off the fields has one reading. \<open>wd\<close> is the
  width of a record from its own fields on: constant for the fixed-width dimensions, the
  stored degree for the adjacency ones.\<close>

definition self_delimiting :: "(goldilocks list \<Rightarrow> nat) \<Rightarrow> (particle \<times> goldilocks list) list \<Rightarrow> bool" where
  "self_delimiting wd es \<longleftrightarrow> (\<forall>(k, v) \<in> set es. \<forall>rest. wd (v @ rest) = length v)"

lemma entries_inj:
  assumes X: "nebu_laws X"
  shows "self_delimiting wd es \<Longrightarrow> self_delimiting wd fs \<Longrightarrow>
    concat (map (\<lambda>(key, values). bytes32_limbs X key @ values) es) =
    concat (map (\<lambda>(key, values). bytes32_limbs X key @ values) fs) \<Longrightarrow> es = fs"
proof (induction es arbitrary: fs)
  case Nil
  then show ?case
    by (cases fs) (auto dest: arg_cong [where f = length])
next
  case (Cons e es)
  obtain k v where e: "e = (k, v)" by force
  show ?case
  proof (cases fs)
    case Nil
    with Cons.prems(3) e show ?thesis by (auto dest: arg_cong [where f = length])
  next
    case (Cons f gs)
    obtain k' v' where f: "f = (k', v')" by force
    let ?r = "\<lambda>xs. concat (map (\<lambda>(key, values). bytes32_limbs X key @ values) xs)"
    have eq: "bytes32_limbs X k = bytes32_limbs X k'" "v @ ?r es = v' @ ?r gs"
      using Cons.prems(3) by (simp_all add: e f Cons)
    have "length v = length v'"
      using Cons.prems(1,2) eq(2) unfolding self_delimiting_def e f Cons
      by (metis (mono_tags, lifting) case_prodD list.set_intros(1))
    with eq(2) have "v = v'" and r: "?r es = ?r gs" by simp_all
    moreover have "es = gs"
      using Cons.prems(1,2) r by (intro Cons.IH) (auto simp: self_delimiting_def Cons)
    moreover have "k = k'"
      using eq(1) bytes32_limbs_inj [OF X] by blast
    ultimately show ?thesis by (simp add: e f Cons)
  qed
qed

lemma dim_serialize_inj:
  assumes "nebu_laws X" and "self_delimiting wd es" and "self_delimiting wd fs"
    and "dim_serialize X es = dim_serialize X fs"
  shows "es = fs"
  using entries_inj [OF assms(1-3)] assms(4) by (simp add: dim_serialize_def Let_def)

lemma self_delimiting_const: "(\<And>k v. (k, v) \<in> set es \<Longrightarrow> length v = n) \<Longrightarrow> self_delimiting (\<lambda>_. n) es"
  by (auto simp: self_delimiting_def)

text \<open>The contract of the hash that \<open>digest_limbs\<close> asserts: every eight-byte word of a digest is canonical.\<close>

definition canonical_digest :: "ext \<Rightarrow> particle \<Rightarrow> bool" where
  "canonical_digest X b \<longleftrightarrow> (\<forall>i \<in> set [0..<4]. (of_le_bytes (take 8 (drop (8 * i) (be_bytes 32 b))) :: u64) < gl_P X)"

definition hemera_laws :: "ext \<Rightarrow> bool" where
  "hemera_laws X \<longleftrightarrow> (\<forall>bs. canonical_digest X (hm_hash X bs)) \<and> (\<forall>vs. canonical_digest X (lens_commit X vs))"

lemma digest_limbs_canonical: "canonical_digest X b \<Longrightarrow> digest_limbs X b = Some (goldilocks_from_bytes32 X b)"
  by (simp add: digest_limbs_def canonical_digest_def)

lemma padded_word_canonical:
  assumes "length bs = 7"
  shows "canonical_digest sample_ext (of_be_bytes (bs @ replicate 25 0))"
proof -
  have be: "be_bytes 32 (of_be_bytes (bs @ replicate 25 0) :: particle) = bs @ replicate 25 0"
    using assms by (simp add: be_bytes_of_be_bytes)
  have small: "w < 0xffffffff00000001" if "\<And>j. 56 \<le> j \<Longrightarrow> \<not> bit w j" for w :: u64
  proof -
    have "w = take_bit 56 w"
      using that by (intro bit_eqI) (auto simp: bit_take_bit_iff intro: leI)
    also have "\<dots> \<le> mask 56" by (simp add: take_bit_eq_mask word_and_le1)
    also have "(mask 56 :: u64) < 0xffffffff00000001" by (simp add: mask_eq_exp_minus_1)
    finally show ?thesis .
  qed
  have "(of_le_bytes (take 8 (drop (8 * i) (bs @ replicate 25 0))) :: u64) < 0xffffffff00000001" if "i < 4" for i
    by (rule small) (use that assms in \<open>auto simp: bit_of_le_bytes nth_append\<close>)
  then show ?thesis
    unfolding canonical_digest_def be by (auto simp: sample_ext_def)
qed

lemma hemera_laws_sample: "hemera_laws sample_ext"
proof -
  have "hm_hash sample_ext = (\<lambda>bs. of_be_bytes (le_bytes 7 (foldl (\<lambda>a b. 31 * a + ucast b) 7 bs :: u64) @ replicate 25 0))"
    "lens_commit sample_ext = (\<lambda>vs. of_be_bytes (le_bytes 7 (foldl (\<lambda>a v. 31 * a + v) 7 vs) @ replicate 25 0))"
    by (simp_all add: sample_ext_def)
  then show ?thesis
    by (simp only: hemera_laws_def) (simp add: padded_word_canonical)
qed

section \<open>Compression and the root\<close>

definition compress4 :: "ext \<Rightarrow> digest \<Rightarrow> digest \<Rightarrow> digest" where
  "compress4 X a b =
     (case (a, b) of ((a0, a1, a2, a3), (b0, b1, b2, b3)) \<Rightarrow>
        let s = hm_permute X (map (gl_canonicalize X) [a0, a1, a2, a3, b0, b1, b2, b3] @ replicate 8 0)
        in (gl_new X (s ! 0), gl_new X (s ! 1), gl_new X (s ! 2), gl_new X (s ! 3)))"

lemma compress4_sample:
  "compress4 sample_ext (a0, a1, a2, a3) (b0, b1, b2, b3) =
     (let r = (\<lambda>v :: u64. if v < 0xffffffff00000001 then v else v - 0xffffffff00000001)
      in (r (3 * r a0 + 5 * r b0), r (3 * r a1 + 5 * r b1 + 1), r (3 * r a2 + 5 * r b2 + 2), r (3 * r a3 + 5 * r b3 + 3)))"
  by (simp add: compress4_def sample_ext_def Let_def)

record root_leaves =
  rl_dims :: "digest list"
  rl_a :: digest
  rl_n :: digest
  rl_stats :: digest

definition ordered :: "root_leaves \<Rightarrow> digest list" where
  "ordered l = rl_dims l @ [rl_a l, rl_n l, rl_stats l]"

definition tag_word :: "bytes \<Rightarrow> u64" where
  "tag_word bs = of_le_bytes bs"

text \<open>\<open>"bbg-root"\<close> as a little-endian word.\<close>

definition ROOT_TAG :: u64 where
  "ROOT_TAG = tag_word [0x62, 0x62, 0x67, 0x2d, 0x72, 0x6f, 0x6f, 0x74]"

definition root_iv :: "ext \<Rightarrow> digest" where
  "root_iv X = (gl_new X ROOT_TAG, 0, 0, 0)"

definition root_from_leaves :: "ext \<Rightarrow> root_leaves \<Rightarrow> digest" where
  "root_from_leaves X leaves = foldl (compress4 X) (root_iv X) (ordered leaves)"

definition root_to_bytes :: "digest \<Rightarrow> particle" where
  "root_to_bytes root = (case root of (r0, r1, r2, r3) \<Rightarrow>
     of_be_bytes (concat (map (le_bytes 8) [r0, r1, r2, r3])))"

text \<open>The pairs a chain of compressions evaluates. No hash is injective, so binding is stated
  relative to the compressions that were evaluated: a second preimage of a chain is a
  collision among them.\<close>

fun chain_pairs :: "('a \<Rightarrow> 'b \<Rightarrow> 'a) \<Rightarrow> 'a \<Rightarrow> 'b list \<Rightarrow> ('a \<times> 'b) list" where
  "chain_pairs c a [] = []"
| "chain_pairs c a (l # ls) = (a, l) # chain_pairs c (c a l) ls"

lemma chain_binds:
  assumes "length ls = length ms"
    and "inj_on (\<lambda>(a, b). c a b) (set (chain_pairs c a ls) \<union> set (chain_pairs c b ms))"
    and "foldl c a ls = foldl c b ms"
  shows "a = b \<and> ls = ms"
  using assms
proof (induction ls ms arbitrary: a b rule: list_induct2)
  case Nil
  then show ?case by simp
next
  case (Cons l ls m ms)
  have "c a l = c b m \<and> ls = ms"
    using Cons.prems by (intro Cons.IH) (auto intro: inj_on_subset)
  moreover from this have "(a, l) = (b, m)"
    using inj_onD [OF Cons.prems(1), of "(a, l)" "(b, m)"] by simp
  ultimately show ?case by simp
qed

lemma root_to_bytes_inj:
  assumes "root_to_bytes r = root_to_bytes r'"
  shows "r = r'"
proof -
  obtain a b c d where r: "r = (a, b, c, d)" by (cases r) auto
  obtain a' b' c' d' where r': "r' = (a', b', c', d')" by (cases r') auto
  have "concat (map (le_bytes 8) [a, b, c, d]) = concat (map (le_bytes 8) [a', b', c', d'])"
    using arg_cong [OF assms, of "be_bytes 32"] by (simp add: root_to_bytes_def r r')
  then show ?thesis by (simp add: r r' le_bytes_inj)
qed

section \<open>Properties\<close>

text \<open>C6: the root binds every leaf. Two sets of 14 leaves with the same 32-byte root are equal, unless two
  of the compressions evaluated in the two folds collide.\<close>

theorem root_binds:
  assumes "length (rl_dims l) = 11" and "length (rl_dims m) = 11"
    and "inj_on (\<lambda>(a, b). compress4 X a b)
      (set (chain_pairs (compress4 X) (root_iv X) (ordered l)) \<union> set (chain_pairs (compress4 X) (root_iv X) (ordered m)))"
    and "root_to_bytes (root_from_leaves X l) = root_to_bytes (root_from_leaves X m)"
  shows "l = m"
proof -
  have "root_from_leaves X l = root_from_leaves X m" using assms(4) by (rule root_to_bytes_inj)
  then have "ordered l = ordered m"
    using chain_binds [OF _ assms(3)] assms(1,2) by (simp add: ordered_def root_from_leaves_def)
  then show ?thesis
    using assms(1,2) by (simp add: ordered_def)
qed

definition sample_leaves :: root_leaves where
  "sample_leaves = \<lparr>rl_dims = [(1, 2, 3, 4), (1, 2, 3, 4), (1, 2, 3, 4), (1, 2, 3, 4), (1, 2, 3, 4), (1, 2, 3, 4), (1, 2, 3, 4), (1, 2, 3, 4), (1, 2, 3, 4), (1, 2, 3, 4), (1, 2, 3, 4)], rl_a = (5, 6, 7, 8), rl_n = (0, 0, 0, 0), rl_stats = (9, 9, 9, 9)\<rparr>"

lemma root_iv_sample: "root_iv sample_ext = (8390047166993228386, 0, 0, 0)"
  by (simp add: root_iv_def ROOT_TAG_def tag_word_def sample_ext_def)

definition other_leaves :: root_leaves where
  "other_leaves = sample_leaves\<lparr>rl_stats := (10, 9, 9, 9)\<rparr>"

lemma chain_pairs_snoc: "chain_pairs c a (xs @ [x]) = chain_pairs c a xs @ [(foldl c a xs, x)]"
  by (induction xs arbitrary: a) simp_all

text \<open>The two folds share all but their last step; the leading limbs of their values are pairwise different.\<close>

definition sample_common :: "digest list" where
  "sample_common = [(1, 2, 3, 4), (1, 2, 3, 4), (1, 2, 3, 4), (1, 2, 3, 4), (1, 2, 3, 4), (1, 2, 3, 4), (1, 2, 3, 4), (1, 2, 3, 4), (1, 2, 3, 4), (1, 2, 3, 4), (1, 2, 3, 4), (5, 6, 7, 8), (0, 0, 0, 0)]"

lemma sample_ordered: "ordered sample_leaves = sample_common @ [(9, 9, 9, 9)]" "ordered other_leaves = sample_common @ [(10, 9, 9, 9)]"
  by (simp_all add: ordered_def sample_leaves_def other_leaves_def sample_common_def)

lemma sample_fold:
  "map fst (map (\<lambda>(a, b). compress4 sample_ext a b) (chain_pairs (compress4 sample_ext) (root_iv sample_ext) (ordered sample_leaves))) =
     [6723397427270133547, 1723448208100849030, 5170344624302547095, 15511033872907641290, 9639613471303820643, 10472096340201910318, 12969544946896179343, 2015146693269434802, 6045440079808304411, 18136320239424913238, 17515472570855636487, 15652929565147806254, 10065300548024315530, 11749157570363395019]"
  by (simp add: compress4_sample root_iv_sample ordered_def sample_leaves_def Let_def)

lemma sample_last: "fst (compress4 sample_ext (foldl (compress4 sample_ext) (root_iv sample_ext) sample_common) (10, 9, 9, 9)) = 11749157570363395024"
  by (simp add: compress4_sample root_iv_sample sample_common_def Let_def)

lemma sample_folds_apart:
  assumes "m \<in> {sample_leaves, other_leaves}"
  shows "inj_on (\<lambda>(a, b). compress4 sample_ext a b) (set (chain_pairs (compress4 sample_ext) (root_iv sample_ext) (ordered sample_leaves)) \<union>
    set (chain_pairs (compress4 sample_ext) (root_iv sample_ext) (ordered m)))"
proof -
  let ?f = "\<lambda>(a, b). compress4 sample_ext a b" and ?c = "\<lambda>l. chain_pairs (compress4 sample_ext) (root_iv sample_ext) (ordered l)"
  let ?ps = "?c sample_leaves @ [(foldl (compress4 sample_ext) (root_iv sample_ext) sample_common, (10, 9, 9, 9))]"
  have "distinct (map fst (map ?f ?ps))" unfolding map_append sample_fold by (simp add: sample_last)
  then have "inj_on ?f (set ?ps)" unfolding distinct_map by blast
  moreover have "set (?c sample_leaves) \<union> set (?c m) \<subseteq> set ?ps" using assms by (auto simp: sample_ordered chain_pairs_snoc)
  ultimately show ?thesis by (rule inj_on_subset)
qed

theorem root_binds_witness:
  "other_leaves \<noteq> sample_leaves \<and> list_all (\<lambda>m. length (rl_dims m) = 11 \<and>
     inj_on (\<lambda>(a, b). compress4 sample_ext a b) (set (chain_pairs (compress4 sample_ext) (root_iv sample_ext) (ordered sample_leaves)) \<union>
       set (chain_pairs (compress4 sample_ext) (root_iv sample_ext) (ordered m))) \<and>
     (root_to_bytes (root_from_leaves sample_ext sample_leaves) = root_to_bytes (root_from_leaves sample_ext m) \<longleftrightarrow> sample_leaves = m))
     [sample_leaves, other_leaves]"
  unfolding list_all_iff
proof (intro conjI ballI)
  show "other_leaves \<noteq> sample_leaves" by (simp add: other_leaves_def sample_leaves_def)
  fix m assume "m \<in> set [sample_leaves, other_leaves]"
  then have m: "m \<in> {sample_leaves, other_leaves}" by simp
  show len: "length (rl_dims m) = 11" using m by (auto simp: other_leaves_def sample_leaves_def)
  show "inj_on (\<lambda>(a, b). compress4 sample_ext a b) (set (chain_pairs (compress4 sample_ext) (root_iv sample_ext) (ordered sample_leaves)) \<union>
       set (chain_pairs (compress4 sample_ext) (root_iv sample_ext) (ordered m)))" by (rule sample_folds_apart [OF m])
  have "length (rl_dims sample_leaves) = 11" by (simp add: sample_leaves_def)
  from root_binds [OF this len sample_folds_apart [OF m]]
  show "root_to_bytes (root_from_leaves sample_ext sample_leaves) = root_to_bytes (root_from_leaves sample_ext m) \<longleftrightarrow> sample_leaves = m" by auto
qed

text \<open>the flat table of a dimension is injective: two lists of records in a self-delimiting layout
  (fixed width, or a width read off the record's own fields) with the same fields are equal. Keys
  enter as eight 32-bit limbs, so no two keys share an encoding.\<close>

theorem dim_serialize_injective:
  assumes "nebu_laws X" and "self_delimiting wd es" and "self_delimiting wd fs"
    and "dim_serialize X es = dim_serialize X fs"
  shows "es = fs"
  by (rule dim_serialize_inj [OF assms])

theorem dim_serialize_injective_witness: "[(3, [1, 2])] = [(3 :: particle, [1, 2 :: goldilocks])]"
  by (rule dim_serialize_injective [OF nebu_laws_sample, where wd = "\<lambda>_. 2"])
    (simp_all add: self_delimiting_def)

end
