(* ===== verification/Bbg_Trie.thy ===== *)
theory Bbg_Trie
  imports Bbg_Root
begin

text \<open>
  The keyed trie (\<open>trie.rs\<close>), the dimension commitment of \<open>RootVersion::V2\<close>: an arena of
  nodes with a free list, cached digests and dirty marks.

  \<^item> The operations are those of the source on the arena, in the option monad: \<open>None\<close> is a panic
    (an index out of range, \<open>unreachable!\<close>, \<open>expect\<close>, a failed \<open>debug_assert\<close>, an underflow of
    \<open>len\<close>) or a walk that does not end.
  \<^item> Node indices are \<open>u32\<close> as in the source, so the cast in \<open>alloc\<close> wraps.
  \<^item> Trees that carry their arena addresses (\<open>atree\<close>) are the abstraction the proofs work with.
\<close>

section \<open>Key bits and node digests\<close>

definition LEAF_TAG :: u64 where
  "LEAF_TAG = tag_word [0x62, 0x62, 0x67, 0x2d, 0x6c, 0x65, 0x61, 0x66]"

definition BRANCH_TAG :: u64 where
  "BRANCH_TAG = tag_word [0x62, 0x62, 0x67, 0x2d, 0x6e, 0x6f, 0x64, 0x65]"

definition EMPTY :: digest where
  "EMPTY = (0, 0, 0, 0)"

definition key_bit :: "particle \<Rightarrow> u16 \<Rightarrow> bool option" where
  "key_bit key i =
     (let j = unat (i div 8)
      in if j < 32 then Some (drop_bit (unat (7 - i mod 8)) (byte_at key j) AND 1 = 1) else None)"

definition leading_zeros :: "u8 \<Rightarrow> nat" where
  "leading_zeros d = length (takeWhile (\<lambda>i. \<not> bit d (7 - i)) [0..<8])"

fun first_diff_from :: "nat \<Rightarrow> bytes \<Rightarrow> bytes \<Rightarrow> u16 option" where
  "first_diff_from i (x # xs) (y # ys) =
     (let d = x XOR y
      in if d \<noteq> 0 then Some (of_nat i * 8 + of_nat (leading_zeros d))
         else first_diff_from (Suc i) xs ys)"
| "first_diff_from i _ _ = None"

definition first_diff_bit :: "particle \<Rightarrow> particle \<Rightarrow> u16 option" where
  "first_diff_bit a b = first_diff_from 0 (be_bytes 32 a) (be_bytes 32 b)"

text \<open>\<open>slice::chunks(4)\<close> with each chunk copied into a zeroed block of four.\<close>

fun chunks4 :: "goldilocks list \<Rightarrow> digest list" where
  "chunks4 [] = []"
| "chunks4 [a] = [(a, 0, 0, 0)]"
| "chunks4 [a, b] = [(a, b, 0, 0)]"
| "chunks4 [a, b, c] = [(a, b, c, 0)]"
| "chunks4 (a # b # c # d # vs) = (a, b, c, d) # chunks4 vs"

definition leaf_iv :: "ext \<Rightarrow> nat \<Rightarrow> digest" where
  "leaf_iv X n = (gl_new X LEAF_TAG, gl_new X (of_nat n), gl_new X DIMENSION_VERSION, 0)"

definition leaf_digest :: "ext \<Rightarrow> particle \<Rightarrow> goldilocks list \<Rightarrow> digest" where
  "leaf_digest X key vals =
     (let acc = foldl (compress4 X) (leaf_iv X (length vals)) (chunks4 (bytes32_limbs X key))
      in foldl (compress4 X) acc (chunks4 vals))"

definition branch_iv :: "ext \<Rightarrow> u16 \<Rightarrow> digest" where
  "branch_iv X b = (gl_new X BRANCH_TAG, gl_new X (ucast b), 0, 0)"

definition branch_digest :: "ext \<Rightarrow> u16 \<Rightarrow> digest \<Rightarrow> digest \<Rightarrow> digest" where
  "branch_digest X b left right = compress4 X (compress4 X (branch_iv X b) left) right"

section \<open>The arena and its operations\<close>

datatype node =
  Leaf (leaf_key: particle) (node_digest: digest)
| Branch (branch_bit: u16) (branch_left: u32) (branch_right: u32) (node_digest: digest) (branch_dirty: bool)

record trie =
  tr_nodes :: "node list"
  tr_free :: "u32 list"
  tr_root :: "u32 option"
  tr_len :: nat

definition trie_new :: trie where
  "trie_new = \<lparr>tr_nodes = [], tr_free = [], tr_root = None, tr_len = 0\<rparr>"

definition trie_is_empty :: "trie \<Rightarrow> bool" where
  "trie_is_empty T \<longleftrightarrow> tr_len T = 0"

definition node_at :: "node list \<Rightarrow> u32 \<Rightarrow> node option" where
  "node_at ns i = (if unat i < length ns then Some (ns ! unat i) else None)"

definition node_put :: "node list \<Rightarrow> u32 \<Rightarrow> node \<Rightarrow> node list option" where
  "node_put ns i nd = (if unat i < length ns then Some (ns[unat i := nd]) else None)"

definition trie_is_dirty :: "trie \<Rightarrow> bool option" where
  "trie_is_dirty T = (case tr_root T of None \<Rightarrow> Some False
     | Some r \<Rightarrow> do { nd \<leftarrow> node_at (tr_nodes T) r;
                      Some (case nd of Branch _ _ _ _ d \<Rightarrow> d | Leaf _ _ \<Rightarrow> False) })"

partial_function (option) trie_hash :: "ext \<Rightarrow> node list \<Rightarrow> u32 \<Rightarrow> (node list \<times> digest) option" where
  "trie_hash X ns idx = do {
     nd \<leftarrow> node_at ns idx;
     case nd of
       Leaf _ d \<Rightarrow> Some (ns, d)
     | Branch b left right d dirty \<Rightarrow>
         if \<not> dirty then Some (ns, d)
         else do {
           (ns, l) \<leftarrow> trie_hash X ns left;
           (ns, r) \<leftarrow> trie_hash X ns right;
           let d = branch_digest X b l r;
           nd \<leftarrow> node_at ns idx;
           case nd of
             Branch b left right _ _ \<Rightarrow> do { ns \<leftarrow> node_put ns idx (Branch b left right d False); Some (ns, d) }
           | Leaf _ _ \<Rightarrow> Some (ns, d) } }"

definition trie_root :: "ext \<Rightarrow> trie \<Rightarrow> (trie \<times> digest) option" where
  "trie_root X T = (case tr_root T of None \<Rightarrow> Some (T, EMPTY)
     | Some r \<Rightarrow> do { (ns, d) \<leftarrow> trie_hash X (tr_nodes T) r; Some (T\<lparr>tr_nodes := ns\<rparr>, d) })"

definition trie_alloc :: "trie \<Rightarrow> node \<Rightarrow> (trie \<times> u32) option" where
  "trie_alloc T nd =
     (if tr_free T \<noteq> [] then do {
        let i = last (tr_free T);
        ns \<leftarrow> node_put (tr_nodes T) i nd;
        Some (T\<lparr>tr_nodes := ns, tr_free := butlast (tr_free T)\<rparr>, i) }
      else Some (T\<lparr>tr_nodes := tr_nodes T @ [nd]\<rparr>, of_nat (length (tr_nodes T))))"

definition trie_release :: "trie \<Rightarrow> u32 \<Rightarrow> trie" where
  "trie_release T i = T\<lparr>tr_free := tr_free T @ [i]\<rparr>"

partial_function (option) descend_from :: "node list \<Rightarrow> particle \<Rightarrow> u32 list \<Rightarrow> u32 \<Rightarrow> (u32 list \<times> u32) option" where
  "descend_from ns key path cur = do {
     nd \<leftarrow> node_at ns cur;
     case nd of
       Branch b left right _ _ \<Rightarrow> do {
         s \<leftarrow> key_bit key b;
         descend_from ns key (path @ [cur]) (if s then right else left) }
     | Leaf _ _ \<Rightarrow> Some (path, cur) }"

definition trie_descend :: "trie \<Rightarrow> particle \<Rightarrow> (u32 list \<times> u32) option" where
  "trie_descend T key = do { r \<leftarrow> tr_root T; descend_from (tr_nodes T) key [] r }"

fun trie_mark :: "node list \<Rightarrow> u32 list \<Rightarrow> node list option" where
  "trie_mark ns [] = Some ns"
| "trie_mark ns (i # path) = do {
     nd \<leftarrow> node_at ns i;
     ns \<leftarrow> (case nd of Branch b l r d _ \<Rightarrow> node_put ns i (Branch b l r d True) | Leaf _ _ \<Rightarrow> Some ns);
     trie_mark ns path }"

definition replace_child :: "node list \<Rightarrow> u32 \<Rightarrow> u32 \<Rightarrow> u32 \<Rightarrow> node list option" where
  "replace_child ns parent old new = do {
     nd \<leftarrow> node_at ns parent;
     case nd of
       Branch b left right d f \<Rightarrow>
         if left = old then node_put ns parent (Branch b new right d f)
         else if right = old then node_put ns parent (Branch b left new d f)
         else None
     | Leaf _ _ \<Rightarrow> Some ns }"

definition nth_opt :: "'a list \<Rightarrow> nat \<Rightarrow> 'a option" where
  "nth_opt xs i = (if i < length xs then Some (xs ! i) else None)"

primrec keep_loop :: "node list \<Rightarrow> u32 list \<Rightarrow> u16 \<Rightarrow> nat \<Rightarrow> nat option" where
  "keep_loop ns path j 0 = Some 0"
| "keep_loop ns path j (Suc n) = do {
     i \<leftarrow> nth_opt path n;
     nd \<leftarrow> node_at ns i;
     case nd of Branch b _ _ _ _ \<Rightarrow> if b < j then Some (Suc n) else keep_loop ns path j n
     | Leaf _ _ \<Rightarrow> None }"

definition trie_set :: "trie \<Rightarrow> particle \<Rightarrow> digest \<Rightarrow> (trie \<times> bool) option" where
  "trie_set T key d = (case tr_root T of
     None \<Rightarrow> do {
       (T, leaf) \<leftarrow> trie_alloc T (Leaf key d);
       Some (T\<lparr>tr_root := Some leaf, tr_len := 1\<rparr>, True) }
   | Some _ \<Rightarrow> do {
       (path, leaf) \<leftarrow> trie_descend T key;
       nd \<leftarrow> node_at (tr_nodes T) leaf;
       case nd of Branch _ _ _ _ _ \<Rightarrow> None
       | Leaf k d0 \<Rightarrow>
           if k = key then
             if d0 = d then Some (T, False)
             else do {
               ns \<leftarrow> node_put (tr_nodes T) leaf (Leaf k d);
               ns \<leftarrow> trie_mark ns path;
               Some (T\<lparr>tr_nodes := ns\<rparr>, False) }
           else do {
             j \<leftarrow> first_diff_bit key k;
             keep \<leftarrow> keep_loop (tr_nodes T) path j (length path);
             split \<leftarrow> (if keep = length path then Some leaf else nth_opt path keep);
             (T, new_leaf) \<leftarrow> trie_alloc T (Leaf key d);
             s \<leftarrow> key_bit key j;
             (T, branch) \<leftarrow> trie_alloc T (if s then Branch j split new_leaf EMPTY True
                                         else Branch j new_leaf split EMPTY True);
             T \<leftarrow> (if keep = 0 then Some (T\<lparr>tr_root := Some branch\<rparr>)
                  else do { p \<leftarrow> nth_opt path (keep - 1);
                            ns \<leftarrow> replace_child (tr_nodes T) p split branch;
                            Some (T\<lparr>tr_nodes := ns\<rparr>) });
             ns \<leftarrow> trie_mark (tr_nodes T) (take keep path);
             Some (T\<lparr>tr_nodes := ns, tr_len := tr_len T + 1\<rparr>, True) } })"

definition trie_remove :: "trie \<Rightarrow> particle \<Rightarrow> (trie \<times> bool) option" where
  "trie_remove T key = (case tr_root T of
     None \<Rightarrow> Some (T, False)
   | Some _ \<Rightarrow> do {
       (path, leaf) \<leftarrow> trie_descend T key;
       nd \<leftarrow> node_at (tr_nodes T) leaf;
       if \<not> (case nd of Leaf k _ \<Rightarrow> k = key | Branch _ _ _ _ _ \<Rightarrow> False) then Some (T, False)
       else do {
         let T = trie_release T leaf;
         T \<leftarrow> (if tr_len T = 0 then None else Some (T\<lparr>tr_len := tr_len T - 1\<rparr>));
         if path = [] then Some (T\<lparr>tr_root := None\<rparr>, True)
         else do {
           let parent = last path;
           nd \<leftarrow> node_at (tr_nodes T) parent;
           case nd of Leaf _ _ \<Rightarrow> None
           | Branch _ left right _ _ \<Rightarrow> do {
               let sibling = (if left = leaf then right else left);
               let T = trie_release T parent;
               let rest = butlast path;
               T \<leftarrow> (if rest = [] then Some (T\<lparr>tr_root := Some sibling\<rparr>)
                    else do { ns \<leftarrow> replace_child (tr_nodes T) (last rest) parent sibling;
                              Some (T\<lparr>tr_nodes := ns\<rparr>) });
               ns \<leftarrow> trie_mark (tr_nodes T) rest;
               Some (T\<lparr>tr_nodes := ns\<rparr>, True) } } } })"

definition trie_get :: "trie \<Rightarrow> particle \<Rightarrow> digest option option" where
  "trie_get T key = (case tr_root T of None \<Rightarrow> Some None
     | Some _ \<Rightarrow> do {
         (_, leaf) \<leftarrow> trie_descend T key;
         nd \<leftarrow> node_at (tr_nodes T) leaf;
         Some (case nd of Leaf k d \<Rightarrow> if k = key then Some d else None | Branch _ _ _ _ _ \<Rightarrow> None) })"

fun from_entries :: "trie \<Rightarrow> (particle \<times> digest) list \<Rightarrow> trie option" where
  "from_entries T [] = Some T"
| "from_entries T ((k, d) # es) = do { (T, _) \<leftarrow> trie_set T k d; from_entries T es }"

section \<open>Proofs of inclusion and of absence\<close>

record trie_proof =
  tp_steps :: "(u16 \<times> digest) list"
  tp_terminal :: "(particle \<times> digest) option"

fun prove_steps :: "node list \<Rightarrow> particle \<Rightarrow> u32 list \<Rightarrow> (u16 \<times> digest) list option" where
  "prove_steps ns key [] = Some []"
| "prove_steps ns key (i # path) = do {
     nd \<leftarrow> node_at ns i;
     case nd of Leaf _ _ \<Rightarrow> None
     | Branch b left right _ _ \<Rightarrow> do {
         s \<leftarrow> key_bit key b;
         sib \<leftarrow> node_at ns (if s then left else right);
         rest \<leftarrow> prove_steps ns key path;
         Some ((b, node_digest sib) # rest) } }"

definition trie_prove :: "ext \<Rightarrow> trie \<Rightarrow> particle \<Rightarrow> (trie \<times> trie_proof) option" where
  "trie_prove X T key = (case tr_root T of
     None \<Rightarrow> Some (T, \<lparr>tp_steps = [], tp_terminal = None\<rparr>)
   | Some _ \<Rightarrow> do {
       (T, _) \<leftarrow> trie_root X T;
       (path, leaf) \<leftarrow> trie_descend T key;
       steps \<leftarrow> prove_steps (tr_nodes T) key path;
       nd \<leftarrow> node_at (tr_nodes T) leaf;
       case nd of Leaf k d \<Rightarrow> Some (T, \<lparr>tp_steps = steps, tp_terminal = Some (k, d)\<rparr>)
       | Branch _ _ _ _ _ \<Rightarrow> None })"

text \<open>The loop of \<open>verify\<close> over the steps from the leaf upwards: \<open>prev\<close> (\<open>last\<close> in the source) is the bit of the step
  below.\<close>

fun verify_loop :: "ext \<Rightarrow> particle \<Rightarrow> u16 option \<Rightarrow> digest \<Rightarrow> (u16 \<times> digest) list \<Rightarrow> digest option option" where
  "verify_loop X key prev cur [] = Some (Some cur)"
| "verify_loop X key prev cur ((b, sibling) # steps) =
     (if (case prev of Some l \<Rightarrow> l \<le> b | None \<Rightarrow> False) then Some None
      else do {
        s \<leftarrow> key_bit key b;
        verify_loop X key (Some b) (if s then branch_digest X b sibling cur else branch_digest X b cur sibling) steps })"

definition trie_verify :: "ext \<Rightarrow> trie_proof \<Rightarrow> digest \<Rightarrow> particle \<Rightarrow> digest option \<Rightarrow> bool option" where
  "trie_verify X p root key expected =
     (let check = (\<lambda>d. do { r \<leftarrow> verify_loop X key None d (rev (tp_steps p)); Some (r = Some root) })
      in case (tp_terminal p, expected) of
        (None, None) \<Rightarrow> Some (tp_steps p = [] \<and> root = EMPTY)
      | (None, Some _) \<Rightarrow> Some False
      | (Some (k, d), Some e) \<Rightarrow> if k \<noteq> key \<or> d \<noteq> e then Some False else check d
      | (Some (k, d), None) \<Rightarrow> if k = key then Some False else check d)"

section \<open>Key bits\<close>

text \<open>Bit \<open>i\<close> of a key counted from the most significant end, for \<open>i < 256\<close>.\<close>

definition kbit :: "particle \<Rightarrow> nat \<Rightarrow> bool" where
  "kbit k i = bit k (255 - i)"

lemma kbit_eqI: "(\<And>i. i < 256 \<Longrightarrow> kbit a i = kbit b i) \<Longrightarrow> a = b"
proof (rule bit_eqI)
  fix i
  assume all: "\<And>i. i < 256 \<Longrightarrow> kbit a i = kbit b i" and "possible_bit TYPE(256 word) i"
  then have "i < 256" by simp
  then show "bit a i \<longleftrightarrow> bit b i"
    using all [of "255 - i"] by (simp add: kbit_def)
qed

lemma bit_byte_at: "j < 32 \<Longrightarrow> m < 8 \<Longrightarrow> bit (byte_at k j) m \<longleftrightarrow> kbit k (8 * j + 7 - m)"
proof -
  assume "j < 32" "m < 8"
  then have "8 * (31 - j) + m = 255 - (8 * j + 7 - m)" by simp
  with \<open>m < 8\<close> show ?thesis
    by (simp add: byte_at_def kbit_def bit_unsigned_iff bit_drop_bit_eq)
qed

lemma drop_bit_and_1: "drop_bit n (w :: 'a::len word) AND 1 = 1 \<longleftrightarrow> bit w n"
  by (simp add: and_one_eq bit_iff_odd_drop_bit odd_iff_mod_2_eq_one)

lemma xor_zero_iff: "(a :: 'a::len word) XOR b = 0 \<longleftrightarrow> a = b"
  by (auto simp: bit_eq_iff bit_xor_iff)

lemma unat_u16_div_mod: "unat (i div 8 :: u16) = unat i div 8" "unat (7 - i mod 8 :: u16) = 7 - unat i mod 8"
proof -
  show "unat (i div 8 :: u16) = unat i div 8" by (simp add: unat_div)
  have m: "unat (i mod 8) = unat i mod 8" by (simp add: unat_mod)
  then have "i mod 8 \<le> 7" by (simp add: word_le_nat_alt)
  then show "unat (7 - i mod 8 :: u16) = 7 - unat i mod 8"
    by (simp add: unat_sub m)
qed

lemma key_bit_eq: "key_bit k i = (if unat i < 256 then Some (kbit k (unat i)) else None)"
proof (cases "unat i < 256")
  case True
  then have j: "unat i div 8 < 32" by simp
  have "8 * (unat i div 8) + 7 - (7 - unat i mod 8) = unat i"
    using mult_div_mod_eq [of 8 "unat i"] by arith
  then have "bit (byte_at k (unat i div 8)) (7 - unat i mod 8) = kbit k (unat i)"
    using bit_byte_at [OF j, of "7 - unat i mod 8" k] by simp
  then show ?thesis
    using True j by (simp add: key_bit_def unat_u16_div_mod drop_bit_and_1)
next
  case False
  then have "\<not> unat i div 8 < 32" by simp
  then show ?thesis using False by (simp add: key_bit_def unat_u16_div_mod)
qed

lemma leading_zeros_spec:
  assumes "d \<noteq> 0"
  shows "leading_zeros d < 8" "bit d (7 - leading_zeros d)"
    and "\<And>i. i < leading_zeros d \<Longrightarrow> \<not> bit d (7 - i)"
proof -
  obtain m where m: "bit d m" using assms by (metis bit_eqI bit_0_eq bot_fun_def bot_bool_def)
  then have "m < 8" using bit_imp_le_length [of d m] by simp
  let ?P = "\<lambda>i. \<not> bit d (7 - i)"
  have "\<exists>i \<in> set [0..<8]. \<not> ?P i"
    using m \<open>m < 8\<close> by (intro bexI [of _ "7 - m"]) auto
  then have lt: "length (takeWhile ?P [0..<8]) < length [0..<8 :: nat]"
    by (metis takeWhile_eq_all_conv length_takeWhile_le nat_less_le takeWhile_eq_take take_all_iff)
  then show "leading_zeros d < 8" by (simp add: leading_zeros_def)
  show "bit d (7 - leading_zeros d)"
    using nth_length_takeWhile [OF lt] lt by (simp add: leading_zeros_def)
  show "\<not> bit d (7 - i)" if "i < leading_zeros d" for i
  proof -
    have "takeWhile ?P [0..<8] ! i \<in> set (takeWhile ?P [0..<8])"
      using that by (intro nth_mem) (simp add: leading_zeros_def)
    moreover have "takeWhile ?P [0..<8] ! i = i"
      using that lt takeWhile_nth [of i ?P "[0..<8]"] by (simp add: leading_zeros_def)
    ultimately show ?thesis using set_takeWhileD by metis
  qed
qed

lemma first_diff_from_spec:
  assumes "length xs = length ys" and "xs \<noteq> ys"
  shows "\<exists>n < length xs. xs ! n \<noteq> ys ! n \<and> take n xs = take n ys \<and>
    first_diff_from i xs ys = Some (of_nat (i + n) * 8 + of_nat (leading_zeros (xs ! n XOR ys ! n)))"
  using assms
proof (induction xs ys arbitrary: i rule: list_induct2)
  case Nil
  then show ?case by simp
next
  case (Cons x xs y ys)
  show ?case
  proof (cases "x = y")
    case True
    with Cons.prems have "xs \<noteq> ys" by simp
    from Cons.IH [OF this, of "Suc i"] obtain n where "n < length xs" "xs ! n \<noteq> ys ! n" "take n xs = take n ys"
      "first_diff_from (Suc i) xs ys = Some (of_nat (Suc i + n) * 8 + of_nat (leading_zeros (xs ! n XOR ys ! n)))"
      by blast
    then show ?thesis using True by (intro exI [of _ "Suc n"]) simp
  next
    case False
    then have "x XOR y \<noteq> 0" by (simp add: xor_zero_iff)
    then show ?thesis using False by (intro exI [of _ 0]) simp
  qed
qed

lemma first_diff_bit_spec:
  assumes "a \<noteq> b"
  shows "\<exists>j. first_diff_bit a b = Some j \<and> unat j < 256 \<and> kbit a (unat j) \<noteq> kbit b (unat j) \<and>
    (\<forall>i < unat j. kbit a i = kbit b i)"
proof -
  have "be_bytes 32 a \<noteq> be_bytes 32 b" using assms by (simp add: be_bytes_inj)
  from first_diff_from_spec [OF _ this, of 0] obtain n where n: "n < 32"
    and ne: "byte_at a n \<noteq> byte_at b n" and pre: "take n (be_bytes 32 a) = take n (be_bytes 32 b)"
    and j: "first_diff_bit a b = Some (of_nat n * 8 + of_nat (leading_zeros (byte_at a n XOR byte_at b n)))"
    by (auto simp: first_diff_bit_def byte_at_be_bytes)
  define d where "d = byte_at a n XOR byte_at b n"
  have "d \<noteq> 0" using ne by (simp add: d_def xor_zero_iff)
  note lz = leading_zeros_spec [OF this]
  have uj: "unat (of_nat n * 8 + of_nat (leading_zeros d) :: u16) = 8 * n + leading_zeros d" (is "unat ?j = _")
  proof -
    have "(of_nat n * 8 + of_nat (leading_zeros d) :: u16) = of_nat (8 * n + leading_zeros d)" by simp
    moreover have "8 * n + leading_zeros d < 2 ^ LENGTH(16)" using n lz(1) by simp
    ultimately show ?thesis by (metis of_nat_inverse)
  qed
  have at: "bit (byte_at k n) (7 - m) = kbit k (8 * n + m)" if "m < 8" for k m
    using bit_byte_at [OF n, of "7 - m" k] that by simp
  have below: "kbit a i = kbit b i" if "i < 8 * n" for i
  proof -
    have q: "i div 8 < n" using that by linarith
    then have q32: "i div 8 < 32" using n by linarith
    then have "be_bytes 32 a ! (i div 8) = be_bytes 32 b ! (i div 8)"
      using nth_take [OF q, of "be_bytes 32 a"] nth_take [OF q, of "be_bytes 32 b"] pre by simp
    then have "byte_at a (i div 8) = byte_at b (i div 8)"
      using q n by (simp add: byte_at_be_bytes)
    moreover have "8 * (i div 8) + 7 - (7 - i mod 8) = i"
      using mult_div_mod_eq [of 8 i] by arith
    ultimately show ?thesis
      using bit_byte_at [OF q32, of "7 - i mod 8" a] bit_byte_at [OF q32, of "7 - i mod 8" b] by simp
  qed
  have "kbit a i = kbit b i" if "i < 8 * n + leading_zeros d" for i
  proof (cases "i < 8 * n")
    case False
    then obtain m where i: "i = 8 * n + m" by (metis le_Suc_ex not_less)
    then have "m < leading_zeros d" using that by simp
    then show ?thesis
      using lz(3) [of m] at [of m a] at [of m b] lz(1) i by (simp add: d_def bit_xor_iff)
  qed (use below in blast)
  moreover have "kbit a (8 * n + leading_zeros d) \<noteq> kbit b (8 * n + leading_zeros d)"
    using lz(2) at [OF lz(1), of a] at [OF lz(1), of b] by (simp add: d_def bit_xor_iff)
  ultimately show ?thesis
    using j uj n lz(1) by (intro exI [of _ ?j]) (simp add: d_def)
qed

end
