(* ===== verification/Bbg_Trie_Refine.thy ===== *)
theory Bbg_Trie_Refine
  imports Bbg_Trie "HOL-Library.Multiset"
begin

text \<open>
  The abstraction of the trie's arena (\<open>trie.rs\<close>): trees that carry their node addresses, the
  invariant the operations keep, and what each operation does to the tree. The operations walk
  a path and edit nodes on it, so a tree is cut along the path of a key into a context (a list
  of frames, root first) and the subtree in its hole.
\<close>

section \<open>Addressed trees\<close>

datatype atree =
  ALeaf u32 particle digest
| ABranch u32 u16 atree atree digest bool

fun addr :: "atree \<Rightarrow> u32" where
  "addr (ALeaf a _ _) = a"
| "addr (ABranch a _ _ _ _ _) = a"

fun addrs :: "atree \<Rightarrow> u32 list" where
  "addrs (ALeaf a _ _) = [a]"
| "addrs (ABranch a _ l r _ _) = a # addrs l @ addrs r"

fun ents :: "atree \<Rightarrow> (particle \<times> digest) list" where
  "ents (ALeaf _ k d) = [(k, d)]"
| "ents (ABranch _ _ l r _ _) = ents l @ ents r"

fun akeys :: "atree \<Rightarrow> particle set" where
  "akeys (ALeaf _ k _) = {k}"
| "akeys (ABranch _ _ l r _ _) = akeys l \<union> akeys r"

fun rep :: "node list \<Rightarrow> atree \<Rightarrow> bool" where
  "rep ns (ALeaf a k d) \<longleftrightarrow> node_at ns a = Some (Leaf k d)"
| "rep ns (ABranch a b l r d f) \<longleftrightarrow>
     node_at ns a = Some (Branch b (addr l) (addr r) d f) \<and> rep ns l \<and> rep ns r"

text \<open>The canonical shape: a branch decides on the first bit its keys differ in.\<close>

definition agree :: "nat \<Rightarrow> particle \<Rightarrow> particle \<Rightarrow> bool" where
  "agree n a b \<longleftrightarrow> (\<forall>i < n. kbit a i = kbit b i)"

fun shape :: "atree \<Rightarrow> bool" where
  "shape (ALeaf _ _ _) \<longleftrightarrow> True"
| "shape (ABranch _ b l r _ _) \<longleftrightarrow> unat b < 256 \<and> shape l \<and> shape r \<and>
     (\<forall>k \<in> akeys l. \<not> kbit k (unat b)) \<and> (\<forall>k \<in> akeys r. kbit k (unat b)) \<and>
     (\<forall>k \<in> akeys l \<union> akeys r. \<forall>k' \<in> akeys l \<union> akeys r. agree (unat b) k k')"

text \<open>The digest a node should have; a clean node caches it, and nothing below it is stale.\<close>

fun dg :: "ext \<Rightarrow> atree \<Rightarrow> digest" where
  "dg X (ALeaf _ _ d) = d"
| "dg X (ABranch _ b l r _ _) = branch_digest X b (dg X l) (dg X r)"

fun clean :: "ext \<Rightarrow> atree \<Rightarrow> bool" where
  "clean X (ALeaf _ _ _) \<longleftrightarrow> True"
| "clean X (ABranch _ b l r d f) \<longleftrightarrow> \<not> f \<and> d = branch_digest X b (dg X l) (dg X r) \<and> clean X l \<and> clean X r"

fun cached :: "ext \<Rightarrow> atree \<Rightarrow> bool" where
  "cached X (ALeaf _ _ _) \<longleftrightarrow> True"
| "cached X (ABranch a b l r d f) \<longleftrightarrow> cached X l \<and> cached X r \<and> (f \<or> clean X (ABranch a b l r d f))"

lemma addr_in_addrs [simp, intro]: "addr t \<in> set (addrs t)"
  by (cases t) auto

lemma ents_nonempty [simp]: "ents t \<noteq> []"
  by (induction t) auto

lemma akeys_ents: "akeys t = fst ` set (ents t)"
  by (induction t) auto

lemma akeys_nonempty: "\<exists>k. k \<in> akeys t"
  by (induction t) auto

lemma clean_cached: "clean X t \<Longrightarrow> cached X t"
  by (induction t) auto

lemma rep_cong:
  "(\<And>x. x \<in> set (addrs t) \<Longrightarrow> node_at ns' x = node_at ns x) \<Longrightarrow> rep ns' t = rep ns t"
  by (induction t) auto

lemma rep_in_range: "rep ns t \<Longrightarrow> x \<in> set (addrs t) \<Longrightarrow> unat x < length ns"
  by (induction t) (auto simp: node_at_def split: if_splits)

lemma node_at_update: "unat a < length ns \<Longrightarrow> node_at (ns[unat a := nd]) x = (if x = a then Some nd else node_at ns x)"
  by (auto simp: node_at_def nth_list_update word_unat_eq_iff)

lemma node_put_Some: "unat a < length ns \<Longrightarrow> node_put ns a nd = Some (ns[unat a := nd])"
  by (simp add: node_put_def)

lemma node_at_range: "node_at ns a = Some nd \<Longrightarrow> unat a < length ns"
  by (simp add: node_at_def split: if_splits)

lemma distinct_keys: "shape t \<Longrightarrow> distinct (map fst (ents t))"
proof (induction t)
  case (ABranch a b l r d f)
  then have "akeys l \<inter> akeys r = {}" by auto
  with ABranch show ?case by (simp add: akeys_ents)
qed simp

section \<open>Contexts\<close>

datatype frame = Frame (f_addr: u32) (f_bit: u16) (f_side: bool) (f_sib: atree) (f_digest: digest) (f_dirty: bool)

fun plug :: "frame list \<Rightarrow> atree \<Rightarrow> atree" where
  "plug [] t = t"
| "plug (Frame a b s sib d f # c) t =
     (if s then ABranch a b sib (plug c t) d f else ABranch a b (plug c t) sib d f)"

fun walk :: "particle \<Rightarrow> atree \<Rightarrow> frame list \<times> atree" where
  "walk k (ALeaf a k' d) = ([], ALeaf a k' d)"
| "walk k (ABranch a b l r d f) =
     (let s = kbit k (unat b); (c, t) = walk k (if s then r else l)
      in (Frame a b s (if s then l else r) d f # c, t))"

definition haddr :: "frame list \<Rightarrow> u32 \<Rightarrow> u32" where
  "haddr c x = (case c of [] \<Rightarrow> x | fr # _ \<Rightarrow> f_addr fr)"

fun repc :: "node list \<Rightarrow> frame list \<Rightarrow> u32 \<Rightarrow> bool" where
  "repc ns [] x \<longleftrightarrow> True"
| "repc ns (Frame a b s sib d f # c) x \<longleftrightarrow>
     node_at ns a = Some (Branch b (if s then addr sib else haddr c x) (if s then haddr c x else addr sib) d f)
     \<and> rep ns sib \<and> repc ns c x"

fun caddrs :: "frame list \<Rightarrow> u32 list" where
  "caddrs [] = []"
| "caddrs (fr # c) = f_addr fr # addrs (f_sib fr) @ caddrs c"

fun cents :: "frame list \<Rightarrow> (particle \<times> digest) list" where
  "cents [] = []"
| "cents (fr # c) = ents (f_sib fr) @ cents c"

abbreviation dirty_all :: "frame list \<Rightarrow> frame list" where
  "dirty_all c \<equiv> map (\<lambda>fr. Frame (f_addr fr) (f_bit fr) (f_side fr) (f_sib fr) (f_digest fr) True) c"

lemma haddr_simps [simp]: "haddr [] x = x" "haddr (fr # c) x = f_addr fr"
  by (simp_all add: haddr_def)

lemma haddr_dirty [simp]: "haddr (dirty_all c) x = haddr c x"
  by (cases c) simp_all

lemma haddr_append: "c \<noteq> [] \<Longrightarrow> haddr (c @ c') x = haddr c y"
  by (cases c) simp_all

lemma addr_plug [simp]: "addr (plug c t) = haddr c (addr t)"
  by (induction c t rule: plug.induct) auto

lemma plug_append [simp]: "plug (c @ c') t = plug c (plug c' t)"
  by (induction c t rule: plug.induct) auto

lemma rep_plug: "rep ns (plug c t) \<longleftrightarrow> repc ns c (addr t) \<and> rep ns t"
  by (induction c t rule: plug.induct) auto

lemma mset_addrs_plug: "mset (addrs (plug c t)) = mset (caddrs c) + mset (addrs t)"
  by (induction c t rule: plug.induct) auto

lemma set_addrs_plug: "set (addrs (plug c t)) = set (caddrs c) \<union> set (addrs t)"
  using arg_cong [OF mset_addrs_plug, of set_mset] by simp

lemma set_ents_plug: "set (ents (plug c t)) = set (cents c) \<union> set (ents t)"
  by (induction c t rule: plug.induct) auto

lemma length_ents_plug: "length (ents (plug c t)) = length (cents c) + length (ents t)"
  by (induction c t rule: plug.induct) auto

lemma caddrs_dirty [simp]: "caddrs (dirty_all c) = caddrs c"
  by (induction c) auto

lemma cents_dirty [simp]: "cents (dirty_all c) = cents c"
  by (induction c) auto

lemma caddrs_append [simp]: "caddrs (c @ c') = caddrs c @ caddrs c'"
  by (induction c) auto

lemma f_addr_caddrs: "set (map f_addr c) \<subseteq> set (caddrs c)"
  by (induction c) auto

lemma plug_walk: "walk k t = (c, lf) \<Longrightarrow> plug c lf = t"
  by (induction k t arbitrary: c lf rule: walk.induct) (auto simp: Let_def split: prod.splits if_splits)

lemma walk_is_leaf: "walk k t = (c, lf) \<Longrightarrow> \<exists>a k' d. lf = ALeaf a k' d"
  by (induction k t arbitrary: c lf rule: walk.induct) (auto simp: Let_def split: prod.splits if_splits)

lemma walk_side: "walk k t = (c, lf) \<Longrightarrow> fr \<in> set c \<Longrightarrow> f_side fr = kbit k (unat (f_bit fr))"
  by (induction k t arbitrary: c lf rule: walk.induct) (auto simp: Let_def split: prod.splits if_splits)

lemma repc_append: "repc ns (c @ c') x \<longleftrightarrow> repc ns c (haddr c' x) \<and> repc ns c' x"
proof (induction c)
  case (Cons fr c)
  then show ?case by (cases fr; cases c) auto
qed simp

lemma repc_cong:
  "(\<And>x. x \<in> set (caddrs c) \<Longrightarrow> node_at ns' x = node_at ns x) \<Longrightarrow> repc ns' c y = repc ns c y"
proof (induction c)
  case (Cons fr c)
  have "rep ns' (f_sib fr) = rep ns (f_sib fr)"
    using Cons.prems by (intro rep_cong) auto
  with Cons show ?case by (cases fr) auto
qed simp

lemma node_at_other: "x \<noteq> a \<Longrightarrow> node_at (ns[unat a := nd]) x = node_at ns x"
  by (auto simp: node_at_def nth_list_update word_unat_eq_iff)

lemma rep_update: "a \<notin> set (addrs t) \<Longrightarrow> rep (ns[unat a := nd]) t = rep ns t"
  by (rule rep_cong) (metis node_at_other)

lemma repc_update: "a \<notin> set (caddrs c) \<Longrightarrow> repc (ns[unat a := nd]) c x = repc ns c x"
  by (rule repc_cong) (metis node_at_other)

section \<open>The walks and the edits\<close>

lemma descend_from_walk:
  "rep ns t \<Longrightarrow> shape t \<Longrightarrow> walk k t = (c, lf) \<Longrightarrow>
     descend_from ns k p (addr t) = Some (p @ map f_addr c, addr lf)"
proof (induction t arbitrary: p c lf)
  case (ALeaf a k' d)
  then show ?case by (subst descend_from.simps) auto
next
  case (ABranch a b l r d f)
  let ?s = "kbit k (unat b)"
  obtain c' where c: "c = Frame a b ?s (if ?s then l else r) d f # c'"
    and w: "walk k (if ?s then r else l) = (c', lf)"
    using ABranch.prems(3) by (auto simp: Let_def split: prod.splits)
  have "descend_from ns k (p @ [a]) (if ?s then addr r else addr l) =
      Some ((p @ [a]) @ map f_addr c', addr lf)"
    using ABranch.IH ABranch.prems(1,2) w by (cases ?s) auto
  then show ?case
    using ABranch.prems(1,2) by (subst descend_from.simps) (simp add: key_bit_eq c)
qed

lemma mark_path:
  assumes "repc ns c x" and "distinct (caddrs c)"
  shows "\<exists>ns'. trie_mark ns (map f_addr c) = Some ns' \<and> repc ns' (dirty_all c) x \<and>
    length ns' = length ns \<and> (\<forall>i. i \<notin> set (map f_addr c) \<longrightarrow> node_at ns' i = node_at ns i)"
  using assms
proof (induction c arbitrary: ns)
  case (Cons fr c)
  obtain a b s sib d f where fr: "fr = Frame a b s sib d f" by (cases fr)
  let ?l = "if s then addr sib else haddr c x" and ?r = "if s then haddr c x else addr sib"
  have at: "node_at ns a = Some (Branch b ?l ?r d f)" and sib: "rep ns sib" and c: "repc ns c x"
    using Cons.prems(1) by (auto simp: fr)
  have a: "unat a < length ns" using at by (rule node_at_range)
  let ?ns = "ns[unat a := Branch b ?l ?r d True]"
  have keep: "node_at ?ns i = node_at ns i" if "i \<noteq> a" for i
    using that a by (simp add: node_at_update)
  have dis: "a \<notin> set (caddrs c)" "a \<notin> set (addrs sib)" "distinct (caddrs c)"
    "set (addrs sib) \<inter> set (caddrs c) = {}"
    using Cons.prems(2) by (auto simp: fr)
  have "repc ?ns c x"
    using c dis(1) by (simp add: repc_update)
  from Cons.IH [OF this dis(3)] obtain ns' where
    m: "trie_mark ?ns (map f_addr c) = Some ns'" "repc ns' (dirty_all c) x" "length ns' = length ns"
    and k: "\<And>i. i \<notin> set (map f_addr c) \<Longrightarrow> node_at ns' i = node_at ?ns i"
    by auto
  have sub: "set (map f_addr c) \<subseteq> set (caddrs c)" by (rule f_addr_caddrs)
  have na: "a \<notin> set (map f_addr c)" using dis(1) sub by blast
  have "node_at ns' a = Some (Branch b ?l ?r d True)"
    using k [OF na] a by (simp add: node_at_update)
  moreover have "rep ns' sib"
  proof -
    have "node_at ns' i = node_at ns i" if "i \<in> set (addrs sib)" for i
    proof -
      have "i \<noteq> a" and "i \<notin> set (map f_addr c)" using that dis sub by auto
      then show ?thesis using k keep by simp
    qed
    then show ?thesis using sib rep_cong [of sib ns' ns] by blast
  qed
  moreover have "node_at ns' i = node_at ns i" if "i \<notin> set (map f_addr (fr # c))" for i
    using that k [of i] keep [of i] by (simp add: fr)
  ultimately show ?case
    using m at a by (simp add: fr node_put_Some)
qed simp

lemma replace_child_last:
  assumes rep: "repc ns (c @ [fr]) x" and dis: "distinct (caddrs (c @ [fr]))"
    and ne: "addr (f_sib fr) \<noteq> x"
  shows "\<exists>ns'. replace_child ns (f_addr fr) x y = Some ns' \<and> repc ns' (c @ [fr]) y \<and>
    length ns' = length ns \<and> (\<forall>i. i \<noteq> f_addr fr \<longrightarrow> node_at ns' i = node_at ns i)"
proof -
  obtain a b s sib d f where fr: "fr = Frame a b s sib d f" by (cases fr)
  have at: "node_at ns a = Some (Branch b (if s then addr sib else x) (if s then x else addr sib) d f)"
    and sib: "rep ns sib" and c: "repc ns c a"
    using rep by (auto simp: fr repc_append)
  have a: "unat a < length ns" using at by (rule node_at_range)
  let ?ns = "ns[unat a := Branch b (if s then addr sib else y) (if s then y else addr sib) d f]"
  have keep: "node_at ?ns i = node_at ns i" if "i \<noteq> a" for i
    using that a by (simp add: node_at_update)
  have "rep ?ns sib"
    using sib dis by (simp add: fr rep_update)
  moreover have "repc ?ns c a"
    using c dis by (simp add: fr repc_update)
  moreover have "replace_child ns a x y = Some ?ns"
    using at a ne by (auto simp: replace_child_def node_put_Some fr)
  ultimately show ?thesis
    using a keep by (auto simp: fr repc_append node_at_update)
qed

lemma keep_loop_frames:
  assumes rep: "repc ns (c1 @ c2) x" and c1: "\<forall>fr \<in> set c1. f_bit fr < j"
    and c2: "\<forall>fr \<in> set c2. \<not> f_bit fr < j"
  shows "keep_loop ns (map f_addr (c1 @ c2)) j (length c1 + length c2) = Some (length c1)"
proof -
  have at: "\<exists>l r d f. node_at ns (f_addr fr) = Some (Branch (f_bit fr) l r d f)" if "fr \<in> set (c1 @ c2)" for fr
    using rep that
  proof (induction "c1 @ c2" arbitrary: c1 c2)
    case (Cons g c)
    show ?case
      using Cons.hyps(1) [of "[]" c] Cons.prems Cons.hyps(2) [symmetric] by (cases g) auto
  qed simp
  have "keep_loop ns (map f_addr (c1 @ c2)) j (length c1 + m) = Some (length c1)" if "m \<le> length c2" for m
    using that
  proof (induction m)
    case 0
    show ?case
    proof (cases c1 rule: rev_cases)
      case (snoc c fr)
      then show ?thesis
        using at [of fr] c1 by (auto simp: nth_opt_def nth_append)
    qed simp
  next
    case (Suc m)
    then have "c2 ! m \<in> set c2" and m: "m < length c2" by auto
    then obtain l r d f where "node_at ns (f_addr (c2 ! m)) = Some (Branch (f_bit (c2 ! m)) l r d f)"
      and "\<not> f_bit (c2 ! m) < j" using at [of "c2 ! m"] c2 by auto
    then show ?case
      using Suc m by (simp add: nth_opt_def nth_append)
  qed
  then show ?thesis by simp
qed

section \<open>Shape and cache along a context\<close>

lemma agree_sym: "agree n a b \<Longrightarrow> agree n b a"
  by (simp add: agree_def)

lemma agree_trans: "agree n a b \<Longrightarrow> agree n b c \<Longrightarrow> agree n a c"
  by (simp add: agree_def)

lemma agree_mono: "agree n a b \<Longrightarrow> m \<le> n \<Longrightarrow> agree m a b"
  by (simp add: agree_def)

text \<open>A branch below another decides on a later bit.\<close>

lemma branch_below:
  assumes "shape (ABranch a b l r d f)" and "\<And>k k'. k \<in> akeys (ABranch a b l r d f) \<Longrightarrow>
    k' \<in> akeys (ABranch a b l r d f) \<Longrightarrow> agree n k k'"
  shows "n \<le> unat b"
proof -
  obtain kl kr where "kl \<in> akeys l" "kr \<in> akeys r"
    using akeys_nonempty [of l] akeys_nonempty [of r] by blast
  moreover from this have "\<not> kbit kl (unat b)" "kbit kr (unat b)"
    using assms(1) by auto
  ultimately show ?thesis
    using assms(2) [of kl kr] by (force simp: agree_def not_less [symmetric])
qed

lemma shape_side:
  assumes "shape (ABranch a b l r d f)" and "k \<in> akeys (if s then r else l)" and "k' \<in> akeys (if s then r else l)"
  shows "agree (Suc (unat b)) k k'"
proof -
  have "agree (unat b) k k'" and "kbit k (unat b) = kbit k' (unat b)"
    using assms by (auto split: if_splits)
  then show ?thesis by (auto simp: agree_def less_Suc_eq)
qed

lemma walk_head_later:
  assumes "shape t" and "\<And>k k'. k \<in> akeys t \<Longrightarrow> k' \<in> akeys t \<Longrightarrow> agree n k k'"
    and "walk key t = (fr # c, lf)"
  shows "n \<le> unat (f_bit fr)"
proof (cases t)
  case (ABranch a b l r d f)
  then show ?thesis
    using assms branch_below [of a b l r d f n] by (auto simp: Let_def split: prod.splits)
qed (use assms(3) in simp)

lemma walk_bits_sorted:
  "shape t \<Longrightarrow> walk k t = (c, lf) \<Longrightarrow> sorted_wrt (\<lambda>g h. f_bit g < f_bit h) c"
proof (induction t arbitrary: c lf)
  case (ABranch a b l r d f)
  let ?s = "kbit k (unat b)" and ?t = "if kbit k (unat b) then r else l"
  obtain c' where c: "c = Frame a b ?s (if ?s then l else r) d f # c'" and w: "walk k ?t = (c', lf)"
    using ABranch.prems(2) by (auto simp: Let_def split: prod.splits)
  have sh: "shape ?t" using ABranch.prems(1) by simp
  have srt: "sorted_wrt (\<lambda>g h. f_bit g < f_bit h) c'"
    using ABranch.IH sh w by (cases ?s) auto
  have "b < f_bit g" if g: "g \<in> set c'" for g
  proof -
    obtain h c'' where c'': "c' = h # c''" using g by (cases c') auto
    have "Suc (unat b) \<le> unat (f_bit h)"
      using walk_head_later [OF sh shape_side [OF ABranch.prems(1), where s = ?s]] w c'' by blast
    then have "b < f_bit h" by (simp add: word_less_nat_alt)
    then show ?thesis using srt g c'' by auto
  qed
  then show ?case using srt by (simp add: c)
qed simp

text \<open>The subtree in the hole may be replaced by one with fewer keys, or with keys the frames lead to.\<close>

definition fits :: "frame list \<Rightarrow> atree \<Rightarrow> particle \<Rightarrow> bool" where
  "fits c s k \<longleftrightarrow> k \<in> akeys s \<or> (\<forall>fr \<in> set c. kbit k (unat (f_bit fr)) = f_side fr \<and>
     (\<exists>k' \<in> akeys s. agree (unat (f_bit fr)) k k'))"

lemma shape_hole: "shape (plug c s) \<Longrightarrow> shape s"
  by (induction c s rule: plug.induct) (auto split: if_splits)

lemma akeys_plug: "akeys (plug c s) = fst ` set (cents c) \<union> akeys s"
  by (simp add: akeys_ents set_ents_plug image_Un)

lemma shape_plug:
  assumes "shape (plug c s)" and "shape s'" and "\<And>k. k \<in> akeys s' \<Longrightarrow> fits c s k"
  shows "shape (plug c s')"
  using assms
proof (induction c)
  case (Cons fr c)
  obtain a b side sib d f where fr: "fr = Frame a b side sib d f" by (cases fr)
  have IH: "shape (plug c s')"
    using Cons.prems by (intro Cons.IH) (auto simp: fr fits_def split: if_splits)
  let ?K = "akeys sib \<union> akeys (plug c s)" and ?K' = "akeys sib \<union> akeys (plug c s')"
  have old: "unat b < 256" "shape sib" "\<forall>k \<in> akeys sib. kbit k (unat b) = (\<not> side)"
    "\<forall>k \<in> akeys (plug c s). kbit k (unat b) = side" "\<forall>k \<in> ?K. \<forall>k' \<in> ?K. agree (unat b) k k'"
    using Cons.prems(1) by (auto simp: fr Un_commute split: if_splits)
  have new: "kbit k (unat b) = side \<and> (\<exists>k' \<in> ?K. agree (unat b) k k')" if "k \<in> akeys (plug c s')" for k
  proof (cases "k \<in> akeys (plug c s)")
    case True
    then show ?thesis using old(4) by (auto simp: agree_def)
  next
    case False
    then have "k \<in> akeys s'" "k \<notin> akeys s" using that by (auto simp: akeys_plug)
    then show ?thesis
      using Cons.prems(3) [of k] by (auto simp: fits_def fr akeys_plug)
  qed
  have "\<exists>k' \<in> ?K. agree (unat b) k k'" if "k \<in> ?K'" for k
    using that new [of k] by (auto simp: agree_def)
  then have "\<forall>k \<in> ?K'. \<forall>k' \<in> ?K'. agree (unat b) k k'"
    using old(5) by (meson agree_sym agree_trans)
  then show ?case
    using IH old(1-3) new by (auto simp: fr Un_commute)
qed simp

lemma shape_dirty [simp]: "shape (plug (dirty_all c) s) = shape (plug c s)"
proof (induction c)
  case (Cons fr c)
  have "akeys (plug (dirty_all c) s) = akeys (plug c s)" by (simp add: akeys_plug)
  with Cons show ?case by (cases fr) simp
qed simp

lemma cached_hole: "cached X (plug c s) \<Longrightarrow> cached X s"
  by (induction c s rule: plug.induct) (auto split: if_splits)

lemma cached_dirty: "cached X (plug c s) \<Longrightarrow> cached X s' \<Longrightarrow> cached X (plug (dirty_all c) s')"
  by (induction c s rule: plug.induct) (auto split: if_splits)

section \<open>Contents\<close>

lemma map_of_set_upd:
  assumes "distinct (map fst es)" and "distinct (map fst es')"
    and "set es' = insert (k, d) {e \<in> set es. fst e \<noteq> k}"
  shows "map_of es' = (map_of es)(k \<mapsto> d)"
proof
  fix x
  have "map_of es' x = Some v \<longleftrightarrow> ((map_of es)(k \<mapsto> d)) x = Some v" for v
    using assms by (auto simp: map_of_eq_Some_iff)
  then show "map_of es' x = ((map_of es)(k \<mapsto> d)) x"
    by (metis not_None_eq)
qed

lemma map_of_set_del:
  assumes "distinct (map fst es)" and "distinct (map fst es')"
    and "set es' = {e \<in> set es. fst e \<noteq> k}"
  shows "map_of es' = (map_of es)(k := None)"
proof
  fix x
  have "map_of es' x = Some v \<longleftrightarrow> ((map_of es)(k := None)) x = Some v" for v
    using assms by (auto simp: map_of_eq_Some_iff)
  then show "map_of es' x = ((map_of es)(k := None)) x"
    by (metis not_None_eq)
qed

lemma map_of_ents_None: "map_of (ents t) k = None \<longleftrightarrow> k \<notin> akeys t"
  by (simp add: map_of_eq_None_iff akeys_ents)

lemma walk_lookup:
  "shape t \<Longrightarrow> walk k t = (c, ALeaf a k' d) \<Longrightarrow> map_of (ents t) k = (if k' = k then Some d else None)"
proof (induction t arbitrary: c)
  case (ABranch a' b l r d' f)
  let ?s = "kbit k (unat b)" and ?t = "if kbit k (unat b) then r else l"
  obtain c' where w: "walk k ?t = (c', ALeaf a k' d)"
    using ABranch.prems(2) by (auto simp: Let_def split: prod.splits)
  have "map_of (ents ?t) k = (if k' = k then Some d else None)"
    using ABranch.IH ABranch.prems(1) w by (cases ?s) auto
  moreover have "k \<notin> akeys (if ?s then l else r)"
    using ABranch.prems(1) by (auto split: if_splits)
  then have "map_of (ents (if ?s then l else r)) k = None"
    by (simp add: map_of_ents_None)
  ultimately show ?case
    by (auto simp: map_add_def split: option.splits if_splits)
qed auto

lemma hole_keys_fresh:
  assumes "shape (plug c s)"
  shows "fst ` set (cents c) \<inter> akeys s = {}"
  using assms
proof (induction c)
  case (Cons fr c)
  obtain a b side sib d f where fr: "fr = Frame a b side sib d f" by (cases fr)
  have "akeys sib \<inter> akeys (plug c s) = {}" and "shape (plug c s)"
    using Cons.prems by (auto simp: fr split: if_splits)
  moreover have "fst ` set (cents (fr # c)) = akeys sib \<union> fst ` set (cents c)"
    by (simp add: fr image_Un akeys_ents)
  ultimately show ?case using Cons.IH unfolding akeys_plug by blast
qed simp

text \<open>Overwriting the leaf of a key.\<close>

lemma tree_update:
  assumes "shape (plug c (ALeaf a k d0))"
  shows "shape (plug (dirty_all c) (ALeaf a k d))"
    and "map_of (ents (plug (dirty_all c) (ALeaf a k d))) = (map_of (ents (plug c (ALeaf a k d0))))(k \<mapsto> d)"
proof -
  show sh: "shape (plug (dirty_all c) (ALeaf a k d))"
    unfolding shape_dirty by (rule shape_plug [OF assms]) (simp_all add: fits_def)
  show "map_of (ents (plug (dirty_all c) (ALeaf a k d))) = (map_of (ents (plug c (ALeaf a k d0))))(k \<mapsto> d)"
    using hole_keys_fresh [OF assms]
    by (intro map_of_set_upd distinct_keys assms sh) (auto simp: set_ents_plug)
qed

text \<open>Splitting the path of a new key at the first bit on which it leaves the trie.\<close>

definition split_node :: "u32 \<Rightarrow> u32 \<Rightarrow> particle \<Rightarrow> digest \<Rightarrow> u16 \<Rightarrow> atree \<Rightarrow> atree" where
  "split_node nl nb k d j s =
     (if kbit k (unat j) then ABranch nb j s (ALeaf nl k d) EMPTY True
      else ABranch nb j (ALeaf nl k d) s EMPTY True)"

lemma split_shape:
  assumes t: "shape (plug c2 (ALeaf a k' d'))" and c2: "\<forall>fr \<in> set c2. \<not> f_bit fr < j"
    and side: "\<forall>fr \<in> set c2. f_side fr = kbit k (unat (f_bit fr))"
    and j: "unat j < 256" "kbit k (unat j) \<noteq> kbit k' (unat j)" "agree (unat j) k k'"
  shows "shape (split_node nl nb k d j (plug c2 (ALeaf a k' d')))"
proof -
  let ?s = "plug c2 (ALeaf a k' d')"
  have k': "k' \<in> akeys ?s" by (simp add: akeys_plug)
  have "agree (Suc (unat j)) x k'" if "x \<in> akeys ?s" for x
  proof (cases c2)
    case Nil
    then show ?thesis using that by (simp add: agree_def)
  next
    case (Cons fr c)
    obtain b sd sib dd f where fr: "fr = Frame (f_addr fr) b sd sib dd f" by (metis frame.collapse)
    have below: "k' \<in> akeys (plug c (ALeaf a k' d'))" by (simp add: akeys_plug)
    then have "kbit k' (unat b) = sd"
      using t by (subst (asm) Cons, subst (asm) fr) (auto split: if_splits)
    moreover have "sd = kbit k (unat b)" using side Cons fr by (metis frame.sel(2,3) list.set_intros(1))
    ultimately have "b \<noteq> j" using j(2) by auto
    moreover have "j \<le> b" using c2 Cons fr by (metis frame.sel(2) list.set_intros(1) not_less)
    ultimately have "Suc (unat j) \<le> unat b"
      by (metis Suc_le_eq order_le_less word_less_nat_alt)
    moreover have "agree (unat b) x k'"
      using t that k' unfolding Cons by (subst (asm) (1 2 3) fr) (auto split: if_splits)
    ultimately show ?thesis by (meson agree_mono)
  qed
  then have old: "agree (Suc (unat j)) x k'" if "x \<in> akeys ?s" for x using that by blast
  have at: "kbit x (unat j) = (\<not> kbit k (unat j))" if "x \<in> akeys ?s" for x
    using old [OF that] j(2) by (auto simp: agree_def)
  have "agree (unat j) x k" if "x \<in> insert k (akeys ?s)" for x
    using that old [of x] j(3) by (auto simp: agree_def)
  then have "agree (unat j) x y" if "x \<in> insert k (akeys ?s)" "y \<in> insert k (akeys ?s)" for x y
    using that by (meson agree_sym agree_trans)
  then show ?thesis
    using t j(1) at by (auto simp: split_node_def)
qed

lemma tree_split:
  fixes nl nb :: u32 and d :: digest
  assumes t: "shape (plug (c1 @ c2) (ALeaf a k' d'))"
    and c1: "\<forall>fr \<in> set c1. f_bit fr < j" and c2: "\<forall>fr \<in> set c2. \<not> f_bit fr < j"
    and side: "\<forall>fr \<in> set (c1 @ c2). f_side fr = kbit k (unat (f_bit fr))"
    and j: "unat j < 256" "kbit k (unat j) \<noteq> kbit k' (unat j)" "agree (unat j) k k'"
    and fresh: "k \<notin> akeys (plug (c1 @ c2) (ALeaf a k' d'))"
  defines "t' \<equiv> plug (dirty_all c1) (split_node nl nb k d j (plug c2 (ALeaf a k' d')))"
  shows "shape t'"
    and "map_of (ents t') = (map_of (ents (plug (c1 @ c2) (ALeaf a k' d'))))(k \<mapsto> d)"
proof -
  let ?s = "plug c2 (ALeaf a k' d')"
  have sh: "shape (split_node nl nb k d j ?s)"
  proof (rule split_shape [OF _ c2 _ j])
    show "shape ?s" using t shape_hole [of c1 ?s] by simp
    show "\<forall>fr \<in> set c2. f_side fr = kbit k (unat (f_bit fr))" using side by simp
  qed
  have "fits c1 ?s x" if "x \<in> akeys (split_node nl nb k d j ?s)" for x
  proof (cases "x \<in> akeys ?s")
    case False
    then have x: "x = k" using that by (auto simp: split_node_def split: if_splits)
    have "k' \<in> akeys ?s" by (simp add: akeys_plug)
    moreover have "agree (unat (f_bit fr)) k k'" if "fr \<in> set c1" for fr
      using c1 that j(3) by (meson agree_mono word_less_nat_alt less_imp_le)
    ultimately show ?thesis using side x by (auto simp: fits_def)
  qed (simp add: fits_def)
  then show sh': "shape t'"
    unfolding t'_def shape_dirty using t by (intro shape_plug [OF _ sh, of c1 ?s]) auto
  have "set (ents t') = insert (k, d) {e \<in> set (ents (plug (c1 @ c2) (ALeaf a k' d'))). fst e \<noteq> k}"
  proof -
    have "set (ents t') = insert (k, d) (set (ents (plug (c1 @ c2) (ALeaf a k' d'))))"
      by (auto simp: t'_def set_ents_plug split_node_def)
    moreover have "fst e \<noteq> k" if "e \<in> set (ents (plug (c1 @ c2) (ALeaf a k' d')))" for e
      using fresh that unfolding akeys_ents by force
    ultimately show ?thesis by blast
  qed
  then show "map_of (ents t') = (map_of (ents (plug (c1 @ c2) (ALeaf a k' d'))))(k \<mapsto> d)"
    by (intro map_of_set_upd distinct_keys t sh')
qed

text \<open>Dropping a leaf: its sibling takes the place of the branch above.\<close>

lemma tree_drop:
  assumes t: "shape (plug (c @ [fr]) (ALeaf a k d))"
  defines "t' \<equiv> plug (dirty_all c) (f_sib fr)"
  shows "shape t'"
    and "map_of (ents t') = (map_of (ents (plug (c @ [fr]) (ALeaf a k d))))(k := None)"
proof -
  let ?b = "plug [fr] (ALeaf a k d)"
  have b: "shape ?b" using t shape_hole [of c ?b] by simp
  then have sib: "shape (f_sib fr)" by (cases fr) (auto split: if_splits)
  have "fits c ?b x" if "x \<in> akeys (f_sib fr)" for x
    using that by (cases fr) (auto simp: fits_def)
  then show sh': "shape t'"
    unfolding t'_def shape_dirty using t by (intro shape_plug [OF _ sib, of c ?b]) auto
  have fresh: "fst ` set (cents (c @ [fr])) \<inter> {k} = {}"
    using hole_keys_fresh [OF t] by simp
  have cents: "set (cents (c @ [fr])) = set (cents c) \<union> set (ents (f_sib fr))"
    by (induction c) auto
  have "set (ents t') = {e \<in> set (ents (plug (c @ [fr]) (ALeaf a k d))). fst e \<noteq> k}"
    using fresh unfolding t'_def set_ents_plug cents cents_dirty by auto
  then show "map_of (ents t') = (map_of (ents (plug (c @ [fr]) (ALeaf a k d))))(k := None)"
    by (intro map_of_set_del distinct_keys t sh')
qed

section \<open>The arena\<close>

text \<open>Every slot of the arena is live (one of \<open>A\<close>) or free, and none is both or twice either:
  nothing leaks and nothing is freed twice.\<close>

definition arena :: "trie \<Rightarrow> u32 list \<Rightarrow> bool" where
  "arena T A \<longleftrightarrow> distinct (A @ tr_free T) \<and> set (A @ tr_free T) = {i. unat i < length (tr_nodes T)}
     \<and> length (tr_nodes T) \<le> 2 ^ 32"

lemma arena_mset: "mset A = mset B \<Longrightarrow> arena T A = arena T B"
  unfolding arena_def by (metis mset_append mset_eq_imp_distinct_iff mset_eq_setD)

lemma arena_cong:
  "tr_free T' = tr_free T \<Longrightarrow> length (tr_nodes T') = length (tr_nodes T) \<Longrightarrow> arena T' A = arena T A"
  by (simp add: arena_def)

lemma arena_live: "arena T A \<Longrightarrow> x \<in> set A \<Longrightarrow> unat x < length (tr_nodes T)"
  by (auto simp: arena_def)

lemma arena_release: "arena T (i # A) \<Longrightarrow> arena (trie_release T i) A"
  by (auto simp: arena_def trie_release_def)

lemma arena_alloc:
  assumes A: "arena T A" and room: "length (tr_nodes T) < 2 ^ 32"
  obtains T' i where "trie_alloc T nd = Some (T', i)" "arena T' (i # A)"
    "node_at (tr_nodes T') i = Some nd" "\<And>x. x \<in> set A \<Longrightarrow> node_at (tr_nodes T') x = node_at (tr_nodes T) x"
    "tr_root T' = tr_root T" "tr_len T' = tr_len T" "length (tr_nodes T') \<le> length (tr_nodes T) + 1"
proof (cases "tr_free T" rule: rev_cases)
  case Nil
  define i :: u32 where "i = of_nat (length (tr_nodes T))"
  then have i: "unat i = length (tr_nodes T)"
    using room of_nat_inverse [of "length (tr_nodes T)" i] by simp
  have live: "set A = {i. unat i < length (tr_nodes T)}" using A by (simp add: arena_def Nil)
  show ?thesis
  proof (rule that [of "T\<lparr>tr_nodes := tr_nodes T @ [nd]\<rparr>" i])
    have "unat x < Suc (length (tr_nodes T)) \<longleftrightarrow> x = i \<or> unat x < length (tr_nodes T)" for x :: u32
      using i by (metis less_Suc_eq word_unat_eq_iff)
    then have "{x :: u32. unat x < Suc (length (tr_nodes T))} = insert i {x. unat x < length (tr_nodes T)}"
      by blast
    then show "arena (T\<lparr>tr_nodes := tr_nodes T @ [nd]\<rparr>) (i # A)"
      using A room i by (simp add: arena_def Nil live)
    show "node_at (tr_nodes (T\<lparr>tr_nodes := tr_nodes T @ [nd]\<rparr>)) i = Some nd"
      by (simp add: node_at_def i)
    show "node_at (tr_nodes (T\<lparr>tr_nodes := tr_nodes T @ [nd]\<rparr>)) x = node_at (tr_nodes T) x" if "x \<in> set A" for x
      using that live by (simp add: node_at_def nth_append)
  qed (simp_all add: trie_alloc_def Nil i_def)
next
  case (snoc fs i)
  have i: "unat i < length (tr_nodes T)" and ni: "i \<notin> set A"
    using A snoc by (auto simp: arena_def)
  show ?thesis
  proof (rule that [of "T\<lparr>tr_nodes := (tr_nodes T)[unat i := nd], tr_free := fs\<rparr>" i])
    show "arena (T\<lparr>tr_nodes := (tr_nodes T)[unat i := nd], tr_free := fs\<rparr>) (i # A)"
      using A snoc by (auto simp: arena_def)
  qed (use i ni snoc in \<open>auto simp: trie_alloc_def node_put_Some node_at_update\<close>)
qed

definition trie_abs :: "ext \<Rightarrow> trie \<Rightarrow> atree option \<Rightarrow> bool" where
  "trie_abs X T ot \<longleftrightarrow> (case ot of
     None \<Rightarrow> arena T [] \<and> tr_root T = None \<and> tr_len T = 0
   | Some t \<Rightarrow> arena T (addrs t) \<and> tr_root T = Some (addr t) \<and> rep (tr_nodes T) t \<and> shape t
       \<and> cached X t \<and> tr_len T = length (ents t))"

definition omap :: "atree option \<Rightarrow> particle \<rightharpoonup> digest" where
  "omap ot = (case ot of None \<Rightarrow> Map.empty | Some t \<Rightarrow> map_of (ents t))"

lemma trie_abs_simps:
  "trie_abs X T None \<longleftrightarrow> arena T [] \<and> tr_root T = None \<and> tr_len T = 0"
  "trie_abs X T (Some t) \<longleftrightarrow> arena T (addrs t) \<and> tr_root T = Some (addr t) \<and> rep (tr_nodes T) t \<and> shape t
       \<and> cached X t \<and> tr_len T = length (ents t)"
  by (simp_all add: trie_abs_def)

lemma omap_simps [simp]: "omap None = Map.empty" "omap (Some t) = map_of (ents t)"
  by (simp_all add: omap_def)

lemma trie_abs_new: "trie_abs X trie_new None"
  by (simp add: trie_abs_simps arena_def trie_new_def)

text \<open>Hanging another subtree into a context and marking the path.\<close>

lemma graft:
  assumes c: "repc ns c x" and s: "rep ns s" and dis: "distinct (caddrs c @ addrs s)"
    and x: "x \<notin> set (caddrs c)"
  obtains ns1 ns2 where
    "c = [] \<Longrightarrow> ns1 = ns" "c \<noteq> [] \<Longrightarrow> replace_child ns (f_addr (last c)) x (addr s) = Some ns1"
    "trie_mark ns1 (map f_addr c) = Some ns2" "rep ns2 (plug (dirty_all c) s)" "length ns2 = length ns"
proof (cases c rule: rev_cases)
  case Nil
  then show ?thesis using that [of ns ns] s by simp
next
  case (snoc c' fr)
  have fr: "f_addr fr \<notin> set (addrs s)" "addr (f_sib fr) \<noteq> x"
    using dis x by (auto simp: snoc)
  have "distinct (caddrs (c' @ [fr]))" using dis unfolding snoc distinct_append by blast
  from replace_child_last [OF c [unfolded snoc] this fr(2), of "addr s"] obtain ns1 where
    r: "replace_child ns (f_addr fr) x (addr s) = Some ns1" "repc ns1 c (addr s)" "length ns1 = length ns"
    and keep: "\<And>i. i \<noteq> f_addr fr \<Longrightarrow> node_at ns1 i = node_at ns i"
    unfolding snoc by blast
  have s1: "rep ns1 s"
    using s fr(1) keep by (metis rep_cong)
  from mark_path [OF r(2)] dis obtain ns2 where
    m: "trie_mark ns1 (map f_addr c) = Some ns2" "repc ns2 (dirty_all c) (addr s)" "length ns2 = length ns1"
    and keep2: "\<And>i. i \<notin> set (map f_addr c) \<Longrightarrow> node_at ns2 i = node_at ns1 i"
    by auto
  have "set (map f_addr c) \<inter> set (addrs s) = {}"
    using f_addr_caddrs [of c] dis by auto
  then have "rep ns2 s"
    using s1 keep2 by (metis disjoint_iff rep_cong)
  then have "rep ns2 (plug (dirty_all c) s)" using m(2) by (simp add: rep_plug)
  then show ?thesis
    using that [of ns1 ns2, OF _ _ m(1)] r m(3) by (simp add: snoc)
qed

section \<open>What the operations do\<close>

lemma descend_abs:
  assumes "trie_abs X T (Some t)" and "walk k t = (c, ALeaf a k' d)"
  shows "trie_descend T k = Some (map f_addr c, a)" and "node_at (tr_nodes T) a = Some (Leaf k' d)"
    and "repc (tr_nodes T) c a" and "plug c (ALeaf a k' d) = t"
proof -
  have t: "rep (tr_nodes T) t" "shape t" "tr_root T = Some (addr t)"
    using assms(1) by (auto simp: trie_abs_simps)
  show p: "plug c (ALeaf a k' d) = t" using assms(2) by (rule plug_walk)
  show "trie_descend T k = Some (map f_addr c, a)"
    using descend_from_walk [OF t(1,2) assms(2), of "[]"] t(3) by (simp add: trie_descend_def)
  show "node_at (tr_nodes T) a = Some (Leaf k' d)" "repc (tr_nodes T) c a"
    using t(1) unfolding p [symmetric] by (auto simp: rep_plug)
qed

lemma walk_leafE:
  obtains c a k' d where "walk k t = (c, ALeaf a k' d)"
  using walk_is_leaf [of k t] by (metis surj_pair)

lemma trie_get_abs:
  assumes "trie_abs X T ot"
  shows "trie_get T k = Some (omap ot k)"
proof (cases ot)
  case None
  then show ?thesis using assms by (simp add: trie_abs_simps trie_get_def)
next
  case (Some t)
  obtain c a k' d where w: "walk k t = (c, ALeaf a k' d)" by (rule walk_leafE)
  note ab = assms [unfolded Some]
  show ?thesis
    using descend_abs [OF ab w] walk_lookup [OF _ w] ab by (simp add: Some trie_get_def trie_abs_simps)
qed

lemma set_empty_abs:
  assumes "trie_abs X T None" and "length (tr_nodes T) < 2 ^ 32"
  shows "\<exists>T' ot'. trie_set T k d = Some (T', True) \<and> trie_abs X T' ot' \<and> omap ot' = [k \<mapsto> d] \<and>
    length (tr_nodes T') \<le> length (tr_nodes T) + 2"
proof -
  have A: "arena T []" and r: "tr_root T = None" using assms(1) by (auto simp: trie_abs_simps)
  obtain T' i where T': "trie_alloc T (Leaf k d) = Some (T', i)" "arena T' [i]"
    "node_at (tr_nodes T') i = Some (Leaf k d)" "length (tr_nodes T') \<le> length (tr_nodes T) + 1"
    by (rule arena_alloc [OF A assms(2), of "Leaf k d"]) auto
  then have "trie_abs X (T'\<lparr>tr_root := Some i, tr_len := 1\<rparr>) (Some (ALeaf i k d))"
    by (simp add: trie_abs_simps arena_def)
  then show ?thesis
    using T' r by (intro exI [of _ "T'\<lparr>tr_root := Some i, tr_len := 1\<rparr>"] exI [of _ "Some (ALeaf i k d)"])
      (simp add: trie_set_def)
qed

lemma set_present_abs:
  assumes ab: "trie_abs X T (Some t)" and w: "walk k t = (c, ALeaf a k d0)"
  shows "\<exists>T' ot'. trie_set T k d = Some (T', False) \<and> trie_abs X T' ot' \<and> omap ot' = (map_of (ents t))(k \<mapsto> d) \<and>
    length (tr_nodes T') \<le> length (tr_nodes T) + 2"
proof (cases "d0 = d")
  case True
  have "map_of (ents t) k = Some d" using walk_lookup [OF _ w] ab True by (simp add: trie_abs_simps)
  moreover have "trie_set T k d = Some (T, False)"
    using descend_abs [OF ab w] ab True by (simp add: trie_set_def trie_abs_simps)
  ultimately show ?thesis
    using ab by (intro exI [of _ T] exI [of _ "Some t"]) (simp add: fun_upd_idem)
next
  case False
  note t = descend_abs [OF ab w]
  have abt: "arena T (addrs t)" "tr_root T = Some (addr t)" "shape t" "cached X t" "tr_len T = length (ents t)"
    using ab by (auto simp: trie_abs_simps)
  have dis: "distinct (caddrs c @ [a])"
    using abt(1) mset_addrs_plug [of c "ALeaf a k d0"] unfolding t(4) arena_def
    by (metis addrs.simps(1) distinct_append mset_append mset_eq_imp_distinct_iff)
  let ?ns = "(tr_nodes T)[unat a := Leaf k d]"
  have a: "unat a < length (tr_nodes T)" using t(2) by (rule node_at_range)
  have "repc ?ns c a" using t(3) dis by (simp add: repc_update)
  from mark_path [OF this] dis obtain ns where
    m: "trie_mark ?ns (map f_addr c) = Some ns" "repc ns (dirty_all c) a" "length ns = length (tr_nodes T)"
    and keep: "\<And>i. i \<notin> set (map f_addr c) \<Longrightarrow> node_at ns i = node_at ?ns i"
    by auto
  have "a \<notin> set (map f_addr c)" using dis f_addr_caddrs [of c] by auto
  then have "node_at ns a = Some (Leaf k d)" using keep a by (simp add: node_at_update)
  then have rep: "rep ns (plug (dirty_all c) (ALeaf a k d))" using m(2) by (simp add: rep_plug)
  let ?T = "T\<lparr>tr_nodes := ns\<rparr>" and ?t = "plug (dirty_all c) (ALeaf a k d)"
  have "mset (addrs ?t) = mset (addrs t)" unfolding t(4) [symmetric] by (simp add: mset_addrs_plug)
  then have "arena ?T (addrs ?t) \<longleftrightarrow> arena ?T (addrs t)" by (rule arena_mset)
  moreover have "arena ?T (addrs t) \<longleftrightarrow> arena T (addrs t)" by (rule arena_cong) (simp_all add: m(3))
  ultimately have "arena ?T (addrs ?t)" using abt(1) by blast
  moreover have "length (ents ?t) = length (ents t)"
    unfolding t(4) [symmetric] by (simp add: length_ents_plug)
  moreover have "addr ?t = addr t" unfolding t(4) [symmetric] by simp
  moreover have "cached X ?t"
    using cached_dirty [of X c "ALeaf a k d0" "ALeaf a k d"] abt(4) t(4) by simp
  ultimately have "trie_abs X ?T (Some ?t)"
    using rep tree_update(1) [of c a k d0 d] abt t(4) by (simp add: trie_abs_simps)
  moreover have "trie_set T k d = Some (?T, False)"
    using t abt(2) False m a by (simp add: trie_set_def node_put_Some)
  ultimately show ?thesis
    using tree_update(2) [of c a k d0 d] abt(3) t(4) m(3)
    by (intro exI [of _ ?T] exI [of _ "Some ?t"]) simp
qed

lemma split_frames:
  assumes "sorted_wrt (\<lambda>g h. f_bit g < f_bit h) c"
  obtains c1 c2 where "c = c1 @ c2" "\<forall>fr \<in> set c1. f_bit fr < j" "\<forall>fr \<in> set c2. \<not> f_bit fr < j"
proof (rule that)
  show "c = takeWhile (\<lambda>fr. f_bit fr < j) c @ dropWhile (\<lambda>fr. f_bit fr < j) c" by simp
  show "\<forall>fr \<in> set (takeWhile (\<lambda>fr. f_bit fr < j) c). f_bit fr < j" by (meson set_takeWhileD)
  show "\<forall>fr \<in> set (dropWhile (\<lambda>fr. f_bit fr < j) c). \<not> f_bit fr < j"
    using assms
  proof (induction c)
    case (Cons g c)
    show ?case
    proof (cases "f_bit g < j")
      case True
      have "sorted_wrt (\<lambda>g h. f_bit g < f_bit h) c" using Cons.prems by simp
      then show ?thesis unfolding dropWhile.simps if_P [OF True] by (rule Cons.IH)
    next
      case False
      have "\<not> f_bit fr < j" if "fr \<in> set c" for fr
      proof -
        have "f_bit g < f_bit fr" using that Cons.prems by simp
        with False show ?thesis using order_less_trans by blast
      qed
      then show ?thesis unfolding dropWhile.simps if_not_P [OF False] using False by (metis set_ConsD)
    qed
  qed simp
qed

text \<open>The steps of \<open>trie_set\<close> on an absent key, in order.\<close>

lemma trie_set_new:
  assumes "tr_root T = Some r" "trie_descend T k = Some (path, leaf)"
    "node_at (tr_nodes T) leaf = Some (Leaf k' d')" "k' \<noteq> k" "first_diff_bit k k' = Some j"
    "keep_loop (tr_nodes T) path j (length path) = Some keep"
    "(if keep = length path then Some leaf else nth_opt path keep) = Some split"
    "trie_alloc T (Leaf k d) = Some (T1, nl)" "key_bit k j = Some s"
    "trie_alloc T1 (if s then Branch j split nl EMPTY True else Branch j nl split EMPTY True) = Some (T2, nb)"
    "(if keep = 0 then Some (T2\<lparr>tr_root := Some nb\<rparr>)
      else do { p \<leftarrow> nth_opt path (keep - 1); ns \<leftarrow> replace_child (tr_nodes T2) p split nb;
                Some (T2\<lparr>tr_nodes := ns\<rparr>) }) = Some T3"
    "trie_mark (tr_nodes T3) (take keep path) = Some ns"
  shows "trie_set T k d = Some (T3\<lparr>tr_nodes := ns, tr_len := tr_len T3 + 1\<rparr>, True)"
  unfolding trie_set_def assms(1-3) option.case bind.bind_lunit prod.case node.case if_not_P [OF assms(4)] assms(5-12)
  ..

lemma set_absent_abs:
  assumes ab: "trie_abs X T (Some t)" and w: "walk k t = (c, ALeaf a k' d')" and ne: "k' \<noteq> k"
    and room: "length (tr_nodes T) + 2 \<le> 2 ^ 32"
  shows "\<exists>T' ot'. trie_set T k d = Some (T', True) \<and> trie_abs X T' ot' \<and> omap ot' = (map_of (ents t))(k \<mapsto> d) \<and>
    length (tr_nodes T') \<le> length (tr_nodes T) + 2"
proof -
  note t = descend_abs [OF ab w]
  have abt: "arena T (addrs t)" "tr_root T = Some (addr t)" "rep (tr_nodes T) t" "shape t" "cached X t"
    "tr_len T = length (ents t)"
    using ab by (auto simp: trie_abs_simps)
  obtain j where j: "first_diff_bit k k' = Some j" "unat j < 256" "kbit k (unat j) \<noteq> kbit k' (unat j)"
    "agree (unat j) k k'"
    using first_diff_bit_spec [of k k'] ne by (auto simp: agree_def)
  obtain c1 c2 where c: "c = c1 @ c2" and c1: "\<forall>fr \<in> set c1. f_bit fr < j"
    and c2: "\<forall>fr \<in> set c2. \<not> f_bit fr < j"
    using split_frames [OF walk_bits_sorted [OF abt(4) w]] by blast
  let ?s = "plug c2 (ALeaf a k' d')"
  obtain T1 nl where T1: "trie_alloc T (Leaf k d) = Some (T1, nl)" "arena T1 (nl # addrs t)"
    "node_at (tr_nodes T1) nl = Some (Leaf k d)"
    "\<And>x. x \<in> set (addrs t) \<Longrightarrow> node_at (tr_nodes T1) x = node_at (tr_nodes T) x"
    "tr_root T1 = tr_root T" "tr_len T1 = tr_len T" "length (tr_nodes T1) \<le> length (tr_nodes T) + 1"
    by (rule arena_alloc [OF abt(1), of "Leaf k d"]) (use room in auto)
  define nd where "nd = (if kbit k (unat j) then Branch j (addr ?s) nl EMPTY True else Branch j nl (addr ?s) EMPTY True)"
  obtain T2 nb where T2: "trie_alloc T1 nd = Some (T2, nb)" "arena T2 (nb # nl # addrs t)"
    "node_at (tr_nodes T2) nb = Some nd"
    "\<And>x. x \<in> set (nl # addrs t) \<Longrightarrow> node_at (tr_nodes T2) x = node_at (tr_nodes T1) x"
    "tr_root T2 = tr_root T1" "tr_len T2 = tr_len T1" "length (tr_nodes T2) \<le> length (tr_nodes T1) + 1"
    by (rule arena_alloc [OF T1(2), of nd]) (use room T1(7) in auto)
  let ?n = "split_node nl nb k d j ?s"
  have tc: "t = plug c1 ?s" using t(4) c by simp
  have rep2: "rep (tr_nodes T2) t"
    using abt(3) T1(4) T2(4) rep_cong [of t "tr_nodes T2" "tr_nodes T"] by simp
  have n_addrs: "mset (caddrs c1 @ addrs ?n) = mset (nb # nl # addrs t)"
    by (simp add: tc mset_addrs_plug split_node_def)
  then have dis: "distinct (caddrs c1 @ addrs ?n)"
    using T2(2) mset_eq_imp_distinct_iff [OF n_addrs] by (simp add: arena_def)
  have repn: "rep (tr_nodes T2) ?n"
    using rep2 T1(3) T2(3,4) by (simp add: tc rep_plug split_node_def nd_def)
  have repc2: "repc (tr_nodes T2) c1 (addr ?s)" using rep2 by (simp add: tc rep_plug)
  have s_in: "addr ?s \<in> set (addrs ?n)"
    using addr_in_addrs [of ?s] by (simp add: split_node_def del: addr_plug addr_in_addrs)
  then have x: "addr ?s \<notin> set (caddrs c1)" using dis by auto
  obtain ns1 ns2 where g: "c1 = [] \<Longrightarrow> ns1 = tr_nodes T2"
    "c1 \<noteq> [] \<Longrightarrow> replace_child (tr_nodes T2) (f_addr (last c1)) (addr ?s) (addr ?n) = Some ns1"
    "trie_mark ns1 (map f_addr c1) = Some ns2" "rep ns2 (plug (dirty_all c1) ?n)" "length ns2 = length (tr_nodes T2)"
    by (rule graft [OF repc2 repn dis x]) auto
  have an: "addr ?n = nb" by (simp add: split_node_def)
  let ?t = "plug (dirty_all c1) ?n"
  let ?T = "T2\<lparr>tr_nodes := ns2, tr_root := Some (addr ?t), tr_len := tr_len T + 1\<rparr>"
  have keep: "keep_loop (tr_nodes T) (map f_addr c) j (length (map f_addr c)) = Some (length c1)"
    using keep_loop_frames [OF _ c1 c2, of "tr_nodes T" a] t(3) unfolding c by simp
  have split: "(if length c1 = length (map f_addr c) then Some a else nth_opt (map f_addr c) (length c1)) = Some (addr ?s)"
    by (cases c2) (simp_all add: c nth_opt_def nth_append)
  have par: "nth_opt (map f_addr c) (length c1 - 1) = Some (f_addr (last c1))" if "c1 \<noteq> []"
    using that by (cases c1 rule: rev_cases) (simp_all add: c nth_opt_def nth_append)
  have root: "tr_root T2 = Some (haddr c1 (addr ?s))" using T1(5) T2(5) abt(2) by (simp add: tc)
  define T3 where "T3 = (if c1 = [] then T2\<lparr>tr_root := Some nb\<rparr> else T2\<lparr>tr_nodes := ns1\<rparr>)"
  have ns1: "tr_nodes T3 = ns1" using g(1) by (simp add: T3_def)
  have op: "trie_set T k d = Some (T3\<lparr>tr_nodes := ns2, tr_len := tr_len T3 + 1\<rparr>, True)"
  proof (rule trie_set_new [OF abt(2) t(1,2) ne j(1) keep split T1(1)])
    show "key_bit k j = Some (kbit k (unat j))" using j(2) by (simp add: key_bit_eq)
    show "trie_alloc T1 (if kbit k (unat j) then Branch j (addr ?s) nl EMPTY True
       else Branch j nl (addr ?s) EMPTY True) = Some (T2, nb)"
      using T2(1) unfolding nd_def .
    show "(if length c1 = 0 then Some (T2\<lparr>tr_root := Some nb\<rparr>)
      else do { p \<leftarrow> nth_opt (map f_addr c) (length c1 - 1); ns \<leftarrow> replace_child (tr_nodes T2) p (addr ?s) nb;
                Some (T2\<lparr>tr_nodes := ns\<rparr>) }) = Some T3"
      using par g(2) by (simp add: T3_def an)
    show "trie_mark (tr_nodes T3) (take (length c1) (map f_addr c)) = Some ns2"
      using g(3) by (simp add: ns1 c)
  qed
  have T3: "T3\<lparr>tr_nodes := ns2, tr_len := tr_len T3 + 1\<rparr> = ?T"
    using root T1(6) T2(6) by (cases c1) (simp_all add: T3_def an)
  have side: "\<forall>fr \<in> set (c1 @ c2). f_side fr = kbit k (unat (f_bit fr))"
    using walk_side [OF w] unfolding c by blast
  have fresh: "k \<notin> akeys t"
    using walk_lookup [OF abt(4) w] ne by (simp add: map_of_ents_None [symmetric])
  have sh: "shape (plug (c1 @ c2) (ALeaf a k' d'))" using abt(4) t(4) c by simp
  note new = tree_split [OF sh c1 c2 side j(2-4), where nl = nl and nb = nb and d = d]
  have fresh': "k \<notin> akeys (plug (c1 @ c2) (ALeaf a k' d'))" using fresh t(4) c by simp
  have "arena ?T (addrs ?t)"
  proof -
    have "mset (addrs ?t) = mset (nb # nl # addrs t)"
      using n_addrs by (simp add: mset_addrs_plug)
    then have "arena ?T (addrs ?t) \<longleftrightarrow> arena ?T (nb # nl # addrs t)" by (rule arena_mset)
    moreover have "arena ?T (nb # nl # addrs t) \<longleftrightarrow> arena T2 (nb # nl # addrs t)"
      by (rule arena_cong) (simp_all add: g(5))
    ultimately show ?thesis using T2(2) by blast
  qed
  moreover have "cached X ?t"
    using abt(5) cached_hole [of X c1 ?s] unfolding tc
    by (intro cached_dirty [of X c1 ?s]) (auto simp: split_node_def)
  moreover have "length (ents ?t) = tr_len T + 1"
    using abt(6) by (simp add: tc length_ents_plug split_node_def)
  ultimately have "trie_abs X ?T (Some ?t)"
    using g(4) new(1) [OF fresh'] by (simp add: trie_abs_simps)
  moreover have "length (tr_nodes ?T) \<le> length (tr_nodes T) + 2"
    using g(5) T1(7) T2(7) by simp
  ultimately show ?thesis
    using op T3 new(2) [OF fresh'] t(4) c by (intro exI [of _ ?T] exI [of _ "Some ?t"]) simp
qed

lemma trie_set_abs:
  assumes "trie_abs X T ot" and "length (tr_nodes T) + 2 \<le> 2 ^ 32"
  shows "\<exists>T' ot'. trie_set T k d = Some (T', omap ot k = None) \<and> trie_abs X T' ot' \<and>
    omap ot' = (omap ot)(k \<mapsto> d) \<and> length (tr_nodes T') \<le> length (tr_nodes T) + 2"
proof (cases ot)
  case None
  then show ?thesis using set_empty_abs [of X T k d] assms by simp
next
  case (Some t)
  note ab = assms(1) [unfolded Some]
  obtain c a k' d' where w: "walk k t = (c, ALeaf a k' d')" by (rule walk_leafE)
  have "map_of (ents t) k = (if k' = k then Some d' else None)"
    using walk_lookup [OF _ w] ab by (simp add: trie_abs_simps)
  then show ?thesis
    using set_present_abs [OF ab, of k c a d' d] set_absent_abs [OF ab w _ assms(2), of d] w
    by (cases "k' = k") (auto simp: Some)
qed

text \<open>The steps of \<open>trie_remove\<close> on a present key with a branch above it, in order.\<close>

lemma trie_remove_branch:
  assumes "tr_root T = Some r" "trie_descend T k = Some (path, leaf)"
    "node_at (tr_nodes T) leaf = Some (Leaf k d)" "tr_len T \<noteq> 0" "path \<noteq> []"
    "node_at (tr_nodes T) (last path) = Some (Branch b left right dd f)"
    "sib = (if left = leaf then right else left)"
    "T1 = trie_release (trie_release T leaf\<lparr>tr_len := tr_len T - 1\<rparr>) (last path)"
    "(if butlast path = [] then Some (T1\<lparr>tr_root := Some sib\<rparr>)
      else do { ns \<leftarrow> replace_child (tr_nodes T1) (last (butlast path)) (last path) sib;
                Some (T1\<lparr>tr_nodes := ns\<rparr>) }) = Some T2"
    "trie_mark (tr_nodes T2) (butlast path) = Some ns"
  shows "trie_remove T k = Some (T2\<lparr>tr_nodes := ns\<rparr>, True)"
proof -
  have r: "tr_len (trie_release T leaf) = tr_len T" "tr_nodes (trie_release T leaf\<lparr>tr_len := n\<rparr>) = tr_nodes T" for n
    by (simp_all add: trie_release_def)
  show ?thesis
    unfolding trie_remove_def assms(1-3) option.case bind.bind_lunit prod.case node.case Let_def r
      if_not_P [OF assms(4)] if_not_P [OF assms(5)] assms(6)
    unfolding assms(7,8) [symmetric] assms(9) bind.bind_lunit assms(10)
    by simp
qed

lemma remove_present_abs:
  assumes ab: "trie_abs X T (Some t)" and w: "walk k t = (c @ [fr], ALeaf a k d)"
  shows "\<exists>T' ot'. trie_remove T k = Some (T', True) \<and> trie_abs X T' ot' \<and> omap ot' = (map_of (ents t))(k := None) \<and>
    length (tr_nodes T') = length (tr_nodes T)"
proof -
  note t = descend_abs [OF ab w]
  have abt: "arena T (addrs t)" "tr_root T = Some (addr t)" "rep (tr_nodes T) t" "shape t" "cached X t"
    "tr_len T = length (ents t)"
    using ab by (auto simp: trie_abs_simps)
  obtain p b s sib dd f where fr: "fr = Frame p b s sib dd f" by (cases fr)
  have tc: "t = plug c (plug [fr] (ALeaf a k d))" using t(4) by simp
  have ms: "mset (addrs t) = mset (p # a # (caddrs c @ addrs sib))"
    by (simp add: tc mset_addrs_plug fr)
  have ar: "arena T (p # a # caddrs c @ addrs sib)" using abt(1) arena_mset [OF ms] by blast
  then have dis: "distinct (caddrs c @ addrs sib)" "a \<noteq> addr sib" "p \<notin> set (caddrs c)"
    using addr_in_addrs [of sib] by (auto simp: arena_def)
  have rep: "repc (tr_nodes T) c p" "rep (tr_nodes T) sib"
    "node_at (tr_nodes T) p = Some (Branch b (if s then addr sib else a) (if s then a else addr sib) dd f)"
    using abt(3) by (auto simp: tc rep_plug fr split: if_splits)
  obtain ns1 ns2 where g: "c = [] \<Longrightarrow> ns1 = tr_nodes T"
    "c \<noteq> [] \<Longrightarrow> replace_child (tr_nodes T) (f_addr (last c)) p (addr sib) = Some ns1"
    "trie_mark ns1 (map f_addr c) = Some ns2" "rep ns2 (plug (dirty_all c) sib)" "length ns2 = length (tr_nodes T)"
    by (rule graft [OF rep(1,2) dis(1,3)]) auto
  define T1 where "T1 = trie_release (trie_release T a\<lparr>tr_len := tr_len T - 1\<rparr>) p"
  define T2 where "T2 = (if c = [] then T1\<lparr>tr_root := Some (addr sib)\<rparr> else T1\<lparr>tr_nodes := ns1\<rparr>)"
  have T1: "tr_nodes T1 = tr_nodes T" by (simp add: T1_def trie_release_def)
  have ns1: "tr_nodes T2 = ns1" using g(1) T1 by (simp add: T2_def)
  have len: "tr_len T \<noteq> 0" using abt(6) by simp
  have op: "trie_remove T k = Some (T2\<lparr>tr_nodes := ns2\<rparr>, True)"
  proof (rule trie_remove_branch [OF abt(2) t(1,2) len])
    show "node_at (tr_nodes T) (last (map f_addr (c @ [fr]))) =
        Some (Branch b (if s then addr sib else a) (if s then a else addr sib) dd f)"
      using rep(3) by (simp add: fr)
    show "addr sib = (if (if s then addr sib else a) = a then (if s then a else addr sib) else (if s then addr sib else a))"
      using dis(2) by simp
    show "T1 = trie_release (trie_release T a\<lparr>tr_len := tr_len T - 1\<rparr>) (last (map f_addr (c @ [fr])))"
      by (simp add: T1_def fr)
    show "(if butlast (map f_addr (c @ [fr])) = [] then Some (T1\<lparr>tr_root := Some (addr sib)\<rparr>)
      else do { ns \<leftarrow> replace_child (tr_nodes T1) (last (butlast (map f_addr (c @ [fr])))) (last (map f_addr (c @ [fr]))) (addr sib);
                Some (T1\<lparr>tr_nodes := ns\<rparr>) }) = Some T2"
      using g(2) by (simp add: T2_def T1 butlast_append last_map fr)
    show "trie_mark (tr_nodes T2) (butlast (map f_addr (c @ [fr]))) = Some ns2"
      using g(3) by (simp add: ns1 butlast_append)
  qed simp
  let ?t = "plug (dirty_all c) sib" and ?T = "T2\<lparr>tr_nodes := ns2\<rparr>"
  have "arena T1 (caddrs c @ addrs sib)"
  proof -
    have "mset (p # a # caddrs c @ addrs sib) = mset (a # p # caddrs c @ addrs sib)" by simp
    then have "arena T (a # p # caddrs c @ addrs sib)" using ar arena_mset by blast
    then have "arena (trie_release T a) (p # caddrs c @ addrs sib)" by (rule arena_release)
    then have "arena (trie_release T a\<lparr>tr_len := tr_len T - 1\<rparr>) (p # caddrs c @ addrs sib)"
      by (simp add: arena_def)
    then show ?thesis unfolding T1_def by (rule arena_release)
  qed
  moreover have "arena ?T (addrs ?t) \<longleftrightarrow> arena ?T (caddrs c @ addrs sib)"
    by (rule arena_mset) (simp add: mset_addrs_plug)
  moreover have "arena ?T (caddrs c @ addrs sib) \<longleftrightarrow> arena T1 (caddrs c @ addrs sib)"
    by (rule arena_cong) (simp_all add: T2_def T1 g(5))
  ultimately have "arena ?T (addrs ?t)" by blast
  moreover have "tr_root ?T = Some (addr ?t)"
    using abt(2) by (cases c) (simp_all add: T2_def T1_def trie_release_def tc)
  moreover have "cached X ?t"
    using abt(5) cached_hole [of X c "plug [fr] (ALeaf a k d)"] unfolding tc
    by (intro cached_dirty [of X c "plug [fr] (ALeaf a k d)"]) (auto simp: fr split: if_splits)
  moreover have "tr_len ?T = length (ents ?t)"
    using abt(6) by (simp add: tc length_ents_plug T2_def T1_def trie_release_def fr)
  moreover have "shape (plug (c @ [fr]) (ALeaf a k d))" using abt(4) t(4) by simp
  note new = tree_drop [OF this]
  ultimately have "trie_abs X ?T (Some ?t)"
    using g(4) new(1) by (simp add: trie_abs_simps fr)
  then show ?thesis
    using op new(2) t(4) g(5) by (intro exI [of _ ?T] exI [of _ "Some ?t"]) (simp add: fr)
qed

lemma trie_remove_abs:
  assumes ab: "trie_abs X T ot"
  shows "\<exists>T' ot'. trie_remove T k = Some (T', omap ot k \<noteq> None) \<and> trie_abs X T' ot' \<and>
    omap ot' = (omap ot)(k := None) \<and> length (tr_nodes T') = length (tr_nodes T)"
proof (cases ot)
  case None
  then show ?thesis
    using assms by (intro exI [of _ T] exI [of _ None]) (simp add: trie_abs_simps trie_remove_def fun_eq_iff)
next
  case (Some t)
  note ab = assms [unfolded Some]
  obtain c a k' d' where w: "walk k t = (c, ALeaf a k' d')" by (rule walk_leafE)
  note t = descend_abs [OF ab w]
  have lk: "map_of (ents t) k = (if k' = k then Some d' else None)" and root: "tr_root T = Some (addr t)"
    using walk_lookup [OF _ w] ab by (auto simp: trie_abs_simps)
  show ?thesis
  proof (cases "k' = k")
    case False
    then have "trie_remove T k = Some (T, False)" and "omap ot k = None"
      using t(1,2) root lk by (simp_all add: trie_remove_def Some)
    moreover from this have "(omap ot)(k := None) = omap ot" by (simp add: fun_upd_idem)
    ultimately show ?thesis using assms by (intro exI [of _ T] exI [of _ ot]) simp
  next
    case True
    show ?thesis
    proof (cases c rule: rev_cases)
      case Nil
      then have tl: "t = ALeaf a k d'" using t(4) True by simp
      let ?T = "trie_release T a\<lparr>tr_len := 0, tr_root := None\<rparr>"
      have "trie_remove T k = Some (?T, True)"
        using t(1,2) root True ab by (simp add: trie_remove_def Nil trie_release_def trie_abs_simps tl)
      moreover have "trie_abs X ?T None"
        using ab arena_release [of T a "[]"] by (simp add: trie_abs_simps tl arena_def trie_release_def)
      ultimately show ?thesis
        using True lk by (intro exI [of _ ?T] exI [of _ None]) (auto simp: Some tl trie_release_def)
    next
      case (snoc c' fr)
      then show ?thesis
        using remove_present_abs [OF ab, of k c' fr a d'] w True lk by (simp add: Some)
    qed
  qed
qed

section \<open>Hashing\<close>

fun scrub :: "ext \<Rightarrow> atree \<Rightarrow> atree" where
  "scrub X (ALeaf a k d) = ALeaf a k d"
| "scrub X (ABranch a b l r _ _) =
     ABranch a b (scrub X l) (scrub X r) (branch_digest X b (dg X l) (dg X r)) False"

lemma scrub_simps [simp]:
  "addr (scrub X t) = addr t" "addrs (scrub X t) = addrs t" "ents (scrub X t) = ents t"
  "akeys (scrub X t) = akeys t" "dg X (scrub X t) = dg X t"
  by (induction t) auto

lemma shape_scrub [simp]: "shape (scrub X t) = shape t"
  by (induction t) auto

lemma clean_scrub: "clean X (scrub X t)"
  by (induction t) auto

lemma scrub_clean: "clean X t \<Longrightarrow> scrub X t = t"
  by (induction t) auto

lemma trie_hash_abs:
  "rep ns t \<Longrightarrow> cached X t \<Longrightarrow> distinct (addrs t) \<Longrightarrow>
     \<exists>ns'. trie_hash X ns (addr t) = Some (ns', dg X t) \<and> rep ns' (scrub X t) \<and> length ns' = length ns \<and>
       (\<forall>i. i \<notin> set (addrs t) \<longrightarrow> node_at ns' i = node_at ns i)"
proof (induction t arbitrary: ns)
  case (ALeaf a k d)
  then show ?case by (subst trie_hash.simps) simp
next
  case (ABranch a b l r d f)
  have at: "node_at ns a = Some (Branch b (addr l) (addr r) d f)" using ABranch.prems by simp
  show ?case
  proof (cases f)
    case False
    then have c: "clean X (ABranch a b l r d f)" using ABranch.prems(2) by simp
    have "trie_hash X ns a = Some (ns, d)" using at False by (subst trie_hash.simps) simp
    then show ?thesis using c ABranch.prems(1) scrub_clean [OF c] by simp
  next
    case True
    obtain ns1 where l: "trie_hash X ns (addr l) = Some (ns1, dg X l)" "rep ns1 (scrub X l)" "length ns1 = length ns"
      and k1: "\<And>i. i \<notin> set (addrs l) \<Longrightarrow> node_at ns1 i = node_at ns i"
      using ABranch.IH(1) [of ns] ABranch.prems by auto
    have "rep ns1 r"
      using ABranch.prems k1 rep_cong [of r ns1 ns] by fastforce
    then obtain ns2 where r: "trie_hash X ns1 (addr r) = Some (ns2, dg X r)" "rep ns2 (scrub X r)" "length ns2 = length ns1"
      and k2: "\<And>i. i \<notin> set (addrs r) \<Longrightarrow> node_at ns2 i = node_at ns1 i"
      using ABranch.IH(2) [of ns1] ABranch.prems by auto
    have l2: "rep ns2 (scrub X l)"
      using l(2) k2 ABranch.prems(3) rep_cong [of "scrub X l" ns2 ns1] by fastforce
    have at2: "node_at ns2 a = Some (Branch b (addr l) (addr r) d f)"
      using at k1 k2 ABranch.prems(3) by simp
    let ?d = "branch_digest X b (dg X l) (dg X r)"
    let ?ns = "ns2[unat a := Branch b (addr l) (addr r) ?d False]"
    have rng: "unat a < length ns2" using at2 by (rule node_at_range)
    have "trie_hash X ns a = Some (?ns, ?d)"
      using at at2 l(1) r(1) True rng by (subst trie_hash.simps) (simp add: node_put_Some Let_def)
    moreover have "rep ?ns (scrub X (ABranch a b l r d f))"
      using l2 r(2) rng ABranch.prems(3) by (simp add: node_at_update rep_update)
    moreover have "node_at ?ns i = node_at ns i" if "i \<notin> set (addrs (ABranch a b l r d f))" for i
      using that k1 k2 by (simp add: node_at_other)
    ultimately show ?thesis using l(3) r(3) by auto
  qed
qed

definition odg :: "ext \<Rightarrow> atree option \<Rightarrow> digest" where
  "odg X ot = (case ot of None \<Rightarrow> EMPTY | Some t \<Rightarrow> dg X t)"

lemma trie_root_abs:
  assumes "trie_abs X T ot"
  obtains T' where "trie_root X T = Some (T', odg X ot)" "trie_abs X T' (map_option (scrub X) ot)"
    "tr_root T' = tr_root T" "tr_len T' = tr_len T" "length (tr_nodes T') = length (tr_nodes T)"
proof (cases ot)
  case None
  then show ?thesis using assms that [of T] by (simp add: trie_root_def trie_abs_simps odg_def)
next
  case (Some t)
  have t: "rep (tr_nodes T) t" "cached X t" "distinct (addrs t)" "tr_root T = Some (addr t)"
    using assms by (auto simp: Some trie_abs_simps arena_def)
  obtain ns where ns: "trie_hash X (tr_nodes T) (addr t) = Some (ns, dg X t)" "rep ns (scrub X t)"
    "length ns = length (tr_nodes T)"
    using trie_hash_abs [OF t(1-3)] by blast
  have "arena (T\<lparr>tr_nodes := ns\<rparr>) (addrs t) \<longleftrightarrow> arena T (addrs t)" by (rule arena_cong) (simp_all add: ns)
  then have "trie_abs X (T\<lparr>tr_nodes := ns\<rparr>) (Some (scrub X t))"
    using assms ns by (simp add: Some trie_abs_simps clean_cached clean_scrub)
  then show ?thesis
    using that [of "T\<lparr>tr_nodes := ns\<rparr>"] ns t(4) by (simp add: Some trie_root_def odg_def)
qed

lemma omap_scrub [simp]: "omap (map_option (scrub X) ot) = omap ot"
  by (cases ot) simp_all

lemma odg_scrub [simp]: "odg X (map_option (scrub X) ot) = odg X ot"
  by (cases ot) (simp_all add: odg_def)

section \<open>Paths as proofs\<close>

abbreviation csteps :: "ext \<Rightarrow> frame list \<Rightarrow> (u16 \<times> digest) list" where
  "csteps X c \<equiv> map (\<lambda>fr. (f_bit fr, dg X (f_sib fr))) c"

lemma node_digest_clean: "rep ns t \<Longrightarrow> clean X t \<Longrightarrow> \<exists>nd. node_at ns (addr t) = Some nd \<and> node_digest nd = dg X t"
  by (cases t) auto

lemma prove_steps_frames:
  assumes "repc ns c x" and "\<forall>fr \<in> set c. clean X (f_sib fr)" and "\<forall>fr \<in> set c. unat (f_bit fr) < 256"
    and "\<forall>fr \<in> set c. f_side fr = kbit k (unat (f_bit fr))"
  shows "prove_steps ns k (map f_addr c) = Some (csteps X c)"
  using assms
proof (induction c)
  case (Cons fr c)
  obtain a b s sib d f where fr: "fr = Frame a b s sib d f" by (cases fr)
  obtain nd where "node_at ns (addr sib) = Some nd" "node_digest nd = dg X sib"
    using Cons.prems(1,2) node_digest_clean [of ns sib X] by (auto simp: fr)
  then show ?case
    using Cons by (auto simp: fr key_bit_eq)
qed simp

lemma frames_clean: "clean X (plug c s) \<Longrightarrow> fr \<in> set c \<Longrightarrow> clean X (f_sib fr)"
  by (induction c s rule: plug.induct) (auto split: if_splits)

lemma frames_bits: "shape (plug c s) \<Longrightarrow> fr \<in> set c \<Longrightarrow> unat (f_bit fr) < 256"
  by (induction c s rule: plug.induct) (auto split: if_splits)

lemma trie_prove_abs:
  assumes ab: "trie_abs X T (Some t)" and w: "walk k t = (c, ALeaf a k' d)"
  obtains T' where "trie_prove X T k = Some (T', \<lparr>tp_steps = csteps X c, tp_terminal = Some (k', d)\<rparr>)"
    "trie_abs X T' (Some (scrub X t))" "length (tr_nodes T') = length (tr_nodes T)"
proof -
  obtain T' where T': "trie_root X T = Some (T', dg X t)" "trie_abs X T' (Some (scrub X t))"
    "tr_root T' = tr_root T" "length (tr_nodes T') = length (tr_nodes T)"
    by (rule trie_root_abs [OF ab]) (auto simp: odg_def)
  obtain c2 a2 k2 d2 where w2: "walk k (scrub X t) = (c2, ALeaf a2 k2 d2)" by (rule walk_leafE)
  have same: "csteps X c2 = csteps X c \<and> a2 = a \<and> k2 = k' \<and> d2 = d"
    using w w2
    by (induction t arbitrary: c c2) (auto simp: Let_def split: prod.splits if_splits)
  note t2 = descend_abs [OF T'(2) w2]
  have "clean X (plug c2 (ALeaf a2 k2 d2))" "shape (plug c2 (ALeaf a2 k2 d2))"
    using clean_scrub T'(2) by (simp_all add: t2(4) trie_abs_simps)
  then have "prove_steps (tr_nodes T') k (map f_addr c2) = Some (csteps X c2)"
    using walk_side [OF w2] frames_clean frames_bits by (intro prove_steps_frames [OF t2(3)]) blast+
  moreover have "tr_root T = Some (addr t)" using ab by (simp add: trie_abs_simps)
  ultimately have "trie_prove X T k = Some (T', \<lparr>tp_steps = csteps X c, tp_terminal = Some (k', d)\<rparr>)"
    using T'(1) t2(1,2) same by (simp add: trie_prove_def)
  then show ?thesis using that T' by blast
qed

lemma verify_loop_frames:
  assumes "sorted_wrt (\<lambda>g h. f_bit g < f_bit h) c" and "\<forall>fr \<in> set c. unat (f_bit fr) < 256"
    and "\<forall>fr \<in> set c. f_side fr = kbit k (unat (f_bit fr))"
    and "\<forall>l. prev = Some l \<longrightarrow> (\<forall>fr \<in> set c. f_bit fr < l)"
  shows "verify_loop X k prev (dg X s) (rev (csteps X c)) = Some (Some (dg X (plug c s)))"
  using assms
proof (induction c arbitrary: s prev rule: rev_induct)
  case (snoc fr c)
  obtain a b sd sib d f where fr: "fr = Frame a b sd sib d f" by (cases fr)
  have "\<not> (case prev of Some l \<Rightarrow> l \<le> b | None \<Rightarrow> False)"
    using snoc.prems(4) by (auto simp: fr not_le split: option.splits)
  moreover have "verify_loop X k (Some b) (dg X (plug [fr] s)) (rev (csteps X c)) = Some (Some (dg X (plug (c @ [fr]) s)))"
    using snoc.prems by (subst snoc.IH) (auto simp: fr sorted_wrt_append)
  ultimately show ?case
    using snoc.prems(2,3) by (auto simp: fr key_bit_eq)
qed simp

end
