(* ===== verification/Bbg_Trie_Spec.thy ===== *)
theory Bbg_Trie_Spec
  imports Bbg_Trie_Refine
begin

text \<open>
  What the keyed trie promises (\<open>trie.rs\<close>, \<open>specs/state.md\<close>): it is a map from keys to leaf
  digests, its root is the digest of the canonical trie of its entries and so a function of
  the entries alone. The interface its clients rely on is the locale \<open>authenticated_map\<close>.
\<close>

section \<open>The canonical trie of a set of entries\<close>

text \<open>The derivation in the module documentation: \<open>node(S)\<close> splits \<open>S\<close> on the first bit on which
  its keys differ.\<close>

datatype stree = SEmpty | SLeaf particle digest | SBranch nat stree stree

definition first_split :: "particle list \<Rightarrow> nat option" where
  "first_split ks = find (\<lambda>i. \<exists>k \<in> set ks. kbit k i \<noteq> kbit (hd ks) i) [0..<256]"

lemma first_split_SomeD:
  assumes "first_split ks = Some i"
  shows "\<exists>k \<in> set ks. kbit k i" "\<exists>k \<in> set ks. \<not> kbit k i"
proof -
  obtain k where k: "k \<in> set ks" "kbit k i \<noteq> kbit (hd ks) i"
    using assms unfolding first_split_def find_Some_iff by auto
  moreover have "hd ks \<in> set ks" using k(1) by (cases ks) auto
  ultimately show "\<exists>k \<in> set ks. kbit k i" "\<exists>k \<in> set ks. \<not> kbit k i" by metis+
qed

function spec_tree :: "(particle \<times> digest) list \<Rightarrow> stree" where
  "spec_tree es =
     (case es of [] \<Rightarrow> SEmpty
      | [(k, d)] \<Rightarrow> SLeaf k d
      | _ \<Rightarrow> (case first_split (map fst es) of
           None \<Rightarrow> SEmpty
         | Some i \<Rightarrow> SBranch i (spec_tree (filter (\<lambda>e. \<not> kbit (fst e) i) es))
                              (spec_tree (filter (\<lambda>e. kbit (fst e) i) es))))"
  by pat_completeness auto
termination
proof (relation "measure length")
  fix es :: "(particle \<times> digest) list" and i
  assume i: "first_split (map fst es) = Some i"
  show "(filter (\<lambda>e. \<not> kbit (fst e) i) es, es) \<in> measure length"
    using first_split_SomeD(1) [OF i] by (auto intro: length_filter_less)
  show "(filter (\<lambda>e. kbit (fst e) i) es, es) \<in> measure length"
    using first_split_SomeD(2) [OF i] by (auto intro: length_filter_less)
qed (simp_all)

declare spec_tree.simps [simp del]

fun sdigest :: "ext \<Rightarrow> stree \<Rightarrow> digest" where
  "sdigest X SEmpty = EMPTY"
| "sdigest X (SLeaf _ d) = d"
| "sdigest X (SBranch i l r) = branch_digest X (of_nat i) (sdigest X l) (sdigest X r)"

definition spec_node :: "ext \<Rightarrow> (particle \<times> digest) list \<Rightarrow> digest" where
  "spec_node X es = sdigest X (spec_tree es)"

fun erase :: "atree \<Rightarrow> stree" where
  "erase (ALeaf _ k d) = SLeaf k d"
| "erase (ABranch _ b l r _ _) = SBranch (unat b) (erase l) (erase r)"

lemma sdigest_erase: "sdigest X (erase t) = dg X t"
  by (induction t) auto

lemma first_split_branch:
  assumes "shape (ABranch a b l r d f)" and "set ks = akeys l \<union> akeys r"
  shows "first_split ks = Some (unat b)"
proof -
  obtain kl kr where k: "kl \<in> akeys l" "kr \<in> akeys r"
    using akeys_nonempty [of l] akeys_nonempty [of r] by blast
  have hd: "hd ks \<in> set ks" using assms(2) k by (cases ks) auto
  have "\<not> kbit kl (unat b)" "kbit kr (unat b)" using assms(1) k by auto
  then have "\<exists>k \<in> set ks. kbit k (unat b) \<noteq> kbit (hd ks) (unat b)"
    using k assms(2) by (metis UnI1 UnI2)
  moreover have "\<not> (\<exists>k \<in> set ks. kbit k j \<noteq> kbit (hd ks) j)" if "j < unat b" for j
  proof -
    have "agree (unat b) k (hd ks)" if "k \<in> set ks" for k
      using assms(1) hd that unfolding assms(2) shape.simps by blast
    then show ?thesis using that by (auto simp: agree_def)
  qed
  moreover have "unat b < 256" using assms(1) by simp
  ultimately show ?thesis
    unfolding first_split_def find_Some_iff by (intro exI [of _ "unat b"]) (simp del: bex_simps ball_simps)
qed

text \<open>The shape is a function of the entries.\<close>

lemma spec_tree_erase:
  "shape t \<Longrightarrow> distinct (map fst es) \<Longrightarrow> set es = set (ents t) \<Longrightarrow> spec_tree es = erase t"
proof (induction t arbitrary: es)
  case (ALeaf a k d)
  have "es = [(k, d)]"
    using ALeaf.prems(2,3) by (cases es; cases "tl es") (auto simp: distinct_map)
  then show ?case by (simp add: spec_tree.simps)
next
  case (ABranch a b l r d f)
  have keys: "set (map fst es) = akeys l \<union> akeys r"
    using ABranch.prems(3) by (simp add: akeys_ents image_Un)
  note split = first_split_branch [OF ABranch.prems(1) keys]
  have bits: "\<forall>e \<in> set (ents l). \<not> kbit (fst e) (unat b)" "\<forall>e \<in> set (ents r). kbit (fst e) (unat b)"
    using ABranch.prems(1) by (auto simp: akeys_ents)
  let ?l = "filter (\<lambda>e. \<not> kbit (fst e) (unat b)) es" and ?r = "filter (\<lambda>e. kbit (fst e) (unat b)) es"
  have sets: "set ?l = set (ents l)" "set ?r = set (ents r)"
    using bits ABranch.prems(3) by auto
  have "spec_tree ?l = erase l" "spec_tree ?r = erase r"
    using ABranch.IH ABranch.prems(1,2) sets by (auto simp: distinct_map_filter)
  moreover obtain e1 e2 es' where "es = e1 # e2 # es'"
  proof (cases es)
    case (Cons e1 es1)
    then show ?thesis
    proof (cases es1)
      case Nil
      then have "?l = [] \<or> ?r = []" using Cons by auto
      then have "ents l = [] \<or> ents r = []" using sets by (metis set_empty2)
      then show ?thesis by simp
    qed (use that Cons in blast)
  qed (use ABranch.prems(3) ents_nonempty in auto)
  ultimately show ?case
    using split by (subst spec_tree.simps) simp
qed

section \<open>The interface of the trie\<close>

definition trie_ok :: "ext \<Rightarrow> trie \<Rightarrow> bool" where
  "trie_ok X T \<longleftrightarrow> (\<exists>ot. trie_abs X T ot)"

definition trie_map :: "trie \<Rightarrow> particle \<rightharpoonup> digest" where
  "trie_map T k = (case trie_get T k of Some r \<Rightarrow> r | None \<Rightarrow> None)"

definition spec_root :: "ext \<Rightarrow> (particle \<rightharpoonup> digest) \<Rightarrow> digest" where
  "spec_root X m = spec_node X (map (\<lambda>k. (k, the (m k))) (sorted_list_of_set (dom m)))"

lemma trie_map_abs: "trie_abs X T ot \<Longrightarrow> trie_map T = omap ot"
  by (rule ext) (simp add: trie_map_def trie_get_abs)

lemma spec_root_abs:
  assumes "trie_abs X T ot"
  shows "spec_root X (omap ot) = odg X ot"
proof (cases ot)
  case None
  then show ?thesis by (simp add: spec_root_def spec_node_def spec_tree.simps odg_def)
next
  case (Some t)
  have sh: "shape t" using assms by (simp add: Some trie_abs_simps)
  let ?m = "map_of (ents t)"
  let ?es = "map (\<lambda>k. (k, the (?m k))) (sorted_list_of_set (dom ?m))"
  have fin: "finite (dom ?m)" by (rule finite_dom_map_of)
  have "e \<in> set (ents t) \<longleftrightarrow> e \<in> set ?es" for e
    using fin distinct_keys [OF sh] by (cases e) (auto simp: image_iff map_of_eq_Some_iff dom_def)
  then have "set ?es = set (ents t)" by blast
  moreover have "distinct (map fst ?es)" by (simp add: comp_def)
  ultimately have "spec_tree ?es = erase t" by (intro spec_tree_erase [OF sh])
  then show ?thesis by (simp add: Some spec_root_def spec_node_def sdigest_erase odg_def)
qed

text \<open>An authenticated map, as its clients see it: edits that return while there is room, and a
  commitment that is a function of the contents.\<close>

locale authenticated_map =
  fixes ok :: "'t \<Rightarrow> bool" and room :: "'t \<Rightarrow> nat" and cap :: nat
    and look :: "'t \<Rightarrow> 'k \<rightharpoonup> 'd"
    and put :: "'t \<Rightarrow> 'k \<Rightarrow> 'd \<Rightarrow> ('t \<times> bool) option"
    and del :: "'t \<Rightarrow> 'k \<Rightarrow> ('t \<times> bool) option"
    and commit :: "'t \<Rightarrow> ('t \<times> 'r) option" and spec :: "('k \<rightharpoonup> 'd) \<Rightarrow> 'r"
  assumes put_law: "ok t \<Longrightarrow> room t + 2 \<le> cap \<Longrightarrow>
      \<exists>t'. put t k d = Some (t', look t k = None) \<and> ok t' \<and> look t' = (look t)(k \<mapsto> d) \<and> room t' \<le> room t + 2"
    and del_law: "ok t \<Longrightarrow>
      \<exists>t'. del t k = Some (t', look t k \<noteq> None) \<and> ok t' \<and> look t' = (look t)(k := None) \<and> room t' = room t"
    and commit_law: "ok t \<Longrightarrow>
      \<exists>t'. commit t = Some (t', spec (look t)) \<and> ok t' \<and> look t' = look t \<and> room t' = room t"

text \<open>A loop of edits: \<open>Some d\<close> sets a key, \<open>None\<close> removes it.\<close>

fun edit_all :: "('t \<Rightarrow> 'k \<Rightarrow> 'd \<Rightarrow> ('t \<times> bool) option) \<Rightarrow> ('t \<Rightarrow> 'k \<Rightarrow> ('t \<times> bool) option) \<Rightarrow>
    't \<Rightarrow> ('k \<times> 'd option) list \<Rightarrow> 't option" where
  "edit_all put del t [] = Some t"
| "edit_all put del t ((k, v) # es) = do {
     (t, _) \<leftarrow> (case v of Some d \<Rightarrow> put t k d | None \<Rightarrow> del t k);
     edit_all put del t es }"

definition edited :: "('k \<rightharpoonup> 'd) \<Rightarrow> ('k \<times> 'd option) list \<Rightarrow> 'k \<rightharpoonup> 'd" where
  "edited m es = foldl (\<lambda>m (k, v). m(k := v)) m es"

lemma edited_simps [simp]: "edited m [] = m" "edited m ((k, v) # es) = edited (m(k := v)) es"
  by (simp_all add: edited_def)

lemma edited_other: "k \<notin> fst ` set es \<Longrightarrow> edited m es k = m k"
  by (induction es arbitrary: m) auto

text \<open>Edits whose values are those of one target map.\<close>

lemma edited_target: "edited m (map (\<lambda>k. (g k, f k)) ks) (g x) = (if x \<in> set ks then f x else m (g x))"
  if "inj g"
  by (induction ks arbitrary: m) (auto simp: inj_eq [OF that])

context authenticated_map
begin

lemma edit_all_law:
  assumes "ok t" and "room t + 2 * length es \<le> cap"
  shows "\<exists>t'. edit_all put del t es = Some t' \<and> ok t' \<and> look t' = edited (look t) es \<and>
    room t' \<le> room t + 2 * length es"
  using assms
proof (induction es arbitrary: t)
  case (Cons e es)
  obtain k v where e: "e = (k, v)" by force
  obtain t1 b where t1: "(case v of Some d \<Rightarrow> put t k d | None \<Rightarrow> del t k) = Some (t1, b)" "ok t1"
    "look t1 = (look t)(k := v)" "room t1 \<le> room t + 2"
    using put_law [of t k] del_law [of t k] Cons.prems by (cases v) fastforce+
  have "room t1 + 2 * length es \<le> cap" using t1(4) Cons.prems(2) by simp
  then obtain t' where "edit_all put del t1 es = Some t'" "ok t'" "look t' = edited (look t1) es"
    "room t' \<le> room t1 + 2 * length es"
    using Cons.IH [OF t1(2)] by blast
  then show ?case using t1 by (auto simp: e)
qed simp

text \<open>Two histories that end in the same contents end in the same commitment.\<close>

lemma history_independent:
  assumes "ok t" "ok u" "room t + 2 * length es \<le> cap" "room u + 2 * length fs \<le> cap"
    and "edited (look t) es = edited (look u) fs"
  shows "\<exists>t1 u1 t2 u2 r. edit_all put del t es = Some t1 \<and> edit_all put del u fs = Some u1 \<and>
    commit t1 = Some (t2, r) \<and> commit u1 = Some (u2, r)"
proof -
  obtain t1 u1 where t1: "edit_all put del t es = Some t1" "ok t1" "look t1 = edited (look t) es"
    and u1: "edit_all put del u fs = Some u1" "ok u1" "look u1 = edited (look u) fs"
    using edit_all_law [OF assms(1,3)] edit_all_law [OF assms(2,4)] by blast
  then show ?thesis
    using commit_law [OF t1(2)] commit_law [OF u1(2)] assms(5) by auto
qed

end

interpretation am: authenticated_map "trie_ok X" "\<lambda>T. length (tr_nodes T)" "2 ^ 32" trie_map
  trie_set trie_remove "trie_root X" "spec_root X" for X
proof
  fix T k d
  assume "trie_ok X T"
  then obtain ot where ot: "trie_abs X T ot" by (auto simp: trie_ok_def)
  show "\<exists>T'. trie_set T k d = Some (T', trie_map T k = None) \<and> trie_ok X T' \<and> trie_map T' = (trie_map T)(k \<mapsto> d) \<and>
      length (tr_nodes T') \<le> length (tr_nodes T) + 2"
    if "length (tr_nodes T) + 2 \<le> 2 ^ 32"
    using trie_set_abs [OF ot that, of k d] ot by (auto simp: trie_ok_def trie_map_abs)
  show "\<exists>T'. trie_remove T k = Some (T', trie_map T k \<noteq> None) \<and> trie_ok X T' \<and> trie_map T' = (trie_map T)(k := None) \<and>
      length (tr_nodes T') = length (tr_nodes T)"
    using trie_remove_abs [OF ot, of k] ot by (auto simp: trie_ok_def trie_map_abs)
  show "\<exists>T'. trie_root X T = Some (T', spec_root X (trie_map T)) \<and> trie_ok X T' \<and> trie_map T' = trie_map T \<and>
      length (tr_nodes T') = length (tr_nodes T)"
    by (rule trie_root_abs [OF ot]) (auto simp: trie_ok_def trie_map_abs [OF ot] trie_map_abs spec_root_abs [OF ot])
qed

lemma trie_new_ok: "trie_ok X trie_new" "trie_map trie_new = Map.empty"
  using trie_abs_new trie_map_abs [OF trie_abs_new] by (auto simp: trie_ok_def)

end
