(* ===== verification/Bbg_Trie_Proofs.thy ===== *)
theory Bbg_Trie_Proofs
  imports Bbg_Trie_Spec
begin

text \<open>
  Proofs against the root of a trie (\<open>TrieProof::verify\<close>, \<open>Trie::prove\<close>): honest proofs are
  accepted, an accepted inclusion proof is right unless the hash is broken on the very
  compressions that were evaluated, and a proof of absence shows nothing.
\<close>

section \<open>Completeness\<close>

lemma prove_verify_abs:
  assumes ab: "trie_abs X T ot"
  obtains T' p where "trie_prove X T k = Some (T', p)" "trie_abs X T' (map_option (scrub X) ot)"
    "trie_verify X p (odg X ot) k (omap ot k) = Some True"
    "length (tr_nodes T') = length (tr_nodes T)" "\<And>d. omap ot k = Some d \<Longrightarrow> tp_terminal p = Some (k, d)"
    "length (tp_steps p) \<le> 256"
proof (cases ot)
  case None
  then show ?thesis
    using ab that [of T "\<lparr>tp_steps = [], tp_terminal = None\<rparr>"]
    by (simp add: trie_abs_simps trie_prove_def trie_verify_def odg_def)
next
  case (Some t)
  note ab = ab [unfolded Some]
  obtain c a k' d where w: "walk k t = (c, ALeaf a k' d)" by (rule walk_leafE)
  note t = descend_abs [OF ab w]
  have sh: "shape t" using ab by (simp add: trie_abs_simps)
  obtain T' where T': "trie_prove X T k = Some (T', \<lparr>tp_steps = csteps X c, tp_terminal = Some (k', d)\<rparr>)"
    "trie_abs X T' (Some (scrub X t))" "length (tr_nodes T') = length (tr_nodes T)"
    by (rule trie_prove_abs [OF ab w])
  have bits: "\<forall>fr \<in> set c. unat (f_bit fr) < 256"
    using frames_bits [of c "ALeaf a k' d"] sh unfolding t(4) by blast
  have "verify_loop X k None (dg X (ALeaf a k' d)) (rev (csteps X c)) = Some (Some (dg X (plug c (ALeaf a k' d))))"
    using walk_bits_sorted [OF sh w] bits walk_side [OF w] by (intro verify_loop_frames) auto
  then have loop: "verify_loop X k None d (rev (csteps X c)) = Some (Some (dg X t))" by (simp add: t(4))
  have lk: "map_of (ents t) k = (if k' = k then Some d else None)" by (rule walk_lookup [OF sh w])
  have len: "length c \<le> 256"
  proof -
    let ?bs = "map (\<lambda>fr. unat (f_bit fr)) c"
    have "sorted_wrt (\<lambda>g h. unat (f_bit g) < unat (f_bit h)) c"
      using walk_bits_sorted [OF sh w] by (simp add: word_less_nat_alt)
    then have "sorted_wrt (<) ?bs" by (simp add: sorted_wrt_map)
    then have "distinct ?bs" by (simp add: strict_sorted_iff)
    then have "length ?bs = card (set ?bs)" by (metis distinct_card)
    also have "\<dots> \<le> card {..<256 :: nat}" using bits by (intro card_mono) auto
    finally show ?thesis by simp
  qed
  show ?thesis
  proof (rule that [OF T'(1) _ _ T'(3)])
    show "trie_abs X T' (map_option (scrub X) ot)" using T'(2) by (simp add: Some)
    show "trie_verify X \<lparr>tp_steps = csteps X c, tp_terminal = Some (k', d)\<rparr> (odg X ot) k (omap ot k) = Some True"
      using lk loop by (simp add: trie_verify_def Some odg_def)
  qed (use lk len in \<open>auto simp: Some split: if_splits\<close>)
qed

section \<open>The compressions behind a digest\<close>

text \<open>Digests a compression must not hit: the digest of the empty trie and the domain-tagged
  initial values.\<close>

definition reserved :: "ext \<Rightarrow> digest \<Rightarrow> bool" where
  "reserved X d \<longleftrightarrow> d = EMPTY \<or> fst d = gl_new X LEAF_TAG \<or> fst d = gl_new X BRANCH_TAG"

definition hash_sound :: "ext \<Rightarrow> (digest \<times> digest) list \<Rightarrow> bool" where
  "hash_sound X ps \<longleftrightarrow>
     (\<forall>p \<in> set ps. \<forall>q \<in> set ps. compress4 X (fst p) (snd p) = compress4 X (fst q) (snd q) \<longrightarrow> p = q) \<and>
     (\<forall>p \<in> set ps. \<not> reserved X (compress4 X (fst p) (snd p)))"

definition leaf_pairs :: "ext \<Rightarrow> particle \<Rightarrow> goldilocks list \<Rightarrow> (digest \<times> digest) list" where
  "leaf_pairs X k vals =
     chain_pairs (compress4 X) (leaf_iv X (length vals)) (chunks4 (bytes32_limbs X k) @ chunks4 vals)"

definition branch_pairs :: "ext \<Rightarrow> u16 \<Rightarrow> digest \<Rightarrow> digest \<Rightarrow> (digest \<times> digest) list" where
  "branch_pairs X b l r = chain_pairs (compress4 X) (branch_iv X b) [l, r]"

fun stree_pairs :: "ext \<Rightarrow> stree \<Rightarrow> (digest \<times> digest) list" where
  "stree_pairs X (SBranch i l r) =
     branch_pairs X (of_nat i) (sdigest X l) (sdigest X r) @ stree_pairs X l @ stree_pairs X r"
| "stree_pairs X _ = []"

text \<open>The digest a path leads up to, and the compressions on the way; the steps are root first.\<close>

fun climb :: "ext \<Rightarrow> particle \<Rightarrow> digest \<Rightarrow> (u16 \<times> digest) list \<Rightarrow> digest" where
  "climb X k d [] = d"
| "climb X k d ((b, sib) # steps) =
     (let cur = climb X k d steps
      in if kbit k (unat b) then branch_digest X b sib cur else branch_digest X b cur sib)"

fun climb_pairs :: "ext \<Rightarrow> particle \<Rightarrow> digest \<Rightarrow> (u16 \<times> digest) list \<Rightarrow> (digest \<times> digest) list" where
  "climb_pairs X k d [] = []"
| "climb_pairs X k d ((b, sib) # steps) =
     (let cur = climb X k d steps
      in (if kbit k (unat b) then branch_pairs X b sib cur else branch_pairs X b cur sib) @ climb_pairs X k d steps)"

lemma chain_pairs_append:
  "chain_pairs c a (ls @ ms) = chain_pairs c a ls @ chain_pairs c (foldl c a ls) ms"
  by (induction ls arbitrary: a) auto

lemma hash_soundD:
  "hash_sound X ps \<Longrightarrow> (a, b) \<in> set ps \<Longrightarrow> (c, d) \<in> set ps \<Longrightarrow> compress4 X a b = compress4 X c d \<Longrightarrow> a = c \<and> b = d"
  unfolding hash_sound_def by (metis fst_conv snd_conv prod.inject)

lemma hash_sound_mono: "hash_sound X ps \<Longrightarrow> set qs \<subseteq> set ps \<Longrightarrow> hash_sound X qs"
  unfolding hash_sound_def by blast

lemma hash_sound_distinct:
  assumes "map (\<lambda>p. compress4 X (fst p) (snd p)) ps = os" and "distinct os" and "\<forall>d \<in> set os. \<not> reserved X d"
  shows "hash_sound X ps"
proof -
  have "inj_on (\<lambda>p. compress4 X (fst p) (snd p)) (set ps)"
    using assms(2) unfolding assms(1) [symmetric] by (simp add: distinct_map)
  moreover have "\<forall>p \<in> set ps. \<not> reserved X (compress4 X (fst p) (snd p))"
    using assms(3) unfolding assms(1) [symmetric] set_map by blast
  ultimately show ?thesis
    unfolding hash_sound_def inj_on_def by blast
qed

text \<open>Two chains from reserved initial values with the same end are the same chain.\<close>

lemma chain_sound:
  assumes "hash_sound X (chain_pairs (compress4 X) a ls @ chain_pairs (compress4 X) b ms)"
    and "reserved X a" "reserved X b" "foldl (compress4 X) a ls = foldl (compress4 X) b ms"
  shows "a = b \<and> ls = ms"
  using assms
proof (induction ls arbitrary: ms rule: rev_induct)
  case Nil
  then show ?case
    by (cases ms rule: rev_cases) (auto simp: chain_pairs_append hash_sound_def)
next
  case (snoc l ls)
  show ?case
  proof (cases ms rule: rev_cases)
    case Nil
    then show ?thesis using snoc.prems by (auto simp: chain_pairs_append hash_sound_def)
  next
    case (snoc ms' m)
    let ?x = "foldl (compress4 X) a ls" and ?y = "foldl (compress4 X) b ms'"
    have eq: "compress4 X ?x l = compress4 X ?y m" using snoc.prems(4) by (simp add: snoc)
    have "?x = ?y \<and> l = m"
      by (rule hash_soundD [OF snoc.prems(1) _ _ eq]) (simp_all add: snoc chain_pairs_append)
    then have xy: "?x = ?y" and lm: "l = m" by blast+
    have "hash_sound X (chain_pairs (compress4 X) a ls @ chain_pairs (compress4 X) b ms')"
      by (rule hash_sound_mono [OF snoc.prems(1)]) (auto simp: snoc chain_pairs_append)
    then have "a = b \<and> ls = ms'" by (rule snoc.IH [OF _ snoc.prems(2,3) xy])
    then show ?thesis by (simp add: snoc lm)
  qed
qed

lemma reserved_ivs: "reserved X (leaf_iv X n)" "reserved X (branch_iv X b)" "reserved X EMPTY"
  by (simp_all add: reserved_def leaf_iv_def branch_iv_def)

lemma tags_differ:
  assumes "nebu_laws X"
  shows "leaf_iv X n \<noteq> branch_iv X b"
proof -
  have "LEAF_TAG < gl_P X" "BRANCH_TAG < gl_P X" "LEAF_TAG \<noteq> BRANCH_TAG"
    using assms by (simp_all add: nebu_laws_def LEAF_TAG_def BRANCH_TAG_def tag_word_def)
  then show ?thesis
    using assms by (simp add: leaf_iv_def branch_iv_def nebu_laws_def)
qed


lemma leaf_digest_chain:
  "leaf_digest X k vals =
     foldl (compress4 X) (leaf_iv X (length vals)) (chunks4 (bytes32_limbs X k) @ chunks4 vals)"
  by (simp add: leaf_digest_def)

lemma branch_digest_chain: "branch_digest X b l r = foldl (compress4 X) (branch_iv X b) [l, r]"
  by (simp add: branch_digest_def)

lemma leaf_not_branch:
  assumes "nebu_laws X" and "hash_sound X (leaf_pairs X k vals @ branch_pairs X b l r)"
  shows "leaf_digest X k vals \<noteq> branch_digest X b l r"
  using chain_sound [OF assms(2) [unfolded leaf_pairs_def branch_pairs_def] reserved_ivs(1,2)] tags_differ [OF assms(1)]
  unfolding leaf_digest_chain branch_digest_chain by blast

lemma branch_digest_binds:
  assumes "nebu_laws X" and "hash_sound X (branch_pairs X b l r @ branch_pairs X b' l' r')"
    and "branch_digest X b l r = branch_digest X b' l' r'"
  shows "b = b' \<and> l = l' \<and> r = r'"
proof -
  have eq: "branch_iv X b = branch_iv X b' \<and> [l, r] = [l', r']"
    using assms(3) chain_sound [OF assms(2) [unfolded branch_pairs_def] reserved_ivs(2) reserved_ivs(2)]
    unfolding branch_digest_chain by blast
  have small: "(ucast c :: u64) < 2 ^ 32" for c :: u16
  proof -
    have "unat c < 2 ^ 16" using unsigned_less [of c, where 'a = nat] by simp
    moreover have "unat (ucast c :: u64) \<le> unat c"
      by (simp add: unsigned_ucast_eq take_bit_nat_less_eq_self)
    ultimately show ?thesis by (simp add: word_less_nat_alt)
  qed
  have "(ucast b :: u64) = ucast b'"
    using eq gl_new_small [OF assms(1) small] by (simp add: branch_iv_def)
  then have "b = b'"
    by (metis (mono_tags) ucast_up_ucast_id is_up len_bit0 le_add1 mult_2 le_trans)
  then show ?thesis using eq by simp
qed

lemma chunks4_inj: "length vs = length ws \<Longrightarrow> chunks4 vs = chunks4 ws \<Longrightarrow> vs = ws"
proof (induction vs arbitrary: ws rule: chunks4.induct)
  case 1
  then show ?case by simp
next
  case (2 a)
  then show ?case by (cases ws rule: chunks4.cases) auto
next
  case (3 a b)
  then show ?case by (cases ws rule: chunks4.cases) auto
next
  case (4 a b c)
  then show ?case by (cases ws rule: chunks4.cases) auto
next
  case (5 a b c d vs)
  then show ?case by (cases ws rule: chunks4.cases) auto
qed

lemma chunks4_append: "length vs = 8 \<Longrightarrow> \<exists>a b. chunks4 vs = [a, b]"
  by (auto simp: numeral_eq_Suc length_Suc_conv)

lemma leaf_digest_binds:
  assumes X: "nebu_laws X" and sound: "hash_sound X (leaf_pairs X k vals @ leaf_pairs X k' vals')"
    and small: "length vals < 2 ^ 32" "length vals' < 2 ^ 32"
    and eq: "leaf_digest X k vals = leaf_digest X k' vals'"
  shows "k = k' \<and> vals = vals'"
proof -
  have iv: "leaf_iv X (length vals) = leaf_iv X (length vals')"
    and ch: "chunks4 (bytes32_limbs X k) @ chunks4 vals = chunks4 (bytes32_limbs X k') @ chunks4 vals'"
    using eq chain_sound [OF sound [unfolded leaf_pairs_def] reserved_ivs(1) reserved_ivs(1)]
    unfolding leaf_digest_chain by blast+
  have w: "unat (of_nat n :: u64) = n" if "n < 2 ^ 32" for n
    using that of_nat_inverse [of n "of_nat n :: u64"] by simp
  have "(of_nat n :: u64) < 2 ^ 32" if "n < 2 ^ 32" for n
    using that w [OF that] by (simp add: word_less_nat_alt)
  then have "(of_nat (length vals) :: u64) = of_nat (length vals')"
    using iv gl_new_small [OF X] small by (simp add: leaf_iv_def)
  then have len: "length vals = length vals'" using w small by metis
  have "length (chunks4 (bytes32_limbs X k)) = length (chunks4 (bytes32_limbs X k'))"
    using chunks4_append [of "bytes32_limbs X k"] chunks4_append [of "bytes32_limbs X k'"] by auto
  then have "chunks4 (bytes32_limbs X k) = chunks4 (bytes32_limbs X k')" "chunks4 vals = chunks4 vals'"
    using ch by (simp_all add: append_eq_append_conv)
  then show ?thesis
    using chunks4_inj [of "bytes32_limbs X k" "bytes32_limbs X k'"] chunks4_inj [OF len] bytes32_limbs_inj [OF X] by simp
qed

section \<open>Soundness of inclusion\<close>

text \<open>The loop of \<open>verify\<close> climbs the steps from the last one upwards.\<close>

lemma climb_append: "climb X k d (steps @ [(b, sib)]) =
   climb X k (if kbit k (unat b) then branch_digest X b sib d else branch_digest X b d sib) steps"
  by (induction steps) (auto simp: Let_def)

lemma verify_loop_climb:
  "verify_loop X k prev d (rev steps) = Some (Some r) \<Longrightarrow> r = climb X k d steps"
proof (induction steps arbitrary: prev d rule: rev_induct)
  case (snoc st steps)
  obtain b sib where st: "st = (b, sib)" by (cases st)
  from snoc.prems have b: "unat b < 256"
    by (auto simp: st key_bit_eq split: if_splits)
  with snoc.prems have "verify_loop X k (Some b) (if kbit k (unat b) then branch_digest X b sib d else branch_digest X b d sib)
      (rev steps) = Some (Some r)"
    by (auto simp: st key_bit_eq split: if_splits)
  then show ?case using snoc.IH by (simp add: st climb_append)
qed simp

fun sentries :: "stree \<Rightarrow> (particle \<times> digest) list" where
  "sentries SEmpty = []"
| "sentries (SLeaf k d) = [(k, d)]"
| "sentries (SBranch _ l r) = sentries l @ sentries r"

lemma sentries_erase: "sentries (erase t) = ents t"
  by (induction t) auto

lemma chain_not_reserved:
  assumes "hash_sound X (chain_pairs (compress4 X) a ls)" and "ls \<noteq> []"
  shows "\<not> reserved X (foldl (compress4 X) a ls)"
proof (cases ls rule: rev_cases)
  case (snoc ls' l)
  then show ?thesis using assms(1) by (auto simp: hash_sound_def chain_pairs_append)
qed (use assms(2) in simp)

lemma climb_not_reserved:
  assumes "hash_sound X (leaf_pairs X k vals @ climb_pairs X k (leaf_digest X k vals) steps)"
  shows "\<not> reserved X (climb X k (leaf_digest X k vals) steps)"
proof (cases steps)
  case Nil
  have "chunks4 (bytes32_limbs X k) \<noteq> []"
    using chunks4_append [of "bytes32_limbs X k"] by auto
  moreover have "hash_sound X (leaf_pairs X k vals)" using assms by (rule hash_sound_mono) simp
  ultimately show ?thesis
    using chain_not_reserved unfolding leaf_pairs_def by (simp add: Nil leaf_digest_chain del: foldl_append)
next
  case (Cons st steps')
  obtain b sib where st: "st = (b, sib)" by (cases st)
  let ?cur = "climb X k (leaf_digest X k vals) steps'"
  have nb: "\<not> reserved X (branch_digest X b l r)" if "hash_sound X (branch_pairs X b l r)" for l r
    using chain_not_reserved [OF that [unfolded branch_pairs_def]] by (simp add: branch_digest_chain)
  have "hash_sound X (if kbit k (unat b) then branch_pairs X b sib ?cur else branch_pairs X b ?cur sib)"
    using assms by (rule hash_sound_mono) (auto simp: Cons st Let_def)
  then show ?thesis
    using nb by (simp add: Cons st Let_def split: if_splits)
qed

lemma climb_binds:
  assumes X: "nebu_laws X" and small: "length vals < 2 ^ 32"
  shows "(\<And>k' d'. (k', d') \<in> set (sentries t) \<Longrightarrow> d' = leaf_digest X k' (val k') \<and> length (val k') < 2 ^ 32) \<Longrightarrow>
    hash_sound X (stree_pairs X t @ concat (map (\<lambda>(k', _). leaf_pairs X k' (val k')) (sentries t)) @
      leaf_pairs X k vals @ climb_pairs X k (leaf_digest X k vals) steps) \<Longrightarrow>
    sdigest X t = climb X k (leaf_digest X k vals) steps \<Longrightarrow>
    (k, leaf_digest X k vals) \<in> set (sentries t) \<and> val k = vals"
proof (induction t arbitrary: steps)
  case SEmpty
  have "hash_sound X (leaf_pairs X k vals @ climb_pairs X k (leaf_digest X k vals) steps)"
    using SEmpty.prems(2) by (rule hash_sound_mono) auto
  then show ?case
    using climb_not_reserved SEmpty.prems(3) reserved_ivs(3) by (metis sdigest.simps(1))
next
  case (SLeaf k' d')
  have d': "d' = leaf_digest X k' (val k')" "length (val k') < 2 ^ 32" using SLeaf.prems(1) by auto
  show ?case
  proof (cases steps)
    case Nil
    have "hash_sound X (leaf_pairs X k vals @ leaf_pairs X k' (val k'))"
      using SLeaf.prems(2) by (rule hash_sound_mono) auto
    then have "k = k' \<and> vals = val k'"
      using SLeaf.prems(3) d' small by (intro leaf_digest_binds [OF X]) (simp_all add: Nil)
    then show ?thesis using d' by simp
  next
    case (Cons st steps')
    obtain b sib where st: "st = (b, sib)" by (cases st)
    let ?cur = "climb X k (leaf_digest X k vals) steps'"
    let ?l = "if kbit k (unat b) then sib else ?cur" and ?r = "if kbit k (unat b) then ?cur else sib"
    have "hash_sound X (leaf_pairs X k' (val k') @ branch_pairs X b ?l ?r)"
      using SLeaf.prems(2) by (rule hash_sound_mono) (auto simp: Cons st Let_def)
    from leaf_not_branch [OF X this] show ?thesis
      using SLeaf.prems(3) d'(1) by (simp add: Cons st Let_def split: if_splits)
  qed
next
  case (SBranch i l r)
  show ?case
  proof (cases steps)
    case Nil
    have "hash_sound X (leaf_pairs X k vals @ branch_pairs X (of_nat i) (sdigest X l) (sdigest X r))"
      using SBranch.prems(2) by (rule hash_sound_mono) auto
    from leaf_not_branch [OF X this] show ?thesis
      using SBranch.prems(3) by (simp add: Nil)
  next
    case (Cons st steps')
    obtain b sib where st: "st = (b, sib)" by (cases st)
    let ?cur = "climb X k (leaf_digest X k vals) steps'"
    let ?l = "if kbit k (unat b) then sib else ?cur" and ?r = "if kbit k (unat b) then ?cur else sib"
    have "hash_sound X (branch_pairs X (of_nat i) (sdigest X l) (sdigest X r) @ branch_pairs X b ?l ?r)"
      using SBranch.prems(2) by (rule hash_sound_mono) (auto simp: Cons st Let_def)
    moreover have "branch_digest X (of_nat i) (sdigest X l) (sdigest X r) = branch_digest X b ?l ?r"
      using SBranch.prems(3) by (simp add: Cons st Let_def)
    ultimately have lr: "sdigest X l = ?l \<and> sdigest X r = ?r"
      using branch_digest_binds [OF X] by blast
    have sub: "hash_sound X (stree_pairs X u @ concat (map (\<lambda>(k', _). leaf_pairs X k' (val k')) (sentries u)) @
        leaf_pairs X k vals @ climb_pairs X k (leaf_digest X k vals) steps')" if "u = l \<or> u = r" for u
      using SBranch.prems(2) that by (elim hash_sound_mono) (auto simp: Cons st Let_def)
    show ?thesis
    proof (cases "kbit k (unat b)")
      case True
      have "(k, leaf_digest X k vals) \<in> set (sentries r) \<and> val k = vals"
      proof (rule SBranch.IH(2) [OF _ sub])
        show "d' = leaf_digest X k' (val k') \<and> length (val k') < 2 ^ 32" if "(k', d') \<in> set (sentries r)" for k' d'
          using SBranch.prems(1) [of k' d'] that by simp
      qed (use lr True in auto)
      then show ?thesis by simp
    next
      case False
      have "(k, leaf_digest X k vals) \<in> set (sentries l) \<and> val k = vals"
      proof (rule SBranch.IH(1) [OF _ sub])
        show "d' = leaf_digest X k' (val k') \<and> length (val k') < 2 ^ 32" if "(k', d') \<in> set (sentries l)" for k' d'
          using SBranch.prems(1) [of k' d'] that by simp
      qed (use lr False in auto)
      then show ?thesis by simp
    qed
  qed
qed

section \<open>Building from entries\<close>

lemma new_nodes: "tr_nodes trie_new = []"
  by (simp add: trie_new_def)

lemma from_entries_edit_all:
  "from_entries T es = edit_all trie_set trie_remove T (map (\<lambda>(k, d). (k, Some d)) es)"
  by (induction es arbitrary: T) (auto split: Option.bind_splits)

lemma from_entries_law:
  assumes "2 * length es \<le> 2 ^ 32"
  shows "\<exists>T. from_entries trie_new es = Some T \<and> trie_ok X T \<and>
    trie_map T = edited Map.empty (map (\<lambda>(k, d). (k, Some d)) es)"
  using am.edit_all_law [of X trie_new "map (\<lambda>(k, d). (k, Some d)) es"] assms
  by (auto simp: from_entries_edit_all trie_new_ok new_nodes)

lemma spec_tree_of_entries:
  assumes ot: "trie_abs X T ot" and "distinct (map fst es)" and "map_of es = omap ot"
  shows "sdigest X (spec_tree es) = odg X ot \<and> set (sentries (spec_tree es)) = set es"
proof (cases ot)
  case None
  then show ?thesis using assms(3) by (simp add: spec_tree.simps odg_def)
next
  case (Some t)
  have sh: "shape t" using ot by (simp add: Some trie_abs_simps)
  have "e \<in> set es \<longleftrightarrow> e \<in> set (ents t)" for e
    using assms(2,3) distinct_keys [OF sh] by (cases e) (metis Some map_of_eq_Some_iff omap_simps(2))
  then have eq: "set es = set (ents t)" by blast
  then have "spec_tree es = erase t" by (intro spec_tree_erase [OF sh assms(2)])
  then show ?thesis by (simp add: Some sdigest_erase sentries_erase odg_def eq)
qed

section \<open>A sample trie of two records\<close>

definition sample_key :: particle where
  "sample_key = 0x8000000000000000000000000000000000000000000000000000000000000000"

definition sample_left :: digest where
  "sample_left = (14719367120264061049, 40, 134, 1258291239)"

definition sample_right :: digest where
  "sample_right = (14719367120264066814, 40, 134, 39)"

definition sample_pairs :: "(digest \<times> digest) list" where
  "sample_pairs = [((7377289179902206562, 1, 4, 0), (0, 0, 0, 0)),
     ((3685123465997068070, 4, 14, 3), (0, 0, 0, 83886080)),
     ((11055370397991204210, 13, 44, 419430412), (7, 0, 0, 0)),
     ((7377289179902206562, 1, 4, 0), (128, 0, 0, 0)),
     ((3685123465997068710, 4, 14, 3), (0, 0, 0, 0)),
     ((11055370397991206130, 13, 44, 12), (8, 0, 0, 0)),
     ((7306087014500622946, 0, 0, 0), (14719367120264061049, 40, 134, 1258291239)),
     ((3281376276274416003, 201, 672, 6291456198), (14719367120264066814, 40, 134, 39))]"

lemma sample_limbs:
  "bytes32_limbs sample_ext 5 = [0, 0, 0, 0, 0, 0, 0, 83886080]"
  "bytes32_limbs sample_ext sample_key = [128, 0, 0, 0, 0, 0, 0, 0]"
  by (simp_all add: bytes32_limbs_def limb_at_def be_bytes_def le_bytes_def sample_ext_def sample_key_def
    upt_rec numeral_2_eq_2 [symmetric])

lemma sample_ivs:
  "leaf_iv sample_ext 1 = (7377289179902206562, 1, 4, 0)"
  "leaf_iv sample_ext (Suc 0) = (7377289179902206562, 1, 4, 0)"
  "branch_iv sample_ext 0 = (7306087014500622946, 0, 0, 0)"
  by (simp_all add: leaf_iv_def branch_iv_def LEAF_TAG_def BRANCH_TAG_def tag_word_def sample_ext_def DIMENSION_VERSION_def)

lemma sample_leaf_pairs:
  "leaf_pairs sample_ext 5 [7] = take 3 sample_pairs"
  "leaf_pairs sample_ext sample_key [8] = take 3 (drop 3 sample_pairs)"
  by (simp_all add: leaf_pairs_def sample_limbs sample_ivs sample_pairs_def compress4_sample Let_def)

lemma sample_leaf_digests:
  "leaf_digest sample_ext 5 [7] = sample_left"
  "leaf_digest sample_ext sample_key [8] = sample_right"
  by (simp_all add: leaf_digest_def sample_limbs sample_ivs sample_left_def sample_right_def compress4_sample Let_def)

lemma sample_branch_pairs: "branch_pairs sample_ext 0 sample_left sample_right = drop 6 sample_pairs"
  by (simp add: branch_pairs_def sample_ivs sample_pairs_def sample_left_def sample_right_def compress4_sample Let_def)

lemma sample_sound: "hash_sound sample_ext sample_pairs"
proof (rule hash_sound_distinct)
  show "map (\<lambda>p. compress4 sample_ext (fst p) (snd p)) sample_pairs =
    [(3685123465997068070, 4, 14, 3),
     (11055370397991204210, 13, 44, 419430412),
     (14719367120264061049, 40, 134, 1258291239),
     (3685123465997068710, 4, 14, 3),
     (11055370397991206130, 13, 44, 12),
     (14719367120264066814, 40, 134, 39),
     (3281376276274416003, 201, 672, 6291456198),
     (9653988135305375615, 804, 2688, 18874368792)]"
    by (simp add: sample_pairs_def compress4_sample Let_def)
qed (simp_all add: reserved_def EMPTY_def sample_ext_def LEAF_TAG_def BRANCH_TAG_def tag_word_def)

lemma sample_tree:
  "spec_tree [(5, sample_left), (sample_key, sample_right)] = SBranch 0 (SLeaf 5 sample_left) (SLeaf sample_key sample_right)"
  by code_simp

section \<open>Properties\<close>

text \<open>C1: setting a key of a well-formed trie returns while the arena has room for two nodes, keeps the
  invariant (canonical shape, valid caches, no leaked or doubly freed slot), overwrites exactly
  that key and reports whether the key was new.\<close>

theorem trie_set_correct:
  assumes "trie_ok X T" and "length (tr_nodes T) + 2 \<le> 2 ^ 32"
  shows "\<exists>T'. trie_set T k d = Some (T', trie_map T k = None) \<and> trie_ok X T' \<and> trie_map T' = (trie_map T)(k \<mapsto> d)"
  using am.put_law [OF assms, of k d] by blast

theorem trie_set_correct_witness:
  "\<exists>T'. trie_set trie_new 5 (1, 2, 3, 4) = Some (T', trie_map trie_new 5 = None) \<and> trie_ok sample_ext T' \<and>
     trie_map T' = (trie_map trie_new)(5 \<mapsto> (1, 2, 3, 4))"
  by (rule trie_set_correct) (simp_all add: trie_new_ok, simp add: trie_new_def)

text \<open>C2: removing a key of a well-formed trie always returns, keeps the invariant, removes exactly that
  key and reports whether it was present; the arena does not grow.\<close>

theorem trie_remove_correct:
  assumes "trie_ok X T"
  shows "\<exists>T'. trie_remove T k = Some (T', trie_map T k \<noteq> None) \<and> trie_ok X T' \<and>
    trie_map T' = (trie_map T)(k := None) \<and> length (tr_nodes T') = length (tr_nodes T)"
  using am.del_law [OF assms, of k] .

theorem trie_remove_correct_witness:
  "\<exists>T'. trie_remove trie_new 5 = Some (T', trie_map trie_new 5 \<noteq> None) \<and> trie_ok sample_ext T' \<and>
    trie_map T' = (trie_map trie_new)(5 := None) \<and> length (tr_nodes T') = length (tr_nodes trie_new)"
  by (rule trie_remove_correct) (simp add: trie_new_ok)

text \<open>C3: the root of a well-formed trie is \<open>node(S)\<close> of the documentation for its set \<open>S\<close> of entries, however
  the entries are listed: the optimised, incremental arena computes the reference derivation.\<close>

theorem trie_root_canonical:
  assumes "trie_ok X T" and "distinct (map fst es)" and "map_of es = trie_map T"
  shows "\<exists>T'. trie_root X T = Some (T', spec_node X es) \<and> trie_ok X T' \<and> trie_map T' = trie_map T"
proof -
  obtain ot where ot: "trie_abs X T ot" using assms(1) by (auto simp: trie_ok_def)
  have "spec_node X es = odg X ot"
    using spec_tree_of_entries [OF ot assms(2)] assms(3) trie_map_abs [OF ot] by (simp add: spec_node_def)
  then show ?thesis
    using am.commit_law [OF assms(1)] unfolding trie_map_abs [OF ot] spec_root_abs [OF ot] by auto
qed

theorem trie_root_canonical_witness:
  "\<exists>T T'. from_entries trie_new [(5, (1, 2, 3, 4)), (9, (5, 6, 7, 8))] = Some T \<and>
     trie_root sample_ext T = Some (T', spec_node sample_ext [(9, (5, 6, 7, 8)), (5, (1, 2, 3, 4))])"
proof -
  obtain T where T: "from_entries trie_new [(5, (1, 2, 3, 4)), (9, (5, 6, 7, 8))] = Some T" "trie_ok sample_ext T"
    "trie_map T = [5 \<mapsto> (1, 2, 3, 4), 9 \<mapsto> (5, 6, 7, 8)]"
    using from_entries_law [of "[(5, (1, 2, 3, 4)), (9, (5, 6, 7, 8))]" sample_ext] by auto
  moreover have "map_of [(9, (5, 6, 7, 8)), (5, (1, 2, 3, 4))] = trie_map T"
    unfolding T(3) by (auto simp: fun_eq_iff)
  ultimately show ?thesis
    using trie_root_canonical [of sample_ext T "[(9, (5, 6, 7, 8)), (5, (1, 2, 3, 4))]"] by auto
qed

text \<open>Insertions, overwrites, removals and reinsertions leave no trace: two histories from the empty
  trie that end in the same contents return, and end in the same root.\<close>

theorem trie_history_independent:
  assumes "2 * length es \<le> 2 ^ 32" and "2 * length fs \<le> 2 ^ 32"
    and "edited Map.empty es = edited Map.empty fs"
  shows "\<exists>T U T' U' r. edit_all trie_set trie_remove trie_new es = Some T \<and>
    edit_all trie_set trie_remove trie_new fs = Some U \<and> trie_root X T = Some (T', r) \<and> trie_root X U = Some (U', r)"
  using am.history_independent [of X trie_new trie_new es fs] assms by (simp add: trie_new_ok new_nodes)

theorem trie_history_independent_witness:
  "\<exists>T U T' U' r. edit_all trie_set trie_remove trie_new [(5, Some EMPTY), (9, Some (1, 2, 3, 4)), (5, None)] = Some T \<and>
    edit_all trie_set trie_remove trie_new [(9, Some (1, 2, 3, 4))] = Some U \<and>
    trie_root sample_ext T = Some (T', r) \<and> trie_root sample_ext U = Some (U', r)"
  by (rule trie_history_independent) (auto simp: fun_eq_iff)

text \<open>C4: \<open>prove\<close> returns on every well-formed trie, and \<open>verify\<close> accepts its proof against the current root:
  of presence with the stored digest, of absence otherwise. No path has more than 256 steps.\<close>

theorem prove_verify_complete:
  assumes "trie_ok X T"
  shows "\<exists>T' p T'' r. trie_prove X T k = Some (T', p) \<and> trie_ok X T' \<and> trie_map T' = trie_map T \<and>
    trie_root X T = Some (T'', r) \<and> trie_verify X p r k (trie_map T k) = Some True \<and> length (tp_steps p) \<le> 256"
proof -
  obtain ot where ot: "trie_abs X T ot" using assms by (auto simp: trie_ok_def)
  obtain T'' where r: "trie_root X T = Some (T'', odg X ot)" by (rule trie_root_abs [OF ot])
  show ?thesis
    by (rule prove_verify_abs [OF ot, of k])
      (use r in \<open>auto simp: trie_map_abs [OF ot] trie_map_abs trie_ok_def\<close>)
qed

theorem prove_verify_complete_witness:
  "\<exists>T' p T'' r. trie_prove sample_ext trie_new 7 = Some (T', p) \<and> trie_ok sample_ext T' \<and>
     trie_map T' = trie_map trie_new \<and> trie_root sample_ext trie_new = Some (T'', r) \<and>
     trie_verify sample_ext p r 7 (trie_map trie_new 7) = Some True \<and> length (tp_steps p) \<le> 256"
  by (rule prove_verify_complete) (rule trie_new_ok)

text \<open>C5: an accepted inclusion proof is right. If \<open>verify\<close> accepts a proof that \<open>k\<close> is present with the digest of
  the record \<open>vals\<close>, against the root of a trie whose leaves are digests of records, then that record
  is the one stored for \<open>k\<close>, provided the compressions evaluated on the two sides have no collision
  and none hits a reserved value.\<close>

theorem inclusion_binding:
  assumes "nebu_laws X" and "trie_ok X T" and "distinct (map fst es)" and "map_of es = trie_map T"
    and "\<And>k' d'. (k', d') \<in> set es \<Longrightarrow> d' = leaf_digest X k' (val k') \<and> length (val k') < 2 ^ 32"
    and "length vals < 2 ^ 32"
    and "hash_sound X (stree_pairs X (spec_tree es) @ concat (map (\<lambda>(k', _). leaf_pairs X k' (val k')) es) @
      leaf_pairs X k vals @ climb_pairs X k (leaf_digest X k vals) (tp_steps p))"
    and "trie_root X T = Some (T', r)"
    and "trie_verify X p r k (Some (leaf_digest X k vals)) = Some True"
  shows "trie_map T k = Some (leaf_digest X k vals) \<and> val k = vals"
proof -
  obtain ot where ot: "trie_abs X T ot" using assms(2) by (auto simp: trie_ok_def)
  have r: "r = odg X ot" by (rule trie_root_abs [OF ot]) (use assms(8) in simp)
  have st: "sdigest X (spec_tree es) = odg X ot \<and> set (sentries (spec_tree es)) = set es"
    by (rule spec_tree_of_entries [OF ot assms(3)]) (use assms(4) trie_map_abs [OF ot] in simp)
  have "r = climb X k (leaf_digest X k vals) (tp_steps p)"
    using assms(9) verify_loop_climb [of X k None "leaf_digest X k vals" "tp_steps p" r]
    by (auto simp: trie_verify_def split: option.splits if_splits bind_splits)
  then have "(k, leaf_digest X k vals) \<in> set (sentries (spec_tree es)) \<and> val k = vals"
    using assms(5) st r
    by (intro climb_binds [OF assms(1,6) _ hash_sound_mono [OF assms(7)]]) auto
  then show ?thesis
    using st assms(3,4) by (metis map_of_eq_Some_iff)
qed

theorem inclusion_binding_witness:
  "\<exists>T T' r p. from_entries trie_new [(5, leaf_digest sample_ext 5 [7]), (sample_key, leaf_digest sample_ext sample_key [8])] = Some T \<and>
     trie_root sample_ext T = Some (T', r) \<and> tp_steps p \<noteq> [] \<and>
     trie_verify sample_ext p r 5 (Some (leaf_digest sample_ext 5 [7])) = Some True \<and>
     trie_map T 5 = Some (leaf_digest sample_ext 5 [7])"
proof -
  let ?es = "[(5, leaf_digest sample_ext 5 [7]), (sample_key, leaf_digest sample_ext sample_key [8])]"
  let ?val = "\<lambda>k :: particle. if k = 5 then [7] else [8 :: u64]"
  let ?p = "\<lparr>tp_steps = [(0, sample_right)], tp_terminal = Some (5, sample_left)\<rparr>"
  have k: "sample_key \<noteq> 5" by (simp add: sample_key_def)
  obtain T where T: "from_entries trie_new ?es = Some T" "trie_ok sample_ext T"
    "trie_map T = edited Map.empty (map (\<lambda>(k, d). (k, Some d)) ?es)"
    using from_entries_law [of ?es sample_ext] by auto
  have m: "map_of ?es = trie_map T" unfolding T(3) using k by (auto simp: fun_eq_iff)
  obtain ot where ot: "trie_abs sample_ext T ot" using T(2) by (auto simp: trie_ok_def)
  have tree: "spec_tree ?es = SBranch 0 (SLeaf 5 sample_left) (SLeaf sample_key sample_right)"
    by (simp add: sample_leaf_digests sample_tree)
  have root: "odg sample_ext ot = branch_digest sample_ext 0 sample_left sample_right"
    using spec_tree_of_entries [OF ot, of ?es] m k by (simp add: tree trie_map_abs [OF ot])
  obtain T' where T': "trie_root sample_ext T = Some (T', odg sample_ext ot)" by (rule trie_root_abs [OF ot])
  have "\<not> kbit 5 0" by (simp add: kbit_def)
  then have v: "trie_verify sample_ext ?p (odg sample_ext ot) 5 (Some (leaf_digest sample_ext 5 [7])) = Some True"
    by (simp add: trie_verify_def sample_leaf_digests root key_bit_eq)
  have pairs: "stree_pairs sample_ext (spec_tree ?es) @ concat (map (\<lambda>(k', _). leaf_pairs sample_ext k' (?val k')) ?es) @
      leaf_pairs sample_ext 5 [7] @ climb_pairs sample_ext 5 (leaf_digest sample_ext 5 [7]) (tp_steps ?p) =
    drop 6 sample_pairs @ take 3 sample_pairs @ take 3 (drop 3 sample_pairs) @ take 3 sample_pairs @ drop 6 sample_pairs"
    using \<open>\<not> kbit 5 0\<close> k
    by (simp add: sample_tree sample_leaf_digests sample_leaf_pairs sample_branch_pairs del: take_Cons_numeral drop_drop)
  have "trie_map T 5 = Some (leaf_digest sample_ext 5 [7]) \<and> ?val 5 = [7]"
  proof (rule inclusion_binding [where val = ?val and es = ?es and p = ?p, OF nebu_laws_sample T(2) _ m _ _ _ T' v])
    show "hash_sound sample_ext (stree_pairs sample_ext (spec_tree ?es) @
        concat (map (\<lambda>(k', _). leaf_pairs sample_ext k' (?val k')) ?es) @
        leaf_pairs sample_ext 5 [7] @ climb_pairs sample_ext 5 (leaf_digest sample_ext 5 [7]) (tp_steps ?p))"
      by (rule hash_sound_mono [OF sample_sound]) (unfold pairs set_append, blast dest: in_set_takeD in_set_dropD)
  qed (use k in \<open>auto split: if_splits\<close>)
  then show ?thesis
    using T(1) T' v by (intro exI [of _ T] exI [of _ T'] exI [of _ "odg sample_ext ot"] exI [of _ ?p]) simp
qed

text \<open>C7: an absence proof proves nothing. Take the honest inclusion proof of a present key and
  write any other key into its terminal: \<open>verify\<close> accepts it, against the current root, as a proof that
  the key is absent, because the terminal's key is not bound to its digest.\<close>

theorem absence_forgeable:
  assumes "trie_ok X T" and "trie_map T k = Some d" and "k' \<noteq> k"
  shows "\<exists>T' p T'' r. trie_prove X T k = Some (T', p) \<and> trie_root X T = Some (T'', r) \<and>
    trie_verify X p r k (Some d) = Some True \<and>
    trie_verify X (p\<lparr>tp_terminal := Some (k', d)\<rparr>) r k None = Some True"
proof -
  obtain ot where ot: "trie_abs X T ot" using assms(1) by (auto simp: trie_ok_def)
  obtain T'' where r: "trie_root X T = Some (T'', odg X ot)" by (rule trie_root_abs [OF ot])
  obtain T' p where p: "trie_prove X T k = Some (T', p)" "trie_verify X p (odg X ot) k (Some d) = Some True"
    "tp_terminal p = Some (k, d)"
    by (rule prove_verify_abs [OF ot, of k]) (use assms(2) in \<open>simp add: trie_map_abs [OF ot]\<close>)
  have "trie_verify X (p\<lparr>tp_terminal := Some (k', d)\<rparr>) (odg X ot) k None = Some True"
    using p(2,3) assms(3) by (simp add: trie_verify_def)
  then show ?thesis using r p by blast
qed

theorem absence_forgeable_witness:
  "\<exists>T T' p T'' r. from_entries trie_new [(5, (1, 2, 3, 4))] = Some T \<and>
    trie_prove sample_ext T 5 = Some (T', p) \<and> trie_root sample_ext T = Some (T'', r) \<and>
    trie_verify sample_ext p r 5 (Some (1, 2, 3, 4)) = Some True \<and>
    trie_verify sample_ext (p\<lparr>tp_terminal := Some (6, (1, 2, 3, 4))\<rparr>) r 5 None = Some True"
proof -
  obtain T where T: "from_entries trie_new [(5, (1, 2, 3, 4))] = Some T" "trie_ok sample_ext T"
    "trie_map T = [5 \<mapsto> (1, 2, 3, 4)]"
    using from_entries_law [of "[(5, (1, 2, 3, 4))]" sample_ext] by auto
  then show ?thesis
    using absence_forgeable [of sample_ext T 5 "(1, 2, 3, 4)" 6] by auto
qed

lemma verify_loop_returns:
  "\<forall>st \<in> set steps. unat (fst st) < 256 \<Longrightarrow> \<exists>q. verify_loop X k prev cur steps = Some q"
proof (induction steps arbitrary: prev cur)
  case (Cons st steps)
  then show ?case by (cases st) (auto simp: key_bit_eq)
qed simp

text \<open>C8: \<open>verify\<close> returns, accepting or not, on every proof whose steps name key bits below 256; it
  panics (the key is indexed out of range) on a proof of presence whose last step does not.\<close>

theorem verify_total_iff_bits:
  "((\<forall>st \<in> set (tp_steps p). unat (fst st) < 256) \<longrightarrow> (\<exists>b. trie_verify X p r k e = Some b)) \<and>
   (\<forall>steps b sib d. tp_terminal p = Some (k, d) \<and> tp_steps p = steps @ [(b, sib)] \<and> 256 \<le> unat b \<longrightarrow>
      trie_verify X p r k (Some d) = None)"
proof (intro conjI impI allI)
  assume small: "\<forall>st \<in> set (tp_steps p). unat (fst st) < 256"
  have loop: "\<exists>b. do { q \<leftarrow> verify_loop X k None d (rev (tp_steps p)); Some (q = Some r) } = Some b" for d
    using verify_loop_returns [of "rev (tp_steps p)" X k None d] small by auto
  show "\<exists>b. trie_verify X p r k e = Some b"
  proof (cases "tp_terminal p")
    case None
    then show ?thesis by (cases e) (auto simp: trie_verify_def)
  next
    case (Some t)
    then show ?thesis using loop by (cases t; cases e) (auto simp: trie_verify_def simp del: split_paired_All)
  qed
qed (auto simp: trie_verify_def key_bit_eq)

theorem verify_total_iff_bits_witness:
  "(\<exists>b. trie_verify sample_ext \<lparr>tp_steps = [(255, EMPTY)], tp_terminal = Some (1, EMPTY)\<rparr> EMPTY 1 (Some EMPTY) = Some b) \<and>
   trie_verify sample_ext \<lparr>tp_steps = [(256, EMPTY)], tp_terminal = Some (1, EMPTY)\<rparr> EMPTY 1 (Some EMPTY) = None"
  using verify_total_iff_bits [of "\<lparr>tp_steps = [(255, EMPTY)], tp_terminal = Some (1, EMPTY)\<rparr>" sample_ext EMPTY 1 "Some EMPTY"]
    verify_total_iff_bits [of "\<lparr>tp_steps = [(256, EMPTY)], tp_terminal = Some (1, EMPTY)\<rparr>" sample_ext EMPTY 1]
  by (auto simp: EMPTY_def)

end
