(* ===== verification/Bbg_Types.thy ===== *)
theory Bbg_Types
  imports Bbg_Root
begin

text \<open>
  The record types of the committed dimensions (\<open>types.rs\<close>) and their leaf fields
  (\<open>state/commits.rs\<close>, the \<open>LeafValue\<close> instances of \<open>keyed.rs\<close>). A signed 32-bit field is the
  \<open>u32\<close> of its bits, a 64-byte signature is a \<open>512 word\<close>.
\<close>

section \<open>Records\<close>

type_synonym neuron_id = particle

record particle_record =
  pr_energy :: u64
  pr_pi_star :: u64
  pr_weight :: u64
  pr_s_yes :: u64
  pr_s_no :: u64
  pr_meta_score :: u64

definition particle_zero :: particle_record where
  "particle_zero = \<lparr>pr_energy = 0, pr_pi_star = 0, pr_weight = 0, pr_s_yes = 0, pr_s_no = 0, pr_meta_score = 0\<rparr>"

record neuron_record =
  nr_focus :: u64
  nr_karma :: u64
  nr_stake :: u64
  nr_nonce :: u64

record location_record =
  lr_lat :: u32
  lr_lon :: u32

record coin_record =
  cn_total_supply :: u64

datatype side = Plus | Minus

datatype valence = Against | Neutral | For

record card_record =
  cr_owner :: particle
  cr_particle :: particle
  cr_author :: neuron_id
  cr_valence :: valence
  cr_since :: u64

record file_record =
  fr_available :: bool
  fr_chunk_count :: u32

record signal_record =
  sr_neuron :: neuron_id
  sr_network :: particle
  sr_link_count :: u32
  sr_block_height :: u64
  sr_proof_hash :: particle
  sr_step :: u64

record intent_record =
  ir_neuron :: neuron_id
  ir_h0 :: u64
  ir_scope_hash :: particle
  ir_signature :: "512 word"

section \<open>Valences\<close>

text \<open>\<open>i8\<close> values are words of eight bits in two's complement.\<close>

definition valence_from_i8 :: "8 word \<Rightarrow> valence option" where
  "valence_from_i8 v = (if v = - 1 then Some Against else if v = 0 then Some Neutral
     else if v = 1 then Some For else None)"

definition valence_byte :: "valence \<Rightarrow> u8" where
  "valence_byte v = (case v of Against \<Rightarrow> 0 | Neutral \<Rightarrow> 1 | For \<Rightarrow> 2)"

definition valence_to_i8 :: "valence \<Rightarrow> 8 word" where
  "valence_to_i8 v = valence_byte v - 1"

definition valence_from_byte :: "u8 \<Rightarrow> valence option" where
  "valence_from_byte b = (if b = 0 then Some Against else if b = 1 then Some Neutral
     else if b = 2 then Some For else None)"

definition valence_side :: "valence \<Rightarrow> side" where
  "valence_side v = (case v of Against \<Rightarrow> Minus | Neutral \<Rightarrow> Plus | For \<Rightarrow> Plus)"

definition valence_is_active :: "valence \<Rightarrow> bool" where
  "valence_is_active v \<longleftrightarrow> \<not> (case v of Neutral \<Rightarrow> True | _ \<Rightarrow> False)"

lemma valence_byte_inj: "valence_byte v = valence_byte w \<longleftrightarrow> v = w"
  by (cases v; cases w) (simp_all add: valence_byte_def)

section \<open>Leaf fields\<close>

definition particle_leaf_vals :: "ext \<Rightarrow> particle_record \<Rightarrow> goldilocks list" where
  "particle_leaf_vals X r = concat (map (u64_limbs X)
     [pr_energy r, pr_pi_star r, pr_weight r, pr_s_yes r, pr_s_no r, pr_meta_score r])"

definition neuron_leaf_vals :: "ext \<Rightarrow> neuron_record \<Rightarrow> goldilocks list" where
  "neuron_leaf_vals X r = concat (map (u64_limbs X) [nr_focus r, nr_karma r, nr_stake r, nr_nonce r])"

definition location_leaf_vals :: "ext \<Rightarrow> location_record \<Rightarrow> goldilocks list" where
  "location_leaf_vals X r = concat (map (u64_limbs X) [ucast (lr_lat r), ucast (lr_lon r)])"

definition coin_leaf_vals :: "ext \<Rightarrow> coin_record \<Rightarrow> goldilocks list" where
  "coin_leaf_vals X r = u64_limbs X (cn_total_supply r)"

definition card_leaf_vals :: "ext \<Rightarrow> card_record \<Rightarrow> goldilocks list" where
  "card_leaf_vals X r = bytes32_limbs X (cr_owner r) @ bytes32_limbs X (cr_particle r) @
     bytes32_limbs X (cr_author r) @ u64_limbs X (ucast (valence_byte (cr_valence r))) @ u64_limbs X (cr_since r)"

definition file_leaf_vals :: "ext \<Rightarrow> file_record \<Rightarrow> goldilocks list" where
  "file_leaf_vals X r = concat (map (u64_limbs X) [of_bool (fr_available r), ucast (fr_chunk_count r)])"

definition signal_leaf_vals :: "ext \<Rightarrow> signal_record \<Rightarrow> goldilocks list" where
  "signal_leaf_vals X r = bytes32_limbs X (sr_neuron r) @ bytes32_limbs X (sr_network r) @
     u64_limbs X (ucast (sr_link_count r)) @ u64_limbs X (sr_block_height r) @
     bytes32_limbs X (sr_proof_hash r) @ u64_limbs X (sr_step r)"

definition u64_leaf_vals :: "ext \<Rightarrow> u64 \<Rightarrow> goldilocks list" where
  "u64_leaf_vals X v = u64_limbs X v"

definition goldilocks_leaf_vals :: "goldilocks \<Rightarrow> goldilocks list" where
  "goldilocks_leaf_vals v = [v]"

definition bytes32_leaf_vals :: "ext \<Rightarrow> particle \<Rightarrow> goldilocks list" where
  "bytes32_leaf_vals X v = bytes32_limbs X v"

definition unit_leaf_vals :: "unit \<Rightarrow> goldilocks list" where
  "unit_leaf_vals v = []"

text \<open>The trie path of a height: little-endian in the first eight bytes.\<close>

definition u64_key_bytes :: "u64 \<Rightarrow> particle" where
  "u64_key_bytes h = of_be_bytes (le_bytes 8 h @ replicate 24 0)"

lemma u64_key_bytes_inj: "u64_key_bytes g = u64_key_bytes h \<longleftrightarrow> g = h"
proof
  assume "u64_key_bytes g = u64_key_bytes h"
  then have "be_bytes 32 (u64_key_bytes g) = be_bytes 32 (u64_key_bytes h)" by simp
  then have "le_bytes 8 g @ replicate 24 0 = le_bytes 8 h @ replicate 24 0"
    by (simp add: u64_key_bytes_def)
  then show "g = h" by (simp add: le_bytes_inj)
qed simp

lemma inj_u64_key_bytes: "inj u64_key_bytes"
  by (simp add: inj_def u64_key_bytes_inj)

lemma ucast_u8_inj: "(ucast (x :: u8) :: u64) = ucast y \<longleftrightarrow> x = y"
  by (metis (mono_tags) ucast_up_ucast_id is_up len_bit0 le_add1 mult_2 le_trans)

lemma leaf_widths:
  "length (particle_leaf_vals X p) = 12" "length (neuron_leaf_vals X n) = 8" "length (location_leaf_vals X l) = 4"
  "length (coin_leaf_vals X c) = 2" "length (card_leaf_vals X d) = 28" "length (file_leaf_vals X f) = 4"
  "length (signal_leaf_vals X s) = 30" "length (u64_leaf_vals X v) = 2" "length (bytes32_leaf_vals X b) = 8"
  by (simp_all add: particle_leaf_vals_def neuron_leaf_vals_def location_leaf_vals_def coin_leaf_vals_def
      card_leaf_vals_def file_leaf_vals_def signal_leaf_vals_def u64_leaf_vals_def bytes32_leaf_vals_def)

lemmas leaf_vals_defs = particle_leaf_vals_def neuron_leaf_vals_def location_leaf_vals_def coin_leaf_vals_def
  card_leaf_vals_def file_leaf_vals_def signal_leaf_vals_def

section \<open>Properties\<close>

text \<open>The leaf fields of every record type determine the record: the encoding the leaf digests hash is
  injective, so two distinct records of a dimension never share a preimage.\<close>

theorem leaf_vals_injective:
  assumes "nebu_laws X"
  shows "inj (particle_leaf_vals X) \<and> inj (neuron_leaf_vals X) \<and> inj (location_leaf_vals X) \<and>
    inj (coin_leaf_vals X) \<and> inj (card_leaf_vals X) \<and> inj (file_leaf_vals X) \<and> inj (signal_leaf_vals X)"
proof -
  note lim = u64_limbs_inj [OF assms] bytes32_limbs_inj [OF assms]
  have "inj (particle_leaf_vals X)" "inj (neuron_leaf_vals X)" "inj (coin_leaf_vals X)"
    by (simp_all add: inj_def leaf_vals_defs lim)
  moreover have "inj (location_leaf_vals X)"
    by (simp add: inj_def leaf_vals_defs lim ucast_eq_iff_32)
  moreover have "inj (file_leaf_vals X)"
    by (simp add: inj_def leaf_vals_defs lim ucast_eq_iff_32)
  moreover have "inj (card_leaf_vals X)"
    by (simp add: inj_def leaf_vals_defs lim ucast_u8_inj valence_byte_inj)
  moreover have "inj (signal_leaf_vals X)"
    by (simp add: inj_def leaf_vals_defs lim ucast_eq_iff_32)
  ultimately show ?thesis by blast
qed

theorem leaf_vals_injective_witness: "inj (card_leaf_vals sample_ext)"
  using leaf_vals_injective [OF nebu_laws_sample] by blast

text \<open>the two encodings of a valence are inverse to their decoders, no other byte or \<open>i8\<close> decodes, and a
  position is on the minus side exactly when it is active against.\<close>

theorem valence_roundtrip:
  "valence_from_byte (valence_byte v) = Some v \<and> valence_from_i8 (valence_to_i8 v) = Some v \<and>
   (\<forall>b. valence_from_byte b = (if unat b < 3 then Some (case unat b of 0 \<Rightarrow> Against | Suc 0 \<Rightarrow> Neutral | _ \<Rightarrow> For) else None)) \<and>
   (valence_side v = Minus \<longleftrightarrow> valence_is_active v \<and> valence_to_i8 v \<noteq> 1)"
proof -
  have two: "unat b = 2 \<longleftrightarrow> b = 2" for b :: u8 by (simp add: word_unat_eq_iff)
  have "unat b = 0 \<longleftrightarrow> b = 0" "unat b = Suc 0 \<longleftrightarrow> b = 1" "unat b = Suc (Suc 0) \<longleftrightarrow> b = 2" for b :: u8
    using two [of b] unfolding numeral_2_eq_2 by (auto simp: word_unat_eq_iff)
  then have "valence_from_byte b = (if unat b < 3 then Some (case unat b of 0 \<Rightarrow> Against | Suc 0 \<Rightarrow> Neutral | _ \<Rightarrow> For) else None)" for b
    by (auto simp: valence_from_byte_def less_Suc_eq numeral_3_eq_3 split: nat.splits)
  then show ?thesis
    by (cases v) (simp_all add: valence_from_byte_def valence_byte_def valence_from_i8_def valence_to_i8_def
        valence_side_def valence_is_active_def)
qed

end
