(* ===== verification/Bbg_Keyed.thy ===== *)
theory Bbg_Keyed
  imports Bbg_Trie_Proofs Bbg_Types
begin

text \<open>
  Committed dimension maps (\<open>keyed.rs\<close>): \<open>Keyed\<close>, a map with a trie that sees every touched
  record, and \<open>KeyedSet\<close>. \<open>Deref\<close> is the field \<open>kd_map\<close>. The locks of the source guard interior mutability
  for reads through a shared reference, so a commitment read returns the updated value too.
  The trait methods \<open>key_bytes\<close> and \<open>leaf_vals\<close> are the arguments \<open>kb\<close> and \<open>lv\<close>.
\<close>

section \<open>Keyed maps\<close>

record ('k, 'v) keyed =
  kd_map :: "('k, 'v) fmap"
  kd_trie :: trie
  kd_dirty :: "'k fset"
  kd_legacy :: "particle option"

definition keyed_new :: "('k, 'v) keyed" where
  "keyed_new = \<lparr>kd_map = fmempty, kd_trie = trie_new, kd_dirty = {||}, kd_legacy = None\<rparr>"

definition keyed_touched :: "('k, 'v) keyed \<Rightarrow> 'k \<Rightarrow> ('k, 'v) keyed" where
  "keyed_touched m key = m\<lparr>kd_legacy := None, kd_dirty := finsert key (kd_dirty m)\<rparr>"

definition keyed_leaf :: "ext \<Rightarrow> ('k \<Rightarrow> particle) \<Rightarrow> ('v \<Rightarrow> goldilocks list) \<Rightarrow> 'k \<Rightarrow> 'v \<Rightarrow> digest" where
  "keyed_leaf X kb lv key value = leaf_digest X (kb key) (lv value)"

definition keyed_flush ::
  "ext \<Rightarrow> ('k::linorder \<Rightarrow> particle) \<Rightarrow> ('v \<Rightarrow> goldilocks list) \<Rightarrow> ('k, 'v) keyed \<Rightarrow> ('k, 'v) keyed option" where
  "keyed_flush X kb lv m = do {
     T \<leftarrow> edit_all trie_set trie_remove (kd_trie m)
       (map (\<lambda>key. (kb key, map_option (\<lambda>v. leaf_digest X (kb key) (lv v)) (fmlookup (kd_map m) key)))
         (sorted_list_of_fset (kd_dirty m)));
     Some (m\<lparr>kd_trie := T, kd_dirty := {||}\<rparr>) }"

definition keyed_pending :: "('k, 'v) keyed \<Rightarrow> nat" where
  "keyed_pending m = fcard (kd_dirty m)"

definition keyed_insert :: "('k, 'v) keyed \<Rightarrow> 'k \<Rightarrow> 'v \<Rightarrow> ('k, 'v) keyed \<times> 'v option" where
  "keyed_insert m key value =
     (keyed_touched (m\<lparr>kd_map := fmupd key value (kd_map m)\<rparr>) key, fmlookup (kd_map m) key)"

definition keyed_remove :: "('k, 'v) keyed \<Rightarrow> 'k \<Rightarrow> ('k, 'v) keyed \<times> 'v option" where
  "keyed_remove m key = (case fmlookup (kd_map m) key of
     None \<Rightarrow> (m, None)
   | Some old \<Rightarrow> (keyed_touched (m\<lparr>kd_map := fmdrop key (kd_map m)\<rparr>) key, Some old))"

definition keyed_clear :: "('k, 'v) keyed \<Rightarrow> ('k, 'v) keyed" where
  "keyed_clear m = \<lparr>kd_map = fmempty, kd_trie = trie_new, kd_dirty = {||}, kd_legacy = None\<rparr>"

text \<open>\<open>get_mut\<close> hands out a guard; the write \<open>f\<close> through it and the guard's drop are one step.\<close>

definition keyed_get_mut :: "('k, 'v) keyed \<Rightarrow> 'k \<Rightarrow> ('v \<Rightarrow> 'v) \<Rightarrow> ('k, 'v) keyed option" where
  "keyed_get_mut m key f = (case fmlookup (kd_map m) key of
     None \<Rightarrow> None
   | Some v \<Rightarrow> Some (keyed_touched (m\<lparr>kd_map := fmupd key (f v) (kd_map m)\<rparr>) key))"

text \<open>\<open>entry(key).or_insert(default)\<close>, the write \<open>f\<close> through the guard, and its drop.\<close>

definition keyed_or_insert :: "('k, 'v) keyed \<Rightarrow> 'k \<Rightarrow> 'v \<Rightarrow> ('v \<Rightarrow> 'v) \<Rightarrow> ('k, 'v) keyed" where
  "keyed_or_insert m key dflt f =
     (let v = (case fmlookup (kd_map m) key of None \<Rightarrow> dflt | Some v \<Rightarrow> v)
      in keyed_touched (m\<lparr>kd_map := fmupd key (f v) (kd_map m)\<rparr>) key)"

definition keyed_commitment ::
  "ext \<Rightarrow> ('k::linorder \<Rightarrow> particle) \<Rightarrow> ('v \<Rightarrow> goldilocks list) \<Rightarrow> ('k, 'v) keyed \<Rightarrow> (('k, 'v) keyed \<times> digest) option" where
  "keyed_commitment X kb lv m = do {
     m \<leftarrow> keyed_flush X kb lv m;
     (T, d) \<leftarrow> trie_root X (kd_trie m);
     Some (m\<lparr>kd_trie := T\<rparr>, d) }"

definition keyed_legacy_commitment :: "(('k, 'v) fmap \<Rightarrow> particle) \<Rightarrow> ('k, 'v) keyed \<Rightarrow> ('k, 'v) keyed \<times> particle" where
  "keyed_legacy_commitment f m = (case kd_legacy m of
     Some c \<Rightarrow> (m, c)
   | None \<Rightarrow> let c = f (kd_map m) in (m\<lparr>kd_legacy := Some c\<rparr>, c))"

definition keyed_prove ::
  "ext \<Rightarrow> ('k::linorder \<Rightarrow> particle) \<Rightarrow> ('v \<Rightarrow> goldilocks list) \<Rightarrow> ('k, 'v) keyed \<Rightarrow> 'k \<Rightarrow> (('k, 'v) keyed \<times> trie_proof) option" where
  "keyed_prove X kb lv m key = do {
     m \<leftarrow> keyed_flush X kb lv m;
     (T, p) \<leftarrow> trie_prove X (kd_trie m) (kb key);
     Some (m\<lparr>kd_trie := T\<rparr>, p) }"

section \<open>Keyed sets\<close>

type_synonym 'k keyed_set = "('k, unit) keyed"

definition kset_insert :: "'k keyed_set \<Rightarrow> 'k \<Rightarrow> 'k keyed_set \<times> bool" where
  "kset_insert s key = (let (s, old) = keyed_insert s key () in (s, old = None))"

definition kset_remove :: "'k keyed_set \<Rightarrow> 'k \<Rightarrow> 'k keyed_set \<times> bool" where
  "kset_remove s key = (let (s, old) = keyed_remove s key in (s, old \<noteq> None))"

definition kset_contains :: "'k keyed_set \<Rightarrow> 'k \<Rightarrow> bool" where
  "kset_contains s key \<longleftrightarrow> fmlookup (kd_map s) key \<noteq> None"

section \<open>The invariant\<close>

text \<open>The leaves the trie should hold for a map.\<close>

definition keyed_leaves :: "ext \<Rightarrow> ('k \<Rightarrow> particle) \<Rightarrow> ('v \<Rightarrow> goldilocks list) \<Rightarrow> ('k, 'v) fmap \<Rightarrow> particle \<rightharpoonup> digest" where
  "keyed_leaves X kb lv m x =
     (if x \<in> range kb then map_option (keyed_leaf X kb lv (inv kb x)) (fmlookup m (inv kb x)) else None)"

definition keyed_ok :: "ext \<Rightarrow> ('k \<Rightarrow> particle) \<Rightarrow> ('v \<Rightarrow> goldilocks list) \<Rightarrow> ('k, 'v) keyed \<Rightarrow> bool" where
  "keyed_ok X kb lv m \<longleftrightarrow> trie_ok X (kd_trie m) \<and>
     (\<forall>x. x \<notin> kb ` fset (kd_dirty m) \<longrightarrow> trie_map (kd_trie m) x = keyed_leaves X kb lv (kd_map m) x)"

definition legacy_ok :: "(('k, 'v) fmap \<Rightarrow> particle) \<Rightarrow> ('k, 'v) keyed \<Rightarrow> bool" where
  "legacy_ok f m \<longleftrightarrow> (\<forall>c. kd_legacy m = Some c \<longrightarrow> c = f (kd_map m))"

text \<open>The commitment a map should have.\<close>

definition keyed_spec :: "ext \<Rightarrow> ('k \<Rightarrow> particle) \<Rightarrow> ('v \<Rightarrow> goldilocks list) \<Rightarrow> ('k, 'v) fmap \<Rightarrow> digest" where
  "keyed_spec X kb lv m = spec_root X (keyed_leaves X kb lv m)"

text \<open>The arena the trie needs at most once the pending records are in it.\<close>

abbreviation keyed_load :: "('k, 'v) keyed \<Rightarrow> nat" where
  "keyed_load m \<equiv> length (tr_nodes (kd_trie m)) + 2 * keyed_pending m"

lemma keyed_ok_new: "keyed_ok X kb lv keyed_new"
  by (simp add: keyed_ok_def keyed_new_def trie_new_ok keyed_leaves_def)

text \<open>What the mutators do to the map and return.\<close>

lemma keyed_insert_map [simp]:
  "kd_map (fst (keyed_insert m k v)) = fmupd k v (kd_map m)" "snd (keyed_insert m k v) = fmlookup (kd_map m) k"
  by (simp_all add: keyed_insert_def keyed_touched_def)

lemma keyed_remove_map [simp]:
  "kd_map (fst (keyed_remove m k)) = fmdrop k (kd_map m)" "snd (keyed_remove m k) = fmlookup (kd_map m) k"
  by (simp_all add: keyed_remove_def keyed_touched_def fmdrop_absent split: option.split)

lemma keyed_or_insert_map [simp]:
  "kd_map (keyed_or_insert m k v f) = fmupd k (f (case fmlookup (kd_map m) k of None \<Rightarrow> v | Some w \<Rightarrow> w)) (kd_map m)"
  by (simp add: keyed_or_insert_def keyed_touched_def Let_def)

lemma legacy_ok_ops [simp, intro]:
  "legacy_ok f (fst (keyed_insert m k v))" "legacy_ok f (keyed_or_insert m k v g)" "legacy_ok f keyed_new"
  "legacy_ok f m \<Longrightarrow> legacy_ok f (fst (keyed_remove m k))"
  by (simp_all add: legacy_ok_def keyed_insert_def keyed_or_insert_def keyed_touched_def keyed_remove_def keyed_new_def
      Let_def split: option.split)

lemma keyed_legacy_commitment_ok:
  assumes "legacy_ok f m"
  shows "\<exists>m'. keyed_legacy_commitment f m = (m', f (kd_map m)) \<and> legacy_ok f m' \<and> kd_map m' = kd_map m \<and>
    (keyed_ok X kb lv m \<longrightarrow> keyed_ok X kb lv m')"
  using assms by (auto simp: keyed_legacy_commitment_def legacy_ok_def keyed_ok_def Let_def split: option.splits)

lemma fcard_finsert_le: "fcard (finsert x A) \<le> Suc (fcard A)"
  by (simp add: fcard_finsert_if)

lemma keyed_load_ops:
  "keyed_load (fst (keyed_insert m k v)) \<le> keyed_load m + 2" "keyed_load (fst (keyed_remove m k)) \<le> keyed_load m + 2"
  "keyed_load (keyed_or_insert m k v f) \<le> keyed_load m + 2"
  using fcard_finsert_le [of k "kd_dirty m"]
  by (auto simp: keyed_insert_def keyed_remove_def keyed_or_insert_def keyed_touched_def keyed_pending_def Let_def split: option.split)

text \<open>Every way to change or to read a keyed map: the public operations of \<open>Keyed\<close>, its guards included.\<close>

inductive keyed_step :: "ext \<Rightarrow> ('k::linorder \<Rightarrow> particle) \<Rightarrow> ('v \<Rightarrow> goldilocks list) \<Rightarrow> (('k, 'v) fmap \<Rightarrow> particle) \<Rightarrow>
    ('k, 'v) keyed \<Rightarrow> ('k, 'v) keyed \<Rightarrow> bool" for X kb lv f where
  step_insert: "keyed_insert m k v = (m', old) \<Longrightarrow> keyed_step X kb lv f m m'"
| step_remove: "keyed_remove m k = (m', old) \<Longrightarrow> keyed_step X kb lv f m m'"
| step_clear: "keyed_step X kb lv f m (keyed_clear m)"
| step_get_mut: "keyed_get_mut m k g = Some m' \<Longrightarrow> keyed_step X kb lv f m m'"
| step_or_insert: "keyed_step X kb lv f m (keyed_or_insert m k v g)"
| step_commitment: "length (tr_nodes (kd_trie m)) + 2 * keyed_pending m \<le> 2 ^ 32 \<Longrightarrow>
    keyed_commitment X kb lv m = Some (m', d) \<Longrightarrow> keyed_step X kb lv f m m'"
| step_prove: "length (tr_nodes (kd_trie m)) + 2 * keyed_pending m \<le> 2 ^ 32 \<Longrightarrow>
    keyed_prove X kb lv m k = Some (m', p) \<Longrightarrow> keyed_step X kb lv f m m'"
| step_legacy: "keyed_legacy_commitment f m = (m', c) \<Longrightarrow> keyed_step X kb lv f m m'"

abbreviation keyed_reachable :: "ext \<Rightarrow> ('k::linorder \<Rightarrow> particle) \<Rightarrow> ('v \<Rightarrow> goldilocks list) \<Rightarrow> (('k, 'v) fmap \<Rightarrow> particle) \<Rightarrow>
    ('k, 'v) keyed \<Rightarrow> bool" where
  "keyed_reachable X kb lv f m \<equiv> (keyed_step X kb lv f)\<^sup>*\<^sup>* keyed_new m"

text \<open>The contract of the trait \<open>TrieKey\<close>: distinct keys have distinct paths.\<close>

locale trie_key =
  fixes kb :: "'k::linorder \<Rightarrow> particle"
  assumes key_inj: "inj kb"
begin

lemma leaves_kb: "keyed_leaves X kb lv m (kb k) = map_option (\<lambda>v. leaf_digest X (kb k) (lv v)) (fmlookup m k)"
  using key_inj by (cases "fmlookup m k") (simp_all add: keyed_leaves_def keyed_leaf_def)

lemma leaves_upd: "x \<noteq> kb k \<Longrightarrow> keyed_leaves X kb lv (fmupd k v m) x = keyed_leaves X kb lv m x"
  using key_inj by (auto simp: keyed_leaves_def)

lemma leaves_drop: "x \<noteq> kb k \<Longrightarrow> keyed_leaves X kb lv (fmdrop k m) x = keyed_leaves X kb lv m x"
  using key_inj by (auto simp: keyed_leaves_def)

lemma ok_upd: "keyed_ok X kb lv m \<Longrightarrow> keyed_ok X kb lv (keyed_touched (m\<lparr>kd_map := fmupd k v (kd_map m)\<rparr>) k)"
  by (simp add: keyed_ok_def keyed_touched_def leaves_upd)

lemma ok_drop: "keyed_ok X kb lv m \<Longrightarrow> keyed_ok X kb lv (keyed_touched (m\<lparr>kd_map := fmdrop k (kd_map m)\<rparr>) k)"
  by (simp add: keyed_ok_def keyed_touched_def leaves_drop)

lemma insert_ok [simp, intro]: "keyed_ok X kb lv m \<Longrightarrow> keyed_ok X kb lv (fst (keyed_insert m k v))"
  by (simp add: keyed_insert_def ok_upd)

lemma remove_ok [simp, intro]: "keyed_ok X kb lv m \<Longrightarrow> keyed_ok X kb lv (fst (keyed_remove m k))"
  by (simp add: keyed_remove_def ok_drop split: option.split)

lemma or_insert_ok [simp, intro]: "keyed_ok X kb lv m \<Longrightarrow> keyed_ok X kb lv (keyed_or_insert m k v f)"
  by (simp add: keyed_or_insert_def Let_def ok_upd)

lemma flush_ok:
  assumes ok: "keyed_ok X kb lv m"
    and room: "length (tr_nodes (kd_trie m)) + 2 * keyed_pending m \<le> 2 ^ 32"
  obtains T where "keyed_flush X kb lv m = Some (m\<lparr>kd_trie := T, kd_dirty := {||}\<rparr>)" "trie_ok X T"
    "trie_map T = keyed_leaves X kb lv (kd_map m)"
    "length (tr_nodes T) \<le> length (tr_nodes (kd_trie m)) + 2 * keyed_pending m"
proof -
  let ?f = "\<lambda>k. map_option (\<lambda>v. leaf_digest X (kb k) (lv v)) (fmlookup (kd_map m) k)"
  let ?ks = "sorted_list_of_fset (kd_dirty m)"
  let ?es = "map (\<lambda>k. (kb k, ?f k)) ?ks"
  have ks: "set ?ks = fset (kd_dirty m)" "length ?es = keyed_pending m"
    by (simp_all add: sorted_list_of_fset.rep_eq keyed_pending_def fcard.rep_eq)
  have tok: "trie_ok X (kd_trie m)" using ok by (simp add: keyed_ok_def)
  obtain T where T: "edit_all trie_set trie_remove (kd_trie m) ?es = Some T" "trie_ok X T"
    "trie_map T = edited (trie_map (kd_trie m)) ?es"
    "length (tr_nodes T) \<le> length (tr_nodes (kd_trie m)) + 2 * length ?es"
    using am.edit_all_law [OF tok, of ?es] room unfolding ks(2) by blast
  have "trie_map T x = keyed_leaves X kb lv (kd_map m) x" for x
  proof (cases "x \<in> kb ` fset (kd_dirty m)")
    case True
    then obtain k where "x = kb k" "k \<in> fset (kd_dirty m)" by blast
    then show ?thesis
      unfolding T(3) using edited_target [OF key_inj, of _ ?f ?ks k] ks(1) by (simp add: leaves_kb)
  next
    case False
    then have "x \<notin> fst ` set ?es" using ks(1) by auto
    then show ?thesis
      unfolding T(3) using False ok by (simp add: edited_other keyed_ok_def del: set_map)
  qed
  then show ?thesis
    using that [of T] T(1,2,4) ks(2) by (auto simp: keyed_flush_def)
qed

text \<open>A commitment read returns the root of the leaves of the map, whatever was pending.\<close>

lemma commitment_ok:
  assumes ok: "keyed_ok X kb lv m"
    and room: "length (tr_nodes (kd_trie m)) + 2 * keyed_pending m \<le> 2 ^ 32"
  shows "\<exists>m'. keyed_commitment X kb lv m = Some (m', keyed_spec X kb lv (kd_map m)) \<and> keyed_ok X kb lv m' \<and>
    kd_map m' = kd_map m \<and> kd_dirty m' = {||} \<and> kd_legacy m' = kd_legacy m \<and> keyed_load m' \<le> keyed_load m"
proof -
  obtain T where T: "keyed_flush X kb lv m = Some (m\<lparr>kd_trie := T, kd_dirty := {||}\<rparr>)" "trie_ok X T"
    "trie_map T = keyed_leaves X kb lv (kd_map m)" "length (tr_nodes T) \<le> keyed_load m"
    by (rule flush_ok [OF assms])
  obtain T' where "trie_root X T = Some (T', keyed_spec X kb lv (kd_map m))" "trie_ok X T'" "trie_map T' = trie_map T"
    "length (tr_nodes T') = length (tr_nodes T)"
    using am.commit_law [OF T(2)] T(3) by (auto simp: keyed_spec_def)
  then show ?thesis using T by (simp add: keyed_commitment_def keyed_ok_def keyed_pending_def fcard.rep_eq)
qed

lemma prove_ok:
  assumes ok: "keyed_ok X kb lv m"
    and room: "length (tr_nodes (kd_trie m)) + 2 * keyed_pending m \<le> 2 ^ 32"
  shows "\<exists>m' p. keyed_prove X kb lv m k = Some (m', p) \<and> keyed_ok X kb lv m' \<and> kd_map m' = kd_map m \<and>
    kd_legacy m' = kd_legacy m \<and>
    trie_verify X p (keyed_spec X kb lv (kd_map m)) (kb k) (map_option (keyed_leaf X kb lv k) (fmlookup (kd_map m) k)) = Some True"
proof -
  obtain T where T: "keyed_flush X kb lv m = Some (m\<lparr>kd_trie := T, kd_dirty := {||}\<rparr>)" "trie_ok X T"
    "trie_map T = keyed_leaves X kb lv (kd_map m)"
    by (rule flush_ok [OF assms])
  obtain ot where ot: "trie_abs X T ot" using T(2) by (auto simp: trie_ok_def)
  have lk: "omap ot (kb k) = map_option (keyed_leaf X kb lv k) (fmlookup (kd_map m) k)"
    using T(3) trie_map_abs [OF ot] leaves_kb by (auto simp: keyed_leaf_def [abs_def])
  have root: "odg X ot = keyed_spec X kb lv (kd_map m)"
    using spec_root_abs [OF ot] T(3) trie_map_abs [OF ot] by (simp add: keyed_spec_def)
  obtain T' p where "trie_prove X T (kb k) = Some (T', p)" "trie_abs X T' (map_option (scrub X) ot)"
    "trie_verify X p (odg X ot) (kb k) (omap ot (kb k)) = Some True"
    by (rule prove_verify_abs [OF ot])
  then show ?thesis
    using T lk root trie_map_abs [OF ot] by (auto simp: keyed_prove_def keyed_ok_def trie_ok_def trie_map_abs)
qed

lemma step_keeps_ok:
  assumes "keyed_step X kb lv f m m'" and "keyed_ok X kb lv m \<and> legacy_ok f m"
  shows "keyed_ok X kb lv m' \<and> legacy_ok f m'"
  using assms
proof induction
  case (step_insert m k v m' old)
  then show ?case using ok_upd [of X lv m k v] by (auto simp: keyed_insert_def legacy_ok_def keyed_touched_def)
next
  case (step_remove m k m' old)
  then show ?case
    using ok_drop [of X lv m k] by (auto simp: keyed_remove_def legacy_ok_def keyed_touched_def split: option.splits)
next
  case (step_clear m)
  then show ?case using keyed_ok_new [of X kb lv] by (simp add: keyed_clear_def keyed_new_def legacy_ok_def)
next
  case (step_get_mut m k g m')
  then show ?case
    using ok_upd [of X lv m k] by (auto simp: keyed_get_mut_def legacy_ok_def keyed_touched_def split: option.splits)
next
  case (step_or_insert m k v g)
  then show ?case
    using ok_upd [of X lv m k] by (auto simp: keyed_or_insert_def Let_def legacy_ok_def keyed_touched_def split: option.splits)
next
  case (step_commitment m m' d)
  then show ?case using commitment_ok [of X lv m] by (auto simp: legacy_ok_def)
next
  case (step_prove m k m' p)
  then show ?case using prove_ok [of X lv m k] by (auto simp: legacy_ok_def)
next
  case (step_legacy m m' c)
  then show ?case
    by (auto simp: keyed_legacy_commitment_def Let_def legacy_ok_def keyed_ok_def split: option.splits)
qed

lemma reachable_ok: "keyed_reachable X kb lv f m \<Longrightarrow> keyed_ok X kb lv m \<and> legacy_ok f m"
proof (induction rule: rtranclp_induct)
  case base
  have "legacy_ok f keyed_new" by (simp add: legacy_ok_def keyed_new_def)
  then show ?case by (simp add: keyed_ok_new)
next
  case (step m m')
  then show ?case using step_keeps_ok by blast
qed

end

interpretation bytes_key: trie_key "\<lambda>k :: particle. k"
  by unfold_locales simp

interpretation height_key: trie_key u64_key_bytes
  by unfold_locales (rule inj_u64_key_bytes)

section \<open>Properties\<close>

text \<open>C9: there is no way to change a record without the commitment seeing it. After any sequence of the
  public operations the commitment read returns, while the trie has room for the touched
  records, the root of the records the map holds: for particle keys and for heights alike.\<close>

theorem keyed_commitment_current:
  assumes "inj kb" and "keyed_reachable X kb lv f m"
    and "length (tr_nodes (kd_trie m)) + 2 * keyed_pending m \<le> 2 ^ 32"
  shows "\<exists>m'. keyed_commitment X kb lv m = Some (m', keyed_spec X kb lv (kd_map m)) \<and> kd_map m' = kd_map m \<and>
    keyed_pending m' = 0"
proof -
  have tk: "trie_key kb" using assms(1) by (rule trie_key.intro)
  show ?thesis
    using trie_key.commitment_ok [OF tk _ assms(3)] trie_key.reachable_ok [OF tk assms(2)]
    by (auto simp: keyed_pending_def)
qed

theorem keyed_commitment_current_witness:
  "\<exists>m m'. fst (keyed_insert keyed_new 5 (7 :: u64)) = m \<and>
     keyed_commitment sample_ext (\<lambda>k. k) (u64_leaf_vals sample_ext) m =
       Some (m', keyed_spec sample_ext (\<lambda>k. k) (u64_leaf_vals sample_ext) (kd_map m)) \<and>
     kd_map m' = fmupd 5 7 fmempty"
proof -
  let ?m = "fst (keyed_insert keyed_new (5 :: particle) (7 :: u64))"
  have step: "keyed_step sample_ext (\<lambda>k. k) (u64_leaf_vals sample_ext) (\<lambda>_. 0) keyed_new ?m"
    by (rule step_insert [of keyed_new 5 7 _ "snd (keyed_insert keyed_new (5 :: particle) (7 :: u64))"]) (rule prod.collapse [symmetric])
  have m: "kd_map ?m = fmupd 5 7 fmempty" "kd_trie ?m = trie_new" "kd_dirty ?m = {|5|}"
    by (simp_all add: keyed_insert_def keyed_touched_def keyed_new_def)
  have "\<exists>m'. keyed_commitment sample_ext (\<lambda>k. k) (u64_leaf_vals sample_ext) ?m =
       Some (m', keyed_spec sample_ext (\<lambda>k. k) (u64_leaf_vals sample_ext) (kd_map ?m)) \<and> kd_map m' = kd_map ?m \<and>
     keyed_pending m' = 0"
    by (rule keyed_commitment_current [where f = "\<lambda>_. 0"])
      (use step in \<open>auto simp: m keyed_pending_def new_nodes fcard.rep_eq\<close>)
  then show ?thesis using m(1) by auto
qed

text \<open>the cached v1 commitment is never stale: after any sequence of operations, \<open>legacy_commitment\<close> returns
  what the closure gives on the current map, cached or not.\<close>

theorem keyed_legacy_fresh:
  assumes "inj kb" and "keyed_reachable X kb lv f m"
  shows "snd (keyed_legacy_commitment f m) = f (kd_map m)"
  using trie_key.reachable_ok [OF trie_key.intro [OF assms(1)] assms(2)]
  by (auto simp: keyed_legacy_commitment_def legacy_ok_def Let_def split: option.splits)

theorem keyed_legacy_fresh_witness:
  "snd (keyed_legacy_commitment (\<lambda>m. of_nat (fcard (fmdom m))) (keyed_new :: (particle, u64) keyed)) = 0"
  using keyed_legacy_fresh [of "\<lambda>k. k" sample_ext "u64_leaf_vals sample_ext" "\<lambda>m. of_nat (fcard (fmdom m))" keyed_new]
  by (simp add: keyed_new_def fcard.rep_eq)

end
