(* ===== verification/Bbg_Axons.thy ===== *)
theory Bbg_Axons
  imports Bbg_Keyed
begin

text \<open>
  The committed adjacency index (\<open>AxonIndex\<close> of \<open>keyed.rs\<close>): particle to list of axon ids, with
  a trie per list, an outer trie over the lists, and a histogram of list lengths. Operations
  that touch a trie return in the option monad; \<open>None\<close> is a panic of the source.
\<close>

section \<open>The index and its operations\<close>

record axon_index =
  ax_map :: "(particle, particle list) fmap"
  ax_degrees :: "(nat, nat) fmap"
  ax_sets :: "(particle, trie) fmap"
  ax_trie :: trie
  ax_dirty :: "particle fset"
  ax_legacy :: "particle option"

definition axon_new :: axon_index where
  "axon_new = \<lparr>ax_map = fmempty, ax_degrees = fmempty, ax_sets = fmempty, ax_trie = trie_new,
     ax_dirty = {||}, ax_legacy = None\<rparr>"

definition axon_member_digest :: "ext \<Rightarrow> particle \<Rightarrow> digest" where
  "axon_member_digest X axon = leaf_digest X axon []"

definition axon_leaf :: "ext \<Rightarrow> particle \<Rightarrow> u64 \<Rightarrow> digest \<Rightarrow> digest" where
  "axon_leaf X p degree set_root = (case set_root of (r0, r1, r2, r3) \<Rightarrow>
     leaf_digest X p (u64_limbs X degree @ [r0, r1, r2, r3]))"

definition degree_moved :: "(nat, nat) fmap \<Rightarrow> nat \<Rightarrow> nat \<Rightarrow> (nat, nat) fmap option" where
  "degree_moved degs old new =
     (if old = new then Some degs
      else do {
        degs \<leftarrow> (if old > 0 then do {
            n \<leftarrow> fmlookup degs old;
            if n = 0 then None
            else Some (if n - 1 = 0 then fmdrop old degs else fmupd old (n - 1) degs) }
          else Some degs);
        Some (if new > 0 then fmupd new ((case fmlookup degs new of None \<Rightarrow> 0 | Some n \<Rightarrow> n) + 1) degs else degs) })"

definition axon_degree :: "axon_index \<Rightarrow> particle \<Rightarrow> nat" where
  "axon_degree ix p = (case fmlookup (ax_map ix) p of None \<Rightarrow> 0 | Some l \<Rightarrow> length l)"

definition axon_touched :: "axon_index \<Rightarrow> particle \<Rightarrow> axon_index" where
  "axon_touched ix p = ix\<lparr>ax_legacy := None, ax_dirty := finsert p (ax_dirty ix)\<rparr>"

fun axon_flush_loop :: "ext \<Rightarrow> (particle, particle list) fmap \<Rightarrow> (particle, trie) fmap \<Rightarrow> trie \<Rightarrow> particle list \<Rightarrow>
    ((particle, trie) fmap \<times> trie) option" where
  "axon_flush_loop X m sets T [] = Some (sets, T)"
| "axon_flush_loop X m sets T (p # ps) =
     (case (fmlookup m p, fmlookup sets p) of
        (Some ls, Some S) \<Rightarrow> do {
          (S, r) \<leftarrow> trie_root X S;
          (T, _) \<leftarrow> trie_set T p (axon_leaf X p (of_nat (length ls)) r);
          axon_flush_loop X m (fmupd p S sets) T ps }
      | _ \<Rightarrow> do {
          (T, _) \<leftarrow> trie_remove T p;
          axon_flush_loop X m sets T ps })"

definition axon_flush :: "ext \<Rightarrow> axon_index \<Rightarrow> axon_index option" where
  "axon_flush X ix = do {
     (sets, T) \<leftarrow> axon_flush_loop X (ax_map ix) (ax_sets ix) (ax_trie ix) (sorted_list_of_fset (ax_dirty ix));
     Some (ix\<lparr>ax_sets := sets, ax_trie := T, ax_dirty := {||}\<rparr>) }"

definition axon_pending :: "axon_index \<Rightarrow> nat" where
  "axon_pending ix = fcard (ax_dirty ix)"

definition axon_add :: "ext \<Rightarrow> axon_index \<Rightarrow> particle \<Rightarrow> particle \<Rightarrow> (axon_index \<times> bool) option" where
  "axon_add X ix p axon = do {
     let S = (case fmlookup (ax_sets ix) p of None \<Rightarrow> trie_new | Some s \<Rightarrow> s);
     (S, new) \<leftarrow> trie_set S axon (axon_member_digest X axon);
     let ix = ix\<lparr>ax_sets := fmupd p S (ax_sets ix)\<rparr>;
     if \<not> new then Some (ix, False)
     else do {
       let ls = (case fmlookup (ax_map ix) p of None \<Rightarrow> [] | Some l \<Rightarrow> l) @ [axon];
       let len = length ls;
       degs \<leftarrow> degree_moved (ax_degrees ix) (len - 1) len;
       Some (axon_touched (ix\<lparr>ax_map := fmupd p ls (ax_map ix), ax_degrees := degs\<rparr>) p, True) } }"

definition axon_remove :: "axon_index \<Rightarrow> particle \<Rightarrow> (axon_index \<times> particle list option) option" where
  "axon_remove ix p = (case fmlookup (ax_map ix) p of
     None \<Rightarrow> Some (ix, None)
   | Some old \<Rightarrow> do {
       degs \<leftarrow> degree_moved (ax_degrees ix) (length old) 0;
       Some (axon_touched (ix\<lparr>ax_map := fmdrop p (ax_map ix), ax_sets := fmdrop p (ax_sets ix), ax_degrees := degs\<rparr>) p,
         Some old) })"

fun axon_dedup :: "ext \<Rightarrow> trie \<Rightarrow> particle list \<Rightarrow> (trie \<times> particle list) option" where
  "axon_dedup X S [] = Some (S, [])"
| "axon_dedup X S (a # as) = do {
     (S, new) \<leftarrow> trie_set S a (axon_member_digest X a);
     (S, rest) \<leftarrow> axon_dedup X S as;
     Some (S, if new then a # rest else rest) }"

definition axon_insert :: "ext \<Rightarrow> axon_index \<Rightarrow> particle \<Rightarrow> particle list \<Rightarrow> (axon_index \<times> particle list option) option" where
  "axon_insert X ix p ls = do {
     (ix, old) \<leftarrow> axon_remove ix p;
     (S, ls) \<leftarrow> axon_dedup X trie_new ls;
     if ls = [] then Some (ix, old)
     else do {
       degs \<leftarrow> degree_moved (ax_degrees ix) 0 (length ls);
       Some (axon_touched (ix\<lparr>ax_degrees := degs, ax_map := fmupd p ls (ax_map ix), ax_sets := fmupd p S (ax_sets ix)\<rparr>) p,
         old) } }"

definition axon_remove_axon :: "axon_index \<Rightarrow> particle \<Rightarrow> particle \<Rightarrow> (axon_index \<times> bool) option" where
  "axon_remove_axon ix p axon = (case fmlookup (ax_sets ix) p of
     None \<Rightarrow> Some (ix, False)
   | Some S \<Rightarrow> do {
       (S, was) \<leftarrow> trie_remove S axon;
       let ix = ix\<lparr>ax_sets := fmupd p S (ax_sets ix)\<rparr>;
       if \<not> was then Some (ix, False)
       else do {
         ls \<leftarrow> fmlookup (ax_map ix) p;
         let before = length ls;
         let ls = filter (\<lambda>a. a \<noteq> axon) ls;
         let after = length ls;
         let ix = (if after = 0 then ix\<lparr>ax_map := fmdrop p (ax_map ix), ax_sets := fmdrop p (ax_sets ix)\<rparr>
                   else ix\<lparr>ax_map := fmupd p ls (ax_map ix)\<rparr>);
         degs \<leftarrow> degree_moved (ax_degrees ix) before after;
         Some (axon_touched (ix\<lparr>ax_degrees := degs\<rparr>) p, True) } })"

fun axon_drop_members :: "trie \<Rightarrow> particle list \<Rightarrow> trie option" where
  "axon_drop_members S [] = Some S"
| "axon_drop_members S (a # as) = do { (S, _) \<leftarrow> trie_remove S a; axon_drop_members S as }"

definition axon_truncate :: "axon_index \<Rightarrow> particle \<Rightarrow> nat \<Rightarrow> (axon_index \<times> nat) option" where
  "axon_truncate ix p len =
     (let before = axon_degree ix p in
      if before \<le> len then Some (ix, 0)
      else if len = 0 then do {
        (ix, old) \<leftarrow> axon_remove ix p;
        Some (ix, case old of None \<Rightarrow> 0 | Some l \<Rightarrow> length l) }
      else do {
        ls \<leftarrow> fmlookup (ax_map ix) p;
        let dropped = drop len ls;
        S \<leftarrow> fmlookup (ax_sets ix) p;
        S \<leftarrow> axon_drop_members S dropped;
        degs \<leftarrow> degree_moved (ax_degrees ix) before len;
        Some (axon_touched (ix\<lparr>ax_map := fmupd p (take len ls) (ax_map ix), ax_sets := fmupd p S (ax_sets ix),
          ax_degrees := degs\<rparr>) p, length dropped) })"

definition axon_clear :: "axon_index \<Rightarrow> axon_index" where
  "axon_clear ix = \<lparr>ax_map = fmempty, ax_degrees = fmempty, ax_sets = fmempty, ax_trie = trie_new,
     ax_dirty = {||}, ax_legacy = None\<rparr>"

definition axon_max_degree :: "axon_index \<Rightarrow> nat" where
  "axon_max_degree ix = (let ds = sorted_list_of_fset (fmdom (ax_degrees ix)) in if ds = [] then 0 else last ds)"

definition axon_commitment :: "ext \<Rightarrow> axon_index \<Rightarrow> (axon_index \<times> digest) option" where
  "axon_commitment X ix = do {
     ix \<leftarrow> axon_flush X ix;
     (T, d) \<leftarrow> trie_root X (ax_trie ix);
     Some (ix\<lparr>ax_trie := T\<rparr>, d) }"

definition axon_set_root :: "ext \<Rightarrow> axon_index \<Rightarrow> particle \<Rightarrow> (axon_index \<times> digest option) option" where
  "axon_set_root X ix p = (case fmlookup (ax_sets ix) p of
     None \<Rightarrow> Some (ix, None)
   | Some S \<Rightarrow> do {
       (S, r) \<leftarrow> trie_root X S;
       Some (ix\<lparr>ax_sets := fmupd p S (ax_sets ix)\<rparr>, Some r) })"

definition axon_legacy_commitment ::
  "((particle, particle list) fmap \<Rightarrow> particle) \<Rightarrow> axon_index \<Rightarrow> axon_index \<times> particle" where
  "axon_legacy_commitment f ix = (case ax_legacy ix of
     Some c \<Rightarrow> (ix, c)
   | None \<Rightarrow> let c = f (ax_map ix) in (ix\<lparr>ax_legacy := Some c\<rparr>, c))"

definition axon_prove :: "ext \<Rightarrow> axon_index \<Rightarrow> particle \<Rightarrow> (axon_index \<times> trie_proof) option" where
  "axon_prove X ix p = do {
     ix \<leftarrow> axon_flush X ix;
     (T, pf) \<leftarrow> trie_prove X (ax_trie ix) p;
     Some (ix\<lparr>ax_trie := T\<rparr>, pf) }"

definition axon_prove_member :: "ext \<Rightarrow> axon_index \<Rightarrow> particle \<Rightarrow> particle \<Rightarrow> (axon_index \<times> trie_proof option) option" where
  "axon_prove_member X ix p axon = (case fmlookup (ax_sets ix) p of
     None \<Rightarrow> Some (ix, None)
   | Some S \<Rightarrow> do {
       (S, pf) \<leftarrow> trie_prove X S axon;
       Some (ix\<lparr>ax_sets := fmupd p S (ax_sets ix)\<rparr>, Some pf) })"

section \<open>The degree histogram\<close>

definition histogram :: "(particle \<Rightarrow> nat) \<Rightarrow> (nat, nat) fmap \<Rightarrow> bool" where
  "histogram D degs \<longleftrightarrow> finite {p. D p \<noteq> 0} \<and>
     (\<forall>d. fmlookup degs d = (if d = 0 \<or> card {p. D p = d} = 0 then None else Some (card {p. D p = d})))"

lemma histogram_class_finite: "histogram D degs \<Longrightarrow> d \<noteq> 0 \<Longrightarrow> finite {p. D p = d}"
  unfolding histogram_def by (rule finite_subset [of _ "{p. D p \<noteq> 0}"]) auto

lemma degree_class_upd:
  assumes "finite {q. D q = d}"
  shows "card {q. (D(p := n)) q = d} =
    (if n = d then (if D p = d then card {q. D q = d} else Suc (card {q. D q = d}))
     else (if D p = d then card {q. D q = d} - 1 else card {q. D q = d}))"
proof -
  have "{q. (D(p := n)) q = d} = (if n = d then insert p {q. D q = d} else {q. D q = d} - {p})" by auto
  then show ?thesis using assms by (auto simp: card_insert_if)
qed

lemma degree_moved_ok:
  assumes h: "histogram D degs"
  shows "\<exists>degs'. degree_moved degs (D p) n = Some degs' \<and> histogram (D(p := n)) degs'"
proof (cases "D p = n")
  case True
  then have "D(p := n) = D" by auto
  then show ?thesis using True h by (simp add: degree_moved_def)
next
  case False
  let ?D = "D(p := n)"
  have fin: "finite {q. ?D q \<noteq> 0}"
    using h unfolding histogram_def by (rule_tac finite_subset [of _ "insert p {q. D q \<noteq> 0}"]) auto
  have lk: "fmlookup degs d = (if d = 0 \<or> card {q. D q = d} = 0 then None else Some (card {q. D q = d}))" for d
    using h by (simp add: histogram_def)
  have pos: "card {q. D q = D p} \<noteq> 0" if "D p \<noteq> 0"
    using histogram_class_finite [OF h that] by (auto simp: card_eq_0_iff)
  have cls: "card {q. ?D q = d} = (if n = d then Suc (card {q. D q = d})
      else if D p = d then card {q. D q = d} - 1 else card {q. D q = d})" if "d \<noteq> 0" for d
    using degree_class_upd [OF histogram_class_finite [OF h that], of p n] False by auto
  define degs1 where "degs1 = (if D p = 0 then degs else
    if card {q. D q = D p} - 1 = 0 then fmdrop (D p) degs else fmupd (D p) (card {q. D q = D p} - 1) degs)"
  define degs2 where "degs2 = (if n = 0 then degs1 else
    fmupd n ((case fmlookup degs1 n of None \<Rightarrow> 0 | Some m \<Rightarrow> m) + 1) degs1)"
  have one: "fmlookup degs1 d = (if d = D p \<and> d \<noteq> 0
      then (if card {q. D q = d} - 1 = 0 then None else Some (card {q. D q = d} - 1)) else fmlookup degs d)" for d
    using lk by (auto simp: degs1_def)
  have "degree_moved degs (D p) n = Some degs2"
    using False lk [of "D p"] pos by (auto simp: degree_moved_def degs2_def degs1_def)
  moreover have "fmlookup degs2 d = (if d = 0 \<or> card {q. ?D q = d} = 0 then None else Some (card {q. ?D q = d}))" for d
  proof (cases "d = 0")
    case True
    then show ?thesis using one lk by (simp add: degs2_def)
  next
    case d: False
    show ?thesis
    proof (cases "d = n")
      case True
      then show ?thesis
        using d one [of n] lk [of n] cls [OF d] False by (auto simp: degs2_def)
    next
      case neq: False
      then show ?thesis
        using d one [of d] lk [of d] cls [OF d] by (auto simp: degs2_def)
    qed
  qed
  ultimately show ?thesis using fin by (auto simp: histogram_def)
qed

section \<open>The invariant\<close>

text \<open>The member leaves of a list, and the outer leaves of a map of lists.\<close>

definition members :: "ext \<Rightarrow> particle list \<Rightarrow> particle \<rightharpoonup> digest" where
  "members X l a = (if a \<in> set l then Some (axon_member_digest X a) else None)"

definition axon_leaves :: "ext \<Rightarrow> (particle, particle list) fmap \<Rightarrow> particle \<rightharpoonup> digest" where
  "axon_leaves X m p =
     map_option (\<lambda>l. axon_leaf X p (of_nat (length l)) (spec_root X (members X l))) (fmlookup m p)"

definition axon_spec :: "ext \<Rightarrow> (particle, particle list) fmap \<Rightarrow> digest" where
  "axon_spec X m = spec_root X (axon_leaves X m)"

definition list_ok :: "ext \<Rightarrow> particle list option \<Rightarrow> trie option \<Rightarrow> bool" where
  "list_ok X ol oS = (case (ol, oS) of
     (None, None) \<Rightarrow> True
   | (Some l, Some S) \<Rightarrow> l \<noteq> [] \<and> distinct l \<and> trie_ok X S \<and> trie_map S = members X l
   | _ \<Rightarrow> False)"

definition list_len :: "(particle, particle list) fmap \<Rightarrow> particle \<Rightarrow> nat" where
  "list_len m p = (case fmlookup m p of None \<Rightarrow> 0 | Some l \<Rightarrow> length l)"

definition axon_ok :: "ext \<Rightarrow> axon_index \<Rightarrow> bool" where
  "axon_ok X ix \<longleftrightarrow> (\<forall>p. list_ok X (fmlookup (ax_map ix) p) (fmlookup (ax_sets ix) p)) \<and>
     histogram (list_len (ax_map ix)) (ax_degrees ix) \<and> trie_ok X (ax_trie ix) \<and>
     (\<forall>p. p |\<notin>| ax_dirty ix \<longrightarrow> trie_map (ax_trie ix) p = axon_leaves X (ax_map ix) p)"

lemma list_ok_simps [simp]:
  "list_ok X None None" "\<not> list_ok X None (Some S)" "\<not> list_ok X (Some l) None"
  "list_ok X (Some l) (Some S) \<longleftrightarrow> l \<noteq> [] \<and> distinct l \<and> trie_ok X S \<and> trie_map S = members X l"
  by (simp_all add: list_ok_def)

lemma axon_ok_new: "axon_ok X axon_new"
proof -
  have "list_len fmempty = (\<lambda>_. 0)" by (rule ext) (simp add: list_len_def)
  then have "histogram (list_len fmempty) fmempty"
    by (simp add: histogram_def)
  then show ?thesis by (simp add: axon_ok_def axon_new_def trie_new_ok axon_leaves_def)
qed

text \<open>Writing or deleting one entry of a map.\<close>

definition fmput :: "'a \<Rightarrow> 'b option \<Rightarrow> ('a, 'b) fmap \<Rightarrow> ('a, 'b) fmap" where
  "fmput p v m = (case v of None \<Rightarrow> fmdrop p m | Some x \<Rightarrow> fmupd p x m)"

lemma fmlookup_fmput [simp]: "fmlookup (fmput p v m) q = (if q = p then v else fmlookup m q)"
  by (cases v) (simp_all add: fmput_def)

lemma fmput_simps: "fmput p None m = fmdrop p m" "fmput p (Some x) m = fmupd p x m"
  by (simp_all add: fmput_def)

lemma list_len_put: "list_len (fmput p v m) = (list_len m)(p := (case v of None \<Rightarrow> 0 | Some l \<Rightarrow> length l))"
  by (rule ext) (simp add: list_len_def)

text \<open>Replacing the list of one particle, its set and its place in the histogram, and marking it,
  keeps the invariant.\<close>

lemma axon_ok_put:
  assumes ok: "axon_ok X ix" and new: "list_ok X ol oS"
  shows "\<exists>degs. degree_moved (ax_degrees ix) (list_len (ax_map ix) p) (case ol of None \<Rightarrow> 0 | Some l \<Rightarrow> length l) = Some degs \<and>
    (\<forall>ix'. ax_map ix' = fmput p ol (ax_map ix) \<longrightarrow> ax_sets ix' = fmput p oS (ax_sets ix) \<longrightarrow> ax_degrees ix' = degs \<longrightarrow>
       ax_trie ix' = ax_trie ix \<longrightarrow> ax_dirty ix' = finsert p (ax_dirty ix) \<longrightarrow> axon_ok X ix')"
proof -
  have h: "histogram (list_len (ax_map ix)) (ax_degrees ix)" using ok by (simp add: axon_ok_def)
  obtain degs where degs: "degree_moved (ax_degrees ix) (list_len (ax_map ix) p) (case ol of None \<Rightarrow> 0 | Some l \<Rightarrow> length l) = Some degs"
    "histogram (list_len (fmput p ol (ax_map ix))) degs"
    using degree_moved_ok [OF h, of p] unfolding list_len_put by blast
  then show ?thesis
    using ok new by (auto simp: axon_ok_def axon_leaves_def)
qed

text \<open>Replacing a set by another with the same members changes nothing visible.\<close>

lemma axon_ok_set:
  assumes "axon_ok X ix" and "fmlookup (ax_map ix) p = Some l" and "trie_ok X S" and "trie_map S = members X l"
  shows "axon_ok X (ix\<lparr>ax_sets := fmupd p S (ax_sets ix)\<rparr>)"
proof -
  have "list_ok X (fmlookup (ax_map ix) p) (fmlookup (ax_sets ix) p)" using assms(1) by (simp add: axon_ok_def)
  then have "l \<noteq> [] \<and> distinct l" by (cases "fmlookup (ax_sets ix) p") (simp_all add: assms(2))
  then show ?thesis using assms by (auto simp: axon_ok_def)
qed

lemma axon_lookup_cases:
  assumes "axon_ok X ix"
  obtains (absent) "fmlookup (ax_map ix) p = None" "fmlookup (ax_sets ix) p = None"
  | (present) l S where "fmlookup (ax_map ix) p = Some l" "fmlookup (ax_sets ix) p = Some S"
      "l \<noteq> []" "distinct l" "trie_ok X S" "trie_map S = members X l"
proof -
  have "list_ok X (fmlookup (ax_map ix) p) (fmlookup (ax_sets ix) p)" using assms by (simp add: axon_ok_def)
  then show thesis
    using that by (cases "fmlookup (ax_map ix) p"; cases "fmlookup (ax_sets ix) p") auto
qed

lemma members_Nil: "members X [] = Map.empty"
  by (rule ext) (simp add: members_def)

lemma members_snoc: "(members X l)(a \<mapsto> axon_member_digest X a) = members X (l @ [a])"
  by (rule ext) (simp add: members_def)

lemma members_filter: "(members X l)(a := None) = members X (filter (\<lambda>b. b \<noteq> a) l)"
  by (rule ext) (auto simp: members_def)

lemma members_absorb: "a \<in> set l \<Longrightarrow> (members X l)(a \<mapsto> axon_member_digest X a) = members X l"
  by (rule ext) (simp add: members_def)

lemma members_None: "members X l a = None \<longleftrightarrow> a \<notin> set l"
  by (simp add: members_def)

section \<open>What the operations do\<close>

definition set_room :: "axon_index \<Rightarrow> particle \<Rightarrow> nat" where
  "set_room ix p = (case fmlookup (ax_sets ix) p of None \<Rightarrow> 0 | Some S \<Rightarrow> length (tr_nodes S))"

text \<open>The arena the outer trie needs at most once the pending lists are in it.\<close>

abbreviation axon_load :: "axon_index \<Rightarrow> nat" where
  "axon_load ix \<equiv> length (tr_nodes (ax_trie ix)) + 2 * axon_pending ix"

abbreviation axons :: "axon_index \<Rightarrow> particle \<Rightarrow> particle list" where
  "axons ix p \<equiv> (case fmlookup (ax_map ix) p of None \<Rightarrow> [] | Some l \<Rightarrow> l)"

lemma axon_add_ok:
  assumes ok: "axon_ok X ix" and room: "set_room ix p + 2 \<le> 2 ^ 32"
  shows "\<exists>ix'. axon_add X ix p a = Some (ix', a \<notin> set (axons ix p)) \<and> axon_ok X ix' \<and>
    ax_map ix' = (if a \<in> set (axons ix p) then ax_map ix else fmupd p (axons ix p @ [a]) (ax_map ix))"
  using ok
proof (cases rule: axon_lookup_cases [where p = p])
  case absent
  obtain S where S: "trie_set trie_new a (axon_member_digest X a) = Some (S, True)" "trie_ok X S"
    "trie_map S = [a \<mapsto> axon_member_digest X a]"
    using am.put_law [of X trie_new a "axon_member_digest X a"] by (auto simp: trie_new_ok new_nodes)
  have "trie_map S = members X [a]" using S(3) members_snoc [of X "[]" a] members_Nil by simp
  then have "list_ok X (Some [a]) (Some S)" using S(2) by simp
  from axon_ok_put [OF ok this, of p] absent S(1) show ?thesis
    by (auto simp: axon_add_def Let_def fmput_simps list_len_def axon_touched_def)
next
  case (present l S)
  have room': "length (tr_nodes S) + 2 \<le> 2 ^ 32" using room present(2) by (simp add: set_room_def)
  obtain S' where S': "trie_set S a (axon_member_digest X a) = Some (S', a \<notin> set l)" "trie_ok X S'"
    "trie_map S' = (members X l)(a \<mapsto> axon_member_digest X a)"
    using am.put_law [OF present(5) room', of a "axon_member_digest X a"] present(6) by (auto simp: members_None)
  show ?thesis
  proof (cases "a \<in> set l")
    case True
    then have "axon_ok X (ix\<lparr>ax_sets := fmupd p S' (ax_sets ix)\<rparr>)"
      using axon_ok_set [OF ok present(1) S'(2)] S'(3) by (simp add: members_absorb)
    then show ?thesis
      using True present S'(1) by (simp add: axon_add_def Let_def)
  next
    case False
    have "list_ok X (Some (l @ [a])) (Some S')"
      using S' present False by (simp add: members_snoc)
    from axon_ok_put [OF ok this, of p] present S'(1) False show ?thesis
      by (auto simp: axon_add_def Let_def fmput_simps list_len_def axon_touched_def)
  qed
qed

lemma axon_add_room:
  assumes ok: "axon_ok X ix" and room: "set_room ix p + 2 \<le> 2 ^ 32" and add: "axon_add X ix p a = Some (ix', b)"
  shows "set_room ix' q \<le> set_room ix q + (if q = p then 2 else 0)"
proof -
  let ?S = "case fmlookup (ax_sets ix) p of None \<Rightarrow> trie_new | Some s \<Rightarrow> s"
  have S: "trie_ok X ?S" "length (tr_nodes ?S) = set_room ix p"
    using ok by (cases rule: axon_lookup_cases [where p = p]; simp add: trie_new_ok set_room_def new_nodes)+
  then obtain S' new where S': "trie_set ?S a (axon_member_digest X a) = Some (S', new)"
    "length (tr_nodes S') \<le> set_room ix p + 2"
    using am.put_law [OF S(1), of a "axon_member_digest X a"] room by auto
  have "ax_sets ix' = fmupd p S' (ax_sets ix)"
    using add S'(1) by (auto simp: axon_add_def Let_def axon_touched_def split: Option.bind_splits if_splits)
  then show ?thesis using S'(2) by (simp add: set_room_def)
qed

lemma axon_remove_ok:
  assumes ok: "axon_ok X ix"
  shows "\<exists>ix'. axon_remove ix p = Some (ix', fmlookup (ax_map ix) p) \<and> axon_ok X ix' \<and> ax_map ix' = fmdrop p (ax_map ix)
    \<and> fmlookup (ax_sets ix') p = None"
  using ok
proof (cases rule: axon_lookup_cases [where p = p])
  case absent
  then show ?thesis using ok by (auto simp: axon_remove_def fmdrop_absent)
next
  case (present l S)
  from axon_ok_put [OF ok list_ok_simps(1), of p] present show ?thesis
    by (auto simp: axon_remove_def fmput_simps list_len_def axon_touched_def)
qed

lemma axon_dedup_ok:
  "trie_ok X S \<Longrightarrow> trie_map S = members X l \<Longrightarrow> length (tr_nodes S) + 2 * length as \<le> 2 ^ 32 \<Longrightarrow>
   \<exists>S' r. axon_dedup X S as = Some (S', r) \<and> trie_ok X S' \<and> trie_map S' = members X (l @ r) \<and>
     (distinct l \<longrightarrow> distinct (l @ r)) \<and> set (l @ r) = set l \<union> set as \<and> (distinct (l @ as) \<longrightarrow> r = as)"
proof (induction as arbitrary: S l)
  case (Cons a as)
  have room: "length (tr_nodes S) + 2 \<le> 2 ^ 32" using Cons.prems(3) by simp
  obtain S1 where S1: "trie_set S a (axon_member_digest X a) = Some (S1, a \<notin> set l)" "trie_ok X S1"
    "trie_map S1 = (members X l)(a \<mapsto> axon_member_digest X a)" "length (tr_nodes S1) \<le> length (tr_nodes S) + 2"
    using am.put_law [OF Cons.prems(1) room, of a "axon_member_digest X a"] Cons.prems(2) by (auto simp: members_None)
  let ?l = "if a \<in> set l then l else l @ [a]"
  have m: "trie_map S1 = members X ?l" using S1(3) members_absorb members_snoc by simp
  have "length (tr_nodes S1) + 2 * length as \<le> 2 ^ 32" using S1(4) Cons.prems(3) by simp
  from Cons.IH [OF S1(2) m this] obtain S' r where "axon_dedup X S1 as = Some (S', r)" "trie_ok X S'"
    "trie_map S' = members X (?l @ r)" "distinct ?l \<longrightarrow> distinct (?l @ r)" "set (?l @ r) = set ?l \<union> set as"
    "distinct (?l @ as) \<longrightarrow> r = as"
    by blast
  then show ?case
    using S1(1) by (intro exI [of _ S'] exI [of _ "if a \<in> set l then r else a # r"]) (auto split: if_splits)
qed simp

lemma axon_insert_ok:
  assumes ok: "axon_ok X ix" and room: "2 * length ls \<le> 2 ^ 32"
  shows "\<exists>ix' r. axon_insert X ix p ls = Some (ix', fmlookup (ax_map ix) p) \<and> axon_ok X ix' \<and>
    distinct r \<and> set r = set ls \<and> (distinct ls \<longrightarrow> r = ls) \<and>
    ax_map ix' = fmput p (if ls = [] then None else Some r) (ax_map ix)"
proof -
  obtain ix1 where r: "axon_remove ix p = Some (ix1, fmlookup (ax_map ix) p)" "axon_ok X ix1" "ax_map ix1 = fmdrop p (ax_map ix)"
    "fmlookup (ax_sets ix1) p = None"
    using axon_remove_ok [OF ok] by blast
  obtain S r where d: "axon_dedup X trie_new ls = Some (S, r)" "trie_ok X S" "trie_map S = members X r"
    "distinct r" "set r = set ls" "distinct ls \<longrightarrow> r = ls"
    using axon_dedup_ok [of X trie_new "[]" ls] room by (auto simp: trie_new_ok members_Nil new_nodes)
  show ?thesis
  proof (cases "ls = []")
    case True
    then have "r = []" using d(5) by simp
    then show ?thesis using True r d by (intro exI [of _ ix1] exI [of _ r]) (simp add: axon_insert_def fmput_simps)
  next
    case False
    then have "r \<noteq> []" using d(5) by auto
    then have "list_ok X (Some r) (Some S)" using d by simp
    from axon_ok_put [OF r(2) this, of p] obtain degs where degs: "degree_moved (ax_degrees ix1) 0 (length r) = Some degs"
      "\<And>ix'. ax_map ix' = fmupd p r (ax_map ix1) \<Longrightarrow> ax_sets ix' = fmupd p S (ax_sets ix1) \<Longrightarrow> ax_degrees ix' = degs \<Longrightarrow>
        ax_trie ix' = ax_trie ix1 \<Longrightarrow> ax_dirty ix' = finsert p (ax_dirty ix1) \<Longrightarrow> axon_ok X ix'"
      using r(3) by (auto simp: fmput_simps list_len_def)
    let ?ix = "axon_touched (ix1\<lparr>ax_degrees := degs, ax_map := fmupd p r (ax_map ix1), ax_sets := fmupd p S (ax_sets ix1)\<rparr>) p"
    have "axon_insert X ix p ls = Some (?ix, fmlookup (ax_map ix) p)"
      using r d degs(1) \<open>r \<noteq> []\<close> by (simp add: axon_insert_def)
    moreover have "axon_ok X ?ix" by (rule degs(2)) (simp_all add: axon_touched_def)
    moreover have "ax_map ?ix = fmput p (Some r) (ax_map ix)"
      by (rule fmap_ext) (simp add: axon_touched_def r(3))
    ultimately show ?thesis using False d by (intro exI [of _ ?ix] exI [of _ r]) simp
  qed
qed

lemma axon_remove_axon_ok:
  assumes ok: "axon_ok X ix"
  shows "\<exists>ix'. axon_remove_axon ix p a = Some (ix', a \<in> set (axons ix p)) \<and> axon_ok X ix' \<and>
    ax_map ix' = (if a \<in> set (axons ix p)
      then fmput p (case filter (\<lambda>b. b \<noteq> a) (axons ix p) of [] \<Rightarrow> None | l \<Rightarrow> Some l) (ax_map ix) else ax_map ix)"
  using ok
proof (cases rule: axon_lookup_cases [where p = p])
  case absent
  then show ?thesis using ok by (simp add: axon_remove_axon_def)
next
  case (present l S)
  obtain S' where S': "trie_remove S a = Some (S', a \<in> set l)" "trie_ok X S'" "trie_map S' = members X (filter (\<lambda>b. b \<noteq> a) l)"
    using am.del_law [OF present(5), of a] present(6) by (auto simp: members_None members_filter)
  show ?thesis
  proof (cases "a \<in> set l")
    case False
    then have "filter (\<lambda>b. b \<noteq> a) l = l" by (auto intro: filter_True)
    then have "axon_ok X (ix\<lparr>ax_sets := fmupd p S' (ax_sets ix)\<rparr>)"
      using axon_ok_set [OF ok present(1) S'(2)] S'(3) by simp
    then show ?thesis using False present S'(1) by (simp add: axon_remove_axon_def Let_def)
  next
    case True
    let ?l = "filter (\<lambda>b. b \<noteq> a) l"
    let ?ol = "if ?l = [] then None else Some ?l" and ?oS = "if ?l = [] then None else Some S'"
    have "list_ok X ?ol ?oS" using S' present(4) by simp
    from axon_ok_put [OF ok this, of p] obtain degs where
      degs: "degree_moved (ax_degrees ix) (length l) (length ?l) = Some degs"
      "\<And>ix'. ax_map ix' = fmput p ?ol (ax_map ix) \<Longrightarrow> ax_sets ix' = fmput p ?oS (ax_sets ix) \<Longrightarrow> ax_degrees ix' = degs \<Longrightarrow>
        ax_trie ix' = ax_trie ix \<Longrightarrow> ax_dirty ix' = finsert p (ax_dirty ix) \<Longrightarrow> axon_ok X ix'"
      using present(1) by (auto simp: list_len_def split: if_splits)
    define ix1 where "ix1 = ix\<lparr>ax_sets := fmupd p S' (ax_sets ix)\<rparr>"
    define ix2 where "ix2 = (if length ?l = 0 then ix1\<lparr>ax_map := fmdrop p (ax_map ix1), ax_sets := fmdrop p (ax_sets ix1)\<rparr>
       else ix1\<lparr>ax_map := fmupd p ?l (ax_map ix1)\<rparr>)"
    let ?ix = "axon_touched (ix2\<lparr>ax_degrees := degs\<rparr>) p"
    have "axon_remove_axon ix p a = Some (?ix, True)"
      using present(1,2) S'(1) True degs(1)
      by (cases "?l = []") (simp_all add: axon_remove_axon_def Let_def ix1_def ix2_def)
    moreover have "axon_ok X ?ix"
    proof (rule degs(2))
      show "ax_sets ?ix = fmput p ?oS (ax_sets ix)"
        by (rule fmap_ext) (simp add: axon_touched_def ix2_def ix1_def)
    qed (auto simp: axon_touched_def ix2_def ix1_def fmput_simps)
    moreover have "ax_map ?ix = fmput p (case ?l of [] \<Rightarrow> None | l \<Rightarrow> Some l) (ax_map ix)"
      by (auto simp: axon_touched_def ix2_def ix1_def fmput_simps split: list.splits)
    ultimately show ?thesis using True present(1) by (intro exI [of _ ?ix]) simp
  qed
qed

lemma drop_members_ok:
  "trie_ok X S \<Longrightarrow> trie_map S = members X l \<Longrightarrow>
   \<exists>S'. axon_drop_members S as = Some S' \<and> trie_ok X S' \<and> trie_map S' = members X (filter (\<lambda>b. b \<notin> set as) l)"
proof (induction as arbitrary: S l)
  case (Cons a as)
  obtain S1 where S1: "trie_remove S a = Some (S1, a \<in> set l)" "trie_ok X S1" "trie_map S1 = members X (filter (\<lambda>b. b \<noteq> a) l)"
    using am.del_law [OF Cons.prems(1), of a] Cons.prems(2) by (auto simp: members_None members_filter)
  from Cons.IH [OF S1(2,3)] S1(1) show ?case by (auto simp: conj_commute)
qed simp

lemma filter_drop_distinct: "distinct l \<Longrightarrow> filter (\<lambda>b. b \<notin> set (drop n l)) l = take n l"
proof -
  assume d: "distinct l"
  then have "set (take n l) \<inter> set (drop n l) = {}" by (rule set_take_disj_set_drop_if_distinct) simp
  then have "filter (\<lambda>b. b \<notin> set (drop n l)) (take n l @ drop n l) = take n l"
    by (auto simp: filter_append simp del: append_take_drop_id intro: filter_True)
  then show ?thesis by simp
qed

lemma axon_truncate_ok:
  assumes ok: "axon_ok X ix"
  shows "\<exists>ix'. axon_truncate ix p n = Some (ix', length (axons ix p) - n) \<and> axon_ok X ix' \<and>
    ax_map ix' = (if length (axons ix p) \<le> n then ax_map ix
      else fmput p (if n = 0 then None else Some (take n (axons ix p))) (ax_map ix))"
  using ok
proof (cases rule: axon_lookup_cases [where p = p])
  case absent
  then show ?thesis using ok by (simp add: axon_truncate_def axon_degree_def)
next
  case (present l S)
  then have deg: "axon_degree ix p = length l" by (simp add: axon_degree_def)
  consider "length l \<le> n" | "n = 0" "l \<noteq> []" | "0 < n" "n < length l" using present(3) by force
  then show ?thesis
  proof cases
    case 1
    then show ?thesis using ok present(1) deg by (simp add: axon_truncate_def)
  next
    case 2
    then show ?thesis
      using axon_remove_ok [OF ok, of p] present(1) deg by (auto simp: axon_truncate_def fmput_simps)
  next
    case 3
    obtain S' where S': "axon_drop_members S (drop n l) = Some S'" "trie_ok X S'" "trie_map S' = members X (take n l)"
      using drop_members_ok [OF present(5,6), of "drop n l"] filter_drop_distinct [OF present(4)] by auto
    have "list_ok X (Some (take n l)) (Some S')" using S' 3 present(4) by auto
    from axon_ok_put [OF ok this, of p] 3 present S'(1) deg show ?thesis
      by (auto simp: axon_truncate_def fmput_simps list_len_def axon_touched_def min_def)
  qed
qed

section \<open>The commitment and the largest degree\<close>

lemma axon_flush_loop_ok:
  assumes "\<forall>p. list_ok X (fmlookup m p) (fmlookup sets p)" and "trie_ok X T"
    and "length (tr_nodes T) + 2 * length ps \<le> 2 ^ 32"
  shows "\<exists>sets' T'. axon_flush_loop X m sets T ps = Some (sets', T') \<and> (\<forall>p. list_ok X (fmlookup m p) (fmlookup sets' p)) \<and>
    trie_ok X T' \<and> (\<forall>p. trie_map T' p = (if p \<in> set ps then axon_leaves X m p else trie_map T p)) \<and>
    length (tr_nodes T') \<le> length (tr_nodes T) + 2 * length ps \<and>
    (\<forall>p. map_option (\<lambda>S. length (tr_nodes S)) (fmlookup sets' p) = map_option (\<lambda>S. length (tr_nodes S)) (fmlookup sets p))"
  using assms
proof (induction ps arbitrary: sets T)
  case (Cons p ps)
  have lo: "list_ok X (fmlookup m p) (fmlookup sets p)" using Cons.prems(1) by blast
  show ?case
  proof (cases "fmlookup m p")
    case None
    then have s: "fmlookup sets p = None" using lo by (cases "fmlookup sets p") auto
    obtain T1 b where T1: "trie_remove T p = Some (T1, b)" "trie_ok X T1" "trie_map T1 = (trie_map T)(p := None)"
      "length (tr_nodes T1) = length (tr_nodes T)"
      using am.del_law [OF Cons.prems(2), of p] by blast
    have "length (tr_nodes T1) + 2 * length ps \<le> 2 ^ 32" using T1(4) Cons.prems(3) by simp
    from Cons.IH [OF Cons.prems(1) T1(2) this] T1 None s show ?thesis
      by (fastforce simp: axon_leaves_def)
  next
    case (Some l)
    then obtain S where S: "fmlookup sets p = Some S" "trie_ok X S" "trie_map S = members X l" "l \<noteq> []" "distinct l"
      using lo by (cases "fmlookup sets p") auto
    obtain S' where S': "trie_root X S = Some (S', spec_root X (members X l))" "trie_ok X S'" "trie_map S' = members X l"
      "length (tr_nodes S') = length (tr_nodes S)"
      using am.commit_law [OF S(2)] S(3) by auto
    let ?d = "axon_leaf X p (of_nat (length l)) (spec_root X (members X l))"
    have room: "length (tr_nodes T) + 2 \<le> 2 ^ 32" using Cons.prems(3) by simp
    obtain T1 b where T1: "trie_set T p ?d = Some (T1, b)" "trie_ok X T1" "trie_map T1 = (trie_map T)(p \<mapsto> ?d)"
      "length (tr_nodes T1) \<le> length (tr_nodes T) + 2"
      using am.put_law [OF Cons.prems(2) room, of p ?d] by blast
    have "length (tr_nodes T1) + 2 * length ps \<le> 2 ^ 32" using T1(4) Cons.prems(3) by simp
    moreover have "\<forall>q. list_ok X (fmlookup m q) (fmlookup (fmupd p S' sets) q)"
      using Cons.prems(1) Some S S' by simp
    ultimately obtain sets' T' where r: "axon_flush_loop X m (fmupd p S' sets) T1 ps = Some (sets', T')"
      "\<forall>q. list_ok X (fmlookup m q) (fmlookup sets' q)" "trie_ok X T'"
      "\<forall>q. trie_map T' q = (if q \<in> set ps then axon_leaves X m q else trie_map T1 q)"
      "length (tr_nodes T') \<le> length (tr_nodes T1) + 2 * length ps"
      "\<forall>q. map_option (\<lambda>S. length (tr_nodes S)) (fmlookup sets' q) =
        map_option (\<lambda>S. length (tr_nodes S)) (fmlookup (fmupd p S' sets) q)"
      using Cons.IH [of "fmupd p S' sets" T1] T1(2) by blast
    then show ?thesis using Some S(1) S'(1,4) T1(1,3,4) by (auto simp: axon_leaves_def)
  qed
qed simp

lemma axon_flush_ok:
  assumes ok: "axon_ok X ix" and room: "length (tr_nodes (ax_trie ix)) + 2 * axon_pending ix \<le> 2 ^ 32"
  obtains sets T where "axon_flush X ix = Some (ix\<lparr>ax_sets := sets, ax_trie := T, ax_dirty := {||}\<rparr>)" "trie_ok X T"
    "trie_map T = axon_leaves X (ax_map ix)" "axon_ok X (ix\<lparr>ax_sets := sets, ax_trie := T, ax_dirty := {||}\<rparr>)"
    "length (tr_nodes T) \<le> axon_load ix" "\<forall>p. set_room (ix\<lparr>ax_sets := sets, ax_trie := T, ax_dirty := {||}\<rparr>) p = set_room ix p"
proof -
  let ?ps = "sorted_list_of_fset (ax_dirty ix)"
  have ps: "set ?ps = fset (ax_dirty ix)" "length ?ps = axon_pending ix"
    by (simp_all add: sorted_list_of_fset.rep_eq axon_pending_def fcard.rep_eq)
  have pre: "\<forall>p. list_ok X (fmlookup (ax_map ix) p) (fmlookup (ax_sets ix) p)" "trie_ok X (ax_trie ix)"
    using ok by (simp_all add: axon_ok_def)
  obtain sets T where r: "axon_flush_loop X (ax_map ix) (ax_sets ix) (ax_trie ix) ?ps = Some (sets, T)"
    "\<forall>p. list_ok X (fmlookup (ax_map ix) p) (fmlookup sets p)" "trie_ok X T"
    "\<forall>p. trie_map T p = (if p \<in> set ?ps then axon_leaves X (ax_map ix) p else trie_map (ax_trie ix) p)"
    "length (tr_nodes T) \<le> axon_load ix"
    "\<forall>p. map_option (\<lambda>S. length (tr_nodes S)) (fmlookup sets p) = map_option (\<lambda>S. length (tr_nodes S)) (fmlookup (ax_sets ix) p)"
    using axon_flush_loop_ok [OF pre, of ?ps] room unfolding ps(2) by blast
  have sr: "set_room (ix\<lparr>ax_sets := sets, ax_trie := T, ax_dirty := {||}\<rparr>) p = set_room ix p" for p
    using r(6) [rule_format, of p] by (auto simp: set_room_def split: option.splits)
  have "trie_map T p = axon_leaves X (ax_map ix) p" for p
    using r(4) ok ps(1) by (auto simp: axon_ok_def)
  then have "trie_map T = axon_leaves X (ax_map ix)" by blast
  then show ?thesis
    using r ok sr by (intro that [of T sets]) (simp_all add: axon_flush_def axon_ok_def)
qed

lemma last_sorted_Max: "sorted xs \<Longrightarrow> xs \<noteq> [] \<Longrightarrow> last xs = Max (set xs)" for xs :: "'a::linorder list"
  by (induction xs rule: rev_induct) (auto simp: sorted_append intro!: Max_eqI [symmetric])

lemma axon_max_degree_ok:
  assumes "axon_ok X ix"
  shows "axon_max_degree ix = Max (insert 0 (list_len (ax_map ix) ` UNIV))"
    and "finite (list_len (ax_map ix) ` UNIV)"
proof -
  let ?D = "list_len (ax_map ix)"
  have h: "histogram ?D (ax_degrees ix)" using assms by (simp add: axon_ok_def)
  have "range ?D \<subseteq> insert 0 (?D ` {p. ?D p \<noteq> 0})" by auto
  moreover have "finite {p. ?D p \<noteq> 0}" using h by (simp add: histogram_def)
  ultimately show fin: "finite (range ?D)" by (meson finite_imageI finite_insert finite_subset)
  have dom: "d |\<in>| fmdom (ax_degrees ix) \<longleftrightarrow> d \<noteq> 0 \<and> d \<in> range ?D" for d
    using h histogram_class_finite [OF h, of d] by (auto simp: histogram_def fmlookup_dom_iff card_eq_0_iff image_iff)
  let ?ds = "sorted_list_of_fset (fmdom (ax_degrees ix))"
  have "d \<in> set ?ds \<longleftrightarrow> d \<noteq> 0 \<and> d \<in> range ?D" for d
    unfolding dom [of d, symmetric] by (simp add: sorted_list_of_fset.rep_eq)
  then have set: "set ?ds = range ?D - {0}" by blast
  show "axon_max_degree ix = Max (insert 0 (range ?D))"
  proof (cases "?ds = []")
    case True
    then have "range ?D \<subseteq> {0}" using set by auto
    then have eq: "insert 0 (range ?D) = {0}" by auto
    show ?thesis unfolding eq using True by (simp add: axon_max_degree_def Let_def)
  next
    case False
    have "sorted ?ds" by (simp add: sorted_list_of_fset.rep_eq)
    then have "last ?ds = Max (set ?ds)"
      using False by (rule last_sorted_Max)
    also have "\<dots> = Max (insert 0 (range ?D))"
    proof -
      have "insert 0 (range ?D) = insert 0 (set ?ds)" using set by auto
      moreover have "Max (insert 0 (set ?ds)) = Max (set ?ds)"
        using False Max_insert [of "set ?ds" 0] by (metis List.finite_set max_0L set_empty2)
      ultimately show ?thesis by simp
    qed
    finally show ?thesis using False by (simp add: axon_max_degree_def Let_def)
  qed
qed

text \<open>Every way to change or to read the index.\<close>

inductive axon_step :: "ext \<Rightarrow> axon_index \<Rightarrow> axon_index \<Rightarrow> bool" for X where
  axon_step_add: "set_room ix p + 2 \<le> 2 ^ 32 \<Longrightarrow> axon_add X ix p a = Some (ix', b) \<Longrightarrow> axon_step X ix ix'"
| axon_step_insert: "2 * length ls \<le> 2 ^ 32 \<Longrightarrow> axon_insert X ix p ls = Some (ix', old) \<Longrightarrow> axon_step X ix ix'"
| axon_step_remove: "axon_remove ix p = Some (ix', old) \<Longrightarrow> axon_step X ix ix'"
| axon_step_remove_axon: "axon_remove_axon ix p a = Some (ix', b) \<Longrightarrow> axon_step X ix ix'"
| axon_step_truncate: "axon_truncate ix p n = Some (ix', dropped) \<Longrightarrow> axon_step X ix ix'"
| axon_step_clear: "axon_step X ix (axon_clear ix)"
| axon_step_commitment: "length (tr_nodes (ax_trie ix)) + 2 * axon_pending ix \<le> 2 ^ 32 \<Longrightarrow>
    axon_commitment X ix = Some (ix', d) \<Longrightarrow> axon_step X ix ix'"
| axon_step_set_root: "axon_set_root X ix p = Some (ix', r) \<Longrightarrow> axon_step X ix ix'"

lemma axon_commitment_ok:
  assumes "axon_ok X ix" and "length (tr_nodes (ax_trie ix)) + 2 * axon_pending ix \<le> 2 ^ 32"
  shows "\<exists>ix'. axon_commitment X ix = Some (ix', axon_spec X (ax_map ix)) \<and> axon_ok X ix' \<and>
    ax_map ix' = ax_map ix \<and> axon_pending ix' = 0 \<and> axon_load ix' \<le> axon_load ix \<and> (\<forall>p. set_room ix' p = set_room ix p)"
proof -
  obtain sets T where f: "axon_flush X ix = Some (ix\<lparr>ax_sets := sets, ax_trie := T, ax_dirty := {||}\<rparr>)" "trie_ok X T"
    "trie_map T = axon_leaves X (ax_map ix)" "axon_ok X (ix\<lparr>ax_sets := sets, ax_trie := T, ax_dirty := {||}\<rparr>)"
    "length (tr_nodes T) \<le> axon_load ix" "\<forall>p. set_room (ix\<lparr>ax_sets := sets, ax_trie := T, ax_dirty := {||}\<rparr>) p = set_room ix p"
    by (rule axon_flush_ok [OF assms])
  obtain T' where "trie_root X T = Some (T', axon_spec X (ax_map ix))" "trie_ok X T'" "trie_map T' = trie_map T"
    "length (tr_nodes T') = length (tr_nodes T)"
    using am.commit_law [OF f(2)] f(3) by (auto simp: axon_spec_def)
  then show ?thesis using f by (simp add: axon_commitment_def axon_ok_def axon_pending_def fcard.rep_eq set_room_def)
qed

lemma axon_set_root_ok:
  assumes "axon_ok X ix"
  shows "\<exists>ix'. axon_set_root X ix p = Some (ix', map_option (\<lambda>l. spec_root X (members X l)) (fmlookup (ax_map ix) p)) \<and>
    axon_ok X ix' \<and> ax_map ix' = ax_map ix"
  using assms
proof (cases rule: axon_lookup_cases [where p = p])
  case absent
  then show ?thesis using assms by (simp add: axon_set_root_def)
next
  case (present l S)
  then show ?thesis
    using am.commit_law [OF present(5)] axon_ok_set [OF assms present(1)] by (auto simp: axon_set_root_def)
qed

lemma axon_step_ok:
  assumes "axon_step X ix ix'" and "axon_ok X ix"
  shows "axon_ok X ix'"
  using assms
proof induction
  case (axon_step_add ix p a ix' b)
  then show ?case using axon_add_ok [of X ix p a] by auto
next
  case (axon_step_insert ls ix p ix' old)
  then show ?case using axon_insert_ok [of X ix ls p] by auto
next
  case (axon_step_remove ix p ix' old)
  then show ?case using axon_remove_ok [of X ix p] by auto
next
  case (axon_step_remove_axon ix p a ix' b)
  then show ?case using axon_remove_axon_ok [of X ix p a] by auto
next
  case (axon_step_truncate ix p n ix' dropped)
  then show ?case using axon_truncate_ok [of X ix p n] by auto
next
  case (axon_step_clear ix)
  then show ?case using axon_ok_new by (simp add: axon_clear_def axon_new_def)
next
  case (axon_step_commitment ix ix' d)
  then show ?case using axon_commitment_ok [of X ix] by auto
next
  case (axon_step_set_root ix p ix' r)
  then show ?case using axon_set_root_ok [of X ix p] by auto
qed

lemma axon_reachable_ok: "(axon_step X)\<^sup>*\<^sup>* axon_new ix \<Longrightarrow> axon_ok X ix"
  by (induction rule: rtranclp_induct) (auto intro: axon_ok_new axon_step_ok)

lemma axon_add_load: "axon_add X ix p a = Some (ix', b) \<Longrightarrow> axon_load ix' \<le> axon_load ix + 2"
  using fcard_finsert_le [of p "ax_dirty ix"]
  by (auto simp: axon_add_def axon_touched_def axon_pending_def Let_def split: Option.bind_splits if_splits)

text \<open>The cached flat commitment: an operation drops it or leaves the lists alone.\<close>

definition axon_legacy_ok :: "((particle, particle list) fmap \<Rightarrow> particle) \<Rightarrow> axon_index \<Rightarrow> bool" where
  "axon_legacy_ok f ix \<longleftrightarrow> (\<forall>c. ax_legacy ix = Some c \<longrightarrow> c = f (ax_map ix))"

lemma axon_legacy_keep:
  "axon_legacy_ok f ix \<Longrightarrow> ax_legacy ix' = None \<or> ax_legacy ix' = ax_legacy ix \<and> ax_map ix' = ax_map ix \<Longrightarrow>
    axon_legacy_ok f ix'"
  by (auto simp: axon_legacy_ok_def)

lemma axon_remove_legacy: "axon_remove ix p = Some (ix', r) \<Longrightarrow> axon_legacy_ok f ix \<Longrightarrow> axon_legacy_ok f ix'"
  by (erule axon_legacy_keep)
    (auto simp: axon_remove_def axon_touched_def split: option.splits Option.bind_splits)

lemma axon_add_legacy: "axon_add X ix p a = Some (ix', b) \<Longrightarrow> axon_legacy_ok f ix \<Longrightarrow> axon_legacy_ok f ix'"
  by (erule axon_legacy_keep)
    (auto simp: axon_add_def axon_touched_def Let_def split: option.splits Option.bind_splits if_splits)

lemma axon_remove_axon_legacy: "axon_remove_axon ix p a = Some (ix', b) \<Longrightarrow> axon_legacy_ok f ix \<Longrightarrow> axon_legacy_ok f ix'"
  by (erule axon_legacy_keep)
    (auto simp: axon_remove_axon_def axon_touched_def Let_def split: option.splits Option.bind_splits if_splits)

lemma axon_truncate_legacy:
  assumes "axon_truncate ix p n = Some (ix', d)" and "axon_legacy_ok f ix"
  shows "axon_legacy_ok f ix'"
proof (cases "axon_degree ix p \<le> n \<or> n = 0")
  case True
  then show ?thesis using assms axon_remove_legacy
    by (auto simp: axon_truncate_def Let_def split: Option.bind_splits if_splits)
next
  case False
  then have "ax_legacy ix' = None"
    using assms(1) by (auto simp: axon_truncate_def Let_def axon_touched_def split: Option.bind_splits)
  then show ?thesis by (simp add: axon_legacy_ok_def)
qed

lemma axon_insert_legacy:
  assumes "axon_insert X ix p ls = Some (ix', old)" and "axon_legacy_ok f ix"
  shows "axon_legacy_ok f ix'"
proof -
  obtain ix1 old1 S r where r: "axon_remove ix p = Some (ix1, old1)" "axon_dedup X trie_new ls = Some (S, r)"
    using assms(1) by (auto simp: axon_insert_def split: Option.bind_splits)
  then show ?thesis
    using axon_remove_legacy [OF r(1) assms(2)] assms(1)
    by (auto simp: axon_insert_def axon_touched_def axon_legacy_ok_def split: Option.bind_splits if_splits)
qed

lemma axon_commitment_legacy:
  assumes "axon_commitment X ix = Some (ix', d)"
  shows "ax_map ix' = ax_map ix \<and> ax_legacy ix' = ax_legacy ix"
  using assms by (auto simp: axon_commitment_def axon_flush_def split: Option.bind_splits)

lemma axon_legacy_commitment_ok:
  assumes "axon_legacy_ok f ix"
  shows "\<exists>ix'. axon_legacy_commitment f ix = (ix', f (ax_map ix)) \<and> axon_legacy_ok f ix' \<and> ax_map ix' = ax_map ix \<and>
    (axon_ok X ix \<longrightarrow> axon_ok X ix')"
  using assms by (auto simp: axon_legacy_commitment_def axon_legacy_ok_def axon_ok_def Let_def split: option.splits)

section \<open>Properties\<close>

text \<open>After any sequence of operations the index commits to exactly the lists it shows: the commitment read
  returns the root over (degree, root of the set of ids) of every non-empty list, the lists hold no
  repeated id, and \<open>max_degree\<close>, read off the histogram, is the length of the longest list.\<close>

theorem axon_index_current:
  assumes "(axon_step X)\<^sup>*\<^sup>* axon_new ix"
    and "length (tr_nodes (ax_trie ix)) + 2 * axon_pending ix \<le> 2 ^ 32"
  shows "(\<exists>ix'. axon_commitment X ix = Some (ix', axon_spec X (ax_map ix)) \<and> ax_map ix' = ax_map ix) \<and>
    (\<forall>p l. fmlookup (ax_map ix) p = Some l \<longrightarrow> l \<noteq> [] \<and> distinct l \<and> length l \<le> axon_max_degree ix) \<and>
    (axon_max_degree ix = 0 \<or> (\<exists>p l. fmlookup (ax_map ix) p = Some l \<and> length l = axon_max_degree ix))"
proof (intro conjI allI impI)
  have ok: "axon_ok X ix" using assms(1) by (rule axon_reachable_ok)
  note mx = axon_max_degree_ok [OF ok]
  show "\<exists>ix'. axon_commitment X ix = Some (ix', axon_spec X (ax_map ix)) \<and> ax_map ix' = ax_map ix"
    using axon_commitment_ok [OF ok assms(2)] by blast
  show "l \<noteq> []" "distinct l" if "fmlookup (ax_map ix) p = Some l" for p l
    using that by (rule_tac axon_lookup_cases [OF ok, of p]; simp)+
  show "length l \<le> axon_max_degree ix" if "fmlookup (ax_map ix) p = Some l" for p l
  proof -
    have "list_len (ax_map ix) p = length l" using that by (simp add: list_len_def)
    then show ?thesis unfolding mx(1) using mx(2) by (metis Max_ge finite_insert insertI2 rangeI)
  qed
  have "axon_max_degree ix \<in> insert 0 (range (list_len (ax_map ix)))"
    unfolding mx(1) using mx(2) by (intro Max_in) auto
  then show "axon_max_degree ix = 0 \<or> (\<exists>p l. fmlookup (ax_map ix) p = Some l \<and> length l = axon_max_degree ix)"
    by (auto simp: list_len_def split: option.splits) metis
qed

text \<open>What each mutator of the index does to the lists, on every branch, for every index the operations
  reach: \<open>add\<close> appends an id once, \<open>remove_axon\<close> deletes it and an emptied list with it, \<open>truncate\<close> undoes
  appends and reports how many, \<open>insert\<close> replaces the list by one without repetitions, \<open>remove\<close> deletes it; none
  panics.\<close>

theorem axon_index_operations:
  assumes "(axon_step X)\<^sup>*\<^sup>* axon_new ix" and "set_room ix p + 2 \<le> 2 ^ 32" and "2 * length ls \<le> 2 ^ 32"
  shows "(\<exists>ix'. axon_add X ix p a = Some (ix', a \<notin> set (axons ix p)) \<and>
      ax_map ix' = (if a \<in> set (axons ix p) then ax_map ix else fmupd p (axons ix p @ [a]) (ax_map ix))) \<and>
    (\<exists>ix'. axon_remove_axon ix p a = Some (ix', a \<in> set (axons ix p)) \<and>
      ax_map ix' = (if a \<in> set (axons ix p)
        then fmput p (case filter (\<lambda>b. b \<noteq> a) (axons ix p) of [] \<Rightarrow> None | l \<Rightarrow> Some l) (ax_map ix) else ax_map ix)) \<and>
    (\<exists>ix'. axon_truncate ix p n = Some (ix', length (axons ix p) - n) \<and>
      ax_map ix' = (if length (axons ix p) \<le> n then ax_map ix
        else fmput p (if n = 0 then None else Some (take n (axons ix p))) (ax_map ix))) \<and>
    (\<exists>ix' r. axon_insert X ix p ls = Some (ix', fmlookup (ax_map ix) p) \<and> distinct r \<and> set r = set ls \<and>
      ax_map ix' = fmput p (if ls = [] then None else Some r) (ax_map ix)) \<and>
    (\<exists>ix'. axon_remove ix p = Some (ix', fmlookup (ax_map ix) p) \<and> ax_map ix' = fmdrop p (ax_map ix))"
  using axon_add_ok [OF axon_reachable_ok [OF assms(1)] assms(2), of a] axon_remove_axon_ok [OF axon_reachable_ok [OF assms(1)], of p a]
    axon_truncate_ok [OF axon_reachable_ok [OF assms(1)], of p n] axon_insert_ok [OF axon_reachable_ok [OF assms(1)] assms(3), of p]
    axon_remove_ok [OF axon_reachable_ok [OF assms(1)], of p]
  by blast

theorem axon_index_operations_witness:
  "\<exists>ix'. axon_add sample_ext axon_new 1 2 = Some (ix', True) \<and> ax_map ix' = fmupd 1 [2] fmempty"
proof -
  have new: "ax_map axon_new = fmempty" "ax_sets axon_new = fmempty" by (simp_all add: axon_new_def)
  show ?thesis
    using axon_index_operations [of sample_ext axon_new 1 "[]" 2 0] by (simp add: set_room_def new)
qed

theorem axon_index_current_witness:
  "\<exists>ix. (axon_step sample_ext)\<^sup>*\<^sup>* axon_new ix \<and> fmlookup (ax_map ix) 1 = Some [2] \<and> length [2 :: particle] \<le> axon_max_degree ix"
proof -
  have new: "ax_map axon_new = fmempty" "ax_sets axon_new = fmempty" "ax_trie axon_new = trie_new" "ax_dirty axon_new = {||}"
    by (simp_all add: axon_new_def)
  have room: "set_room axon_new 1 + 2 \<le> 2 ^ 32" by (simp add: set_room_def new)
  obtain ix b where ix: "axon_add sample_ext axon_new 1 2 = Some (ix, b)" "ax_map ix = fmupd 1 [2] fmempty"
    using axon_add_ok [OF axon_ok_new room, of sample_ext 2] by (auto simp: new)
  then have "ax_trie ix = trie_new" "axon_pending ix \<le> 1"
    by (auto simp: axon_add_def Let_def axon_touched_def new axon_pending_def fcard.rep_eq split: Option.bind_splits if_splits)
  moreover have r: "(axon_step sample_ext)\<^sup>*\<^sup>* axon_new ix" using axon_step_add [OF room ix(1)] by blast
  ultimately have "\<forall>p l. fmlookup (ax_map ix) p = Some l \<longrightarrow> l \<noteq> [] \<and> distinct l \<and> length l \<le> axon_max_degree ix"
    using axon_index_current [of sample_ext ix] by (simp add: new_nodes)
  moreover have "fmlookup (ax_map ix) 1 = Some [2]" by (simp add: ix(2))
  ultimately show ?thesis using r by blast
qed

end
