(* ===== verification/Bbg_Cards.thy ===== *)
theory Bbg_Cards
  imports Bbg_Axons
begin

text \<open>
  The cards dimension (first half of \<open>position.rs\<close>): the domain-separated keys of positions and
  \<open>Cards\<close>, a committed map of card records with an uncommitted index from axons to the cards on
  them. The invariant says that the index shows exactly the records, each with its stake key.
\<close>

section \<open>Domain tags and keys\<close>

definition ascii :: "string \<Rightarrow> bytes" where
  "ascii s = map of_char s"

definition D_CARD :: bytes where "D_CARD = ascii ''soft3/chain/card/v1'' @ [0]"
definition D_STAKE :: bytes where "D_STAKE = ascii ''soft3/chain/stake/v1'' @ [0]"
definition D_FOCUS :: bytes where "D_FOCUS = ascii ''soft3/chain/focus/v1'' @ [0]"

definition tagged :: "ext \<Rightarrow> bytes \<Rightarrow> particle list \<Rightarrow> particle" where
  "tagged X tag parts = hm_hash X (tag @ concat (map (be_bytes 32) parts))"

definition card_id :: "ext \<Rightarrow> neuron_id \<Rightarrow> particle \<Rightarrow> particle \<Rightarrow> particle" where
  "card_id X author p q = tagged X D_CARD [author, p, q]"

definition stake_key :: "ext \<Rightarrow> particle \<Rightarrow> particle" where
  "stake_key X cid = tagged X D_STAKE [cid]"

definition focus_key :: "ext \<Rightarrow> particle \<Rightarrow> particle" where
  "focus_key X token = tagged X D_FOCUS [token]"

section \<open>The cards dimension\<close>

record cards =
  cd_records :: "(particle, card_record) keyed"
  cd_by_axon :: "(particle, (particle, particle) fmap) fmap"

definition cards_new :: cards where
  "cards_new = \<lparr>cd_records = keyed_new, cd_by_axon = fmempty\<rparr>"

abbreviation card_map :: "cards \<Rightarrow> (particle, card_record) fmap" where
  "card_map c \<equiv> kd_map (cd_records c)"

definition cards_unindex :: "cards \<Rightarrow> particle \<Rightarrow> particle \<Rightarrow> (cards \<times> particle) option" where
  "cards_unindex c axon cid = do {
     m \<leftarrow> fmlookup (cd_by_axon c) axon;
     key \<leftarrow> fmlookup m cid;
     let m = fmdrop cid m;
     Some (c\<lparr>cd_by_axon := (if m = fmempty then fmdrop axon (cd_by_axon c) else fmupd axon m (cd_by_axon c))\<rparr>, key) }"

definition cards_index :: "cards \<Rightarrow> particle \<Rightarrow> particle \<Rightarrow> particle \<Rightarrow> cards" where
  "cards_index c axon cid key =
     (let m = (case fmlookup (cd_by_axon c) axon of None \<Rightarrow> fmempty | Some m \<Rightarrow> m)
      in c\<lparr>cd_by_axon := fmupd axon (fmupd cid key m) (cd_by_axon c)\<rparr>)"

definition cards_insert :: "ext \<Rightarrow> cards \<Rightarrow> particle \<Rightarrow> card_record \<Rightarrow> (cards \<times> card_record option) option" where
  "cards_insert X c cid rec = do {
     let (recs, old) = keyed_insert (cd_records c) cid rec;
     let c = c\<lparr>cd_records := recs\<rparr>;
     case old of
       None \<Rightarrow> Some (cards_index c (cr_particle rec) cid (stake_key X cid), old)
     | Some o' \<Rightarrow>
         if cr_particle o' = cr_particle rec then Some (c, old)
         else do {
           (c, key) \<leftarrow> cards_unindex c (cr_particle o') cid;
           Some (cards_index c (cr_particle rec) cid key, old) } }"

definition cards_remove :: "cards \<Rightarrow> particle \<Rightarrow> (cards \<times> card_record option) option" where
  "cards_remove c cid = do {
     let (recs, old) = keyed_remove (cd_records c) cid;
     case old of
       None \<Rightarrow> Some (c, None)
     | Some o' \<Rightarrow> do {
         (c, _) \<leftarrow> cards_unindex (c\<lparr>cd_records := recs\<rparr>) (cr_particle o') cid;
         Some (c, Some o') } }"

definition cards_clear :: "cards \<Rightarrow> cards" where
  "cards_clear c = \<lparr>cd_records = keyed_clear (cd_records c), cd_by_axon = fmempty\<rparr>"

text \<open>Indexing the map by an absent card panics.\<close>

definition cards_on_axon :: "cards \<Rightarrow> particle \<Rightarrow> (particle \<times> card_record) list option" where
  "cards_on_axon c axon = (case fmlookup (cd_by_axon c) axon of
     None \<Rightarrow> Some []
   | Some m \<Rightarrow> those (map (\<lambda>cid. map_option (\<lambda>r. (cid, r)) (fmlookup (card_map c) cid))
       (sorted_list_of_fset (fmdom m))))"

definition cards_axon_count :: "cards \<Rightarrow> nat" where
  "cards_axon_count c = fcard (fmdom (cd_by_axon c))"

definition cards_commitment :: "ext \<Rightarrow> cards \<Rightarrow> (cards \<times> digest) option" where
  "cards_commitment X c = do {
     (recs, d) \<leftarrow> keyed_commitment X (\<lambda>k. k) (card_leaf_vals X) (cd_records c);
     Some (c\<lparr>cd_records := recs\<rparr>, d) }"

definition cards_legacy_commitment :: "((particle, card_record) fmap \<Rightarrow> particle) \<Rightarrow> cards \<Rightarrow> cards \<times> particle" where
  "cards_legacy_commitment f c =
     (let (recs, d) = keyed_legacy_commitment f (cd_records c) in (c\<lparr>cd_records := recs\<rparr>, d))"

definition cards_prove :: "ext \<Rightarrow> cards \<Rightarrow> particle \<Rightarrow> (cards \<times> trie_proof) option" where
  "cards_prove X c cid = do {
     (recs, p) \<leftarrow> keyed_prove X (\<lambda>k. k) (card_leaf_vals X) (cd_records c) cid;
     Some (c\<lparr>cd_records := recs\<rparr>, p) }"

definition cards_pending :: "cards \<Rightarrow> nat" where
  "cards_pending c = keyed_pending (cd_records c)"

definition cards_leaf :: "ext \<Rightarrow> particle \<Rightarrow> card_record \<Rightarrow> digest" where
  "cards_leaf X cid r = keyed_leaf X (\<lambda>k. k) (card_leaf_vals X) cid r"

section \<open>The invariant\<close>

definition indexed_key :: "(particle, (particle, particle) fmap) fmap \<Rightarrow> particle \<Rightarrow> particle \<Rightarrow> particle option" where
  "indexed_key by axon cid = Option.bind (fmlookup by axon) (\<lambda>m. fmlookup m cid)"

definition index_ok :: "ext \<Rightarrow> (particle, card_record) fmap \<Rightarrow> (particle, (particle, particle) fmap) fmap \<Rightarrow> bool" where
  "index_ok X recs by \<longleftrightarrow> fmempty \<notin> fmran' by \<and>
     (\<forall>axon cid. indexed_key by axon cid =
        (case fmlookup recs cid of
           Some r \<Rightarrow> if cr_particle r = axon then Some (stake_key X cid) else None
         | None \<Rightarrow> None))"

definition cards_ok :: "ext \<Rightarrow> cards \<Rightarrow> bool" where
  "cards_ok X c \<longleftrightarrow> keyed_ok X (\<lambda>k. k) (card_leaf_vals X) (cd_records c) \<and> index_ok X (card_map c) (cd_by_axon c)"

lemma fmran'_iff: "v \<in> fmran' m \<longleftrightarrow> (\<exists>k. fmlookup m k = Some v)"
  by (auto simp: fmran'_def ran_def)

lemma index_okD:
  "index_ok X recs by \<Longrightarrow> fmlookup recs cid = Some r \<Longrightarrow> indexed_key by (cr_particle r) cid = Some (stake_key X cid)"
  "index_ok X recs by \<Longrightarrow> fmlookup by axon \<noteq> Some fmempty"
  by (auto simp: index_ok_def fmran'_iff)

lemma cards_ok_new: "cards_ok X cards_new"
  using keyed_ok_new [of X "\<lambda>k. k" "card_leaf_vals X"]
  by (simp add: cards_ok_def cards_new_def index_ok_def indexed_key_def fmran'_iff keyed_new_def)

lemma cards_index_simps:
  "cd_records (cards_index c axon cid key) = cd_records c"
  "indexed_key (cd_by_axon (cards_index c axon cid key)) a b =
     (if a = axon \<and> b = cid then Some key else indexed_key (cd_by_axon c) a b)"
  by (auto simp: cards_index_def Let_def indexed_key_def split: option.splits)

lemma cards_index_nonempty:
  "fmempty \<notin> fmran' (cd_by_axon c) \<Longrightarrow> fmempty \<notin> fmran' (cd_by_axon (cards_index c axon cid key))"
  by (auto simp: cards_index_def Let_def fmran'_iff dest: arg_cong [where f = "\<lambda>m. fmlookup m cid"] split: if_splits)

text \<open>Dropping an indexed card returns its key and takes an emptied axon with it.\<close>

lemma cards_unindex_ok:
  assumes "indexed_key (cd_by_axon c) axon cid = Some key" and "fmempty \<notin> fmran' (cd_by_axon c)"
  obtains by' where "cards_unindex c axon cid = Some (c\<lparr>cd_by_axon := by'\<rparr>, key)" "fmempty \<notin> fmran' by'"
    "\<And>a b. indexed_key by' a b = (if a = axon \<and> b = cid then None else indexed_key (cd_by_axon c) a b)"
proof -
  obtain m where m: "fmlookup (cd_by_axon c) axon = Some m" "fmlookup m cid = Some key"
    using assms(1) by (auto simp: indexed_key_def split: Option.bind_splits)
  let ?by = "if fmdrop cid m = fmempty then fmdrop axon (cd_by_axon c) else fmupd axon (fmdrop cid m) (cd_by_axon c)"
  have "fmlookup m b = None" if "fmdrop cid m = fmempty" "b \<noteq> cid" for b
    using arg_cong [OF that(1), of "\<lambda>m. fmlookup m b"] that(2) by simp
  then have "indexed_key ?by a b = (if a = axon \<and> b = cid then None else indexed_key (cd_by_axon c) a b)" for a b
    using m by (auto simp: indexed_key_def)
  moreover have "fmempty \<notin> fmran' ?by"
    using assms(2) by (auto simp: fmran'_iff split: if_splits)
  moreover have "cards_unindex c axon cid = Some (c\<lparr>cd_by_axon := ?by\<rparr>, key)"
    by (simp add: cards_unindex_def m Let_def)
  ultimately show ?thesis by (intro that)
qed

lemma cards_insert_ok:
  assumes "cards_ok X c"
  shows "\<exists>c'. cards_insert X c cid r = Some (c', fmlookup (card_map c) cid) \<and> cards_ok X c' \<and>
    card_map c' = fmupd cid r (card_map c) \<and> cd_records c' = fst (keyed_insert (cd_records c) cid r)"
proof -
  let ?c = "c\<lparr>cd_records := fst (keyed_insert (cd_records c) cid r)\<rparr>"
  have recs: "keyed_ok X (\<lambda>k. k) (card_leaf_vals X) (cd_records ?c)" "card_map ?c = fmupd cid r (card_map c)"
    and ix: "index_ok X (card_map c) (cd_by_axon c)"
    using assms by (simp_all add: cards_ok_def bytes_key.insert_ok)
  note ne = ix [unfolded index_ok_def, THEN conjunct1]
  show ?thesis
  proof (cases "fmlookup (card_map c) cid")
    case None
    let ?d = "cards_index ?c (cr_particle r) cid (stake_key X cid)"
    have "index_ok X (fmupd cid r (card_map c)) (cd_by_axon ?d)"
      using ix None cards_index_nonempty [of ?c] by (auto simp: index_ok_def cards_index_simps)
    then show ?thesis using recs None
      by (auto simp: cards_insert_def case_prod_beta Let_def cards_ok_def cards_index_simps)
  next
    case (Some o')
    show ?thesis
    proof (cases "cr_particle o' = cr_particle r")
      case True
      then have "index_ok X (fmupd cid r (card_map c)) (cd_by_axon c)"
        using ix Some by (auto simp: index_ok_def)
      then show ?thesis using recs Some True by (simp add: cards_insert_def case_prod_beta Let_def cards_ok_def)
    next
      case False
      have "indexed_key (cd_by_axon ?c) (cr_particle o') cid = Some (stake_key X cid)"
        using index_okD(1) [OF ix Some] by simp
      then obtain by' where by': "cards_unindex ?c (cr_particle o') cid = Some (?c\<lparr>cd_by_axon := by'\<rparr>, stake_key X cid)"
        "fmempty \<notin> fmran' by'"
        "\<And>a b. indexed_key by' a b = (if a = cr_particle o' \<and> b = cid then None else indexed_key (cd_by_axon ?c) a b)"
        using ne by (rule_tac cards_unindex_ok [of ?c]) auto
      let ?d = "cards_index (?c\<lparr>cd_by_axon := by'\<rparr>) (cr_particle r) cid (stake_key X cid)"
      have "index_ok X (fmupd cid r (card_map c)) (cd_by_axon ?d)"
        using ix Some False by' cards_index_nonempty [of "?c\<lparr>cd_by_axon := by'\<rparr>"]
        by (auto simp: index_ok_def cards_index_simps)
      then show ?thesis using recs Some False by'(1)
        by (auto simp: cards_insert_def case_prod_beta Let_def cards_ok_def cards_index_simps)
    qed
  qed
qed

lemma cards_remove_ok:
  assumes "cards_ok X c"
  shows "\<exists>c'. cards_remove c cid = Some (c', fmlookup (card_map c) cid) \<and> cards_ok X c' \<and>
    card_map c' = fmdrop cid (card_map c) \<and> cd_records c' = fst (keyed_remove (cd_records c) cid)"
proof (cases "fmlookup (card_map c) cid")
  case None
  then show ?thesis using assms by (simp add: cards_remove_def case_prod_beta Let_def fmdrop_absent keyed_remove_def)
next
  case (Some o')
  let ?c = "c\<lparr>cd_records := fst (keyed_remove (cd_records c) cid)\<rparr>"
  have recs: "keyed_ok X (\<lambda>k. k) (card_leaf_vals X) (cd_records ?c)" "card_map ?c = fmdrop cid (card_map c)"
    and ix: "index_ok X (card_map c) (cd_by_axon c)"
    using assms by (simp_all add: cards_ok_def bytes_key.remove_ok)
  have "indexed_key (cd_by_axon ?c) (cr_particle o') cid = Some (stake_key X cid)"
    using index_okD(1) [OF ix Some] by simp
  then obtain by' where by': "cards_unindex ?c (cr_particle o') cid = Some (?c\<lparr>cd_by_axon := by'\<rparr>, stake_key X cid)"
    "fmempty \<notin> fmran' by'"
    "\<And>a b. indexed_key by' a b = (if a = cr_particle o' \<and> b = cid then None else indexed_key (cd_by_axon ?c) a b)"
    using ix [unfolded index_ok_def] by (rule_tac cards_unindex_ok [of ?c]) auto
  have "index_ok X (fmdrop cid (card_map c)) by'"
    using ix Some by'(2,3) by (auto simp: index_ok_def)
  then show ?thesis using recs Some by'(1) by (simp add: cards_remove_def case_prod_beta Let_def cards_ok_def)
qed

text \<open>The cards of an axon, ascending; the index lists exactly these.\<close>

lemma those_map_Some: "(\<And>x. x \<in> set xs \<Longrightarrow> f x = Some (g x)) \<Longrightarrow> those (map f xs) = Some (map g xs)"
  by (induction xs) auto

lemma fst_image_iff: "a \<in> fst ` A \<longleftrightarrow> (\<exists>b. (a, b) \<in> A)"
  by force

definition cards_of :: "(particle, card_record) fmap \<Rightarrow> particle \<Rightarrow> (particle \<times> card_record) list" where
  "cards_of recs axon = filter (\<lambda>(_, r). cr_particle r = axon) (sorted_list_of_fmap recs)"

lemma set_cards_of: "(cid, r) \<in> set (cards_of recs axon) \<longleftrightarrow> fmlookup recs cid = Some r \<and> cr_particle r = axon"
  by (auto simp: cards_of_def set_sorted_list_of_fmap)

lemma index_none:
  assumes "index_ok X recs by" and "fmlookup by axon = None"
  shows "cards_of recs axon = []"
proof -
  have "(cid, r) \<notin> set (cards_of recs axon)" for cid r
    using index_okD(1) [OF assms(1), of cid r] assms(2) by (auto simp: set_cards_of indexed_key_def)
  then show ?thesis by (metis ex_in_conv set_empty surj_pair)
qed

lemma index_keys:
  assumes ix: "index_ok X recs by" and m: "fmlookup by axon = Some m"
  shows "sorted_list_of_fmap m = map (\<lambda>(cid, _). (cid, stake_key X cid)) (cards_of recs axon)"
proof -
  let ?f = "cards_of recs axon" and ?ks = "sorted_list_of_fset (fmdom m)"
  have look: "fmlookup m cid = (case fmlookup recs cid of Some r \<Rightarrow> if cr_particle r = axon then Some (stake_key X cid) else None | None \<Rightarrow> None)" for cid
    using ix m by (simp add: index_ok_def indexed_key_def) (metis bind.bind_lunit)
  have srt: "sorted (map fst ?f)" "distinct (map fst ?f)"
    unfolding cards_of_def using sorted_list_of_fmap_props [of recs] by (simp_all add: sorted_filter distinct_map_filter)
  have "set (map fst ?f) = set ?ks"
  proof (rule set_eqI)
    fix cid
    have "cid \<in> set (map fst ?f) \<longleftrightarrow> (\<exists>r. (cid, r) \<in> set ?f)" unfolding set_map by (rule fst_image_iff)
    then show "cid \<in> set (map fst ?f) \<longleftrightarrow> cid \<in> set ?ks"
      by (auto simp: set_cards_of sorted_list_of_fset.rep_eq fset_fmdom look split: option.splits if_splits)
  qed
  moreover have "sorted ?ks" "distinct ?ks" by (simp_all add: sorted_list_of_fset.rep_eq)
  ultimately have ks: "?ks = map fst ?f" using srt by (intro sorted_distinct_set_unique) simp_all
  have "(cid, the (fmlookup m cid)) = (cid, stake_key X cid)" if "(cid, r) \<in> set ?f" for cid r
    using that by (simp add: set_cards_of look)
  then show ?thesis
    unfolding sorted_list_of_fmap_def ks map_map by (intro map_cong) auto
qed

lemma cards_on_axon_ok:
  assumes "cards_ok X c"
  shows "cards_on_axon c axon = Some (cards_of (card_map c) axon)"
proof (cases "fmlookup (cd_by_axon c) axon")
  case None
  then show ?thesis using index_none [of X "card_map c" "cd_by_axon c" axon] assms by (simp add: cards_ok_def cards_on_axon_def)
next
  case (Some m)
  let ?f = "cards_of (card_map c) axon"
  have "map fst (sorted_list_of_fmap m) = map fst ?f"
    using index_keys [OF _ Some] assms by (auto simp: cards_ok_def)
  then have ks: "sorted_list_of_fset (fmdom m) = map fst ?f" by (simp add: sorted_list_of_fmap_props(1))
  have "those (map (\<lambda>cid. map_option (\<lambda>r. (cid, r)) (fmlookup (card_map c) cid)) (map fst ?f)) = Some (map id ?f)"
    unfolding map_map by (rule those_map_Some) (auto simp: set_cards_of)
  then show ?thesis unfolding cards_on_axon_def Some option.case ks by simp
qed

lemma cards_axon_count_ok:
  assumes "cards_ok X c"
  shows "cards_axon_count c = card {cr_particle r | r. r \<in> fmran' (card_map c)}"
proof -
  have ix: "index_ok X (card_map c) (cd_by_axon c)" using assms by (simp add: cards_ok_def)
  have "fmlookup (cd_by_axon c) axon \<noteq> None \<longleftrightarrow> axon \<in> {cr_particle r | r. r \<in> fmran' (card_map c)}" for axon
  proof
    assume "fmlookup (cd_by_axon c) axon \<noteq> None"
    then obtain m where m: "fmlookup (cd_by_axon c) axon = Some m" by blast
    moreover have "m \<noteq> fmempty" using index_okD(2) [OF ix] m by blast
    ultimately obtain cid k where "fmlookup m cid = Some k"
      by (metis fmap_ext fmempty_lookup not_Some_eq)
    then have "indexed_key (cd_by_axon c) axon cid = Some k" by (simp add: indexed_key_def m)
    then show "axon \<in> {cr_particle r | r. r \<in> fmran' (card_map c)}"
      using ix by (auto simp: index_ok_def fmran'_iff split: option.splits if_splits)
  next
    assume "axon \<in> {cr_particle r | r. r \<in> fmran' (card_map c)}"
    then obtain cid r where "fmlookup (card_map c) cid = Some r" "cr_particle r = axon" by (auto simp: fmran'_iff)
    then show "fmlookup (cd_by_axon c) axon \<noteq> None"
      using index_okD(1) [OF ix, of cid r] by (auto simp: indexed_key_def split: Option.bind_splits)
  qed
  then have "fset (fmdom (cd_by_axon c)) = {cr_particle r | r. r \<in> fmran' (card_map c)}"
    unfolding fset_fmdom by blast
  then show ?thesis by (simp add: cards_axon_count_def fcard.rep_eq)
qed

text \<open>Every way to change or to read the dimension.\<close>

inductive cards_step :: "ext \<Rightarrow> cards \<Rightarrow> cards \<Rightarrow> bool" for X where
  cards_step_insert: "cards_insert X c cid r = Some (c', old) \<Longrightarrow> cards_step X c c'"
| cards_step_remove: "cards_remove c cid = Some (c', old) \<Longrightarrow> cards_step X c c'"
| cards_step_clear: "cards_step X c (cards_clear c)"
| cards_step_commitment: "length (tr_nodes (kd_trie (cd_records c))) + 2 * cards_pending c \<le> 2 ^ 32 \<Longrightarrow>
    cards_commitment X c = Some (c', d) \<Longrightarrow> cards_step X c c'"
| cards_step_prove: "length (tr_nodes (kd_trie (cd_records c))) + 2 * cards_pending c \<le> 2 ^ 32 \<Longrightarrow>
    cards_prove X c cid = Some (c', p) \<Longrightarrow> cards_step X c c'"
| cards_step_legacy: "cards_legacy_commitment f c = (c', d) \<Longrightarrow> cards_step X c c'"

lemma cards_commitment_ok:
  assumes "cards_ok X c" and "length (tr_nodes (kd_trie (cd_records c))) + 2 * cards_pending c \<le> 2 ^ 32"
  shows "\<exists>c'. cards_commitment X c = Some (c', keyed_spec X (\<lambda>k. k) (card_leaf_vals X) (card_map c)) \<and> cards_ok X c' \<and>
    card_map c' = card_map c \<and> cd_by_axon c' = cd_by_axon c \<and> cards_pending c' = 0 \<and>
    kd_legacy (cd_records c') = kd_legacy (cd_records c) \<and> keyed_load (cd_records c') \<le> keyed_load (cd_records c)"
  using assms bytes_key.commitment_ok [of X "card_leaf_vals X" "cd_records c"]
  by (auto simp: cards_ok_def cards_commitment_def cards_pending_def keyed_pending_def fcard.rep_eq)

lemma cards_step_ok:
  assumes "cards_step X c c'" and "cards_ok X c"
  shows "cards_ok X c'"
  using assms
proof induction
  case (cards_step_insert c cid r c' old)
  then show ?case using cards_insert_ok [of X c cid r] by auto
next
  case (cards_step_remove c cid c' old)
  then show ?case using cards_remove_ok [of X c cid] by auto
next
  case (cards_step_clear c)
  then show ?case using cards_ok_new by (simp add: cards_clear_def cards_new_def keyed_clear_def keyed_new_def)
next
  case (cards_step_commitment c c' d)
  then show ?case using cards_commitment_ok [of X c] by auto
next
  case (cards_step_prove c cid c' p)
  then show ?case using bytes_key.prove_ok [of X "card_leaf_vals X" "cd_records c" cid]
    by (auto simp: cards_ok_def cards_prove_def cards_pending_def)
next
  case (cards_step_legacy f c c' d)
  then show ?case
    by (auto simp: cards_legacy_commitment_def keyed_legacy_commitment_def cards_ok_def keyed_ok_def Let_def split: option.splits)
qed

lemma cards_reachable_ok: "(cards_step X)\<^sup>*\<^sup>* cards_new c \<Longrightarrow> cards_ok X c"
  by (induction rule: rtranclp_induct) (auto intro: cards_ok_new cards_step_ok)

section \<open>Properties\<close>

text \<open>After any sequence of operations the axon index of the cards mirrors the records: inserting and removing
  never panic on a missing index entry, change one record and return the previous one, \<open>on_axon\<close> lists exactly the
  records of an axon in ascending order of card, and \<open>axon_count\<close> counts the axons that hold a card.\<close>

theorem cards_index_current:
  assumes "(cards_step X)\<^sup>*\<^sup>* cards_new c"
  shows "(\<exists>c'. cards_insert X c cid r = Some (c', fmlookup (card_map c) cid) \<and> card_map c' = fmupd cid r (card_map c)) \<and>
    (\<exists>c'. cards_remove c cid = Some (c', fmlookup (card_map c) cid) \<and> card_map c' = fmdrop cid (card_map c)) \<and>
    cards_on_axon c axon = Some (cards_of (card_map c) axon) \<and>
    cards_axon_count c = card {cr_particle r | r. r \<in> fmran' (card_map c)}"
  using cards_insert_ok [OF cards_reachable_ok [OF assms], of cid r] cards_remove_ok [OF cards_reachable_ok [OF assms], of cid]
    cards_on_axon_ok [OF cards_reachable_ok [OF assms], of axon] cards_axon_count_ok [OF cards_reachable_ok [OF assms]]
  by blast

definition sample_card :: card_record where
  "sample_card = \<lparr>cr_owner = 1, cr_particle = 9, cr_author = 1, cr_valence = For, cr_since = 3\<rparr>"

theorem cards_index_current_witness:
  "\<exists>c. (cards_step sample_ext)\<^sup>*\<^sup>* cards_new c \<and> card_map c = fmupd 4 sample_card fmempty \<and>
     cards_on_axon c 9 = Some [(4, sample_card)]"
proof -
  have new: "card_map cards_new = fmempty" by (simp add: cards_new_def keyed_new_def)
  obtain c old where c: "cards_insert sample_ext cards_new 4 sample_card = Some (c, old)" "card_map c = fmupd 4 sample_card fmempty"
    using cards_insert_ok [OF cards_ok_new, of sample_ext 4 sample_card] by (auto simp: new)
  then have r: "(cards_step sample_ext)\<^sup>*\<^sup>* cards_new c" using cards_step_insert by blast
  have "cards_on_axon c 9 = Some (cards_of (card_map c) 9)"
    using cards_index_current [OF r] by blast
  then have "cards_on_axon c 9 = Some [(4, sample_card)]"
    by (simp add: c(2) cards_of_def sorted_list_of_fmap_def sorted_list_of_fset.rep_eq sample_card_def)
  then show ?thesis using r c(2) by blast
qed

end
