(* ===== verification/Bbg_State.thy ===== *)
theory Bbg_State
  imports Bbg_Cards
begin

text \<open>
  The state (\<open>state.rs\<close>, \<open>state/commits.rs\<close>, \<open>stats.rs\<close>, \<open>dim_entries\<close> of \<open>proof.rs\<close>): eleven
  committed dimensions, the private commitment sets, the uncommitted tables, the committed statistics, and the root
  under both derivations. A root read changes the caches of the dimensions, so it returns the
  updated state; the result of a root read is a function of the records alone.
\<close>

section \<open>Keys\<close>

definition axon_id :: "ext \<Rightarrow> particle \<Rightarrow> particle \<Rightarrow> particle" where
  "axon_id X from to = hm_hash X (be_bytes 32 from @ be_bytes 32 to)"

definition balance_key :: "ext \<Rightarrow> particle \<Rightarrow> particle \<Rightarrow> particle" where
  "balance_key X owner token = hm_hash X (be_bytes 32 owner @ be_bytes 32 token)"

definition signal_key :: "ext \<Rightarrow> neuron_id \<Rightarrow> u64 \<Rightarrow> particle" where
  "signal_key X neuron step = hm_hash X (be_bytes 32 neuron @ le_bytes 8 step)"

definition intent_key :: "ext \<Rightarrow> neuron_id \<Rightarrow> u64 \<Rightarrow> particle \<Rightarrow> particle" where
  "intent_key X neuron h0 scope_hash = hm_hash X (be_bytes 32 neuron @ le_bytes 8 h0 @ be_bytes 32 scope_hash)"

section \<open>The state\<close>

datatype root_version = V1 | V2

record bbg_state =
  st_particles :: "(particle, particle_record) keyed"
  st_axons_out :: axon_index
  st_axons_in :: axon_index
  st_neurons :: "(particle, neuron_record) keyed"
  st_locations :: "(particle, location_record) keyed"
  st_coins :: "(particle, coin_record) keyed"
  st_cards :: cards
  st_files :: "(particle, file_record) keyed"
  st_time :: "(u64, particle) keyed"
  st_signals :: "(particle, signal_record) keyed"
  st_commitments :: "(particle, goldilocks) keyed"
  st_nullifiers :: "particle keyed_set"
  st_balances :: "(particle, u64) keyed"
  st_intents :: "(particle, intent_record) fmap"
  st_axon_edges :: "(particle, particle \<times> particle) fmap"
  st_diameter_override :: "u64 option"
  st_height :: u64
  st_root_version :: root_version

definition state_new :: bbg_state where
  "state_new = \<lparr>st_particles = keyed_new, st_axons_out = axon_new, st_axons_in = axon_new, st_neurons = keyed_new,
     st_locations = keyed_new, st_coins = keyed_new, st_cards = cards_new, st_files = keyed_new, st_time = keyed_new,
     st_signals = keyed_new, st_commitments = keyed_new, st_nullifiers = keyed_new, st_balances = keyed_new,
     st_intents = fmempty, st_axon_edges = fmempty, st_diameter_override = None, st_height = 0, st_root_version = V2\<rparr>"

definition set_root_version :: "bbg_state \<Rightarrow> root_version \<Rightarrow> bbg_state" where
  "set_root_version st v = st\<lparr>st_root_version := v\<rparr>"

definition set_diameter_bound :: "bbg_state \<Rightarrow> u64 \<Rightarrow> bbg_state" where
  "set_diameter_bound st bound = st\<lparr>st_diameter_override := Some bound\<rparr>"

section \<open>Statistics\<close>

record graph_stats =
  gs_node_count :: u64
  gs_relation_sizes :: "u64 list"
  gs_max_degree :: u64
  gs_diameter_bound :: u64

definition stats_serialize :: "graph_stats \<Rightarrow> bytes" where
  "stats_serialize s = le_bytes 8 (gs_node_count s) @ concat (map (le_bytes 8) (gs_relation_sizes s)) @
     le_bytes 8 (gs_max_degree s) @ le_bytes 8 (gs_diameter_bound s)"

definition stats_commit :: "ext \<Rightarrow> graph_stats \<Rightarrow> particle" where
  "stats_commit X s = hm_hash X (stats_serialize s)"

definition map_len :: "('k, 'v) fmap \<Rightarrow> u64" where
  "map_len m = of_nat (fcard (fmdom m))"

definition statistics :: "bbg_state \<Rightarrow> graph_stats" where
  "statistics st =
     (let node_count = map_len (kd_map (st_particles st));
          relation_sizes = [map_len (kd_map (st_particles st)), map_len (ax_map (st_axons_out st)),
            map_len (ax_map (st_axons_in st)), map_len (kd_map (st_neurons st)), map_len (kd_map (st_locations st)),
            map_len (kd_map (st_coins st)), map_len (card_map (st_cards st)), map_len (kd_map (st_files st)),
            map_len (kd_map (st_time st)), map_len (kd_map (st_signals st)), map_len (kd_map (st_balances st))];
          max_degree = of_nat (max (axon_max_degree (st_axons_out st)) (axon_max_degree (st_axons_in st)));
          diameter_bound = (case st_diameter_override st of Some b \<Rightarrow> b | None \<Rightarrow> saturating_sub node_count 1)
      in \<lparr>gs_node_count = node_count, gs_relation_sizes = relation_sizes, gs_max_degree = max_degree,
          gs_diameter_bound = diameter_bound\<rparr>)"

section \<open>Flat dimension tables\<close>

datatype dim = Particles | AxonsOut | AxonsIn | Neurons | Locations | Coins | Cards | Files | Time | Signals | Balances

definition axon_entries :: "ext \<Rightarrow> (particle, particle list) fmap \<Rightarrow> (particle \<times> goldilocks list) list" where
  "axon_entries X m = map (\<lambda>(k, v). (k, scalar_fields X [of_nat (length v)] @ concat (map (bytes32_limbs X) v)))
     (sorted_list_of_fmap m)"

fun dim_entries :: "ext \<Rightarrow> bbg_state \<Rightarrow> dim \<Rightarrow> (particle \<times> goldilocks list) list" where
  "dim_entries X st Particles = map (\<lambda>(k, v). (k, scalar_fields X
     [pr_energy v, pr_pi_star v, pr_weight v, pr_s_yes v, pr_s_no v, pr_meta_score v])) (sorted_list_of_fmap (kd_map (st_particles st)))"
| "dim_entries X st AxonsOut = axon_entries X (ax_map (st_axons_out st))"
| "dim_entries X st AxonsIn = axon_entries X (ax_map (st_axons_in st))"
| "dim_entries X st Neurons = map (\<lambda>(k, v). (k, scalar_fields X [nr_focus v, nr_karma v, nr_stake v, nr_nonce v]))
     (sorted_list_of_fmap (kd_map (st_neurons st)))"
| "dim_entries X st Locations = map (\<lambda>(k, v). (k, scalar_fields X [ucast (lr_lat v), ucast (lr_lon v)]))
     (sorted_list_of_fmap (kd_map (st_locations st)))"
| "dim_entries X st Coins = map (\<lambda>(k, v). (k, scalar_fields X [cn_total_supply v])) (sorted_list_of_fmap (kd_map (st_coins st)))"
| "dim_entries X st Cards = map (\<lambda>(k, v). (k, bytes32_limbs X (cr_owner v) @ bytes32_limbs X (cr_particle v) @
     bytes32_limbs X (cr_author v) @ scalar_fields X [ucast (valence_byte (cr_valence v)), cr_since v]))
     (sorted_list_of_fmap (card_map (st_cards st)))"
| "dim_entries X st Files = map (\<lambda>(k, v). (k, scalar_fields X [of_bool (fr_available v), ucast (fr_chunk_count v)]))
     (sorted_list_of_fmap (kd_map (st_files st)))"
| "dim_entries X st Time = map (\<lambda>(h, p). (of_be_bytes (le_bytes 8 h @ replicate 24 0), bytes32_limbs X p))
     (sorted_list_of_fmap (kd_map (st_time st)))"
| "dim_entries X st Signals = map (\<lambda>(k, v). (k, bytes32_limbs X (sr_neuron v) @ bytes32_limbs X (sr_network v) @
     scalar_fields X [ucast (sr_link_count v), sr_block_height v] @ bytes32_limbs X (sr_proof_hash v) @
     scalar_fields X [sr_step v])) (sorted_list_of_fmap (kd_map (st_signals st)))"
| "dim_entries X st Balances = map (\<lambda>(k, v). (k, scalar_fields X [v])) (sorted_list_of_fmap (kd_map (st_balances st)))"

section \<open>Flat commitments\<close>

definition commit_particles :: "ext \<Rightarrow> bbg_state \<Rightarrow> bbg_state \<times> particle" where
  "commit_particles X st = (let (m, c) = keyed_legacy_commitment (\<lambda>_. commit_dim X (dim_entries X st Particles)) (st_particles st)
     in (st\<lparr>st_particles := m\<rparr>, c))"

definition commit_axons_out :: "ext \<Rightarrow> bbg_state \<Rightarrow> bbg_state \<times> particle" where
  "commit_axons_out X st = (let (m, c) = axon_legacy_commitment (\<lambda>_. commit_dim X (dim_entries X st AxonsOut)) (st_axons_out st)
     in (st\<lparr>st_axons_out := m\<rparr>, c))"

definition commit_axons_in :: "ext \<Rightarrow> bbg_state \<Rightarrow> bbg_state \<times> particle" where
  "commit_axons_in X st = (let (m, c) = axon_legacy_commitment (\<lambda>_. commit_dim X (dim_entries X st AxonsIn)) (st_axons_in st)
     in (st\<lparr>st_axons_in := m\<rparr>, c))"

definition commit_neurons :: "ext \<Rightarrow> bbg_state \<Rightarrow> bbg_state \<times> particle" where
  "commit_neurons X st = (let (m, c) = keyed_legacy_commitment (\<lambda>_. commit_dim X (dim_entries X st Neurons)) (st_neurons st)
     in (st\<lparr>st_neurons := m\<rparr>, c))"

definition commit_locations :: "ext \<Rightarrow> bbg_state \<Rightarrow> bbg_state \<times> particle" where
  "commit_locations X st = (let (m, c) = keyed_legacy_commitment (\<lambda>_. commit_dim X (dim_entries X st Locations)) (st_locations st)
     in (st\<lparr>st_locations := m\<rparr>, c))"

definition commit_coins :: "ext \<Rightarrow> bbg_state \<Rightarrow> bbg_state \<times> particle" where
  "commit_coins X st = (let (m, c) = keyed_legacy_commitment (\<lambda>_. commit_dim X (dim_entries X st Coins)) (st_coins st)
     in (st\<lparr>st_coins := m\<rparr>, c))"

definition commit_cards :: "ext \<Rightarrow> bbg_state \<Rightarrow> bbg_state \<times> particle" where
  "commit_cards X st = (let (m, c) = cards_legacy_commitment (\<lambda>_. commit_dim X (dim_entries X st Cards)) (st_cards st)
     in (st\<lparr>st_cards := m\<rparr>, c))"

definition commit_files :: "ext \<Rightarrow> bbg_state \<Rightarrow> bbg_state \<times> particle" where
  "commit_files X st = (let (m, c) = keyed_legacy_commitment (\<lambda>_. commit_dim X (dim_entries X st Files)) (st_files st)
     in (st\<lparr>st_files := m\<rparr>, c))"

definition commit_time :: "ext \<Rightarrow> bbg_state \<Rightarrow> bbg_state \<times> particle" where
  "commit_time X st = (let (m, c) = keyed_legacy_commitment (\<lambda>_. commit_dim X (dim_entries X st Time)) (st_time st)
     in (st\<lparr>st_time := m\<rparr>, c))"

definition commit_signals :: "ext \<Rightarrow> bbg_state \<Rightarrow> bbg_state \<times> particle" where
  "commit_signals X st = (let (m, c) = keyed_legacy_commitment (\<lambda>_. commit_dim X (dim_entries X st Signals)) (st_signals st)
     in (st\<lparr>st_signals := m\<rparr>, c))"

definition commit_balances :: "ext \<Rightarrow> bbg_state \<Rightarrow> bbg_state \<times> particle" where
  "commit_balances X st = (let (m, c) = keyed_legacy_commitment (\<lambda>_. commit_dim X (dim_entries X st Balances)) (st_balances st)
     in (st\<lparr>st_balances := m\<rparr>, c))"

definition commit_a :: "ext \<Rightarrow> bbg_state \<Rightarrow> bbg_state \<times> particle" where
  "commit_a X st = (let (m, c) = keyed_legacy_commitment
       (\<lambda>m. commit_dim X (map (\<lambda>(k, v). (k, [v])) (sorted_list_of_fmap m))) (st_commitments st)
     in (st\<lparr>st_commitments := m\<rparr>, c))"

definition commit_n :: "ext \<Rightarrow> bbg_state \<Rightarrow> bbg_state \<times> particle" where
  "commit_n X st = (let (m, c) = keyed_legacy_commitment
       (\<lambda>m. commit_dim X (map (\<lambda>k. (k, [1])) (sorted_list_of_fset (fmdom m)))) (st_nullifiers st)
     in (st\<lparr>st_nullifiers := m\<rparr>, c))"

section \<open>Root leaves\<close>

text \<open>One dimension commitment after the other, each on its own field.\<close>

definition v2_leaves_sequential :: "ext \<Rightarrow> bbg_state \<Rightarrow> (bbg_state \<times> digest list \<times> digest \<times> digest) option" where
  "v2_leaves_sequential X st = do {
     (pa, d0) \<leftarrow> keyed_commitment X (\<lambda>k. k) (particle_leaf_vals X) (st_particles st);
     (ou, d1) \<leftarrow> axon_commitment X (st_axons_out st);
     (inn, d2) \<leftarrow> axon_commitment X (st_axons_in st);
     (ne, d3) \<leftarrow> keyed_commitment X (\<lambda>k. k) (neuron_leaf_vals X) (st_neurons st);
     (lo, d4) \<leftarrow> keyed_commitment X (\<lambda>k. k) (location_leaf_vals X) (st_locations st);
     (co, d5) \<leftarrow> keyed_commitment X (\<lambda>k. k) (coin_leaf_vals X) (st_coins st);
     (ca, d6) \<leftarrow> cards_commitment X (st_cards st);
     (fi, d7) \<leftarrow> keyed_commitment X (\<lambda>k. k) (file_leaf_vals X) (st_files st);
     (ti, d8) \<leftarrow> keyed_commitment X u64_key_bytes (bytes32_leaf_vals X) (st_time st);
     (si, d9) \<leftarrow> keyed_commitment X (\<lambda>k. k) (signal_leaf_vals X) (st_signals st);
     (ba, d10) \<leftarrow> keyed_commitment X (\<lambda>k. k) (u64_leaf_vals X) (st_balances st);
     (cm, a) \<leftarrow> keyed_commitment X (\<lambda>k. k) goldilocks_leaf_vals (st_commitments st);
     (nu, n) \<leftarrow> keyed_commitment X (\<lambda>k. k) unit_leaf_vals (st_nullifiers st);
     Some (st\<lparr>st_particles := pa, st_axons_out := ou, st_axons_in := inn, st_neurons := ne, st_locations := lo,
         st_coins := co, st_cards := ca, st_files := fi, st_time := ti, st_signals := si, st_balances := ba,
         st_commitments := cm, st_nullifiers := nu\<rparr>,
       [d0, d1, d2, d3, d4, d5, d6, d7, d8, d9, d10], a, n) }"

text \<open>The six threads of a bulk load, in one interleaving: the order in which they were spawned, each on
  fields no other thread touches.\<close>

definition v2_leaves_parallel :: "ext \<Rightarrow> bbg_state \<Rightarrow> (bbg_state \<times> digest list \<times> digest \<times> digest) option" where
  "v2_leaves_parallel X st = do {
     (pa, d0) \<leftarrow> keyed_commitment X (\<lambda>k. k) (particle_leaf_vals X) (st_particles st);
     (ou, d1) \<leftarrow> axon_commitment X (st_axons_out st);
     (inn, d2) \<leftarrow> axon_commitment X (st_axons_in st);
     (ne, d3) \<leftarrow> keyed_commitment X (\<lambda>k. k) (neuron_leaf_vals X) (st_neurons st);
     (ba, d10) \<leftarrow> keyed_commitment X (\<lambda>k. k) (u64_leaf_vals X) (st_balances st);
     (lo, d4) \<leftarrow> keyed_commitment X (\<lambda>k. k) (location_leaf_vals X) (st_locations st);
     (co, d5) \<leftarrow> keyed_commitment X (\<lambda>k. k) (coin_leaf_vals X) (st_coins st);
     (ca, d6) \<leftarrow> cards_commitment X (st_cards st);
     (fi, d7) \<leftarrow> keyed_commitment X (\<lambda>k. k) (file_leaf_vals X) (st_files st);
     (ti, d8) \<leftarrow> keyed_commitment X u64_key_bytes (bytes32_leaf_vals X) (st_time st);
     (si, d9) \<leftarrow> keyed_commitment X (\<lambda>k. k) (signal_leaf_vals X) (st_signals st);
     (cm, a) \<leftarrow> keyed_commitment X (\<lambda>k. k) goldilocks_leaf_vals (st_commitments st);
     (nu, n) \<leftarrow> keyed_commitment X (\<lambda>k. k) unit_leaf_vals (st_nullifiers st);
     Some (st\<lparr>st_particles := pa, st_axons_out := ou, st_axons_in := inn, st_neurons := ne, st_locations := lo,
         st_coins := co, st_cards := ca, st_files := fi, st_time := ti, st_signals := si, st_balances := ba,
         st_commitments := cm, st_nullifiers := nu\<rparr>,
       [d0, d1, d2, d3, d4, d5, d6, d7, d8, d9, d10], a, n) }"

definition PARALLEL_FLUSH :: nat where "PARALLEL_FLUSH = 2 ^ 14"
definition EPOCH_BLOCKS :: u64 where "EPOCH_BLOCKS = 100"

definition v2_leaves :: "ext \<Rightarrow> bbg_state \<Rightarrow> (bbg_state \<times> digest list \<times> digest \<times> digest) option" where
  "v2_leaves X st =
     (let pending = keyed_pending (st_particles st) + axon_pending (st_axons_out st) + axon_pending (st_axons_in st) +
            keyed_pending (st_neurons st) + keyed_pending (st_balances st) + cards_pending (st_cards st) +
            keyed_pending (st_time st) + keyed_pending (st_signals st)
      in if PARALLEL_FLUSH \<le> pending then v2_leaves_parallel X st else v2_leaves_sequential X st)"

definition v1_leaves :: "ext \<Rightarrow> bbg_state \<Rightarrow> (bbg_state \<times> digest list \<times> digest \<times> digest) option" where
  "v1_leaves X st = do {
     let (st, c0) = commit_particles X st;
     d0 \<leftarrow> digest_limbs X c0;
     let (st, c1) = commit_axons_out X st;
     d1 \<leftarrow> digest_limbs X c1;
     let (st, c2) = commit_axons_in X st;
     d2 \<leftarrow> digest_limbs X c2;
     let (st, c3) = commit_neurons X st;
     d3 \<leftarrow> digest_limbs X c3;
     let (st, c4) = commit_locations X st;
     d4 \<leftarrow> digest_limbs X c4;
     let (st, c5) = commit_coins X st;
     d5 \<leftarrow> digest_limbs X c5;
     let (st, c6) = commit_cards X st;
     d6 \<leftarrow> digest_limbs X c6;
     let (st, c7) = commit_files X st;
     d7 \<leftarrow> digest_limbs X c7;
     let (st, c8) = commit_time X st;
     d8 \<leftarrow> digest_limbs X c8;
     let (st, c9) = commit_signals X st;
     d9 \<leftarrow> digest_limbs X c9;
     let (st, c10) = commit_balances X st;
     d10 \<leftarrow> digest_limbs X c10;
     let (st, ca) = commit_a X st;
     a \<leftarrow> digest_limbs X ca;
     let (st, cn) = commit_n X st;
     n \<leftarrow> digest_limbs X cn;
     Some (st, [d0, d1, d2, d3, d4, d5, d6, d7, d8, d9, d10], a, n) }"

definition state_root_leaves :: "ext \<Rightarrow> bbg_state \<Rightarrow> (bbg_state \<times> root_leaves) option" where
  "state_root_leaves X st = do {
     (st, dims, a, n) \<leftarrow> (case st_root_version st of V1 \<Rightarrow> v1_leaves X st | V2 \<Rightarrow> v2_leaves X st);
     s \<leftarrow> digest_limbs X (stats_commit X (statistics st));
     Some (st, \<lparr>rl_dims = dims, rl_a = a, rl_n = n, rl_stats = s\<rparr>) }"

definition compute_root :: "ext \<Rightarrow> bbg_state \<Rightarrow> (bbg_state \<times> particle) option" where
  "compute_root X st = do {
     (st, leaves) \<leftarrow> state_root_leaves X st;
     Some (st, root_to_bytes (root_from_leaves X leaves)) }"

definition state_root :: "ext \<Rightarrow> bbg_state \<Rightarrow> (bbg_state \<times> particle) option" where
  "state_root X st = compute_root X st"

definition refresh_root :: "ext \<Rightarrow> bbg_state \<Rightarrow> (bbg_state \<times> particle) option" where
  "refresh_root X st = compute_root X st"

section \<open>The invariant\<close>

text \<open>Every dimension keeps its own invariant.\<close>

definition state_ok :: "ext \<Rightarrow> bbg_state \<Rightarrow> bool" where
  "state_ok X st \<longleftrightarrow>
     keyed_ok X (\<lambda>k. k) (particle_leaf_vals X) (st_particles st) \<and> axon_ok X (st_axons_out st) \<and> axon_ok X (st_axons_in st) \<and>
     keyed_ok X (\<lambda>k. k) (neuron_leaf_vals X) (st_neurons st) \<and> keyed_ok X (\<lambda>k. k) (location_leaf_vals X) (st_locations st) \<and>
     keyed_ok X (\<lambda>k. k) (coin_leaf_vals X) (st_coins st) \<and> cards_ok X (st_cards st) \<and>
     keyed_ok X (\<lambda>k. k) (file_leaf_vals X) (st_files st) \<and> keyed_ok X u64_key_bytes (bytes32_leaf_vals X) (st_time st) \<and>
     keyed_ok X (\<lambda>k. k) (signal_leaf_vals X) (st_signals st) \<and> keyed_ok X (\<lambda>k. k) goldilocks_leaf_vals (st_commitments st) \<and>
     keyed_ok X (\<lambda>k. k) unit_leaf_vals (st_nullifiers st) \<and> keyed_ok X (\<lambda>k. k) (u64_leaf_vals X) (st_balances st)"

text \<open>No cached flat commitment is stale.\<close>

definition flat_a :: "ext \<Rightarrow> (particle, goldilocks) fmap \<Rightarrow> particle" where
  "flat_a X m = commit_dim X (map (\<lambda>(k, v). (k, [v])) (sorted_list_of_fmap m))"

definition flat_n :: "ext \<Rightarrow> (particle, unit) fmap \<Rightarrow> particle" where
  "flat_n X m = commit_dim X (map (\<lambda>k. (k, [1])) (sorted_list_of_fset (fmdom m)))"

text \<open>The flat tables of a state, with those of the two private sets, and the length that \<open>lens\<close> documents for a table
  (\<open>specs/state.md\<close>, \<open>MAX_VARIABLES\<close>): beyond it nothing is known of the flat derivation.\<close>

definition flat_tables :: "ext \<Rightarrow> bbg_state \<Rightarrow> goldilocks list list" where
  "flat_tables X st = map (\<lambda>d. dim_serialize X (dim_entries X st d))
      [Particles, AxonsOut, AxonsIn, Neurons, Locations, Coins, Cards, Files, Time, Signals, Balances] @
    [dim_serialize X (map (\<lambda>(k, v). (k, [v])) (sorted_list_of_fmap (kd_map (st_commitments st)))),
     dim_serialize X (map (\<lambda>k. (k, [1])) (sorted_list_of_fset (fmdom (kd_map (st_nullifiers st)))))]"

definition lens_bounded :: "ext \<Rightarrow> bbg_state \<Rightarrow> bool" where
  "lens_bounded X st \<longleftrightarrow> st_root_version st = V2 \<or> (\<forall>fs \<in> set (flat_tables X st). length fs \<le> 2 ^ 20)"

definition state_fresh :: "ext \<Rightarrow> bbg_state \<Rightarrow> bool" where
  "state_fresh X st \<longleftrightarrow>
     legacy_ok (\<lambda>_. commit_dim X (dim_entries X st Particles)) (st_particles st) \<and>
     axon_legacy_ok (\<lambda>m. commit_dim X (axon_entries X m)) (st_axons_out st) \<and>
     axon_legacy_ok (\<lambda>m. commit_dim X (axon_entries X m)) (st_axons_in st) \<and>
     legacy_ok (\<lambda>_. commit_dim X (dim_entries X st Neurons)) (st_neurons st) \<and>
     legacy_ok (\<lambda>_. commit_dim X (dim_entries X st Locations)) (st_locations st) \<and>
     legacy_ok (\<lambda>_. commit_dim X (dim_entries X st Coins)) (st_coins st) \<and>
     legacy_ok (\<lambda>_. commit_dim X (dim_entries X st Cards)) (cd_records (st_cards st)) \<and>
     legacy_ok (\<lambda>_. commit_dim X (dim_entries X st Files)) (st_files st) \<and>
     legacy_ok (\<lambda>_. commit_dim X (dim_entries X st Time)) (st_time st) \<and>
     legacy_ok (\<lambda>_. commit_dim X (dim_entries X st Signals)) (st_signals st) \<and>
     legacy_ok (\<lambda>_. commit_dim X (dim_entries X st Balances)) (st_balances st) \<and>
     legacy_ok (flat_a X) (st_commitments st) \<and> legacy_ok (flat_n X) (st_nullifiers st)"

text \<open>Every trie has room for its pending records and \<open>n\<close> nodes more; arenas are indexed by \<open>u32\<close>.\<close>

definition state_fits :: "nat \<Rightarrow> bbg_state \<Rightarrow> bool" where
  "state_fits n st \<longleftrightarrow>
     keyed_load (st_particles st) + n \<le> 2 ^ 32 \<and> axon_load (st_axons_out st) + n \<le> 2 ^ 32 \<and>
     axon_load (st_axons_in st) + n \<le> 2 ^ 32 \<and> keyed_load (st_neurons st) + n \<le> 2 ^ 32 \<and>
     keyed_load (st_locations st) + n \<le> 2 ^ 32 \<and> keyed_load (st_coins st) + n \<le> 2 ^ 32 \<and>
     keyed_load (cd_records (st_cards st)) + n \<le> 2 ^ 32 \<and> keyed_load (st_files st) + n \<le> 2 ^ 32 \<and>
     keyed_load (st_time st) + n \<le> 2 ^ 32 \<and> keyed_load (st_signals st) + n \<le> 2 ^ 32 \<and>
     keyed_load (st_commitments st) + n \<le> 2 ^ 32 \<and> keyed_load (st_nullifiers st) + n \<le> 2 ^ 32 \<and>
     keyed_load (st_balances st) + n \<le> 2 ^ 32 \<and>
     (\<forall>p. set_room (st_axons_out st) p + n \<le> 2 ^ 32) \<and> (\<forall>p. set_room (st_axons_in st) p + n \<le> 2 ^ 32)"

lemma state_fits_mono: "state_fits m st \<Longrightarrow> n \<le> m \<Longrightarrow> state_fits n st"
  unfolding state_fits_def by (meson add_le_mono le_refl order_trans)

text \<open>The records of a state: what it shows, without caches.\<close>

definition same_records :: "bbg_state \<Rightarrow> bbg_state \<Rightarrow> bool" where
  "same_records st st' \<longleftrightarrow>
     kd_map (st_particles st') = kd_map (st_particles st) \<and> ax_map (st_axons_out st') = ax_map (st_axons_out st) \<and>
     ax_map (st_axons_in st') = ax_map (st_axons_in st) \<and> kd_map (st_neurons st') = kd_map (st_neurons st) \<and>
     kd_map (st_locations st') = kd_map (st_locations st) \<and> kd_map (st_coins st') = kd_map (st_coins st) \<and>
     card_map (st_cards st') = card_map (st_cards st) \<and> kd_map (st_files st') = kd_map (st_files st) \<and>
     kd_map (st_time st') = kd_map (st_time st) \<and> kd_map (st_signals st') = kd_map (st_signals st) \<and>
     kd_map (st_commitments st') = kd_map (st_commitments st) \<and> kd_map (st_nullifiers st') = kd_map (st_nullifiers st) \<and>
     kd_map (st_balances st') = kd_map (st_balances st) \<and> st_intents st' = st_intents st \<and>
     st_axon_edges st' = st_axon_edges st \<and> st_diameter_override st' = st_diameter_override st \<and>
     st_height st' = st_height st \<and> st_root_version st' = st_root_version st"

lemma same_records_refl [simp, intro]: "same_records st st"
  by (simp add: same_records_def)

lemma same_records_sym: "same_records st st' \<Longrightarrow> same_records st' st"
  by (simp add: same_records_def)

lemma same_records_trans: "same_records a b \<Longrightarrow> same_records b c \<Longrightarrow> same_records a c"
  by (simp add: same_records_def)

lemma state_ok_new: "state_ok X state_new"
  by (simp add: state_ok_def state_new_def keyed_ok_new axon_ok_new cards_ok_new)

lemma state_fresh_new: "state_fresh X state_new"
  by (simp add: state_fresh_def state_new_def axon_legacy_ok_def axon_new_def cards_new_def del: dim_entries.simps)

lemma state_fits_new: "n \<le> 2 ^ 32 \<Longrightarrow> state_fits n state_new"
proof -
  have k: "keyed_load (keyed_new :: ('k, 'v) keyed) = 0"
    by (simp add: keyed_new_def keyed_pending_def new_nodes fcard.rep_eq)
  have a: "axon_load axon_new = 0" "set_room axon_new p = 0" for p
    by (simp_all add: axon_new_def axon_pending_def new_nodes fcard.rep_eq set_room_def)
  show "n \<le> 2 ^ 32 \<Longrightarrow> state_fits n state_new"
    unfolding state_fits_def state_new_def by (simp only: bbg_state.simps cards_new_def cards.simps k a) simp
qed

section \<open>The root of the records\<close>

definition stats_spec :: "bbg_state \<Rightarrow> graph_stats" where
  "stats_spec st = (statistics st)\<lparr>gs_max_degree := of_nat (max
     (Max (insert 0 (range (list_len (ax_map (st_axons_out st)))))) (Max (insert 0 (range (list_len (ax_map (st_axons_in st)))))))\<rparr>"

definition v1_leaf :: "ext \<Rightarrow> bbg_state \<Rightarrow> dim \<Rightarrow> digest" where
  "v1_leaf X st d = goldilocks_from_bytes32 X (commit_dim X (dim_entries X st d))"

definition leaves_spec :: "ext \<Rightarrow> bbg_state \<Rightarrow> digest list \<times> digest \<times> digest" where
  "leaves_spec X st = (case st_root_version st of
     V1 \<Rightarrow> (map (v1_leaf X st) [Particles, AxonsOut, AxonsIn, Neurons, Locations, Coins, Cards, Files, Time, Signals, Balances],
       goldilocks_from_bytes32 X (flat_a X (kd_map (st_commitments st))),
       goldilocks_from_bytes32 X (flat_n X (kd_map (st_nullifiers st))))
   | V2 \<Rightarrow> ([keyed_spec X (\<lambda>k. k) (particle_leaf_vals X) (kd_map (st_particles st)),
         axon_spec X (ax_map (st_axons_out st)), axon_spec X (ax_map (st_axons_in st)),
         keyed_spec X (\<lambda>k. k) (neuron_leaf_vals X) (kd_map (st_neurons st)),
         keyed_spec X (\<lambda>k. k) (location_leaf_vals X) (kd_map (st_locations st)),
         keyed_spec X (\<lambda>k. k) (coin_leaf_vals X) (kd_map (st_coins st)),
         keyed_spec X (\<lambda>k. k) (card_leaf_vals X) (card_map (st_cards st)),
         keyed_spec X (\<lambda>k. k) (file_leaf_vals X) (kd_map (st_files st)),
         keyed_spec X u64_key_bytes (bytes32_leaf_vals X) (kd_map (st_time st)),
         keyed_spec X (\<lambda>k. k) (signal_leaf_vals X) (kd_map (st_signals st)),
         keyed_spec X (\<lambda>k. k) (u64_leaf_vals X) (kd_map (st_balances st))],
       keyed_spec X (\<lambda>k. k) goldilocks_leaf_vals (kd_map (st_commitments st)),
       keyed_spec X (\<lambda>k. k) unit_leaf_vals (kd_map (st_nullifiers st))))"

definition spec_leaves :: "ext \<Rightarrow> bbg_state \<Rightarrow> root_leaves" where
  "spec_leaves X st = (case leaves_spec X st of (dims, a, n) \<Rightarrow> \<lparr>rl_dims = dims, rl_a = a, rl_n = n,
     rl_stats = goldilocks_from_bytes32 X (stats_commit X (stats_spec st))\<rparr>)"

definition root_spec :: "ext \<Rightarrow> bbg_state \<Rightarrow> particle" where
  "root_spec X st = root_to_bytes (root_from_leaves X (spec_leaves X st))"

lemma dim_entries_same: "same_records st st' \<Longrightarrow> dim_entries X st' d = dim_entries X st d"
  by (cases d) (simp_all add: same_records_def)

lemma stats_spec_same: "same_records st st' \<Longrightarrow> stats_spec st' = stats_spec st"
  by (simp add: same_records_def stats_spec_def statistics_def Let_def)

lemma spec_leaves_same: "same_records st st' \<Longrightarrow> spec_leaves X st' = spec_leaves X st"
proof -
  assume s: "same_records st st'"
  have "v1_leaf X st' = v1_leaf X st" by (rule ext) (simp add: v1_leaf_def dim_entries_same [OF s])
  then have "leaves_spec X st' = leaves_spec X st"
    using s by (cases "st_root_version st") (simp_all add: leaves_spec_def same_records_def)
  then show ?thesis by (simp add: spec_leaves_def stats_spec_same [OF s])
qed

lemma root_spec_same: "same_records st st' \<Longrightarrow> root_spec X st' = root_spec X st"
  by (simp add: root_spec_def spec_leaves_same)

lemma statistics_ok: "state_ok X st \<Longrightarrow> statistics st = stats_spec st"
  using axon_max_degree_ok(1) [of X "st_axons_out st"] axon_max_degree_ok(1) [of X "st_axons_in st"]
  by (simp add: state_ok_def statistics_def stats_spec_def Let_def)

text \<open>The threads of a bulk load compute what the sequential read computes.\<close>

lemma bind_pair_None: "Option.bind a (\<lambda>(x, y). None) = None"
  by (cases a) auto

lemma v2_parallel_sequential: "v2_leaves_parallel X st = v2_leaves_sequential X st"
  unfolding v2_leaves_parallel_def v2_leaves_sequential_def
  by (cases "keyed_commitment X (\<lambda>k. k) (u64_leaf_vals X) (st_balances st)") (simp_all add: case_prod_beta bind_pair_None)

text \<open>A dimension before and after its commitment was read.\<close>

definition keyed_committed :: "ext \<Rightarrow> ('k::linorder \<Rightarrow> particle) \<Rightarrow> ('v \<Rightarrow> goldilocks list) \<Rightarrow> ('k, 'v) keyed \<Rightarrow> ('k, 'v) keyed \<Rightarrow> bool" where
  "keyed_committed X kb lv m m' \<longleftrightarrow> keyed_commitment X kb lv m = Some (m', keyed_spec X kb lv (kd_map m)) \<and>
     keyed_ok X kb lv m' \<and> kd_map m' = kd_map m \<and> kd_legacy m' = kd_legacy m \<and> keyed_load m' \<le> keyed_load m"

definition axon_committed :: "ext \<Rightarrow> axon_index \<Rightarrow> axon_index \<Rightarrow> bool" where
  "axon_committed X m m' \<longleftrightarrow> axon_commitment X m = Some (m', axon_spec X (ax_map m)) \<and> axon_ok X m' \<and> ax_map m' = ax_map m \<and>
     ax_legacy m' = ax_legacy m \<and> axon_load m' \<le> axon_load m \<and> (\<forall>p. set_room m' p = set_room m p)"

definition cards_committed :: "ext \<Rightarrow> cards \<Rightarrow> cards \<Rightarrow> bool" where
  "cards_committed X c c' \<longleftrightarrow> cards_commitment X c = Some (c', keyed_spec X (\<lambda>k. k) (card_leaf_vals X) (card_map c)) \<and>
     cards_ok X c' \<and> card_map c' = card_map c \<and> kd_legacy (cd_records c') = kd_legacy (cd_records c) \<and>
     keyed_load (cd_records c') \<le> keyed_load (cd_records c)"

lemma committed_ex:
  "keyed_ok X (\<lambda>k. k) lv m \<Longrightarrow> keyed_load m + n \<le> 2 ^ 32 \<Longrightarrow> \<exists>m'. keyed_committed X (\<lambda>k. k) lv m m'"
  "keyed_ok X u64_key_bytes lv' t \<Longrightarrow> keyed_load t + n \<le> 2 ^ 32 \<Longrightarrow> \<exists>t'. keyed_committed X u64_key_bytes lv' t t'"
  "axon_ok X ix \<Longrightarrow> axon_load ix + n \<le> 2 ^ 32 \<Longrightarrow> \<exists>ix'. axon_committed X ix ix'"
  "cards_ok X c \<Longrightarrow> keyed_load (cd_records c) + n \<le> 2 ^ 32 \<Longrightarrow> \<exists>c'. cards_committed X c c'"
  using bytes_key.commitment_ok [of X lv m] height_key.commitment_ok [of X lv' t] axon_commitment_ok [of X ix]
    axon_commitment_legacy [of X ix] cards_commitment_ok [of X c]
  unfolding keyed_committed_def axon_committed_def cards_committed_def cards_pending_def
  by (blast dest: add_leD1)+

lemma committed_load:
  "keyed_committed X kb lv m m' \<Longrightarrow> keyed_load m + n \<le> b \<Longrightarrow> keyed_load m' + n \<le> b"
  "axon_committed X ix ix' \<Longrightarrow> axon_load ix + n \<le> b \<Longrightarrow> axon_load ix' + n \<le> b"
  "axon_committed X ix ix' \<Longrightarrow> \<forall>p. set_room ix p + n \<le> b \<Longrightarrow> \<forall>p. set_room ix' p + n \<le> b"
  "cards_committed X c c' \<Longrightarrow> keyed_load (cd_records c) + n \<le> b \<Longrightarrow> keyed_load (cd_records c') + n \<le> b"
  by (simp_all add: keyed_committed_def axon_committed_def cards_committed_def)

lemma v2_leaves_ok:
  assumes "state_ok X st" and "state_fresh X st" and "state_fits n st" and "st_root_version st = V2"
  shows "\<exists>st'. v2_leaves X st = Some (st', leaves_spec X st) \<and> state_ok X st' \<and> state_fresh X st' \<and> same_records st st' \<and>
    state_fits n st'"
proof -
  note ok = assms(1) [unfolded state_ok_def] and fit = assms(3) [unfolded state_fits_def]
  have "\<exists>m. keyed_committed X (\<lambda>k. k) (particle_leaf_vals X) (st_particles st) m"
      "\<exists>m. keyed_committed X (\<lambda>k. k) (neuron_leaf_vals X) (st_neurons st) m"
      "\<exists>m. keyed_committed X (\<lambda>k. k) (location_leaf_vals X) (st_locations st) m"
      "\<exists>m. keyed_committed X (\<lambda>k. k) (coin_leaf_vals X) (st_coins st) m"
      "\<exists>m. keyed_committed X (\<lambda>k. k) (file_leaf_vals X) (st_files st) m"
      "\<exists>m. keyed_committed X (\<lambda>k. k) (signal_leaf_vals X) (st_signals st) m"
      "\<exists>m. keyed_committed X (\<lambda>k. k) (u64_leaf_vals X) (st_balances st) m"
      "\<exists>m. keyed_committed X (\<lambda>k. k) goldilocks_leaf_vals (st_commitments st) m"
      "\<exists>m. keyed_committed X (\<lambda>k. k) unit_leaf_vals (st_nullifiers st) m"
      "\<exists>m. keyed_committed X u64_key_bytes (bytes32_leaf_vals X) (st_time st) m" "\<exists>m. cards_committed X (st_cards st) m"
      "\<exists>m. axon_committed X (st_axons_out st) m" "\<exists>m. axon_committed X (st_axons_in st) m"
    by (rule committed_ex [where n = n]; use ok fit in blast)+
  then obtain pa ne lo co fi si ba cm nu ti ca ou inn where
    k: "keyed_committed X (\<lambda>k. k) (particle_leaf_vals X) (st_particles st) pa"
      "keyed_committed X (\<lambda>k. k) (neuron_leaf_vals X) (st_neurons st) ne"
      "keyed_committed X (\<lambda>k. k) (location_leaf_vals X) (st_locations st) lo"
      "keyed_committed X (\<lambda>k. k) (coin_leaf_vals X) (st_coins st) co"
      "keyed_committed X (\<lambda>k. k) (file_leaf_vals X) (st_files st) fi"
      "keyed_committed X (\<lambda>k. k) (signal_leaf_vals X) (st_signals st) si"
      "keyed_committed X (\<lambda>k. k) (u64_leaf_vals X) (st_balances st) ba"
      "keyed_committed X (\<lambda>k. k) goldilocks_leaf_vals (st_commitments st) cm"
      "keyed_committed X (\<lambda>k. k) unit_leaf_vals (st_nullifiers st) nu"
      "keyed_committed X u64_key_bytes (bytes32_leaf_vals X) (st_time st) ti" "cards_committed X (st_cards st) ca"
      "axon_committed X (st_axons_out st) ou" "axon_committed X (st_axons_in st) inn"
    by blast
  note c = k [unfolded keyed_committed_def cards_committed_def axon_committed_def]
  let ?st = "st\<lparr>st_particles := pa, st_axons_out := ou, st_axons_in := inn, st_neurons := ne, st_locations := lo,
         st_coins := co, st_cards := ca, st_files := fi, st_time := ti, st_signals := si, st_balances := ba,
         st_commitments := cm, st_nullifiers := nu\<rparr>"
  have "v2_leaves X st = Some (?st, leaves_spec X st)"
    using assms(4) by (simp add: v2_leaves_def v2_parallel_sequential v2_leaves_sequential_def Let_def leaves_spec_def c)
  moreover have "state_ok X ?st" by (simp add: state_ok_def c)
  moreover have same: "same_records st ?st" by (simp add: same_records_def c)
  moreover have "state_fresh X ?st"
    using assms(2) unfolding state_fresh_def dim_entries_same [OF same]
    by (simp add: legacy_ok_def axon_legacy_ok_def c del: dim_entries.simps)
  moreover have "state_fits n ?st"
    using fit k(1-10) [THEN committed_load(1), of n "2 ^ 32"] committed_load(4) [OF k(11), of n "2 ^ 32"]
      k(12,13) [THEN committed_load(2), of n "2 ^ 32"] k(12,13) [THEN committed_load(3), of n "2 ^ 32"]
    by (simp add: state_fits_def)
  ultimately show ?thesis by blast
qed

text \<open>A flat commitment that is not stale: the cache becomes explicit.\<close>

lemma flat_cached [simp]:
  "legacy_ok (\<lambda>_. c) m \<Longrightarrow> keyed_legacy_commitment (\<lambda>_. c) m = (m\<lparr>kd_legacy := Some c\<rparr>, c)"
  "legacy_ok (\<lambda>_. c) (cd_records cs) \<Longrightarrow>
     cards_legacy_commitment (\<lambda>_. c) cs = (cs\<lparr>cd_records := (cd_records cs)\<lparr>kd_legacy := Some c\<rparr>\<rparr>, c)"
  by (auto simp: keyed_legacy_commitment_def cards_legacy_commitment_def legacy_ok_def Let_def split: option.split)

lemma flat_cached_map:
  "legacy_ok f m \<Longrightarrow> keyed_legacy_commitment f m = (m\<lparr>kd_legacy := Some (f (kd_map m))\<rparr>, f (kd_map m))"
  "axon_legacy_ok g ix \<Longrightarrow> axon_legacy_commitment (\<lambda>_. g (ax_map ix)) ix = (ix\<lparr>ax_legacy := Some (g (ax_map ix))\<rparr>, g (ax_map ix))"
  by (auto simp: keyed_legacy_commitment_def axon_legacy_commitment_def legacy_ok_def axon_legacy_ok_def Let_def split: option.split)

lemma caches_keep:
  "keyed_ok X kb lv (m\<lparr>kd_legacy := c\<rparr>) = keyed_ok X kb lv m" "axon_ok X (ix\<lparr>ax_legacy := c\<rparr>) = axon_ok X ix"
  "keyed_pending (m\<lparr>kd_legacy := c\<rparr>) = keyed_pending m" "axon_pending (ix\<lparr>ax_legacy := c\<rparr>) = axon_pending ix"
  "set_room (ix\<lparr>ax_legacy := c\<rparr>) p = set_room ix p"
  by (simp_all add: keyed_ok_def axon_ok_def keyed_pending_def axon_pending_def set_room_def)

lemma v1_leaves_ok:
  assumes "state_ok X st" and fr: "state_fresh X st" and "state_fits n st" and "st_root_version st = V1" and "hemera_laws X"
  shows "\<exists>st'. v1_leaves X st = Some (st', leaves_spec X st) \<and> state_ok X st' \<and> state_fresh X st' \<and> same_records st st' \<and>
    state_fits n st'"
proof -
  have lim: "digest_limbs X (commit_dim X es) = Some (goldilocks_from_bytes32 X (commit_dim X es))" for es
    using assms(5) by (intro digest_limbs_canonical) (simp add: hemera_laws_def commit_dim_def commit_fields_def Let_def)
  let ?c = "\<lambda>d. commit_dim X (dim_entries X st d)"
  let ?st = "st\<lparr>st_particles := (st_particles st)\<lparr>kd_legacy := Some (?c Particles)\<rparr>,
     st_axons_out := (st_axons_out st)\<lparr>ax_legacy := Some (?c AxonsOut)\<rparr>,
     st_axons_in := (st_axons_in st)\<lparr>ax_legacy := Some (?c AxonsIn)\<rparr>,
     st_neurons := (st_neurons st)\<lparr>kd_legacy := Some (?c Neurons)\<rparr>,
     st_locations := (st_locations st)\<lparr>kd_legacy := Some (?c Locations)\<rparr>,
     st_coins := (st_coins st)\<lparr>kd_legacy := Some (?c Coins)\<rparr>,
     st_cards := (st_cards st)\<lparr>cd_records := (cd_records (st_cards st))\<lparr>kd_legacy := Some (?c Cards)\<rparr>\<rparr>,
     st_files := (st_files st)\<lparr>kd_legacy := Some (?c Files)\<rparr>,
     st_time := (st_time st)\<lparr>kd_legacy := Some (?c Time)\<rparr>,
     st_signals := (st_signals st)\<lparr>kd_legacy := Some (?c Signals)\<rparr>,
     st_balances := (st_balances st)\<lparr>kd_legacy := Some (?c Balances)\<rparr>,
     st_commitments := (st_commitments st)\<lparr>kd_legacy := Some (flat_a X (kd_map (st_commitments st)))\<rparr>,
     st_nullifiers := (st_nullifiers st)\<lparr>kd_legacy := Some (flat_n X (kd_map (st_nullifiers st)))\<rparr>\<rparr>"
  note fresh = fr [unfolded state_fresh_def dim_entries.simps]
  have a: "keyed_legacy_commitment (\<lambda>m. commit_dim X (map (\<lambda>(k, v). (k, [v])) (sorted_list_of_fmap m))) (st_commitments st) =
      ((st_commitments st)\<lparr>kd_legacy := Some (flat_a X (kd_map (st_commitments st)))\<rparr>, flat_a X (kd_map (st_commitments st)))"
    and b: "keyed_legacy_commitment (\<lambda>m. commit_dim X (map (\<lambda>k. (k, [1])) (sorted_list_of_fset (fmdom m)))) (st_nullifiers st) =
      ((st_nullifiers st)\<lparr>kd_legacy := Some (flat_n X (kd_map (st_nullifiers st)))\<rparr>, flat_n X (kd_map (st_nullifiers st)))"
    using flat_cached_map(1) [of "flat_a X" "st_commitments st"] flat_cached_map(1) [of "flat_n X" "st_nullifiers st"] fresh
    by (simp_all add: flat_a_def [abs_def] flat_n_def [abs_def])
  have lim': "digest_limbs X (flat_a X m) = Some (goldilocks_from_bytes32 X (flat_a X m))"
    "digest_limbs X (flat_n X m') = Some (goldilocks_from_bytes32 X (flat_n X m'))" for m m'
    by (simp_all add: flat_a_def flat_n_def lim)
  have ax: "axon_legacy_commitment (\<lambda>_. commit_dim X (axon_entries X (ax_map ix))) ix =
      (ix\<lparr>ax_legacy := Some (commit_dim X (axon_entries X (ax_map ix)))\<rparr>, commit_dim X (axon_entries X (ax_map ix)))"
    if "axon_legacy_ok (\<lambda>m. commit_dim X (axon_entries X m)) ix" for ix
    using flat_cached_map(2) [OF that] .
  have "v1_leaves X st = Some (?st, leaves_spec X st)"
    using assms(4) fresh
    by (simp add: v1_leaves_def commit_particles_def commit_axons_out_def commit_axons_in_def commit_neurons_def
        commit_locations_def commit_coins_def commit_cards_def commit_files_def commit_time_def commit_signals_def
        commit_balances_def commit_a_def commit_n_def lim lim' ax a b leaves_spec_def v1_leaf_def)
  moreover have same: "same_records st ?st" by (simp add: same_records_def del: dim_entries.simps)
  moreover have "state_ok X ?st" using assms(1) by (simp add: state_ok_def caches_keep cards_ok_def del: dim_entries.simps)
  moreover have "state_fits n ?st" using assms(3) by (simp add: state_fits_def caches_keep del: dim_entries.simps)
  moreover have "state_fresh X ?st"
    unfolding state_fresh_def dim_entries_same [OF same] by (simp add: legacy_ok_def axon_legacy_ok_def)
  ultimately show ?thesis by blast
qed

lemma state_root_leaves_ok:
  assumes "state_ok X st" and "state_fresh X st" and "state_fits n st" and "hemera_laws X"
  shows "\<exists>st'. state_root_leaves X st = Some (st', spec_leaves X st) \<and> state_ok X st' \<and> state_fresh X st' \<and> same_records st st' \<and>
    state_fits n st'"
proof -
  obtain st' where st': "(case st_root_version st of V1 \<Rightarrow> v1_leaves X st | V2 \<Rightarrow> v2_leaves X st) = Some (st', leaves_spec X st)"
    "state_ok X st'" "state_fresh X st'" "same_records st st'" "state_fits n st'"
    using v1_leaves_ok [OF assms(1,2,3) _ assms(4)] v2_leaves_ok [OF assms(1,2,3)] by (cases "st_root_version st") auto
  have "statistics st' = stats_spec st"
    using statistics_ok [OF st'(2)] stats_spec_same [OF st'(4)] by simp
  moreover have "digest_limbs X (stats_commit X s) = Some (goldilocks_from_bytes32 X (stats_commit X s))" for s
    using assms(4) by (intro digest_limbs_canonical) (simp add: hemera_laws_def stats_commit_def)
  ultimately have "state_root_leaves X st = Some (st', spec_leaves X st)"
    by (simp add: state_root_leaves_def st'(1) spec_leaves_def split: prod.split)
  then show ?thesis using st'(2-5) by blast
qed

lemma compute_root_ok:
  assumes "state_ok X st" and "state_fresh X st" and "state_fits n st" and "hemera_laws X"
  shows "\<exists>st'. compute_root X st = Some (st', root_spec X st) \<and> state_ok X st' \<and> state_fresh X st' \<and> same_records st st' \<and>
    state_fits n st'"
  using state_root_leaves_ok [OF assms] by (auto simp: compute_root_def root_spec_def)

section \<open>Changes that keep the invariant\<close>

definition state_inv :: "ext \<Rightarrow> nat \<Rightarrow> bbg_state \<Rightarrow> bool" where
  "state_inv X n st \<longleftrightarrow> state_ok X st \<and> state_fresh X st \<and> state_fits n st"

text \<open>A change of one dimension that keeps its invariant, drops its flat cache if it changes anything, and makes at
  most \<open>k\<close> more trie nodes necessary.\<close>

definition keyed_evolves :: "ext \<Rightarrow> ('k \<Rightarrow> particle) \<Rightarrow> ('v \<Rightarrow> goldilocks list) \<Rightarrow> nat \<Rightarrow> ('k, 'v) keyed \<Rightarrow> ('k, 'v) keyed \<Rightarrow> bool" where
  "keyed_evolves X kb lv k m m' \<longleftrightarrow> (keyed_ok X kb lv m \<longrightarrow> keyed_ok X kb lv m') \<and> (m' = m \<or> kd_legacy m' = None) \<and>
     keyed_load m' \<le> keyed_load m + k"

definition axon_evolves :: "ext \<Rightarrow> nat \<Rightarrow> axon_index \<Rightarrow> axon_index \<Rightarrow> bool" where
  "axon_evolves X k m m' \<longleftrightarrow> (axon_ok X m \<longrightarrow> axon_ok X m') \<and> (\<forall>f. axon_legacy_ok f m \<longrightarrow> axon_legacy_ok f m') \<and>
     axon_load m' \<le> axon_load m + k \<and> (\<forall>p. set_room m' p \<le> set_room m p + k)"

definition cards_evolves :: "ext \<Rightarrow> nat \<Rightarrow> cards \<Rightarrow> cards \<Rightarrow> bool" where
  "cards_evolves X k c c' \<longleftrightarrow> (cards_ok X c \<longrightarrow> cards_ok X c') \<and> (c' = c \<or> kd_legacy (cd_records c') = None) \<and>
     keyed_load (cd_records c') \<le> keyed_load (cd_records c) + k"

definition state_evolves :: "ext \<Rightarrow> nat \<Rightarrow> bbg_state \<Rightarrow> bbg_state \<Rightarrow> bool" where
  "state_evolves X k st st' \<longleftrightarrow>
     keyed_evolves X (\<lambda>k. k) (particle_leaf_vals X) k (st_particles st) (st_particles st') \<and>
     axon_evolves X k (st_axons_out st) (st_axons_out st') \<and> axon_evolves X k (st_axons_in st) (st_axons_in st') \<and>
     keyed_evolves X (\<lambda>k. k) (neuron_leaf_vals X) k (st_neurons st) (st_neurons st') \<and>
     keyed_evolves X (\<lambda>k. k) (location_leaf_vals X) k (st_locations st) (st_locations st') \<and>
     keyed_evolves X (\<lambda>k. k) (coin_leaf_vals X) k (st_coins st) (st_coins st') \<and>
     cards_evolves X k (st_cards st) (st_cards st') \<and>
     keyed_evolves X (\<lambda>k. k) (file_leaf_vals X) k (st_files st) (st_files st') \<and>
     keyed_evolves X u64_key_bytes (bytes32_leaf_vals X) k (st_time st) (st_time st') \<and>
     keyed_evolves X (\<lambda>k. k) (signal_leaf_vals X) k (st_signals st) (st_signals st') \<and>
     keyed_evolves X (\<lambda>k. k) goldilocks_leaf_vals k (st_commitments st) (st_commitments st') \<and>
     keyed_evolves X (\<lambda>k. k) unit_leaf_vals k (st_nullifiers st) (st_nullifiers st') \<and>
     keyed_evolves X (\<lambda>k. k) (u64_leaf_vals X) k (st_balances st) (st_balances st')"

lemma evolves_refl [simp, intro]:
  "keyed_evolves X kb lv k m m" "axon_evolves X k ix ix" "cards_evolves X k c c"
  by (simp_all add: keyed_evolves_def axon_evolves_def cards_evolves_def)

lemma state_evolves_refl [simp, intro]: "state_evolves X k st st"
  by (simp add: state_evolves_def)

lemma keyed_evolves_trans:
  "keyed_evolves X kb lv j a b \<Longrightarrow> keyed_evolves X kb lv k b c \<Longrightarrow> keyed_evolves X kb lv (j + k) a c"
  by (auto simp: keyed_evolves_def)

lemma keyed_evolves_mono: "keyed_evolves X kb lv j a b \<Longrightarrow> j \<le> k \<Longrightarrow> keyed_evolves X kb lv k a b"
  by (auto simp: keyed_evolves_def)

lemma axon_evolves_trans: "axon_evolves X j a b \<Longrightarrow> axon_evolves X k b c \<Longrightarrow> axon_evolves X (j + k) a c"
proof -
  assume ab: "axon_evolves X j a b" and bc: "axon_evolves X k b c"
  have "set_room c p \<le> set_room a p + (j + k)" for p
  proof -
    have "set_room b p \<le> set_room a p + j" "set_room c p \<le> set_room b p + k" using ab bc by (simp_all add: axon_evolves_def)
    then show ?thesis by linarith
  qed
  then show ?thesis using ab bc by (simp add: axon_evolves_def)
qed

lemma cards_evolves_trans: "cards_evolves X j a b \<Longrightarrow> cards_evolves X k b c \<Longrightarrow> cards_evolves X (j + k) a c"
  by (auto simp: cards_evolves_def)

lemma state_evolves_trans: "state_evolves X j a b \<Longrightarrow> state_evolves X k b c \<Longrightarrow> state_evolves X (j + k) a c"
  unfolding state_evolves_def by (meson keyed_evolves_trans axon_evolves_trans cards_evolves_trans)

lemma axon_evolves_mono: "axon_evolves X j a b \<Longrightarrow> j \<le> k \<Longrightarrow> axon_evolves X k a b"
  unfolding axon_evolves_def by (meson add_le_mono le_refl order_trans)

lemma cards_evolves_mono: "cards_evolves X j a b \<Longrightarrow> j \<le> k \<Longrightarrow> cards_evolves X k a b"
  by (auto simp: cards_evolves_def)

lemma state_evolves_mono: "state_evolves X j a b \<Longrightarrow> j \<le> k \<Longrightarrow> state_evolves X k a b"
  unfolding state_evolves_def by (meson keyed_evolves_mono axon_evolves_mono cards_evolves_mono)

lemma evolves_fits:
  "keyed_evolves X kb lv k m m' \<Longrightarrow> keyed_load m + (n + k) \<le> b \<Longrightarrow> keyed_load m' + n \<le> b"
  "axon_evolves X k ix ix' \<Longrightarrow> axon_load ix + (n + k) \<le> b \<Longrightarrow> axon_load ix' + n \<le> b"
  "axon_evolves X k ix ix' \<Longrightarrow> \<forall>p. set_room ix p + (n + k) \<le> b \<Longrightarrow> \<forall>p. set_room ix' p + n \<le> b"
  "cards_evolves X k c c' \<Longrightarrow> keyed_load (cd_records c) + (n + k) \<le> b \<Longrightarrow> keyed_load (cd_records c') + n \<le> b"
proof -
  assume e: "axon_evolves X k ix ix'" and r: "\<forall>p. set_room ix p + (n + k) \<le> b"
  show "\<forall>p. set_room ix' p + n \<le> b"
  proof
    fix p
    have "set_room ix' p \<le> set_room ix p + k" using e by (simp add: axon_evolves_def)
    then show "set_room ix' p + n \<le> b" using r [rule_format, of p] by linarith
  qed
qed (simp_all add: keyed_evolves_def axon_evolves_def cards_evolves_def)

lemma evolves_legacy:
  "keyed_evolves X kb lv k m m' \<Longrightarrow> legacy_ok f m \<Longrightarrow> (m' = m \<Longrightarrow> f = f') \<Longrightarrow> legacy_ok f' m'"
  "cards_evolves X k c c' \<Longrightarrow> legacy_ok g (cd_records c) \<Longrightarrow> (c' = c \<Longrightarrow> g = g') \<Longrightarrow> legacy_ok g' (cd_records c')"
  by (auto simp: keyed_evolves_def cards_evolves_def legacy_ok_def)

lemma state_inv_evolves:
  assumes inv: "state_inv X (n + k) st" and ev: "state_evolves X k st st'"
  shows "state_inv X n st'"
proof -
  note ev = ev [unfolded state_evolves_def] and fr = inv [unfolded state_inv_def state_fresh_def]
    and fit = inv [unfolded state_inv_def state_fits_def]
  have "state_ok X st'"
    using inv ev by (simp add: state_inv_def state_ok_def keyed_evolves_def axon_evolves_def cards_evolves_def)
  moreover have "state_fresh X st'"
  proof -
    have "legacy_ok (\<lambda>_. commit_dim X (dim_entries X st' Particles)) (st_particles st')"
      "legacy_ok (\<lambda>_. commit_dim X (dim_entries X st' Neurons)) (st_neurons st')"
      "legacy_ok (\<lambda>_. commit_dim X (dim_entries X st' Locations)) (st_locations st')"
      "legacy_ok (\<lambda>_. commit_dim X (dim_entries X st' Coins)) (st_coins st')"
      "legacy_ok (\<lambda>_. commit_dim X (dim_entries X st' Files)) (st_files st')"
      "legacy_ok (\<lambda>_. commit_dim X (dim_entries X st' Time)) (st_time st')"
      "legacy_ok (\<lambda>_. commit_dim X (dim_entries X st' Signals)) (st_signals st')"
      "legacy_ok (\<lambda>_. commit_dim X (dim_entries X st' Balances)) (st_balances st')"
      by (rule evolves_legacy(1), use ev in blast, use fr in blast, simp)+
    moreover have "legacy_ok (\<lambda>_. commit_dim X (dim_entries X st' Cards)) (cd_records (st_cards st'))"
      by (rule evolves_legacy(2), use ev in blast, use fr in blast, simp)
    moreover have "legacy_ok (flat_a X) (st_commitments st')" "legacy_ok (flat_n X) (st_nullifiers st')"
      by (rule evolves_legacy(1), use ev in blast, use fr in blast, simp)+
    ultimately show ?thesis
      unfolding state_fresh_def using ev fr by (simp add: axon_evolves_def del: dim_entries.simps)
  qed
  moreover have "state_fits n st'"
  proof -
    have "keyed_load (st_particles st') + n \<le> 2 ^ 32" "keyed_load (st_neurons st') + n \<le> 2 ^ 32"
      "keyed_load (st_locations st') + n \<le> 2 ^ 32" "keyed_load (st_coins st') + n \<le> 2 ^ 32"
      "keyed_load (st_files st') + n \<le> 2 ^ 32" "keyed_load (st_time st') + n \<le> 2 ^ 32"
      "keyed_load (st_signals st') + n \<le> 2 ^ 32" "keyed_load (st_balances st') + n \<le> 2 ^ 32"
      "keyed_load (st_commitments st') + n \<le> 2 ^ 32" "keyed_load (st_nullifiers st') + n \<le> 2 ^ 32"
      by (rule evolves_fits(1); use ev fit in blast)+
    moreover have "axon_load (st_axons_out st') + n \<le> 2 ^ 32" "axon_load (st_axons_in st') + n \<le> 2 ^ 32"
      by (rule evolves_fits(2); use ev fit in blast)+
    moreover have "\<forall>p. set_room (st_axons_out st') p + n \<le> 2 ^ 32" "\<forall>p. set_room (st_axons_in st') p + n \<le> 2 ^ 32"
      by (rule evolves_fits(3); use ev fit in blast)+
    moreover have "keyed_load (cd_records (st_cards st')) + n \<le> 2 ^ 32"
      by (rule evolves_fits(4); use ev fit in blast)
    ultimately show ?thesis by (simp add: state_fits_def)
  qed
  ultimately show ?thesis by (simp add: state_inv_def)
qed

lemma state_inv_mono: "state_inv X m st \<Longrightarrow> n \<le> m \<Longrightarrow> state_inv X n st"
  by (auto simp: state_inv_def intro: state_fits_mono)

lemma state_inv_new: "n \<le> 2 ^ 32 \<Longrightarrow> state_inv X n state_new"
  by (simp add: state_inv_def state_ok_new state_fresh_new state_fits_new)

lemma compute_root_inv:
  assumes "state_inv X n st" and "hemera_laws X"
  obtains st' where "compute_root X st = Some (st', root_spec X st)" "state_inv X n st'" "same_records st st'"
  using compute_root_ok [of X st n] assms by (auto simp: state_inv_def)

lemma insert_evolves:
  "keyed_evolves X (\<lambda>k. k) lv 2 m (fst (keyed_insert m key v))"
  "keyed_evolves X u64_key_bytes lv' 2 t (fst (keyed_insert t h p))"
  "keyed_evolves X (\<lambda>k. k) lv 2 m (keyed_or_insert m key v f)"
  "keyed_evolves X (\<lambda>k. k) lv 2 m (fst (keyed_remove m key))"
  "keyed_evolves X u64_key_bytes lv' 2 t (fst (keyed_remove t h))"
  unfolding keyed_evolves_def
  by (intro conjI impI bytes_key.insert_ok height_key.insert_ok bytes_key.or_insert_ok bytes_key.remove_ok height_key.remove_ok
        keyed_load_ops; simp?; auto simp: keyed_insert_def keyed_or_insert_def keyed_remove_def keyed_touched_def Let_def split: option.splits)+

lemma axon_add_evolves:
  assumes "axon_ok X ix" and "set_room ix p + 2 \<le> 2 ^ 32"
  obtains ix' where "axon_add X ix p a = Some (ix', a \<notin> set (axons ix p))" "axon_evolves X 2 ix ix'"
    "ax_map ix' = (if a \<in> set (axons ix p) then ax_map ix else fmupd p (axons ix p @ [a]) (ax_map ix))"
proof -
  obtain ix' where ix': "axon_add X ix p a = Some (ix', a \<notin> set (axons ix p))" "axon_ok X ix'"
    "ax_map ix' = (if a \<in> set (axons ix p) then ax_map ix else fmupd p (axons ix p @ [a]) (ax_map ix))"
    using axon_add_ok [OF assms] by blast
  have "set_room ix' q \<le> set_room ix q + 2" for q
    using axon_add_room [OF assms ix'(1), of q] by (simp split: if_splits)
  then have "axon_evolves X 2 ix ix'"
    using ix' axon_add_load [OF ix'(1)] axon_add_legacy [OF ix'(1)] by (simp add: axon_evolves_def)
  then show ?thesis using ix' that by blast
qed

section \<open>Domain separation of the keys\<close>

text \<open>The preimages of the keys that share the balances dimension or name records: by length or by
  tag no two kinds coincide.\<close>

lemma tag_lengths [simp]: "length D_CARD = 20" "length D_STAKE = 21" "length D_FOCUS = 21"
  by (simp_all add: D_CARD_def D_STAKE_def D_FOCUS_def ascii_def)

lemma stake_focus_tags: "D_STAKE \<noteq> D_FOCUS"
  by (simp add: D_STAKE_def D_FOCUS_def ascii_def of_char_def)

section \<open>Properties\<close>

text \<open>C10: a root read succeeds and returns the same value for the same records: it equals the 14-leaf fold
  over the dimension commitments the records define, whatever was pending or cached, under both derivations;
  under the flat derivation as long as no table is longer than the \<open>2^20\<close> fields the polynomial commitment takes.
  The read changes caches only.\<close>

theorem root_of_records:
  assumes "state_ok X st" and "state_fresh X st" and "state_fits 0 st"
    and "state_ok X u" and "state_fresh X u" and "state_fits 0 u" and "hemera_laws X" and "same_records st u" and "lens_bounded X st"
  shows "\<exists>st' u'. state_root X st = Some (st', root_spec X st) \<and> state_root X u = Some (u', root_spec X st) \<and>
    same_records st st' \<and> state_ok X st' \<and> state_fresh X st'"
  using compute_root_ok [OF assms(1-3,7)] compute_root_ok [OF assms(4-7)] root_spec_same [OF assms(8)]
  unfolding state_root_def by metis

definition sample_balance :: "root_version \<Rightarrow> u64 \<Rightarrow> bbg_state" where
  "sample_balance version amount = state_new\<lparr>st_balances := fst (keyed_insert keyed_new 7 amount), st_root_version := version\<rparr>"

definition rebalanced :: "bbg_state \<Rightarrow> bbg_state" where
  "rebalanced st = st\<lparr>st_balances := fst (keyed_insert (st_balances st) 7 5)\<rparr>"

lemma rebalanced_inv: "state_inv X (n + 2) st \<Longrightarrow> state_inv X n (rebalanced st)"
  by (rule state_inv_evolves [of X n 2 st]) (simp_all add: rebalanced_def state_evolves_def insert_evolves)

lemma sample_balance_inv: "state_inv X 2 (sample_balance version amount)"
proof -
  have "state_inv X (2 + 2) (state_new\<lparr>st_root_version := version\<rparr>)"
    using state_inv_new [of 4 X] by (simp add: state_inv_def state_ok_def state_fresh_def state_fits_def)
  moreover have "state_evolves X 2 (state_new\<lparr>st_root_version := version\<rparr>) (sample_balance version amount)"
    using insert_evolves(1) [of X "u64_leaf_vals X" keyed_new 7 amount] by (simp add: state_evolves_def sample_balance_def state_new_def)
  ultimately show ?thesis by (rule state_inv_evolves)
qed

lemma sorted_list_of_single: "sorted_list_of_fmap (fmupd k v fmempty) = [(k, v)]" "sorted_list_of_fmap fmempty = []"
  by (simp_all add: sorted_list_of_fmap_def sorted_list_of_fset.rep_eq)

lemma sample_balance_bounded: "lens_bounded sample_ext (sample_balance version 5)"
proof -
  have "length (bytes32_limbs sample_ext k) = 8" for k by (simp add: bytes32_limbs_def)
  then show ?thesis
    by (simp add: lens_bounded_def flat_tables_def sample_balance_def state_new_def keyed_new_def keyed_insert_def keyed_touched_def axon_new_def cards_new_def
        axon_entries_def dim_serialize_def sorted_list_of_fset.rep_eq sorted_list_of_single scalar_fields_def)
qed

theorem root_of_records_witness:
  "\<forall>version. \<exists>a r st' u'. state_root sample_ext (sample_balance version 1) = Some (a, r) \<and>
     state_root sample_ext (sample_balance version 5) = Some (st', root_spec sample_ext (sample_balance version 5)) \<and>
     state_root sample_ext (rebalanced a) = Some (u', root_spec sample_ext (sample_balance version 5)) \<and>
     kd_dirty (st_balances (sample_balance version 5)) = {|7|} \<and> same_records (sample_balance version 5) st'"
proof
  fix version :: root_version
  let ?st = "sample_balance version 5"
  obtain a where a: "compute_root sample_ext (sample_balance version 1) = Some (a, root_spec sample_ext (sample_balance version 1))"
      "state_inv sample_ext 2 a" "same_records (sample_balance version 1) a"
    by (rule compute_root_inv [OF sample_balance_inv hemera_laws_sample])
  have u: "state_inv sample_ext 0 (rebalanced a)" by (intro rebalanced_inv) (simp only: add_0 a(2))
  have st: "state_inv sample_ext 0 ?st" by (rule state_inv_mono [OF sample_balance_inv]) simp
  have "same_records ?st (rebalanced a)"
    using a(3) by (simp add: same_records_def rebalanced_def sample_balance_def keyed_insert_def keyed_touched_def keyed_new_def fmap_ext)
  from root_of_records [OF _ _ _ _ _ _ hemera_laws_sample this sample_balance_bounded] st u
  show "\<exists>a r st' u'. state_root sample_ext (sample_balance version 1) = Some (a, r) \<and>
     state_root sample_ext ?st = Some (st', root_spec sample_ext ?st) \<and>
     state_root sample_ext (rebalanced a) = Some (u', root_spec sample_ext ?st) \<and>
     kd_dirty (st_balances ?st) = {|7|} \<and> same_records ?st st'"
    using a(1) by (fastforce simp: state_inv_def state_root_def sample_balance_def keyed_insert_def keyed_touched_def keyed_new_def)
qed

text \<open>No transfer can reach a position's stake or a focus pool, and no key of one kind is a key of another:
  the preimages differ in length or in tag, so equal keys are a collision of the hash.\<close>

theorem keys_domain_separated:
  assumes "inj_on (hm_hash X) {D_STAKE @ be_bytes 32 c, D_FOCUS @ be_bytes 32 t, be_bytes 32 o1 @ be_bytes 32 o2,
    be_bytes 32 n @ le_bytes 8 s, be_bytes 32 n @ le_bytes 8 s @ be_bytes 32 h, D_CARD @ be_bytes 32 n @ be_bytes 32 o1 @ be_bytes 32 o2}"
  shows "distinct [stake_key X c, focus_key X t, balance_key X o1 o2, signal_key X n s, intent_key X n s h, card_id X n o1 o2]"
proof -
  let ?ps = "[D_STAKE @ be_bytes 32 c, D_FOCUS @ be_bytes 32 t, be_bytes 32 o1 @ be_bytes 32 o2,
    be_bytes 32 n @ le_bytes 8 s, be_bytes 32 n @ le_bytes 8 s @ be_bytes 32 h, D_CARD @ be_bytes 32 n @ be_bytes 32 o1 @ be_bytes 32 o2]"
  have "distinct ?ps" using stake_focus_tags by (auto dest: arg_cong [where f = length])
  moreover have "inj_on (hm_hash X) (set ?ps)" using assms by simp
  ultimately have "distinct (map (hm_hash X) ?ps)" by (simp only: distinct_map)
  then show ?thesis
    by (simp add: stake_key_def focus_key_def balance_key_def signal_key_def intent_key_def card_id_def tagged_def)
qed

text \<open>A hash that separates inputs of different lengths and one tag.\<close>

definition length_ext :: ext where
  "length_ext = sample_ext\<lparr>hm_hash := (\<lambda>bs. of_nat (length bs) + (if take 21 bs = D_FOCUS then 1000 else 0))\<rparr>"

theorem keys_domain_separated_witness:
  "distinct [stake_key length_ext 1, focus_key length_ext 2, balance_key length_ext 3 4, signal_key length_ext 5 6,
     intent_key length_ext 5 6 7, card_id length_ext 5 3 4]"
proof (rule keys_domain_separated)
  have tag: "take 21 (be_bytes 32 (a :: particle) @ bs) \<noteq> D_FOCUS" if "byte_at a 0 = 0" for a bs
  proof
    assume "take 21 (be_bytes 32 a @ bs) = D_FOCUS"
    then have "take 21 (be_bytes 32 a @ bs) ! 0 = D_FOCUS ! 0" by simp
    then show False
      using that byte_at_be_bytes [of 0 a] by (simp add: D_FOCUS_def ascii_def of_char_def nth_append)
  qed
  show "inj_on (hm_hash length_ext) {D_STAKE @ be_bytes 32 (1 :: particle), D_FOCUS @ be_bytes 32 (2 :: particle),
    be_bytes 32 (3 :: particle) @ be_bytes 32 (4 :: particle), be_bytes 32 (5 :: particle) @ le_bytes 8 (6 :: u64),
    be_bytes 32 (5 :: particle) @ le_bytes 8 (6 :: u64) @ be_bytes 32 (7 :: particle),
    D_CARD @ be_bytes 32 (5 :: particle) @ be_bytes 32 (3 :: particle) @ be_bytes 32 (4 :: particle)}"
    using stake_focus_tags by (auto simp: inj_on_def length_ext_def tag byte_at_def)
qed

end
