(* ===== verification/Bbg_Insert.thy ===== *)
theory Bbg_Insert
  imports Bbg_State
begin

text \<open>
  Signals and their insertion (\<open>signal.rs\<close>, \<open>BbgState::insert\<close>, \<open>apply_intent\<close> and \<open>apply_signal_record\<close> of
  \<open>state.rs\<close>). The effect of a signal on the records is stated on the maps alone; the theorems show that the code has
  exactly that effect, keeps every dimension's invariant, and refuses a double spend without a trace.
\<close>

section \<open>Signals\<close>

record cyberlink =
  cl_from :: particle
  cl_to :: particle
  cl_token :: particle
  cl_amount :: u64
  cl_valence :: "8 word"

record box_move =
  bm_nullifier :: particle
  bm_commitment :: "(particle \<times> u64) option"

record signal =
  sg_neuron :: neuron_id
  sg_links :: "cyberlink list"
  sg_box_moves :: "box_move list"
  sg_height :: u64

datatype insert_error = DoubleSpend

section \<open>Insertion\<close>

definition map_or :: "'b \<Rightarrow> ('a \<Rightarrow> 'b) \<Rightarrow> 'a option \<Rightarrow> 'b" where
  "map_or d f x = (case x of None \<Rightarrow> d | Some a \<Rightarrow> f a)"

fun apply_moves :: "ext \<Rightarrow> bbg_state \<Rightarrow> box_move list \<Rightarrow> bbg_state" where
  "apply_moves X st [] = st"
| "apply_moves X st (mv # mvs) =
     (let st = st\<lparr>st_nullifiers := fst (kset_insert (st_nullifiers st) (bm_nullifier mv))\<rparr>;
          st = (case bm_commitment mv of
                  None \<Rightarrow> st
                | Some (point, v) \<Rightarrow> st\<lparr>st_commitments := fst (keyed_insert (st_commitments st) point (gl_new X v))\<rparr>)
      in apply_moves X st mvs)"

text \<open>The record updates of a link that carries conviction, in the order of the code: the weight of the axon, the
  energy of the target, the author's focus, the credit of the target and the debit of the source.\<close>

definition add_weight :: "bbg_state \<Rightarrow> particle \<Rightarrow> u64 \<Rightarrow> bbg_state" where
  "add_weight st aid amount =
     (let w = map_or amount (\<lambda>p. saturating_add (pr_weight p) amount) (fmlookup (kd_map (st_particles st)) aid)
      in st\<lparr>st_particles := keyed_or_insert (st_particles st) aid particle_zero (\<lambda>p. p\<lparr>pr_weight := w\<rparr>)\<rparr>)"

definition add_energy :: "bbg_state \<Rightarrow> particle \<Rightarrow> u64 \<Rightarrow> bbg_state" where
  "add_energy st to amount =
     (let e = map_or amount (\<lambda>p. saturating_add (pr_energy p) amount) (fmlookup (kd_map (st_particles st)) to)
      in st\<lparr>st_particles := keyed_or_insert (st_particles st) to particle_zero (\<lambda>p. p\<lparr>pr_energy := e\<rparr>)\<rparr>)"

definition spend_focus :: "bbg_state \<Rightarrow> neuron_id \<Rightarrow> u64 \<Rightarrow> bbg_state" where
  "spend_focus st neuron amount =
     (case keyed_get_mut (st_neurons st) neuron (\<lambda>nr. nr\<lparr>nr_focus := saturating_sub (nr_focus nr) amount\<rparr>) of
        None \<Rightarrow> st
      | Some m \<Rightarrow> st\<lparr>st_neurons := m\<rparr>)"

definition credit :: "bbg_state \<Rightarrow> particle \<Rightarrow> u64 \<Rightarrow> bbg_state" where
  "credit st to_key amount =
     (let credited = map_or amount (\<lambda>b. saturating_add b amount) (fmlookup (kd_map (st_balances st)) to_key)
      in st\<lparr>st_balances := fst (keyed_insert (st_balances st) to_key credited)\<rparr>)"

definition debit :: "bbg_state \<Rightarrow> particle \<Rightarrow> u64 \<Rightarrow> bbg_state" where
  "debit st from_key amount =
     (let rest = map_or 0 (\<lambda>b. saturating_sub b amount) (fmlookup (kd_map (st_balances st)) from_key)
      in if rest = 0 then st\<lparr>st_balances := fst (keyed_remove (st_balances st) from_key)\<rparr>
         else st\<lparr>st_balances := fst (keyed_insert (st_balances st) from_key rest)\<rparr>)"

definition apply_conviction :: "ext \<Rightarrow> neuron_id \<Rightarrow> bbg_state \<Rightarrow> cyberlink \<Rightarrow> particle \<Rightarrow> bbg_state" where
  "apply_conviction X neuron st link aid =
     (let st = add_weight st aid (cl_amount link);
          st = add_energy st (cl_to link) (cl_amount link);
          st = spend_focus st neuron (cl_amount link);
          st = credit st (balance_key X (cl_to link) (cl_token link)) (cl_amount link)
      in debit st (balance_key X (cl_from link) (cl_token link)) (cl_amount link))"

definition apply_link :: "ext \<Rightarrow> neuron_id \<Rightarrow> bbg_state \<Rightarrow> cyberlink \<Rightarrow> bbg_state option" where
  "apply_link X neuron st link = do {
     let aid = axon_id X (cl_from link) (cl_to link);
     (out, _) \<leftarrow> axon_add X (st_axons_out st) (cl_from link) aid;
     let st = st\<lparr>st_axons_out := out\<rparr>;
     (inn, _) \<leftarrow> axon_add X (st_axons_in st) (cl_to link) aid;
     let st = st\<lparr>st_axons_in := inn\<rparr>;
     let st = (case fmlookup (st_axon_edges st) aid of
                 None \<Rightarrow> st\<lparr>st_axon_edges := fmupd aid (cl_from link, cl_to link) (st_axon_edges st)\<rparr>
               | Some _ \<Rightarrow> st);
     Some (if cl_amount link = 0 then st else apply_conviction X neuron st link aid) }"

fun apply_links :: "ext \<Rightarrow> neuron_id \<Rightarrow> bbg_state \<Rightarrow> cyberlink list \<Rightarrow> bbg_state option" where
  "apply_links X neuron st [] = Some st"
| "apply_links X neuron st (link # links) = do {
     st \<leftarrow> apply_link X neuron st link;
     apply_links X neuron st links }"

definition state_insert :: "ext \<Rightarrow> bbg_state \<Rightarrow> signal \<Rightarrow> (bbg_state \<times> (insert_error + unit)) option" where
  "state_insert X st signal =
     (if \<exists>mv \<in> set (sg_box_moves signal). kset_contains (st_nullifiers st) (bm_nullifier mv)
      then Some (st, Inl DoubleSpend)
      else do {
        let st = apply_moves X st (sg_box_moves signal);
        st \<leftarrow> apply_links X (sg_neuron signal) st (sg_links signal);
        Some (st, Inr ()) })"

definition apply_intent :: "ext \<Rightarrow> bbg_state \<Rightarrow> intent_record \<Rightarrow> bbg_state \<times> particle" where
  "apply_intent X st intent =
     (let key = intent_key X (ir_neuron intent) (ir_h0 intent) (ir_scope_hash intent)
      in (st\<lparr>st_intents := fmupd key \<lparr>ir_neuron = ir_neuron intent, ir_h0 = ir_h0 intent,
            ir_scope_hash = ir_scope_hash intent, ir_signature = ir_signature intent\<rparr> (st_intents st)\<rparr>, key))"

definition apply_signal_record :: "ext \<Rightarrow> bbg_state \<Rightarrow> signal_record \<Rightarrow> bbg_state \<times> particle" where
  "apply_signal_record X st r =
     (let key = signal_key X (sr_neuron r) (sr_step r)
      in (st\<lparr>st_signals := fst (keyed_insert (st_signals st) key r)\<rparr>, key))"

section \<open>The effect on the records\<close>

definition balance_of :: "(particle, u64) fmap \<Rightarrow> particle \<Rightarrow> u64" where
  "balance_of m k = (case fmlookup m k of None \<Rightarrow> 0 | Some b \<Rightarrow> b)"

text \<open>A balance of zero is an absent row.\<close>

definition with_balance :: "particle \<Rightarrow> u64 \<Rightarrow> (particle, u64) fmap \<Rightarrow> (particle, u64) fmap" where
  "with_balance k b m = (if b = 0 then fmdrop k m else fmupd k b m)"

definition record_of :: "(particle, particle_record) fmap \<Rightarrow> particle \<Rightarrow> particle_record" where
  "record_of m k = (case fmlookup m k of None \<Rightarrow> particle_zero | Some r \<Rightarrow> r)"

definition list_add :: "particle \<Rightarrow> particle \<Rightarrow> (particle, particle list) fmap \<Rightarrow> (particle, particle list) fmap" where
  "list_add p a m = (let l = (case fmlookup m p of None \<Rightarrow> [] | Some l \<Rightarrow> l)
     in if a \<in> set l then m else fmupd p (l @ [a]) m)"

definition link_particles :: "ext \<Rightarrow> (particle, particle_record) fmap \<Rightarrow> cyberlink \<Rightarrow> (particle, particle_record) fmap" where
  "link_particles X m l = (if cl_amount l = 0 then m else
     (let aid = axon_id X (cl_from l) (cl_to l);
          m = fmupd aid ((record_of m aid)\<lparr>pr_weight := saturating_add (pr_weight (record_of m aid)) (cl_amount l)\<rparr>) m
      in fmupd (cl_to l) ((record_of m (cl_to l))\<lparr>pr_energy := saturating_add (pr_energy (record_of m (cl_to l))) (cl_amount l)\<rparr>) m))"

definition link_neurons :: "neuron_id \<Rightarrow> (particle, neuron_record) fmap \<Rightarrow> cyberlink \<Rightarrow> (particle, neuron_record) fmap" where
  "link_neurons neuron m l = (case fmlookup m neuron of
     None \<Rightarrow> m
   | Some r \<Rightarrow> fmupd neuron (r\<lparr>nr_focus := saturating_sub (nr_focus r) (cl_amount l)\<rparr>) m)"

definition link_balances :: "ext \<Rightarrow> (particle, u64) fmap \<Rightarrow> cyberlink \<Rightarrow> (particle, u64) fmap" where
  "link_balances X m l = (if cl_amount l = 0 then m else
     (let kt = balance_key X (cl_to l) (cl_token l);
          kf = balance_key X (cl_from l) (cl_token l);
          m = with_balance kt (saturating_add (balance_of m kt) (cl_amount l)) m
      in with_balance kf (saturating_sub (balance_of m kf) (cl_amount l)) m))"

definition link_edges :: "ext \<Rightarrow> (particle, particle \<times> particle) fmap \<Rightarrow> cyberlink \<Rightarrow> (particle, particle \<times> particle) fmap" where
  "link_edges X m l = (let aid = axon_id X (cl_from l) (cl_to l)
     in case fmlookup m aid of None \<Rightarrow> fmupd aid (cl_from l, cl_to l) m | Some _ \<Rightarrow> m)"

text \<open>The records after a list of links, given the records before.\<close>

definition links_effect :: "ext \<Rightarrow> neuron_id \<Rightarrow> cyberlink list \<Rightarrow> bbg_state \<Rightarrow> bbg_state \<Rightarrow> bool" where
  "links_effect X neuron ls st st' \<longleftrightarrow>
     kd_map (st_particles st') = foldl (link_particles X) (kd_map (st_particles st)) ls \<and>
     ax_map (st_axons_out st') = foldl (\<lambda>m l. list_add (cl_from l) (axon_id X (cl_from l) (cl_to l)) m) (ax_map (st_axons_out st)) ls \<and>
     ax_map (st_axons_in st') = foldl (\<lambda>m l. list_add (cl_to l) (axon_id X (cl_from l) (cl_to l)) m) (ax_map (st_axons_in st)) ls \<and>
     kd_map (st_neurons st') = foldl (link_neurons neuron) (kd_map (st_neurons st)) ls \<and>
     kd_map (st_balances st') = foldl (link_balances X) (kd_map (st_balances st)) ls \<and>
     st_axon_edges st' = foldl (link_edges X) (st_axon_edges st) ls \<and>
     st_locations st' = st_locations st \<and> st_coins st' = st_coins st \<and> st_cards st' = st_cards st \<and> st_files st' = st_files st \<and>
     st_time st' = st_time st \<and> st_signals st' = st_signals st \<and> st_commitments st' = st_commitments st \<and>
     st_nullifiers st' = st_nullifiers st \<and> st_intents st' = st_intents st \<and>
     st_diameter_override st' = st_diameter_override st \<and> st_height st' = st_height st \<and> st_root_version st' = st_root_version st"

lemma saturating_add_0 [simp]: "saturating_add 0 a = a"
  by (simp add: saturating_add_def)

lemma saturating_sub_0 [simp]: "saturating_sub a 0 = a" "saturating_sub 0 a = 0"
  by (simp_all add: saturating_sub_def)

lemma saturating_add_nonzero: "a \<noteq> 0 \<Longrightarrow> saturating_add b a \<noteq> 0" for a b :: u64
  using unat_saturating_add [of b a] unsigned_less [of a, where 'a = nat] by (auto simp: unat_eq_0 min_def split: if_splits)

lemma keyed_get_mut_map:
  "keyed_get_mut m k f = None \<longleftrightarrow> fmlookup (kd_map m) k = None"
  "keyed_get_mut m k f = Some m' \<Longrightarrow> \<exists>v. fmlookup (kd_map m) k = Some v \<and> m' = fst (keyed_insert m k (f v))"
  by (auto simp: keyed_get_mut_def keyed_insert_def split: option.splits)

section \<open>The code has that effect\<close>

fun moves_commitments :: "ext \<Rightarrow> (particle, goldilocks) fmap \<Rightarrow> box_move list \<Rightarrow> (particle, goldilocks) fmap" where
  "moves_commitments X m [] = m"
| "moves_commitments X m (mv # mvs) = moves_commitments X
     (case bm_commitment mv of None \<Rightarrow> m | Some (p, v) \<Rightarrow> fmupd p (gl_new X v) m) mvs"

lemma apply_moves_ok:
  "\<exists>N C. apply_moves X st mvs = st\<lparr>st_nullifiers := N, st_commitments := C\<rparr> \<and>
     kd_map N = foldl (\<lambda>m mv. fmupd (bm_nullifier mv) () m) (kd_map (st_nullifiers st)) mvs \<and>
     kd_map C = moves_commitments X (kd_map (st_commitments st)) mvs \<and>
     keyed_evolves X (\<lambda>k. k) unit_leaf_vals (2 * length mvs) (st_nullifiers st) N \<and>
     keyed_evolves X (\<lambda>k. k) goldilocks_leaf_vals (2 * length mvs) (st_commitments st) C"
proof (induction mvs arbitrary: st)
  case Nil
  then show ?case by (intro exI [of _ "st_nullifiers st"] exI [of _ "st_commitments st"]) simp
next
  case (Cons mv mvs)
  let ?n = "fst (keyed_insert (st_nullifiers st) (bm_nullifier mv) ())"
  let ?c = "case bm_commitment mv of None \<Rightarrow> st_commitments st
    | Some (p, v) \<Rightarrow> fst (keyed_insert (st_commitments st) p (gl_new X v))"
  let ?st = "st\<lparr>st_nullifiers := ?n, st_commitments := ?c\<rparr>"
  have r: "apply_moves X st (mv # mvs) = apply_moves X ?st mvs"
    by (simp add: Let_def kset_insert_def case_prod_beta split: option.splits)
  have c: "kd_map ?c = (case bm_commitment mv of None \<Rightarrow> kd_map (st_commitments st) | Some (p, v) \<Rightarrow> fmupd p (gl_new X v) (kd_map (st_commitments st)))"
    "keyed_evolves X (\<lambda>k. k) goldilocks_leaf_vals 2 (st_commitments st) ?c"
    by (auto simp: insert_evolves split: option.splits)
  obtain N C where IH: "apply_moves X ?st mvs = ?st\<lparr>st_nullifiers := N, st_commitments := C\<rparr>"
     "kd_map N = foldl (\<lambda>m mv. fmupd (bm_nullifier mv) () m) (kd_map ?n) mvs" "kd_map C = moves_commitments X (kd_map ?c) mvs"
     "keyed_evolves X (\<lambda>k. k) unit_leaf_vals (2 * length mvs) ?n N"
     "keyed_evolves X (\<lambda>k. k) goldilocks_leaf_vals (2 * length mvs) ?c C"
    using Cons.IH [of ?st] by auto
  have "keyed_evolves X (\<lambda>k. k) unit_leaf_vals (2 * length (mv # mvs)) (st_nullifiers st) N"
    using keyed_evolves_trans [OF insert_evolves(1) IH(4)] by simp
  moreover have "keyed_evolves X (\<lambda>k. k) goldilocks_leaf_vals (2 * length (mv # mvs)) (st_commitments st) C"
    using keyed_evolves_trans [OF c(2) IH(5)] by simp
  ultimately show ?case
    unfolding r IH(1) using IH(2,3) c(1) by (intro exI [of _ N] exI [of _ C]) simp
qed

text \<open>A link with conviction touches three dimensions.\<close>

lemma add_weight_energy:
  "\<exists>P. add_weight st k a = st\<lparr>st_particles := P\<rparr> \<and> keyed_evolves X (\<lambda>k. k) (particle_leaf_vals X) 2 (st_particles st) P \<and>
     kd_map P = fmupd k ((record_of (kd_map (st_particles st)) k)\<lparr>pr_weight := saturating_add (pr_weight (record_of (kd_map (st_particles st)) k)) a\<rparr>)
       (kd_map (st_particles st))"
  "\<exists>P. add_energy st k a = st\<lparr>st_particles := P\<rparr> \<and> keyed_evolves X (\<lambda>k. k) (particle_leaf_vals X) 2 (st_particles st) P \<and>
     kd_map P = fmupd k ((record_of (kd_map (st_particles st)) k)\<lparr>pr_energy := saturating_add (pr_energy (record_of (kd_map (st_particles st)) k)) a\<rparr>)
       (kd_map (st_particles st))"
  unfolding add_weight_def add_energy_def Let_def
  by (intro exI conjI, rule refl, rule insert_evolves, simp add: map_or_def record_of_def particle_zero_def split: option.split)+

lemma spend_focus_ok:
  "\<exists>N. spend_focus st neuron (cl_amount l) = st\<lparr>st_neurons := N\<rparr> \<and> keyed_evolves X (\<lambda>k. k) (neuron_leaf_vals X) 2 (st_neurons st) N \<and>
     kd_map N = link_neurons neuron (kd_map (st_neurons st)) l"
proof (cases "fmlookup (kd_map (st_neurons st)) neuron")
  case None
  then show ?thesis by (intro exI [of _ "st_neurons st"]) (simp add: spend_focus_def keyed_get_mut_def link_neurons_def)
next
  case (Some r)
  let ?N = "fst (keyed_insert (st_neurons st) neuron (r\<lparr>nr_focus := saturating_sub (nr_focus r) (cl_amount l)\<rparr>))"
  show ?thesis
    by (intro exI [of _ ?N] conjI insert_evolves)
      (simp_all add: Some spend_focus_def keyed_get_mut_def keyed_insert_def link_neurons_def keyed_touched_def)
qed

lemma credit_debit:
  "a \<noteq> 0 \<Longrightarrow> \<exists>B. credit st k a = st\<lparr>st_balances := B\<rparr> \<and> keyed_evolves X (\<lambda>k. k) (u64_leaf_vals X) 2 (st_balances st) B \<and>
     kd_map B = with_balance k (saturating_add (balance_of (kd_map (st_balances st)) k) a) (kd_map (st_balances st))"
  "\<exists>B. debit st k a = st\<lparr>st_balances := B\<rparr> \<and> keyed_evolves X (\<lambda>k. k) (u64_leaf_vals X) 2 (st_balances st) B \<and>
     kd_map B = with_balance k (saturating_sub (balance_of (kd_map (st_balances st)) k) a) (kd_map (st_balances st))"
proof -
  show "\<exists>B. credit st k a = st\<lparr>st_balances := B\<rparr> \<and> keyed_evolves X (\<lambda>k. k) (u64_leaf_vals X) 2 (st_balances st) B \<and>
     kd_map B = with_balance k (saturating_add (balance_of (kd_map (st_balances st)) k) a) (kd_map (st_balances st))" if "a \<noteq> 0"
    unfolding credit_def Let_def
    by (intro exI conjI, rule refl, rule insert_evolves,
        simp add: map_or_def with_balance_def balance_of_def saturating_add_nonzero [OF that] that split: option.split)
  let ?v = "saturating_sub (balance_of (kd_map (st_balances st)) k) a"
  have v: "map_or 0 (\<lambda>b. saturating_sub b a) (fmlookup (kd_map (st_balances st)) k) = ?v"
    by (simp add: map_or_def balance_of_def split: option.split)
  show "\<exists>B. debit st k a = st\<lparr>st_balances := B\<rparr> \<and> keyed_evolves X (\<lambda>k. k) (u64_leaf_vals X) 2 (st_balances st) B \<and>
     kd_map B = with_balance k ?v (kd_map (st_balances st))"
    unfolding debit_def Let_def v
    by (intro exI [of _ "if ?v = 0 then fst (keyed_remove (st_balances st) k) else fst (keyed_insert (st_balances st) k ?v)"])
      (simp add: insert_evolves with_balance_def)
qed

lemma apply_conviction_ok:
  assumes "cl_amount l \<noteq> 0"
  shows "\<exists>P N B. apply_conviction X neuron st l (axon_id X (cl_from l) (cl_to l)) = st\<lparr>st_particles := P, st_neurons := N, st_balances := B\<rparr> \<and>
     kd_map P = link_particles X (kd_map (st_particles st)) l \<and> kd_map N = link_neurons neuron (kd_map (st_neurons st)) l \<and>
     kd_map B = link_balances X (kd_map (st_balances st)) l \<and>
     keyed_evolves X (\<lambda>k. k) (particle_leaf_vals X) 4 (st_particles st) P \<and>
     keyed_evolves X (\<lambda>k. k) (neuron_leaf_vals X) 4 (st_neurons st) N \<and>
     keyed_evolves X (\<lambda>k. k) (u64_leaf_vals X) 4 (st_balances st) B"
proof -
  let ?aid = "axon_id X (cl_from l) (cl_to l)" and ?a = "cl_amount l" and ?m = "kd_map (st_particles st)" and ?b = "kd_map (st_balances st)"
  let ?kt = "balance_key X (cl_to l) (cl_token l)" and ?kf = "balance_key X (cl_from l) (cl_token l)"
  obtain P1 where P1: "add_weight st ?aid ?a = st\<lparr>st_particles := P1\<rparr>"
    "keyed_evolves X (\<lambda>k. k) (particle_leaf_vals X) 2 (st_particles st) P1"
    "kd_map P1 = fmupd ?aid ((record_of ?m ?aid)\<lparr>pr_weight := saturating_add (pr_weight (record_of ?m ?aid)) ?a\<rparr>) ?m"
    using add_weight_energy(1) by blast
  obtain P where P: "add_energy (st\<lparr>st_particles := P1\<rparr>) (cl_to l) ?a = st\<lparr>st_particles := P\<rparr>"
    "keyed_evolves X (\<lambda>k. k) (particle_leaf_vals X) 2 P1 P"
    "kd_map P = fmupd (cl_to l) ((record_of (kd_map P1) (cl_to l))\<lparr>pr_energy := saturating_add (pr_energy (record_of (kd_map P1) (cl_to l))) ?a\<rparr>) (kd_map P1)"
    using add_weight_energy(2) [of "st\<lparr>st_particles := P1\<rparr>" "cl_to l" ?a X] by auto
  obtain N where N: "spend_focus (st\<lparr>st_particles := P\<rparr>) neuron ?a = st\<lparr>st_particles := P, st_neurons := N\<rparr>"
    "keyed_evolves X (\<lambda>k. k) (neuron_leaf_vals X) 2 (st_neurons st) N" "kd_map N = link_neurons neuron (kd_map (st_neurons st)) l"
    using spend_focus_ok [of "st\<lparr>st_particles := P\<rparr>" neuron l X] by auto
  obtain B1 where B1: "credit (st\<lparr>st_particles := P, st_neurons := N\<rparr>) ?kt ?a = st\<lparr>st_particles := P, st_neurons := N, st_balances := B1\<rparr>"
    "keyed_evolves X (\<lambda>k. k) (u64_leaf_vals X) 2 (st_balances st) B1" "kd_map B1 = with_balance ?kt (saturating_add (balance_of ?b ?kt) ?a) ?b"
    using credit_debit(1) [OF assms, of "st\<lparr>st_particles := P, st_neurons := N\<rparr>" ?kt X] by auto
  obtain B where B: "debit (st\<lparr>st_particles := P, st_neurons := N, st_balances := B1\<rparr>) ?kf ?a = st\<lparr>st_particles := P, st_neurons := N, st_balances := B\<rparr>"
    "keyed_evolves X (\<lambda>k. k) (u64_leaf_vals X) 2 B1 B" "kd_map B = with_balance ?kf (saturating_sub (balance_of (kd_map B1) ?kf) ?a) (kd_map B1)"
    using credit_debit(2) [of "st\<lparr>st_particles := P, st_neurons := N, st_balances := B1\<rparr>" ?kf ?a X] by auto
  have "apply_conviction X neuron st l ?aid = st\<lparr>st_particles := P, st_neurons := N, st_balances := B\<rparr>"
    unfolding apply_conviction_def Let_def P1(1) P(1) N(1) B1(1) B(1) ..
  moreover have "kd_map P = link_particles X ?m l" "kd_map B = link_balances X ?b l"
    using assms by (simp_all add: link_particles_def link_balances_def Let_def P(3) P1(3) B(3) B1(3))
  moreover have "keyed_evolves X (\<lambda>k. k) (particle_leaf_vals X) 4 (st_particles st) P" "keyed_evolves X (\<lambda>k. k) (u64_leaf_vals X) 4 (st_balances st) B"
    using keyed_evolves_trans [OF P1(2) P(2)] keyed_evolves_trans [OF B1(2) B(2)] by simp_all
  moreover have "keyed_evolves X (\<lambda>k. k) (neuron_leaf_vals X) 4 (st_neurons st) N" using N(2) by (rule keyed_evolves_mono) simp
  ultimately show ?thesis using N(3) by blast
qed

lemma state_inv_axons:
  assumes "state_inv X n st"
  shows "axon_ok X (st_axons_out st)" "axon_ok X (st_axons_in st)"
    "set_room (st_axons_out st) p + n \<le> 2 ^ 32" "set_room (st_axons_in st) p + n \<le> 2 ^ 32"
  using assms unfolding state_inv_def state_ok_def state_fits_def by blast+

lemma list_add_axons:
  "(if a \<in> set (axons ix p) then ax_map ix else fmupd p (axons ix p @ [a]) (ax_map ix)) = list_add p a (ax_map ix)"
  by (simp add: list_add_def Let_def)

lemma apply_link_ok:
  assumes inv: "state_inv X (n + 4) st"
  shows "\<exists>st'. apply_link X neuron st l = Some st' \<and> state_inv X n st' \<and> links_effect X neuron [l] st st'"
proof -
  let ?aid = "axon_id X (cl_from l) (cl_to l)"
  note ok = state_inv_axons(1,2) [OF inv]
  have room: "set_room (st_axons_out st) (cl_from l) + 2 \<le> 2 ^ 32" "set_room (st_axons_in st) (cl_to l) + 2 \<le> 2 ^ 32"
    using state_inv_axons(3) [OF inv, of "cl_from l"] state_inv_axons(4) [OF inv, of "cl_to l"] by simp_all
  obtain out b where out: "axon_add X (st_axons_out st) (cl_from l) ?aid = Some (out, b)" "axon_evolves X 2 (st_axons_out st) out"
    "ax_map out = list_add (cl_from l) ?aid (ax_map (st_axons_out st))"
    using axon_add_evolves [OF ok(1) room(1), of ?aid] unfolding list_add_axons by blast
  obtain inn c where inn: "axon_add X (st_axons_in st) (cl_to l) ?aid = Some (inn, c)" "axon_evolves X 2 (st_axons_in st) inn"
    "ax_map inn = list_add (cl_to l) ?aid (ax_map (st_axons_in st))"
    using axon_add_evolves [OF ok(2) room(2), of ?aid] unfolding list_add_axons by blast
  let ?st = "st\<lparr>st_axons_out := out, st_axons_in := inn, st_axon_edges := link_edges X (st_axon_edges st) l\<rparr>"
  have link: "apply_link X neuron st l = Some (if cl_amount l = 0 then ?st else apply_conviction X neuron ?st l ?aid)"
    by (simp add: apply_link_def out(1) inn(1) Let_def link_edges_def split: option.split)
  have ax: "axon_evolves X 4 (st_axons_out st) out" "axon_evolves X 4 (st_axons_in st) inn"
    using out(2) inn(2) by (auto intro: axon_evolves_mono)
  show ?thesis
  proof (cases "cl_amount l = 0")
    case True
    have "state_evolves X 4 st ?st" using ax by (simp add: state_evolves_def)
    moreover have "link_neurons neuron (kd_map (st_neurons st)) l = kd_map (st_neurons st)"
      using True by (auto simp: link_neurons_def intro!: fmupd_present split: option.split)
    ultimately show ?thesis
      using state_inv_evolves [OF inv] link True out(3) inn(3)
      by (simp add: links_effect_def link_particles_def link_balances_def)
  next
    case False
    obtain P N B where c: "apply_conviction X neuron ?st l ?aid = ?st\<lparr>st_particles := P, st_neurons := N, st_balances := B\<rparr>"
     "kd_map P = link_particles X (kd_map (st_particles ?st)) l" "kd_map N = link_neurons neuron (kd_map (st_neurons ?st)) l"
     "kd_map B = link_balances X (kd_map (st_balances ?st)) l"
     "keyed_evolves X (\<lambda>k. k) (particle_leaf_vals X) 4 (st_particles ?st) P"
     "keyed_evolves X (\<lambda>k. k) (neuron_leaf_vals X) 4 (st_neurons ?st) N"
     "keyed_evolves X (\<lambda>k. k) (u64_leaf_vals X) 4 (st_balances ?st) B"
      using apply_conviction_ok [OF False] by blast
    have "state_evolves X 4 st (?st\<lparr>st_particles := P, st_neurons := N, st_balances := B\<rparr>)"
      using ax c(5-7) by (simp add: state_evolves_def)
    then show ?thesis
      using state_inv_evolves [OF inv] link False out(3) inn(3) c(1-4) by (simp add: links_effect_def)
  qed
qed

lemma links_effect_Nil [simp]: "links_effect X neuron [] st st"
  by (simp add: links_effect_def)

lemma links_effect_Cons:
  "links_effect X neuron [l] st st1 \<Longrightarrow> links_effect X neuron ls st1 st2 \<Longrightarrow> links_effect X neuron (l # ls) st st2"
  by (simp add: links_effect_def)

lemma apply_links_ok:
  assumes "state_inv X (n + 4 * length ls) st"
  shows "\<exists>st'. apply_links X neuron st ls = Some st' \<and> state_inv X n st' \<and> links_effect X neuron ls st st'"
  using assms
proof (induction ls arbitrary: st)
  case (Cons l ls)
  have "state_inv X (n + 4 * length ls + 4) st" using Cons.prems by (simp add: algebra_simps)
  then obtain st1 where st1: "apply_link X neuron st l = Some st1" "state_inv X (n + 4 * length ls) st1" "links_effect X neuron [l] st st1"
    using apply_link_ok by blast
  then show ?case using Cons.IH [OF st1(2)] links_effect_Cons [OF st1(3)] by auto
qed simp

definition spends :: "bbg_state \<Rightarrow> signal \<Rightarrow> bool" where
  "spends st s \<longleftrightarrow> (\<exists>mv \<in> set (sg_box_moves s). kset_contains (st_nullifiers st) (bm_nullifier mv))"

lemma state_insert_ok:
  assumes "state_inv X (n + 2 * length (sg_box_moves s) + 4 * length (sg_links s)) st" and "\<not> spends st s"
  shows "\<exists>st1 st'. state_insert X st s = Some (st', Inr ()) \<and> state_inv X n st' \<and>
    st1 = apply_moves X st (sg_box_moves s) \<and> links_effect X (sg_neuron s) (sg_links s) st1 st'"
proof -
  let ?mvs = "sg_box_moves s"
  obtain N C where nc: "apply_moves X st ?mvs = st\<lparr>st_nullifiers := N, st_commitments := C\<rparr>"
    "keyed_evolves X (\<lambda>k. k) unit_leaf_vals (2 * length ?mvs) (st_nullifiers st) N"
    "keyed_evolves X (\<lambda>k. k) goldilocks_leaf_vals (2 * length ?mvs) (st_commitments st) C"
    using apply_moves_ok by blast
  have "state_evolves X (2 * length ?mvs) st (apply_moves X st ?mvs)"
    using nc by (simp add: state_evolves_def)
  moreover have "n + 2 * length ?mvs + 4 * length (sg_links s) = n + 4 * length (sg_links s) + 2 * length ?mvs" by simp
  ultimately have "state_inv X (n + 4 * length (sg_links s)) (apply_moves X st ?mvs)"
    using assms(1) state_inv_evolves by metis
  then obtain st' where "apply_links X (sg_neuron s) (apply_moves X st ?mvs) (sg_links s) = Some st'" "state_inv X n st'"
    "links_effect X (sg_neuron s) (sg_links s) (apply_moves X st ?mvs) st'"
    using apply_links_ok by blast
  then show ?thesis using assms(2) by (simp add: state_insert_def spends_def)
qed

section \<open>The graph the indexes show\<close>

text \<open>Each index lists an axon under exactly the end that the reverse map records for it.\<close>

definition listed :: "(particle, particle list) fmap \<Rightarrow> particle \<Rightarrow> particle set" where
  "listed m p = (case fmlookup m p of None \<Rightarrow> {} | Some l \<Rightarrow> set l)"

definition topology_ok :: "ext \<Rightarrow> (particle, particle list) fmap \<Rightarrow> (particle, particle list) fmap \<Rightarrow>
    (particle, particle \<times> particle) fmap \<Rightarrow> bool" where
  "topology_ok X out inn edges \<longleftrightarrow>
     (\<forall>p a. a \<in> listed out p \<longleftrightarrow> (\<exists>t. fmlookup edges a = Some (p, t))) \<and>
     (\<forall>p a. a \<in> listed inn p \<longleftrightarrow> (\<exists>f. fmlookup edges a = Some (f, p))) \<and>
     (\<forall>a f t. fmlookup edges a = Some (f, t) \<longrightarrow> a = axon_id X f t)"

definition link_ends :: "cyberlink \<Rightarrow> particle \<times> particle" where
  "link_ends l = (cl_from l, cl_to l)"

lemma listed_add: "listed (list_add q b m) p = (if p = q then insert b (listed m p) else listed m p)"
  by (auto simp: listed_def list_add_def Let_def split: option.split)

lemma topology_link:
  assumes top: "topology_ok X out inn edges"
    and inj: "inj_on (case_prod (axon_id X)) (insert (link_ends l) (fmran' edges))"
  shows "topology_ok X (list_add (cl_from l) (axon_id X (cl_from l) (cl_to l)) out)
    (list_add (cl_to l) (axon_id X (cl_from l) (cl_to l)) inn) (link_edges X edges l)"
proof -
  let ?a = "axon_id X (cl_from l) (cl_to l)"
  have e: "(f, t) = link_ends l" if "fmlookup edges ?a = Some (f, t)" for f t
  proof -
    have "axon_id X f t = ?a" using top that by (auto simp: topology_ok_def)
    moreover have "(f, t) \<in> fmran' edges" using that by (auto simp: fmran'_iff)
    ultimately show ?thesis using inj_onD [OF inj, of "(f, t)" "link_ends l"] by (simp add: link_ends_def)
  qed
  then have "fmlookup (link_edges X edges l) a = (if a = ?a then Some (link_ends l) else fmlookup edges a)" for a
    by (auto simp: link_edges_def Let_def link_ends_def split: option.split)
  then show ?thesis
    using top by (auto simp: topology_ok_def listed_add link_ends_def dest: e [unfolded link_ends_def])
qed

lemma link_edges_ran: "fmran' (link_edges X edges l) \<subseteq> insert (link_ends l) (fmran' edges)"
  by (auto simp: link_edges_def Let_def link_ends_def fmran'_iff split: option.splits if_splits)

lemma topology_links:
  assumes "topology_ok X out inn edges"
    and "inj_on (case_prod (axon_id X)) (set (map link_ends ls) \<union> fmran' edges)"
  shows "topology_ok X (foldl (\<lambda>m l. list_add (cl_from l) (axon_id X (cl_from l) (cl_to l)) m) out ls)
    (foldl (\<lambda>m l. list_add (cl_to l) (axon_id X (cl_from l) (cl_to l)) m) inn ls) (foldl (link_edges X) edges ls)"
  using assms
proof (induction ls arbitrary: out inn edges)
  case (Cons l ls)
  have "inj_on (case_prod (axon_id X)) (insert (link_ends l) (fmran' edges))"
    by (rule inj_on_subset [OF Cons.prems(2)]) auto
  moreover have "inj_on (case_prod (axon_id X)) (set (map link_ends ls) \<union> fmran' (link_edges X edges l))"
    by (rule inj_on_subset [OF Cons.prems(2)]) (use link_edges_ran [of X edges l] in auto)
  ultimately show ?case using Cons.IH topology_link [OF Cons.prems(1)] by simp
qed simp

text \<open>No balance row is zero.\<close>

definition balances_canonical :: "(particle, u64) fmap \<Rightarrow> bool" where
  "balances_canonical m \<longleftrightarrow> 0 \<notin> fmran' m"

lemma with_balance_canonical: "balances_canonical m \<Longrightarrow> balances_canonical (with_balance k b m)"
  by (auto simp: balances_canonical_def with_balance_def fmran'_iff split: if_splits)

lemma link_balances_canonical: "balances_canonical m \<Longrightarrow> balances_canonical (foldl (link_balances X) m ls)"
  by (induction ls arbitrary: m) (simp_all add: link_balances_def Let_def with_balance_canonical)

lemma balance_of_with [simp]: "balance_of (with_balance k b m) k' = (if k' = k then b else balance_of m k')"
  by (simp add: balance_of_def with_balance_def)

section \<open>Properties\<close>

lemma nullifiers_moved: "{k. fmlookup (foldl (\<lambda>m mv. fmupd (bm_nullifier mv) () m) m mvs) k \<noteq> None} =
    {k. fmlookup m k \<noteq> None} \<union> bm_nullifier ` set mvs"
  by (induction mvs arbitrary: m) auto

lemma state_insert_nullifiers:
  assumes "state_inv X (n + 2 * length (sg_box_moves s) + 4 * length (sg_links s)) st" and "\<not> spends st s"
  shows "\<exists>st'. state_insert X st s = Some (st', Inr ()) \<and> state_inv X n st' \<and>
    {k. kset_contains (st_nullifiers st') k} = {k. kset_contains (st_nullifiers st) k} \<union> bm_nullifier ` set (sg_box_moves s) \<and>
    kd_map (st_commitments st') = moves_commitments X (kd_map (st_commitments st)) (sg_box_moves s) \<and>
    links_effect X (sg_neuron s) (sg_links s) (st\<lparr>st_nullifiers := st_nullifiers st', st_commitments := st_commitments st'\<rparr>) st'"
proof -
  obtain N C where nc: "apply_moves X st (sg_box_moves s) = st\<lparr>st_nullifiers := N, st_commitments := C\<rparr>"
     "kd_map N = foldl (\<lambda>m mv. fmupd (bm_nullifier mv) () m) (kd_map (st_nullifiers st)) (sg_box_moves s)"
     "kd_map C = moves_commitments X (kd_map (st_commitments st)) (sg_box_moves s)"
    using apply_moves_ok by blast
  obtain st' where st': "state_insert X st s = Some (st', Inr ())" "state_inv X n st'"
    "links_effect X (sg_neuron s) (sg_links s) (st\<lparr>st_nullifiers := N, st_commitments := C\<rparr>) st'"
    using state_insert_ok [OF assms] unfolding nc(1) by blast
  then have "st_nullifiers st' = N" "st_commitments st' = C" by (simp_all add: links_effect_def)
  then show ?thesis
    using st' nc(2,3) nullifiers_moved [of "kd_map (st_nullifiers st)" "sg_box_moves s"]
    by (intro exI [of _ st']) (simp add: kset_contains_def)
qed

text \<open>C11: a signal none of whose nullifiers is spent is accepted, whatever its links. Its effect on the records is
  exactly: the nullifiers become spent, the outputs enter A(x), and each link in turn adds its axon to both
  indexes once and, when it carries conviction, adds it (saturating) to the axon's weight, the target's energy and
  balance and subtracts it from the author's focus and the source's balance; every dimension keeps its invariant.\<close>

theorem insert_effect:
  assumes "state_inv X (n + 2 * length (sg_box_moves s) + 4 * length (sg_links s)) st"
    and "\<forall>mv \<in> set (sg_box_moves s). \<not> kset_contains (st_nullifiers st) (bm_nullifier mv)"
  shows "\<exists>st'. state_insert X st s = Some (st', Inr ()) \<and> state_inv X n st' \<and>
    {k. kset_contains (st_nullifiers st') k} = {k. kset_contains (st_nullifiers st) k} \<union> bm_nullifier ` set (sg_box_moves s) \<and>
    kd_map (st_commitments st') = moves_commitments X (kd_map (st_commitments st)) (sg_box_moves s) \<and>
    links_effect X (sg_neuron s) (sg_links s) (st\<lparr>st_nullifiers := st_nullifiers st', st_commitments := st_commitments st'\<rparr>) st'"
  using state_insert_nullifiers assms unfolding spends_def by blast

definition sample_signal :: signal where
  "sample_signal = \<lparr>sg_neuron = 1, sg_links = [\<lparr>cl_from = 2, cl_to = 3, cl_token = 0, cl_amount = 5, cl_valence = 1\<rparr>],
     sg_box_moves = [\<lparr>bm_nullifier = 42, bm_commitment = None\<rparr>], sg_height = 0\<rparr>"

lemma new_nullifiers: "\<not> kset_contains (st_nullifiers state_new) k"
  by (simp add: kset_contains_def state_new_def keyed_new_def)

theorem insert_effect_witness:
  "\<exists>st'. state_insert sample_ext state_new sample_signal = Some (st', Inr ()) \<and>
     {k. kset_contains (st_nullifiers st') k} = {42} \<and>
     kd_map (st_balances st') = link_balances sample_ext fmempty \<lparr>cl_from = 2, cl_to = 3, cl_token = 0, cl_amount = 5, cl_valence = 1\<rparr>"
proof -
  have "state_inv sample_ext (0 + 2 * length (sg_box_moves sample_signal) + 4 * length (sg_links sample_signal)) state_new"
    by (rule state_inv_new) (simp add: sample_signal_def)
  from insert_effect [OF this] show ?thesis
    using new_nullifiers by (fastforce simp: links_effect_def sample_signal_def state_new_def keyed_new_def)
qed

text \<open>C13: the check looks at the state before the signal only, so one signal may spend the same box several times and
  have every output of those spends recorded.\<close>

theorem insert_accepts_repeated_nullifier:
  assumes "\<not> kset_contains (st_nullifiers st) nf" and "p \<noteq> q"
  shows "\<exists>st'. state_insert X st \<lparr>sg_neuron = nu, sg_links = [],
      sg_box_moves = [\<lparr>bm_nullifier = nf, bm_commitment = Some (p, v)\<rparr>, \<lparr>bm_nullifier = nf, bm_commitment = Some (q, w)\<rparr>],
      sg_height = h\<rparr> = Some (st', Inr ()) \<and>
    fmlookup (kd_map (st_commitments st')) p = Some (gl_new X v) \<and> fmlookup (kd_map (st_commitments st')) q = Some (gl_new X w)"
  using assms by (simp add: state_insert_def Let_def)

theorem insert_accepts_repeated_nullifier_witness:
  "\<exists>st'. state_insert sample_ext state_new \<lparr>sg_neuron = 1, sg_links = [],
      sg_box_moves = [\<lparr>bm_nullifier = 9, bm_commitment = Some (1, 100)\<rparr>, \<lparr>bm_nullifier = 9, bm_commitment = Some (2, 100)\<rparr>],
      sg_height = 0\<rparr> = Some (st', Inr ()) \<and>
    fmlookup (kd_map (st_commitments st')) 1 = Some (gl_new sample_ext 100) \<and>
    fmlookup (kd_map (st_commitments st')) 2 = Some (gl_new sample_ext 100)"
  by (rule insert_accepts_repeated_nullifier) (simp_all add: new_nullifiers)

text \<open>Insertion keeps the shape of the records: no balance row is zero, and, while no two axons collide, the two
  adjacency indexes and the reverse map show the same graph, every axon under its own id.\<close>

theorem insert_keeps_graph:
  assumes "state_inv X (n + 2 * length (sg_box_moves s) + 4 * length (sg_links s)) st"
    and "state_insert X st s = Some (st', r)"
    and "topology_ok X (ax_map (st_axons_out st)) (ax_map (st_axons_in st)) (st_axon_edges st)"
    and "inj_on (case_prod (axon_id X)) (set (map link_ends (sg_links s)) \<union> fmran' (st_axon_edges st))"
    and "balances_canonical (kd_map (st_balances st))"
  shows "topology_ok X (ax_map (st_axons_out st')) (ax_map (st_axons_in st')) (st_axon_edges st') \<and>
    balances_canonical (kd_map (st_balances st'))"
proof (cases "spends st s")
  case True
  then show ?thesis using assms by (auto simp: state_insert_def spends_def)
next
  case False
  then have "links_effect X (sg_neuron s) (sg_links s) (st\<lparr>st_nullifiers := st_nullifiers st', st_commitments := st_commitments st'\<rparr>) st'"
    using state_insert_nullifiers [OF assms(1) False] assms(2) by auto
  then show ?thesis
    using topology_links [OF assms(3,4)] link_balances_canonical [OF assms(5)] by (simp add: links_effect_def)
qed

theorem insert_keeps_graph_witness:
  "\<exists>st'. state_insert sample_ext state_new sample_signal = Some (st', Inr ()) \<and>
     topology_ok sample_ext (ax_map (st_axons_out st')) (ax_map (st_axons_in st')) (st_axon_edges st') \<and>
     balances_canonical (kd_map (st_balances st'))"
proof -
  have inv: "state_inv sample_ext (0 + 2 * length (sg_box_moves sample_signal) + 4 * length (sg_links sample_signal)) state_new"
    by (rule state_inv_new) (simp add: sample_signal_def)
  moreover have "\<not> spends state_new sample_signal" by (simp add: spends_def new_nullifiers)
  ultimately obtain st' where st': "state_insert sample_ext state_new sample_signal = Some (st', Inr ())"
    using state_insert_ok by blast
  have "topology_ok sample_ext (ax_map (st_axons_out state_new)) (ax_map (st_axons_in state_new)) (st_axon_edges state_new)"
    "balances_canonical (kd_map (st_balances state_new))" "fmran' (st_axon_edges state_new) = {}"
    by (auto simp: topology_ok_def listed_def balances_canonical_def fmran'_iff state_new_def keyed_new_def axon_new_def)
  then show ?thesis
    using insert_keeps_graph [OF inv st'] st' by (simp add: sample_signal_def)
qed

end
