(* ===== verification/Bbg_Prune.thy ===== *)
theory Bbg_Prune
  imports Bbg_Insert
begin

text \<open>
  Pruning (\<open>prune.rs\<close>): the protected rank floor, the candidates of the half-life and of the gravity mode, and their
  removal from the particles, the reverse map and both adjacency indexes. A sort by key is stable.
\<close>

section \<open>Policy\<close>

record prune_config =
  pc_max_bytes :: u64
  pc_rank_floor_pct :: u8
  pc_half_life_epochs :: u64

definition prune_config_default :: prune_config where
  "prune_config_default = \<lparr>pc_max_bytes = 2 ^ 30, pc_rank_floor_pct = 20, pc_half_life_epochs = 1000\<rparr>"

record prune_state =
  ps_last_touched :: "(particle, u64) fmap"

definition prune_state_default :: prune_state where
  "prune_state_default = \<lparr>ps_last_touched = fmempty\<rparr>"

definition prune_touch :: "prune_state \<Rightarrow> particle \<Rightarrow> u64 \<Rightarrow> prune_state" where
  "prune_touch ps aid epoch = ps\<lparr>ps_last_touched := fmupd aid epoch (ps_last_touched ps)\<rparr>"

section \<open>Candidates\<close>

text \<open>Reading past the end of the scores panics.\<close>

definition rank_floor :: "bbg_state \<Rightarrow> u8 \<Rightarrow> u64 option" where
  "rank_floor st pct =
     (if pct = 0 then Some (- 1)
      else let scores = map (\<lambda>(_, p). pr_pi_star p) (sorted_list_of_fmap (kd_map (st_particles st))) in
        if scores = [] then Some 0
        else let scores = sort scores;
                 protected_count = (length scores * unat pct + 99) div 100;
                 boundary = length scores - protected_count
             in if boundary < length scores then Some (scores ! boundary) else None)"

definition axon_bytes :: "(particle, particle list) fmap \<Rightarrow> u64" where
  "axon_bytes m = sum_list (map (\<lambda>(_, v). 32 + of_nat (length v) * 32) (sorted_list_of_fmap m))"

definition estimate_bytes :: "bbg_state \<Rightarrow> u64" where
  "estimate_bytes st = map_len (kd_map (st_particles st)) * 80 + axon_bytes (ax_map (st_axons_out st)) +
     axon_bytes (ax_map (st_axons_in st)) + map_len (kd_map (st_neurons st)) * 64"

text \<open>The candidates of the two modes with their weights, in key order.\<close>

definition gravity_candidates :: "bbg_state \<Rightarrow> u64 \<Rightarrow> (particle \<times> u64) list" where
  "gravity_candidates st flr = map (\<lambda>(k, p). (k, pr_weight p))
     (filter (\<lambda>(_, p). pr_pi_star p < flr) (sorted_list_of_fmap (kd_map (st_particles st))))"

definition stale_candidates :: "bbg_state \<Rightarrow> prune_state \<Rightarrow> u64 \<Rightarrow> u64 \<Rightarrow> u64 \<Rightarrow> (particle \<times> u64) list" where
  "stale_candidates st ps half_life epoch flr = map (\<lambda>(k, _). (k, map_or 0 pr_weight (fmlookup (kd_map (st_particles st)) k)))
     (filter (\<lambda>(k, touched). map_or 0 pr_pi_star (fmlookup (kd_map (st_particles st)) k) < flr \<and> saturating_sub epoch touched > half_life)
       (sorted_list_of_fmap (ps_last_touched ps)))"

fun collect_bounded :: "nat \<Rightarrow> 'a list \<Rightarrow> 'a list \<Rightarrow> unit + 'a list" where
  "collect_bounded limit acc [] = Inr acc"
| "collect_bounded limit acc (c # cs) = (if length acc = limit then Inl () else collect_bounded limit (acc @ [c]) cs)"

definition candidates :: "bbg_state \<Rightarrow> prune_state \<Rightarrow> prune_config \<Rightarrow> u64 \<Rightarrow> nat \<Rightarrow> (unit + bool \<times> particle list) option" where
  "candidates st ps config epoch limit = do {
     flr \<leftarrow> rank_floor st (pc_rank_floor_pct config);
     let over_budget = estimate_bytes st > pc_max_bytes config;
     let cands = (if over_budget then gravity_candidates st flr
                  else stale_candidates st ps (pc_half_life_epochs config) epoch flr);
     Some (and_then (collect_bounded limit [] cands) (\<lambda>found. Inr (over_budget, map fst (sort_key snd found)))) }"

section \<open>Removal\<close>

definition remove_axon :: "bbg_state \<Rightarrow> prune_state \<Rightarrow> particle \<Rightarrow> (bbg_state \<times> prune_state) option" where
  "remove_axon st ps aid = do {
     let st = st\<lparr>st_particles := fst (keyed_remove (st_particles st) aid)\<rparr>;
     let ps = ps\<lparr>ps_last_touched := fmdrop aid (ps_last_touched ps)\<rparr>;
     case fmlookup (st_axon_edges st) aid of
       None \<Rightarrow> Some (st, ps)
     | Some (from, to) \<Rightarrow> do {
         let st = st\<lparr>st_axon_edges := fmdrop aid (st_axon_edges st)\<rparr>;
         (out, _) \<leftarrow> axon_remove_axon (st_axons_out st) from aid;
         let st = st\<lparr>st_axons_out := out\<rparr>;
         (inn, _) \<leftarrow> axon_remove_axon (st_axons_in st) to aid;
         Some (st\<lparr>st_axons_in := inn\<rparr>, ps) } }"

fun prune_loop :: "bbg_state \<Rightarrow> prune_state \<Rightarrow> u64 \<Rightarrow> bool \<Rightarrow> particle list \<Rightarrow> (bbg_state \<times> prune_state) option" where
  "prune_loop st ps max_bytes over_budget [] = Some (st, ps)"
| "prune_loop st ps max_bytes over_budget (aid # rest) =
     (if over_budget \<and> estimate_bytes st \<le> max_bytes then Some (st, ps)
      else do {
        (st, ps) \<leftarrow> remove_axon st ps aid;
        prune_loop st ps max_bytes over_budget rest })"

definition prune :: "ext \<Rightarrow> bbg_state \<Rightarrow> prune_state \<Rightarrow> prune_config \<Rightarrow> u64 \<Rightarrow> (bbg_state \<times> prune_state) option" where
  "prune X st ps config epoch = do {
     r \<leftarrow> candidates st ps config epoch (2 ^ 64 - 1);
     (over_budget, ids) \<leftarrow> (case r of Inl _ \<Rightarrow> None | Inr p \<Rightarrow> Some p);
     (st, ps) \<leftarrow> prune_loop st ps (pc_max_bytes config) over_budget ids;
     (st, _) \<leftarrow> refresh_root X st;
     Some (st, ps) }"

section \<open>The rank floor\<close>

lemma collect_bounded_eq:
  "length acc \<le> limit \<Longrightarrow> collect_bounded limit acc cs = (if length acc + length cs \<le> limit then Inr (acc @ cs) else Inl ())"
  by (induction cs arbitrary: acc) auto

lemma protected_pos: "0 < n \<Longrightarrow> pct \<noteq> 0 \<Longrightarrow> 0 < (n * unat (pct :: u8) + 99) div 100"
proof -
  assume "0 < n" "pct \<noteq> 0"
  then have "1 \<le> n * unat pct" by (simp add: unat_gt_0 Suc_le_eq)
  then have "100 \<le> n * unat pct + 99" by linarith
  then show ?thesis by (simp add: div_greater_zero_iff)
qed

lemma rank_floor_ex: "\<exists>flr. rank_floor st pct = Some flr"
proof -
  let ?n = "length (sorted_list_of_fmap (kd_map (st_particles st)))"
  have "?n - (?n * unat pct + 99) div 100 < ?n" if "pct \<noteq> 0" "0 < ?n"
    using protected_pos [OF that(2,1)] that(2) by linarith
  then show ?thesis by (auto simp: rank_floor_def Let_def)
qed

lemma sorted_count_above:
  fixes xs :: "'a::linorder list"
  assumes "sorted xs" and "b < length xs"
  shows "length xs - b \<le> length (filter (\<lambda>x. xs ! b \<le> x) xs)"
proof -
  have "\<forall>x \<in> set (drop b xs). xs ! b \<le> x"
    using assms by (auto simp: in_set_conv_nth intro!: sorted_nth_mono)
  then have "filter (\<lambda>x. xs ! b \<le> x) (drop b xs) = drop b xs" by simp
  moreover have "filter (\<lambda>x. xs ! b \<le> x) xs = filter (\<lambda>x. xs ! b \<le> x) (take b xs) @ filter (\<lambda>x. xs ! b \<le> x) (drop b xs)"
    by (metis append_take_drop_id filter_append)
  ultimately show ?thesis by simp
qed

lemma min_sub: "min n q = n - (n - q)" for n q :: nat
  by (simp add: min_def)

lemma rank_floor_share:
  assumes "rank_floor st pct = Some flr" and "pct \<noteq> 0"
  shows "min (length (sorted_list_of_fmap (kd_map (st_particles st))))
      ((length (sorted_list_of_fmap (kd_map (st_particles st))) * unat pct + 99) div 100) \<le>
    length (filter (\<lambda>(_, p). flr \<le> pr_pi_star p) (sorted_list_of_fmap (kd_map (st_particles st))))"
proof (cases "sorted_list_of_fmap (kd_map (st_particles st)) = []")
  case True
  then show ?thesis by simp
next
  case False
  let ?es = "sorted_list_of_fmap (kd_map (st_particles st))" and ?sc = "\<lambda>(_ :: particle, p). pr_pi_star p"
  let ?xs = "sort (map ?sc ?es)"
  let ?b = "length ?xs - (length ?xs * unat pct + 99) div 100"
  have f: "?b < length ?xs" "flr = ?xs ! ?b"
    using assms False by (auto simp: rank_floor_def Let_def split: if_splits)
  have "length ?xs - ?b \<le> length (filter (\<lambda>x. flr \<le> x) ?xs)"
    unfolding f(2) by (rule sorted_count_above) (use f(1) in simp_all)
  also have "\<dots> = length (filter (\<lambda>x. flr \<le> x) (map ?sc ?es))"
    by (simp add: filter_sort)
  also have "\<dots> = length (filter (\<lambda>(_, p). flr \<le> pr_pi_star p) ?es)"
    by (simp add: filter_map comp_def case_prod_unfold)
  finally show ?thesis unfolding min_sub by simp
qed

section \<open>Removal keeps the state and the graph\<close>

lemma axon_remove_axon_room:
  assumes ok: "axon_ok X ix" and r: "axon_remove_axon ix p a = Some (ix', b)"
  shows "set_room ix' q \<le> set_room ix q" "axon_load ix' \<le> axon_load ix + 2"
proof -
  have len: "length (tr_nodes S') = length (tr_nodes S)" if "fmlookup (ax_sets ix) p = Some S" "trie_remove S a = Some (S', w)" for S S' w
  proof -
    have "trie_ok X S" using ok that(1) by (cases rule: axon_lookup_cases [where p = p]) simp_all
    then show ?thesis using am.del_law [of X S a] that(2) by auto
  qed
  have drop: "fmdrop p (fmupd p S m) = fmdrop p m" for S and m :: "(particle, trie) fmap" by (rule fmap_ext) simp
  have "ax_sets ix' = ax_sets ix \<or> ax_sets ix' = fmdrop p (ax_sets ix) \<or>
     (\<exists>S S' w. fmlookup (ax_sets ix) p = Some S \<and> trie_remove S a = Some (S', w) \<and> ax_sets ix' = fmupd p S' (ax_sets ix))"
    using r by (auto simp: drop axon_remove_axon_def axon_touched_def Let_def split: option.splits Option.bind_splits if_splits)
  then show "set_room ix' q \<le> set_room ix q"
    using len by (fastforce simp: set_room_def split: option.split)
  show "axon_load ix' \<le> axon_load ix + 2"
    using r fcard_finsert_le [of p "ax_dirty ix"]
    by (auto simp: axon_remove_axon_def axon_touched_def axon_pending_def Let_def split: option.splits Option.bind_splits if_splits)
qed

lemma axon_remove_axon_evolves:
  assumes ok: "axon_ok X ix"
  obtains ix' b where "axon_remove_axon ix p a = Some (ix', b)" "axon_evolves X 2 ix ix'"
    "\<And>q. listed (ax_map ix') q = (if q = p then listed (ax_map ix) q - {a} else listed (ax_map ix) q)"
proof -
  obtain ix' where ix': "axon_remove_axon ix p a = Some (ix', a \<in> set (axons ix p))" "axon_ok X ix'"
    "ax_map ix' = (if a \<in> set (axons ix p)
      then fmput p (case filter (\<lambda>b. b \<noteq> a) (axons ix p) of [] \<Rightarrow> None | l \<Rightarrow> Some l) (ax_map ix) else ax_map ix)"
    using axon_remove_axon_ok [OF ok] by blast
  have "set_room ix' q \<le> set_room ix q + 2" for q
    using axon_remove_axon_room(1) [OF ok ix'(1), of q] by simp
  then have ev: "axon_evolves X 2 ix ix'"
    using ix'(2) axon_remove_axon_room(2) [OF ok ix'(1)] axon_remove_axon_legacy [OF ix'(1)] by (simp add: axon_evolves_def)
  have "listed (ax_map ix') q = (if q = p then listed (ax_map ix) q - {a} else listed (ax_map ix) q)" for q
  proof -
    have "set (axons ix p) = listed (ax_map ix) p" by (simp add: listed_def split: option.split)
    moreover have "listed (fmput p (case filter (\<lambda>b. b \<noteq> a) l of [] \<Rightarrow> None | l \<Rightarrow> Some l) m) q = (if q = p then set l - {a} else listed m q)" for l m
    proof -
      have "(case (case filter (\<lambda>b. b \<noteq> a) l of [] \<Rightarrow> None | l \<Rightarrow> Some l) of None \<Rightarrow> {} | Some l \<Rightarrow> set l) = set (filter (\<lambda>b. b \<noteq> a) l)"
        by (cases "filter (\<lambda>b. b \<noteq> a) l") simp_all
      then show ?thesis by (auto simp: listed_def)
    qed
    ultimately show ?thesis by (auto simp: ix'(3))
  qed
  then show ?thesis using that ix'(1) ev by blast
qed

text \<open>What is left alone by pruning.\<close>

definition unpruned :: "bbg_state \<Rightarrow> bbg_state \<Rightarrow> bool" where
  "unpruned st st' \<longleftrightarrow> st_neurons st' = st_neurons st \<and> st_locations st' = st_locations st \<and> st_coins st' = st_coins st \<and>
     st_cards st' = st_cards st \<and> st_files st' = st_files st \<and> st_time st' = st_time st \<and> st_signals st' = st_signals st \<and>
     st_commitments st' = st_commitments st \<and> st_nullifiers st' = st_nullifiers st \<and> st_balances st' = st_balances st \<and>
     st_intents st' = st_intents st \<and> st_diameter_override st' = st_diameter_override st \<and> st_height st' = st_height st \<and>
     st_root_version st' = st_root_version st"

abbreviation graph_ok :: "ext \<Rightarrow> bbg_state \<Rightarrow> bool" where
  "graph_ok X st \<equiv> topology_ok X (ax_map (st_axons_out st)) (ax_map (st_axons_in st)) (st_axon_edges st)"

lemma topology_drop:
  assumes "topology_ok X out inn edges" and "fmlookup edges a = Some (f, t)"
    and "\<And>q. listed out' q = (if q = f then listed out q - {a} else listed out q)"
    and "\<And>q. listed inn' q = (if q = t then listed inn q - {a} else listed inn q)"
  shows "topology_ok X out' inn' (fmdrop a edges)"
  using assms(1,2) by (auto simp: topology_ok_def assms(3,4))

lemma remove_axon_ok:
  assumes inv: "state_inv X (n + 2) st"
  shows "\<exists>st' ps'. remove_axon st ps aid = Some (st', ps') \<and> state_inv X n st' \<and> unpruned st st' \<and>
    kd_map (st_particles st') = fmdrop aid (kd_map (st_particles st)) \<and> ps_last_touched ps' = fmdrop aid (ps_last_touched ps) \<and>
    st_axon_edges st' = fmdrop aid (st_axon_edges st) \<and> (graph_ok X st \<longrightarrow> graph_ok X st')"
proof -
  let ?P = "fst (keyed_remove (st_particles st) aid)"
  show ?thesis
  proof (cases "fmlookup (st_axon_edges st) aid")
    case None
    have "state_evolves X 2 st (st\<lparr>st_particles := ?P\<rparr>)" by (simp add: state_evolves_def insert_evolves)
    then show ?thesis
      using state_inv_evolves [OF inv] None by (simp add: remove_axon_def Let_def unpruned_def fmdrop_absent)
  next
    case (Some ft)
    obtain f t where ft: "ft = (f, t)" by force
    obtain out b where out: "axon_remove_axon (st_axons_out st) f aid = Some (out, b)" "axon_evolves X 2 (st_axons_out st) out"
      "\<And>q. listed (ax_map out) q = (if q = f then listed (ax_map (st_axons_out st)) q - {aid} else listed (ax_map (st_axons_out st)) q)"
      using axon_remove_axon_evolves [OF state_inv_axons(1) [OF inv]] by blast
    obtain inn c where inn: "axon_remove_axon (st_axons_in st) t aid = Some (inn, c)" "axon_evolves X 2 (st_axons_in st) inn"
      "\<And>q. listed (ax_map inn) q = (if q = t then listed (ax_map (st_axons_in st)) q - {aid} else listed (ax_map (st_axons_in st)) q)"
      using axon_remove_axon_evolves [OF state_inv_axons(2) [OF inv]] by blast
    let ?st = "st\<lparr>st_particles := ?P, st_axon_edges := fmdrop aid (st_axon_edges st), st_axons_out := out, st_axons_in := inn\<rparr>"
    have "state_evolves X 2 st ?st" by (simp add: state_evolves_def insert_evolves out(2) inn(2))
    moreover have "remove_axon st ps aid = Some (?st, ps\<lparr>ps_last_touched := fmdrop aid (ps_last_touched ps)\<rparr>)"
      by (simp add: remove_axon_def Let_def Some ft out(1) inn(1))
    moreover have "graph_ok X st \<Longrightarrow> graph_ok X ?st"
      using topology_drop [of X _ _ "st_axon_edges st" aid f t "ax_map out" "ax_map inn"] Some ft out(3) inn(3) by simp
    ultimately show ?thesis using state_inv_evolves [OF inv] by (simp add: unpruned_def)
  qed
qed

lemma unpruned_trans: "unpruned a b \<Longrightarrow> unpruned b c \<Longrightarrow> unpruned a c"
  by (simp add: unpruned_def)

lemma prune_loop_ok:
  assumes "state_inv X (n + 2 * length ids) st"
  shows "\<exists>st' ps' rs rest. prune_loop st ps mx over ids = Some (st', ps') \<and> ids = rs @ rest \<and> state_inv X n st' \<and> unpruned st st' \<and>
    kd_map (st_particles st') = fmfilter (\<lambda>k. k \<notin> set rs) (kd_map (st_particles st)) \<and>
    ps_last_touched ps' = fmfilter (\<lambda>k. k \<notin> set rs) (ps_last_touched ps) \<and>
    st_axon_edges st' = fmfilter (\<lambda>k. k \<notin> set rs) (st_axon_edges st) \<and> (graph_ok X st \<longrightarrow> graph_ok X st') \<and>
    (rest = [] \<or> over \<and> estimate_bytes st' \<le> mx)"
  using assms
proof (induction ids arbitrary: st ps)
  case Nil
  then show ?case by (simp add: unpruned_def)
next
  case (Cons aid ids)
  show ?case
  proof (cases "over \<and> estimate_bytes st \<le> mx")
    case True
    moreover have "state_inv X n st" using Cons.prems by (rule state_inv_mono) simp
    ultimately show ?thesis
      by (rule_tac exI [of _ st], rule_tac exI [of _ ps], rule_tac exI [of _ "[]"], rule_tac exI [of _ "aid # ids"]) (simp add: unpruned_def)
  next
    case False
    have "state_inv X (n + 2 * length ids + 2) st" using Cons.prems by (simp add: add.assoc)
    then obtain st1 ps1 where r: "remove_axon st ps aid = Some (st1, ps1)" "state_inv X (n + 2 * length ids) st1" "unpruned st st1"
      "kd_map (st_particles st1) = fmdrop aid (kd_map (st_particles st))" "ps_last_touched ps1 = fmdrop aid (ps_last_touched ps)"
      "st_axon_edges st1 = fmdrop aid (st_axon_edges st)" "graph_ok X st \<longrightarrow> graph_ok X st1"
      using remove_axon_ok by blast
    obtain st' ps' rs rest where IH: "prune_loop st1 ps1 mx over ids = Some (st', ps')" "ids = rs @ rest" "state_inv X n st'" "unpruned st1 st'"
      "kd_map (st_particles st') = fmfilter (\<lambda>k. k \<notin> set rs) (kd_map (st_particles st1))"
      "ps_last_touched ps' = fmfilter (\<lambda>k. k \<notin> set rs) (ps_last_touched ps1)"
      "st_axon_edges st' = fmfilter (\<lambda>k. k \<notin> set rs) (st_axon_edges st1)" "graph_ok X st1 \<longrightarrow> graph_ok X st'"
      "rest = [] \<or> over \<and> estimate_bytes st' \<le> mx"
      using Cons.IH [OF r(2)] by blast
    have d: "fmfilter (\<lambda>k. k \<notin> set rs) (fmdrop aid m) = fmfilter (\<lambda>k. k \<notin> set (aid # rs)) m" for m :: "(particle, 'z) fmap"
      by (rule fmap_ext) simp
    have "kd_map (st_particles st') = fmfilter (\<lambda>k. k \<notin> set (aid # rs)) (kd_map (st_particles st))"
      "ps_last_touched ps' = fmfilter (\<lambda>k. k \<notin> set (aid # rs)) (ps_last_touched ps)"
      "st_axon_edges st' = fmfilter (\<lambda>k. k \<notin> set (aid # rs)) (st_axon_edges st)"
      unfolding IH(5-7) r(4-6) by (rule d)+
    moreover have "prune_loop st ps mx over (aid # ids) = Some (st', ps')" "aid # ids = (aid # rs) @ rest"
      using False r(1) IH(1,2) by auto
    ultimately show ?thesis using IH(3,8,9) r(7) unpruned_trans [OF r(3) IH(4)] by blast
  qed
qed

section \<open>The candidates\<close>

definition prunable :: "bbg_state \<Rightarrow> prune_state \<Rightarrow> prune_config \<Rightarrow> u64 \<Rightarrow> u64 \<Rightarrow> particle set" where
  "prunable st ps config epoch flr =
     (if estimate_bytes st > pc_max_bytes config
      then {k. \<exists>r. fmlookup (kd_map (st_particles st)) k = Some r \<and> pr_pi_star r < flr}
      else {k. \<exists>t. fmlookup (ps_last_touched ps) k = Some t \<and> map_or 0 pr_pi_star (fmlookup (kd_map (st_particles st)) k) < flr \<and>
             pc_half_life_epochs config < saturating_sub epoch t})"

lemma candidates_ok:
  assumes "rank_floor st (pc_rank_floor_pct config) = Some flr"
    and "fcard (fmdom (kd_map (st_particles st))) + fcard (fmdom (ps_last_touched ps)) \<le> limit"
  shows "\<exists>ids. candidates st ps config epoch limit = Some (Inr (pc_max_bytes config < estimate_bytes st, ids)) \<and>
    set ids = prunable st ps config epoch flr \<and>
    length ids \<le> fcard (fmdom (kd_map (st_particles st))) + fcard (fmdom (ps_last_touched ps))"
proof -
  let ?cs = "if pc_max_bytes config < estimate_bytes st then gravity_candidates st flr
    else stale_candidates st ps (pc_half_life_epochs config) epoch flr"
  have len: "length ?cs \<le> fcard (fmdom (kd_map (st_particles st))) + fcard (fmdom (ps_last_touched ps))"
    using length_filter_le [of _ "sorted_list_of_fmap (kd_map (st_particles st))"] length_filter_le [of _ "sorted_list_of_fmap (ps_last_touched ps)"]
    by (auto simp: gravity_candidates_def stale_candidates_def length_sorted_list_of_fmap intro: trans_le_add1 trans_le_add2)
  then have "collect_bounded limit [] ?cs = Inr ?cs"
    using assms(2) by (subst collect_bounded_eq) auto
  then have "candidates st ps config epoch limit = Some (Inr (pc_max_bytes config < estimate_bytes st, map fst (sort_key snd ?cs)))"
    by (simp add: candidates_def assms(1) Let_def)
  moreover have "set (map fst (sort_key snd ?cs)) = prunable st ps config epoch flr"
    by (auto simp: prunable_def gravity_candidates_def stale_candidates_def image_iff set_sorted_list_of_fmap)
  ultimately show ?thesis using len by (intro exI [of _ "map fst (sort_key snd ?cs)"]) simp
qed

section \<open>Properties\<close>

text \<open>C14: the rank floor protects at least the configured share: for every percentage but zero the floor exists and at
  least \<open>ceil(n * pct / 100)\<close> of the \<open>n\<close> particles, all of them from 100 on, have a rank not below it.\<close>

theorem rank_floor_protects_share:
  assumes "pct \<noteq> 0"
  shows "\<exists>flr. rank_floor st pct = Some flr \<and>
    min (fcard (fmdom (kd_map (st_particles st)))) ((fcard (fmdom (kd_map (st_particles st))) * unat pct + 99) div 100) \<le>
    card {k. \<exists>r. fmlookup (kd_map (st_particles st)) k = Some r \<and> flr \<le> pr_pi_star r}"
proof -
  let ?es = "sorted_list_of_fmap (kd_map (st_particles st))"
  obtain flr where flr: "rank_floor st pct = Some flr" using rank_floor_ex by blast
  let ?fs = "filter (\<lambda>(_, p). flr \<le> pr_pi_star p) ?es"
  have "distinct (map fst ?fs)" using sorted_list_of_fmap_props(3) [of "kd_map (st_particles st)"] by (simp add: distinct_map_filter)
  then have "length ?fs = card (fst ` set ?fs)" using distinct_card [of "map fst ?fs"] by simp
  also have "fst ` set ?fs = {k. \<exists>r. fmlookup (kd_map (st_particles st)) k = Some r \<and> flr \<le> pr_pi_star r}"
    by (auto simp: fst_image_iff set_sorted_list_of_fmap)
  finally show ?thesis
    using rank_floor_share [OF flr assms] flr by (simp add: length_sorted_list_of_fmap)
qed

theorem rank_floor_protects_share_witness:
  "\<exists>flr. rank_floor state_new 20 = Some flr \<and>
    min (fcard (fmdom (kd_map (st_particles state_new)))) ((fcard (fmdom (kd_map (st_particles state_new))) * unat (20 :: u8) + 99) div 100) \<le>
    card {k. \<exists>r. fmlookup (kd_map (st_particles state_new)) k = Some r \<and> flr \<le> pr_pi_star r}"
  by (rule rank_floor_protects_share) simp

lemma prune_ok:
  assumes "state_inv X (n + 2 * (fcard (fmdom (kd_map (st_particles st))) + fcard (fmdom (ps_last_touched ps)))) st"
    and "fcard (fmdom (kd_map (st_particles st))) + fcard (fmdom (ps_last_touched ps)) < 2 ^ 64"
    and "hemera_laws X" and "rank_floor st (pc_rank_floor_pct config) = Some flr"
  shows "\<exists>st' ps' gone st1. prune X st ps config epoch = Some (st', ps') \<and> state_inv X n st' \<and>
    unpruned st st1 \<and> same_records st1 st' \<and> gone \<subseteq> prunable st ps config epoch flr \<and>
    kd_map (st_particles st') = fmfilter (\<lambda>k. k \<notin> gone) (kd_map (st_particles st)) \<and>
    ps_last_touched ps' = fmfilter (\<lambda>k. k \<notin> gone) (ps_last_touched ps) \<and>
    st_axon_edges st' = fmfilter (\<lambda>k. k \<notin> gone) (st_axon_edges st) \<and> (graph_ok X st \<longrightarrow> graph_ok X st') \<and>
    (gone = prunable st ps config epoch flr \<or> pc_max_bytes config < estimate_bytes st \<and> estimate_bytes st' \<le> pc_max_bytes config)"
proof -
  let ?over = "pc_max_bytes config < estimate_bytes st" and ?pr = "prunable st ps config epoch flr"
  have lim: "fcard (fmdom (kd_map (st_particles st))) + fcard (fmdom (ps_last_touched ps)) \<le> 2 ^ 64 - 1" using assms(2) by simp
  obtain ids where ids: "candidates st ps config epoch (2 ^ 64 - 1) = Some (Inr (?over, ids))" "set ids = ?pr"
    "length ids \<le> fcard (fmdom (kd_map (st_particles st))) + fcard (fmdom (ps_last_touched ps))"
    using candidates_ok [OF assms(4) lim] by blast
  have "state_inv X (n + 2 * length ids) st" using assms(1) ids(3) by (auto intro: state_inv_mono)
  then obtain st1 ps' rs rest where l: "prune_loop st ps (pc_max_bytes config) ?over ids = Some (st1, ps')" "ids = rs @ rest"
    "state_inv X n st1" "unpruned st st1" "kd_map (st_particles st1) = fmfilter (\<lambda>k. k \<notin> set rs) (kd_map (st_particles st))"
    "ps_last_touched ps' = fmfilter (\<lambda>k. k \<notin> set rs) (ps_last_touched ps)"
    "st_axon_edges st1 = fmfilter (\<lambda>k. k \<notin> set rs) (st_axon_edges st)" "graph_ok X st \<longrightarrow> graph_ok X st1"
    "rest = [] \<or> ?over \<and> estimate_bytes st1 \<le> pc_max_bytes config"
    using prune_loop_ok by blast
  obtain st' where st': "compute_root X st1 = Some (st', root_spec X st1)" "state_inv X n st'" "same_records st1 st'"
    using compute_root_inv [OF l(3) assms(3)] by blast
  have "prune X st ps config epoch = Some (st', ps')"
    unfolding prune_def ids(1) by (simp add: l(1) refresh_root_def st'(1))
  moreover have "set rs \<subseteq> ?pr" using ids(2) l(2) by auto
  moreover have "set rs = ?pr \<or> ?over \<and> estimate_bytes st' \<le> pc_max_bytes config"
    using l(2,9) ids(2) st'(3) by (auto simp: same_records_def estimate_bytes_def)
  moreover have "kd_map (st_particles st') = fmfilter (\<lambda>k. k \<notin> set rs) (kd_map (st_particles st))"
    "st_axon_edges st' = fmfilter (\<lambda>k. k \<notin> set rs) (st_axon_edges st)" "graph_ok X st \<longrightarrow> graph_ok X st'"
    using st'(3) l(5,7,8) by (simp_all add: same_records_def)
  ultimately show ?thesis using st'(2,3) l(4,6) by blast
qed

text \<open>C15: one pruning cycle always completes and removes candidates only. Every particle whose rank is not below the
  floor keeps its record, nothing but particles, touch times and axons is removed, the adjacency indexes
  keep showing the graph of the reverse map, and the cycle ends with every candidate removed or, in gravity
  mode, within the byte budget.\<close>

theorem prune_cycle:
  assumes "state_inv X (n + 2 * (fcard (fmdom (kd_map (st_particles st))) + fcard (fmdom (ps_last_touched ps)))) st"
    and "fcard (fmdom (kd_map (st_particles st))) + fcard (fmdom (ps_last_touched ps)) < 2 ^ 64"
    and "hemera_laws X" and "rank_floor st (pc_rank_floor_pct config) = Some flr"
  shows "\<exists>st' ps' gone. prune X st ps config epoch = Some (st', ps') \<and> state_inv X n st' \<and>
    gone \<subseteq> prunable st ps config epoch flr \<and>
    kd_map (st_particles st') = fmfilter (\<lambda>k. k \<notin> gone) (kd_map (st_particles st)) \<and>
    ps_last_touched ps' = fmfilter (\<lambda>k. k \<notin> gone) (ps_last_touched ps) \<and>
    st_axon_edges st' = fmfilter (\<lambda>k. k \<notin> gone) (st_axon_edges st) \<and>
    (\<forall>k r. fmlookup (kd_map (st_particles st)) k = Some r \<and> flr \<le> pr_pi_star r \<longrightarrow> fmlookup (kd_map (st_particles st')) k = Some r) \<and>
    kd_map (st_balances st') = kd_map (st_balances st) \<and> kd_map (st_neurons st') = kd_map (st_neurons st) \<and>
    kd_map (st_nullifiers st') = kd_map (st_nullifiers st) \<and> card_map (st_cards st') = card_map (st_cards st) \<and>
    st_height st' = st_height st \<and> (graph_ok X st \<longrightarrow> graph_ok X st') \<and>
    (gone = prunable st ps config epoch flr \<or> pc_max_bytes config < estimate_bytes st \<and> estimate_bytes st' \<le> pc_max_bytes config)"
proof -
  obtain st' ps' gone st1 where p: "prune X st ps config epoch = Some (st', ps')" "state_inv X n st'" "unpruned st st1"
    "same_records st1 st'" "gone \<subseteq> prunable st ps config epoch flr"
    "kd_map (st_particles st') = fmfilter (\<lambda>k. k \<notin> gone) (kd_map (st_particles st))"
    "ps_last_touched ps' = fmfilter (\<lambda>k. k \<notin> gone) (ps_last_touched ps)"
    "st_axon_edges st' = fmfilter (\<lambda>k. k \<notin> gone) (st_axon_edges st)" "graph_ok X st \<longrightarrow> graph_ok X st'"
    "gone = prunable st ps config epoch flr \<or> pc_max_bytes config < estimate_bytes st \<and> estimate_bytes st' \<le> pc_max_bytes config"
    using prune_ok [OF assms] by blast
  have "k \<notin> gone" if "fmlookup (kd_map (st_particles st)) k = Some r" "flr \<le> pr_pi_star r" for k r
  proof -
    have "k \<notin> prunable st ps config epoch flr" using that by (auto simp: prunable_def map_or_def)
    then show ?thesis using p(5) by blast
  qed
  then have "\<forall>k r. fmlookup (kd_map (st_particles st)) k = Some r \<and> flr \<le> pr_pi_star r \<longrightarrow> fmlookup (kd_map (st_particles st')) k = Some r"
    unfolding p(6) by simp
  moreover have "kd_map (st_balances st') = kd_map (st_balances st) \<and> kd_map (st_neurons st') = kd_map (st_neurons st) \<and>
    kd_map (st_nullifiers st') = kd_map (st_nullifiers st) \<and> card_map (st_cards st') = card_map (st_cards st) \<and> st_height st' = st_height st"
    using p(3,4) by (simp add: same_records_def unpruned_def)
  ultimately show ?thesis using p by blast
qed

theorem prune_cycle_witness:
  "\<exists>st' ps' gone. prune sample_ext state_new prune_state_default prune_config_default 5 = Some (st', ps') \<and>
     kd_map (st_particles st') = fmfilter (\<lambda>k. k \<notin> gone) fmempty"
proof -
  have new: "kd_map (st_particles state_new) = fmempty" "ps_last_touched prune_state_default = fmempty"
    by (simp_all add: state_new_def keyed_new_def prune_state_default_def)
  obtain flr where flr: "rank_floor state_new (pc_rank_floor_pct prune_config_default) = Some flr" using rank_floor_ex by blast
  have "state_inv sample_ext 0 state_new" by (rule state_inv_new) simp
  then have pre: "state_inv sample_ext (0 + 2 * (fcard (fmdom (kd_map (st_particles state_new))) + fcard (fmdom (ps_last_touched prune_state_default)))) state_new"
    "fcard (fmdom (kd_map (st_particles state_new))) + fcard (fmdom (ps_last_touched prune_state_default)) < 2 ^ 64"
    by (simp_all add: new fcard.rep_eq)
  from prune_cycle [OF pre hemera_laws_sample flr, of 5] show ?thesis unfolding new by blast
qed

end
