(* ===== verification/Bbg_Block.thy ===== *)
theory Bbg_Block
  imports Bbg_Prune
begin

text \<open>
  Checkpoints and the facade (\<open>checkpoint.rs\<close>, \<open>lib.rs\<close>): state, checkpoint and pruning policy as one unit, the insertion
  that records touch times, and the end of a block. The properties are about every run of the facade.
\<close>

section \<open>Checkpoints\<close>

record checkpoint_proof =
  cpp_profile :: u8
  cpp_bytes :: bytes

record checkpoint =
  cp_root :: particle
  cp_acc :: "checkpoint_proof option"
  cp_height :: u64

definition checkpoint_new :: "ext \<Rightarrow> bbg_state \<Rightarrow> (bbg_state \<times> checkpoint) option" where
  "checkpoint_new X st = do {
     (st, root) \<leftarrow> state_root X st;
     Some (st, \<lparr>cp_root = root, cp_acc = None, cp_height = st_height st\<rparr>) }"

definition checkpoint_advance :: "ext \<Rightarrow> checkpoint \<Rightarrow> bbg_state \<Rightarrow> (bbg_state \<times> checkpoint) option" where
  "checkpoint_advance X cp st = do {
     (st, root) \<leftarrow> state_root X st;
     Some (st, \<lparr>cp_root = root, cp_acc = None, cp_height = st_height st\<rparr>) }"

section \<open>The facade\<close>

record bbg =
  bb_state :: bbg_state
  bb_checkpoint :: checkpoint
  bb_prune_config :: prune_config
  bb_prune_state :: prune_state

definition bbg_new :: "ext \<Rightarrow> bbg option" where
  "bbg_new X = do {
     (st, cp) \<leftarrow> checkpoint_new X state_new;
     Some \<lparr>bb_state = st, bb_checkpoint = cp, bb_prune_config = prune_config_default, bb_prune_state = prune_state_default\<rparr> }"

definition with_prune_config :: "bbg \<Rightarrow> prune_config \<Rightarrow> bbg" where
  "with_prune_config b config = b\<lparr>bb_prune_config := config\<rparr>"

definition with_root_version :: "bbg \<Rightarrow> root_version \<Rightarrow> bbg" where
  "with_root_version b version = b\<lparr>bb_state := set_root_version (bb_state b) version\<rparr>"

fun touch_links :: "ext \<Rightarrow> u64 \<Rightarrow> prune_state \<Rightarrow> cyberlink list \<Rightarrow> prune_state" where
  "touch_links X epoch ps [] = ps"
| "touch_links X epoch ps (link # links) = touch_links X epoch (prune_touch ps (axon_id X (cl_from link) (cl_to link)) epoch) links"

definition bbg_insert :: "ext \<Rightarrow> bbg \<Rightarrow> signal \<Rightarrow> (bbg \<times> (insert_error + unit)) option" where
  "bbg_insert X b signal = do {
     (st, r) \<leftarrow> state_insert X (bb_state b) signal;
     let b = b\<lparr>bb_state := st\<rparr>;
     case r of
       Inl e \<Rightarrow> Some (b, Inl e)
     | Inr _ \<Rightarrow> do {
         let epoch = st_height st div EPOCH_BLOCKS;
         Some (b\<lparr>bb_prune_state := touch_links X epoch (bb_prune_state b) (sg_links signal)\<rparr>, Inr ()) } }"

definition finalize_block :: "ext \<Rightarrow> bbg \<Rightarrow> bbg option" where
  "finalize_block X b = do {
     let h = st_height (bb_state b);
     (st, root) \<leftarrow> state_root X (bb_state b);
     let st = st\<lparr>st_time := fst (keyed_insert (st_time st) h root)\<rparr>;
     (st, _) \<leftarrow> refresh_root X st;
     let st = st\<lparr>st_height := st_height st + 1\<rparr>;
     (st, ps) \<leftarrow> (if st_height st mod EPOCH_BLOCKS = 0
       then prune X st (bb_prune_state b) (bb_prune_config b) (st_height st div EPOCH_BLOCKS)
       else Some (st, bb_prune_state b));
     (st, cp) \<leftarrow> checkpoint_advance X (bb_checkpoint b) st;
     Some (b\<lparr>bb_state := st, bb_prune_state := ps, bb_checkpoint := cp\<rparr>) }"

definition bbg_apply_intent :: "ext \<Rightarrow> bbg \<Rightarrow> intent_record \<Rightarrow> bbg \<times> particle" where
  "bbg_apply_intent X b intent = (let (st, key) = apply_intent X (bb_state b) intent in (b\<lparr>bb_state := st\<rparr>, key))"

definition bbg_apply_signal_record :: "ext \<Rightarrow> bbg \<Rightarrow> signal_record \<Rightarrow> bbg \<times> particle" where
  "bbg_apply_signal_record X b r = (let (st, key) = apply_signal_record X (bb_state b) r in (b\<lparr>bb_state := st\<rparr>, key))"

definition bbg_statistics :: "bbg \<Rightarrow> graph_stats" where
  "bbg_statistics b = statistics (bb_state b)"

definition bbg_set_diameter_bound :: "bbg \<Rightarrow> u64 \<Rightarrow> bbg" where
  "bbg_set_diameter_bound b bound = b\<lparr>bb_state := set_diameter_bound (bb_state b) bound\<rparr>"

section \<open>Steps of the facade\<close>

abbreviation prune_size :: "bbg \<Rightarrow> nat" where
  "prune_size b \<equiv> fcard (fmdom (kd_map (st_particles (bb_state b)))) + fcard (fmdom (ps_last_touched (bb_prune_state b)))"

lemma state_root_ok:
  assumes "state_inv X n st" and "hemera_laws X"
  obtains st' where "state_root X st = Some (st', root_spec X st)" "state_inv X n st'" "same_records st st'"
  using compute_root_inv [OF assms] unfolding state_root_def by blast

lemma checkpoint_ok:
  assumes "state_inv X n st" and "hemera_laws X"
  shows "\<exists>st'. checkpoint_new X st = Some (st', \<lparr>cp_root = root_spec X st, cp_acc = None, cp_height = st_height st\<rparr>) \<and>
    checkpoint_advance X cp st = Some (st', \<lparr>cp_root = root_spec X st, cp_acc = None, cp_height = st_height st\<rparr>) \<and>
    state_inv X n st' \<and> same_records st st'"
  using state_root_ok [OF assms] by (force simp: checkpoint_new_def checkpoint_advance_def same_records_def)


lemma state_inv_fields:
  "state_inv X n (st\<lparr>st_height := h\<rparr>) = state_inv X n st" "state_inv X n (st\<lparr>st_root_version := v\<rparr>) = state_inv X n st"
  "state_inv X n (st\<lparr>st_diameter_override := d\<rparr>) = state_inv X n st" "state_inv X n (st\<lparr>st_intents := i\<rparr>) = state_inv X n st"
proof -
  have d: "dim_entries X (st\<lparr>st_height := h\<rparr>) = dim_entries X st" "dim_entries X (st\<lparr>st_root_version := v\<rparr>) = dim_entries X st"
    "dim_entries X (st\<lparr>st_diameter_override := d\<rparr>) = dim_entries X st" "dim_entries X (st\<lparr>st_intents := i\<rparr>) = dim_entries X st"
    by (rule ext, rename_tac k, case_tac k; simp)+
  show "state_inv X n (st\<lparr>st_height := h\<rparr>) = state_inv X n st" "state_inv X n (st\<lparr>st_root_version := v\<rparr>) = state_inv X n st"
    "state_inv X n (st\<lparr>st_diameter_override := d\<rparr>) = state_inv X n st" "state_inv X n (st\<lparr>st_intents := i\<rparr>) = state_inv X n st"
    by (simp_all add: state_inv_def state_ok_def state_fresh_def state_fits_def d del: dim_entries.simps)
qed

text \<open>The state between the snapshot of the root and pruning.\<close>

definition stamped :: "ext \<Rightarrow> bbg_state \<Rightarrow> bbg_state" where
  "stamped X st = st\<lparr>st_time := fst (keyed_insert (st_time st) (st_height st) (root_spec X st)), st_height := st_height st + 1\<rparr>"

lemma finalize_stamp:
  assumes inv: "state_inv X (n + 2) (bb_state b)" and h: "hemera_laws X"
  obtains st where "state_inv X n st" "same_records (stamped X (bb_state b)) st"
    "finalize_block X b = do {
       (st, ps) \<leftarrow> (if st_height st mod EPOCH_BLOCKS = 0
         then prune X st (bb_prune_state b) (bb_prune_config b) (st_height st div EPOCH_BLOCKS) else Some (st, bb_prune_state b));
       (st, cp) \<leftarrow> checkpoint_advance X (bb_checkpoint b) st;
       Some (b\<lparr>bb_state := st, bb_prune_state := ps, bb_checkpoint := cp\<rparr>) }"
proof -
  let ?h = "st_height (bb_state b)" and ?r = "root_spec X (bb_state b)"
  obtain st1 where st1: "state_root X (bb_state b) = Some (st1, ?r)" "state_inv X (n + 2) st1" "same_records (bb_state b) st1"
    using state_root_ok [OF inv h] by blast
  let ?st2 = "st1\<lparr>st_time := fst (keyed_insert (st_time st1) ?h ?r)\<rparr>"
  have "state_evolves X 2 st1 ?st2" by (simp add: state_evolves_def insert_evolves)
  then have "state_inv X n ?st2" using state_inv_evolves [OF st1(2)] by blast
  then obtain st3 where st3: "compute_root X ?st2 = Some (st3, root_spec X ?st2)" "state_inv X n st3" "same_records ?st2 st3"
    using compute_root_inv [OF _ h] by blast
  have "same_records (stamped X (bb_state b)) (st3\<lparr>st_height := st_height st3 + 1\<rparr>)"
    using st1(3) st3(3) by (simp add: same_records_def stamped_def)
  moreover have "state_inv X n (st3\<lparr>st_height := st_height st3 + 1\<rparr>)" using st3(2) by (simp add: state_inv_fields)
  ultimately show ?thesis
    using that [of "st3\<lparr>st_height := st_height st3 + 1\<rparr>"] st1(1) st3(1) by (simp add: finalize_block_def Let_def refresh_root_def)
qed

text \<open>The ledger: every dimension that neither pruning nor the clock changes.\<close>

definition ledger_same :: "bbg_state \<Rightarrow> bbg_state \<Rightarrow> bool" where
  "ledger_same st st' \<longleftrightarrow>
     kd_map (st_neurons st') = kd_map (st_neurons st) \<and> kd_map (st_locations st') = kd_map (st_locations st) \<and>
     kd_map (st_coins st') = kd_map (st_coins st) \<and> card_map (st_cards st') = card_map (st_cards st) \<and>
     kd_map (st_files st') = kd_map (st_files st) \<and> kd_map (st_signals st') = kd_map (st_signals st) \<and>
     kd_map (st_commitments st') = kd_map (st_commitments st) \<and> kd_map (st_nullifiers st') = kd_map (st_nullifiers st) \<and>
     kd_map (st_balances st') = kd_map (st_balances st) \<and> st_intents st' = st_intents st \<and>
     st_diameter_override st' = st_diameter_override st \<and> st_root_version st' = st_root_version st"

text \<open>The particles and axons after a block end: all of them, or those that pruning at an epoch boundary leaves.\<close>

definition graph_finalized :: "ext \<Rightarrow> bbg \<Rightarrow> bbg \<Rightarrow> bool" where
  "graph_finalized X b b' \<longleftrightarrow> (graph_ok X (bb_state b) \<longrightarrow> graph_ok X (bb_state b')) \<and>
     (if (st_height (bb_state b) + 1) mod EPOCH_BLOCKS = 0
      then \<exists>flr gone. rank_floor (bb_state b) (pc_rank_floor_pct (bb_prune_config b)) = Some flr \<and>
        gone \<subseteq> prunable (bb_state b) (bb_prune_state b) (bb_prune_config b) ((st_height (bb_state b) + 1) div EPOCH_BLOCKS) flr \<and>
        kd_map (st_particles (bb_state b')) = fmfilter (\<lambda>k. k \<notin> gone) (kd_map (st_particles (bb_state b))) \<and>
        ps_last_touched (bb_prune_state b') = fmfilter (\<lambda>k. k \<notin> gone) (ps_last_touched (bb_prune_state b))
      else kd_map (st_particles (bb_state b')) = kd_map (st_particles (bb_state b)) \<and>
        ax_map (st_axons_out (bb_state b')) = ax_map (st_axons_out (bb_state b)) \<and>
        ax_map (st_axons_in (bb_state b')) = ax_map (st_axons_in (bb_state b)) \<and>
        st_axon_edges (bb_state b') = st_axon_edges (bb_state b) \<and> bb_prune_state b' = bb_prune_state b)"

lemma prunable_same:
  assumes "same_records (stamped X st) st'"
  shows "rank_floor st' pct = rank_floor st pct" "prunable st' ps config epoch flr = prunable st ps config epoch flr"
  using assms by (simp_all add: same_records_def stamped_def rank_floor_def prunable_def estimate_bytes_def)

lemma prune_stage:
  assumes inv: "state_inv X (n + 2 * prune_size b) st" and sz: "prune_size b < 2 ^ 64" and h: "hemera_laws X"
    and same: "same_records (stamped X (bb_state b)) st"
  shows "\<exists>st' ps. (if st_height st mod EPOCH_BLOCKS = 0
      then prune X st (bb_prune_state b) (bb_prune_config b) (st_height st div EPOCH_BLOCKS) else Some (st, bb_prune_state b)) = Some (st', ps) \<and>
    state_inv X n st' \<and> ledger_same (bb_state b) st' \<and>
    kd_map (st_time st') = fmupd (st_height (bb_state b)) (root_spec X (bb_state b)) (kd_map (st_time (bb_state b))) \<and>
    st_height st' = st_height (bb_state b) + 1 \<and> graph_finalized X b (b\<lparr>bb_state := st', bb_prune_state := ps\<rparr>)"
proof (cases "st_height st mod EPOCH_BLOCKS = 0")
  case False
  moreover have "state_inv X n st" using inv by (rule state_inv_mono) simp
  ultimately show ?thesis using same by (simp add: same_records_def stamped_def ledger_same_def graph_finalized_def)
next
  case True
  have p: "kd_map (st_particles st) = kd_map (st_particles (bb_state b))" "st_height st = st_height (bb_state b) + 1"
    using same by (simp_all add: same_records_def stamped_def)
  obtain flr where flr: "rank_floor st (pc_rank_floor_pct (bb_prune_config b)) = Some flr" using rank_floor_ex by blast
  obtain st' ps' gone st1 where r: "prune X st (bb_prune_state b) (bb_prune_config b) (st_height st div EPOCH_BLOCKS) = Some (st', ps')"
    "state_inv X n st'" "unpruned st st1" "same_records st1 st'"
    "gone \<subseteq> prunable st (bb_prune_state b) (bb_prune_config b) (st_height st div EPOCH_BLOCKS) flr"
    "kd_map (st_particles st') = fmfilter (\<lambda>k. k \<notin> gone) (kd_map (st_particles st))"
    "ps_last_touched ps' = fmfilter (\<lambda>k. k \<notin> gone) (ps_last_touched (bb_prune_state b))" "graph_ok X st \<longrightarrow> graph_ok X st'"
    using prune_ok [OF _ _ h flr, of n "bb_prune_state b" "st_height st div EPOCH_BLOCKS"] inv sz unfolding p(1) by blast
  have "ledger_same (bb_state b) st'" using same r(3,4) by (simp add: same_records_def stamped_def unpruned_def ledger_same_def)
  moreover have "kd_map (st_time st') = fmupd (st_height (bb_state b)) (root_spec X (bb_state b)) (kd_map (st_time (bb_state b)))"
    "st_height st' = st_height (bb_state b) + 1"
    using same r(3,4) by (simp_all add: same_records_def stamped_def unpruned_def)
  moreover have "graph_ok X (bb_state b) \<longrightarrow> graph_ok X st'" using same r(8) by (simp add: same_records_def stamped_def)
  then have "graph_finalized X b (b\<lparr>bb_state := st', bb_prune_state := ps'\<rparr>)"
    using True flr r(5,6,7) unfolding p(1,2) prunable_same [OF same] graph_finalized_def by auto
  ultimately show ?thesis using True r(1,2) by simp
qed

lemma finalize_block_ok:
  assumes "state_inv X (n + 2 + 2 * prune_size b) (bb_state b)" and "prune_size b < 2 ^ 64" and "hemera_laws X"
  shows "\<exists>b'. finalize_block X b = Some b' \<and> state_inv X n (bb_state b') \<and>
    kd_map (st_time (bb_state b')) = fmupd (st_height (bb_state b)) (root_spec X (bb_state b)) (kd_map (st_time (bb_state b))) \<and>
    st_height (bb_state b') = st_height (bb_state b) + 1 \<and>
    bb_checkpoint b' = \<lparr>cp_root = root_spec X (bb_state b'), cp_acc = None, cp_height = st_height (bb_state b) + 1\<rparr> \<and>
    ledger_same (bb_state b) (bb_state b') \<and> graph_finalized X b b' \<and> bb_prune_config b' = bb_prune_config b"
proof -
  have inv: "state_inv X (n + 2 * prune_size b + 2) (bb_state b)" using assms(1) by (simp add: ac_simps)
  obtain st where st: "state_inv X (n + 2 * prune_size b) st" "same_records (stamped X (bb_state b)) st"
    "finalize_block X b = do {
       (st, ps) \<leftarrow> (if st_height st mod EPOCH_BLOCKS = 0
         then prune X st (bb_prune_state b) (bb_prune_config b) (st_height st div EPOCH_BLOCKS) else Some (st, bb_prune_state b));
       (st, cp) \<leftarrow> checkpoint_advance X (bb_checkpoint b) st;
       Some (b\<lparr>bb_state := st, bb_prune_state := ps, bb_checkpoint := cp\<rparr>) }"
    using finalize_stamp [OF inv assms(3)] by blast
  obtain st1 ps where p: "(if st_height st mod EPOCH_BLOCKS = 0
      then prune X st (bb_prune_state b) (bb_prune_config b) (st_height st div EPOCH_BLOCKS) else Some (st, bb_prune_state b)) = Some (st1, ps)"
    "state_inv X n st1" "ledger_same (bb_state b) st1"
    "kd_map (st_time st1) = fmupd (st_height (bb_state b)) (root_spec X (bb_state b)) (kd_map (st_time (bb_state b)))"
    "st_height st1 = st_height (bb_state b) + 1" "graph_finalized X b (b\<lparr>bb_state := st1, bb_prune_state := ps\<rparr>)"
    using prune_stage [OF st(1) assms(2,3) st(2)] by blast
  obtain st2 where c: "checkpoint_advance X (bb_checkpoint b) st1 = Some (st2, \<lparr>cp_root = root_spec X st1, cp_acc = None, cp_height = st_height st1\<rparr>)"
    "state_inv X n st2" "same_records st1 st2"
    using checkpoint_ok [OF p(2) assms(3)] by blast
  let ?b = "b\<lparr>bb_state := st2, bb_prune_state := ps, bb_checkpoint := \<lparr>cp_root = root_spec X st1, cp_acc = None, cp_height = st_height st1\<rparr>\<rparr>"
  have "finalize_block X b = Some ?b" unfolding st(3) p(1) by (simp add: c(1))
  moreover have "ledger_same (bb_state b) st2" using p(3) c(3) by (simp add: same_records_def ledger_same_def)
  moreover have "graph_finalized X b ?b" using p(6) c(3) by (cases "(st_height (bb_state b) + 1) mod EPOCH_BLOCKS = 0") (simp_all add: same_records_def graph_finalized_def)
  moreover have "root_spec X st1 = root_spec X st2" by (rule root_spec_same [OF c(3), symmetric])
  ultimately show ?thesis using c(2,3) p(4,5) by (simp add: same_records_def)
qed

section \<open>Runs of the facade\<close>

text \<open>Every sequence of calls; \<open>n\<close> counts the trie nodes the state may still allocate, which a call uses up.\<close>

inductive bbg_run :: "ext \<Rightarrow> nat \<Rightarrow> bbg \<Rightarrow> bool" for X where
  run_new: "n \<le> 2 ^ 32 \<Longrightarrow> bbg_new X = Some b \<Longrightarrow> bbg_run X n b"
| run_config: "bbg_run X n b \<Longrightarrow> bbg_run X n (with_prune_config b config)"
| run_version: "bbg_run X n b \<Longrightarrow> bbg_run X n (with_root_version b version)"
| run_diameter: "bbg_run X n b \<Longrightarrow> bbg_run X n (bbg_set_diameter_bound b bound)"
| run_intent: "bbg_run X n b \<Longrightarrow> bbg_run X n (fst (bbg_apply_intent X b intent))"
| run_signal: "bbg_run X (n + 2) b \<Longrightarrow> bbg_run X n (fst (bbg_apply_signal_record X b r))"
| run_insert: "bbg_run X (n + 2 * length (sg_box_moves s) + 4 * length (sg_links s)) b \<Longrightarrow> bbg_insert X b s = Some (b', res) \<Longrightarrow> bbg_run X n b'"
| run_finalize: "bbg_run X (n + 2 + 2 * prune_size b) b \<Longrightarrow> prune_size b < 2 ^ 64 \<Longrightarrow> st_height (bb_state b) < - 1 \<Longrightarrow>
    finalize_block X b = Some b' \<Longrightarrow> bbg_run X n b'"

text \<open>What every run keeps: the state's invariant, no zero balance, one time snapshot per finished block, and a checkpoint
  at the current height that carries no proof.\<close>

definition bbg_ok :: "ext \<Rightarrow> nat \<Rightarrow> bbg \<Rightarrow> bool" where
  "bbg_ok X n b \<longleftrightarrow> state_inv X n (bb_state b) \<and> balances_canonical (kd_map (st_balances (bb_state b))) \<and>
     fset (fmdom (kd_map (st_time (bb_state b)))) = {h. h < st_height (bb_state b)} \<and>
     cp_height (bb_checkpoint b) = st_height (bb_state b) \<and> cp_acc (bb_checkpoint b) = None"

lemma bbg_new_ok:
  assumes "hemera_laws X" and "n \<le> 2 ^ 32"
  shows "\<exists>b. bbg_new X = Some b \<and> bbg_ok X n b \<and> same_records state_new (bb_state b) \<and>
    bb_prune_config b = prune_config_default \<and> bb_prune_state b = prune_state_default \<and>
    cp_root (bb_checkpoint b) = root_spec X state_new"
proof -
  obtain st where st: "checkpoint_new X state_new = Some (st, \<lparr>cp_root = root_spec X state_new, cp_acc = None, cp_height = st_height state_new\<rparr>)"
    "state_inv X n st" "same_records state_new st"
    using checkpoint_ok [OF state_inv_new [OF assms(2)] assms(1)] by blast
  then show ?thesis
    by (simp add: bbg_new_def bbg_ok_def same_records_def state_new_def keyed_new_def balances_canonical_def fmran'_iff)
qed

lemma less_Suc_word: "h < (- 1 :: u64) \<Longrightarrow> {k. k < h + 1} = insert h {k. k < h}"
proof -
  assume "h < - 1"
  then have "unat h < 2 ^ 64 - 1" by (simp add: word_less_nat_alt unsigned_minus_1_eq_mask mask_eq_exp_minus_1)
  then have "unat (h + 1) = unat h + 1" by (simp add: unat_word_ariths)
  then show ?thesis by (auto simp: word_less_nat_alt less_Suc_eq word_unat_eq_iff)
qed

lemma state_insert_links_ok:
  assumes "state_inv X (n + 2 * length (sg_box_moves s) + 4 * length (sg_links s)) st"
  shows "\<exists>st' r. state_insert X st s = Some (st', r) \<and> state_inv X n st' \<and> st_time st' = st_time st \<and> st_height st' = st_height st \<and>
    kd_map (st_balances st') = (if spends st s then kd_map (st_balances st) else foldl (link_balances X) (kd_map (st_balances st)) (sg_links s))"
proof (cases "spends st s")
  case True
  moreover have "state_inv X n st" using assms by (rule state_inv_mono) simp
  ultimately show ?thesis by (auto simp: state_insert_def spends_def)
next
  case False
  then show ?thesis using state_insert_nullifiers [OF assms False] by (auto simp: links_effect_def)
qed

lemma bbg_insert_ok:
  assumes "bbg_ok X (n + 2 * length (sg_box_moves s) + 4 * length (sg_links s)) b"
  shows "\<exists>b' r. bbg_insert X b s = Some (b', r) \<and> bbg_ok X n b'"
proof -
  have "state_inv X (n + 2 * length (sg_box_moves s) + 4 * length (sg_links s)) (bb_state b)" using assms by (simp add: bbg_ok_def)
  from state_insert_links_ok [OF this] show ?thesis
    using assms by (force simp: bbg_insert_def bbg_ok_def link_balances_canonical Let_def split: sum.split)
qed

lemma bbg_finalize_ok:
  assumes "bbg_ok X (n + 2 + 2 * prune_size b) b" and "prune_size b < 2 ^ 64" and "st_height (bb_state b) < - 1" and "hemera_laws X"
  shows "\<exists>b'. finalize_block X b = Some b' \<and> bbg_ok X n b'"
proof -
  have "state_inv X (n + 2 + 2 * prune_size b) (bb_state b)" using assms(1) by (simp add: bbg_ok_def)
  from finalize_block_ok [OF this assms(2,4)] show ?thesis
    using assms(1,3) by (auto simp: bbg_ok_def ledger_same_def less_Suc_word)
qed

lemma bbg_setters_ok:
  "bbg_ok X n b \<Longrightarrow> bbg_ok X n (with_prune_config b config)" "bbg_ok X n b \<Longrightarrow> bbg_ok X n (with_root_version b version)"
  "bbg_ok X n b \<Longrightarrow> bbg_ok X n (bbg_set_diameter_bound b bound)" "bbg_ok X n b \<Longrightarrow> bbg_ok X n (fst (bbg_apply_intent X b intent))"
  by (simp_all add: bbg_ok_def with_prune_config_def with_root_version_def set_root_version_def bbg_set_diameter_bound_def
      set_diameter_bound_def bbg_apply_intent_def apply_intent_def Let_def state_inv_fields)

lemma bbg_signal_ok: "bbg_ok X (n + 2) b \<Longrightarrow> bbg_ok X n (fst (bbg_apply_signal_record X b r))"
proof -
  assume b: "bbg_ok X (n + 2) b"
  let ?st = "fst (apply_signal_record X (bb_state b) r)"
  have "state_evolves X 2 (bb_state b) ?st" by (simp add: apply_signal_record_def Let_def state_evolves_def insert_evolves)
  then have "state_inv X n ?st" using state_inv_evolves [of X n 2] b unfolding bbg_ok_def by blast
  then show ?thesis using b by (simp add: bbg_ok_def bbg_apply_signal_record_def apply_signal_record_def Let_def)
qed

lemma bbg_run_ok: "bbg_run X n b \<Longrightarrow> hemera_laws X \<Longrightarrow> bbg_ok X n b"
proof (induction rule: bbg_run.induct)
  case (run_new n b)
  then show ?case using bbg_new_ok [of X n] by auto
next
  case (run_insert n s b b' res)
  then show ?case using bbg_insert_ok [of X n s b] by auto
next
  case (run_finalize n b b')
  then show ?case using bbg_finalize_ok [of X n b] by auto
qed (simp_all add: bbg_setters_ok bbg_signal_ok)

text \<open>One call of the facade, with the room before and after it.\<close>

inductive bbg_step :: "ext \<Rightarrow> nat \<times> bbg \<Rightarrow> nat \<times> bbg \<Rightarrow> bool" for X where
  step_config: "bbg_step X (n, b) (n, with_prune_config b config)"
| step_version: "bbg_step X (n, b) (n, with_root_version b version)"
| step_diameter: "bbg_step X (n, b) (n, bbg_set_diameter_bound b bound)"
| step_intent: "bbg_step X (n, b) (n, fst (bbg_apply_intent X b intent))"
| step_signal: "bbg_step X (n + 2, b) (n, fst (bbg_apply_signal_record X b r))"
| step_insert: "bbg_insert X b s = Some (b', res) \<Longrightarrow> bbg_step X (n + 2 * length (sg_box_moves s) + 4 * length (sg_links s), b) (n, b')"
| step_finalize: "prune_size b < 2 ^ 64 \<Longrightarrow> st_height (bb_state b) < - 1 \<Longrightarrow> finalize_block X b = Some b' \<Longrightarrow> bbg_step X (n + 2 + 2 * prune_size b, b) (n, b')"

lemma bbg_run_steps: "(bbg_step X)\<^sup>*\<^sup>* s t \<Longrightarrow> bbg_run X (fst s) (snd s) \<Longrightarrow> bbg_run X (fst t) (snd t)"
proof (induction rule: rtranclp_induct)
  case (step t u)
  from step(2) step.IH [OF step.prems] show ?case by (cases rule: bbg_step.cases) (auto intro: bbg_run.intros)
qed simp

abbreviation spent :: "bbg \<Rightarrow> particle set" where
  "spent b \<equiv> {nf. kset_contains (st_nullifiers (bb_state b)) nf}"

lemma bbg_insert_spent:
  assumes ok: "bbg_ok X (n + 2 * length (sg_box_moves s) + 4 * length (sg_links s)) b" and run: "bbg_insert X b s = Some (b', r)"
  shows "if spends (bb_state b) s then b' = b \<and> r = Inl DoubleSpend else r = Inr () \<and> spent b' = spent b \<union> bm_nullifier ` set (sg_box_moves s)"
proof (cases "spends (bb_state b) s")
  case True
  then show ?thesis using run by (auto simp: bbg_insert_def state_insert_def spends_def)
next
  case False
  have "state_inv X (n + 2 * length (sg_box_moves s) + 4 * length (sg_links s)) (bb_state b)" using ok by (simp add: bbg_ok_def)
  from state_insert_nullifiers [OF this False] obtain st' where st': "state_insert X (bb_state b) s = Some (st', Inr ())"
      "{k. kset_contains (st_nullifiers st') k} = spent b \<union> bm_nullifier ` set (sg_box_moves s)" by blast
  then have "bb_state b' = st'" "r = Inr ()" using run by (auto simp: bbg_insert_def Let_def)
  then show ?thesis using st'(2) False by simp
qed

text \<open>No call of the facade forgets a spent nullifier.\<close>

lemma bbg_step_spent:
  assumes "bbg_step X s t" and "bbg_ok X (fst s) (snd s)" and h: "hemera_laws X"
  shows "bbg_ok X (fst t) (snd t) \<and> spent (snd s) \<subseteq> spent (snd t)"
  using assms(1,2)
proof (cases rule: bbg_step.cases)
  case (step_insert b s' b' res n)
  then have ok: "bbg_ok X (n + 2 * length (sg_box_moves s') + 4 * length (sg_links s')) b" using assms(2) by simp
  from bbg_insert_ok [OF ok] bbg_insert_spent [OF ok step_insert(3)] show ?thesis
    using step_insert by (auto split: if_splits)
next
  case (step_finalize b b' n)
  then have ok: "bbg_ok X (n + 2 + 2 * prune_size b) b" using assms(2) by simp
  then have "state_inv X (n + 2 + 2 * prune_size b) (bb_state b)" by (simp add: bbg_ok_def)
  from finalize_block_ok [OF this step_finalize(3) h] bbg_finalize_ok [OF ok step_finalize(3,4) h] show ?thesis
    using step_finalize by (auto simp: ledger_same_def kset_contains_def)
next
  case (step_signal n b r)
  then show ?thesis using assms(2) bbg_signal_ok [of X n b r] by (simp add: bbg_apply_signal_record_def apply_signal_record_def Let_def)
next
  case (step_config n b config)
  then show ?thesis using assms(2) bbg_setters_ok(1) [of X n b config] by (simp add: with_prune_config_def)
next
  case (step_version n b version)
  then show ?thesis using assms(2) bbg_setters_ok(2) [of X n b version] by (simp add: with_root_version_def set_root_version_def)
next
  case (step_diameter n b bound)
  then show ?thesis using assms(2) bbg_setters_ok(3) [of X n b bound] by (simp add: bbg_set_diameter_bound_def set_diameter_bound_def)
next
  case (step_intent n b intent)
  then show ?thesis using assms(2) bbg_setters_ok(4) [of X n b intent] by (simp add: bbg_apply_intent_def apply_intent_def Let_def)
qed

lemma bbg_steps_spent:
  assumes "(bbg_step X)\<^sup>*\<^sup>* s t" and "bbg_ok X (fst s) (snd s)" and "hemera_laws X"
  shows "bbg_ok X (fst t) (snd t) \<and> spent (snd s) \<subseteq> spent (snd t)"
  using assms(1)
proof (induction rule: rtranclp_induct)
  case (step t u)
  then show ?case using bbg_step_spent [OF step(2) _ assms(3)] by blast
qed (use assms(2) in simp)

section \<open>Properties\<close>

text \<open>C16: the end of a block always completes. It records the root before it under the block's height, moves the height on
  by one, takes a checkpoint of exactly the resulting state that carries no proof of an older root, leaves the ledger
  alone, and removes particles and touch times only at an epoch boundary and only prunable ones.\<close>

theorem finalize_block_correct:
  assumes "state_inv X (n + 2 + 2 * prune_size b) (bb_state b)" and "prune_size b < 2 ^ 64" and "hemera_laws X"
  shows "\<exists>b'. finalize_block X b = Some b' \<and> state_inv X n (bb_state b') \<and>
    kd_map (st_time (bb_state b')) = fmupd (st_height (bb_state b)) (root_spec X (bb_state b)) (kd_map (st_time (bb_state b))) \<and>
    st_height (bb_state b') = st_height (bb_state b) + 1 \<and>
    bb_checkpoint b' = \<lparr>cp_root = root_spec X (bb_state b'), cp_acc = None, cp_height = st_height (bb_state b) + 1\<rparr> \<and>
    ledger_same (bb_state b) (bb_state b') \<and> graph_finalized X b b' \<and> bb_prune_config b' = bb_prune_config b"
  by (rule finalize_block_ok [OF assms])

lemma new_prune_size:
  "same_records state_new (bb_state b) \<Longrightarrow> bb_prune_state b = prune_state_default \<Longrightarrow> prune_size b = 0"
  by (simp add: same_records_def state_new_def keyed_new_def prune_state_default_def fcard.rep_eq)

theorem finalize_block_correct_witness:
  "\<exists>b b'. bbg_new sample_ext = Some b \<and> finalize_block sample_ext b = Some b' \<and> st_height (bb_state b') = 1 \<and>
     kd_map (st_time (bb_state b')) = fmupd 0 (root_spec sample_ext state_new) fmempty"
proof -
  obtain b where b: "bbg_new sample_ext = Some b" "bbg_ok sample_ext 2 b" "same_records state_new (bb_state b)"
    "bb_prune_state b = prune_state_default"
    using bbg_new_ok [OF hemera_laws_sample, of 2] by auto
  note sz = new_prune_size [OF b(3,4)]
  have pre: "state_inv sample_ext (0 + 2 + 2 * prune_size b) (bb_state b)" "prune_size b < 2 ^ 64"
    using b(2) by (simp_all add: sz bbg_ok_def numeral_2_eq_2)
  have z: "st_height (bb_state b) = 0" "kd_map (st_time (bb_state b)) = fmempty"
    using b(3) by (simp_all add: same_records_def state_new_def keyed_new_def)
  show ?thesis
    using finalize_block_correct [OF pre hemera_laws_sample] b(1) root_spec_same [OF b(3)] unfolding z by auto
qed

text \<open>C17: in every run of the facade, from a fresh one on and whatever the order of its calls, each dimension keeps its
  invariant and no cached commitment is stale, no balance row is zero, the time dimension holds one snapshot for each
  finished block and for no other height, and the checkpoint stands at the current height without a proof.\<close>

theorem bbg_run_invariant:
  assumes "bbg_run X n b" and "hemera_laws X"
  shows "state_inv X n (bb_state b) \<and> balances_canonical (kd_map (st_balances (bb_state b))) \<and>
     fset (fmdom (kd_map (st_time (bb_state b)))) = {h. h < st_height (bb_state b)} \<and>
     cp_height (bb_checkpoint b) = st_height (bb_state b) \<and> cp_acc (bb_checkpoint b) = None"
  using bbg_run_ok [OF assms] by (simp add: bbg_ok_def)

theorem bbg_run_invariant_witness:
  "\<exists>b. bbg_run sample_ext 0 b \<and> cp_height (bb_checkpoint b) = st_height (bb_state b) \<and>
     kd_map (st_balances (bb_state b)) = link_balances sample_ext fmempty (hd (sg_links sample_signal))"
proof -
  let ?n = "0 + 2 * length (sg_box_moves sample_signal) + 4 * length (sg_links sample_signal)"
  have n: "?n \<le> 2 ^ 32" by (simp add: sample_signal_def)
  obtain b where b: "bbg_new sample_ext = Some b" "bbg_ok sample_ext ?n b" "same_records state_new (bb_state b)"
    using bbg_new_ok [OF hemera_laws_sample n] by blast
  obtain b' r where b': "bbg_insert sample_ext b sample_signal = Some (b', r)" using bbg_insert_ok [OF b(2)] by blast
  have run: "bbg_run sample_ext 0 b'" by (rule run_insert [OF run_new [OF n b(1)] b'])
  have inv: "state_inv sample_ext ?n (bb_state b)" using b(2) by (simp add: bbg_ok_def)
  have s: "\<not> spends (bb_state b) sample_signal" and k: "kd_map (st_balances (bb_state b)) = fmempty"
    using b(3) new_nullifiers by (auto simp: spends_def same_records_def kset_contains_def) (simp add: state_new_def keyed_new_def)
  have "kd_map (st_balances (bb_state b')) = link_balances sample_ext fmempty (hd (sg_links sample_signal))"
    using state_insert_links_ok [OF inv] s k b' by (auto simp: bbg_insert_def Let_def sample_signal_def split: sum.splits)
  then show ?thesis using run bbg_run_invariant [OF run hemera_laws_sample] by blast
qed

text \<open>C12: no double spend. A signal that the facade accepts spends none of the nullifiers spent before it; and every nullifier it spends stays spent: after any
  further calls of the facade in any order, further signals, ends of blocks with their pruning and changes of the root derivation included, a signal that spends it again is
  refused and leaves no trace.\<close>

theorem no_double_spend:
  assumes "bbg_ok X (n + 2 * length (sg_box_moves s) + 4 * length (sg_links s)) b" and "hemera_laws X"
    and "bbg_insert X b s = Some (b1, Inr ())" and "(bbg_step X)\<^sup>*\<^sup>* (n, b1) (m, b2)"
    and "mv \<in> set (sg_box_moves s)" and "mv' \<in> set (sg_box_moves s')" and "bm_nullifier mv' = bm_nullifier mv"
  shows "bbg_insert X b2 s' = Some (b2, Inl DoubleSpend) \<and> \<not> kset_contains (st_nullifiers (bb_state b)) (bm_nullifier mv)"
proof -
  have first: "\<not> spends (bb_state b) s" "spent b1 = spent b \<union> bm_nullifier ` set (sg_box_moves s)"
    using bbg_insert_spent [OF assms(1,3)] by (simp_all split: if_splits)
  have "bbg_ok X n b1" using bbg_insert_ok [OF assms(1)] assms(3) by auto
  then have "spent b1 \<subseteq> spent b2" using bbg_steps_spent [OF assms(4) _ assms(2)] by simp
  then have "kset_contains (st_nullifiers (bb_state b2)) (bm_nullifier mv)" using first(2) assms(5) by blast
  then have "\<exists>mv \<in> set (sg_box_moves s'). kset_contains (st_nullifiers (bb_state b2)) (bm_nullifier mv)" using assms(6,7) by metis
  then have "state_insert X (bb_state b2) s' = Some (bb_state b2, Inl DoubleSpend)" by (simp add: state_insert_def)
  then have "bbg_insert X b2 s' = Some (b2, Inl DoubleSpend)" by (simp add: bbg_insert_def)
  then show ?thesis using first(1) assms(5) by (auto simp: spends_def)
qed

text \<open>A run: a signal, the end of the block, and the same signal again.\<close>

lemma sample_signal_size:
  assumes "same_records state_new (bb_state b)" and "bb_prune_state b = prune_state_default" and "bbg_ok X (n + 6) b"
    and "bbg_insert X b sample_signal = Some (b1, Inr ())"
  shows "prune_size b1 \<le> 3 \<and> st_height (bb_state b1) = 0"
proof -
  have upd: "fcard (fmdom (fmupd k v m)) \<le> Suc (fcard (fmdom m))" for k :: particle and v :: 'v and m by (simp add: fcard_finsert_if)
  have "2 * length (sg_box_moves sample_signal) + 4 * length (sg_links sample_signal) = 6" by (simp add: sample_signal_def)
  then have "state_inv X (n + 2 * length (sg_box_moves sample_signal) + 4 * length (sg_links sample_signal)) (bb_state b)"
    using assms(3) by (simp add: bbg_ok_def add.assoc)
  moreover have "\<not> spends (bb_state b) sample_signal" using assms(1) new_nullifiers by (auto simp: spends_def same_records_def kset_contains_def)
  ultimately obtain st' where st': "state_insert X (bb_state b) sample_signal = Some (st', Inr ())"
      "links_effect X (sg_neuron sample_signal) (sg_links sample_signal)
        (bb_state b\<lparr>st_nullifiers := st_nullifiers st', st_commitments := st_commitments st'\<rparr>) st'"
    using state_insert_nullifiers [of X n sample_signal "bb_state b"] by blast
  then have b1: "bb_state b1 = st'" "bb_prune_state b1 = touch_links X (st_height st' div EPOCH_BLOCKS) (bb_prune_state b) (sg_links sample_signal)"
    using assms(4) by (auto simp: bbg_insert_def Let_def)
  have new: "kd_map (st_particles (bb_state b)) = fmempty" "st_height (bb_state b) = 0"
    using assms(1) by (simp_all add: same_records_def state_new_def keyed_new_def)
  have "kd_map (st_particles st') = foldl (link_particles X) fmempty (sg_links sample_signal)" "st_height st' = 0"
    using st'(2) new by (simp_all add: links_effect_def)
  moreover have "fcard (fmdom (foldl (link_particles X) fmempty (sg_links sample_signal))) \<le> 2"
    by (simp add: sample_signal_def link_particles_def Let_def del: fmdom_fmupd) (rule order_trans [OF upd], simp del: fmdom_fmupd, rule order_trans [OF upd], simp add: fcard.rep_eq)
  moreover have "fcard (fmdom (ps_last_touched (bb_prune_state b1))) \<le> 1"
    unfolding b1(2) assms(2) by (simp add: sample_signal_def prune_touch_def prune_state_default_def del: fmdom_fmupd)
      (rule order_trans [OF upd], simp add: fcard.rep_eq)
  ultimately show ?thesis by (simp add: b1(1))
qed

theorem no_double_spend_witness:
  "\<exists>b b1 b2. bbg_new sample_ext = Some b \<and> bbg_insert sample_ext b sample_signal = Some (b1, Inr ()) \<and> finalize_block sample_ext b1 = Some b2 \<and>
     bbg_insert sample_ext b2 sample_signal = Some (b2, Inl DoubleSpend)"
proof -
  obtain b where b: "bbg_new sample_ext = Some b" "bbg_ok sample_ext 14 b" "same_records state_new (bb_state b)" "bb_prune_state b = prune_state_default"
    using bbg_new_ok [OF hemera_laws_sample, of 14] by auto
  have n: "8 + 2 * length (sg_box_moves sample_signal) + 4 * length (sg_links sample_signal) = 14" by (simp add: sample_signal_def)
  then have ok: "bbg_ok sample_ext (8 + 2 * length (sg_box_moves sample_signal) + 4 * length (sg_links sample_signal)) b" using b(2) by (simp only: n)
  have "\<not> spends (bb_state b) sample_signal" using b(3) new_nullifiers by (auto simp: spends_def same_records_def kset_contains_def)
  then obtain b1 where b1: "bbg_insert sample_ext b sample_signal = Some (b1, Inr ())" "bbg_ok sample_ext 8 b1"
    using bbg_insert_ok [OF ok] bbg_insert_spent [OF ok] by fastforce
  have sz: "prune_size b1 \<le> 3" "st_height (bb_state b1) = 0"
    using sample_signal_size [OF b(3,4) _ b1(1), of 8] b(2) by simp_all
  let ?n = "6 - 2 * prune_size b1"
  have room: "8 = ?n + 2 + 2 * prune_size b1" using sz(1) by simp
  have fin: "bbg_ok sample_ext (?n + 2 + 2 * prune_size b1) b1" "prune_size b1 < 2 ^ 64" "st_height (bb_state b1) < - 1"
    unfolding room [symmetric] using b1(2) sz by (simp_all add: word_greater_zero_iff)
  obtain b2 where b2: "finalize_block sample_ext b1 = Some b2" using bbg_finalize_ok [OF fin hemera_laws_sample] by blast
  have "bbg_step sample_ext (?n + 2 + 2 * prune_size b1, b1) (?n, b2)" by (rule step_finalize [OF fin(2,3) b2])
  then have "(bbg_step sample_ext)\<^sup>*\<^sup>* (8, b1) (?n, b2)" unfolding room [symmetric] by (rule r_into_rtranclp)
  from no_double_spend [OF ok hemera_laws_sample b1(1) this, of "\<lparr>bm_nullifier = 42, bm_commitment = None\<rparr>" "\<lparr>bm_nullifier = 42, bm_commitment = None\<rparr>" sample_signal]
  show ?thesis using b(1) b1(1) b2 by (auto simp: sample_signal_def)
qed

end
