(* ===== verification/Bbg_Byte_Order.thy ===== *)
theory Bbg_Byte_Order
  imports Bbg_Prelude "HOL-Library.List_Lexorder"
begin

text \<open>
  The order of byte keys. The stores and the record stream compare keys as byte strings, lexicographically; big-endian bytes
  keep the order of the words they encode.
\<close>

lemma be_bytes_Suc: "be_bytes (Suc n) w = ucast (drop_bit (8 * n) w) # be_bytes n w"
  by (simp add: be_bytes_def le_bytes_def)

lemma digit_less:
  fixes a b r s m :: nat
  assumes "r < m" and "s < m"
  shows "a * m + r < b * m + s \<longleftrightarrow> a < b \<or> a = b \<and> r < s"
proof -
  have "a * m + r < b * m + s" if "a < b"
  proof -
    have "Suc a * m \<le> b * m" using that by (intro mult_le_mono1) simp
    then show ?thesis using assms(1) by simp
  qed
  moreover have "b * m + s < a * m + r" if "b < a"
  proof -
    have "Suc b * m \<le> a * m" using that by (intro mult_le_mono1) simp
    then show ?thesis using assms(2) by simp
  qed
  ultimately show ?thesis by (cases a b rule: linorder_cases) auto
qed

lemma top_byte:
  fixes w :: "'a::len word"
  shows "unat (ucast (drop_bit k w) :: u8) = unat w div 2 ^ k mod 256"
proof -
  have "unat (drop_bit k w) = drop_bit k (unat w)" by (simp add: unsigned_drop_bit_eq take_bit_nat_eq_self)
  also have "\<dots> = unat w div 2 ^ k" by (simp add: drop_bit_eq_div)
  finally show ?thesis by (simp add: unsigned_ucast_eq take_bit_eq_mod)
qed

lemma be_bytes_less_take:
  fixes v w :: "'a::len word"
  shows "be_bytes n v < be_bytes n w \<longleftrightarrow> unat v mod 2 ^ (8 * n) < unat w mod 2 ^ (8 * n)"
proof (induction n)
  case 0
  then show ?case by (simp add: be_bytes_def le_bytes_def)
next
  case (Suc n)
  let ?m = "2 ^ (8 * n) :: nat"
  have d: "x mod 2 ^ (8 * Suc n) = (x div ?m mod 256) * ?m + x mod ?m" for x :: nat
    using mod_mult2_eq [of x ?m 256] by (simp add: power_add mult.commute)
  show ?case
    unfolding be_bytes_Suc d
    by (subst digit_less) (auto simp: Suc.IH word_less_nat_alt top_byte word_unat_eq_iff)
qed

lemma be_bytes_less:
  fixes v w :: "'a::len word"
  assumes "LENGTH('a) = 8 * n"
  shows "be_bytes n v < be_bytes n w \<longleftrightarrow> v < w"
proof -
  have "unat x mod 2 ^ (8 * n) = unat x" for x :: "'a word"
    using unsigned_less [of x, where 'a = nat] assms by simp
  then show ?thesis by (simp add: be_bytes_less_take word_less_nat_alt)
qed

end
