(* ===== verification/Bbg_Records.thy ===== *)
theory Bbg_Records
  imports Bbg_Block Bbg_Byte_Order
begin

text \<open>
  Persistent records (\<open>transition/records.rs\<close>, the decoder of \<open>transition/undo.rs\<close>): the byte key and the byte value
  of every record, the stream of all of them, the read of one address and the write that puts a snapshot
  back. \<open>Vec<u8>\<close> keys are byte lists in lexicographic order.
\<close>

section \<open>Encoders\<close>

record stored =
  sd_key :: bytes
  sd_value :: bytes

record record_change =
  rc_key :: bytes
  rc_value :: "bytes option"

datatype native_error =
    ArgumentsError
  | CheckpointProofError
  | DoubleSpendError
  | Overflow string
  | Limit string
  | SignalExists

definition record_key :: "u8 \<Rightarrow> bytes \<Rightarrow> bytes" where
  "record_key d entity = d # entity"

definition integers :: "u64 list \<Rightarrow> bytes" where
  "integers vs = concat (map (le_bytes 8) vs)"

definition enc_particle :: "particle_record \<Rightarrow> bytes" where
  "enc_particle p = integers [pr_energy p, pr_pi_star p, pr_weight p, pr_s_yes p, pr_s_no p, pr_meta_score p]"

definition enc_adjacency :: "particle list \<Rightarrow> bytes" where
  "enc_adjacency es = integers [of_nat (length es)] @ concat (map (be_bytes 32) es)"

definition enc_neuron :: "neuron_record \<Rightarrow> bytes" where
  "enc_neuron n = integers [nr_focus n, nr_karma n, nr_stake n, nr_nonce n]"

definition enc_location :: "location_record \<Rightarrow> bytes" where
  "enc_location v = le_bytes 4 (lr_lat v) @ le_bytes 4 (lr_lon v)"

definition enc_card :: "card_record \<Rightarrow> bytes" where
  "enc_card c = be_bytes 32 (cr_owner c) @ be_bytes 32 (cr_particle c) @ be_bytes 32 (cr_author c) @
     [valence_byte (cr_valence c)] @ le_bytes 8 (cr_since c)"

definition enc_file :: "file_record \<Rightarrow> bytes" where
  "enc_file v = [of_bool (fr_available v)] @ le_bytes 4 (fr_chunk_count v)"

definition enc_signal :: "signal_record \<Rightarrow> bytes" where
  "enc_signal s = be_bytes 32 (sr_neuron s) @ be_bytes 32 (sr_network s) @ le_bytes 4 (sr_link_count s) @
     le_bytes 8 (sr_block_height s) @ be_bytes 32 (sr_proof_hash s) @ le_bytes 8 (sr_step s)"

definition enc_intent :: "intent_record \<Rightarrow> bytes" where
  "enc_intent i = be_bytes 32 (ir_neuron i) @ le_bytes 8 (ir_h0 i) @ be_bytes 32 (ir_scope_hash i) @ be_bytes 64 (ir_signature i)"

definition enc_edge :: "particle \<times> particle \<Rightarrow> bytes" where
  "enc_edge e = be_bytes 32 (fst e) @ be_bytes 32 (snd e)"

definition metadata :: "ext \<Rightarrow> bbg \<Rightarrow> (bbg \<times> bytes) option" where
  "metadata X b = do {
     (st, root) \<leftarrow> state_root X (bb_state b);
     let b = b\<lparr>bb_state := st\<rparr>;
     Some (b, le_bytes 4 (1 :: u32) @ le_bytes 8 (st_height st) @ be_bytes 32 root @
       le_bytes 8 (cp_height (bb_checkpoint b)) @ be_bytes 32 (cp_root (bb_checkpoint b)) @
       [of_bool (st_diameter_override st \<noteq> None)] @ (case st_diameter_override st of None \<Rightarrow> [] | Some d \<Rightarrow> le_bytes 8 d) @
       le_bytes 8 (pc_max_bytes (bb_prune_config b)) @ [pc_rank_floor_pct (bb_prune_config b)] @
       le_bytes 8 (pc_half_life_epochs (bb_prune_config b))) }"

section \<open>The stream of all records\<close>

definition stored_at :: "u8 \<Rightarrow> ('k \<Rightarrow> bytes) \<Rightarrow> ('v \<Rightarrow> bytes) \<Rightarrow> 'k \<times> 'v \<Rightarrow> stored" where
  "stored_at d kb enc e = \<lparr>sd_key = record_key d (kb (fst e)), sd_value = enc (snd e)\<rparr>"

definition state_streams :: "bbg \<Rightarrow> stored list" where
  "state_streams b = (let s = bb_state b in
     map (stored_at 1 (be_bytes 32) enc_particle) (sorted_list_of_fmap (kd_map (st_particles s))) @
     map (stored_at 2 (be_bytes 32) enc_adjacency) (sorted_list_of_fmap (ax_map (st_axons_out s))) @
     map (stored_at 3 (be_bytes 32) enc_adjacency) (sorted_list_of_fmap (ax_map (st_axons_in s))) @
     map (stored_at 4 (be_bytes 32) enc_neuron) (sorted_list_of_fmap (kd_map (st_neurons s))) @
     map (stored_at 5 (be_bytes 32) enc_location) (sorted_list_of_fmap (kd_map (st_locations s))) @
     map (stored_at 6 (be_bytes 32) (\<lambda>v. integers [cn_total_supply v])) (sorted_list_of_fmap (kd_map (st_coins s))) @
     map (stored_at 7 (be_bytes 32) enc_card) (sorted_list_of_fmap (card_map (st_cards s))) @
     map (stored_at 8 (be_bytes 32) enc_file) (sorted_list_of_fmap (kd_map (st_files s))) @
     map (stored_at 9 (be_bytes 8) (be_bytes 32)) (sorted_list_of_fmap (kd_map (st_time s))) @
     map (stored_at 10 (be_bytes 32) enc_signal) (sorted_list_of_fmap (kd_map (st_signals s))) @
     map (stored_at 11 (be_bytes 32) (\<lambda>v. integers [v])) (sorted_list_of_fmap (kd_map (st_commitments s))) @
     map (stored_at 12 (be_bytes 32) (\<lambda>_. [])) (sorted_list_of_fmap (kd_map (st_nullifiers s))) @
     map (stored_at 13 (be_bytes 32) (\<lambda>v. integers [v])) (sorted_list_of_fmap (kd_map (st_balances s))) @
     map (stored_at 14 (be_bytes 32) enc_intent) (sorted_list_of_fmap (st_intents s)) @
     map (stored_at 15 (be_bytes 32) enc_edge) (sorted_list_of_fmap (st_axon_edges s)) @
     map (stored_at 16 (be_bytes 32) (\<lambda>v. integers [v])) (sorted_list_of_fmap (ps_last_touched (bb_prune_state b))))"

definition records :: "ext \<Rightarrow> bbg \<Rightarrow> (bbg \<times> (native_error + stored list)) option" where
  "records X b =
     (if cp_acc (bb_checkpoint b) \<noteq> None then Some (b, Inl CheckpointProofError)
      else do {
        (b, m) \<leftarrow> metadata X b;
        Some (b, Inr (\<lparr>sd_key = record_key 0 [], sd_value = m\<rparr> # state_streams b)) })"

section \<open>Reading one address\<close>

text \<open>A key of the wrong length and a domain the transition does not write panic.\<close>

definition entity_of :: "bytes \<Rightarrow> particle option" where
  "entity_of e = (if length e = 32 then Some (of_be_bytes e) else None)"

definition position_of :: "bytes \<Rightarrow> u64 option" where
  "position_of e = (if length e = 8 then Some (of_be_bytes e) else None)"

definition read_entity :: "bbg \<Rightarrow> u8 \<Rightarrow> particle \<Rightarrow> bytes option option" where
  "read_entity b d k = (let s = bb_state b in
     if d = 1 then Some (map_option enc_particle (fmlookup (kd_map (st_particles s)) k))
     else if d = 2 then Some (map_option enc_adjacency (fmlookup (ax_map (st_axons_out s)) k))
     else if d = 3 then Some (map_option enc_adjacency (fmlookup (ax_map (st_axons_in s)) k))
     else if d = 4 then Some (map_option enc_neuron (fmlookup (kd_map (st_neurons s)) k))
     else if d = 10 then Some (map_option enc_signal (fmlookup (kd_map (st_signals s)) k))
     else if d = 11 then Some (map_option (\<lambda>v. integers [v]) (fmlookup (kd_map (st_commitments s)) k))
     else if d = 12 then Some (if kset_contains (st_nullifiers s) k then Some [] else None)
     else if d = 13 then Some (map_option (\<lambda>v. integers [v]) (fmlookup (kd_map (st_balances s)) k))
     else if d = 14 then Some (map_option enc_intent (fmlookup (st_intents s) k))
     else if d = 15 then Some (map_option enc_edge (fmlookup (st_axon_edges s) k))
     else if d = 16 then Some (map_option (\<lambda>v. integers [v]) (fmlookup (ps_last_touched (bb_prune_state b)) k))
     else None)"

definition read_entry :: "bbg \<Rightarrow> u8 \<Rightarrow> bytes \<Rightarrow> bytes option option" where
  "read_entry b d e =
     (if d = 9 then do { h \<leftarrow> position_of e; Some (map_option (be_bytes 32) (fmlookup (kd_map (st_time (bb_state b))) h)) }
      else do { k \<leftarrow> entity_of e; read_entity b d k })"

definition record_read :: "ext \<Rightarrow> bbg \<Rightarrow> bytes \<Rightarrow> (bbg \<times> bytes option) option" where
  "record_read X b key = (case key of
     [] \<Rightarrow> None
   | d # e \<Rightarrow> if d = 0 then do { (b, m) \<leftarrow> metadata X b; Some (b, Some m) }
             else do { v \<leftarrow> read_entry b d e; Some (b, v) })"

section \<open>Decoders\<close>

text \<open>\<open>Reader\<close>: the rest of a snapshot; reading past its end panics. The evaluation order of the fields is that
  of the source.\<close>

type_synonym 'a reader = "bytes \<Rightarrow> ('a \<times> bytes) option"

definition reader_array :: "nat \<Rightarrow> bytes reader" where
  "reader_array n r = (if n \<le> length r then Some (take n r, drop n r) else None)"

definition reader_u64 :: "u64 reader" where
  "reader_u64 r = do { (a, r) \<leftarrow> reader_array 8 r; Some (of_le_bytes a, r) }"

definition reader_u32 :: "u32 reader" where
  "reader_u32 r = do { (a, r) \<leftarrow> reader_array 4 r; Some (of_le_bytes a, r) }"

definition reader_32 :: "particle reader" where
  "reader_32 r = do { (a, r) \<leftarrow> reader_array 32 r; Some (of_be_bytes a, r) }"

fun reader_entries :: "nat \<Rightarrow> particle list reader" where
  "reader_entries 0 r = Some ([], r)"
| "reader_entries (Suc n) r = do { (a, r) \<leftarrow> reader_32 r; (as, r) \<leftarrow> reader_entries n r; Some (a # as, r) }"

definition dec_particle :: "bytes \<Rightarrow> particle_record option" where
  "dec_particle r = do {
     (e, r) \<leftarrow> reader_u64 r; (p, r) \<leftarrow> reader_u64 r; (w, r) \<leftarrow> reader_u64 r;
     (y, r) \<leftarrow> reader_u64 r; (n, r) \<leftarrow> reader_u64 r; (m, r) \<leftarrow> reader_u64 r;
     Some \<lparr>pr_energy = e, pr_pi_star = p, pr_weight = w, pr_s_yes = y, pr_s_no = n, pr_meta_score = m\<rparr> }"

definition dec_adjacency :: "bytes \<Rightarrow> particle list option" where
  "dec_adjacency r = do { (n, r) \<leftarrow> reader_u64 r; (es, r) \<leftarrow> reader_entries (unat n) r; Some es }"

definition dec_neuron :: "bytes \<Rightarrow> neuron_record option" where
  "dec_neuron r = do {
     (f, r) \<leftarrow> reader_u64 r; (k, r) \<leftarrow> reader_u64 r; (s, r) \<leftarrow> reader_u64 r; (n, r) \<leftarrow> reader_u64 r;
     Some \<lparr>nr_focus = f, nr_karma = k, nr_stake = s, nr_nonce = n\<rparr> }"

definition dec_signal :: "bytes \<Rightarrow> signal_record option" where
  "dec_signal r = do {
     (nu, r) \<leftarrow> reader_32 r; (nw, r) \<leftarrow> reader_32 r; (lc, r) \<leftarrow> reader_u32 r;
     (bh, r) \<leftarrow> reader_u64 r; (ph, r) \<leftarrow> reader_32 r; (sp, r) \<leftarrow> reader_u64 r;
     Some \<lparr>sr_neuron = nu, sr_network = nw, sr_link_count = lc, sr_block_height = bh, sr_proof_hash = ph, sr_step = sp\<rparr> }"

definition dec_intent :: "bytes \<Rightarrow> intent_record option" where
  "dec_intent r = do {
     (nu, r) \<leftarrow> reader_32 r; (h, r) \<leftarrow> reader_u64 r; (sc, r) \<leftarrow> reader_32 r; (sg, r) \<leftarrow> reader_array 64 r;
     Some \<lparr>ir_neuron = nu, ir_h0 = h, ir_scope_hash = sc, ir_signature = of_be_bytes sg\<rparr> }"

definition dec_edge :: "bytes \<Rightarrow> (particle \<times> particle) option" where
  "dec_edge r = do { (f, r) \<leftarrow> reader_32 r; (t, r) \<leftarrow> reader_32 r; Some (f, t) }"

definition dec_u64 :: "bytes \<Rightarrow> u64 option" where
  "dec_u64 r = do { (v, r) \<leftarrow> reader_u64 r; Some v }"

definition dec_32 :: "bytes \<Rightarrow> particle option" where
  "dec_32 r = do { (v, r) \<leftarrow> reader_32 r; Some v }"

section \<open>Putting a snapshot back\<close>

text \<open>The macro \<open>entry!\<close> on a committed map and on a plain one.\<close>

definition entry_keyed :: "('k, 'v) keyed \<Rightarrow> 'k \<Rightarrow> (bytes \<Rightarrow> 'v option) \<Rightarrow> bytes option \<Rightarrow> ('k, 'v) keyed option" where
  "entry_keyed m k dec v = (case v of
     Some bs \<Rightarrow> do { x \<leftarrow> dec bs; Some (fst (keyed_insert m k x)) }
   | None \<Rightarrow> Some (fst (keyed_remove m k)))"

definition entry_map :: "('k, 'v) fmap \<Rightarrow> 'k \<Rightarrow> (bytes \<Rightarrow> 'v option) \<Rightarrow> bytes option \<Rightarrow> ('k, 'v) fmap option" where
  "entry_map m k dec v = (case v of Some bs \<Rightarrow> do { x \<leftarrow> dec bs; Some (fmupd k x m) } | None \<Rightarrow> Some (fmdrop k m))"

definition entry_axons :: "ext \<Rightarrow> axon_index \<Rightarrow> particle \<Rightarrow> bytes option \<Rightarrow> axon_index option" where
  "entry_axons X ix k v = (case v of
     Some bs \<Rightarrow> do { ls \<leftarrow> dec_adjacency bs; (ix, _) \<leftarrow> axon_insert X ix k ls; Some ix }
   | None \<Rightarrow> do { (ix, _) \<leftarrow> axon_remove ix k; Some ix })"

definition restore_entity :: "ext \<Rightarrow> bbg \<Rightarrow> u8 \<Rightarrow> particle \<Rightarrow> bytes option \<Rightarrow> bbg option" where
  "restore_entity X b d k v = (let s = bb_state b in
     if d = 1 then do { m \<leftarrow> entry_keyed (st_particles s) k dec_particle v; Some (b\<lparr>bb_state := s\<lparr>st_particles := m\<rparr>\<rparr>) }
     else if d = 2 then do { m \<leftarrow> entry_axons X (st_axons_out s) k v; Some (b\<lparr>bb_state := s\<lparr>st_axons_out := m\<rparr>\<rparr>) }
     else if d = 3 then do { m \<leftarrow> entry_axons X (st_axons_in s) k v; Some (b\<lparr>bb_state := s\<lparr>st_axons_in := m\<rparr>\<rparr>) }
     else if d = 4 then do { m \<leftarrow> entry_keyed (st_neurons s) k dec_neuron v; Some (b\<lparr>bb_state := s\<lparr>st_neurons := m\<rparr>\<rparr>) }
     else if d = 10 then do { m \<leftarrow> entry_keyed (st_signals s) k dec_signal v; Some (b\<lparr>bb_state := s\<lparr>st_signals := m\<rparr>\<rparr>) }
     else if d = 11 then do { m \<leftarrow> entry_keyed (st_commitments s) k (\<lambda>r. map_option (gl_new X) (dec_u64 r)) v;
       Some (b\<lparr>bb_state := s\<lparr>st_commitments := m\<rparr>\<rparr>) }
     else if d = 12 then Some (b\<lparr>bb_state := s\<lparr>st_nullifiers :=
       (if v \<noteq> None then fst (kset_insert (st_nullifiers s) k) else fst (kset_remove (st_nullifiers s) k))\<rparr>\<rparr>)
     else if d = 13 then do { m \<leftarrow> entry_keyed (st_balances s) k dec_u64 v; Some (b\<lparr>bb_state := s\<lparr>st_balances := m\<rparr>\<rparr>) }
     else if d = 14 then do { m \<leftarrow> entry_map (st_intents s) k dec_intent v; Some (b\<lparr>bb_state := s\<lparr>st_intents := m\<rparr>\<rparr>) }
     else if d = 15 then do { m \<leftarrow> entry_map (st_axon_edges s) k dec_edge v; Some (b\<lparr>bb_state := s\<lparr>st_axon_edges := m\<rparr>\<rparr>) }
     else if d = 16 then do { m \<leftarrow> entry_map (ps_last_touched (bb_prune_state b)) k dec_u64 v;
       Some (b\<lparr>bb_prune_state := (bb_prune_state b)\<lparr>ps_last_touched := m\<rparr>\<rparr>) }
     else None)"

definition restore_entry :: "ext \<Rightarrow> bbg \<Rightarrow> bytes \<Rightarrow> bytes option \<Rightarrow> bbg option" where
  "restore_entry X b key v = (case key of
     [] \<Rightarrow> None
   | d # e \<Rightarrow>
       if d = 0 then Some b
       else if d = 9 then do { h \<leftarrow> position_of e; m \<leftarrow> entry_keyed (st_time (bb_state b)) h dec_32 v;
         Some (b\<lparr>bb_state := (bb_state b)\<lparr>st_time := m\<rparr>\<rparr>) }
       else do { k \<leftarrow> entity_of e; restore_entity X b d k v })"

section \<open>Round trips\<close>

lemma reader_array_append: "length a = n \<Longrightarrow> reader_array n (a @ r) = Some (a, r)"
  by (simp add: reader_array_def)

lemma reader_simps [simp, byte_simps]:
  "reader_u64 (le_bytes 8 v @ r) = Some (v, r)"
  "reader_u32 (le_bytes 4 w @ r) = Some (w, r)"
  "reader_32 (be_bytes 32 p @ r) = Some (p, r)"
  by (simp_all add: reader_u64_def reader_u32_def reader_32_def reader_array_append)

lemma reader_simps_end [simp, byte_simps]:
  "reader_u64 (le_bytes 8 v) = Some (v, [])"
  "reader_32 (be_bytes 32 p) = Some (p, [])"
  using reader_simps(1) [of v "[]"] reader_simps(3) [of p "[]"] by simp_all

lemma reader_entries_ok: "reader_entries (length es) (concat (map (be_bytes 32) es) @ r) = Some (es, r)"
  by (induction es arbitrary: r) simp_all

lemma reader_array_64: "reader_array 64 (be_bytes 64 s) = Some (be_bytes 64 s, [])"
  using reader_array_append [of "be_bytes 64 s" 64 "[]"] by simp

lemma dec_enc [simp, byte_simps]:
  "dec_particle (enc_particle p) = Some p" "dec_neuron (enc_neuron n) = Some n" "dec_signal (enc_signal s) = Some s"
  "dec_intent (enc_intent i) = Some i" "dec_edge (enc_edge e) = Some e" "dec_u64 (integers [v]) = Some v"
  "dec_32 (be_bytes 32 q) = Some q"
  by (simp_all add: dec_particle_def enc_particle_def dec_neuron_def enc_neuron_def dec_signal_def enc_signal_def dec_intent_def
      enc_intent_def dec_edge_def enc_edge_def dec_u64_def dec_32_def integers_def reader_array_64)

lemma dec_enc_adjacency: "length es < 2 ^ 64 \<Longrightarrow> dec_adjacency (enc_adjacency es) = Some es"
  using reader_entries_ok [of es "[]"] by (simp add: dec_adjacency_def enc_adjacency_def integers_def unat_of_nat)

lemma length_enc [simp, byte_simps]:
  "length (integers vs) = 8 * length vs" "length (enc_adjacency es) = 8 + 32 * length es"
  by (induction vs) (simp_all add: integers_def enc_adjacency_def length_concat comp_def sum_list_triv)

section \<open>The order of the stream\<close>

definition from_domain :: "u8 \<Rightarrow> bytes list \<Rightarrow> bool" where
  "from_domain d ks \<longleftrightarrow> sorted_wrt (<) ks \<and> (\<forall>k \<in> set ks. k \<noteq> [] \<and> d \<le> hd k)"

lemma from_domain_Nil: "from_domain d []"
  by (simp add: from_domain_def)

lemma sorted_fmap_keys: "sorted_wrt (<) (map fst (sorted_list_of_fmap m))"
  using sorted_list_of_fmap_props(2,3) [of m] by (simp add: strict_sorted_iff)

lemma from_domain_segment:
  assumes kb: "\<And>j k. j < k \<Longrightarrow> kb j < kb k" and rest: "from_domain d' ks" and d: "d < d'"
  shows "from_domain d (map sd_key (map (stored_at d kb enc) (sorted_list_of_fmap m)) @ ks)"
proof -
  have eq: "map sd_key (map (stored_at d kb enc) (sorted_list_of_fmap m)) = map (\<lambda>k. d # kb k) (map fst (sorted_list_of_fmap m))"
    by (simp add: comp_def stored_at_def record_key_def)
  have "sorted_wrt (<) (map (\<lambda>k. d # kb k) (map fst (sorted_list_of_fmap m)))"
    unfolding sorted_wrt_map using sorted_fmap_keys [of m, unfolded sorted_wrt_map]
    by (rule sorted_wrt_mono_rel [rotated]) (simp add: kb)
  moreover have "d # e < k" if "k \<in> set ks" for e k
    using rest d that by (cases k) (auto simp: from_domain_def)
  ultimately show ?thesis
    using rest d unfolding from_domain_def sorted_wrt_append eq by auto
qed

lemmas entity_keys = from_domain_segment [where kb = "be_bytes 32 :: particle \<Rightarrow> bytes"]
lemmas height_keys = from_domain_segment [where kb = "be_bytes 8 :: u64 \<Rightarrow> bytes"]
lemmas last_keys = entity_keys [where ks = "[]", OF _ from_domain_Nil [of 17], unfolded append_Nil2]

lemma metadata_ok:
  assumes "state_inv X n (bb_state b)" and "hemera_laws X"
  shows "\<exists>st m. metadata X b = Some (b\<lparr>bb_state := st\<rparr>, m) \<and> state_inv X n st \<and> same_records (bb_state b) st"
  using state_root_ok [OF assms] by (force simp: metadata_def Let_def)

lemma streams_sorted: "from_domain 1 (map sd_key (state_streams b))"
  unfolding state_streams_def Let_def map_append
  by (rule entity_keys height_keys last_keys |
      simp add: be_bytes_less)+

lemma records_ok:
  assumes "state_inv X n (bb_state b)" and "hemera_laws X" and "cp_acc (bb_checkpoint b) = None"
  shows "\<exists>st rs. records X b = Some (b\<lparr>bb_state := st\<rparr>, Inr rs) \<and> state_inv X n st \<and> same_records (bb_state b) st \<and>
    sorted_wrt (<) (map sd_key rs)"
proof -
  obtain st m where m: "metadata X b = Some (b\<lparr>bb_state := st\<rparr>, m)" "state_inv X n st" "same_records (bb_state b) st"
    using metadata_ok [OF assms(1,2)] by blast
  let ?rs = "\<lparr>sd_key = record_key 0 [], sd_value = m\<rparr> # state_streams (b\<lparr>bb_state := st\<rparr>)"
  have "[0] < k" if "k \<in> set (map sd_key (state_streams (b\<lparr>bb_state := st\<rparr>)))" for k
  proof -
    have "k \<noteq> []" "1 \<le> hd k" using streams_sorted [of "b\<lparr>bb_state := st\<rparr>"] that by (auto simp: from_domain_def)
    then show ?thesis by (cases k) (auto simp: word_le_nat_alt word_less_nat_alt)
  qed
  then have "sorted_wrt (<) (map sd_key ?rs)"
    using streams_sorted [of "b\<lparr>bb_state := st\<rparr>"] by (auto simp: from_domain_def record_key_def)
  moreover have "records X b = Some (b\<lparr>bb_state := st\<rparr>, Inr ?rs)" using m(1) assms(3) by (simp add: records_def)
  ultimately show ?thesis using m by blast
qed

section \<open>The records determine the state\<close>

lemma inj_from_dec: "(\<And>x. dec (enc x) = Some x) \<Longrightarrow> inj enc"
  by (rule injI) (metis option.inject)

lemma append_be_inj: "be_bytes 32 (a :: particle) @ xs = be_bytes 32 b @ ys \<longleftrightarrow> a = b \<and> xs = ys"
  by (simp add: append_eq_append_conv be_bytes_inj)

lemma append_le_inj:
  "le_bytes 8 (a :: u64) @ xs = le_bytes 8 b @ ys \<longleftrightarrow> a = b \<and> xs = ys"
  "le_bytes 4 (c :: u32) @ xs = le_bytes 4 d @ ys \<longleftrightarrow> c = d \<and> xs = ys"
  by (simp_all add: append_eq_append_conv le_bytes_inj)

lemma concat_be_inj: "concat (map (be_bytes 32) (es :: particle list)) = concat (map (be_bytes 32) fs) \<longleftrightarrow> es = fs"
proof (induction es arbitrary: fs)
  case Nil
  then show ?case by (cases fs) (auto dest: arg_cong [where f = length])
next
  case (Cons e es)
  then show ?case by (cases fs) (auto simp: append_be_inj dest: arg_cong [where f = length])
qed

lemma enc_inj [simp]:
  "inj enc_particle" "inj enc_neuron" "inj enc_signal" "inj enc_intent" "inj enc_edge" "inj (\<lambda>v. integers [v])"
  "inj (be_bytes 32 :: particle \<Rightarrow> bytes)" "inj enc_adjacency" "inj enc_location" "inj (\<lambda>v :: coin_record. integers [cn_total_supply v])"
  "inj enc_card" "inj enc_file" "inj (\<lambda>_ :: unit. [] :: bytes)" "inj (be_bytes 8 :: u64 \<Rightarrow> bytes)"
proof -
  show "inj enc_particle" "inj enc_neuron" "inj enc_signal" "inj enc_intent" "inj enc_edge" "inj (\<lambda>v. integers [v])"
    "inj (be_bytes 32 :: particle \<Rightarrow> bytes)"
    by (rule inj_from_dec, rule dec_enc)+
  show "inj enc_adjacency"
    by (rule injI) (auto simp: enc_adjacency_def integers_def append_eq_append_conv concat_be_inj)
  show "inj (\<lambda>v :: coin_record. integers [cn_total_supply v])"
    by (rule injI, rule coin_record.equality) (simp_all add: integers_def le_bytes_inj)
  show "inj enc_location" "inj enc_card" "inj enc_file"
    by (rule injI; simp add: enc_location_def enc_card_def enc_file_def integers_def append_le_inj append_be_inj le_bytes_inj
        valence_byte_inj of_bool_eq_iff)+
qed (auto simp: inj_def be_bytes_inj)

lemma stored_at_inj: "inj kb \<Longrightarrow> inj enc \<Longrightarrow> inj (stored_at d kb enc)"
  by (auto simp: inj_def stored_at_def record_key_def)

lemma stream_eq:
  assumes "map (stored_at d kb enc) (sorted_list_of_fmap m) = map (stored_at d kb enc) (sorted_list_of_fmap m')" and "inj kb" and "inj enc"
  shows "m' = m"
proof -
  have "sorted_list_of_fmap m' = sorted_list_of_fmap m"
    using assms(1) inj_map_eq_map [OF stored_at_inj [OF assms(2,3)]] by metis
  then have "fmlookup m' = fmlookup m" by (metis map_of_sorted_list)
  then show ?thesis by (simp add: fmap_ext)
qed

lemma stream_filter:
  "filter (\<lambda>r. hd (sd_key r) = d') (map (stored_at d kb enc) es) = (if d = d' then map (stored_at d kb enc) es else [])"
  by (induction es) (auto simp: stored_at_def record_key_def)

lemma streams_determine:
  assumes "state_streams b = state_streams c"
  shows "same_records (bb_state b) ((bb_state c)\<lparr>st_diameter_override := st_diameter_override (bb_state b), st_height := st_height (bb_state b),
      st_root_version := st_root_version (bb_state b)\<rparr>) \<and> ps_last_touched (bb_prune_state c) = ps_last_touched (bb_prune_state b)"
proof -
  have f: "filter (\<lambda>r. hd (sd_key r) = d) (state_streams b) = filter (\<lambda>r. hd (sd_key r) = d) (state_streams c)" for d
    by (simp add: assms)
  note g = f [unfolded state_streams_def Let_def filter_append stream_filter]
  show ?thesis
    unfolding same_records_def
    using g [of 1, simplified, THEN stream_eq] g [of 2, simplified, THEN stream_eq] g [of 3, simplified, THEN stream_eq]
      g [of 4, simplified, THEN stream_eq] g [of 5, simplified, THEN stream_eq] g [of 6, simplified, THEN stream_eq]
      g [of 7, simplified, THEN stream_eq] g [of 8, simplified, THEN stream_eq] g [of 9, simplified, THEN stream_eq]
      g [of 10, simplified, THEN stream_eq] g [of 11, simplified, THEN stream_eq] g [of 12, simplified, THEN stream_eq]
      g [of 13, simplified, THEN stream_eq] g [of 14, simplified, THEN stream_eq] g [of 15, simplified, THEN stream_eq]
      g [of 16, simplified, THEN stream_eq]
    by simp
qed


lemma metadata_determine:
  assumes "metadata X b = Some (b1, m)" and "metadata X c = Some (c1, m)"
    and "\<And>st r. state_root X (bb_state b) = Some (st, r) \<Longrightarrow> same_records (bb_state b) st"
    and "\<And>st r. state_root X (bb_state c) = Some (st, r) \<Longrightarrow> same_records (bb_state c) st"
  shows "st_height (bb_state c) = st_height (bb_state b) \<and> st_diameter_override (bb_state c) = st_diameter_override (bb_state b) \<and>
    cp_height (bb_checkpoint c) = cp_height (bb_checkpoint b) \<and> cp_root (bb_checkpoint c) = cp_root (bb_checkpoint b) \<and>
    bb_prune_config c = bb_prune_config b"
proof -
  obtain s r where s: "state_root X (bb_state b) = Some (s, r)" "m = le_bytes 4 (1 :: u32) @ le_bytes 8 (st_height s) @ be_bytes 32 r @
       le_bytes 8 (cp_height (bb_checkpoint b)) @ be_bytes 32 (cp_root (bb_checkpoint b)) @
       [of_bool (st_diameter_override s \<noteq> None)] @ (case st_diameter_override s of None \<Rightarrow> [] | Some d \<Rightarrow> le_bytes 8 d) @
       le_bytes 8 (pc_max_bytes (bb_prune_config b)) @ [pc_rank_floor_pct (bb_prune_config b)] @
       le_bytes 8 (pc_half_life_epochs (bb_prune_config b))"
    using assms(1) by (auto simp: metadata_def Let_def split: Option.bind_splits)
  obtain t q where t: "state_root X (bb_state c) = Some (t, q)" "m = le_bytes 4 (1 :: u32) @ le_bytes 8 (st_height t) @ be_bytes 32 q @
       le_bytes 8 (cp_height (bb_checkpoint c)) @ be_bytes 32 (cp_root (bb_checkpoint c)) @
       [of_bool (st_diameter_override t \<noteq> None)] @ (case st_diameter_override t of None \<Rightarrow> [] | Some d \<Rightarrow> le_bytes 8 d) @
       le_bytes 8 (pc_max_bytes (bb_prune_config c)) @ [pc_rank_floor_pct (bb_prune_config c)] @
       le_bytes 8 (pc_half_life_epochs (bb_prune_config c))"
    using assms(2) by (auto simp: metadata_def Let_def split: Option.bind_splits)
  have "st_height s = st_height t" "cp_height (bb_checkpoint b) = cp_height (bb_checkpoint c)"
    "cp_root (bb_checkpoint b) = cp_root (bb_checkpoint c)"
    and o: "(st_diameter_override s \<noteq> None) = (st_diameter_override t \<noteq> None)"
    and rest: "(case st_diameter_override s of None \<Rightarrow> [] | Some d \<Rightarrow> le_bytes 8 d) @
       le_bytes 8 (pc_max_bytes (bb_prune_config b)) @ [pc_rank_floor_pct (bb_prune_config b)] @ le_bytes 8 (pc_half_life_epochs (bb_prune_config b)) =
       (case st_diameter_override t of None \<Rightarrow> [] | Some d \<Rightarrow> le_bytes 8 d) @
       le_bytes 8 (pc_max_bytes (bb_prune_config c)) @ [pc_rank_floor_pct (bb_prune_config c)] @ le_bytes 8 (pc_half_life_epochs (bb_prune_config c))"
    using s(2) t(2) by (simp_all add: append_le_inj append_be_inj of_bool_eq_iff)
  moreover have "st_diameter_override s = st_diameter_override t \<and> bb_prune_config b = bb_prune_config c"
    using o rest by (cases "st_diameter_override s"; cases "st_diameter_override t") (simp_all add: append_le_inj le_bytes_inj)
  ultimately show ?thesis
    using assms(3) [OF s(1)] assms(4) [OF t(1)] by (simp add: same_records_def)
qed

lemma root_same: "state_inv X n st \<Longrightarrow> hemera_laws X \<Longrightarrow> state_root X st = Some (st', r) \<Longrightarrow> same_records st st'"
  using state_root_ok [of X n st] by fastforce

section \<open>Properties\<close>

text \<open>C21: the stream of persistent records is complete and canonical: it exists, reading it changes caches only, its
  keys ascend strictly in byte order, and two graphs with the same stream agree in every record, in
  height, checkpoint, pruning policy and touch times. Only the root derivation is not persisted.\<close>

theorem records_canonical:
  assumes "state_inv X n (bb_state b)" and "state_inv X n (bb_state c)" and "hemera_laws X"
    and "cp_acc (bb_checkpoint b) = None" and "cp_acc (bb_checkpoint c) = None"
  shows "\<exists>b1 c1 rs qs. records X b = Some (b1, Inr rs) \<and> records X c = Some (c1, Inr qs) \<and> same_records (bb_state b) (bb_state b1) \<and>
    sorted_wrt (<) (map sd_key rs) \<and>
    (rs = qs \<longrightarrow> same_records (bb_state b) ((bb_state c)\<lparr>st_root_version := st_root_version (bb_state b)\<rparr>) \<and>
       bb_checkpoint c = bb_checkpoint b \<and> bb_prune_config c = bb_prune_config b \<and> bb_prune_state c = bb_prune_state b)"
proof -
  obtain st rs where b: "records X b = Some (b\<lparr>bb_state := st\<rparr>, Inr rs)" "same_records (bb_state b) st" "sorted_wrt (<) (map sd_key rs)"
    using records_ok [OF assms(1,3,4)] by blast
  obtain su qs where c: "records X c = Some (c\<lparr>bb_state := su\<rparr>, Inr qs)" "same_records (bb_state c) su"
    using records_ok [OF assms(2,3,5)] by blast
  have "same_records (bb_state b) ((bb_state c)\<lparr>st_root_version := st_root_version (bb_state b)\<rparr>) \<and>
       bb_checkpoint c = bb_checkpoint b \<and> bb_prune_config c = bb_prune_config b \<and> bb_prune_state c = bb_prune_state b" if eq: "rs = qs"
  proof -
    obtain m where m: "metadata X b = Some (b\<lparr>bb_state := st\<rparr>, m)" "metadata X c = Some (c\<lparr>bb_state := su\<rparr>, m)"
      "state_streams (b\<lparr>bb_state := st\<rparr>) = state_streams (c\<lparr>bb_state := su\<rparr>)"
      using b(1) c(1) assms(4,5) unfolding eq [symmetric] by (auto simp: records_def split: Option.bind_splits)
    have meta: "st_height (bb_state c) = st_height (bb_state b) \<and> st_diameter_override (bb_state c) = st_diameter_override (bb_state b) \<and>
      cp_height (bb_checkpoint c) = cp_height (bb_checkpoint b) \<and> cp_root (bb_checkpoint c) = cp_root (bb_checkpoint b) \<and>
      bb_prune_config c = bb_prune_config b"
      by (rule metadata_determine [OF m(1,2)]; erule root_same [OF _ assms(3), rotated]; rule assms)
    moreover have "bb_checkpoint c = bb_checkpoint b" "bb_prune_state c = bb_prune_state b"
      using meta assms(4,5) streams_determine [OF m(3)] by (auto intro: checkpoint.equality prune_state.equality)
    ultimately show ?thesis
      using streams_determine [OF m(3)] b(2) c(2) by (simp add: same_records_def)
  qed
  then show ?thesis using b c(1) by fastforce
qed

theorem records_canonical_witness:
  "\<exists>b b1 rs. bbg_new sample_ext = Some b \<and> records sample_ext b = Some (b1, Inr rs) \<and> sorted_wrt (<) (map sd_key rs)"
proof -
  obtain b where b: "bbg_new sample_ext = Some b" "bbg_ok sample_ext 0 b" using bbg_new_ok [OF hemera_laws_sample, of 0] by auto
  then have "state_inv sample_ext 0 (bb_state b)" "cp_acc (bb_checkpoint b) = None" by (simp_all add: bbg_ok_def)
  then show ?thesis using records_canonical [OF _ _ hemera_laws_sample, of 0 b b] b(1) by blast
qed

end
