(* ===== verification/Bbg_Transition.thy ===== *)
theory Bbg_Transition
  imports Bbg_Records
begin

text \<open>
  Native transitions (\<open>transition/mod.rs\<close>, \<open>Undo\<close> of \<open>transition/undo.rs\<close>): a batch of events is applied to the graph while
  the old value of every address it writes is kept, bounded in keys and in bytes. \<open>Prepared\<close> borrows the graph; dropping
  it, which every early return with \<open>?\<close> does too, puts the old values back, publishing it keeps the candidate. A step returns the
  prepared transition together with its result, an error leaves the rest of the steps out.
\<close>

section \<open>Undo\<close>

definition MAX_KEYS :: nat where "MAX_KEYS = 65536"
definition MAX_BYTES :: nat where "MAX_BYTES = 8 * 1024 * 1024"
definition MAX_EVENTS :: nat where "MAX_EVENTS = 64"

record undo =
  ud_values :: "(bytes, bytes option) fmap"
  ud_bytes :: nat
  ud_height :: u64
  ud_checkpoint_root :: particle
  ud_checkpoint_height :: u64

definition undo_new :: "bbg \<Rightarrow> undo" where
  "undo_new b = \<lparr>ud_values = fmempty, ud_bytes = 0, ud_height = st_height (bb_state b),
     ud_checkpoint_root = cp_root (bb_checkpoint b), ud_checkpoint_height = cp_height (bb_checkpoint b)\<rparr>"

definition adjacency_fits :: "bbg \<Rightarrow> u8 \<Rightarrow> particle \<Rightarrow> bool" where
  "adjacency_fits b d k =
     (case fmlookup (ax_map (if d = 2 then st_axons_out (bb_state b) else st_axons_in (bb_state b))) k of
        None \<Rightarrow> True
      | Some v \<Rightarrow> \<not> length v > (MAX_BYTES - 8) div 32)"

definition bounded_read :: "ext \<Rightarrow> bbg \<Rightarrow> bytes \<Rightarrow> (bbg \<times> (native_error + bytes option)) option" where
  "bounded_read X b key = (case key of
     [] \<Rightarrow> None
   | d # e \<Rightarrow> do {
       fits \<leftarrow> (if d = 2 \<or> d = 3 then do { k \<leftarrow> entity_of e; Some (adjacency_fits b d k) } else Some True);
       if \<not> fits then Some (b, Inl (Limit ''adjacency bytes''))
       else do { (b, v) \<leftarrow> record_read X b key; Some (b, Inr v) } })"

definition undo_capture :: "ext \<Rightarrow> undo \<Rightarrow> bbg \<Rightarrow> bytes \<Rightarrow> (bbg \<times> undo \<times> (native_error + unit)) option" where
  "undo_capture X u b key =
     (if fmlookup (ud_values u) key \<noteq> None then Some (b, u, Inr ())
      else if fcard (fmdom (ud_values u)) = MAX_KEYS then Some (b, u, Inl (Limit ''undo keys''))
      else do {
        (b, r) \<leftarrow> bounded_read X b key;
        case r of
          Inl e \<Rightarrow> Some (b, u, Inl e)
        | Inr v \<Rightarrow> do {
            let u = u\<lparr>ud_bytes := ud_bytes u + (length key + (case v of None \<Rightarrow> 0 | Some bs \<Rightarrow> length bs))\<rparr>;
            if ud_bytes u > MAX_BYTES then Some (b, u, Inl (Limit ''undo bytes''))
            else Some (b, u\<lparr>ud_values := fmupd key v (ud_values u)\<rparr>, Inr ()) } })"

fun restore_all :: "ext \<Rightarrow> bbg \<Rightarrow> (bytes \<times> bytes option) list \<Rightarrow> bbg option" where
  "restore_all X b [] = Some b"
| "restore_all X b ((key, v) # rest) = do { b \<leftarrow> restore_entry X b key v; restore_all X b rest }"

definition undo_restore :: "ext \<Rightarrow> undo \<Rightarrow> bbg \<Rightarrow> bbg option" where
  "undo_restore X u b = do {
     b \<leftarrow> restore_all X b (sorted_list_of_fmap (ud_values u));
     let b = b\<lparr>bb_state := (bb_state b)\<lparr>st_height := ud_height u\<rparr>,
       bb_checkpoint := (bb_checkpoint b)\<lparr>cp_root := ud_checkpoint_root u, cp_height := ud_checkpoint_height u\<rparr>\<rparr>;
     (st, _) \<leftarrow> refresh_root X (bb_state b);
     Some (b\<lparr>bb_state := st\<rparr>) }"

section \<open>Prepared transitions\<close>

datatype native_change =
    SignalChange signal signal_record
  | IntentChange intent_record
  | LocalCredit neuron_id particle u64 u64

record snapshot =
  sn_height :: u64
  sn_root :: particle

record prepared =
  pp_bbg :: bbg
  pp_undo :: "undo option"
  pp_changes :: "record_change list"
  pp_snapshots :: "snapshot list"

type_synonym step = "(prepared \<times> (native_error + unit)) option"

text \<open>The rest of a method after a call with \<open>?\<close>.\<close>

definition then_step :: "step \<Rightarrow> (prepared \<Rightarrow> step) \<Rightarrow> step" where
  "then_step r f = do { (p, res) \<leftarrow> r; case res of Inl e \<Rightarrow> Some (p, Inl e) | Inr _ \<Rightarrow> f p }"

definition prepared_capture :: "ext \<Rightarrow> u8 \<Rightarrow> bytes \<Rightarrow> prepared \<Rightarrow> step" where
  "prepared_capture X d k p = do {
     u \<leftarrow> pp_undo p;
     (b, u, r) \<leftarrow> undo_capture X u (pp_bbg p) (record_key d k);
     Some (p\<lparr>pp_bbg := b, pp_undo := Some u\<rparr>, r) }"

fun capture_each :: "ext \<Rightarrow> (u8 \<times> bytes) list \<Rightarrow> prepared \<Rightarrow> step" where
  "capture_each X [] p = Some (p, Inr ())"
| "capture_each X ((d, k) # ks) p = then_step (prepared_capture X d k p) (capture_each X ks)"

section \<open>Validation\<close>

fun validate_nullifiers :: "bbg \<Rightarrow> particle fset \<Rightarrow> box_move list \<Rightarrow> native_error + unit" where
  "validate_nullifiers b seen [] = Inr ()"
| "validate_nullifiers b seen (mv # mvs) =
     (if kset_contains (st_nullifiers (bb_state b)) (bm_nullifier mv) \<or> bm_nullifier mv |\<in>| seen then Inl DoubleSpendError
      else validate_nullifiers b (finsert (bm_nullifier mv) seen) mvs)"

definition balance_entry :: "bbg \<Rightarrow> (particle, u64) fmap \<Rightarrow> particle \<Rightarrow> u64" where
  "balance_entry b m k = (case fmlookup m k of Some v \<Rightarrow> v
     | None \<Rightarrow> (case fmlookup (kd_map (st_balances (bb_state b))) k of None \<Rightarrow> 0 | Some v \<Rightarrow> v))"

fun validate_balances :: "ext \<Rightarrow> bbg \<Rightarrow> (particle, u64) fmap \<Rightarrow> cyberlink list \<Rightarrow> native_error + unit" where
  "validate_balances X b m [] = Inr ()"
| "validate_balances X b m (link # links) =
     (let to = balance_key X (cl_to link) (cl_token link);
          from = balance_key X (cl_from link) (cl_token link)
      in and_then (ok_or (Overflow ''balance'') (checked_add (balance_entry b m to) (cl_amount link))) (\<lambda>c.
           let m = fmupd to c m;
               m = fmupd from (saturating_sub (balance_entry b m from) (cl_amount link)) m
           in validate_balances X b m links))"

definition validate :: "ext \<Rightarrow> bbg \<Rightarrow> signal \<Rightarrow> particle \<Rightarrow> signal_record \<Rightarrow> native_error + unit" where
  "validate X b signal key header =
     and_then (ok_or (Overflow ''height'') (checked_add (st_height (bb_state b)) 1)) (\<lambda>_.
     and_then (fail_if (length (sg_links signal) \<ge> 2 ^ 32) (Overflow ''link count'')) (\<lambda>_.
     and_then (fail_if (sr_neuron header \<noteq> sg_neuron signal \<or> sr_link_count header \<noteq> of_nat (length (sg_links signal)) \<or>
         sr_block_height header \<noteq> sg_height signal) ArgumentsError) (\<lambda>_.
     and_then (fail_if (fmlookup (kd_map (st_signals (bb_state b))) key \<noteq> None) SignalExists) (\<lambda>_.
     and_then (fail_if (length (sg_links signal) + length (sg_box_moves signal) > MAX_KEYS) (Limit ''signal items'')) (\<lambda>_.
     and_then (validate_nullifiers b {||} (sg_box_moves signal)) (\<lambda>_.
     validate_balances X b fmempty (sg_links signal)))))))"

section \<open>Events\<close>

definition capture_move :: "box_move \<Rightarrow> (u8 \<times> bytes) list" where
  "capture_move mv = (12, be_bytes 32 (bm_nullifier mv)) #
     (case bm_commitment mv of None \<Rightarrow> [] | Some (point, _) \<Rightarrow> [(11, be_bytes 32 point)])"

definition capture_link :: "ext \<Rightarrow> cyberlink \<Rightarrow> (u8 \<times> bytes) list" where
  "capture_link X link =
     (let axon = axon_id X (cl_from link) (cl_to link) in
      [(1, be_bytes 32 axon), (1, be_bytes 32 (cl_to link)), (2, be_bytes 32 (cl_from link)), (3, be_bytes 32 (cl_to link)),
       (13, be_bytes 32 (balance_key X (cl_from link) (cl_token link))),
       (13, be_bytes 32 (balance_key X (cl_to link) (cl_token link))),
       (15, be_bytes 32 axon), (16, be_bytes 32 axon)])"

definition signal_captures :: "ext \<Rightarrow> bbg \<Rightarrow> signal \<Rightarrow> particle \<Rightarrow> (u8 \<times> bytes) list" where
  "signal_captures X b signal key =
     [(4, be_bytes 32 (sg_neuron signal)), (9, be_bytes 8 (st_height (bb_state b))), (10, be_bytes 32 key)] @
     concat (map capture_move (sg_box_moves signal)) @ concat (map (capture_link X) (sg_links signal))"

definition prune_captures :: "bbg \<Rightarrow> particle \<Rightarrow> (u8 \<times> bytes) list" where
  "prune_captures b axon = [(1, be_bytes 32 axon), (15, be_bytes 32 axon), (16, be_bytes 32 axon)] @
     (case fmlookup (st_axon_edges (bb_state b)) axon of
        None \<Rightarrow> []
      | Some (from, to) \<Rightarrow> [(2, be_bytes 32 from), (3, be_bytes 32 to)])"

fun prepared_prune_loop :: "ext \<Rightarrow> bool \<Rightarrow> particle list \<Rightarrow> prepared \<Rightarrow> step" where
  "prepared_prune_loop X over_budget [] p = Some (p, Inr ())"
| "prepared_prune_loop X over_budget (axon # rest) p =
     (if over_budget \<and> estimate_bytes (bb_state (pp_bbg p)) \<le> pc_max_bytes (bb_prune_config (pp_bbg p)) then Some (p, Inr ())
      else then_step (capture_each X (prune_captures (pp_bbg p) axon) p) (\<lambda>p. do {
        (st, ps) \<leftarrow> remove_axon (bb_state (pp_bbg p)) (bb_prune_state (pp_bbg p)) axon;
        prepared_prune_loop X over_budget rest (p\<lparr>pp_bbg := (pp_bbg p)\<lparr>bb_state := st, bb_prune_state := ps\<rparr>\<rparr>) }))"

definition prepared_prune :: "ext \<Rightarrow> prepared \<Rightarrow> step" where
  "prepared_prune X p = do {
     let b = pp_bbg p;
     let epoch = st_height (bb_state b) div EPOCH_BLOCKS;
     r \<leftarrow> candidates (bb_state b) (bb_prune_state b) (bb_prune_config b) epoch MAX_KEYS;
     case r of
       Inl _ \<Rightarrow> Some (p, Inl (Limit ''pruning candidates''))
     | Inr (over_budget, ids) \<Rightarrow> prepared_prune_loop X over_budget ids p }"

definition advance_checkpoint :: "ext \<Rightarrow> prepared \<Rightarrow> prepared option" where
  "advance_checkpoint X p = do {
     (st, _) \<leftarrow> refresh_root X (bb_state (pp_bbg p));
     (st, cp) \<leftarrow> checkpoint_advance X (bb_checkpoint (pp_bbg p)) st;
     Some (p\<lparr>pp_bbg := (pp_bbg p)\<lparr>bb_state := st, bb_checkpoint := cp\<rparr>\<rparr>) }"

definition signal_apply :: "ext \<Rightarrow> signal \<Rightarrow> signal_record \<Rightarrow> prepared \<Rightarrow> step" where
  "signal_apply X signal header p = do {
     (b, r) \<leftarrow> bbg_insert X (pp_bbg p) signal;
     case r of
       Inl _ \<Rightarrow> Some (p\<lparr>pp_bbg := b\<rparr>, Inl DoubleSpendError)
     | Inr _ \<Rightarrow> do {
         let (b, _) = bbg_apply_signal_record X b \<lparr>sr_neuron = sr_neuron header, sr_network = sr_network header,
           sr_link_count = sr_link_count header, sr_block_height = sr_block_height header,
           sr_proof_hash = sr_proof_hash header, sr_step = sr_step header\<rparr>;
         let height = st_height (bb_state b);
         (st, root) \<leftarrow> state_root X (bb_state b);
         let st = st\<lparr>st_time := fst (keyed_insert (st_time st) height root)\<rparr>;
         let st = st\<lparr>st_height := st_height st + 1\<rparr>;
         Some (p\<lparr>pp_bbg := b\<lparr>bb_state := st\<rparr>\<rparr>, Inr ()) } }"

definition prepared_signal :: "ext \<Rightarrow> signal \<Rightarrow> signal_record \<Rightarrow> prepared \<Rightarrow> step" where
  "prepared_signal X signal header p =
     (let key = signal_key X (sr_neuron header) (sr_step header) in
      case validate X (pp_bbg p) signal key header of
        Inl e \<Rightarrow> Some (p, Inl e)
      | Inr _ \<Rightarrow>
          then_step (capture_each X (signal_captures X (pp_bbg p) signal key) p) (\<lambda>p.
          then_step (signal_apply X signal header p) (\<lambda>p.
          then_step (if st_height (bb_state (pp_bbg p)) mod EPOCH_BLOCKS = 0 then prepared_prune X p else Some (p, Inr ())) (\<lambda>p.
          do { p \<leftarrow> advance_checkpoint X p; Some (p, Inr ()) }))))"

definition prepared_intent :: "ext \<Rightarrow> intent_record \<Rightarrow> prepared \<Rightarrow> step" where
  "prepared_intent X intent p =
     (let key = intent_key X (ir_neuron intent) (ir_h0 intent) (ir_scope_hash intent) in
      then_step (prepared_capture X 14 (be_bytes 32 key) p) (\<lambda>p.
        Some (p\<lparr>pp_bbg := fst (bbg_apply_intent X (pp_bbg p) intent)\<rparr>, Inr ())))"

definition prepared_credit :: "ext \<Rightarrow> neuron_id \<Rightarrow> particle \<Rightarrow> u64 \<Rightarrow> u64 \<Rightarrow> prepared \<Rightarrow> step" where
  "prepared_credit X neuron token amount focus p =
     (let key = balance_key X neuron token; st = bb_state (pp_bbg p) in
      case checked_add (case fmlookup (kd_map (st_balances st)) key of None \<Rightarrow> 0 | Some v \<Rightarrow> v) amount of
        None \<Rightarrow> Some (p, Inl (Overflow ''balance''))
      | Some balance \<Rightarrow>
          (case checked_add (map_or 0 nr_focus (fmlookup (kd_map (st_neurons st)) neuron)) focus of
             None \<Rightarrow> Some (p, Inl (Overflow ''focus''))
           | Some next_focus \<Rightarrow>
               then_step (prepared_capture X 13 (be_bytes 32 key) p) (\<lambda>p.
               then_step (prepared_capture X 4 (be_bytes 32 neuron) p) (\<lambda>p. do {
                 let st = bb_state (pp_bbg p);
                 let st = st\<lparr>st_balances := fst (keyed_insert (st_balances st) key balance)\<rparr>;
                 let st = st\<lparr>st_neurons := keyed_or_insert (st_neurons st) neuron
                   \<lparr>nr_focus = 0, nr_karma = 0, nr_stake = 0, nr_nonce = 0\<rparr> (\<lambda>n. n\<lparr>nr_focus := next_focus\<rparr>)\<rparr>;
                 p \<leftarrow> advance_checkpoint X (p\<lparr>pp_bbg := (pp_bbg p)\<lparr>bb_state := st\<rparr>\<rparr>);
                 Some (p, Inr ()) }))))"

definition prepared_event :: "ext \<Rightarrow> native_change \<Rightarrow> prepared \<Rightarrow> step" where
  "prepared_event X event p = (case event of
     SignalChange signal header \<Rightarrow> prepared_signal X signal header p
   | IntentChange intent \<Rightarrow> prepared_intent X intent p
   | LocalCredit neuron token amount focus \<Rightarrow> prepared_credit X neuron token amount focus p)"

definition push_snapshot :: "ext \<Rightarrow> prepared \<Rightarrow> prepared option" where
  "push_snapshot X p = do {
     (st, root) \<leftarrow> state_root X (bb_state (pp_bbg p));
     Some (p\<lparr>pp_bbg := (pp_bbg p)\<lparr>bb_state := st\<rparr>,
       pp_snapshots := pp_snapshots p @ [\<lparr>sn_height = st_height st, sn_root = root\<rparr>]\<rparr>) }"

fun prepared_events :: "ext \<Rightarrow> native_change list \<Rightarrow> prepared \<Rightarrow> step" where
  "prepared_events X [] p = Some (p, Inr ())"
| "prepared_events X (event # events) p =
     then_step (prepared_event X event p) (\<lambda>p. do { p \<leftarrow> push_snapshot X p; prepared_events X events p })"

section \<open>The write set\<close>

fun collect_loop :: "ext \<Rightarrow> nat \<Rightarrow> (bytes \<times> bytes option) list \<Rightarrow> prepared \<Rightarrow> step" where
  "collect_loop X bytes [] p = Some (p, Inr ())"
| "collect_loop X bytes ((key, old) # rest) p = do {
     (b, r) \<leftarrow> bounded_read X (pp_bbg p) key;
     let p = p\<lparr>pp_bbg := b\<rparr>;
     case r of
       Inl e \<Rightarrow> Some (p, Inl e)
     | Inr v \<Rightarrow>
         if v \<noteq> old then
           (let bytes = bytes + (length key + (case v of None \<Rightarrow> 0 | Some bs \<Rightarrow> length bs)) in
            if bytes > MAX_BYTES then Some (p, Inl (Limit ''write-set bytes''))
            else collect_loop X bytes rest (p\<lparr>pp_changes := pp_changes p @ [\<lparr>rc_key = key, rc_value = v\<rparr>]\<rparr>))
         else collect_loop X bytes rest p }"

definition collect_changes :: "ext \<Rightarrow> prepared \<Rightarrow> step" where
  "collect_changes X p = do { u \<leftarrow> pp_undo p; collect_loop X 0 (sorted_list_of_fmap (ud_values u)) p }"

section \<open>Preparing, publishing, dropping\<close>

definition prepared_drop :: "ext \<Rightarrow> prepared \<Rightarrow> bbg option" where
  "prepared_drop X p = (case pp_undo p of None \<Rightarrow> Some (pp_bbg p) | Some u \<Rightarrow> undo_restore X u (pp_bbg p))"

text \<open>\<open>publish\<close> consumes the transition: its undo log goes, then it is dropped.\<close>

definition prepared_publish :: "ext \<Rightarrow> prepared \<Rightarrow> bbg option" where
  "prepared_publish X p = prepared_drop X (p\<lparr>pp_undo := None\<rparr>)"

text \<open>An error returns the graph with the error, after the transition was dropped.\<close>

definition prepare_native_batch :: "ext \<Rightarrow> bbg \<Rightarrow> native_change list \<Rightarrow> (bbg \<times> native_error + prepared) option" where
  "prepare_native_batch X b events =
     (if events = [] \<or> length events > MAX_EVENTS then Some (Inl (b, Limit ''event count''))
      else if cp_acc (bb_checkpoint b) \<noteq> None then Some (Inl (b, CheckpointProofError))
      else if pc_rank_floor_pct (bb_prune_config b) > 100 then Some (Inl (b, Limit ''pruning rank floor''))
      else do {
        (p, r) \<leftarrow> then_step (prepared_capture X 0 [] \<lparr>pp_bbg = b, pp_undo = Some (undo_new b), pp_changes = [], pp_snapshots = []\<rparr>)
          (\<lambda>p. then_step (prepared_events X events p) (collect_changes X));
        case r of
          Inl e \<Rightarrow> do { b \<leftarrow> prepared_drop X p; Some (Inl (b, e)) }
        | Inr _ \<Rightarrow> Some (Inr p) })"

definition prepare_native ::
  "ext \<Rightarrow> bbg \<Rightarrow> signal option \<Rightarrow> signal_record option \<Rightarrow> intent_record option \<Rightarrow> (bbg \<times> native_error + prepared) option" where
  "prepare_native X b signal header intent = (case (signal, header, intent) of
     (Some s, Some h, None) \<Rightarrow> prepare_native_batch X b [SignalChange s h]
   | (None, None, Some i) \<Rightarrow> prepare_native_batch X b [IntentChange i]
   | _ \<Rightarrow> Some (Inl (b, ArgumentsError)))"

end
