(* ===== verification/Bbg_Undo.thy ===== *)
theory Bbg_Undo
  imports Bbg_Transition
begin

text \<open>
  Atomicity of native transitions. The graph is seen as a map from byte addresses to byte values; every step changes
  captured addresses only, and putting the captured values back gives the map of the beginning.
\<close>

section \<open>The graph as addresses and values\<close>

definition slots :: "bbg \<Rightarrow> bytes \<Rightarrow> bytes option" where
  "slots b key = (case key of [] \<Rightarrow> None | d # e \<Rightarrow> (case read_entry b d e of None \<Rightarrow> None | Some v \<Rightarrow> v))"

definition entity_domains :: "u8 set" where
  "entity_domains = {1, 2, 3, 4, 10, 11, 12, 13, 14, 15, 16}"

definition wf_key :: "bytes \<Rightarrow> bool" where
  "wf_key key \<longleftrightarrow> key = [0] \<or> (\<exists>d k. d \<in> entity_domains \<and> key = d # be_bytes 32 (k :: particle)) \<or> (\<exists>h. key = 9 # be_bytes 8 (h :: u64))"

lemma entity_be [simp]: "entity_of (be_bytes 32 k) = Some k" "position_of (be_bytes 8 h) = Some h"
  by (simp_all add: entity_of_def position_of_def)

lemma entity_of_iff: "entity_of e = Some k \<longleftrightarrow> e = be_bytes 32 k"
  by (auto simp: entity_of_def)

lemma position_of_iff: "position_of e = Some h \<longleftrightarrow> e = be_bytes 8 h"
  by (auto simp: position_of_def)

lemma slots_simps [simp]:
  "slots b (1 # be_bytes 32 k) = map_option enc_particle (fmlookup (kd_map (st_particles (bb_state b))) k)"
  "slots b (2 # be_bytes 32 k) = map_option enc_adjacency (fmlookup (ax_map (st_axons_out (bb_state b))) k)"
  "slots b (3 # be_bytes 32 k) = map_option enc_adjacency (fmlookup (ax_map (st_axons_in (bb_state b))) k)"
  "slots b (4 # be_bytes 32 k) = map_option enc_neuron (fmlookup (kd_map (st_neurons (bb_state b))) k)"
  "slots b (9 # be_bytes 8 h) = map_option (be_bytes 32) (fmlookup (kd_map (st_time (bb_state b))) h)"
  "slots b (10 # be_bytes 32 k) = map_option enc_signal (fmlookup (kd_map (st_signals (bb_state b))) k)"
  "slots b (11 # be_bytes 32 k) = map_option (\<lambda>v. integers [v]) (fmlookup (kd_map (st_commitments (bb_state b))) k)"
  "slots b (12 # be_bytes 32 k) = map_option (\<lambda>_. []) (fmlookup (kd_map (st_nullifiers (bb_state b))) k)"
  "slots b (13 # be_bytes 32 k) = map_option (\<lambda>v. integers [v]) (fmlookup (kd_map (st_balances (bb_state b))) k)"
  "slots b (14 # be_bytes 32 k) = map_option enc_intent (fmlookup (st_intents (bb_state b)) k)"
  "slots b (15 # be_bytes 32 k) = map_option enc_edge (fmlookup (st_axon_edges (bb_state b)) k)"
  "slots b (16 # be_bytes 32 k) = map_option (\<lambda>v. integers [v]) (fmlookup (ps_last_touched (bb_prune_state b)) k)"
proof -
  show "slots b (12 # be_bytes 32 k) = map_option (\<lambda>_. []) (fmlookup (kd_map (st_nullifiers (bb_state b))) k)"
    by (cases "fmlookup (kd_map (st_nullifiers (bb_state b))) k")
      (simp_all add: slots_def read_entry_def read_entity_def Let_def kset_contains_def)
qed (simp_all add: slots_def read_entry_def read_entity_def Let_def)

lemma slots_0 [simp]: "slots b (0 # e) = None"
  by (simp add: slots_def read_entry_def read_entity_def Let_def split: Option.bind_splits option.split)

text \<open>An address outside these has no value.\<close>

lemma slots_not_wf: "\<not> wf_key key \<Longrightarrow> slots b key = None"
  by (auto simp: slots_def read_entry_def read_entity_def Let_def wf_key_def entity_domains_def entity_of_iff position_of_iff
      split: list.split option.split Option.bind_splits)

lemma wf_key_cases [consumes 1, case_names meta particles axons_out axons_in neurons time signals commitments nullifiers balances intents edges touched]:
  assumes "wf_key key"
  obtains "key = [0]" | k where "key = 1 # be_bytes 32 (k :: particle)" | k where "key = 2 # be_bytes 32 (k :: particle)"
    | k where "key = 3 # be_bytes 32 (k :: particle)" | k where "key = 4 # be_bytes 32 (k :: particle)"
    | h where "key = 9 # be_bytes 8 (h :: u64)" | k where "key = 10 # be_bytes 32 (k :: particle)"
    | k where "key = 11 # be_bytes 32 (k :: particle)" | k where "key = 12 # be_bytes 32 (k :: particle)"
    | k where "key = 13 # be_bytes 32 (k :: particle)" | k where "key = 14 # be_bytes 32 (k :: particle)"
    | k where "key = 15 # be_bytes 32 (k :: particle)" | k where "key = 16 # be_bytes 32 (k :: particle)"
  using assms unfolding wf_key_def entity_domains_def by blast

text \<open>What the addresses do not show and no transition changes.\<close>

definition rest_same :: "bbg \<Rightarrow> bbg \<Rightarrow> bool" where
  "rest_same b c \<longleftrightarrow> kd_map (st_locations (bb_state c)) = kd_map (st_locations (bb_state b)) \<and>
     kd_map (st_coins (bb_state c)) = kd_map (st_coins (bb_state b)) \<and> card_map (st_cards (bb_state c)) = card_map (st_cards (bb_state b)) \<and>
     kd_map (st_files (bb_state c)) = kd_map (st_files (bb_state b)) \<and>
     st_diameter_override (bb_state c) = st_diameter_override (bb_state b) \<and> st_root_version (bb_state c) = st_root_version (bb_state b) \<and>
     bb_prune_config c = bb_prune_config b \<and> cp_acc (bb_checkpoint c) = cp_acc (bb_checkpoint b)"

lemma rest_same_refl [simp]: "rest_same b b"
  by (simp add: rest_same_def)

lemma rest_same_trans: "rest_same a b \<Longrightarrow> rest_same b c \<Longrightarrow> rest_same a c"
  by (simp add: rest_same_def)

lemma map_option_inj: "inj f \<Longrightarrow> map_option f x = map_option f y \<longleftrightarrow> x = y"
  by (cases x; cases y) (auto dest: injD)

lemma fmap_enc_eq: "inj f \<Longrightarrow> (\<And>k. map_option f (fmlookup m k) = map_option f (fmlookup m' k)) \<Longrightarrow> m = m'"
  by (rule fmap_ext) (simp add: map_option_inj)

text \<open>Equal addresses and equal rest: equal records.\<close>

lemma slots_determine:
  assumes "\<And>key. slots c key = slots b key" and "rest_same b c"
  shows "same_records (bb_state b) ((bb_state c)\<lparr>st_height := st_height (bb_state b)\<rparr>)" and
    "bb_prune_state c = bb_prune_state b"
proof -
  let ?b = "bb_state b" and ?c = "bb_state c"
  note at = assms(1) [of "1 # be_bytes 32 (k :: particle)" for k] assms(1) [of "2 # be_bytes 32 (k :: particle)" for k] assms(1) [of "3 # be_bytes 32 (k :: particle)" for k]
    assms(1) [of "4 # be_bytes 32 (k :: particle)" for k] assms(1) [of "9 # be_bytes 8 (h :: u64)" for h] assms(1) [of "10 # be_bytes 32 (k :: particle)" for k]
    assms(1) [of "11 # be_bytes 32 (k :: particle)" for k] assms(1) [of "12 # be_bytes 32 (k :: particle)" for k] assms(1) [of "13 # be_bytes 32 (k :: particle)" for k]
    assms(1) [of "14 # be_bytes 32 (k :: particle)" for k] assms(1) [of "15 # be_bytes 32 (k :: particle)" for k] assms(1) [of "16 # be_bytes 32 (k :: particle)" for k]
  note eq = at(1) [unfolded slots_simps, THEN fmap_enc_eq [OF enc_inj(1)]] at(2) [unfolded slots_simps, THEN fmap_enc_eq [OF enc_inj(8)]]
    at(3) [unfolded slots_simps, THEN fmap_enc_eq [OF enc_inj(8)]] at(4) [unfolded slots_simps, THEN fmap_enc_eq [OF enc_inj(2)]]
    at(5) [unfolded slots_simps, THEN fmap_enc_eq [OF enc_inj(7)]] at(6) [unfolded slots_simps, THEN fmap_enc_eq [OF enc_inj(3)]]
    at(7) [unfolded slots_simps, THEN fmap_enc_eq [OF enc_inj(6)]] at(8) [unfolded slots_simps, THEN fmap_enc_eq [OF enc_inj(13)]]
    at(9) [unfolded slots_simps, THEN fmap_enc_eq [OF enc_inj(6)]] at(10) [unfolded slots_simps, THEN fmap_enc_eq [OF enc_inj(4)]]
    at(11) [unfolded slots_simps, THEN fmap_enc_eq [OF enc_inj(5)]] at(12) [unfolded slots_simps, THEN fmap_enc_eq [OF enc_inj(6)]]
  show "same_records (bb_state b) ((bb_state c)\<lparr>st_height := st_height (bb_state b)\<rparr>)"
    using assms(2) eq by (simp add: same_records_def rest_same_def)
  show "bb_prune_state c = bb_prune_state b" using eq(12) by (simp add: prune_state.equality)
qed

text \<open>A change of records at the addresses \<open>K\<close> only.\<close>

definition frame :: "bytes set \<Rightarrow> bbg \<Rightarrow> bbg \<Rightarrow> bool" where
  "frame K b c \<longleftrightarrow> (\<forall>key. key \<notin> K \<longrightarrow> slots c key = slots b key) \<and> rest_same b c"

lemma frame_refl [simp]: "frame K b b"
  by (simp add: frame_def)

lemma frame_trans: "frame K a b \<Longrightarrow> frame K b c \<Longrightarrow> frame K a c"
  by (auto simp: frame_def intro: rest_same_trans)

lemma frame_mono: "frame K a b \<Longrightarrow> K \<subseteq> L \<Longrightarrow> frame L a b"
  by (auto simp: frame_def)

lemma frameI:
  assumes "rest_same b c"
    and "\<And>k. 1 # be_bytes 32 k \<notin> K \<Longrightarrow> fmlookup (kd_map (st_particles (bb_state c))) k = fmlookup (kd_map (st_particles (bb_state b))) k"
    and "\<And>k. 2 # be_bytes 32 k \<notin> K \<Longrightarrow> fmlookup (ax_map (st_axons_out (bb_state c))) k = fmlookup (ax_map (st_axons_out (bb_state b))) k"
    and "\<And>k. 3 # be_bytes 32 k \<notin> K \<Longrightarrow> fmlookup (ax_map (st_axons_in (bb_state c))) k = fmlookup (ax_map (st_axons_in (bb_state b))) k"
    and "\<And>k. 4 # be_bytes 32 k \<notin> K \<Longrightarrow> fmlookup (kd_map (st_neurons (bb_state c))) k = fmlookup (kd_map (st_neurons (bb_state b))) k"
    and "\<And>h. 9 # be_bytes 8 h \<notin> K \<Longrightarrow> fmlookup (kd_map (st_time (bb_state c))) h = fmlookup (kd_map (st_time (bb_state b))) h"
    and "\<And>k. 10 # be_bytes 32 k \<notin> K \<Longrightarrow> fmlookup (kd_map (st_signals (bb_state c))) k = fmlookup (kd_map (st_signals (bb_state b))) k"
    and "\<And>k. 11 # be_bytes 32 k \<notin> K \<Longrightarrow> fmlookup (kd_map (st_commitments (bb_state c))) k = fmlookup (kd_map (st_commitments (bb_state b))) k"
    and "\<And>k. 12 # be_bytes 32 k \<notin> K \<Longrightarrow> fmlookup (kd_map (st_nullifiers (bb_state c))) k = fmlookup (kd_map (st_nullifiers (bb_state b))) k"
    and "\<And>k. 13 # be_bytes 32 k \<notin> K \<Longrightarrow> fmlookup (kd_map (st_balances (bb_state c))) k = fmlookup (kd_map (st_balances (bb_state b))) k"
    and "\<And>k. 14 # be_bytes 32 k \<notin> K \<Longrightarrow> fmlookup (st_intents (bb_state c)) k = fmlookup (st_intents (bb_state b)) k"
    and "\<And>k. 15 # be_bytes 32 k \<notin> K \<Longrightarrow> fmlookup (st_axon_edges (bb_state c)) k = fmlookup (st_axon_edges (bb_state b)) k"
    and "\<And>k. 16 # be_bytes 32 k \<notin> K \<Longrightarrow> fmlookup (ps_last_touched (bb_prune_state c)) k = fmlookup (ps_last_touched (bb_prune_state b)) k"
  shows "frame K b c"
proof -
  have "slots c key = slots b key" if "key \<notin> K" for key
  proof (cases "wf_key key")
    case True
    then show ?thesis using that by (cases rule: wf_key_cases) (simp_all add: assms(2-))
  next
    case False
    then show ?thesis by (simp add: slots_not_wf)
  qed
  then show ?thesis using assms(1) by (simp add: frame_def)
qed

text \<open>A read of the root or of the metadata changes caches only.\<close>

definition same_bbg :: "bbg \<Rightarrow> bbg \<Rightarrow> bool" where
  "same_bbg b c \<longleftrightarrow> same_records (bb_state b) (bb_state c) \<and> bb_checkpoint c = bb_checkpoint b \<and>
     bb_prune_config c = bb_prune_config b \<and> bb_prune_state c = bb_prune_state b"

lemma same_bbg_refl [simp]: "same_bbg b b"
  by (simp add: same_bbg_def)

lemma same_bbg_trans: "same_bbg a b \<Longrightarrow> same_bbg b c \<Longrightarrow> same_bbg a c"
  by (auto simp: same_bbg_def intro: same_records_trans)

lemma same_bbg_frame: "same_bbg b c \<Longrightarrow> frame {} b c"
  by (rule frameI) (simp_all add: same_bbg_def same_records_def rest_same_def)

section \<open>Putting values back\<close>

lemma axon_remove_room:
  assumes "axon_remove ix p = Some (ix', r)"
  shows "set_room ix' q \<le> set_room ix q" "axon_load ix' \<le> axon_load ix + 2"
  using assms fcard_finsert_le [of p "ax_dirty ix"]
  by (auto simp: axon_remove_def axon_touched_def axon_pending_def set_room_def split: option.splits Option.bind_splits if_splits)

lemma axon_dedup_room:
  assumes "trie_ok X S" and "trie_map S = members X l" and "length (tr_nodes S) + 2 * length as \<le> 2 ^ 32" and "axon_dedup X S as = Some (S', r)"
  shows "length (tr_nodes S') \<le> length (tr_nodes S) + 2 * length as"
  using assms
proof (induction as arbitrary: S l r)
  case (Cons a as)
  have room: "length (tr_nodes S) + 2 \<le> 2 ^ 32" using Cons.prems(3) by simp
  obtain S1 where S1: "trie_set S a (axon_member_digest X a) = Some (S1, a \<notin> set l)" "trie_ok X S1"
    "trie_map S1 = (members X l)(a \<mapsto> axon_member_digest X a)" "length (tr_nodes S1) \<le> length (tr_nodes S) + 2"
    using am.put_law [OF Cons.prems(1) room, of a "axon_member_digest X a"] Cons.prems(2) by (auto simp: members_None)
  obtain r' where "axon_dedup X S1 as = Some (S', r')" using Cons.prems(4) S1(1) by (auto split: Option.bind_splits)
  moreover have "trie_map S1 = members X (l @ [a])" using S1(3) members_snoc by simp
  moreover have "length (tr_nodes S1) + 2 * length as \<le> 2 ^ 32" using S1(4) Cons.prems(3) by simp
  ultimately show ?case using Cons.IH [OF S1(2)] S1(4) by fastforce
qed simp

lemma axon_insert_room:
  assumes ok: "axon_ok X ix" and room: "2 * length ls \<le> 2 ^ 32" and r: "axon_insert X ix p ls = Some (ix', old)"
  shows "set_room ix' q \<le> max (set_room ix q) (2 * length ls)" "axon_load ix' \<le> axon_load ix + 2"
proof -
  obtain ix1 old1 where ix1: "axon_remove ix p = Some (ix1, old1)" using r by (auto simp: axon_insert_def split: Option.bind_splits)
  obtain S r' where S: "axon_dedup X trie_new ls = Some (S, r')" using r ix1 by (auto simp: axon_insert_def split: Option.bind_splits)
  have len: "length (tr_nodes S) \<le> 2 * length ls"
    using axon_dedup_room [OF _ _ _ S, of "[]"] room by (simp add: trie_new_ok members_Nil new_nodes)
  have d: "ax_dirty ix1 = finsert p (ax_dirty ix) \<or> ix1 = ix" using ix1
    by (auto simp: axon_remove_def axon_touched_def split: option.splits Option.bind_splits)
  have "set_room ix' q \<le> max (set_room ix1 q) (2 * length ls)"
    using r ix1 S len by (auto simp: axon_insert_def axon_touched_def set_room_def split: Option.bind_splits if_splits option.splits)
  then show "set_room ix' q \<le> max (set_room ix q) (2 * length ls)" using axon_remove_room(1) [OF ix1, of q] by linarith
  show "axon_load ix' \<le> axon_load ix + 2"
    using r ix1 S d axon_remove_room(2) [OF ix1] fcard_finsert_le [of p "ax_dirty ix"]
    by (auto simp: axon_insert_def axon_touched_def axon_remove_def axon_pending_def split: Option.bind_splits if_splits option.splits)
qed

text \<open>One adjacency index replaced by another that fits.\<close>

definition axons_fit :: "ext \<Rightarrow> nat \<Rightarrow> axon_index \<Rightarrow> axon_index \<Rightarrow> bool" where
  "axons_fit X n ix ix' \<longleftrightarrow> axon_ok X ix' \<and> (\<forall>f. axon_legacy_ok f ix \<longrightarrow> axon_legacy_ok f ix') \<and> axon_load ix' \<le> axon_load ix + 2 \<and>
     (\<forall>p. set_room ix' p + n \<le> 2 ^ 32)"

lemma state_inv_axons_set:
  assumes "state_inv X (n + 2) st"
  shows "axons_fit X n (st_axons_out st) ix \<Longrightarrow> state_inv X n (st\<lparr>st_axons_out := ix\<rparr>)"
    and "axons_fit X n (st_axons_in st) ix \<Longrightarrow> state_inv X n (st\<lparr>st_axons_in := ix\<rparr>)"
proof -
  have inv: "state_inv X n st" using assms by (rule state_inv_mono) simp
  have load: "axon_load (st_axons_out st) + (n + 2) \<le> 2 ^ 32" "axon_load (st_axons_in st) + (n + 2) \<le> 2 ^ 32"
    using assms by (simp_all add: state_inv_def state_fits_def)
  show "axons_fit X n (st_axons_out st) ix \<Longrightarrow> state_inv X n (st\<lparr>st_axons_out := ix\<rparr>)"
    "axons_fit X n (st_axons_in st) ix \<Longrightarrow> state_inv X n (st\<lparr>st_axons_in := ix\<rparr>)"
    using inv load by (simp_all add: state_inv_def state_ok_def state_fresh_def state_fits_def axons_fit_def)
qed

lemma entry_keyed_put:
  assumes "\<And>x. old = Some x \<Longrightarrow> dec (enc x) = Some x"
    and "\<And>v. keyed_evolves X kb lv 2 m (fst (keyed_insert m k v))" and "keyed_evolves X kb lv 2 m (fst (keyed_remove m k))"
  shows "\<exists>m'. entry_keyed m k dec (map_option enc old) = Some m' \<and> kd_map m' = fmput k old (kd_map m) \<and> keyed_evolves X kb lv 2 m m'"
  using assms by (cases old) (simp_all add: entry_keyed_def fmput_simps)

lemma entry_map_put:
  assumes "\<And>x. old = Some x \<Longrightarrow> dec (enc x) = Some x"
  shows "entry_map m k dec (map_option enc old) = Some (fmput k old m)"
  using assms by (cases old) (simp_all add: entry_map_def fmput_simps)

lemma entry_axons_put:
  assumes ok: "axon_ok X ix" and orig: "axon_ok X o_ix" and old: "fmlookup (ax_map o_ix) k = old"
    and len: "\<And>l. old = Some l \<Longrightarrow> length l \<le> 2 ^ 18" and room: "\<And>p. set_room ix p + n \<le> 2 ^ 32" and n: "n + 2 ^ 19 \<le> 2 ^ 32"
  shows "\<exists>ix'. entry_axons X ix k (map_option enc_adjacency old) = Some ix' \<and> ax_map ix' = fmput k old (ax_map ix) \<and> axons_fit X n ix ix'"
proof (cases old)
  case None
  obtain ix' where ix': "axon_remove ix k = Some (ix', fmlookup (ax_map ix) k)" "axon_ok X ix'" "ax_map ix' = fmdrop k (ax_map ix)"
    using axon_remove_ok [OF ok] by blast
  have "set_room ix' p + n \<le> 2 ^ 32" for p using axon_remove_room(1) [OF ix'(1), of p] room [of p] by linarith
  then show ?thesis
    using None ix' axon_remove_legacy [OF ix'(1)] axon_remove_room(2) [OF ix'(1)]
    by (simp add: entry_axons_def fmput_simps axons_fit_def)
next
  case (Some l)
  have l: "l \<noteq> []" "distinct l" using orig old Some by (cases rule: axon_lookup_cases [where p = k]; simp)+
  have s: "length l \<le> 2 ^ 18" using len Some by simp
  then have r: "2 * length l \<le> 2 ^ 32" "length l < 2 ^ 64" by simp_all
  obtain ix' where ix': "axon_insert X ix k l = Some (ix', fmlookup (ax_map ix) k)" "axon_ok X ix'" "ax_map ix' = fmupd k l (ax_map ix)"
    using axon_insert_ok [OF ok r(1)] l by (auto simp: fmput_simps)
  have "set_room ix' p + n \<le> 2 ^ 32" for p
    using axon_insert_room(1) [OF ok r(1) ix'(1), of p] room [of p] s n by (auto simp: max_def split: if_splits)
  then show ?thesis
    using Some ix' axon_insert_legacy [OF ix'(1)] axon_insert_room(2) [OF ok r(1) ix'(1)]
    by (simp add: entry_axons_def fmput_simps axons_fit_def dec_enc_adjacency [OF r(2)])
qed

text \<open>The graph of the beginning: its adjacency lists are sound and its committed values reduced.\<close>

definition origin_ok :: "ext \<Rightarrow> bbg \<Rightarrow> bool" where
  "origin_ok X b \<longleftrightarrow> axon_ok X (st_axons_out (bb_state b)) \<and> axon_ok X (st_axons_in (bb_state b)) \<and>
     (\<forall>k v. fmlookup (kd_map (st_commitments (bb_state b))) k = Some v \<longrightarrow> v < gl_P X)"

text \<open>One value is put back at its address.\<close>

definition put_back :: "ext \<Rightarrow> nat \<Rightarrow> bytes \<Rightarrow> bytes option \<Rightarrow> bbg \<Rightarrow> bbg \<Rightarrow> bool" where
  "put_back X n key v c c' \<longleftrightarrow> state_inv X n (bb_state c') \<and> frame {key} c c' \<and> slots c' key = v \<and>
     bb_checkpoint c' = bb_checkpoint c \<and> st_height (bb_state c') = st_height (bb_state c)"

lemma fmput_other: "q \<noteq> p \<Longrightarrow> fmlookup (fmput p v m) q = fmlookup m q"
  by simp

lemma put_back_state:
  assumes "state_inv X (n + 2) (bb_state c)" and "state_evolves X 2 (bb_state c) st" and "frame {key} c (c\<lparr>bb_state := st\<rparr>)"
    and "slots (c\<lparr>bb_state := st\<rparr>) key = v" and "st_height st = st_height (bb_state c)"
  shows "put_back X n key v c (c\<lparr>bb_state := st\<rparr>)"
  using assms state_inv_evolves [OF assms(1,2)] by (simp add: put_back_def)

lemma be32_inj [simp]: "be_bytes 32 (k :: particle) = be_bytes 32 j \<longleftrightarrow> k = j"
  by (simp add: be_bytes_inj)

lemma be8_inj [simp]: "be_bytes 8 (h :: u64) = be_bytes 8 j \<longleftrightarrow> h = j"
  by (simp add: be_bytes_inj)

abbreviation restorable :: "ext \<Rightarrow> nat \<Rightarrow> bbg \<Rightarrow> bbg \<Rightarrow> bytes \<Rightarrow> bool" where
  "restorable X n b c key \<equiv> \<exists>c'. restore_entry X c key (slots b key) = Some c' \<and> put_back X n key (slots b key) c c'"

lemmas restore_simps = restore_entry_def restore_entity_def Let_def state_evolves_def rest_same_def

lemma restore_particles: "state_inv X (n + 2) (bb_state c) \<Longrightarrow> restorable X n b c (1 # be_bytes 32 (k :: particle))"
proof -
  assume inv: "state_inv X (n + 2) (bb_state c)"
  obtain m where "entry_keyed (st_particles (bb_state c)) k dec_particle (map_option enc_particle (fmlookup (kd_map (st_particles (bb_state b))) k)) = Some m"
    "kd_map m = fmput k (fmlookup (kd_map (st_particles (bb_state b))) k) (kd_map (st_particles (bb_state c)))"
    "keyed_evolves X (\<lambda>k. k) (particle_leaf_vals X) 2 (st_particles (bb_state c)) m"
    using entry_keyed_put [OF dec_enc(1) insert_evolves(1,4)] by blast
  then show ?thesis
    by (intro exI [of _ "c\<lparr>bb_state := (bb_state c)\<lparr>st_particles := m\<rparr>\<rparr>"] conjI put_back_state [OF inv] frameI) (simp_all add: restore_simps)
qed

lemma restore_neurons: "state_inv X (n + 2) (bb_state c) \<Longrightarrow> restorable X n b c (4 # be_bytes 32 (k :: particle))"
proof -
  assume inv: "state_inv X (n + 2) (bb_state c)"
  obtain m where "entry_keyed (st_neurons (bb_state c)) k dec_neuron (map_option enc_neuron (fmlookup (kd_map (st_neurons (bb_state b))) k)) = Some m"
    "kd_map m = fmput k (fmlookup (kd_map (st_neurons (bb_state b))) k) (kd_map (st_neurons (bb_state c)))"
    "keyed_evolves X (\<lambda>k. k) (neuron_leaf_vals X) 2 (st_neurons (bb_state c)) m"
    using entry_keyed_put [OF dec_enc(2) insert_evolves(1,4)] by blast
  then show ?thesis
    by (intro exI [of _ "c\<lparr>bb_state := (bb_state c)\<lparr>st_neurons := m\<rparr>\<rparr>"] conjI put_back_state [OF inv] frameI) (simp_all add: restore_simps)
qed

lemma restore_signals: "state_inv X (n + 2) (bb_state c) \<Longrightarrow> restorable X n b c (10 # be_bytes 32 (k :: particle))"
proof -
  assume inv: "state_inv X (n + 2) (bb_state c)"
  obtain m where "entry_keyed (st_signals (bb_state c)) k dec_signal (map_option enc_signal (fmlookup (kd_map (st_signals (bb_state b))) k)) = Some m"
    "kd_map m = fmput k (fmlookup (kd_map (st_signals (bb_state b))) k) (kd_map (st_signals (bb_state c)))"
    "keyed_evolves X (\<lambda>k. k) (signal_leaf_vals X) 2 (st_signals (bb_state c)) m"
    using entry_keyed_put [OF dec_enc(3) insert_evolves(1,4)] by blast
  then show ?thesis
    by (intro exI [of _ "c\<lparr>bb_state := (bb_state c)\<lparr>st_signals := m\<rparr>\<rparr>"] conjI put_back_state [OF inv] frameI) (simp_all add: restore_simps)
qed

lemma restore_balances: "state_inv X (n + 2) (bb_state c) \<Longrightarrow> restorable X n b c (13 # be_bytes 32 (k :: particle))"
proof -
  assume inv: "state_inv X (n + 2) (bb_state c)"
  obtain m where "entry_keyed (st_balances (bb_state c)) k dec_u64 (map_option (\<lambda>v. integers [v]) (fmlookup (kd_map (st_balances (bb_state b))) k)) = Some m"
    "kd_map m = fmput k (fmlookup (kd_map (st_balances (bb_state b))) k) (kd_map (st_balances (bb_state c)))"
    "keyed_evolves X (\<lambda>k. k) (u64_leaf_vals X) 2 (st_balances (bb_state c)) m"
    using entry_keyed_put [OF dec_enc(6) insert_evolves(1,4)] by blast
  then show ?thesis
    by (intro exI [of _ "c\<lparr>bb_state := (bb_state c)\<lparr>st_balances := m\<rparr>\<rparr>"] conjI put_back_state [OF inv] frameI) (simp_all add: restore_simps)
qed

lemma restore_time: "state_inv X (n + 2) (bb_state c) \<Longrightarrow> restorable X n b c (9 # be_bytes 8 (k :: u64))"
proof -
  assume inv: "state_inv X (n + 2) (bb_state c)"
  obtain m where "entry_keyed (st_time (bb_state c)) k dec_32 (map_option (be_bytes 32) (fmlookup (kd_map (st_time (bb_state b))) k)) = Some m"
    "kd_map m = fmput k (fmlookup (kd_map (st_time (bb_state b))) k) (kd_map (st_time (bb_state c)))"
    "keyed_evolves X u64_key_bytes (bytes32_leaf_vals X) 2 (st_time (bb_state c)) m"
    using entry_keyed_put [OF dec_enc(7) insert_evolves(2,5)] by blast
  then show ?thesis
    by (intro exI [of _ "c\<lparr>bb_state := (bb_state c)\<lparr>st_time := m\<rparr>\<rparr>"] conjI put_back_state [OF inv] frameI) (simp_all add: restore_simps)
qed

lemma restore_commitments:
  assumes inv: "state_inv X (n + 2) (bb_state c)" and b: "origin_ok X b" and nl: "nebu_laws X"
  shows "restorable X n b c (11 # be_bytes 32 (k :: particle))"
proof -
  have "map_option (gl_new X) (dec_u64 (integers [v])) = Some v" if "fmlookup (kd_map (st_commitments (bb_state b))) k = Some v" for v
    using b nl that by (simp add: origin_ok_def nebu_laws_def)
  from entry_keyed_put [where dec = "\<lambda>r. map_option (gl_new X) (dec_u64 r)" and enc = "\<lambda>v. integers [v]", OF this insert_evolves(1,4)]
  obtain m where "entry_keyed (st_commitments (bb_state c)) k (\<lambda>r. map_option (gl_new X) (dec_u64 r))
      (map_option (\<lambda>v. integers [v]) (fmlookup (kd_map (st_commitments (bb_state b))) k)) = Some m"
    "kd_map m = fmput k (fmlookup (kd_map (st_commitments (bb_state b))) k) (kd_map (st_commitments (bb_state c)))"
    "keyed_evolves X (\<lambda>k. k) goldilocks_leaf_vals 2 (st_commitments (bb_state c)) m"
    by blast
  then show ?thesis
    by (intro exI [of _ "c\<lparr>bb_state := (bb_state c)\<lparr>st_commitments := m\<rparr>\<rparr>"] conjI put_back_state [OF inv] frameI) (simp_all add: restore_simps)
qed

lemma restore_nullifiers: "state_inv X (n + 2) (bb_state c) \<Longrightarrow> restorable X n b c (12 # be_bytes 32 (k :: particle))"
proof -
  assume inv: "state_inv X (n + 2) (bb_state c)"
  let ?m = "if fmlookup (kd_map (st_nullifiers (bb_state b))) k = None then fst (keyed_remove (st_nullifiers (bb_state c)) k)
    else fst (keyed_insert (st_nullifiers (bb_state c)) k ())"
  have "kd_map ?m = fmput k (fmlookup (kd_map (st_nullifiers (bb_state b))) k) (kd_map (st_nullifiers (bb_state c)))"
    by (auto simp: fmput_simps)
  moreover have "keyed_evolves X (\<lambda>k. k) unit_leaf_vals 2 (st_nullifiers (bb_state c)) ?m" by (simp add: insert_evolves)
  moreover have "restore_entry X c (12 # be_bytes 32 k) (slots b (12 # be_bytes 32 k)) = Some (c\<lparr>bb_state := (bb_state c)\<lparr>st_nullifiers := ?m\<rparr>\<rparr>)"
    by (auto simp: restore_simps kset_insert_def kset_remove_def case_prod_beta)
  ultimately obtain m where m: "restore_entry X c (12 # be_bytes 32 k) (slots b (12 # be_bytes 32 k)) = Some (c\<lparr>bb_state := (bb_state c)\<lparr>st_nullifiers := m\<rparr>\<rparr>)"
    "kd_map m = fmput k (fmlookup (kd_map (st_nullifiers (bb_state b))) k) (kd_map (st_nullifiers (bb_state c)))"
    "keyed_evolves X (\<lambda>k. k) unit_leaf_vals 2 (st_nullifiers (bb_state c)) m"
    by blast
  have "put_back X n (12 # be_bytes 32 k) (slots b (12 # be_bytes 32 k)) c (c\<lparr>bb_state := (bb_state c)\<lparr>st_nullifiers := m\<rparr>\<rparr>)"
    using m(2,3) by (intro put_back_state [OF inv] frameI) (simp_all add: state_evolves_def rest_same_def)
  then show ?thesis using m(1) by blast
qed

lemma restore_plain:
  assumes inv: "state_inv X (n + 2) (bb_state c)"
  shows "restorable X n b c (14 # be_bytes 32 (k :: particle))" "restorable X n b c (15 # be_bytes 32 (k :: particle))"
    "restorable X n b c (16 # be_bytes 32 (k :: particle))"
proof -
  let ?i = "fmput k (fmlookup (st_intents (bb_state b)) k) (st_intents (bb_state c))"
  let ?e = "fmput k (fmlookup (st_axon_edges (bb_state b)) k) (st_axon_edges (bb_state c))"
  let ?t = "fmput k (fmlookup (ps_last_touched (bb_prune_state b)) k) (ps_last_touched (bb_prune_state c))"
  have inv': "state_inv X n (bb_state c)" using inv by (rule state_inv_mono) simp
  show "restorable X n b c (14 # be_bytes 32 k)"
    by (intro exI [of _ "c\<lparr>bb_state := (bb_state c)\<lparr>st_intents := ?i\<rparr>\<rparr>"] conjI put_back_state [OF inv] frameI)
      (simp_all add: restore_simps entry_map_put [OF dec_enc(4)])
  show "restorable X n b c (15 # be_bytes 32 k)"
    by (intro exI [of _ "c\<lparr>bb_state := (bb_state c)\<lparr>st_axon_edges := ?e\<rparr>\<rparr>"] conjI put_back_state [OF inv] frameI)
      (simp_all add: restore_simps entry_map_put [OF dec_enc(5)])
  show "restorable X n b c (16 # be_bytes 32 k)"
    unfolding put_back_def
    by (intro exI [of _ "c\<lparr>bb_prune_state := (bb_prune_state c)\<lparr>ps_last_touched := ?t\<rparr>\<rparr>"] conjI frameI)
      (simp_all add: restore_simps entry_map_put [OF dec_enc(6)] inv')
qed

lemma restore_axons:
  assumes inv: "state_inv X (n + 2) (bb_state c)" and b: "origin_ok X b" and n: "n + 2 ^ 19 \<le> 2 ^ 32"
  shows "(\<And>bs. slots b (2 # be_bytes 32 k) = Some bs \<Longrightarrow> length bs \<le> MAX_BYTES) \<Longrightarrow> restorable X n b c (2 # be_bytes 32 (k :: particle))"
    and "(\<And>bs. slots b (3 # be_bytes 32 k) = Some bs \<Longrightarrow> length bs \<le> MAX_BYTES) \<Longrightarrow> restorable X n b c (3 # be_bytes 32 (k :: particle))"
proof -
  have ok: "axon_ok X (st_axons_out (bb_state c))" "axon_ok X (st_axons_in (bb_state c))"
    and room: "set_room (st_axons_out (bb_state c)) p + n \<le> 2 ^ 32" "set_room (st_axons_in (bb_state c)) p + n \<le> 2 ^ 32" for p
    using inv by (auto simp: state_inv_def state_ok_def state_fits_def dest: spec [of _ p])
  have ob: "axon_ok X (st_axons_out (bb_state b))" "axon_ok X (st_axons_in (bb_state b))" using b by (simp_all add: origin_ok_def)
  have len: "length l \<le> 2 ^ 18" if "length (enc_adjacency l) \<le> MAX_BYTES" for l using that by (simp add: MAX_BYTES_def)
  {
    assume "\<And>bs. slots b (2 # be_bytes 32 k) = Some bs \<Longrightarrow> length bs \<le> MAX_BYTES"
    then have "length l \<le> 2 ^ 18" if "fmlookup (ax_map (st_axons_out (bb_state b))) k = Some l" for l using that len by simp
    from entry_axons_put [OF ok(1) ob(1) refl this room(1) n]
    obtain ix where "entry_axons X (st_axons_out (bb_state c)) k (map_option enc_adjacency (fmlookup (ax_map (st_axons_out (bb_state b))) k)) = Some ix"
      "ax_map ix = fmput k (fmlookup (ax_map (st_axons_out (bb_state b))) k) (ax_map (st_axons_out (bb_state c)))"
      "axons_fit X n (st_axons_out (bb_state c)) ix"
      by blast
    then show "restorable X n b c (2 # be_bytes 32 k)"
      unfolding put_back_def
      by (intro exI [of _ "c\<lparr>bb_state := (bb_state c)\<lparr>st_axons_out := ix\<rparr>\<rparr>"] conjI frameI)
        (simp_all add: restore_simps state_inv_axons_set [OF inv])
  next
    assume "\<And>bs. slots b (3 # be_bytes 32 k) = Some bs \<Longrightarrow> length bs \<le> MAX_BYTES"
    then have "length l \<le> 2 ^ 18" if "fmlookup (ax_map (st_axons_in (bb_state b))) k = Some l" for l using that len by simp
    from entry_axons_put [OF ok(2) ob(2) refl this room(2) n]
    obtain ix where "entry_axons X (st_axons_in (bb_state c)) k (map_option enc_adjacency (fmlookup (ax_map (st_axons_in (bb_state b))) k)) = Some ix"
      "ax_map ix = fmput k (fmlookup (ax_map (st_axons_in (bb_state b))) k) (ax_map (st_axons_in (bb_state c)))"
      "axons_fit X n (st_axons_in (bb_state c)) ix"
      by blast
    then show "restorable X n b c (3 # be_bytes 32 k)"
      unfolding put_back_def
      by (intro exI [of _ "c\<lparr>bb_state := (bb_state c)\<lparr>st_axons_in := ix\<rparr>\<rparr>"] conjI frameI)
        (simp_all add: restore_simps state_inv_axons_set [OF inv])
  }
qed

lemma restore_entry_ok:
  assumes "wf_key key" and "key \<noteq> [0]" and "state_inv X (n + 2) (bb_state c)" and "origin_ok X b" and "nebu_laws X"
    and "n + 2 ^ 19 \<le> 2 ^ 32" and "\<And>bs. slots b key = Some bs \<Longrightarrow> length bs \<le> MAX_BYTES"
  shows "restorable X n b c key"
  using assms(1)
proof (cases rule: wf_key_cases)
  case (axons_out k)
  then show ?thesis using restore_axons(1) [OF assms(3,4,6)] assms(7) by simp
next
  case (axons_in k)
  then show ?thesis using restore_axons(2) [OF assms(3,4,6)] assms(7) by simp
next
  case (commitments k)
  then show ?thesis using restore_commitments [OF assms(3-5)] by simp
qed (use assms(2) restore_particles [OF assms(3)] restore_neurons [OF assms(3)] restore_signals [OF assms(3)] restore_balances [OF assms(3)]
   restore_time [OF assms(3)] restore_nullifiers [OF assms(3)] restore_plain [OF assms(3)] in simp_all)

section \<open>The undo log\<close>

text \<open>The log holds the original value of every address at which the candidate \<open>c\<close> may differ from the origin \<open>b\<close>.\<close>

definition undo_inv :: "bbg \<Rightarrow> undo \<Rightarrow> bbg \<Rightarrow> bool" where
  "undo_inv b u c \<longleftrightarrow>
     (\<forall>key. key \<noteq> [0] \<longrightarrow> slots b key = (case fmlookup (ud_values u) key of Some v \<Rightarrow> v | None \<Rightarrow> slots c key)) \<and>
     (\<forall>key v. fmlookup (ud_values u) key = Some v \<longrightarrow> wf_key key \<and> (\<forall>bs. v = Some bs \<longrightarrow> length bs \<le> MAX_BYTES)) \<and>
     fcard (fmdom (ud_values u)) \<le> MAX_KEYS \<and> ud_height u = st_height (bb_state b) \<and>
     ud_checkpoint_root u = cp_root (bb_checkpoint b) \<and> ud_checkpoint_height u = cp_height (bb_checkpoint b) \<and> rest_same b c"

lemma undo_inv_new: "undo_inv b (undo_new b) b"
  by (simp add: undo_inv_def undo_new_def fcard.rep_eq)

lemma undo_inv_frame:
  assumes "undo_inv b u c" and "frame K c c'" and "K \<subseteq> fset (fmdom (ud_values u))"
  shows "undo_inv b u c'"
proof -
  have "slots c' key = slots c key" if "fmlookup (ud_values u) key = None" for key
    using assms(2,3) that by (auto simp: frame_def fset_fmdom)
  then have "(case fmlookup (ud_values u) key of Some v \<Rightarrow> v | None \<Rightarrow> slots c' key) = (case fmlookup (ud_values u) key of Some v \<Rightarrow> v | None \<Rightarrow> slots c key)" for key
    by (simp split: option.split)
  moreover have "rest_same b c'" using assms(1,2) by (auto simp: undo_inv_def frame_def intro: rest_same_trans)
  ultimately show ?thesis using assms(1) by (simp add: undo_inv_def)
qed

lemma restore_all_ok:
  assumes "distinct (map fst es)" and "\<And>key v. (key, v) \<in> set es \<Longrightarrow> wf_key key \<and> (key \<noteq> [0] \<longrightarrow> v = slots b key) \<and> (\<forall>bs. v = Some bs \<longrightarrow> length bs \<le> MAX_BYTES)"
    and "state_inv X (n + 2 * length es) (bb_state c)" and "n + 2 * length es + 2 ^ 19 \<le> 2 ^ 32" and "origin_ok X b" and "nebu_laws X"
  shows "\<exists>c'. restore_all X c es = Some c' \<and> state_inv X n (bb_state c') \<and>
    (\<forall>key. key \<noteq> [0] \<longrightarrow> slots c' key = (if key \<in> fst ` set es then slots b key else slots c key)) \<and> rest_same c c' \<and>
    bb_checkpoint c' = bb_checkpoint c"
  using assms(1-4)
proof (induction es arbitrary: c)
  case (Cons e es)
  obtain key v where e: "e = (key, v)" by force
  have inv: "state_inv X (n + 2 * length es + 2) (bb_state c)" using Cons.prems(3) by (simp add: add.assoc)
  have "\<exists>c1. restore_entry X c key v = Some c1 \<and> state_inv X (n + 2 * length es) (bb_state c1) \<and> frame {key} c c1 \<and>
    (key \<noteq> [0] \<longrightarrow> slots c1 key = slots b key) \<and> bb_checkpoint c1 = bb_checkpoint c"
  proof (cases "key = [0]")
    case True
    then show ?thesis using state_inv_mono [OF inv] by (simp add: restore_entry_def)
  next
    case False
    have k: "wf_key key" "v = slots b key" "\<And>bs. slots b key = Some bs \<Longrightarrow> length bs \<le> MAX_BYTES"
      using Cons.prems(2) [of key v] False by (auto simp: e)
    have "n + 2 * length es + 2 ^ 19 \<le> 2 ^ 32" using Cons.prems(4) by simp
    from restore_entry_ok [OF k(1) False inv assms(5,6) this k(3)] show ?thesis unfolding k(2) [symmetric] by (auto simp: put_back_def)
  qed
  then obtain c1 where c1: "restore_entry X c key v = Some c1" "state_inv X (n + 2 * length es) (bb_state c1)" "frame {key} c c1"
    "key \<noteq> [0] \<longrightarrow> slots c1 key = slots b key" "bb_checkpoint c1 = bb_checkpoint c"
    by blast
  obtain c' where c': "restore_all X c1 es = Some c'" "state_inv X n (bb_state c')"
    "\<forall>key. key \<noteq> [0] \<longrightarrow> slots c' key = (if key \<in> fst ` set es then slots b key else slots c1 key)" "rest_same c1 c'" "bb_checkpoint c' = bb_checkpoint c1"
    using Cons.IH [OF _ _ c1(2)] Cons.prems(1,2,4) by auto
  have "slots c' q = (if q \<in> fst ` set (e # es) then slots b q else slots c q)" if "q \<noteq> [0]" for q
    using c'(3) c1(3,4) that by (auto simp: e frame_def)
  then show ?case using c1(1,3,5) c'(1,2,4,5) by (auto simp: e frame_def intro: rest_same_trans)
qed simp

lemma undo_restore_ok:
  assumes u: "undo_inv b u c" and inv: "state_inv X (n + 2 * MAX_KEYS) (bb_state c)" and o: "origin_ok X b" and nl: "nebu_laws X" "hemera_laws X"
    and n: "n + 2 ^ 20 \<le> 2 ^ 32"
  shows "\<exists>c'. undo_restore X u c = Some c' \<and> state_inv X n (bb_state c') \<and> same_bbg b c'"
proof -
  let ?es = "sorted_list_of_fmap (ud_values u)"
  have len: "length ?es \<le> MAX_KEYS" using u by (simp add: undo_inv_def length_sorted_list_of_fmap)
  have es: "wf_key key \<and> (key \<noteq> [0] \<longrightarrow> v = slots b key) \<and> (\<forall>bs. v = Some bs \<longrightarrow> length bs \<le> MAX_BYTES)" if "(key, v) \<in> set ?es" for key v
    using u that by (auto simp: set_sorted_list_of_fmap undo_inv_def)
  have "state_inv X (n + 2 * length ?es) (bb_state c)" "n + 2 * length ?es + 2 ^ 19 \<le> 2 ^ 32"
    using len n by (auto intro: state_inv_mono [OF inv] simp: MAX_KEYS_def)
  from restore_all_ok [OF sorted_list_of_fmap_props(3) es this o nl(1)] obtain c1 where c1: "restore_all X c ?es = Some c1"
    "state_inv X n (bb_state c1)" "\<forall>key. key \<noteq> [0] \<longrightarrow> slots c1 key = (if key \<in> fst ` set ?es then slots b key else slots c key)"
    "rest_same c c1" "bb_checkpoint c1 = bb_checkpoint c"
    by blast
  have "slots c1 key = slots b key" for key
  proof (cases "key = [0]")
    case False
    then have "slots c1 key = (if key \<in> fst ` set ?es then slots b key else slots c key)" using c1(3) by blast
    moreover have "key \<in> fst ` set ?es \<longleftrightarrow> fmlookup (ud_values u) key \<noteq> None" by (simp add: fst_image_iff set_sorted_list_of_fmap)
    ultimately show ?thesis using u False by (auto simp: undo_inv_def split: option.splits)
  qed simp
  moreover have r: "rest_same b c1" using u c1(4) by (auto simp: undo_inv_def intro: rest_same_trans)
  ultimately have d: "same_records (bb_state b) ((bb_state c1)\<lparr>st_height := ud_height u\<rparr>)" "bb_prune_state c1 = bb_prune_state b"
    using slots_determine [of c1 b] u by (auto simp: undo_inv_def)
  have "state_inv X n ((bb_state c1)\<lparr>st_height := ud_height u\<rparr>)" using c1(2) by (simp add: state_inv_fields)
  then obtain st where st: "compute_root X ((bb_state c1)\<lparr>st_height := ud_height u\<rparr>) = Some (st, root_spec X ((bb_state c1)\<lparr>st_height := ud_height u\<rparr>))"
    "state_inv X n st" "same_records ((bb_state c1)\<lparr>st_height := ud_height u\<rparr>) st"
    using compute_root_inv [OF _ nl(2)] by blast
  have "bb_checkpoint b = (bb_checkpoint c1)\<lparr>cp_root := ud_checkpoint_root u, cp_height := ud_checkpoint_height u\<rparr>"
    using u r by (auto simp: undo_inv_def rest_same_def intro: checkpoint.equality)
  then show ?thesis
    using c1(1) st d r same_records_trans [OF d(1) st(3)]
    by (simp add: undo_restore_def refresh_root_def same_bbg_def rest_same_def)
qed

section \<open>Capturing\<close>

lemma read_entry_wf: "wf_key (d # e) \<Longrightarrow> d \<noteq> 0 \<Longrightarrow> read_entry c d e = Some (slots c (d # e))"
  by (auto simp: wf_key_def entity_domains_def slots_def read_entry_def read_entity_def Let_def)

lemma bounded_read_ok:
  assumes "wf_key key" and "state_inv X n (bb_state c)" and "hemera_laws X"
  shows "\<exists>c' r. bounded_read X c key = Some (c', r) \<and> same_bbg c c' \<and> state_inv X n (bb_state c') \<and>
    (\<forall>v. r = Inr v \<longrightarrow> key \<noteq> [0] \<longrightarrow> v = slots c key)"
proof (cases "key = [0]")
  case True
  then show ?thesis
    using metadata_ok [OF assms(2,3)] by (force simp: bounded_read_def record_read_def same_bbg_def)
next
  case False
  then obtain d e where k: "key = d # e" "d \<noteq> 0" using assms(1) by (auto simp: wf_key_def entity_domains_def)
  have "d = 2 \<or> d = 3 \<Longrightarrow> \<exists>q. entity_of e = Some q" using assms(1) k by (auto simp: wf_key_def)
  then show ?thesis
    using k assms read_entry_wf [of d e c] by (auto simp: bounded_read_def record_read_def)
qed

lemma undo_capture_ok:
  assumes "wf_key key" and inv: "state_inv X n (bb_state c)" and h: "hemera_laws X" and u: "undo_inv b u c"
  shows "\<exists>c' u' r. undo_capture X u c key = Some (c', u', r) \<and> same_bbg c c' \<and> state_inv X n (bb_state c') \<and> undo_inv b u' c' \<and>
    fset (fmdom (ud_values u)) \<subseteq> fset (fmdom (ud_values u')) \<and> (r = Inr () \<longrightarrow> key \<in> fset (fmdom (ud_values u')))"
proof (cases "fmlookup (ud_values u) key = None \<and> fcard (fmdom (ud_values u)) \<noteq> MAX_KEYS")
  case False
  then show ?thesis using inv u by (auto simp: undo_capture_def fset_fmdom)
next
  case True
  obtain c' r where r: "bounded_read X c key = Some (c', r)" "same_bbg c c'" "state_inv X n (bb_state c')"
    "\<forall>v. r = Inr v \<longrightarrow> key \<noteq> [0] \<longrightarrow> v = slots c key"
    using bounded_read_ok [OF assms(1) inv h] by blast
  have uc: "undo_inv b u c'" by (rule undo_inv_frame [OF u same_bbg_frame [OF r(2)]]) simp
  show ?thesis
  proof (cases r)
    case (Inl e)
    then show ?thesis using True r uc by (simp add: undo_capture_def)
  next
    case (Inr v)
    let ?len = "ud_bytes u + (length key + (case v of None \<Rightarrow> 0 | Some bs \<Rightarrow> length bs))"
    let ?u = "u\<lparr>ud_bytes := ?len, ud_values := fmupd key v (ud_values u)\<rparr>"
    have "undo_inv b (u\<lparr>ud_bytes := ?len\<rparr>) c'" using uc by (simp add: undo_inv_def)
    moreover have "undo_inv b ?u c'" if "?len \<le> MAX_BYTES"
    proof -
      have card: "fcard (fmdom (ud_values ?u)) \<le> MAX_KEYS" using True u fcard_finsert_le [of key "fmdom (ud_values u)"] by (simp add: undo_inv_def)
      have "slots b key = v" if "key \<noteq> [0]" using that u True r(4) Inr by (simp add: undo_inv_def)
      then show ?thesis using uc card that assms(1) by (auto simp: undo_inv_def)
    qed
    ultimately show ?thesis using True r Inr uc by (auto simp: undo_capture_def Let_def fset_fmdom)
  qed
qed

end
