(* ===== verification/Bbg_Native.thy ===== *)
theory Bbg_Native
  imports Bbg_Undo
begin

text \<open>
  Correctness of native transitions: whatever a batch does and wherever it stops, dropping it gives back the graph it
  started from, and its write set is exactly what differs.
\<close>

section \<open>What a signal writes\<close>

lemma foldl_other:
  assumes "\<And>m l. l \<in> set ls \<Longrightarrow> fmlookup (f m l) k = fmlookup m k"
  shows "fmlookup (foldl f m ls) k = fmlookup m k"
  using assms by (induction ls arbitrary: m) simp_all

definition addresses :: "(u8 \<times> bytes) list \<Rightarrow> bytes set" where
  "addresses ks = (\<lambda>(d, k). record_key d k) ` set ks"

lemma addresses_simps [simp]:
  "addresses [] = {}" "addresses ((d, k) # ks) = insert (d # k) (addresses ks)" "addresses (xs @ ys) = addresses xs \<union> addresses ys"
  by (simp_all add: addresses_def record_key_def image_Un)

lemma addresses_concat: "addresses (concat kss) = (\<Union>ks \<in> set kss. addresses ks)"
  by (induction kss) simp_all

lemma link_others:
  assumes "addresses (capture_link X l) \<inter> {d # e} = {}"
  shows "d = 1 \<Longrightarrow> e = be_bytes 32 k \<Longrightarrow> fmlookup (link_particles X m l) k = fmlookup m k"
    "d = 2 \<Longrightarrow> e = be_bytes 32 k \<Longrightarrow> fmlookup (list_add (cl_from l) a ma) k = fmlookup ma k"
    "d = 3 \<Longrightarrow> e = be_bytes 32 k \<Longrightarrow> fmlookup (list_add (cl_to l) a ma) k = fmlookup ma k"
    "d = 13 \<Longrightarrow> e = be_bytes 32 k \<Longrightarrow> fmlookup (link_balances X mb l) k = fmlookup mb k"
    "d = 15 \<Longrightarrow> e = be_bytes 32 k \<Longrightarrow> fmlookup (link_edges X me l) k = fmlookup me k"
  using assms
  by (auto simp: capture_link_def Let_def link_particles_def list_add_def link_balances_def with_balance_def link_edges_def split: option.split)

lemma link_neurons_other: "k \<noteq> nu \<Longrightarrow> fmlookup (link_neurons nu m l) k = fmlookup m k"
  by (simp add: link_neurons_def split: option.split)

lemma moves_other: "11 # be_bytes 32 k \<notin> addresses (concat (map capture_move mvs)) \<Longrightarrow> fmlookup (moves_commitments X m mvs) k = fmlookup m k"
  by (induction mvs arbitrary: m) (auto simp: capture_move_def split: option.splits)

lemma nullifiers_other:
  assumes "12 # be_bytes 32 k \<notin> addresses (concat (map capture_move mvs))"
  shows "k \<notin> bm_nullifier ` set mvs"
  using assms by (induction mvs) (auto simp: capture_move_def)

lemma touch_other: "16 # be_bytes 32 k \<notin> addresses (concat (map (capture_link X) ls)) \<Longrightarrow>
    fmlookup (ps_last_touched (touch_links X ep ps ls)) k = fmlookup (ps_last_touched ps) k"
  by (induction ls arbitrary: ps) (auto simp: capture_link_def Let_def prune_touch_def)

lemma not_in_links: "d # e \<notin> addresses (concat (map (capture_link X) ls)) \<Longrightarrow> l \<in> set ls \<Longrightarrow> addresses (capture_link X l) \<inter> {d # e} = {}"
  by (auto simp: addresses_concat)

lemma unit_lookup_eq: "kset_contains s k = kset_contains s' k \<Longrightarrow> fmlookup (kd_map s) k = fmlookup (kd_map s') k"
  by (cases "fmlookup (kd_map s) k"; cases "fmlookup (kd_map s') k") (simp_all add: kset_contains_def)

lemma state_insert_frame:
  assumes inv: "state_inv X (n + 2 * length (sg_box_moves s) + 4 * length (sg_links s)) (bb_state c)"
    and r: "state_insert X (bb_state c) s = Some (st, Inr ())"
    and K: "addresses (signal_captures X c s key) \<subseteq> K" and ps: "\<And>k. 16 # be_bytes 32 k \<notin> K \<Longrightarrow> fmlookup (ps_last_touched ps) k = fmlookup (ps_last_touched (bb_prune_state c)) k"
  shows "frame K c (c\<lparr>bb_state := st, bb_prune_state := ps\<rparr>)"
proof -
  have "\<not> spends (bb_state c) s" using r by (auto simp: state_insert_def spends_def split: if_splits)
  from state_insert_nullifiers [OF inv this] r
  have nf: "{k. kset_contains (st_nullifiers st) k} = {k. kset_contains (st_nullifiers (bb_state c)) k} \<union> bm_nullifier ` set (sg_box_moves s)"
    and cm: "kd_map (st_commitments st) = moves_commitments X (kd_map (st_commitments (bb_state c))) (sg_box_moves s)"
    and ef: "links_effect X (sg_neuron s) (sg_links s) ((bb_state c)\<lparr>st_nullifiers := st_nullifiers st, st_commitments := st_commitments st\<rparr>) st"
    by auto
  have ks: "addresses (concat (map capture_move (sg_box_moves s))) \<subseteq> K" "addresses (concat (map (capture_link X) (sg_links s))) \<subseteq> K"
    "4 # be_bytes 32 (sg_neuron s) \<in> K"
    using K by (auto simp: signal_captures_def)
  have links: "addresses (capture_link X l) \<inter> {d # e} = {}" if "d # e \<notin> K" "l \<in> set (sg_links s)" for d e l
    using not_in_links [of d e X "sg_links s" l] that ks(2) by blast
  have nu: "fmlookup (kd_map (st_nullifiers st)) k = fmlookup (kd_map (st_nullifiers (bb_state c))) k" if "12 # be_bytes 32 k \<notin> K" for k
  proof (rule unit_lookup_eq)
    have "k \<notin> bm_nullifier ` set (sg_box_moves s)" using nullifiers_other [of k "sg_box_moves s"] that ks(1) by blast
    then show "kset_contains (st_nullifiers st) k = kset_contains (st_nullifiers (bb_state c)) k" using nf by blast
  qed
  have co: "fmlookup (kd_map (st_commitments st)) k = fmlookup (kd_map (st_commitments (bb_state c))) k" if "11 # be_bytes 32 k \<notin> K" for k
    using moves_other [of k "sg_box_moves s" X "kd_map (st_commitments (bb_state c))"] that ks(1) cm by auto
  show ?thesis
    using ef ks(3) nu ps co
    by (intro frameI) (auto simp: links_effect_def rest_same_def intro!: foldl_other link_others [OF links] link_neurons_other)
qed

lemma bbg_insert_frame:
  assumes inv: "state_inv X (n + 2 * length (sg_box_moves s) + 4 * length (sg_links s)) (bb_state c)"
    and K: "addresses (signal_captures X c s key) \<subseteq> K"
  shows "\<exists>c' r. bbg_insert X c s = Some (c', r) \<and> state_inv X n (bb_state c') \<and> frame K c c' \<and> bb_checkpoint c' = bb_checkpoint c \<and>
    st_height (bb_state c') = st_height (bb_state c)"
proof -
  obtain st r where st: "state_insert X (bb_state c) s = Some (st, r)" "state_inv X n st" "st_height st = st_height (bb_state c)"
    using state_insert_links_ok [OF inv] by blast
  show ?thesis
  proof (cases r)
    case (Inl e)
    then have "st = bb_state c" using st(1) by (auto simp: state_insert_def split: if_splits Option.bind_splits)
    then show ?thesis using st Inl by (simp add: bbg_insert_def)
  next
    case (Inr u)
    let ?ps = "touch_links X (st_height st div EPOCH_BLOCKS) (bb_prune_state c) (sg_links s)"
    have "addresses (concat (map (capture_link X) (sg_links s))) \<subseteq> K" using K by (auto simp: signal_captures_def)
    then have "frame K c (c\<lparr>bb_state := st, bb_prune_state := ?ps\<rparr>)"
      using st(1) Inr by (intro state_insert_frame [OF inv _ K]) (auto intro: touch_other)
    then show ?thesis using st Inr by (simp add: bbg_insert_def Let_def)
  qed
qed

lemma remove_axon_frame:
  assumes inv: "state_inv X (n + 2) (bb_state c)" and K: "addresses (prune_captures c aid) \<subseteq> K"
  shows "\<exists>st ps. remove_axon (bb_state c) (bb_prune_state c) aid = Some (st, ps) \<and> state_inv X n st \<and>
    frame K c (c\<lparr>bb_state := st, bb_prune_state := ps\<rparr>) \<and> st_height st = st_height (bb_state c)"
proof -
  obtain st ps where r: "remove_axon (bb_state c) (bb_prune_state c) aid = Some (st, ps)" "state_inv X n st" "unpruned (bb_state c) st"
    "kd_map (st_particles st) = fmdrop aid (kd_map (st_particles (bb_state c)))" "ps_last_touched ps = fmdrop aid (ps_last_touched (bb_prune_state c))"
    "st_axon_edges st = fmdrop aid (st_axon_edges (bb_state c))"
    using remove_axon_ok [OF inv] by blast
  have ks: "1 # be_bytes 32 aid \<in> K" "15 # be_bytes 32 aid \<in> K" "16 # be_bytes 32 aid \<in> K"
    using K by (auto simp: prune_captures_def)
  have put: "q = p \<or> fmlookup (ax_map ix') q = fmlookup (ax_map ix) q" if "axon_ok X ix" "axon_remove_axon ix p aid = Some (ix', w)" for ix ix' p q w
    using axon_remove_axon_ok [OF that(1), of p aid] that(2) by (auto split: if_splits)
  have out: "fmlookup (ax_map (st_axons_out st)) q = fmlookup (ax_map (st_axons_out (bb_state c))) q" if "2 # be_bytes 32 q \<notin> K" for q
    using r(1) K that
    by (auto simp: remove_axon_def prune_captures_def Let_def split: option.splits Option.bind_splits
        dest!: put [OF state_inv_axons(1) [OF inv], where q = q])
  have inn: "fmlookup (ax_map (st_axons_in st)) q = fmlookup (ax_map (st_axons_in (bb_state c))) q" if "3 # be_bytes 32 q \<notin> K" for q
    using r(1) K that
    by (auto simp: remove_axon_def prune_captures_def Let_def split: option.splits Option.bind_splits
        dest!: put [OF state_inv_axons(2) [OF inv], where q = q])
  have "frame K c (c\<lparr>bb_state := st, bb_prune_state := ps\<rparr>)"
    using r(3-6) ks out inn by (intro frameI) (auto simp: unpruned_def rest_same_def)
  then show ?thesis using r(1,2,3) by (simp add: unpruned_def)
qed

section \<open>Steps keep the log sound\<close>

definition kept :: "prepared \<Rightarrow> bytes set" where
  "kept p = (case pp_undo p of None \<Rightarrow> {} | Some u \<Rightarrow> fset (fmdom (ud_values u)))"

definition prep_ok :: "ext \<Rightarrow> bbg \<Rightarrow> nat \<Rightarrow> prepared \<Rightarrow> bool" where
  "prep_ok X b n p \<longleftrightarrow> (\<exists>u. pp_undo p = Some u \<and> undo_inv b u (pp_bbg p)) \<and> state_inv X n (bb_state (pp_bbg p)) \<and> pp_changes p = []"

text \<open>A step returns, keeps the log sound whatever its result, and gives \<open>Q\<close> when it succeeds.\<close>

definition runs :: "ext \<Rightarrow> bbg \<Rightarrow> nat \<Rightarrow> (prepared \<Rightarrow> bool) \<Rightarrow> step \<Rightarrow> bool" where
  "runs X b n Q r \<longleftrightarrow> (\<exists>p res. r = Some (p, res) \<and> prep_ok X b n p \<and> (res = Inr () \<longrightarrow> Q p))"

lemma prep_ok_mono: "prep_ok X b m p \<Longrightarrow> n \<le> m \<Longrightarrow> prep_ok X b n p"
  by (auto simp: prep_ok_def intro: state_inv_mono)

lemma runs_return: "prep_ok X b n p \<Longrightarrow> (res = Inr () \<Longrightarrow> Q p) \<Longrightarrow> runs X b n Q (Some (p, res))"
  by (simp add: runs_def)

lemma runs_then:
  assumes "runs X b m P r" and "n \<le> m" and "\<And>p. prep_ok X b m p \<Longrightarrow> P p \<Longrightarrow> runs X b n Q (f p)"
  shows "runs X b n Q (then_step r f)"
proof -
  obtain p res where "r = Some (p, res)" "prep_ok X b m p" "res = Inr () \<longrightarrow> P p" using assms(1) by (auto simp: runs_def)
  then show ?thesis
    using assms(2,3) by (cases res) (auto simp: then_step_def runs_def intro: prep_ok_mono)
qed

lemma runs_weaken: "runs X b m P r \<Longrightarrow> n \<le> m \<Longrightarrow> (\<And>p. P p \<Longrightarrow> Q p) \<Longrightarrow> runs X b n Q r"
  by (auto simp: runs_def intro: prep_ok_mono)

text \<open>A change of captured addresses.\<close>

lemma prep_ok_change:
  assumes "prep_ok X b n p" and "frame (kept p) (pp_bbg p) c" and "state_inv X m (bb_state c)"
  shows "prep_ok X b m (p\<lparr>pp_bbg := c\<rparr>)"
  using assms undo_inv_frame by (auto simp: prep_ok_def kept_def)

abbreviation captured_after :: "prepared \<Rightarrow> bytes set \<Rightarrow> prepared \<Rightarrow> bool" where
  "captured_after p K p' \<equiv> same_bbg (pp_bbg p) (pp_bbg p') \<and> kept p \<union> K \<subseteq> kept p' \<and> pp_snapshots p' = pp_snapshots p"

lemma capture_runs:
  assumes "prep_ok X b n p" and "wf_key (d # k)" and "hemera_laws X"
  shows "runs X b n (captured_after p {d # k}) (prepared_capture X d k p)"
proof -
  obtain u where u: "pp_undo p = Some u" "undo_inv b u (pp_bbg p)" "state_inv X n (bb_state (pp_bbg p))" "pp_changes p = []"
    using assms(1) by (auto simp: prep_ok_def)
  obtain c' u' r where "undo_capture X u (pp_bbg p) (d # k) = Some (c', u', r)" "same_bbg (pp_bbg p) c'" "state_inv X n (bb_state c')" "undo_inv b u' c'"
    "fset (fmdom (ud_values u)) \<subseteq> fset (fmdom (ud_values u'))" "r = Inr () \<longrightarrow> d # k \<in> fset (fmdom (ud_values u'))"
    using undo_capture_ok [OF assms(2) u(3) assms(3) u(2)] by blast
  then show ?thesis using u by (simp add: runs_def prepared_capture_def record_key_def prep_ok_def kept_def)
qed

lemma capture_each_runs:
  assumes "prep_ok X b n p" and "\<forall>key \<in> addresses ks. wf_key key" and "hemera_laws X"
  shows "runs X b n (captured_after p (addresses ks)) (capture_each X ks p)"
  using assms(1,2)
proof (induction ks arbitrary: p)
  case Nil
  then show ?case by (simp add: runs_return)
next
  case (Cons dk ks)
  obtain d k where dk: "dk = (d, k)" by force
  have wf: "wf_key (d # k)" "\<forall>key \<in> addresses ks. wf_key key" using Cons.prems(2) by (simp_all add: dk)
  have "runs X b n (captured_after p (addresses ((d, k) # ks))) (then_step (prepared_capture X d k p) (capture_each X ks))"
  proof (rule runs_then [OF capture_runs [OF Cons.prems(1) wf(1) assms(3)] order_refl])
    fix q
    assume q: "prep_ok X b n q" "captured_after p {d # k} q"
    show "runs X b n (captured_after p (addresses ((d, k) # ks))) (capture_each X ks q)"
      by (rule runs_weaken [OF Cons.IH [OF q(1) wf(2)] order_refl]) (use q(2) in \<open>auto intro: same_bbg_trans\<close>)
  qed
  then show ?case by (simp add: dk)
qed

lemma signal_captures_wf: "key' \<in> addresses (signal_captures X c s key) \<Longrightarrow> wf_key key'"
  by (auto simp: signal_captures_def capture_move_def capture_link_def Let_def addresses_concat wf_key_def entity_domains_def split: option.splits)

lemma prune_captures_wf: "key \<in> addresses (prune_captures c aid) \<Longrightarrow> wf_key key"
  by (auto simp: prune_captures_def wf_key_def entity_domains_def split: option.splits)

section \<open>Events\<close>

lemma signal_record_frame:
  assumes "state_inv X (n + 2) (bb_state c)" and "10 # be_bytes 32 (signal_key X (sr_neuron r) (sr_step r)) \<in> K"
  shows "frame K c (fst (bbg_apply_signal_record X c r)) \<and> state_inv X n (bb_state (fst (bbg_apply_signal_record X c r)))"
proof -
  let ?c = "fst (bbg_apply_signal_record X c r)"
  have c: "?c = c\<lparr>bb_state := (bb_state c)\<lparr>st_signals := fst (keyed_insert (st_signals (bb_state c)) (signal_key X (sr_neuron r) (sr_step r)) r)\<rparr>\<rparr>"
    by (simp add: bbg_apply_signal_record_def apply_signal_record_def Let_def)
  have "state_evolves X 2 (bb_state c) (bb_state ?c)" by (simp add: c state_evolves_def insert_evolves)
  then have "state_inv X n (bb_state ?c)" using state_inv_evolves assms(1) by blast
  moreover have "frame K c ?c" unfolding c by (rule frameI) (use assms(2) in \<open>auto simp: rest_same_def\<close>)
  ultimately show ?thesis by simp
qed

text \<open>The snapshot of the root under the height, and the next height.\<close>

lemma stamp_frame:
  assumes "state_inv X (n + 2) (bb_state c)" and "hemera_laws X" and "9 # be_bytes 8 (st_height (bb_state c)) \<in> K"
  shows "\<exists>st r. state_root X (bb_state c) = Some (st, r) \<and>
    (\<forall>h. state_inv X n (st\<lparr>st_time := fst (keyed_insert (st_time st) (st_height (bb_state c)) r), st_height := h\<rparr>) \<and>
      frame K c (c\<lparr>bb_state := st\<lparr>st_time := fst (keyed_insert (st_time st) (st_height (bb_state c)) r), st_height := h\<rparr>\<rparr>))"
proof -
  obtain st where st: "state_root X (bb_state c) = Some (st, root_spec X (bb_state c))" "state_inv X (n + 2) st" "same_records (bb_state c) st"
    using state_root_ok [OF assms(1,2)] by blast
  let ?st = "st\<lparr>st_time := fst (keyed_insert (st_time st) (st_height (bb_state c)) (root_spec X (bb_state c)))\<rparr>"
  have "state_evolves X 2 st ?st" by (simp add: state_evolves_def insert_evolves)
  then have inv: "state_inv X n (?st\<lparr>st_height := h\<rparr>)" for h using state_inv_evolves [OF st(2)] by (simp only: state_inv_fields)
  have "frame K c (c\<lparr>bb_state := ?st\<lparr>st_height := h\<rparr>\<rparr>)" for h
    by (rule frameI) (use st(3) assms(3) in \<open>auto simp: same_records_def rest_same_def\<close>)
  then show ?thesis using st(1) inv by simp
qed

lemma signal_apply_runs:
  assumes p: "prep_ok X b (n + 2 + 2 + 2 * length (sg_box_moves s) + 4 * length (sg_links s)) p" and h: "hemera_laws X"
    and K: "addresses (signal_captures X (pp_bbg p) s (signal_key X (sr_neuron header) (sr_step header))) \<subseteq> kept p"
  shows "runs X b n (\<lambda>p'. pp_snapshots p' = pp_snapshots p) (signal_apply X s header p)"
proof -
  let ?c = "pp_bbg p" and ?K = "kept p"
  have inv: "state_inv X (n + 2 + 2 + 2 * length (sg_box_moves s) + 4 * length (sg_links s)) (bb_state ?c)" using p by (simp add: prep_ok_def)
  obtain c1 r where c1: "bbg_insert X ?c s = Some (c1, r)" "state_inv X (n + 2 + 2) (bb_state c1)" "frame ?K ?c c1" "st_height (bb_state c1) = st_height (bb_state ?c)"
    using bbg_insert_frame [OF inv K] by blast
  show ?thesis
  proof (cases r)
    case (Inl e)
    have "prep_ok X b n (p\<lparr>pp_bbg := c1\<rparr>)" by (rule prep_ok_change [OF p c1(3)], rule state_inv_mono [OF c1(2)]) simp
    then show ?thesis using c1(1) Inl by (simp add: signal_apply_def runs_def)
  next
    case (Inr u)
    let ?r = "\<lparr>sr_neuron = sr_neuron header, sr_network = sr_network header, sr_link_count = sr_link_count header,
      sr_block_height = sr_block_height header, sr_proof_hash = sr_proof_hash header, sr_step = sr_step header\<rparr>"
    let ?c2 = "fst (bbg_apply_signal_record X c1 ?r)"
    have ks: "10 # be_bytes 32 (signal_key X (sr_neuron ?r) (sr_step ?r)) \<in> ?K" "9 # be_bytes 8 (st_height (bb_state ?c2)) \<in> ?K"
      using K c1(4) by (simp_all add: signal_captures_def bbg_apply_signal_record_def apply_signal_record_def Let_def)
    have c2: "frame ?K c1 ?c2" "state_inv X (n + 2) (bb_state ?c2)" using signal_record_frame [OF c1(2) ks(1)] by auto
    obtain st rt where st: "state_root X (bb_state ?c2) = Some (st, rt)"
      "state_inv X n (st\<lparr>st_time := fst (keyed_insert (st_time st) (st_height (bb_state ?c2)) rt), st_height := st_height st + 1\<rparr>)"
      "frame ?K ?c2 (?c2\<lparr>bb_state := st\<lparr>st_time := fst (keyed_insert (st_time st) (st_height (bb_state ?c2)) rt), st_height := st_height st + 1\<rparr>\<rparr>)"
      using stamp_frame [OF c2(2) h ks(2)] by blast
    have "prep_ok X b n (p\<lparr>pp_bbg := ?c2\<lparr>bb_state := st\<lparr>st_time := fst (keyed_insert (st_time st) (st_height (bb_state ?c2)) rt), st_height := st_height st + 1\<rparr>\<rparr>\<rparr>)"
      by (rule prep_ok_change [OF p]) (use c1(3) c2(1) st(2,3) in \<open>auto intro: frame_trans\<close>)
    then show ?thesis using c1(1) Inr st(1) by (simp add: signal_apply_def runs_def Let_def case_prod_beta)
  qed
qed

lemma advance_runs:
  assumes p: "prep_ok X b n p" and h: "hemera_laws X" and acc: "cp_acc (bb_checkpoint b) = None"
  shows "\<exists>p'. advance_checkpoint X p = Some p' \<and> prep_ok X b n p' \<and> pp_snapshots p' = pp_snapshots p"
proof -
  have inv: "state_inv X n (bb_state (pp_bbg p))" using p by (simp add: prep_ok_def)
  obtain st where st: "compute_root X (bb_state (pp_bbg p)) = Some (st, root_spec X (bb_state (pp_bbg p)))" "state_inv X n st" "same_records (bb_state (pp_bbg p)) st"
    using compute_root_inv [OF inv h] by blast
  obtain st' where st': "checkpoint_advance X (bb_checkpoint (pp_bbg p)) st = Some (st', \<lparr>cp_root = root_spec X st, cp_acc = None, cp_height = st_height st\<rparr>)"
    "state_inv X n st'" "same_records st st'"
    using checkpoint_ok [OF st(2) h] by blast
  let ?c = "(pp_bbg p)\<lparr>bb_state := st', bb_checkpoint := \<lparr>cp_root = root_spec X st, cp_acc = None, cp_height = st_height st\<rparr>\<rparr>"
  have "frame (kept p) (pp_bbg p) ?c"
    by (rule frameI) (use same_records_trans [OF st(3) st'(3)] p acc in \<open>auto simp: same_records_def rest_same_def prep_ok_def undo_inv_def\<close>)
  then have "prep_ok X b n (p\<lparr>pp_bbg := ?c\<rparr>)" using st'(2) by (intro prep_ok_change [OF p]) simp_all
  then show ?thesis using st(1) st'(1) by (simp add: advance_checkpoint_def refresh_root_def)
qed


lemma prune_loop_runs:
  assumes "prep_ok X b (n + 2 * length ids) p" and h: "hemera_laws X"
  shows "runs X b n (\<lambda>p'. pp_snapshots p' = pp_snapshots p) (prepared_prune_loop X over ids p)"
  using assms(1)
proof (induction ids arbitrary: p)
  case Nil
  then show ?case by (simp add: runs_return)
next
  case (Cons aid ids)
  show ?case
  proof (cases "over \<and> estimate_bytes (bb_state (pp_bbg p)) \<le> pc_max_bytes (bb_prune_config (pp_bbg p))")
    case True
    then show ?thesis using prep_ok_mono [OF Cons.prems] by (simp add: runs_return)
  next
    case False
    have wf: "\<forall>key \<in> addresses (prune_captures (pp_bbg p) aid). wf_key key" using prune_captures_wf by blast
    have "runs X b n (\<lambda>p'. pp_snapshots p' = pp_snapshots p) (then_step (capture_each X (prune_captures (pp_bbg p) aid) p) (\<lambda>p. do {
        (st, ps) \<leftarrow> remove_axon (bb_state (pp_bbg p)) (bb_prune_state (pp_bbg p)) aid;
        prepared_prune_loop X over ids (p\<lparr>pp_bbg := (pp_bbg p)\<lparr>bb_state := st, bb_prune_state := ps\<rparr>\<rparr>) }))"
    proof (rule runs_then [OF capture_each_runs [OF Cons.prems wf h]])
      fix q
      assume q: "prep_ok X b (n + 2 * length (aid # ids)) q" "captured_after p (addresses (prune_captures (pp_bbg p) aid)) q"
      have "prune_captures (pp_bbg q) aid = prune_captures (pp_bbg p) aid"
        using q(2) by (simp add: prune_captures_def same_bbg_def same_records_def)
      then have K: "addresses (prune_captures (pp_bbg q) aid) \<subseteq> kept q" using q(2) by simp
      have "state_inv X (n + 2 * length ids + 2) (bb_state (pp_bbg q))" using q(1) by (simp add: prep_ok_def add.assoc)
      then obtain st ps where r: "remove_axon (bb_state (pp_bbg q)) (bb_prune_state (pp_bbg q)) aid = Some (st, ps)" "state_inv X (n + 2 * length ids) st"
        "frame (kept q) (pp_bbg q) ((pp_bbg q)\<lparr>bb_state := st, bb_prune_state := ps\<rparr>)"
        using remove_axon_frame [OF _ K] by blast
      let ?q = "q\<lparr>pp_bbg := (pp_bbg q)\<lparr>bb_state := st, bb_prune_state := ps\<rparr>\<rparr>"
      have "prep_ok X b (n + 2 * length ids) ?q" using r(2,3) by (intro prep_ok_change [OF q(1)]) simp_all
      from Cons.IH [OF this] show "runs X b n (\<lambda>p'. pp_snapshots p' = pp_snapshots p) (do {
        (st, ps) \<leftarrow> remove_axon (bb_state (pp_bbg q)) (bb_prune_state (pp_bbg q)) aid;
        prepared_prune_loop X over ids (q\<lparr>pp_bbg := (pp_bbg q)\<lparr>bb_state := st, bb_prune_state := ps\<rparr>\<rparr>) })"
        using r(1) q(2) by simp
    qed simp
    then show ?thesis unfolding prepared_prune_loop.simps if_not_P [OF False] .
  qed
qed

lemma candidates_bounded:
  "(\<exists>over ids. candidates st ps config epoch limit = Some (Inr (over, ids)) \<and> length ids \<le> limit) \<or> candidates st ps config epoch limit = Some (Inl ())"
proof -
  obtain flr where "rank_floor st (pc_rank_floor_pct config) = Some flr" using rank_floor_ex by blast
  then show ?thesis by (auto simp: candidates_def Let_def collect_bounded_eq split: if_splits)
qed

lemma prune_runs:
  assumes "prep_ok X b (n + 2 * MAX_KEYS) p" and "hemera_laws X"
  shows "runs X b n (\<lambda>p'. pp_snapshots p' = pp_snapshots p) (prepared_prune X p)"
  using candidates_bounded [of "bb_state (pp_bbg p)" "bb_prune_state (pp_bbg p)" "bb_prune_config (pp_bbg p)" "st_height (bb_state (pp_bbg p)) div EPOCH_BLOCKS" MAX_KEYS]
proof
  assume "candidates (bb_state (pp_bbg p)) (bb_prune_state (pp_bbg p)) (bb_prune_config (pp_bbg p)) (st_height (bb_state (pp_bbg p)) div EPOCH_BLOCKS) MAX_KEYS = Some (Inl ())"
  then show ?thesis using prep_ok_mono [OF assms(1)] by (simp add: prepared_prune_def Let_def runs_return)
next
  assume "\<exists>over ids. candidates (bb_state (pp_bbg p)) (bb_prune_state (pp_bbg p)) (bb_prune_config (pp_bbg p)) (st_height (bb_state (pp_bbg p)) div EPOCH_BLOCKS) MAX_KEYS =
    Some (Inr (over, ids)) \<and> length ids \<le> MAX_KEYS"
  then obtain over ids where c: "candidates (bb_state (pp_bbg p)) (bb_prune_state (pp_bbg p)) (bb_prune_config (pp_bbg p)) (st_height (bb_state (pp_bbg p)) div EPOCH_BLOCKS) MAX_KEYS =
    Some (Inr (over, ids))" "length ids \<le> MAX_KEYS"
    by blast
  have "prep_ok X b (n + 2 * length ids) p" using c(2) by (intro prep_ok_mono [OF assms(1)]) simp
  then show ?thesis using prune_loop_runs [OF _ assms(2)] c(1) by (simp add: prepared_prune_def Let_def)
qed


lemma validate_size: "validate X c s key header = Inr () \<Longrightarrow> length (sg_links s) + length (sg_box_moves s) \<le> MAX_KEYS"
  by (auto simp: validate_def result_simps)

text \<open>The trie nodes one event may need.\<close>

definition EVENT_ROOM :: nat where "EVENT_ROOM = 2 ^ 19"

lemma signal_runs:
  assumes p: "prep_ok X b (n + EVENT_ROOM) p" and h: "hemera_laws X" and acc: "cp_acc (bb_checkpoint b) = None"
  shows "runs X b n (\<lambda>p'. pp_snapshots p' = pp_snapshots p) (prepared_signal X s header p)"
proof (cases "validate X (pp_bbg p) s (signal_key X (sr_neuron header) (sr_step header)) header")
  case (Inl e)
  then show ?thesis using prep_ok_mono [OF p] by (simp add: prepared_signal_def runs_return)
next
  case (Inr u)
  let ?key = "signal_key X (sr_neuron header) (sr_step header)"
  let ?Q = "\<lambda>p'. pp_snapshots p' = pp_snapshots p"
  let ?m = "n + 2 * MAX_KEYS + 2 + 2 + 2 * length (sg_box_moves s) + 4 * length (sg_links s)"
  have "?m \<le> n + EVENT_ROOM" using validate_size [of X "pp_bbg p" s ?key header] Inr by (simp add: MAX_KEYS_def EVENT_ROOM_def)
  then have pm: "prep_ok X b ?m p" by (rule prep_ok_mono [OF p])
  have wf: "\<forall>k \<in> addresses (signal_captures X (pp_bbg p) s ?key). wf_key k" using signal_captures_wf by blast
  have "runs X b n ?Q (then_step (capture_each X (signal_captures X (pp_bbg p) s ?key) p) (\<lambda>p.
      then_step (signal_apply X s header p) (\<lambda>p.
      then_step (if st_height (bb_state (pp_bbg p)) mod EPOCH_BLOCKS = 0 then prepared_prune X p else Some (p, Inr ())) (\<lambda>p.
      do { p \<leftarrow> advance_checkpoint X p; Some (p, Inr ()) }))))"
  proof (rule runs_then [OF capture_each_runs [OF pm wf h]])
    fix q
    assume q: "prep_ok X b ?m q" "captured_after p (addresses (signal_captures X (pp_bbg p) s ?key)) q"
    have "signal_captures X (pp_bbg q) s ?key = signal_captures X (pp_bbg p) s ?key"
      using q(2) by (simp add: signal_captures_def same_bbg_def same_records_def)
    then have K: "addresses (signal_captures X (pp_bbg q) s ?key) \<subseteq> kept q" using q(2) by simp
    show "runs X b n ?Q (then_step (signal_apply X s header q) (\<lambda>p.
      then_step (if st_height (bb_state (pp_bbg p)) mod EPOCH_BLOCKS = 0 then prepared_prune X p else Some (p, Inr ())) (\<lambda>p.
      do { p \<leftarrow> advance_checkpoint X p; Some (p, Inr ()) })))"
    proof (rule runs_then [OF signal_apply_runs [OF q(1) h K]])
      fix q1
      assume q1: "prep_ok X b (n + 2 * MAX_KEYS) q1" "pp_snapshots q1 = pp_snapshots q"
      have "runs X b n (\<lambda>p'. pp_snapshots p' = pp_snapshots q1)
          (if st_height (bb_state (pp_bbg q1)) mod EPOCH_BLOCKS = 0 then prepared_prune X q1 else Some (q1, Inr ()))"
        using prune_runs [OF q1(1) h] prep_ok_mono [OF q1(1)] by (simp add: runs_return)
      then show "runs X b n ?Q (then_step (if st_height (bb_state (pp_bbg q1)) mod EPOCH_BLOCKS = 0 then prepared_prune X q1 else Some (q1, Inr ())) (\<lambda>p.
        do { p \<leftarrow> advance_checkpoint X p; Some (p, Inr ()) }))"
      proof (rule runs_then [OF _ order_refl])
        fix q2
        assume "prep_ok X b n q2" "pp_snapshots q2 = pp_snapshots q1"
        then show "runs X b n ?Q (do { p \<leftarrow> advance_checkpoint X q2; Some (p, Inr ()) })"
          using advance_runs [OF _ h acc, of n q2] q1(2) q(2) by (auto simp: runs_def)
      qed
    qed simp
  qed simp
  then show ?thesis using Inr by (simp add: prepared_signal_def Let_def)
qed

lemma intent_runs:
  assumes p: "prep_ok X b n p" and h: "hemera_laws X"
  shows "runs X b n (\<lambda>p'. pp_snapshots p' = pp_snapshots p) (prepared_intent X i p)"
proof -
  let ?key = "intent_key X (ir_neuron i) (ir_h0 i) (ir_scope_hash i)"
  have wf: "wf_key (14 # be_bytes 32 ?key)" by (auto simp: wf_key_def entity_domains_def)
  have "runs X b n (\<lambda>p'. pp_snapshots p' = pp_snapshots p) (then_step (prepared_capture X 14 (be_bytes 32 ?key) p) (\<lambda>p.
        Some (p\<lparr>pp_bbg := fst (bbg_apply_intent X (pp_bbg p) i)\<rparr>, Inr ())))"
  proof (rule runs_then [OF capture_runs [OF p wf h] order_refl])
    fix q
    assume q: "prep_ok X b n q" "captured_after p {14 # be_bytes 32 ?key} q"
    have "frame (kept q) (pp_bbg q) (fst (bbg_apply_intent X (pp_bbg q) i))"
      by (rule frameI) (use q(2) in \<open>auto simp: bbg_apply_intent_def apply_intent_def Let_def rest_same_def\<close>)
    moreover have "state_inv X n (bb_state (fst (bbg_apply_intent X (pp_bbg q) i)))"
      using q(1) by (simp add: prep_ok_def bbg_apply_intent_def apply_intent_def Let_def state_inv_fields)
    ultimately show "runs X b n (\<lambda>p'. pp_snapshots p' = pp_snapshots p) (Some (q\<lparr>pp_bbg := fst (bbg_apply_intent X (pp_bbg q) i)\<rparr>, Inr ()))"
      using q(2) by (intro runs_return prep_ok_change [OF q(1)]) simp_all
  qed
  then show ?thesis by (simp add: prepared_intent_def Let_def)
qed


lemma credit_change:
  assumes p: "prep_ok X b (n + 2) q" and K: "13 # be_bytes 32 key \<in> kept q" "4 # be_bytes 32 neuron \<in> kept q"
  shows "prep_ok X b n (q\<lparr>pp_bbg := (pp_bbg q)\<lparr>bb_state := (bb_state (pp_bbg q))\<lparr>
    st_balances := fst (keyed_insert (st_balances (bb_state (pp_bbg q))) key bal),
    st_neurons := keyed_or_insert (st_neurons (bb_state (pp_bbg q))) neuron dflt f\<rparr>\<rparr>\<rparr>)"
proof (rule prep_ok_change [OF p])
  let ?st = "(bb_state (pp_bbg q))\<lparr>st_balances := fst (keyed_insert (st_balances (bb_state (pp_bbg q))) key bal),
    st_neurons := keyed_or_insert (st_neurons (bb_state (pp_bbg q))) neuron dflt f\<rparr>"
  have "state_evolves X 2 (bb_state (pp_bbg q)) ?st" by (simp add: state_evolves_def insert_evolves)
  then have "state_inv X n ?st" using p state_inv_evolves unfolding prep_ok_def by blast
  then show "state_inv X n (bb_state ((pp_bbg q)\<lparr>bb_state := ?st\<rparr>))" by simp
  show "frame (kept q) (pp_bbg q) ((pp_bbg q)\<lparr>bb_state := ?st\<rparr>)"
    by (rule frameI) (use K in \<open>auto simp: rest_same_def\<close>)
qed

lemma credit_runs:
  assumes p: "prep_ok X b (n + 2) p" and h: "hemera_laws X" and acc: "cp_acc (bb_checkpoint b) = None"
  shows "runs X b n (\<lambda>p'. pp_snapshots p' = pp_snapshots p) (prepared_credit X neuron token amount focus p)"
proof -
  let ?key = "balance_key X neuron token" and ?Q = "\<lambda>p'. pp_snapshots p' = pp_snapshots p"
  have wf: "wf_key (13 # be_bytes 32 ?key)" "wf_key (4 # be_bytes 32 neuron)" by (auto simp: wf_key_def entity_domains_def)
  have "runs X b n ?Q (then_step (prepared_capture X 13 (be_bytes 32 ?key) p) (\<lambda>p.
      then_step (prepared_capture X 4 (be_bytes 32 neuron) p) (\<lambda>p. do {
        let st = bb_state (pp_bbg p);
        let st = st\<lparr>st_balances := fst (keyed_insert (st_balances st) ?key bal)\<rparr>;
        let st = st\<lparr>st_neurons := keyed_or_insert (st_neurons st) neuron dflt f\<rparr>;
        p \<leftarrow> advance_checkpoint X (p\<lparr>pp_bbg := (pp_bbg p)\<lparr>bb_state := st\<rparr>\<rparr>);
        Some (p, Inr ()) })))" for bal dflt f
  proof (rule runs_then [OF capture_runs [OF p wf(1) h]])
    fix q
    assume q: "prep_ok X b (n + 2) q" "captured_after p {13 # be_bytes 32 ?key} q"
    show "runs X b n ?Q (then_step (prepared_capture X 4 (be_bytes 32 neuron) q) (\<lambda>p. do {
        let st = bb_state (pp_bbg p);
        let st = st\<lparr>st_balances := fst (keyed_insert (st_balances st) ?key bal)\<rparr>;
        let st = st\<lparr>st_neurons := keyed_or_insert (st_neurons st) neuron dflt f\<rparr>;
        p \<leftarrow> advance_checkpoint X (p\<lparr>pp_bbg := (pp_bbg p)\<lparr>bb_state := st\<rparr>\<rparr>);
        Some (p, Inr ()) }))"
    proof (rule runs_then [OF capture_runs [OF q(1) wf(2) h]])
      fix r
      assume r: "prep_ok X b (n + 2) r" "captured_after q {4 # be_bytes 32 neuron} r"
      have "13 # be_bytes 32 ?key \<in> kept r" "4 # be_bytes 32 neuron \<in> kept r" using q(2) r(2) by auto
      from advance_runs [OF credit_change [OF r(1) this, where bal = bal and dflt = dflt and f = f] h acc]
      show "runs X b n ?Q (do {
        let st = bb_state (pp_bbg r);
        let st = st\<lparr>st_balances := fst (keyed_insert (st_balances st) ?key bal)\<rparr>;
        let st = st\<lparr>st_neurons := keyed_or_insert (st_neurons st) neuron dflt f\<rparr>;
        p \<leftarrow> advance_checkpoint X (r\<lparr>pp_bbg := (pp_bbg r)\<lparr>bb_state := st\<rparr>\<rparr>);
        Some (p, Inr ()) })"
        using q(2) r(2) by (auto simp: runs_def Let_def)
    qed simp
  qed simp
  then show ?thesis
    using prep_ok_mono [OF p] by (simp add: prepared_credit_def Let_def runs_return split: option.split)
qed

lemma event_runs:
  assumes "prep_ok X b (n + EVENT_ROOM) p" and "hemera_laws X" and "cp_acc (bb_checkpoint b) = None"
  shows "runs X b n (\<lambda>p'. pp_snapshots p' = pp_snapshots p) (prepared_event X ev p)"
  using signal_runs [OF assms] intent_runs [OF prep_ok_mono [OF assms(1)] assms(2)]
    credit_runs [OF prep_ok_mono [OF assms(1)] assms(2,3)]
  by (simp add: prepared_event_def EVENT_ROOM_def split: native_change.split)

definition current :: "ext \<Rightarrow> prepared \<Rightarrow> snapshot" where
  "current X p = \<lparr>sn_height = st_height (bb_state (pp_bbg p)), sn_root = root_spec X (bb_state (pp_bbg p))\<rparr>"

lemma push_runs:
  assumes p: "prep_ok X b n p" and h: "hemera_laws X"
  shows "\<exists>p'. push_snapshot X p = Some p' \<and> prep_ok X b n p' \<and> pp_snapshots p' = pp_snapshots p @ [current X p']"
proof -
  have inv: "state_inv X n (bb_state (pp_bbg p))" using p by (simp add: prep_ok_def)
  obtain st where st: "state_root X (bb_state (pp_bbg p)) = Some (st, root_spec X (bb_state (pp_bbg p)))" "state_inv X n st" "same_records (bb_state (pp_bbg p)) st"
    using state_root_ok [OF inv h] by blast
  have "same_bbg (pp_bbg p) ((pp_bbg p)\<lparr>bb_state := st\<rparr>)" using st(3) by (simp add: same_bbg_def)
  then have "frame (kept p) (pp_bbg p) ((pp_bbg p)\<lparr>bb_state := st\<rparr>)" by (rule frame_mono [OF same_bbg_frame]) simp
  then have "prep_ok X b n (p\<lparr>pp_bbg := (pp_bbg p)\<lparr>bb_state := st\<rparr>\<rparr>)" using st(2) by (intro prep_ok_change [OF p]) simp_all
  then have "prep_ok X b n (p\<lparr>pp_bbg := (pp_bbg p)\<lparr>bb_state := st\<rparr>, pp_snapshots := s\<rparr>)" for s by (simp add: prep_ok_def)
  then show ?thesis using st(1) root_spec_same [OF st(3)] by (simp add: push_snapshot_def current_def)
qed

lemma events_runs:
  assumes "prep_ok X b (n + EVENT_ROOM * length evs) p" and h: "hemera_laws X" and acc: "cp_acc (bb_checkpoint b) = None"
  shows "runs X b n (\<lambda>p'. length (pp_snapshots p') = length (pp_snapshots p) + length evs \<and>
    (evs \<noteq> [] \<longrightarrow> last (pp_snapshots p') = current X p')) (prepared_events X evs p)"
  using assms(1)
proof (induction evs arbitrary: p)
  case Nil
  then show ?case by (simp add: runs_return)
next
  case (Cons ev evs)
  have room: "prep_ok X b (n + EVENT_ROOM * length evs + EVENT_ROOM) p" using Cons.prems by (simp add: ac_simps)
  have "runs X b n (\<lambda>p'. length (pp_snapshots p') = length (pp_snapshots p) + length (ev # evs) \<and> last (pp_snapshots p') = current X p')
      (then_step (prepared_event X ev p) (\<lambda>p. do { p \<leftarrow> push_snapshot X p; prepared_events X evs p }))"
  proof (rule runs_then [OF event_runs [OF room h acc]])
    fix q
    assume q: "prep_ok X b (n + EVENT_ROOM * length evs) q" "pp_snapshots q = pp_snapshots p"
    obtain q' where q': "push_snapshot X q = Some q'" "prep_ok X b (n + EVENT_ROOM * length evs) q'" "pp_snapshots q' = pp_snapshots q @ [current X q']"
      using push_runs [OF q(1) h] by blast
    have "runs X b n (\<lambda>p'. length (pp_snapshots p') = length (pp_snapshots p) + length (ev # evs) \<and> last (pp_snapshots p') = current X p') (prepared_events X evs q')"
    proof (cases "evs = []")
      case True
      then show ?thesis using q'(2,3) q(2) by (simp add: runs_return)
    next
      case False
      then show ?thesis by (intro runs_weaken [OF Cons.IH [OF q'(2)] order_refl]) (simp add: q'(3) q(2))
    qed
    then show "runs X b n (\<lambda>p'. length (pp_snapshots p') = length (pp_snapshots p) + length (ev # evs) \<and> last (pp_snapshots p') = current X p')
        (do { p \<leftarrow> push_snapshot X q; prepared_events X evs p })"
      using q'(1) by simp
  qed simp
  then show ?case by simp
qed


section \<open>The write set\<close>

text \<open>The change at an address other than the metadata, among the changes of a transition.\<close>

abbreviation changed :: "prepared \<Rightarrow> bytes \<Rightarrow> bytes option \<Rightarrow> bool" where
  "changed p key v \<equiv> \<lparr>rc_key = key, rc_value = v\<rparr> \<in> set (pp_changes p)"

lemma collect_loop_ok:
  assumes "\<forall>e \<in> set es. wf_key (fst e)" and "state_inv X n (bb_state (pp_bbg p))" and h: "hemera_laws X"
  shows "\<exists>p' r. collect_loop X bytes es p = Some (p', r) \<and> pp_undo p' = pp_undo p \<and> same_bbg (pp_bbg p) (pp_bbg p') \<and>
    state_inv X n (bb_state (pp_bbg p')) \<and> pp_snapshots p' = pp_snapshots p \<and>
    (r = Inr () \<longrightarrow> (\<forall>key v. key \<noteq> [0] \<longrightarrow>
       (changed p' key v \<longleftrightarrow> changed p key v \<or> (\<exists>old. (key, old) \<in> set es \<and> v \<noteq> old \<and> v = slots (pp_bbg p) key))))"
  using assms(1,2)
proof (induction es arbitrary: p bytes)
  case (Cons e es)
  obtain key old where e: "e = (key, old)" by force
  have wf: "wf_key key" using Cons.prems(1) by (simp add: e)
  obtain c r where r: "bounded_read X (pp_bbg p) key = Some (c, r)" "same_bbg (pp_bbg p) c" "state_inv X n (bb_state c)"
    "\<forall>v. r = Inr v \<longrightarrow> key \<noteq> [0] \<longrightarrow> v = slots (pp_bbg p) key"
    using bounded_read_ok [OF wf Cons.prems(2) h] by blast
  have sl: "slots c k = slots (pp_bbg p) k" for k using same_bbg_frame [OF r(2)] by (simp add: frame_def)
  show ?case
  proof (cases r)
    case (Inl err)
    then show ?thesis using r(1-3) by (simp add: e)
  next
    case (Inr v)
    let ?p = "if v \<noteq> old then p\<lparr>pp_bbg := c, pp_changes := pp_changes p @ [\<lparr>rc_key = key, rc_value = v\<rparr>]\<rparr> else p\<lparr>pp_bbg := c\<rparr>"
    let ?n = "bytes + (length key + (case v of None \<Rightarrow> 0 | Some bs \<Rightarrow> length bs))"
    have bb: "pp_bbg ?p = c" "pp_undo ?p = pp_undo p" "pp_snapshots ?p = pp_snapshots p" by simp_all
    have "\<forall>e \<in> set es. wf_key (fst e)" "state_inv X n (bb_state (pp_bbg ?p))" using Cons.prems(1) r(3) by simp_all
    from Cons.IH [OF this, of "if v \<noteq> old then ?n else bytes"]
    obtain p' r' where p': "collect_loop X (if v \<noteq> old then ?n else bytes) es ?p = Some (p', r')" "pp_undo p' = pp_undo p" "same_bbg c (pp_bbg p')"
      "state_inv X n (bb_state (pp_bbg p'))" "pp_snapshots p' = pp_snapshots p"
      "r' = Inr () \<longrightarrow> (\<forall>k w. k \<noteq> [0] \<longrightarrow> (changed p' k w \<longleftrightarrow> changed ?p k w \<or> (\<exists>old. (k, old) \<in> set es \<and> w \<noteq> old \<and> w = slots c k)))"
      unfolding bb by blast
    have ch: "changed ?p k w \<longleftrightarrow> changed p k w \<or> (k = key \<and> w = v \<and> v \<noteq> old)" for k w by auto
    show ?thesis
    proof (cases "v \<noteq> old \<and> MAX_BYTES < ?n")
      case True
      then show ?thesis using r(1-3) Inr by (simp add: e Let_def)
    next
      case False
      then have "collect_loop X bytes (e # es) p = Some (p', r')" using p'(1) r(1) Inr by (auto simp: e Let_def)
      moreover have "changed p' k w \<longleftrightarrow> changed p k w \<or> (\<exists>old. (k, old) \<in> set (e # es) \<and> w \<noteq> old \<and> w = slots (pp_bbg p) k)"
        if "r' = Inr ()" "k \<noteq> [0]" for k w
      proof -
        have "changed p' k w \<longleftrightarrow> changed p k w \<or> (k = key \<and> w = v \<and> v \<noteq> old) \<or> (\<exists>old. (k, old) \<in> set es \<and> w \<noteq> old \<and> w = slots (pp_bbg p) k)"
          using p'(6) that unfolding ch sl by blast
        moreover have "k = key \<Longrightarrow> v = slots (pp_bbg p) k" using r(4) Inr that(2) by blast
        ultimately show ?thesis unfolding e by auto
      qed
      ultimately show ?thesis using p'(2-5) same_bbg_trans [OF r(2) p'(3)] by blast
    qed
  qed
qed simp

section \<open>The whole transition\<close>

text \<open>What a prepared transition promises: dropping it restores the graph, publishing it keeps the candidate, the
  write set holds exactly the addresses that differ with their new values, and there is one snapshot for each event, the last of the candidate.\<close>

definition prepared_good :: "ext \<Rightarrow> nat \<Rightarrow> bbg \<Rightarrow> native_change list \<Rightarrow> prepared \<Rightarrow> bool" where
  "prepared_good X n b events p \<longleftrightarrow>
     (\<exists>b'. prepared_drop X p = Some b' \<and> same_bbg b b' \<and> state_inv X n (bb_state b')) \<and>
     prepared_publish X p = Some (pp_bbg p) \<and> state_inv X n (bb_state (pp_bbg p)) \<and>
     (\<forall>key v. key \<noteq> [0] \<longrightarrow> (changed p key v \<longleftrightarrow> slots (pp_bbg p) key \<noteq> slots b key \<and> v = slots (pp_bbg p) key)) \<and>
     length (pp_snapshots p) = length events \<and> last (pp_snapshots p) = current X p"

lemma drop_ok:
  assumes "pp_undo p = Some u" and "undo_inv b u (pp_bbg p)" and "state_inv X (n + 2 * MAX_KEYS) (bb_state (pp_bbg p))"
    and "origin_ok X b" and "nebu_laws X" and "hemera_laws X" and "n + 2 ^ 20 \<le> 2 ^ 32"
  shows "\<exists>b'. prepared_drop X p = Some b' \<and> same_bbg b b' \<and> state_inv X n (bb_state b')"
  using undo_restore_ok [OF assms(2-7)] assms(1) by (auto simp: prepared_drop_def)

lemma collect_ok:
  assumes p: "prep_ok X b (n + 2 * MAX_KEYS) p" and o: "origin_ok X b" "nebu_laws X" "hemera_laws X" and n: "n + 2 ^ 20 \<le> 2 ^ 32"
    and s: "length (pp_snapshots p) = length events" "last (pp_snapshots p) = current X p"
  shows "\<exists>p' r. collect_changes X p = Some (p', r) \<and> (\<exists>b'. prepared_drop X p' = Some b' \<and> same_bbg b b' \<and> state_inv X n (bb_state b')) \<and>
    (r = Inr () \<longrightarrow> prepared_good X n b events p')"
proof -
  obtain u where u: "pp_undo p = Some u" "undo_inv b u (pp_bbg p)" "state_inv X (n + 2 * MAX_KEYS) (bb_state (pp_bbg p))" "pp_changes p = []"
    using p by (auto simp: prep_ok_def)
  let ?es = "sorted_list_of_fmap (ud_values u)"
  have "\<forall>e \<in> set ?es. wf_key (fst e)" using u(2) by (auto simp: set_sorted_list_of_fmap undo_inv_def)
  from collect_loop_ok [OF this u(3) o(3), of 0] obtain p' r where c: "collect_loop X 0 ?es p = Some (p', r)" "pp_undo p' = pp_undo p"
    "same_bbg (pp_bbg p) (pp_bbg p')" "state_inv X (n + 2 * MAX_KEYS) (bb_state (pp_bbg p'))" "pp_snapshots p' = pp_snapshots p"
    "r = Inr () \<longrightarrow> (\<forall>key v. key \<noteq> [0] \<longrightarrow> (changed p' key v \<longleftrightarrow> changed p key v \<or> (\<exists>old. (key, old) \<in> set ?es \<and> v \<noteq> old \<and> v = slots (pp_bbg p) key)))"
    by blast
  have u': "undo_inv b u (pp_bbg p')" by (rule undo_inv_frame [OF u(2) same_bbg_frame [OF c(3)]]) simp
  have d: "\<exists>b'. prepared_drop X p' = Some b' \<and> same_bbg b b' \<and> state_inv X n (bb_state b')"
    by (rule drop_ok [OF _ u' c(4) o n]) (use c(2) u(1) in simp)
  have sl: "slots (pp_bbg p') key = slots (pp_bbg p) key" for key using same_bbg_frame [OF c(3)] by (simp add: frame_def)
  have "changed p' key v \<longleftrightarrow> slots (pp_bbg p') key \<noteq> slots b key \<and> v = slots (pp_bbg p') key" if "r = Inr ()" "key \<noteq> [0]" for key v
  proof -
    have "changed p' key v \<longleftrightarrow> (\<exists>old. fmlookup (ud_values u) key = Some old \<and> v \<noteq> old \<and> v = slots (pp_bbg p) key)"
      using c(6) that u(4) by (simp add: set_sorted_list_of_fmap)
    moreover have "slots b key = (case fmlookup (ud_values u) key of Some v \<Rightarrow> v | None \<Rightarrow> slots (pp_bbg p) key)"
      using u(2) that(2) unfolding undo_inv_def by blast
    ultimately show ?thesis unfolding sl by (cases "fmlookup (ud_values u) key") auto
  qed
  moreover have "current X p' = current X p"
  proof -
    have same: "same_records (bb_state (pp_bbg p)) (bb_state (pp_bbg p'))" using c(3) by (simp add: same_bbg_def)
    show ?thesis using same root_spec_same [OF same] by (simp add: current_def same_records_def)
  qed
  moreover have "state_inv X n (bb_state (pp_bbg p'))" by (rule state_inv_mono [OF c(4)]) simp
  ultimately have "r = Inr () \<longrightarrow> prepared_good X n b events p'"
    using d s c(5) by (simp add: prepared_good_def prepared_publish_def prepared_drop_def)
  then show ?thesis using c(1) d u(1) by (simp add: collect_changes_def)
qed


lemma batch_ok:
  assumes inv: "state_inv X (n + 2 ^ 26) (bb_state b)" and o: "origin_ok X b" "nebu_laws X" "hemera_laws X"
  shows "(\<exists>b' e. prepare_native_batch X b events = Some (Inl (b', e)) \<and> same_bbg b b' \<and> state_inv X n (bb_state b')) \<or>
    (\<exists>p. prepare_native_batch X b events = Some (Inr p) \<and> prepared_good X n b events p)"
proof (cases "events = [] \<or> length events > MAX_EVENTS \<or> cp_acc (bb_checkpoint b) \<noteq> None \<or> pc_rank_floor_pct (bb_prune_config b) > 100")
  case True
  have "state_inv X n (bb_state b)" by (rule state_inv_mono [OF inv]) simp
  then show ?thesis using True by (auto simp: prepare_native_batch_def)
next
  case False
  let ?p0 = "\<lparr>pp_bbg = b, pp_undo = Some (undo_new b), pp_changes = [], pp_snapshots = []\<rparr>" and ?m = "n + 2 * MAX_KEYS"
  have n: "n + 2 ^ 20 \<le> 2 ^ 32" using inv by (simp add: state_inv_def state_fits_def)
  have "?m + EVENT_ROOM * length events \<le> n + 2 ^ 26" using False by (simp add: MAX_KEYS_def EVENT_ROOM_def MAX_EVENTS_def)
  then have p0: "prep_ok X b (?m + EVENT_ROOM * length events) ?p0"
    using undo_inv_new state_inv_mono [OF inv] by (auto simp: prep_ok_def)
  have acc: "cp_acc (bb_checkpoint b) = None" using False by simp
  have "runs X b ?m (\<lambda>p'. length (pp_snapshots p') = length events \<and> last (pp_snapshots p') = current X p')
      (then_step (prepared_capture X 0 [] ?p0) (prepared_events X events))"
  proof (rule runs_then [OF capture_runs [OF p0 _ o(3)]])
    fix q
    assume q: "prep_ok X b (?m + EVENT_ROOM * length events) q" "captured_after ?p0 {[0]} q"
    show "runs X b ?m (\<lambda>p'. length (pp_snapshots p') = length events \<and> last (pp_snapshots p') = current X p') (prepared_events X events q)"
      by (rule runs_weaken [OF events_runs [OF q(1) o(3) acc] order_refl]) (use q(2) False in simp)
  qed (simp_all add: wf_key_def)
  then obtain p r where p: "then_step (prepared_capture X 0 [] ?p0) (prepared_events X events) = Some (p, r)" "prep_ok X b ?m p"
    "r = Inr () \<longrightarrow> length (pp_snapshots p) = length events \<and> last (pp_snapshots p) = current X p"
    by (auto simp: runs_def)
  have assoc: "then_step (prepared_capture X 0 [] ?p0) (\<lambda>p. then_step (prepared_events X events p) (collect_changes X)) = then_step (Some (p, r)) (collect_changes X)"
    using p(1) by (auto simp: then_step_def split: Option.bind_splits sum.splits)
  have batch: "prepare_native_batch X b events = do {
      (p, r) \<leftarrow> then_step (Some (p, r)) (collect_changes X);
      case r of Inl e \<Rightarrow> do { b \<leftarrow> prepared_drop X p; Some (Inl (b, e)) } | Inr _ \<Rightarrow> Some (Inr p) }"
    using False by (simp add: prepare_native_batch_def assoc)
  show ?thesis
  proof (cases r)
    case (Inl e)
    obtain u where "pp_undo p = Some u" "undo_inv b u (pp_bbg p)" "state_inv X ?m (bb_state (pp_bbg p))" using p(2) by (auto simp: prep_ok_def)
    then show ?thesis using drop_ok [OF _ _ _ o n, of p] Inl batch by (auto simp: then_step_def)
  next
    case (Inr v)
    then obtain p' r' where "collect_changes X p = Some (p', r')" "\<exists>b'. prepared_drop X p' = Some b' \<and> same_bbg b b' \<and> state_inv X n (bb_state b')"
      "r' = Inr () \<longrightarrow> prepared_good X n b events p'"
      using collect_ok [OF p(2) o n] p(3) by fastforce
    then show ?thesis using Inr batch by (cases r') (auto simp: then_step_def)
  qed
qed

end
