(* ===== verification/Bbg_Atomic.thy ===== *)
theory Bbg_Atomic
  imports Bbg_Native
begin

text \<open>
  The properties of native transitions: atomicity, the exactness of the write set, what validation guarantees,
  and that an intent is always prepared.
\<close>

section \<open>Validation\<close>

lemma validate_nullifiers_iff:
  "validate_nullifiers b seen mvs = Inr () \<longleftrightarrow> distinct (map bm_nullifier mvs) \<and>
     (\<forall>mv \<in> set mvs. \<not> kset_contains (st_nullifiers (bb_state b)) (bm_nullifier mv) \<and> bm_nullifier mv |\<notin>| seen)"
  by (induction mvs arbitrary: seen) (auto simp: image_iff)

lemma validate_nullifiers_error: "validate_nullifiers b seen mvs = Inl e \<Longrightarrow> e = DoubleSpendError"
  by (induction mvs arbitrary: seen) (auto split: if_splits)

text \<open>The running balances of the check are the balances the links produce.\<close>

abbreviation to_key :: "ext \<Rightarrow> cyberlink \<Rightarrow> particle" where
  "to_key X l \<equiv> balance_key X (cl_to l) (cl_token l)"

lemma saturating_add_zero [simp]: "saturating_add a 0 = a" for a :: u64
  using unsigned_less [of a, where 'a = nat] by (simp add: saturating_add_def)

lemma validate_balances_exact:
  assumes "validate_balances X b m ls = Inr ()" and "\<And>k. balance_entry b m k = balance_of bal k"
  shows "\<forall>i < length ls. unat (balance_of (foldl (link_balances X) bal (take i ls)) (to_key X (ls ! i))) + unat (cl_amount (ls ! i)) < 2 ^ 64"
  using assms
proof (induction ls arbitrary: m bal)
  case (Cons l ls)
  let ?t = "to_key X l" and ?f = "balance_key X (cl_from l) (cl_token l)"
  obtain c where c: "checked_add (balance_entry b m ?t) (cl_amount l) = Some c"
    "validate_balances X b (fmupd ?f (saturating_sub (balance_entry b (fmupd ?t c m) ?f) (cl_amount l)) (fmupd ?t c m)) ls = Inr ()"
    using Cons.prems(1) by (auto simp: Let_def result_simps)
  have sat: "c = saturating_add (balance_of bal ?t) (cl_amount l)" using checked_add_eq_saturating [OF c(1)] Cons.prems(2) by simp
  have lt: "unat (balance_of bal ?t) + unat (cl_amount l) < 2 ^ 64"
    using c(1) Cons.prems(2) by (simp add: checked_add_def split: if_splits)
  have e: "balance_entry b (fmupd k v m') j = (if j = k then v else balance_entry b m' j)" for k v m' j by (simp add: balance_entry_def)
  have "balance_entry b (fmupd ?f (saturating_sub (balance_entry b (fmupd ?t c m) ?f) (cl_amount l)) (fmupd ?t c m)) k = balance_of (link_balances X bal l) k" for k
    unfolding e using Cons.prems(2) sat by (simp add: link_balances_def Let_def)
  from Cons.IH [OF c(2) this] lt show ?case by (auto simp: less_Suc_eq_0_disj)
qed simp

lemma balance_entry_empty: "balance_entry b fmempty k = balance_of (kd_map (st_balances (bb_state b))) k"
  by (simp add: balance_entry_def balance_of_def)

section \<open>An intent\<close>

lemma metadata_length: "metadata X b = Some (b', m) \<Longrightarrow> length m \<le> 110"
  by (auto simp: metadata_def Let_def split: Option.bind_splits option.splits)

lemma small_read:
  assumes "state_inv X n (bb_state c)" and "hemera_laws X"
  shows "\<exists>c' m. bounded_read X c [0] = Some (c', Inr (Some m)) \<and> length m \<le> 110 \<and> same_bbg c c' \<and> state_inv X n (bb_state c')"
    and "bounded_read X c (14 # be_bytes 32 (k :: particle)) = Some (c, Inr (map_option enc_intent (fmlookup (st_intents (bb_state c)) k)))"
proof -
  obtain st m where m: "metadata X c = Some (c\<lparr>bb_state := st\<rparr>, m)" "state_inv X n st" "same_records (bb_state c) st"
    using metadata_ok [OF assms] by blast
  then show "\<exists>c' m. bounded_read X c [0] = Some (c', Inr (Some m)) \<and> length m \<le> 110 \<and> same_bbg c c' \<and> state_inv X n (bb_state c')"
    using metadata_length [OF m(1)] by (simp add: bounded_read_def record_read_def same_bbg_def)
  show "bounded_read X c (14 # be_bytes 32 k) = Some (c, Inr (map_option enc_intent (fmlookup (st_intents (bb_state c)) k)))"
    by (simp add: bounded_read_def record_read_def read_entry_def read_entity_def Let_def)
qed

lemma length_intent: "(case map_option enc_intent x of None \<Rightarrow> 0 | Some bs \<Rightarrow> length bs) \<le> 136"
  by (cases x) (simp_all add: enc_intent_def)


definition small_key :: "bytes \<Rightarrow> bool" where
  "small_key key \<longleftrightarrow> key = [0] \<or> (\<exists>k. key = 14 # be_bytes 32 (k :: particle))"

lemma small_read_ok:
  assumes "small_key key" and "state_inv X n (bb_state c)" and "hemera_laws X"
  shows "\<exists>c' v. bounded_read X c key = Some (c', Inr v) \<and> length key + (case v of None \<Rightarrow> 0 | Some bs \<Rightarrow> length bs) \<le> 200 \<and>
    same_bbg c c' \<and> state_inv X n (bb_state c')"
proof (cases "key = [0]")
  case True
  then show ?thesis using small_read(1) [OF assms(2,3)] by fastforce
next
  case False
  then obtain k where k: "key = 14 # be_bytes 32 (k :: particle)" using assms(1) by (auto simp: small_key_def)
  have "length key + (case map_option enc_intent (fmlookup (st_intents (bb_state c)) k) of None \<Rightarrow> 0 | Some bs \<Rightarrow> length bs) \<le> 200"
    using length_intent [of "fmlookup (st_intents (bb_state c)) k"] k by simp
  then show ?thesis using small_read(2) [OF assms(2,3), of k] assms(2) k by auto
qed

lemma small_capture:
  assumes "small_key (d # k)" and "state_inv X n (bb_state (pp_bbg p))" and "hemera_laws X" and u: "pp_undo p = Some u"
    and "ud_bytes u + 200 \<le> MAX_BYTES" and "fcard (fmdom (ud_values u)) < MAX_KEYS" and "\<forall>key \<in> fset (fmdom (ud_values u)). small_key key"
  shows "\<exists>c' u'. prepared_capture X d k p = Some (p\<lparr>pp_bbg := c', pp_undo := Some u'\<rparr>, Inr ()) \<and> same_bbg (pp_bbg p) c' \<and>
    state_inv X n (bb_state c') \<and> ud_bytes u' \<le> ud_bytes u + 200 \<and> fcard (fmdom (ud_values u')) \<le> fcard (fmdom (ud_values u)) + 1 \<and>
    (\<forall>key \<in> fset (fmdom (ud_values u')). small_key key)"
proof (cases "fmlookup (ud_values u) (d # k) = None")
  case False
  then show ?thesis using assms by (intro exI [of _ "pp_bbg p"] exI [of _ u]) (auto simp: prepared_capture_def undo_capture_def record_key_def)
next
  case True
  obtain c' v where r: "bounded_read X (pp_bbg p) (d # k) = Some (c', Inr v)" "length (d # k) + (case v of None \<Rightarrow> 0 | Some bs \<Rightarrow> length bs) \<le> 200"
    "same_bbg (pp_bbg p) c'" "state_inv X n (bb_state c')"
    using small_read_ok [OF assms(1-3)] by blast
  let ?u = "u\<lparr>ud_bytes := ud_bytes u + (length (d # k) + (case v of None \<Rightarrow> 0 | Some bs \<Rightarrow> length bs)), ud_values := fmupd (d # k) v (ud_values u)\<rparr>"
  have "undo_capture X u (pp_bbg p) (d # k) = Some (c', ?u, Inr ())"
    using True r(1,2) assms(5,6) by (simp add: undo_capture_def Let_def)
  then show ?thesis
    using u r(2-4) assms(1,7) fcard_finsert_le [of "d # k" "fmdom (ud_values u)"]
    by (intro exI [of _ c'] exI [of _ ?u]) (auto simp: prepared_capture_def record_key_def)
qed

lemma small_collect:
  assumes "\<forall>e \<in> set es. small_key (fst e)" and "state_inv X n (bb_state (pp_bbg p))" and "hemera_laws X" and "bytes + 200 * length es \<le> MAX_BYTES"
  shows "\<exists>p'. collect_loop X bytes es p = Some (p', Inr ()) \<and> same_bbg (pp_bbg p) (pp_bbg p')"
  using assms(1,2,4)
proof (induction es arbitrary: p bytes)
  case (Cons e es)
  obtain key old where e: "e = (key, old)" by force
  have "small_key key" using Cons.prems(1) by (simp add: e)
  then obtain c v where r: "bounded_read X (pp_bbg p) key = Some (c, Inr v)" "length key + (case v of None \<Rightarrow> 0 | Some bs \<Rightarrow> length bs) \<le> 200"
    "same_bbg (pp_bbg p) c" "state_inv X n (bb_state c)"
    using small_read_ok [OF _ Cons.prems(2) assms(3)] by blast
  let ?b = "if v \<noteq> old then bytes + (length key + (case v of None \<Rightarrow> 0 | Some bs \<Rightarrow> length bs)) else bytes"
  let ?p = "if v \<noteq> old then p\<lparr>pp_bbg := c, pp_changes := pp_changes p @ [\<lparr>rc_key = key, rc_value = v\<rparr>]\<rparr> else p\<lparr>pp_bbg := c\<rparr>"
  have step: "collect_loop X bytes (e # es) p = collect_loop X ?b es ?p"
    using r(1,2) Cons.prems(3) by (simp add: e Let_def)
  have "\<forall>e \<in> set es. small_key (fst e)" "state_inv X n (bb_state (pp_bbg ?p))" "?b + 200 * length es \<le> MAX_BYTES"
    using Cons.prems r(2,4) by (auto split: if_splits)
  from Cons.IH [OF this] obtain p' where "collect_loop X ?b es ?p = Some (p', Inr ())" "same_bbg (pp_bbg ?p) (pp_bbg p')" by blast
  moreover have "pp_bbg ?p = c" by simp
  ultimately show ?case unfolding step using same_bbg_trans [OF r(3)] by metis
qed simp

lemma intent_prepares:
  assumes inv: "state_inv X n (bb_state b)" and h: "hemera_laws X" and acc: "cp_acc (bb_checkpoint b) = None"
    and pct: "pc_rank_floor_pct (bb_prune_config b) \<le> 100"
  shows "\<exists>p. prepare_native X b None None (Some i) = Some (Inr p) \<and>
    st_intents (bb_state (pp_bbg p)) = fmupd (intent_key X (ir_neuron i) (ir_h0 i) (ir_scope_hash i)) i (st_intents (bb_state b))"
proof -
  let ?p0 = "\<lparr>pp_bbg = b, pp_undo = Some (undo_new b), pp_changes = [], pp_snapshots = []\<rparr>"
  let ?key = "intent_key X (ir_neuron i) (ir_h0 i) (ir_scope_hash i)"
  have lim: "MAX_KEYS = 65536" "MAX_BYTES = 8388608" by (simp_all add: MAX_KEYS_def MAX_BYTES_def)
  obtain c1 u1 where 1: "prepared_capture X 0 [] ?p0 = Some (?p0\<lparr>pp_bbg := c1, pp_undo := Some u1\<rparr>, Inr ())" "same_bbg b c1" "state_inv X n (bb_state c1)"
    "ud_bytes u1 \<le> 200" "fcard (fmdom (ud_values u1)) \<le> 1" "\<forall>key \<in> fset (fmdom (ud_values u1)). small_key key"
    using small_capture [of 0 "[]" X n ?p0 "undo_new b"] inv h by (auto simp: small_key_def undo_new_def lim fcard.rep_eq)
  let ?p1 = "?p0\<lparr>pp_bbg := c1, pp_undo := Some u1\<rparr>"
  obtain c2 u2 where 2: "prepared_capture X 14 (be_bytes 32 ?key) ?p1 = Some (?p1\<lparr>pp_bbg := c2, pp_undo := Some u2\<rparr>, Inr ())" "same_bbg c1 c2"
    "state_inv X n (bb_state c2)" "ud_bytes u2 \<le> 400" "fcard (fmdom (ud_values u2)) \<le> 2" "\<forall>key \<in> fset (fmdom (ud_values u2)). small_key key"
    using small_capture [of 14 "be_bytes 32 ?key" X n ?p1 u1] 1 h by (fastforce simp: small_key_def lim)
  let ?c3 = "fst (bbg_apply_intent X c2 i)"
  let ?p3 = "?p1\<lparr>pp_bbg := ?c3, pp_undo := Some u2\<rparr>"
  have c3: "state_inv X n (bb_state ?c3)" using 2(3) by (simp add: bbg_apply_intent_def apply_intent_def Let_def state_inv_fields)
  obtain st where st: "state_root X (bb_state ?c3) = Some (st, root_spec X (bb_state ?c3))" "state_inv X n st" "same_records (bb_state ?c3) st"
    using state_root_ok [OF c3 h] by blast
  let ?p4 = "?p3\<lparr>pp_bbg := ?c3\<lparr>bb_state := st\<rparr>, pp_snapshots := [\<lparr>sn_height = st_height st, sn_root = root_spec X (bb_state ?c3)\<rparr>]\<rparr>"
  have ev: "prepared_events X [IntentChange i] ?p1 = Some (?p4, Inr ())"
    using 2(1) st(1) by (simp add: prepared_event_def prepared_intent_def then_step_def push_snapshot_def Let_def)
  have "\<exists>p'. collect_loop X 0 (sorted_list_of_fmap (ud_values u2)) ?p4 = Some (p', Inr ()) \<and> same_bbg (pp_bbg ?p4) (pp_bbg p')"
    by (rule small_collect [OF _ _ h]) (use 2(5,6) st(2) in \<open>auto simp: set_sorted_list_of_fmap fset_fmdom length_sorted_list_of_fmap lim\<close>)
  then obtain p where p: "collect_loop X 0 (sorted_list_of_fmap (ud_values u2)) ?p4 = Some (p, Inr ())" "same_bbg (pp_bbg ?p4) (pp_bbg p)" by blast
  have "prepare_native X b None None (Some i) = Some (Inr p)"
    using acc pct 1(1) ev p(1)
    by (simp add: prepare_native_def prepare_native_batch_def then_step_def collect_changes_def MAX_EVENTS_def del: prepared_events.simps)
  moreover have "st_intents (bb_state (pp_bbg p)) = st_intents (bb_state ?c3)"
    using p(2) st(3) by (simp add: same_bbg_def same_records_def)
  moreover have "st_intents (bb_state c2) = st_intents (bb_state b)" using 1(2) 2(2) by (simp add: same_bbg_def same_records_def)
  moreover have "\<lparr>ir_neuron = ir_neuron i, ir_h0 = ir_h0 i, ir_scope_hash = ir_scope_hash i, ir_signature = ir_signature i\<rparr> = i"
    by (cases i) simp
  ultimately show ?thesis by (simp add: bbg_apply_intent_def apply_intent_def Let_def)
qed


section \<open>Properties\<close>

text \<open>C18: a native transition is atomic. Preparing a batch always returns; when it fails, at whatever event and for whatever
  reason, the graph shows the same records, checkpoint, policy and touch times as before. When it succeeds, dropping it
  gives that graph back, and publishing it keeps the candidate, which satisfies the invariant.\<close>

theorem native_transition_atomic:
  assumes "state_inv X (n + 2 ^ 26) (bb_state b)" and "nebu_laws X" and "hemera_laws X"
    and "\<forall>k v. fmlookup (kd_map (st_commitments (bb_state b))) k = Some v \<longrightarrow> v < gl_P X"
  shows "\<exists>r. prepare_native_batch X b events = Some r \<and> (case r of
     Inl (b', e) \<Rightarrow> same_bbg b b' \<and> state_inv X n (bb_state b')
   | Inr p \<Rightarrow> (\<exists>b'. prepared_drop X p = Some b' \<and> same_bbg b b' \<and> state_inv X n (bb_state b')) \<and>
       prepared_publish X p = Some (pp_bbg p) \<and> state_inv X n (bb_state (pp_bbg p)))"
proof -
  have "origin_ok X b" using assms(1,4) by (simp add: origin_ok_def state_inv_def state_ok_def)
  from batch_ok [OF assms(1) this assms(2,3), of events] show ?thesis by (auto simp: prepared_good_def)
qed

lemma new_bbg_ready:
  obtains b where "bbg_new sample_ext = Some b" "state_inv sample_ext (0 + 2 ^ 26) (bb_state b)" "cp_acc (bb_checkpoint b) = None"
    "\<forall>k v. fmlookup (kd_map (st_commitments (bb_state b))) k = Some v \<longrightarrow> v < gl_P sample_ext"
    "pc_rank_floor_pct (bb_prune_config b) \<le> 100" "same_records state_new (bb_state b)"
proof -
  obtain b where b: "bbg_new sample_ext = Some b" "bbg_ok sample_ext (0 + 2 ^ 26) b" "same_records state_new (bb_state b)"
    "bb_prune_config b = prune_config_default"
    using bbg_new_ok [OF hemera_laws_sample, of "0 + 2 ^ 26"] by auto
  moreover have "kd_map (st_commitments (bb_state b)) = fmempty" using b(3) by (simp add: same_records_def state_new_def keyed_new_def)
  ultimately show ?thesis using that [of b] by (simp add: bbg_ok_def prune_config_default_def)
qed

theorem native_transition_atomic_witness:
  "\<exists>b r. bbg_new sample_ext = Some b \<and> prepare_native_batch sample_ext b [LocalCredit 1 2 5 7, IntentChange \<lparr>ir_neuron = 1, ir_h0 = 2, ir_scope_hash = 3, ir_signature = 4\<rparr>] = Some r"
proof -
  obtain b where b: "bbg_new sample_ext = Some b" "state_inv sample_ext (0 + 2 ^ 26) (bb_state b)" "cp_acc (bb_checkpoint b) = None"
    "\<forall>k v. fmlookup (kd_map (st_commitments (bb_state b))) k = Some v \<longrightarrow> v < gl_P sample_ext"
    "pc_rank_floor_pct (bb_prune_config b) \<le> 100" "same_records state_new (bb_state b)"
    by (rule new_bbg_ready)
  from native_transition_atomic [OF b(2) nebu_laws_sample hemera_laws_sample b(4)] b(1) show ?thesis by blast
qed

text \<open>C19: the write set of a prepared transition is exact: apart from the metadata record, it holds an address if and only if
  the candidate's value there differs from the value before, with the candidate's value; and there is one snapshot for each event,
  the last one of the candidate's height and root.\<close>

theorem native_write_set_exact:
  assumes "state_inv X (n + 2 ^ 26) (bb_state b)" and "nebu_laws X" and "hemera_laws X"
    and "\<forall>k v. fmlookup (kd_map (st_commitments (bb_state b))) k = Some v \<longrightarrow> v < gl_P X"
    and "prepare_native_batch X b events = Some (Inr p)" and "key \<noteq> [0]"
  shows "(\<lparr>rc_key = key, rc_value = v\<rparr> \<in> set (pp_changes p) \<longleftrightarrow> slots (pp_bbg p) key \<noteq> slots b key \<and> v = slots (pp_bbg p) key) \<and>
    length (pp_snapshots p) = length events \<and>
    last (pp_snapshots p) = \<lparr>sn_height = st_height (bb_state (pp_bbg p)), sn_root = root_spec X (bb_state (pp_bbg p))\<rparr>"
proof -
  have "origin_ok X b" using assms(1,4) by (simp add: origin_ok_def state_inv_def state_ok_def)
  from batch_ok [OF assms(1) this assms(2,3), of events] assms(5,6) show ?thesis by (auto simp: prepared_good_def current_def)
qed

theorem native_write_set_exact_witness:
  "\<exists>b p. prepare_native_batch sample_ext b [IntentChange \<lparr>ir_neuron = 1, ir_h0 = 2, ir_scope_hash = 3, ir_signature = 4\<rparr>] = Some (Inr p) \<and>
     length (pp_snapshots p) = 1"
proof -
  let ?i = "\<lparr>ir_neuron = 1, ir_h0 = 2, ir_scope_hash = 3, ir_signature = 4\<rparr>"
  obtain b where b: "bbg_new sample_ext = Some b" "state_inv sample_ext (0 + 2 ^ 26) (bb_state b)" "cp_acc (bb_checkpoint b) = None"
    "\<forall>k v. fmlookup (kd_map (st_commitments (bb_state b))) k = Some v \<longrightarrow> v < gl_P sample_ext"
    "pc_rank_floor_pct (bb_prune_config b) \<le> 100" "same_records state_new (bb_state b)"
    by (rule new_bbg_ready)
  obtain p where p: "prepare_native_batch sample_ext b [IntentChange ?i] = Some (Inr p)"
    using intent_prepares [OF b(2) hemera_laws_sample b(3,5), of ?i] by (auto simp: prepare_native_def)
  from native_write_set_exact [OF b(2) nebu_laws_sample hemera_laws_sample b(4) p, of "[1]"] p show ?thesis by fastforce
qed

text \<open>an intent is always prepared: it is never refused while the checkpoint carries no proof and the policy is a percentage, and
  the candidate holds it under its key beside all other intents.\<close>

theorem native_intent_prepared:
  assumes "state_inv X n (bb_state b)" and "hemera_laws X" and "cp_acc (bb_checkpoint b) = None" and "pc_rank_floor_pct (bb_prune_config b) \<le> 100"
  shows "\<exists>p. prepare_native X b None None (Some i) = Some (Inr p) \<and>
    st_intents (bb_state (pp_bbg p)) = fmupd (intent_key X (ir_neuron i) (ir_h0 i) (ir_scope_hash i)) i (st_intents (bb_state b))"
  by (rule intent_prepares [OF assms])

theorem native_intent_prepared_witness:
  "\<exists>b p. prepare_native sample_ext b None None (Some \<lparr>ir_neuron = 1, ir_h0 = 2, ir_scope_hash = 3, ir_signature = 4\<rparr>) = Some (Inr p)"
proof -
  obtain b where b: "bbg_new sample_ext = Some b" "state_inv sample_ext (0 + 2 ^ 26) (bb_state b)" "cp_acc (bb_checkpoint b) = None"
    "\<forall>k v. fmlookup (kd_map (st_commitments (bb_state b))) k = Some v \<longrightarrow> v < gl_P sample_ext"
    "pc_rank_floor_pct (bb_prune_config b) \<le> 100" "same_records state_new (bb_state b)"
    by (rule new_bbg_ready)
  show ?thesis using native_intent_prepared [OF b(2) hemera_laws_sample b(3,5)] by blast
qed

text \<open>C20: a signal passes validation only when the next height exists, its header matches it, its record is new, it is within
  bounds, it spends no nullifier twice and none that is spent, and no credit overflows; then no
  credit of its insertion saturates.\<close>

theorem validate_sound:
  assumes "validate X b s key header = Inr ()"
  shows "st_height (bb_state b) \<noteq> - 1 \<and> sr_neuron header = sg_neuron s \<and> unat (sr_link_count header) = length (sg_links s) \<and>
    sr_block_height header = sg_height s \<and> fmlookup (kd_map (st_signals (bb_state b))) key = None \<and>
    distinct (map bm_nullifier (sg_box_moves s)) \<and>
    (\<forall>mv \<in> set (sg_box_moves s). \<not> kset_contains (st_nullifiers (bb_state b)) (bm_nullifier mv)) \<and>
    (\<forall>i < length (sg_links s). unat (balance_of (foldl (link_balances X) (kd_map (st_balances (bb_state b))) (take i (sg_links s)))
        (to_key X (sg_links s ! i))) + unat (cl_amount (sg_links s ! i)) < 2 ^ 64)"
proof -
  have v: "checked_add (st_height (bb_state b)) 1 \<noteq> None" "length (sg_links s) < 2 ^ 32" "sr_neuron header = sg_neuron s"
    "sr_link_count header = of_nat (length (sg_links s))" "sr_block_height header = sg_height s"
    "fmlookup (kd_map (st_signals (bb_state b))) key = None" "validate_nullifiers b {||} (sg_box_moves s) = Inr ()"
    "validate_balances X b fmempty (sg_links s) = Inr ()"
    using assms by (auto simp: validate_def result_simps)
  have "st_height (bb_state b) \<noteq> - 1"
    using v(1) by (auto simp: checked_add_def unsigned_minus_1_eq_mask mask_eq_exp_minus_1 split: if_splits)
  moreover have "unat (sr_link_count header) = length (sg_links s)" using v(2,4) by (simp add: unat_of_nat)
  ultimately show ?thesis
    using v(3,5,6) v(7) [unfolded validate_nullifiers_iff] validate_balances_exact [OF v(8) balance_entry_empty] by blast
qed

definition sample_bbg :: bbg where
  "sample_bbg = \<lparr>bb_state = state_new, bb_checkpoint = \<lparr>cp_root = 0, cp_acc = None, cp_height = 0\<rparr>,
     bb_prune_config = prune_config_default, bb_prune_state = prune_state_default\<rparr>"

definition sample_header :: signal_record where
  "sample_header = \<lparr>sr_neuron = 1, sr_network = 0, sr_link_count = 1, sr_block_height = 0, sr_proof_hash = 0, sr_step = 0\<rparr>"

theorem validate_sound_witness:
  "validate sample_ext sample_bbg sample_signal 4 sample_header = Inr () \<and> unat (sr_link_count sample_header) = length (sg_links sample_signal)"
proof -
  have e: "balance_entry sample_bbg fmempty k = 0" for k
    by (simp add: balance_entry_def sample_bbg_def state_new_def keyed_new_def)
  have v: "validate sample_ext sample_bbg sample_signal 4 sample_header = Inr ()"
    using new_nullifiers
    by (simp add: validate_def sample_signal_def sample_header_def sample_bbg_def [symmetric] e checked_add_def ok_or_def fail_if_def MAX_KEYS_def)
      (simp add: sample_bbg_def state_new_def keyed_new_def kset_contains_def)
  from validate_sound [OF this] v show ?thesis by blast
qed

end
