(* ===== verification/Bbg_Positions.thy ===== *)
theory Bbg_Positions
  imports Bbg_Insert
begin

text \<open>
  Positions (second half of \<open>position.rs\<close>): the stake of a card, the stake on each side of an axon, and the snapshot of
  all positions grouped by axon. The sums are 128-bit words; the theorems show that they do not wrap and
  that the index the snapshot walks gives every card exactly once.
\<close>

section \<open>Snapshots\<close>

record side_sums =
  ss_plus :: u128
  ss_minus :: u128

definition sums_zero :: side_sums where
  "sums_zero = \<lparr>ss_plus = 0, ss_minus = 0\<rparr>"

definition sums_add :: "side_sums \<Rightarrow> side \<Rightarrow> u64 \<Rightarrow> side_sums" where
  "sums_add s sd stake = (case sd of
     Plus \<Rightarrow> s\<lparr>ss_plus := ss_plus s + ucast stake\<rparr>
   | Minus \<Rightarrow> s\<lparr>ss_minus := ss_minus s + ucast stake\<rparr>)"

record position =
  po_card :: particle
  po_record :: card_record
  po_stake :: u64

record axon_positions =
  ap_axon :: particle
  ap_sums :: side_sums
  ap_positions :: "position list"

record position_snapshot =
  sn_axons :: "axon_positions list"
  sn_len :: nat
  sn_total :: u128
  sn_active :: u128

definition snapshot_empty :: position_snapshot where
  "snapshot_empty = \<lparr>sn_axons = [], sn_len = 0, sn_total = 0, sn_active = 0\<rparr>"

text \<open>\<open>binary_search_by\<close> of a slice, by key.\<close>

function binary_search :: "('a \<Rightarrow> 'k::linorder) \<Rightarrow> 'a list \<Rightarrow> 'k \<Rightarrow> nat \<Rightarrow> nat \<Rightarrow> nat option" where
  "binary_search key xs k lo hi =
     (if lo < hi then
        let mid = (lo + hi) div 2 in
        if key (xs ! mid) = k then Some mid
        else if key (xs ! mid) < k then binary_search key xs k (mid + 1) hi
        else binary_search key xs k lo mid
      else None)"
  by pat_completeness auto
termination by (relation "measure (\<lambda>(_, _, _, lo, hi). hi - lo)") auto

declare binary_search.simps [simp del]

definition snapshot_get :: "position_snapshot \<Rightarrow> particle \<Rightarrow> axon_positions option" where
  "snapshot_get snap axon =
     map_option (\<lambda>i. sn_axons snap ! i) (binary_search ap_axon (sn_axons snap) axon 0 (length (sn_axons snap)))"

definition snapshot_find :: "position_snapshot \<Rightarrow> particle \<Rightarrow> particle \<Rightarrow> position option" where
  "snapshot_find snap axon cid = do {
     a \<leftarrow> snapshot_get snap axon;
     map_option (\<lambda>i. ap_positions a ! i) (binary_search po_card (ap_positions a) cid 0 (length (ap_positions a))) }"

section \<open>Reads of the state\<close>

definition balance_at :: "bbg_state \<Rightarrow> particle \<Rightarrow> u64" where
  "balance_at st key = (case fmlookup (kd_map (st_balances st)) key of None \<Rightarrow> 0 | Some b \<Rightarrow> b)"

definition state_stake :: "ext \<Rightarrow> bbg_state \<Rightarrow> particle \<Rightarrow> u64" where
  "state_stake X st cid = (case fmlookup (kd_map (st_balances st)) (stake_key X cid) of None \<Rightarrow> 0 | Some b \<Rightarrow> b)"

definition focus_pool :: "ext \<Rightarrow> bbg_state \<Rightarrow> particle \<Rightarrow> u64" where
  "focus_pool X st token = (case fmlookup (kd_map (st_balances st)) (focus_key X token) of None \<Rightarrow> 0 | Some b \<Rightarrow> b)"

definition indexed :: "bbg_state \<Rightarrow> particle \<Rightarrow> (card_record \<times> particle) list option" where
  "indexed st axon = (case fmlookup (cd_by_axon (st_cards st)) axon of
     None \<Rightarrow> Some []
   | Some cards \<Rightarrow> those (map (\<lambda>(c, key). map_option (\<lambda>r. (r, key)) (fmlookup (card_map (st_cards st)) c)) (sorted_list_of_fmap cards)))"

definition side_sums_of :: "bbg_state \<Rightarrow> particle \<Rightarrow> side_sums option" where
  "side_sums_of st axon = do {
     ix \<leftarrow> indexed st axon;
     Some (foldl (\<lambda>sums (r, key). sums_add sums (valence_side (cr_valence r)) (balance_at st key)) sums_zero ix) }"

text \<open>The closure over the cards of one axon: it extends the sums of the axon and the active stake of the snapshot.\<close>

fun axon_walk :: "bbg_state \<Rightarrow> side_sums \<Rightarrow> u128 \<Rightarrow> (particle \<times> particle) list \<Rightarrow> (position list \<times> side_sums \<times> u128) option" where
  "axon_walk st sums active [] = Some ([], sums, active)"
| "axon_walk st sums active ((cid, key) # cs) = do {
     r \<leftarrow> fmlookup (card_map (st_cards st)) cid;
     let stake = balance_at st key;
     let sums = sums_add sums (valence_side (cr_valence r)) stake;
     let active = (if valence_is_active (cr_valence r) then active + ucast stake else active);
     (ps, sums, active) \<leftarrow> axon_walk st sums active cs;
     Some (\<lparr>po_card = cid, po_record = r, po_stake = stake\<rparr> # ps, sums, active) }"

fun positions_loop :: "bbg_state \<Rightarrow> position_snapshot \<Rightarrow> (particle \<times> (particle, particle) fmap) list \<Rightarrow> position_snapshot option" where
  "positions_loop st snap [] = Some snap"
| "positions_loop st snap ((axon, cards) # rest) = do {
     (ps, sums, active) \<leftarrow> axon_walk st sums_zero (sn_active snap) (sorted_list_of_fmap cards);
     positions_loop st (snap\<lparr>sn_active := active, sn_len := sn_len snap + length ps,
       sn_total := sn_total snap + (ss_plus sums + ss_minus sums),
       sn_axons := sn_axons snap @ [\<lparr>ap_axon = axon, ap_sums = sums, ap_positions = ps\<rparr>]\<rparr>) rest }"

definition state_positions :: "bbg_state \<Rightarrow> position_snapshot option" where
  "state_positions st = positions_loop st snapshot_empty (sorted_list_of_fmap (cd_by_axon (st_cards st)))"

section \<open>Binary search\<close>

lemma binary_search_sound:
  "binary_search key xs k lo hi = Some i \<Longrightarrow> lo \<le> i \<and> i < hi \<and> key (xs ! i) = k"
proof (induction key xs k lo hi rule: binary_search.induct)
  case (1 key xs k lo hi)
  show ?case
    using "1.prems" "1.IH"(1) [OF _ refl] "1.IH"(2) [OF _ refl]
    by (subst (asm) binary_search.simps) (fastforce simp: Let_def split: if_splits)
qed

lemma binary_search_complete:
  assumes "sorted (map key xs)" and "hi \<le> length xs" and "lo \<le> i" and "i < hi" and "key (xs ! i) = k"
  shows "\<exists>j. binary_search key xs k lo hi = Some j"
  using assms
proof (induction key xs k lo hi rule: binary_search.induct)
  case (1 key xs k lo hi)
  have le: "key (xs ! a) \<le> key (xs ! b)" if "a \<le> b" "b < length xs" for a b
    using sorted_nth_mono [OF "1.prems"(1), of a b] that by simp
  let ?mid = "(lo + hi) div 2"
  consider "key (xs ! ?mid) = k" | "key (xs ! ?mid) < k" | "k < key (xs ! ?mid)" by force
  then show ?case
  proof cases
    case 1
    then show ?thesis using "1.prems" by (subst binary_search.simps) (simp add: Let_def)
  next
    case 2
    have "?mid < i"
    proof (rule ccontr)
      assume "\<not> ?mid < i"
      moreover have "?mid < length xs" using "1.prems" by linarith
      ultimately have "key (xs ! i) \<le> key (xs ! ?mid)" by (intro le) simp_all
      then show False using 2 "1.prems"(5) by simp
    qed
    then show ?thesis using 2 "1.prems" "1.IH"(1) [OF _ refl] by (subst binary_search.simps) (auto simp: Let_def)
  next
    case 3
    have "i < ?mid"
    proof (rule ccontr)
      assume "\<not> i < ?mid"
      moreover have "i < length xs" using "1.prems" by linarith
      ultimately have "key (xs ! ?mid) \<le> key (xs ! i)" by (intro le) simp_all
      then show False using 3 "1.prems"(5) by simp
    qed
    then show ?thesis using 3 "1.prems" "1.IH"(2) [OF _ refl] by (subst binary_search.simps) (auto simp: Let_def)
  qed
qed

lemma binary_search_find:
  assumes "sorted (map key xs)" and "distinct (map key xs)"
  shows "map_option ((!) xs) (binary_search key xs k 0 (length xs)) = List.find (\<lambda>x. key x = k) xs"
proof (cases "binary_search key xs k 0 (length xs)")
  case None
  then have "key x \<noteq> k" if "x \<in> set xs" for x
    using binary_search_complete [OF assms(1) order_refl, of 0 _ k] that by (auto simp: in_set_conv_nth)
  then show ?thesis using None by (simp add: find_None_iff [THEN iffD2])
next
  case (Some i)
  then have i: "i < length xs" "key (xs ! i) = k" using binary_search_sound by fastforce+
  have "List.find (\<lambda>x. key x = k) xs = Some (xs ! i)"
    unfolding find_Some_iff using i assms(2)
    by (intro exI [of _ i]) (auto simp: distinct_conv_nth)
  then show ?thesis using Some by simp
qed

section \<open>Sums\<close>

definition pos_of :: "ext \<Rightarrow> bbg_state \<Rightarrow> particle \<times> card_record \<Rightarrow> position" where
  "pos_of X st e = \<lparr>po_card = fst e, po_record = snd e, po_stake = state_stake X st (fst e)\<rparr>"

definition stake_if :: "ext \<Rightarrow> bbg_state \<Rightarrow> (valence \<Rightarrow> bool) \<Rightarrow> particle \<times> card_record \<Rightarrow> u128" where
  "stake_if X st P e = (if P (cr_valence (snd e)) then ucast (state_stake X st (fst e)) else 0)"

definition stake_sum :: "ext \<Rightarrow> bbg_state \<Rightarrow> (valence \<Rightarrow> bool) \<Rightarrow> (particle \<times> card_record) list \<Rightarrow> u128" where
  "stake_sum X st P es = sum_list (map (stake_if X st P) es)"

text \<open>The same sum in the natural numbers.\<close>

definition stake_total :: "ext \<Rightarrow> bbg_state \<Rightarrow> (valence \<Rightarrow> bool) \<Rightarrow> (particle \<times> card_record) list \<Rightarrow> nat" where
  "stake_total X st P es = sum_list (map (\<lambda>e. if P (cr_valence (snd e)) then unat (state_stake X st (fst e)) else 0) es)"

abbreviation on_side :: "side \<Rightarrow> valence \<Rightarrow> bool" where
  "on_side sd v \<equiv> valence_side v = sd"

lemma stake_sum_Cons [simp]: "stake_sum X st P [] = 0" "stake_sum X st P (e # es) = stake_if X st P e + stake_sum X st P es"
  by (simp_all add: stake_sum_def)

lemma stake_sides: "stake_sum X st (on_side Plus) es + stake_sum X st (on_side Minus) es = stake_sum X st (\<lambda>_. True) es"
proof (induction es)
  case (Cons e es)
  have "valence_side (cr_valence (snd e)) = Plus \<or> valence_side (cr_valence (snd e)) = Minus"
    by (cases "valence_side (cr_valence (snd e))") simp_all
  then have "stake_if X st (on_side Plus) e + stake_if X st (on_side Minus) e = stake_if X st (\<lambda>_. True) e"
    by (auto simp: stake_if_def)
  then show ?case using Cons by (simp add: algebra_simps)
qed simp

lemma unat_sum_list:
  fixes ws :: "'a::len word list"
  shows "sum_list (map unat ws) < 2 ^ LENGTH('a) \<Longrightarrow> unat (sum_list ws) = sum_list (map unat ws)"
  by (induction ws) (simp_all add: unat_word_ariths)

lemma stake_sum_exact:
  assumes "length es \<le> 2 ^ 64"
  shows "unat (stake_sum X st P es) = stake_total X st P es"
proof -
  have uc: "unat (ucast (w :: u64) :: u128) = unat w" for w
    using unsigned_less [of w, where 'a = nat] by (simp add: unsigned_ucast_eq take_bit_nat_eq_self)
  have m: "map unat (map (stake_if X st P) es) = map (\<lambda>e. if P (cr_valence (snd e)) then unat (state_stake X st (fst e)) else 0) es"
    by (simp add: stake_if_def uc)
  have b: "stake_total X st P es' \<le> length es' * (2 ^ 64 - 1)" for es'
  proof (induction es')
    case (Cons e es')
    have "unat (state_stake X st (fst e)) \<le> 2 ^ 64 - 1"
      using unsigned_less [of "state_stake X st (fst e)", where 'a = nat] by simp
    then show ?case using Cons by (simp add: stake_total_def)
  qed (simp add: stake_total_def)
  have "stake_total X st P es \<le> 2 ^ 64 * (2 ^ 64 - 1)"
    using b [of es] assms by (meson le_trans mult_le_mono1)
  also have "\<dots> < 2 ^ 128" by simp
  finally show ?thesis
    using unat_sum_list [of "map (stake_if X st P) es", unfolded m] by (simp add: stake_total_def stake_sum_def)
qed

text \<open>Summing group by group is summing everything.\<close>

lemma sum_list_delta: "distinct as \<Longrightarrow> (\<Sum>a\<leftarrow>as. if b = a then c else 0) = (if b \<in> set as then c else (0 :: 'b::comm_monoid_add))"
  by (induction as) auto

lemma sum_list_groups:
  fixes g :: "'a \<Rightarrow> 'b::comm_monoid_add"
  assumes "distinct as" and "\<forall>x \<in> set xs. f x \<in> set as"
  shows "(\<Sum>a\<leftarrow>as. \<Sum>x\<leftarrow>filter (\<lambda>x. f x = a) xs. g x) = (\<Sum>x\<leftarrow>xs. g x)"
  using assms(2)
proof (induction xs)
  case (Cons x xs)
  have "(\<Sum>a\<leftarrow>as. \<Sum>y\<leftarrow>filter (\<lambda>y. f y = a) (x # xs). g y) =
      (\<Sum>a\<leftarrow>as. (if f x = a then g x else 0) + (\<Sum>y\<leftarrow>filter (\<lambda>y. f y = a) xs. g y))"
    by (intro arg_cong [where f = sum_list] map_cong) auto
  then show ?case using Cons assms(1) by (simp add: sum_list_addf sum_list_delta)
qed (induction as, simp_all)

section \<open>The snapshot\<close>

definition group_of :: "ext \<Rightarrow> bbg_state \<Rightarrow> particle \<Rightarrow> axon_positions" where
  "group_of X st axon = (let es = cards_of (card_map (st_cards st)) axon in
     \<lparr>ap_axon = axon, ap_sums = \<lparr>ss_plus = stake_sum X st (on_side Plus) es, ss_minus = stake_sum X st (on_side Minus) es\<rparr>,
      ap_positions = map (pos_of X st) es\<rparr>)"

lemma balance_stake: "balance_at st (stake_key X cid) = state_stake X st cid"
  by (simp add: balance_at_def state_stake_def)

lemma sums_add_entry:
  "sums_add s (valence_side (cr_valence (snd e))) (state_stake X st (fst e)) =
     \<lparr>ss_plus = ss_plus s + stake_if X st (on_side Plus) e, ss_minus = ss_minus s + stake_if X st (on_side Minus) e\<rparr>"
  by (cases "valence_side (cr_valence (snd e))") (simp_all add: sums_add_def stake_if_def)

lemma axon_walk_ok:
  assumes "\<forall>(cid, r) \<in> set es. fmlookup (card_map (st_cards st)) cid = Some r"
  shows "axon_walk st sums active (map (\<lambda>(cid, _). (cid, stake_key X cid)) es) =
    Some (map (pos_of X st) es, \<lparr>ss_plus = ss_plus sums + stake_sum X st (on_side Plus) es,
      ss_minus = ss_minus sums + stake_sum X st (on_side Minus) es\<rparr>, active + stake_sum X st valence_is_active es)"
  using assms
proof (induction es arbitrary: sums active)
  case (Cons e es)
  obtain cid r where e: "e = (cid, r)" by force
  show ?case
    using Cons.IH Cons.prems sums_add_entry [of _ "(cid, r)" X st]
    by (auto simp: e balance_stake Let_def pos_of_def stake_if_def add.assoc)
qed simp

lemma positions_loop_ok:
  assumes "\<forall>(axon, m) \<in> set gs. sorted_list_of_fmap m = map (\<lambda>(cid, _). (cid, stake_key X cid)) (cards_of (card_map (st_cards st)) axon)"
  shows "positions_loop st snap gs = Some (snap\<lparr>
      sn_axons := sn_axons snap @ map (group_of X st \<circ> fst) gs,
      sn_len := sn_len snap + (\<Sum>a\<leftarrow>map fst gs. length (cards_of (card_map (st_cards st)) a)),
      sn_total := sn_total snap + (\<Sum>a\<leftarrow>map fst gs. stake_sum X st (\<lambda>_. True) (cards_of (card_map (st_cards st)) a)),
      sn_active := sn_active snap + (\<Sum>a\<leftarrow>map fst gs. stake_sum X st valence_is_active (cards_of (card_map (st_cards st)) a))\<rparr>)"
  using assms
proof (induction gs arbitrary: snap)
  case (Cons g gs)
  obtain axon m where g: "g = (axon, m)" by force
  let ?es = "cards_of (card_map (st_cards st)) axon"
  have m: "sorted_list_of_fmap m = map (\<lambda>(cid, _). (cid, stake_key X cid)) ?es" using Cons.prems by (auto simp: g)
  have walk: "axon_walk st sums_zero (sn_active snap) (sorted_list_of_fmap m) =
    Some (map (pos_of X st) ?es, ap_sums (group_of X st axon), sn_active snap + stake_sum X st valence_is_active ?es)"
    unfolding m by (subst axon_walk_ok) (auto simp: set_cards_of sums_zero_def group_of_def Let_def)
  have IH: "positions_loop st snap' gs = Some (snap'\<lparr>
      sn_axons := sn_axons snap' @ map (group_of X st \<circ> fst) gs,
      sn_len := sn_len snap' + (\<Sum>a\<leftarrow>map fst gs. length (cards_of (card_map (st_cards st)) a)),
      sn_total := sn_total snap' + (\<Sum>a\<leftarrow>map fst gs. stake_sum X st (\<lambda>_. True) (cards_of (card_map (st_cards st)) a)),
      sn_active := sn_active snap' + (\<Sum>a\<leftarrow>map fst gs. stake_sum X st valence_is_active (cards_of (card_map (st_cards st)) a))\<rparr>)" for snap'
    using Cons by auto
  show ?case
    by (simp add: g walk IH group_of_def Let_def stake_sides add.assoc)
qed simp

lemma side_sums_ok:
  assumes "cards_ok X (st_cards st)"
  shows "side_sums_of st axon = Some (ap_sums (group_of X st axon))"
proof -
  let ?es = "cards_of (card_map (st_cards st)) axon"
  have ix: "index_ok X (card_map (st_cards st)) (cd_by_axon (st_cards st))" using assms by (simp add: cards_ok_def)
  have "indexed st axon = Some (map (\<lambda>e. (snd e, stake_key X (fst e))) ?es)"
  proof (cases "fmlookup (cd_by_axon (st_cards st)) axon")
    case None
    then show ?thesis using index_none [OF ix None] by (simp add: indexed_def)
  next
    case (Some m)
    have "those (map (\<lambda>(c, key). map_option (\<lambda>r. (r, key)) (fmlookup (card_map (st_cards st)) c)) (sorted_list_of_fmap m)) =
        Some (map (\<lambda>e. (snd e, stake_key X (fst e))) ?es)"
      unfolding index_keys [OF ix Some] map_map by (rule those_map_Some) (auto simp: set_cards_of)
    then show ?thesis by (simp add: indexed_def Some)
  qed
  moreover have "foldl (\<lambda>sums (r, key). sums_add sums (valence_side (cr_valence r)) (balance_at st key)) s
      (map (\<lambda>e. (snd e, stake_key X (fst e))) es) =
    \<lparr>ss_plus = ss_plus s + stake_sum X st (on_side Plus) es, ss_minus = ss_minus s + stake_sum X st (on_side Minus) es\<rparr>" for s es
    by (induction es arbitrary: s) (simp_all add: balance_stake sums_add_entry add.assoc)
  ultimately show ?thesis by (simp add: side_sums_of_def sums_zero_def group_of_def Let_def)
qed

lemma find_map_key:
  assumes "\<And>a. key (g a) = a"
  shows "List.find (\<lambda>x. key x = k) (map g as) = (if k \<in> set as then Some (g k) else None)"
  by (induction as) (simp_all add: assms)

lemma axons_with_cards:
  assumes "index_ok X recs by"
  shows "set (map fst (sorted_list_of_fmap by)) = cr_particle ` snd ` set (sorted_list_of_fmap recs)"
proof (intro set_eqI iffI)
  fix a
  assume "a \<in> set (map fst (sorted_list_of_fmap by))"
  then obtain m where m: "fmlookup by a = Some m" by (force simp: set_sorted_list_of_fmap)
  moreover have "m \<noteq> fmempty" using index_okD(2) [OF assms, of a] m by blast
  ultimately obtain k v where "fmlookup m k = Some v" by (metis fmap_ext fmempty_lookup not_Some_eq)
  then have "(k, v) \<in> set (sorted_list_of_fmap m)" by (simp add: set_sorted_list_of_fmap)
  then have "cards_of recs a \<noteq> []" using index_keys [OF assms m] by auto
  then obtain e where "e \<in> set (cards_of recs a)" using hd_in_set by blast
  then show "a \<in> cr_particle ` snd ` set (sorted_list_of_fmap recs)"
    by (force simp: cards_of_def)
next
  fix a
  assume "a \<in> cr_particle ` snd ` set (sorted_list_of_fmap recs)"
  then obtain cid r where "fmlookup recs cid = Some r" "cr_particle r = a" by (force simp: set_sorted_list_of_fmap)
  then have "indexed_key by a cid = Some (stake_key X cid)" using index_okD(1) [OF assms] by blast
  then obtain m where "fmlookup by a = Some m" by (auto simp: indexed_key_def split: Option.bind_splits)
  then show "a \<in> set (map fst (sorted_list_of_fmap by))"
    unfolding set_map fst_image_iff set_sorted_list_of_fmap by blast
qed

section \<open>Properties\<close>

text \<open>The epoch snapshot never panics, counts every card once and does not overflow: its total and active
  stake are the exact sums of the stakes of all cards and of the cards with a side taken, a lookup by axon
  returns the cards of that axon in ascending order with their stakes and the sums of its two sides, and the
  sums read directly off the index are the same.\<close>

theorem positions_exact:
  assumes "cards_ok X (st_cards st)" and "fcard (fmdom (card_map (st_cards st))) \<le> 2 ^ 64"
  shows "\<exists>snap. state_positions st = Some snap \<and> sn_len snap = fcard (fmdom (card_map (st_cards st))) \<and>
    unat (sn_total snap) = stake_total X st (\<lambda>_. True) (sorted_list_of_fmap (card_map (st_cards st))) \<and>
    unat (sn_active snap) = stake_total X st valence_is_active (sorted_list_of_fmap (card_map (st_cards st))) \<and>
    (\<forall>axon. snapshot_get snap axon = (if cards_of (card_map (st_cards st)) axon = [] then None else Some (group_of X st axon)) \<and>
       side_sums_of st axon = Some (ap_sums (group_of X st axon)) \<and>
       unat (ss_plus (ap_sums (group_of X st axon))) = stake_total X st (on_side Plus) (cards_of (card_map (st_cards st)) axon) \<and>
       unat (ss_minus (ap_sums (group_of X st axon))) = stake_total X st (on_side Minus) (cards_of (card_map (st_cards st)) axon))"
proof -
  let ?recs = "card_map (st_cards st)" and ?by = "cd_by_axon (st_cards st)"
  let ?es = "sorted_list_of_fmap ?recs" and ?as = "map fst (sorted_list_of_fmap ?by)"
  have ix: "index_ok X ?recs ?by" using assms(1) by (simp add: cards_ok_def)
  have as: "set ?as = cr_particle ` snd ` set ?es" "distinct ?as" "sorted ?as"
    using axons_with_cards [OF ix] sorted_list_of_fmap_props [of ?by] by simp_all
  let ?snap = "\<lparr>sn_axons = map (group_of X st) ?as, sn_len = (\<Sum>a\<leftarrow>?as. length (cards_of ?recs a)),
     sn_total = (\<Sum>a\<leftarrow>?as. stake_sum X st (\<lambda>_. True) (cards_of ?recs a)),
     sn_active = (\<Sum>a\<leftarrow>?as. stake_sum X st valence_is_active (cards_of ?recs a))\<rparr>"
  have snap: "state_positions st = Some ?snap"
    unfolding state_positions_def using index_keys [OF ix]
    by (subst positions_loop_ok [where X = X]) (auto simp: set_sorted_list_of_fmap snapshot_empty_def)
  have grp: "(\<Sum>a\<leftarrow>?as. \<Sum>e\<leftarrow>cards_of ?recs a. g e) = (\<Sum>e\<leftarrow>?es. g e)" for g :: "particle \<times> card_record \<Rightarrow> 'b::comm_monoid_add"
    unfolding cards_of_def case_prod_beta using as by (intro sum_list_groups [of ?as ?es "\<lambda>e. cr_particle (snd e)" g]) auto
  have len: "length ?es \<le> 2 ^ 64" "length (cards_of ?recs a) \<le> 2 ^ 64" for a
    using assms(2) length_filter_le [of _ ?es] by (auto simp: length_sorted_list_of_fmap cards_of_def intro: order_trans)
  have "sn_len ?snap = fcard (fmdom ?recs)"
    using grp [of "\<lambda>_. 1 :: nat"] by (simp add: sum_list_triv length_sorted_list_of_fmap)
  moreover have tot: "unat (\<Sum>a\<leftarrow>?as. stake_sum X st P (cards_of ?recs a)) = stake_total X st P ?es" for P
    using grp [of "stake_if X st P"] stake_sum_exact [OF len(1)] by (simp add: stake_sum_def)
  moreover have "snapshot_get ?snap axon = (if cards_of ?recs axon = [] then None else Some (group_of X st axon))" for axon
  proof -
    have gets: "map ap_axon (sn_axons ?snap) = ?as" by (simp add: group_of_def Let_def comp_def)
    have "snapshot_get ?snap axon = List.find (\<lambda>g. ap_axon g = axon) (sn_axons ?snap)"
      unfolding snapshot_get_def using binary_search_find [of ap_axon "sn_axons ?snap" axon] as(2,3) unfolding gets by simp
    also have "\<dots> = (if axon \<in> set ?as then Some (group_of X st axon) else None)"
      using find_map_key [of ap_axon "group_of X st" axon ?as] by (simp add: group_of_def Let_def)
    also have "axon \<in> set ?as \<longleftrightarrow> cards_of ?recs axon \<noteq> []"
      unfolding as(1) by (force simp: cards_of_def filter_empty_conv)
    finally show ?thesis by simp
  qed
  moreover have "side_sums_of st axon = Some (ap_sums (group_of X st axon))" for axon
    by (rule side_sums_ok [OF assms(1)])
  ultimately show ?thesis
    using snap stake_sum_exact [OF len(2)] by (intro exI [of _ ?snap]) (simp add: group_of_def Let_def del: map_map)
qed

theorem positions_exact_witness:
  "\<exists>c snap. cards_insert sample_ext cards_new 4 sample_card = Some (c, None) \<and>
     state_positions (state_new\<lparr>st_cards := c, st_balances := fst (keyed_insert keyed_new (stake_key sample_ext 4) 70)\<rparr>) = Some snap \<and>
     sn_len snap = 1 \<and> unat (sn_total snap) = 70 \<and> unat (sn_active snap) = 70"
proof -
  have new: "card_map cards_new = fmempty" by (simp add: cards_new_def keyed_new_def)
  obtain c where c: "cards_insert sample_ext cards_new 4 sample_card = Some (c, None)" "cards_ok sample_ext c"
    "card_map c = fmupd 4 sample_card fmempty"
    using cards_insert_ok [OF cards_ok_new, of sample_ext 4 sample_card] by (auto simp: new)
  let ?st = "state_new\<lparr>st_cards := c, st_balances := fst (keyed_insert keyed_new (stake_key sample_ext 4) 70)\<rparr>"
  have es: "sorted_list_of_fmap (card_map (st_cards ?st)) = [(4, sample_card)]"
    by (simp add: c(3) sorted_list_of_fmap_def sorted_list_of_fset.rep_eq)
  have stake: "state_stake sample_ext ?st 4 = 70" by (simp add: state_stake_def)
  have pre: "cards_ok sample_ext (st_cards ?st)" "fcard (fmdom (card_map (st_cards ?st))) = 1"
    using c(2,3) by (simp_all add: fcard.rep_eq)
  obtain snap where "state_positions ?st = Some snap" "sn_len snap = fcard (fmdom (card_map (st_cards ?st)))"
    "unat (sn_total snap) = stake_total sample_ext ?st (\<lambda>_. True) (sorted_list_of_fmap (card_map (st_cards ?st)))"
    "unat (sn_active snap) = stake_total sample_ext ?st valence_is_active (sorted_list_of_fmap (card_map (st_cards ?st)))"
    using positions_exact [OF pre(1)] pre(2) by auto
  then show ?thesis
    using c(1) unfolding es pre(2) stake_total_def by (auto simp: stake sample_card_def valence_is_active_def)
qed

end
