(* ===== verification/Bbg_Certificate.thy ===== *)
theory Bbg_Certificate
  imports Bbg_State
begin

text \<open>
  State certificates (\<open>certificate.rs\<close>): complete public tables with the 14 root leaves, and the
  dimension numbers of \<open>query.rs\<close>. The polynomial commitment crate \<open>lens\<close> is a parameter: a record of what
  the sources call besides \<open>Brakedown::commit\<close>. The 14 leaves of a certificate are a list of
  four-word digests; an array of that length is what the type of the source enforces.
\<close>

section \<open>Dimension numbers\<close>

definition dim_from_u64 :: "u64 \<Rightarrow> dim option" where
  "dim_from_u64 v = (if v = 0 then Some Particles else if v = 1 then Some AxonsOut else if v = 2 then Some AxonsIn
     else if v = 3 then Some Neurons else if v = 4 then Some Locations else if v = 5 then Some Coins
     else if v = 6 then Some Cards else if v = 7 then Some Files else if v = 8 then Some Time
     else if v = 9 then Some Signals else if v = 10 then Some Balances else None)"

fun dim_as_u64 :: "dim \<Rightarrow> u64" where
  "dim_as_u64 Particles = 0"
| "dim_as_u64 AxonsOut = 1"
| "dim_as_u64 AxonsIn = 2"
| "dim_as_u64 Neurons = 3"
| "dim_as_u64 Locations = 4"
| "dim_as_u64 Coins = 5"
| "dim_as_u64 Cards = 6"
| "dim_as_u64 Files = 7"
| "dim_as_u64 Time = 8"
| "dim_as_u64 Signals = 9"
| "dim_as_u64 Balances = 10"

lemma dim_from_as [simp]: "dim_from_u64 (dim_as_u64 d) = Some d"
  by (cases d) (simp_all add: dim_from_u64_def)

lemma dim_as_from: "dim_from_u64 v = Some d \<longleftrightarrow> v = dim_as_u64 d"
  by (cases d) (auto simp: dim_from_u64_def split: if_splits)

lemma dim_as_le [simp]: "dim_as_u64 d \<le> 10"
  by (cases d) (simp_all add: word_le_nat_alt)

lemma dim_as_not_greater [simp]: "(10 < dim_as_u64 d) = False"
  using dim_as_le [of d] by (simp add: not_less del: dim_as_le)

lemma dim_as_inj: "dim_as_u64 c = dim_as_u64 d \<longleftrightarrow> c = d"
  by (metis dim_from_as option.inject)

lemma small_namespace:
  assumes "n \<le> (10 :: u64)"
  obtains d where "n = dim_as_u64 d"
proof -
  have "unat n \<in> {..10}" using assms by (simp add: word_le_nat_alt)
  also have "{..10 :: nat} = {0, 1, 2, 3, 4, 5, 6, 7, 8, 9, 10}" by (simp add: atMost_Suc numeral_eq_Suc insert_commute)
  finally have "\<exists>d. dim_from_u64 n = Some d" by (auto simp: dim_from_u64_def word_unat_eq_iff)
  then show ?thesis using that by (auto simp: dim_as_from)
qed

section \<open>The commitment crate\<close>

record 'o lens =
  ln_version :: u32
  ln_num_vars :: "goldilocks list \<Rightarrow> nat"
  ln_open :: "goldilocks list \<Rightarrow> goldilocks list \<Rightarrow> bytes \<Rightarrow> 'o"
  ln_verify :: "particle \<Rightarrow> goldilocks list \<Rightarrow> goldilocks \<Rightarrow> 'o \<Rightarrow> bytes \<Rightarrow> bool"

section \<open>Certificates\<close>

definition CERTIFICATE_VERSION :: u32 where "CERTIFICATE_VERSION = 2"
definition MAX_FIELDS :: nat where "MAX_FIELDS = 2 ^ 20"

record dimension_table =
  dt_namespace :: u64
  dt_fields :: "u64 list"

record state_certificate =
  sc_version :: u32
  sc_lens_version :: u32
  sc_leaves :: "digest list"
  sc_dimensions :: "dimension_table list"

datatype cert_error = NamespaceRange | DuplicateNamespace | SizeOverflow | FieldLimit | StaleRoot
  | DimensionMismatch u64 | UnsupportedVersion | NoncanonicalLeaf | TooManyDimensions | NamespaceOrder
  | InvalidMetadata | NoncanonicalRoot | RootMismatch

fun ilog2 :: "nat \<Rightarrow> nat" where
  "ilog2 n = (if n < 2 then 0 else Suc (ilog2 (n div 2)))"

declare ilog2.simps [simp del]

definition usize_add :: "nat \<Rightarrow> nat \<Rightarrow> nat option" where
  "usize_add a b = (if a + b < 2 ^ 64 then Some (a + b) else None)"

definition usize_mul :: "nat \<Rightarrow> nat \<Rightarrow> nat option" where
  "usize_mul a b = (if a * b < 2 ^ 64 then Some (a * b) else None)"

text \<open>The four words of a digest, and their little-endian bytes.\<close>

definition words_of :: "digest \<Rightarrow> u64 list" where
  "words_of d = (case d of (a, b, c, e) \<Rightarrow> [a, b, c, e])"

definition digest_bytes :: "digest \<Rightarrow> bytes" where
  "digest_bytes d = concat (map (le_bytes 8) (words_of d))"

definition map_digest :: "(u64 \<Rightarrow> u64) \<Rightarrow> digest \<Rightarrow> digest" where
  "map_digest f d = (case d of (a, b, c, e) \<Rightarrow> (f a, f b, f c, f e))"

text \<open>One table of \<open>validate_shape\<close>: the namespaces increase, the running total stays in the limit, the
  metadata agree with the length and every field is canonical.\<close>

definition table_invalid :: "ext \<Rightarrow> u64 list \<Rightarrow> bool" where
  "table_invalid X fs \<longleftrightarrow> length fs < HEADER_FIELDS \<or> fs ! 0 \<noteq> TABLE_VERSION \<or> fs ! 1 \<noteq> of_nat (length fs) \<or>
     of_nat ((length fs - HEADER_FIELDS) div KEY_FIELDS) < fs ! 2 \<or> (fs ! 2 = 0 \<and> length fs \<noteq> HEADER_FIELDS) \<or>
     list_ex (\<lambda>v. gl_P X \<le> v) fs"

fun validate_tables :: "ext \<Rightarrow> u64 option \<Rightarrow> nat \<Rightarrow> dimension_table list \<Rightarrow> cert_error + unit" where
  "validate_tables X previous tot [] = Inr ()"
| "validate_tables X previous tot (t # ts) =
     (if 10 < dt_namespace t \<or> (case previous of None \<Rightarrow> False | Some n \<Rightarrow> dt_namespace t \<le> n) then Inl NamespaceOrder
      else and_then (ok_or SizeOverflow (usize_add tot (length (dt_fields t)))) (\<lambda>tot.
        if MAX_FIELDS < tot then Inl FieldLimit
        else if table_invalid X (dt_fields t) then Inl InvalidMetadata
        else validate_tables X (Some (dt_namespace t)) tot ts))"

definition validate_shape :: "ext \<Rightarrow> 'o lens \<Rightarrow> state_certificate \<Rightarrow> cert_error + unit" where
  "validate_shape X L c =
     (if sc_version c \<noteq> CERTIFICATE_VERSION \<or> sc_lens_version c \<noteq> ln_version L then Inl UnsupportedVersion
      else if list_ex (\<lambda>v. gl_P X \<le> v) (concat (map words_of (sc_leaves c))) then Inl NoncanonicalLeaf
      else if 11 < length (sc_dimensions c) then Inl TooManyDimensions
      else validate_tables X None 0 (sc_dimensions c))"

text \<open>Every table against its leaf.\<close>

fun check_tables :: "ext \<Rightarrow> digest list \<Rightarrow> dimension_table list \<Rightarrow> cert_error + unit" where
  "check_tables X leaves [] = Inr ()"
| "check_tables X leaves (t # ts) =
     (if be_bytes 32 (commit_fields X (map (gl_new X) (dt_fields t))) \<noteq> digest_bytes (leaves ! unat (dt_namespace t))
      then Inl (DimensionMismatch (dt_namespace t)) else check_tables X leaves ts)"

definition certificate_leaves :: "ext \<Rightarrow> state_certificate \<Rightarrow> root_leaves" where
  "certificate_leaves X c =
     (let field_leaves = map (map_digest (gl_new X)) (sc_leaves c)
      in \<lparr>rl_dims = take 11 field_leaves, rl_a = field_leaves ! 11, rl_n = field_leaves ! 12, rl_stats = field_leaves ! 13\<rparr>)"

definition certificate_root :: "ext \<Rightarrow> 'o lens \<Rightarrow> state_certificate \<Rightarrow> cert_error + digest" where
  "certificate_root X L c =
     and_then (validate_shape X L c) (\<lambda>_.
     and_then (check_tables X (sc_leaves c) (sc_dimensions c)) (\<lambda>_.
     Inr (root_from_leaves X (certificate_leaves X c))))"

definition certificate_verify :: "ext \<Rightarrow> 'o lens \<Rightarrow> state_certificate \<Rightarrow> digest \<Rightarrow> cert_error + unit" where
  "certificate_verify X L c expected_root =
     (if list_ex (\<lambda>v. gl_P X \<le> v) (words_of expected_root) then Inl NoncanonicalRoot
      else and_then (certificate_root X L c) (\<lambda>r. fail_if (r \<noteq> expected_root) RootMismatch))"

text \<open>\<open>zheng::execution::state_evidence::StateEvidence\<close>: the same leaves and tables.\<close>

record state_evidence =
  se_leaves :: "digest list"
  se_tables :: "(u64 \<times> u64 list) list"

definition certificate_evidence :: "ext \<Rightarrow> 'o lens \<Rightarrow> state_certificate \<Rightarrow> cert_error + state_evidence" where
  "certificate_evidence X L c = and_then (validate_shape X L c) (\<lambda>_.
     Inr \<lparr>se_leaves = sc_leaves c, se_tables = map (\<lambda>t. (dt_namespace t, dt_fields t)) (sc_dimensions c)\<rparr>)"

definition certificate_cell :: "ext \<Rightarrow> 'o lens \<Rightarrow> state_certificate \<Rightarrow> u64 \<Rightarrow> u64 \<Rightarrow> u64 option" where
  "certificate_cell X L c namespace key =
     (if sc_version c \<noteq> CERTIFICATE_VERSION \<or> sc_lens_version c \<noteq> ln_version L \<or> 10 < namespace \<or> 11 < length (sc_dimensions c)
      then None
      else do {
        table \<leftarrow> find (\<lambda>t. dt_namespace t = namespace) (sc_dimensions c);
        let fs = dt_fields table;
        if length fs < HEADER_FIELDS \<or> MAX_FIELDS < length fs \<or> fs ! 0 \<noteq> TABLE_VERSION \<or> fs ! 1 \<noteq> of_nat (length fs) then None
        else if unat key < length fs then (if fs ! unat key < gl_P X then Some (fs ! unat key) else None)
        else None })"

text \<open>The tables of \<open>from_state\<close>, in the order of the sorted namespaces.\<close>

definition entries_count :: "(particle \<times> goldilocks list) list \<Rightarrow> nat" where
  "entries_count entries = HEADER_FIELDS + sum_list (map (\<lambda>(_, values). KEY_FIELDS + length values) entries)"

fun state_tables :: "ext \<Rightarrow> bbg_state \<Rightarrow> nat \<Rightarrow> u64 list \<Rightarrow> (cert_error + dimension_table list) option" where
  "state_tables X st tot [] = Some (Inr [])"
| "state_tables X st tot (namespace # ns) = do {
     d \<leftarrow> dim_from_u64 namespace;
     let entries = dim_entries X st d;
     case usize_add tot (entries_count entries) of
       None \<Rightarrow> Some (Inl SizeOverflow)
     | Some tot \<Rightarrow>
         if MAX_FIELDS < tot then Some (Inl FieldLimit)
         else do {
           rest \<leftarrow> state_tables X st tot ns;
           Some (and_then rest (\<lambda>ts. Inr (\<lparr>dt_namespace = namespace, dt_fields = dim_serialize X entries\<rparr> # ts))) } }"

definition certificate_from_state ::
  "ext \<Rightarrow> 'o lens \<Rightarrow> bbg_state \<Rightarrow> u64 list \<Rightarrow> (bbg_state \<times> (cert_error + state_certificate)) option" where
  "certificate_from_state X L st namespaces =
     (if 11 < length namespaces \<or> list_ex (\<lambda>n. 10 < n) namespaces then Some (st, Inl NamespaceRange)
      else let namespaces = sort namespaces in
      if list_ex (\<lambda>(a, b). a = b) (zip namespaces (tl namespaces)) then Some (st, Inl DuplicateNamespace)
      else do {
        tables \<leftarrow> state_tables X st 0 namespaces;
        case tables of
          Inl e \<Rightarrow> Some (st, Inl e)
        | Inr dimensions \<Rightarrow> do {
            (st, root_leaves) \<leftarrow> state_root_leaves X st;
            let certificate = \<lparr>sc_version = CERTIFICATE_VERSION, sc_lens_version = ln_version L,
              sc_leaves = ordered root_leaves, sc_dimensions = dimensions\<rparr>;
            case certificate_root X L certificate of
              Inl e \<Rightarrow> Some (st, Inl e)
            | Inr root \<Rightarrow> do {
                (st, cached) \<leftarrow> state_root X st;
                Some (st, if digest_bytes root \<noteq> be_bytes 32 cached then Inl StaleRoot else Inr certificate) } } })"

section \<open>Digests and canonical words\<close>

lemma gl_new_canonical: "nebu_laws X \<Longrightarrow> v < gl_P X \<Longrightarrow> gl_new X v = v"
  by (simp add: nebu_laws_def)

lemma map_gl_new_canonical: "nebu_laws X \<Longrightarrow> \<forall>v \<in> set fs. v < gl_P X \<Longrightarrow> map (gl_new X) fs = fs"
  by (simp add: map_idI gl_new_canonical)

lemma small_canonical: "nebu_laws X \<Longrightarrow> v < 2 ^ 32 \<Longrightarrow> v < gl_P X"
  by (metis gl_new_small nebu_laws_def)

lemma map_digest_canonical: "nebu_laws X \<Longrightarrow> \<forall>v \<in> set (words_of d). v < gl_P X \<Longrightarrow> map_digest (gl_new X) d = d"
  by (cases d) (simp add: map_digest_def words_of_def gl_new_canonical)

lemma length_digest_bytes [simp]: "length (digest_bytes d) = 32"
  by (cases d) (simp add: digest_bytes_def words_of_def)

lemma root_bytes [simp]: "be_bytes 32 (root_to_bytes d) = digest_bytes d"
proof -
  have "root_to_bytes d = of_be_bytes (digest_bytes d)"
    by (cases d) (simp add: root_to_bytes_def digest_bytes_def words_of_def)
  then show ?thesis by (simp add: be_bytes_of_be_bytes)
qed

lemma digest_bytes_inj: "digest_bytes c = digest_bytes d \<longleftrightarrow> c = d"
proof
  assume "digest_bytes c = digest_bytes d"
  then have "be_bytes 32 (root_to_bytes c) = be_bytes 32 (root_to_bytes d)" by simp
  then have "root_to_bytes c = root_to_bytes d" unfolding be_bytes_inj [of 32, where 'a = 256, simplified] .
  then show "c = d" by (rule root_to_bytes_inj)
qed simp

lemma chunks32:
  assumes "length bs = 32"
  shows "take 8 bs @ take 8 (drop 8 bs) @ take 8 (drop 16 bs) @ drop 24 bs = bs"
proof -
  have "drop 16 bs = take 8 (drop 16 bs) @ drop 24 bs" using append_take_drop_id [of 8 "drop 16 bs"] by simp
  moreover have "drop 8 bs = take 8 (drop 8 bs) @ drop 16 bs" using append_take_drop_id [of 8 "drop 8 bs"] by simp
  ultimately show ?thesis by (metis append_take_drop_id)
qed

lemma digest_bytes_of_bytes32:
  assumes "nebu_laws X" and "canonical_digest X b"
  shows "digest_bytes (goldilocks_from_bytes32 X b) = be_bytes 32 b"
proof -
  let ?c = "\<lambda>i. take 8 (drop (8 * i) (be_bytes 32 b))"
  have w: "le_bytes 8 (gl_new X (of_le_bytes (?c i))) = ?c i" if "i \<in> set [0..<4]" for i
  proof -
    have "gl_new X (of_le_bytes (?c i)) = of_le_bytes (?c i)"
      using assms that by (intro gl_new_canonical) (simp_all add: canonical_digest_def)
    then show ?thesis using that by (simp add: le_bytes_of_le_bytes)
  qed
  show ?thesis
    using w [of 0] w [of 1] w [of 2] w [of 3] chunks32 [of "be_bytes 32 b"]
    by (simp add: digest_bytes_def goldilocks_from_bytes32_def words_of_def Let_def)
qed

lemma gl_new_less: "nebu_laws X \<Longrightarrow> gl_new X v < gl_P X"
  unfolding nebu_laws_def by blast

lemma words_of_bytes32: "nebu_laws X \<Longrightarrow> \<forall>v \<in> set (words_of (goldilocks_from_bytes32 X b)). v < gl_P X"
  by (simp add: goldilocks_from_bytes32_def words_of_def Let_def gl_new_less)

lemma words_of_compress: "nebu_laws X \<Longrightarrow> \<forall>v \<in> set (words_of (compress4 X a b)). v < gl_P X"
  by (cases a; cases b) (simp add: compress4_def words_of_def Let_def gl_new_less)

lemma words_of_root: "nebu_laws X \<Longrightarrow> rl_dims l \<noteq> [] \<Longrightarrow> \<forall>v \<in> set (words_of (root_from_leaves X l)). v < gl_P X"
  unfolding root_from_leaves_def ordered_def by (simp add: words_of_compress)

section \<open>The tables of a state\<close>

definition small_entries :: "(particle \<times> goldilocks list) list \<Rightarrow> bool" where
  "small_entries es \<longleftrightarrow> (\<forall>(k, v) \<in> set es. \<forall>w \<in> set v. w < 2 ^ 32)"

lemma scalar_fields_small: "nebu_laws X \<Longrightarrow> w \<in> set (scalar_fields X vs) \<Longrightarrow> w < 2 ^ 32"
  by (auto simp: scalar_fields_def u64_limbs_def gl_new_small low_limb_small high_limb_small
      simp del: semiring_norm power_numeral)

lemma bytes32_limbs_small: "nebu_laws X \<Longrightarrow> w \<in> set (bytes32_limbs X b) \<Longrightarrow> w < 2 ^ 32"
  unfolding bytes32_limbs_def by (auto simp only: set_map image_iff gl_new_small limb_at_small)

lemma dim_entries_small:
  assumes "nebu_laws X"
  shows "small_entries (dim_entries X st d)"
  unfolding small_entries_def
  by (cases d) (auto simp: axon_entries_def simp del: semiring_norm power_numeral
      dest: scalar_fields_small [OF assms] bytes32_limbs_small [OF assms])

lemma length_dim_serialize_count: "length (dim_serialize X es) = entries_count es"
  by (simp add: length_dim_serialize entries_count_def)

lemma entries_count_ge: "8 * length es \<le> entries_count es - HEADER_FIELDS" "HEADER_FIELDS \<le> entries_count es"
  by (induction es) (auto simp: entries_count_def KEY_FIELDS_def)

lemma of_nat_u64_less: "n < 2 ^ 32 \<Longrightarrow> (of_nat n :: u64) < 2 ^ 32"
  by (simp add: word_less_nat_alt unat_of_nat take_bit_nat_eq_self)

lemma dim_serialize_header:
  assumes X: "nebu_laws X" and n: "entries_count es \<le> MAX_FIELDS"
  shows "dim_serialize X es ! 0 = TABLE_VERSION" "dim_serialize X es ! 1 = of_nat (entries_count es)"
    "dim_serialize X es ! 2 = of_nat (length es)"
proof -
  have c: "entries_count es < 2 ^ 32" using n by (simp add: MAX_FIELDS_def)
  moreover have "length es < 2 ^ 32" using c entries_count_ge(1) [of es] by linarith
  ultimately show "dim_serialize X es ! 1 = of_nat (entries_count es)" "dim_serialize X es ! 2 = of_nat (length es)"
    by (simp_all only: gl_new_small [OF X of_nat_u64_less] dim_serialize_def entries_count_def Let_def) simp_all
  show "dim_serialize X es ! 0 = TABLE_VERSION"
    by (simp add: dim_serialize_def Let_def TABLE_VERSION_def gl_new_small [OF X])
qed

lemma dim_serialize_canonical:
  assumes X: "nebu_laws X" and es: "small_entries es" and v: "v \<in> set (dim_serialize X es)"
  shows "v < gl_P X"
proof -
  have "gl_new X w < gl_P X" for w by (rule gl_new_less [OF X])
  moreover have "v < gl_P X" if "(k, vs) \<in> set es" "v \<in> set vs" for k vs
    using that es by (intro small_canonical [OF X]) (auto simp: small_entries_def simp del: semiring_norm power_numeral)
  ultimately show ?thesis using v by (auto simp: dim_serialize_def Let_def bytes32_limbs_def)
qed

lemma dim_serialize_valid:
  assumes "nebu_laws X" and "small_entries es" and n: "entries_count es \<le> MAX_FIELDS"
  shows "\<not> table_invalid X (dim_serialize X es)"
proof -
  have c: "entries_count es < 2 ^ 32" using n by (simp add: MAX_FIELDS_def)
  have "length es \<le> (entries_count es - HEADER_FIELDS) div KEY_FIELDS"
    using entries_count_ge(1) [of es] by (simp add: KEY_FIELDS_def less_eq_div_iff_mult_less_eq mult.commute)
  moreover have "(entries_count es - HEADER_FIELDS) div KEY_FIELDS < 2 ^ 32"
    using c by (simp add: KEY_FIELDS_def less_mult_imp_div_less)
  ultimately have "\<not> (of_nat ((entries_count es - HEADER_FIELDS) div KEY_FIELDS) :: u64) < of_nat (length es)"
    by (simp add: word_less_nat_alt unat_of_nat take_bit_nat_eq_self)
  moreover have "es = []" if "(of_nat (length es) :: u64) = 0"
  proof -
    have "length es < 2 ^ 64" using c entries_count_ge(1) [of es] by simp
    then show ?thesis using that by (simp add: word_unat_eq_iff unat_of_nat take_bit_nat_eq_self)
  qed
  moreover have "\<not> list_ex (\<lambda>v. gl_P X \<le> v) (dim_serialize X es)"
    using dim_serialize_canonical [OF assms(1,2)] by (auto simp: list_ex_iff not_le)
  moreover have "entries_count [] = HEADER_FIELDS" by (simp add: entries_count_def)
  ultimately show ?thesis
    using entries_count_ge(2) [of es] unfolding table_invalid_def length_dim_serialize_count dim_serialize_header [OF assms(1) n]
    by fastforce
qed

section \<open>Certificates of a state\<close>

definition state_table :: "ext \<Rightarrow> bbg_state \<Rightarrow> dim \<Rightarrow> dimension_table" where
  "state_table X st d = \<lparr>dt_namespace = dim_as_u64 d, dt_fields = dim_serialize X (dim_entries X st d)\<rparr>"

definition state_cert :: "ext \<Rightarrow> 'o lens \<Rightarrow> bbg_state \<Rightarrow> dim list \<Rightarrow> state_certificate" where
  "state_cert X L st ds = \<lparr>sc_version = CERTIFICATE_VERSION, sc_lens_version = ln_version L,
     sc_leaves = ordered (spec_leaves X st), sc_dimensions = map (state_table X st) ds\<rparr>"

lemma state_table_sel [simp]:
  "dt_namespace (state_table X st d) = dim_as_u64 d" "dt_fields (state_table X st d) = dim_serialize X (dim_entries X st d)"
  by (simp_all add: state_table_def)

abbreviation tables_count :: "ext \<Rightarrow> bbg_state \<Rightarrow> dim list \<Rightarrow> nat" where
  "tables_count X st ds \<equiv> sum_list (map (\<lambda>d. entries_count (dim_entries X st d)) ds)"

lemma usize_add_small: "a + b \<le> MAX_FIELDS \<Longrightarrow> usize_add a b = Some (a + b)"
  by (simp add: usize_add_def MAX_FIELDS_def)

lemma state_tables_map:
  "tot + tables_count X st ds \<le> MAX_FIELDS \<Longrightarrow>
     state_tables X st tot (map dim_as_u64 ds) = Some (Inr (map (state_table X st) ds))"
proof (induction ds arbitrary: tot)
  case (Cons d ds)
  let ?n = "entries_count (dim_entries X st d)"
  have "tot + ?n \<le> MAX_FIELDS" "tot + ?n + tables_count X st ds \<le> MAX_FIELDS" using Cons.prems by auto
  with Cons.IH [OF this(2)] show ?case
    by (simp add: usize_add_small state_table_def del: dim_entries.simps)
qed simp

lemma validate_state_tables:
  assumes "nebu_laws X"
  shows "tot + tables_count X st ds \<le> MAX_FIELDS \<Longrightarrow> sorted_wrt (<) (map dim_as_u64 ds) \<Longrightarrow>
    (\<forall>n. prev = Some n \<longrightarrow> (\<forall>d \<in> set ds. n < dim_as_u64 d)) \<Longrightarrow>
    validate_tables X prev tot (map (state_table X st) ds) = Inr ()"
proof (induction ds arbitrary: tot prev)
  case (Cons d ds)
  let ?n = "entries_count (dim_entries X st d)"
  have n: "tot + ?n \<le> MAX_FIELDS" "?n \<le> MAX_FIELDS" "tot + ?n + tables_count X st ds \<le> MAX_FIELDS"
    using Cons.prems(1) by auto
  have "\<not> table_invalid X (dim_serialize X (dim_entries X st d))"
    by (rule dim_serialize_valid [OF assms dim_entries_small [OF assms] n(2)])
  moreover have "validate_tables X (Some (dim_as_u64 d)) (tot + ?n) (map (state_table X st) ds) = Inr ()"
    using Cons.prems by (intro Cons.IH n) simp_all
  moreover have "\<not> (case prev of None \<Rightarrow> False | Some m \<Rightarrow> dim_as_u64 d \<le> m)" "\<not> 10 < dim_as_u64 d"
    using Cons.prems(3) by (auto simp: not_le not_less split: option.split)
  ultimately show ?case
    using n(1) by (cases prev) (simp_all add: ok_or_def length_dim_serialize_count usize_add_small del: dim_entries.simps)
qed simp

lemma commit_dim_canonical: "hemera_laws X \<Longrightarrow> canonical_digest X (commit_dim X es)"
  by (simp add: hemera_laws_def commit_dim_def commit_fields_def)

lemma leaf_of_dim:
  assumes "st_root_version st = V1"
  shows "ordered (spec_leaves X st) ! unat (dim_as_u64 d) = v1_leaf X st d"
  using assms by (cases d) (simp_all add: spec_leaves_def leaves_spec_def ordered_def)

lemma spec_leaves_length: "length (ordered (spec_leaves X st)) = 14" "length (rl_dims (spec_leaves X st)) = 11"
  by (cases "st_root_version st"; simp add: spec_leaves_def leaves_spec_def ordered_def)+

lemma check_state_tables:
  assumes "nebu_laws X" and "hemera_laws X" and "st_root_version st = V1"
  shows "check_tables X (ordered (spec_leaves X st)) (map (state_table X st) ds) = Inr ()"
proof (induction ds)
  case (Cons d ds)
  have "map (gl_new X) (dim_serialize X (dim_entries X st d)) = dim_serialize X (dim_entries X st d)"
    using dim_serialize_canonical [OF assms(1) dim_entries_small [OF assms(1)]] by (intro map_gl_new_canonical assms(1)) blast
  then have "be_bytes 32 (commit_fields X (map (gl_new X) (dim_serialize X (dim_entries X st d)))) = digest_bytes (v1_leaf X st d)"
    using digest_bytes_of_bytes32 [OF assms(1) commit_dim_canonical [OF assms(2)]] by (simp add: v1_leaf_def commit_dim_def)
  then show ?case using Cons leaf_of_dim [OF assms(3)] by (simp del: dim_entries.simps)
qed simp

lemma spec_leaves_canonical:
  assumes X: "nebu_laws X" and v: "st_root_version st = V1"
  shows "\<forall>d \<in> set (ordered (spec_leaves X st)). \<forall>w \<in> set (words_of d). w < gl_P X"
proof -
  have w: "\<forall>w \<in> set (words_of (goldilocks_from_bytes32 X b)). w < gl_P X" for b by (rule words_of_bytes32 [OF X])
  show ?thesis
    using w v by (simp add: spec_leaves_def leaves_spec_def ordered_def v1_leaf_def)
qed

lemma leaves_of_ordered:
  assumes X: "nebu_laws X" and canon: "\<forall>d \<in> set (sc_leaves c). \<forall>w \<in> set (words_of d). w < gl_P X"
    and len: "length (sc_leaves c) = 14"
  shows "ordered (certificate_leaves X c) = sc_leaves c"
proof -
  have "map (map_digest (gl_new X)) (sc_leaves c) = sc_leaves c"
    using canon by (intro map_idI map_digest_canonical [OF X]) blast
  moreover have "take 11 ls @ [ls ! 11, ls ! 12, ls ! 13] = ls" if "length ls = 14" for ls :: "digest list"
    using that by (intro nth_equalityI) (auto simp: nth_append nth_Cons' less_Suc_eq numeral_eq_Suc)
  ultimately show ?thesis using len by (simp add: ordered_def certificate_leaves_def Let_def)
qed

lemma ordered_inj: "ordered l = ordered m \<Longrightarrow> length (rl_dims l) = 11 \<Longrightarrow> length (rl_dims m) = 11 \<Longrightarrow> l = m"
  by (simp add: ordered_def)

lemma state_cert_root:
  assumes X: "nebu_laws X" and "hemera_laws X" and v: "st_root_version st = V1"
    and "tables_count X st ds \<le> MAX_FIELDS" and ds: "sorted_wrt (<) (map dim_as_u64 ds)" and "length ds \<le> 11"
  shows "certificate_root X L (state_cert X L st ds) = Inr (root_from_leaves X (spec_leaves X st))"
proof -
  let ?c = "state_cert X L st ds"
  have leaves: "sc_leaves ?c = ordered (spec_leaves X st)" by (simp add: state_cert_def)
  have canon: "\<forall>d \<in> set (sc_leaves ?c). \<forall>w \<in> set (words_of d). w < gl_P X"
    unfolding leaves by (rule spec_leaves_canonical [OF X v])
  then have "\<not> list_ex (\<lambda>v. gl_P X \<le> v) (concat (map words_of (sc_leaves ?c)))"
    by (auto simp: list_ex_iff not_le)
  moreover have "validate_tables X None 0 (sc_dimensions ?c) = Inr ()"
    unfolding state_cert_def using assms(4) ds by (simp add: validate_state_tables [OF X])
  ultimately have "validate_shape X L ?c = Inr ()"
    using assms(6) by (simp add: validate_shape_def state_cert_def)
  moreover have "check_tables X (sc_leaves ?c) (sc_dimensions ?c) = Inr ()"
    unfolding state_cert_def using check_state_tables [OF assms(1,2) v] by simp
  moreover have "certificate_leaves X ?c = spec_leaves X st"
  proof (rule ordered_inj)
    show "ordered (certificate_leaves X ?c) = ordered (spec_leaves X st)"
      using leaves_of_ordered [OF X canon] spec_leaves_length(1) [of X st] by (simp add: leaves)
  qed (use spec_leaves_length in \<open>simp_all add: certificate_leaves_def Let_def leaves\<close>)
  ultimately show ?thesis by (simp add: certificate_root_def)
qed

lemma root_of_inv:
  assumes "state_inv X n st" and "hemera_laws X"
  shows "\<exists>st'. state_root_leaves X st = Some (st', spec_leaves X st) \<and> state_inv X n st' \<and> same_records st st'"
    "\<exists>st'. state_root X st = Some (st', root_spec X st) \<and> state_inv X n st' \<and> same_records st st'"
  using state_root_leaves_ok [of X st n] compute_root_ok [of X st n] assms by (auto simp: state_inv_def state_root_def)

lemma sorted_adjacent: "sorted_wrt (<) (ns :: u64 list) \<Longrightarrow> \<not> list_ex (\<lambda>(a, b). a = b) (zip ns (tl ns))"
  by (induction ns rule: induct_list012) auto

lemma distinct_dims:
  assumes "distinct ns" and "set ns \<subseteq> range dim_as_u64"
  shows "length ns \<le> 11"
proof -
  have dims: "(UNIV :: dim set) = {Particles, AxonsOut, AxonsIn, Neurons, Locations, Coins, Cards, Files, Time, Signals, Balances}"
    by (auto intro: dim.exhaust)
  have "finite (UNIV :: dim set)" "card (UNIV :: dim set) = 11" unfolding dims by simp_all
  then have "card (set ns) \<le> 11" using assms(2) by (metis card_image_le card_mono finite_imageI le_trans)
  then show ?thesis using assms(1) by (simp add: distinct_card)
qed

lemma from_state_ok:
  assumes X: "nebu_laws X" and h: "hemera_laws X" and v: "st_root_version st = V1" and inv: "state_inv X n st"
    and ns: "sort ns = map dim_as_u64 ds" "distinct ns" and tot: "tables_count X st ds \<le> MAX_FIELDS"
  shows "\<exists>st'. certificate_from_state X L st ns = Some (st', Inr (state_cert X L st ds)) \<and> state_inv X n st' \<and> same_records st st'"
proof -
  have sd: "sorted_wrt (<) (map dim_as_u64 ds)"
    using ns by (metis distinct_sort sorted_sort strict_sorted_iff)
  have set_ns: "set ns = dim_as_u64 ` set ds" by (metis list.set_map ns(1) set_sort)
  have "length ns \<le> 11" using ns(2) set_ns by (intro distinct_dims) auto
  moreover have "length ds = length ns" by (metis length_map length_sort ns(1))
  ultimately have len: "length ns \<le> 11" "length ds \<le> 11" by simp_all
  have le: "\<not> list_ex (\<lambda>n. 10 < n) ns" using set_ns by (auto simp: list_ex_iff not_less)
  obtain st1 where st1: "state_root_leaves X st = Some (st1, spec_leaves X st)" "state_inv X n st1" "same_records st st1"
    using root_of_inv(1) [OF inv h] by blast
  obtain st2 where st2: "state_root X st1 = Some (st2, root_spec X st1)" "state_inv X n st2" "same_records st1 st2"
    using root_of_inv(2) [OF st1(2) h] by blast
  have "be_bytes 32 (root_spec X st1) = digest_bytes (root_from_leaves X (spec_leaves X st))"
    unfolding root_spec_same [OF st1(3)] by (simp add: root_spec_def)
  then have "certificate_from_state X L st ns = Some (st2, Inr (state_cert X L st ds))"
    using len le sorted_adjacent [OF sd] state_tables_map [of 0 X st ds] tot st1(1) st2(1)
      state_cert_root [OF X h v tot sd len(2), of L]
    by (simp add: certificate_from_state_def ns(1) state_cert_def not_less [symmetric])
  then show ?thesis using st2 st1(3) same_records_trans by blast
qed

section \<open>Binding\<close>

text \<open>No hash is injective, so binding is relative to the values at hand: two chains of compressions do not
  collide at any place, and two tables with the same commitment have the same padded fields.\<close>

definition chains_apart :: "('a \<Rightarrow> 'b \<Rightarrow> 'a) \<Rightarrow> 'a \<Rightarrow> 'b list \<Rightarrow> 'b list \<Rightarrow> bool" where
  "chains_apart c a ls ms \<longleftrightarrow>
     list_all2 (\<lambda>(x, l) (y, m). c x l = c y m \<longrightarrow> x = y \<and> l = m) (chain_pairs c a ls) (chain_pairs c a ms)"

definition padded :: "goldilocks list \<Rightarrow> goldilocks list" where
  "padded fs = fs @ replicate (next_power_of_two (length fs) - length fs) 0"

definition commits_apart :: "ext \<Rightarrow> goldilocks list \<Rightarrow> goldilocks list \<Rightarrow> bool" where
  "commits_apart X fs gs \<longleftrightarrow> (lens_commit X (padded fs) = lens_commit X (padded gs) \<longrightarrow> padded fs = padded gs)"

definition certificate_apart :: "ext \<Rightarrow> bbg_state \<Rightarrow> state_certificate \<Rightarrow> bool" where
  "certificate_apart X st c \<longleftrightarrow> chains_apart (compress4 X) (root_iv X) (sc_leaves c) (ordered (spec_leaves X st)) \<and>
     list_all (\<lambda>t. \<forall>d \<in> set_option (dim_from_u64 (dt_namespace t)).
       commits_apart X (dt_fields t) (dim_serialize X (dim_entries X st d))) (sc_dimensions c)"

lemma commit_fields_padded: "commit_fields X fs = lens_commit X (padded fs)"
  by (simp add: commit_fields_def padded_def)

lemma chain_pairs_length [simp]: "length (chain_pairs c a ls) = length ls"
  by (induction c a ls rule: chain_pairs.induct) simp_all

lemma chains_apart_refl [simp]: "chains_apart c a ls ls"
  by (simp add: chains_apart_def list_all2_same split: prod.split)

lemma chains_apart_eq:
  assumes "list_all2 (\<lambda>(x, l) (y, m). c x l = c y m \<longrightarrow> x = y \<and> l = m) (chain_pairs c a ls) (chain_pairs c b ms)"
    and "foldl c a ls = foldl c b ms"
  shows "a = b \<and> ls = ms"
proof -
  have "length ls = length ms" using list_all2_lengthD [OF assms(1)] by simp
  then show ?thesis using assms
  proof (induction ls ms arbitrary: a b rule: list_induct2)
    case (Cons l ls m ms)
    have "c a l = c b m \<and> ls = ms" using Cons.prems by (intro Cons.IH) simp_all
    then show ?case using Cons.prems(1) by auto
  qed simp
qed

lemma next_power_from_le: "m \<le> 2 ^ b \<Longrightarrow> k \<le> b \<Longrightarrow> next_power_from k m \<le> 2 ^ b"
proof (induction k m rule: next_power_from.induct)
  case (1 k m)
  show ?case
  proof (cases "2 ^ k < m")
    case True
    then have "(2 :: nat) ^ k < 2 ^ b" using "1.prems"(1) by linarith
    then have "k < b" using power_less_imp_less_exp [of "2 :: nat" k b] by simp
    then show ?thesis using True "1.IH" "1.prems" by (subst next_power_from.simps) simp
  next
    case False
    then show ?thesis using "1.prems" by (subst next_power_from.simps) simp
  qed
qed

text \<open>The second field of a table is its length, so padding cannot hide a difference.\<close>

lemma padded_tables_eq:
  assumes X: "nebu_laws X" and p: "padded fs = padded (dim_serialize X es)" and v: "\<not> table_invalid X fs"
    and n: "length fs \<le> MAX_FIELDS"
  shows "fs = dim_serialize X es"
proof -
  let ?gs = "dim_serialize X es"
  have fs: "3 \<le> length fs" "fs ! 1 = of_nat (length fs)" using v by (auto simp: table_invalid_def HEADER_FIELDS_def)
  have g3: "3 \<le> length ?gs" using entries_count_ge(2) [of es] by (simp add: length_dim_serialize_count HEADER_FIELDS_def)
  have len: "length (padded hs) = next_power_of_two (length hs)" for hs
    using next_power_of_two_ge [of "length hs"] by (simp add: padded_def)
  have "length ?gs \<le> next_power_of_two (length fs)"
    using arg_cong [OF p, of length] next_power_of_two_ge [of "length ?gs"] by (simp add: len)
  also have "\<dots> \<le> 2 ^ 20" using next_power_from_le [of "length fs" 20 0] n by (simp add: MAX_FIELDS_def next_power_of_two_def)
  finally have g: "length ?gs \<le> MAX_FIELDS" by (simp add: MAX_FIELDS_def)
  have at: "padded hs ! 1 = hs ! 1" if "3 \<le> length hs" for hs using that by (simp add: padded_def nth_append)
  have "(of_nat (length fs) :: u64) = of_nat (length ?gs)"
    using arg_cong [OF p, of "\<lambda>xs. xs ! 1"] dim_serialize_header(2) [OF X, of es] fs g g3
    by (simp only: at length_dim_serialize_count)
  then have "length fs = length ?gs"
    using n g by (simp add: MAX_FIELDS_def word_unat_eq_iff unat_of_nat take_bit_nat_eq_self)
  then show ?thesis using p by (simp add: padded_def)
qed

lemma validate_tables_Inr:
  "validate_tables X p tot ts = Inr u \<Longrightarrow> t \<in> set ts \<Longrightarrow>
     dt_namespace t \<le> 10 \<and> \<not> table_invalid X (dt_fields t) \<and> length (dt_fields t) \<le> MAX_FIELDS"
proof (induction X p tot ts rule: validate_tables.induct)
  case (2 X p tot s ts)
  then show ?case
    by (auto simp: result_simps usize_add_def not_less split: if_splits)
qed simp

lemma check_tables_Inr:
  "check_tables X ls ts = Inr u \<Longrightarrow> t \<in> set ts \<Longrightarrow>
     be_bytes 32 (commit_fields X (map (gl_new X) (dt_fields t))) = digest_bytes (ls ! unat (dt_namespace t))"
  by (induction X ls ts rule: check_tables.induct) (auto split: if_splits)

lemma certificate_root_Inr:
  assumes "certificate_root X L c = Inr r"
  shows "\<forall>d \<in> set (sc_leaves c). \<forall>w \<in> set (words_of d). w < gl_P X"
    "validate_tables X None 0 (sc_dimensions c) = Inr ()" "check_tables X (sc_leaves c) (sc_dimensions c) = Inr ()"
    "r = root_from_leaves X (certificate_leaves X c)" "sc_version c = CERTIFICATE_VERSION" "sc_lens_version c = ln_version L"
    "length (sc_dimensions c) \<le> 11"
  using assms by (auto simp: certificate_root_def validate_shape_def result_simps list_ex_iff not_le not_less split: if_splits)

lemma table_canonical: "\<not> table_invalid X fs \<Longrightarrow> \<forall>v \<in> set fs. v < gl_P X"
  by (auto simp: table_invalid_def list_ex_iff not_le)

lemma certificate_binds_ok:
  assumes X: "nebu_laws X" and h: "hemera_laws X" and v: "st_root_version st = V1"
    and root: "certificate_root X L c = Inr (root_from_leaves X (spec_leaves X st))" and len: "length (sc_leaves c) = 14"
    and apart: "certificate_apart X st c" and t: "t \<in> set (sc_dimensions c)"
  shows "\<exists>d. t = state_table X st d"
proof -
  note c = certificate_root_Inr [OF root]
  have ord: "ordered (certificate_leaves X c) = sc_leaves c" by (rule leaves_of_ordered [OF X c(1) len])
  have leaves: "sc_leaves c = ordered (spec_leaves X st)"
    using chains_apart_eq [of "compress4 X" "root_iv X" "sc_leaves c" "root_iv X" "ordered (spec_leaves X st)"] apart c(4)
    unfolding root_from_leaves_def ord by (simp add: certificate_apart_def chains_apart_def)
  have tv: "dt_namespace t \<le> 10" "\<not> table_invalid X (dt_fields t)" "length (dt_fields t) \<le> MAX_FIELDS"
    using validate_tables_Inr [OF c(2) t] by blast+
  obtain d where d: "dt_namespace t = dim_as_u64 d" using small_namespace [OF tv(1)] by blast
  have "be_bytes 32 (commit_fields X (dt_fields t)) = digest_bytes (v1_leaf X st d)"
    using check_tables_Inr [OF c(3) t] map_gl_new_canonical [OF X table_canonical [OF tv(2)]] leaf_of_dim [OF v, of X d]
    by (simp only: leaves d)
  also have "\<dots> = be_bytes 32 (commit_dim X (dim_entries X st d))"
    unfolding v1_leaf_def by (rule digest_bytes_of_bytes32 [OF X commit_dim_canonical [OF h]])
  finally have "commit_fields X (dt_fields t) = commit_fields X (dim_serialize X (dim_entries X st d))"
    by (simp add: be_bytes_inj commit_dim_def)
  moreover have "commits_apart X (dt_fields t) (dim_serialize X (dim_entries X st d))"
    using apart t by (auto simp: certificate_apart_def list_all_iff d)
  ultimately have "dt_fields t = dim_serialize X (dim_entries X st d)"
    by (intro padded_tables_eq [OF X _ tv(2,3)]) (simp add: commits_apart_def commit_fields_padded)
  then show ?thesis using d by (intro exI [of _ d]) (simp add: state_table_def)
qed

text \<open>Cells of a certificate of the state.\<close>

lemma state_cert_cell:
  assumes X: "nebu_laws X" and d: "d \<in> set ds" "length ds \<le> 11" and n: "entries_count (dim_entries X st d) \<le> MAX_FIELDS"
  shows "certificate_cell X L (state_cert X L st ds) (dim_as_u64 d) k =
    (let fs = dim_serialize X (dim_entries X st d) in if unat k < length fs then Some (fs ! unat k) else None)"
proof -
  let ?fs = "dim_serialize X (dim_entries X st d)"
  have "find (\<lambda>t. dt_namespace t = dim_as_u64 d) (map (state_table X st) ds) = Some (state_table X st d)"
    using d(1) by (induction ds) (auto simp: dim_as_inj)
  moreover have "\<not> table_invalid X ?fs" by (rule dim_serialize_valid [OF X dim_entries_small [OF X] n])
  then have "3 \<le> length ?fs" "?fs ! 0 = TABLE_VERSION" "?fs ! 1 = of_nat (length ?fs)" "\<forall>v \<in> set ?fs. v < gl_P X"
    using table_canonical by (auto simp: table_invalid_def HEADER_FIELDS_def)
  moreover have "length ?fs \<le> MAX_FIELDS" using n by (simp add: length_dim_serialize_count)
  ultimately show ?thesis
    using d(2) by (simp add: certificate_cell_def state_cert_def not_less Let_def HEADER_FIELDS_def del: dim_entries.simps)
qed

lemma certificate_verify_iff:
  "certificate_verify X L c r = Inr () \<longleftrightarrow> (\<forall>v \<in> set (words_of r). v < gl_P X) \<and> certificate_root X L c = Inr r"
proof -
  have "list_ex (\<lambda>v. gl_P X \<le> v) (words_of r) \<longleftrightarrow> \<not> (\<forall>v \<in> set (words_of r). v < gl_P X)"
    by (auto simp: list_ex_iff not_less)
  then show ?thesis by (cases "certificate_root X L c") (auto simp: certificate_verify_def)
qed

lemma state_cert_verify:
  assumes "nebu_laws X" and "hemera_laws X" and "st_root_version st = V1"
    and "tables_count X st ds \<le> MAX_FIELDS" and "sorted_wrt (<) (map dim_as_u64 ds)" and "length ds \<le> 11"
  shows "certificate_verify X L (state_cert X L st ds) (root_from_leaves X (spec_leaves X st)) = Inr ()"
proof -
  have "rl_dims (spec_leaves X st) \<noteq> []" using spec_leaves_length(2) [of X st] by auto
  then show ?thesis
    using state_cert_root [OF assms, of L] words_of_root [OF assms(1), of "spec_leaves X st"]
    by (simp add: certificate_verify_iff)
qed

lemma state_cert_apart: "certificate_apart X st (state_cert X L st ds)"
  by (simp add: certificate_apart_def state_cert_def list_all_iff commits_apart_def)

lemma state_inv_root_version [simp]: "state_inv X n (set_root_version st v) = state_inv X n st"
proof -
  have "dim_entries X (set_root_version st v) d = dim_entries X st d" for d
    by (cases d) (simp_all add: set_root_version_def)
  then show ?thesis
    by (simp add: state_inv_def state_ok_def state_fresh_def state_fits_def del: dim_entries.simps) (simp add: set_root_version_def)
qed

section \<open>Properties\<close>

text \<open>A certificate of a state always verifies and shows the state. On a state under the flat derivation, for any
  distinct public namespaces whose tables fit the field limit, \<open>from_state\<close> succeeds and changes caches only; the
  certificate verifies against the limbs of the state's own root, and every cell read from it is the cell of
  the state's table, with no value past the end.\<close>

theorem certificate_complete:
  assumes "nebu_laws X" and "hemera_laws X" and "st_root_version st = V1" and "state_inv X n st"
    and "sort ns = map dim_as_u64 ds" and "distinct ns" and "tables_count X st ds \<le> MAX_FIELDS"
  shows "\<exists>st' c r. certificate_from_state X L st ns = Some (st', Inr c) \<and> state_inv X n st' \<and> same_records st st' \<and>
    (\<exists>st''. state_root X st = Some (st'', root_to_bytes r)) \<and> certificate_verify X L c r = Inr () \<and>
    (\<forall>d \<in> set ds. \<forall>k. certificate_cell X L c (dim_as_u64 d) k =
      (let fs = dim_serialize X (dim_entries X st d) in if unat k < length fs then Some (fs ! unat k) else None))"
proof -
  obtain st' where st': "certificate_from_state X L st ns = Some (st', Inr (state_cert X L st ds))" "state_inv X n st'" "same_records st st'"
    using from_state_ok [OF assms] by blast
  have sd: "sorted_wrt (<) (map dim_as_u64 ds)" and len: "length ds \<le> 11"
  proof -
    show "sorted_wrt (<) (map dim_as_u64 ds)" using assms(5,6) by (metis distinct_sort sorted_sort strict_sorted_iff)
    have "length ns \<le> 11" using assms(5,6) by (intro distinct_dims) (metis list.set_map set_sort subset_UNIV image_mono)+
    then show "length ds \<le> 11" by (metis length_map length_sort assms(5))
  qed
  let ?r = "root_from_leaves X (spec_leaves X st)"
  have "certificate_verify X L (state_cert X L st ds) ?r = Inr ()"
    by (rule state_cert_verify [OF assms(1-3,7) sd len])
  moreover have "entries_count (dim_entries X st d) \<le> MAX_FIELDS" if "d \<in> set ds" for d
    using member_le_sum_list [of "entries_count (dim_entries X st d)" "map (\<lambda>d. entries_count (dim_entries X st d)) ds"] that assms(7)
    by (simp del: dim_entries.simps)
  then have "certificate_cell X L (state_cert X L st ds) (dim_as_u64 d) k =
      (let fs = dim_serialize X (dim_entries X st d) in if unat k < length fs then Some (fs ! unat k) else None)" if "d \<in> set ds" for d k
    using that by (intro state_cert_cell [OF assms(1) _ len]) simp_all
  moreover have "\<exists>st''. state_root X st = Some (st'', root_to_bytes ?r)"
    using root_of_inv(2) [OF assms(4,2)] by (auto simp: root_spec_def)
  ultimately show ?thesis using st' by blast
qed

definition sample_lens :: "unit lens" where
  "sample_lens = \<lparr>ln_version = 1, ln_num_vars = (\<lambda>evals. ilog2 (length evals)), ln_open = (\<lambda>_ _ _. ()), ln_verify = (\<lambda>_ _ _ _ _. True)\<rparr>"

definition sample_v1 :: bbg_state where
  "sample_v1 = set_root_version state_new V1"

lemma sample_v1_inv: "state_inv sample_ext 0 sample_v1" "st_root_version sample_v1 = V1"
  by (simp_all add: sample_v1_def state_inv_new) (simp add: set_root_version_def)

lemma sample_v1_entries: "dim_entries X sample_v1 d = []"
  by (cases d) (simp_all add: sample_v1_def set_root_version_def state_new_def keyed_new_def axon_new_def cards_new_def
      axon_entries_def sorted_list_of_fmap_def sorted_list_of_fset.rep_eq)

theorem certificate_complete_witness:
  "\<exists>st' c r. certificate_from_state sample_ext sample_lens sample_v1 [9, 3] = Some (st', Inr c) \<and>
    certificate_verify sample_ext sample_lens c r = Inr () \<and> certificate_cell sample_ext sample_lens c 3 0 = Some 2"
proof -
  obtain st' c r where c: "certificate_from_state sample_ext sample_lens sample_v1 [9, 3] = Some (st', Inr c)"
    "certificate_verify sample_ext sample_lens c r = Inr ()"
    "\<forall>d \<in> set [Neurons, Signals]. \<forall>k. certificate_cell sample_ext sample_lens c (dim_as_u64 d) k =
      (let fs = dim_serialize sample_ext (dim_entries sample_ext sample_v1 d) in if unat k < length fs then Some (fs ! unat k) else None)"
    using certificate_complete [OF nebu_laws_sample hemera_laws_sample sample_v1_inv(2,1), of "[9, 3]" "[Neurons, Signals]" sample_lens]
    by (auto simp: sample_v1_entries entries_count_def MAX_FIELDS_def HEADER_FIELDS_def simp del: dim_entries.simps)
  moreover have "certificate_cell sample_ext sample_lens c 3 0 = Some 2"
    using c(3) [rule_format, of Neurons 0]
    by (simp add: sample_v1_entries dim_serialize_def TABLE_VERSION_def sample_ext_def del: dim_entries.simps)
  ultimately show ?thesis by blast
qed

text \<open>C22: a certificate binds. Whoever made it, a certificate that verifies against the root of a state under the
  flat derivation contains exactly tables of that state, unless a compression or a table commitment collides; so every cell
  read from it is a cell of the state.\<close>

theorem certificate_binds:
  assumes "nebu_laws X" and "hemera_laws X" and "st_root_version st = V1" and "state_inv X n st"
    and "state_root X st = Some (st', root_to_bytes r)" and "certificate_verify X L c r = Inr ()"
    and "length (sc_leaves c) = 14" and "certificate_apart X st c"
  shows "(\<forall>t \<in> set (sc_dimensions c). \<exists>d. t = state_table X st d) \<and>
    (certificate_cell X L c (dim_as_u64 d) k = Some v \<longrightarrow>
       unat k < length (dim_serialize X (dim_entries X st d)) \<and> v = dim_serialize X (dim_entries X st d) ! unat k)"
proof -
  have "root_to_bytes r = root_spec X st" using root_of_inv(2) [OF assms(4,2)] assms(5) by auto
  then have "r = root_from_leaves X (spec_leaves X st)" unfolding root_spec_def by (rule root_to_bytes_inj)
  then have root: "certificate_root X L c = Inr (root_from_leaves X (spec_leaves X st))"
    using assms(6) by (simp add: certificate_verify_iff)
  note tables = certificate_binds_ok [OF assms(1-3) root assms(7,8)]
  moreover have "unat k < length (dim_serialize X (dim_entries X st d)) \<and> v = dim_serialize X (dim_entries X st d) ! unat k"
    if cell: "certificate_cell X L c (dim_as_u64 d) k = Some v"
  proof -
    obtain t where t: "find (\<lambda>t. dt_namespace t = dim_as_u64 d) (sc_dimensions c) = Some t"
      "unat k < length (dt_fields t)" "v = dt_fields t ! unat k"
      using cell by (auto simp: certificate_cell_def Let_def bind_eq_Some_conv split: if_splits)
    then have td: "t \<in> set (sc_dimensions c)" "dt_namespace t = dim_as_u64 d" by (auto simp: find_Some_iff)
    then obtain e where "t = state_table X st e" using tables by blast
    then have "t = state_table X st d" using td(2) by (simp add: dim_as_inj)
    then show ?thesis using t(2,3) by simp
  qed
  ultimately show ?thesis by blast
qed

theorem certificate_binds_witness:
  "\<exists>d. sc_dimensions (state_cert sample_ext sample_lens sample_v1 [Neurons]) ! 0 = state_table sample_ext sample_v1 d"
proof -
  let ?c = "state_cert sample_ext sample_lens sample_v1 [Neurons]" and ?r = "root_from_leaves sample_ext (spec_leaves sample_ext sample_v1)"
  obtain st' where root: "state_root sample_ext sample_v1 = Some (st', root_to_bytes ?r)"
    using root_of_inv(2) [OF sample_v1_inv(1) hemera_laws_sample] by (auto simp: root_spec_def)
  have ok: "certificate_verify sample_ext sample_lens ?c ?r = Inr ()"
    by (rule state_cert_verify [OF nebu_laws_sample hemera_laws_sample sample_v1_inv(2)])
      (simp_all add: sample_v1_entries entries_count_def MAX_FIELDS_def HEADER_FIELDS_def del: dim_entries.simps)
  have len: "length (sc_leaves ?c) = 14" by (simp add: state_cert_def spec_leaves_length)
  show ?thesis
    using certificate_binds [OF nebu_laws_sample hemera_laws_sample sample_v1_inv(2,1) root ok len state_cert_apart]
    by (simp add: state_cert_def)
qed

end
