(* ===== verification/Bbg_Query.thy ===== *)
theory Bbg_Query
  imports Bbg_Certificate
begin

text \<open>
  Cell proofs over the committed tables and their verification (\<open>proof.rs\<close>, \<open>query_auth.rs\<close>, \<open>query.rs\<close>). A public
  proof carries the complete table of its dimension in a certificate, so the verifier reads the
  cell itself; the sampled opening of the commitment crate is a consistency check on top. Proofs read the
  root, so they return the state with its caches filled; the outer option is a panic, the inner one
  the source's \<open>None\<close>.
\<close>

section \<open>Proofs\<close>

definition QUERY_VERSION :: u32 where "QUERY_VERSION = 3"
definition MAX_QUERY_FIELDS :: nat where "MAX_QUERY_FIELDS = 4096"

record query_context =
  qc_version :: u32
  qc_certificate :: state_certificate
  qc_namespace :: u64
  qc_index :: u64

record 'o query_proof =
  qp_commitment :: particle
  qp_opening :: 'o
  qp_value_bytes :: bytes
  qp_context :: "query_context option"
  qp_point :: "goldilocks list"

definition DIM_OPEN :: bytes where "DIM_OPEN = ascii ''bbg-dim-open''"

definition context_from_state :: "ext \<Rightarrow> 'o lens \<Rightarrow> bbg_state \<Rightarrow> dim \<Rightarrow> nat \<Rightarrow> (bbg_state \<times> query_context option) option" where
  "context_from_state X L st d index = do {
     (st, r) \<leftarrow> certificate_from_state X L st [dim_as_u64 d];
     Some (st, case r of Inl _ \<Rightarrow> None
       | Inr c \<Rightarrow> Some \<lparr>qc_version = QUERY_VERSION, qc_certificate = c, qc_namespace = dim_as_u64 d, qc_index = of_nat index\<rparr>) }"

definition corner_point :: "nat \<Rightarrow> nat \<Rightarrow> goldilocks list" where
  "corner_point idx num_vars = map (\<lambda>j. if idx div 2 ^ j mod 2 = 1 then 1 else 0) [0..<num_vars]"

definition open_cell_from_entries :: "ext \<Rightarrow> 'o lens \<Rightarrow> (particle \<times> goldilocks list) list \<Rightarrow> nat \<Rightarrow> 'o query_proof option" where
  "open_cell_from_entries X L entries idx =
     (let elems = dim_serialize X entries in
      if length elems \<le> idx then None
      else let poly = elems @ replicate (next_power_of_two (length elems) - length elems) 0;
          point = corner_point idx (ln_num_vars L poly)
        in Some \<lparr>qp_commitment = lens_commit X poly, qp_opening = ln_open L poly point DIM_OPEN,
          qp_value_bytes = le_bytes 8 (poly ! idx), qp_context = None, qp_point = point\<rparr>)"

definition open_cell :: "ext \<Rightarrow> 'o lens \<Rightarrow> bbg_state \<Rightarrow> dim \<Rightarrow> nat \<Rightarrow> (bbg_state \<times> 'o query_proof option) option" where
  "open_cell X L st d idx =
     (let entries = dim_entries X st d;
          count = HEADER_FIELDS + sum_list (map (\<lambda>(_, v). KEY_FIELDS + length v) entries) in
      if dim_as_u64 d \<le> 9 \<and> MAX_QUERY_FIELDS < count then Some (st, None)
      else case open_cell_from_entries X L entries idx of
        None \<Rightarrow> Some (st, None)
      | Some proof \<Rightarrow>
          if dim_as_u64 d \<le> 9 then do {
            (st, ctx) \<leftarrow> context_from_state X L st d idx;
            Some (st, map_option (\<lambda>c. proof\<lparr>qp_context := Some c\<rparr>) ctx) }
          else Some (st, Some proof))"

definition cell_value :: "ext \<Rightarrow> bbg_state \<Rightarrow> dim \<Rightarrow> nat \<Rightarrow> goldilocks option" where
  "cell_value X st d idx = (let fs = dim_serialize X (dim_entries X st d) in if idx < length fs then Some (fs ! idx) else None)"

text \<open>The loop of \<open>open_entity\<close> over the remaining entries.\<close>

fun entity_loop :: "ext \<Rightarrow> 'o lens \<Rightarrow> bbg_state \<Rightarrow> dim \<Rightarrow> particle \<Rightarrow> nat \<Rightarrow> nat \<Rightarrow> (particle \<times> goldilocks list) list \<Rightarrow>
    (bbg_state \<times> 'o query_proof option) option" where
  "entity_loop X L st d key value_col offset [] = Some (st, None)"
| "entity_loop X L st d key value_col offset ((entry_key, values) # es) =
     (if entry_key = key then
        (if value_col < length values then open_cell X L st d (offset + KEY_FIELDS + value_col) else Some (st, None))
      else entity_loop X L st d key value_col (offset + KEY_FIELDS + length values) es)"

definition open_entity :: "ext \<Rightarrow> 'o lens \<Rightarrow> bbg_state \<Rightarrow> dim \<Rightarrow> particle \<Rightarrow> nat \<Rightarrow> (bbg_state \<times> 'o query_proof option) option" where
  "open_entity X L st d key value_col = entity_loop X L st d key value_col HEADER_FIELDS (dim_entries X st d)"

definition prove_particle :: "ext \<Rightarrow> 'o lens \<Rightarrow> bbg_state \<Rightarrow> particle \<Rightarrow> (bbg_state \<times> 'o query_proof option) option" where
  "prove_particle X L st particle = open_entity X L st Particles particle 0"

definition prove_neuron :: "ext \<Rightarrow> 'o lens \<Rightarrow> bbg_state \<Rightarrow> neuron_id \<Rightarrow> (bbg_state \<times> 'o query_proof option) option" where
  "prove_neuron X L st nid = open_entity X L st Neurons nid 0"

definition prove_axons_out :: "ext \<Rightarrow> 'o lens \<Rightarrow> bbg_state \<Rightarrow> particle \<Rightarrow> (bbg_state \<times> 'o query_proof option) option" where
  "prove_axons_out X L st particle = open_entity X L st AxonsOut particle 0"

definition prove_axons_in :: "ext \<Rightarrow> 'o lens \<Rightarrow> bbg_state \<Rightarrow> particle \<Rightarrow> (bbg_state \<times> 'o query_proof option) option" where
  "prove_axons_in X L st particle = open_entity X L st AxonsIn particle 0"

definition prove_location :: "ext \<Rightarrow> 'o lens \<Rightarrow> bbg_state \<Rightarrow> particle \<Rightarrow> (bbg_state \<times> 'o query_proof option) option" where
  "prove_location X L st nid = open_entity X L st Locations nid 0"

definition prove_coin :: "ext \<Rightarrow> 'o lens \<Rightarrow> bbg_state \<Rightarrow> particle \<Rightarrow> (bbg_state \<times> 'o query_proof option) option" where
  "prove_coin X L st denom = open_entity X L st Coins denom 0"

definition prove_card :: "ext \<Rightarrow> 'o lens \<Rightarrow> bbg_state \<Rightarrow> particle \<Rightarrow> (bbg_state \<times> 'o query_proof option) option" where
  "prove_card X L st cid = open_entity X L st Cards cid 0"

definition prove_file :: "ext \<Rightarrow> 'o lens \<Rightarrow> bbg_state \<Rightarrow> particle \<Rightarrow> (bbg_state \<times> 'o query_proof option) option" where
  "prove_file X L st particle = open_entity X L st Files particle 0"

definition prove_signal_key :: "ext \<Rightarrow> 'o lens \<Rightarrow> bbg_state \<Rightarrow> particle \<Rightarrow> (bbg_state \<times> 'o query_proof option) option" where
  "prove_signal_key X L st key = open_entity X L st Signals key 16"

definition prove_signal :: "ext \<Rightarrow> 'o lens \<Rightarrow> bbg_state \<Rightarrow> neuron_id \<Rightarrow> u64 \<Rightarrow> (bbg_state \<times> 'o query_proof option) option" where
  "prove_signal X L st neuron step = prove_signal_key X L st (signal_key X neuron step)"

definition prove_time :: "ext \<Rightarrow> 'o lens \<Rightarrow> bbg_state \<Rightarrow> u64 \<Rightarrow> (bbg_state \<times> 'o query_proof option) option" where
  "prove_time X L st height = open_entity X L st Time (of_be_bytes (le_bytes 8 height @ replicate 24 0)) 0"

definition prove_balances :: "ext \<Rightarrow> 'o lens \<Rightarrow> bbg_state \<Rightarrow> particle \<Rightarrow> particle \<Rightarrow> (bbg_state \<times> 'o query_proof option) option" where
  "prove_balances X L st owner token = open_entity X L st Balances (balance_key X owner token) 0"

definition position_of :: "'a \<Rightarrow> 'a list \<Rightarrow> nat option" where
  "position_of k ks = find (\<lambda>i. ks ! i = k) [0..<length ks]"

definition prove_public_balance ::
  "ext \<Rightarrow> 'o lens \<Rightarrow> bbg_state \<Rightarrow> particle \<Rightarrow> particle \<Rightarrow> (bbg_state \<times> 'o query_proof option) option" where
  "prove_public_balance X L st owner token =
     (case Option.bind (usize_mul (fcard (fmdom (kd_map (st_balances st)))) (KEY_FIELDS + 2)) (usize_add HEADER_FIELDS) of
        None \<Rightarrow> Some (st, None)
      | Some flds \<Rightarrow>
          if MAX_QUERY_FIELDS < flds then Some (st, None)
          else case position_of (balance_key X owner token) (sorted_list_of_fset (fmdom (kd_map (st_balances st)))) of
            None \<Rightarrow> Some (st, None)
          | Some position \<Rightarrow> do {
              let index = HEADER_FIELDS + position * (KEY_FIELDS + 2) + KEY_FIELDS;
              (st, p) \<leftarrow> prove_balances X L st owner token;
              case p of
                None \<Rightarrow> Some (st, None)
              | Some proof \<Rightarrow> do {
                  (st, ctx) \<leftarrow> context_from_state X L st Balances index;
                  Some (st, map_option (\<lambda>c. proof\<lparr>qp_context := Some c\<rparr>) ctx) } })"

fun flat_index :: "particle \<Rightarrow> nat \<Rightarrow> nat \<Rightarrow> (particle \<times> goldilocks list) list \<Rightarrow> nat option" where
  "flat_index key value_col offset [] = None"
| "flat_index key value_col offset ((k, vals) # es) =
     (if k = key then (if length vals \<le> value_col then None else Some (offset + KEY_FIELDS + value_col))
      else flat_index key value_col (offset + KEY_FIELDS + length vals) es)"

definition open_dim :: "ext \<Rightarrow> 'o lens \<Rightarrow> (particle \<times> goldilocks list) list \<Rightarrow> particle \<Rightarrow> nat \<Rightarrow> 'o query_proof option" where
  "open_dim X L entries key value_col =
     (if entries = [] then None
      else Option.bind (flat_index key value_col HEADER_FIELDS entries) (open_cell_from_entries X L entries))"

definition prove_commitment :: "ext \<Rightarrow> 'o lens \<Rightarrow> bbg_state \<Rightarrow> particle \<Rightarrow> 'o query_proof option" where
  "prove_commitment X L st point =
     open_dim X L (map (\<lambda>(k, v). (k, [v])) (sorted_list_of_fmap (kd_map (st_commitments st)))) point 0"

section \<open>Verification\<close>

definition root_fields :: "ext \<Rightarrow> particle \<Rightarrow> digest option" where
  "root_fields X root =
     (let w = (\<lambda>i. of_le_bytes (take 8 (drop (8 * i) (be_bytes 32 root))) :: u64);
          values = (w 0, w 1, w 2, w 3)
      in if list_all (\<lambda>v. v < gl_P X) (words_of values) then Some values else None)"

definition get_at :: "'a list \<Rightarrow> nat \<Rightarrow> 'a option" where
  "get_at xs i = (if i < length xs then Some (xs ! i) else None)"

definition get_range :: "'a list \<Rightarrow> nat \<Rightarrow> nat \<Rightarrow> 'a list option" where
  "get_range xs i j = (if i \<le> j \<and> j \<le> length xs then Some (take (j - i) (drop i xs)) else None)"

definition authenticated :: "ext \<Rightarrow> 'o lens \<Rightarrow> 'o query_proof \<Rightarrow> particle option \<Rightarrow> unit option" where
  "authenticated X L proof root = do {
     context \<leftarrow> qp_context proof;
     if qc_version context \<noteq> QUERY_VERSION \<or> 10 < qc_namespace context \<or> length (sc_dimensions (qc_certificate context)) \<noteq> 1
     then None
     else do {
       let table = sc_dimensions (qc_certificate context) ! 0;
       if dt_namespace table \<noteq> qc_namespace context \<or> MAX_QUERY_FIELDS < length (dt_fields table) then None
       else do {
         actual_root \<leftarrow> (case certificate_root X L (qc_certificate context) of Inl _ \<Rightarrow> None | Inr r \<Rightarrow> Some r);
         (case root of None \<Rightarrow> Some ()
          | Some root \<Rightarrow> do { r \<leftarrow> root_fields X root; if actual_root \<noteq> r then None else Some () });
         let index = unat (qc_index context);
         value \<leftarrow> get_at (dt_fields table) index;
         if qp_value_bytes proof \<noteq> le_bytes 8 value then None
         else do {
           let vars = ilog2 (next_power_of_two (length (dt_fields table)));
           if length (qp_point proof) \<noteq> vars \<or>
             list_ex (\<lambda>i. qp_point proof ! i \<noteq> of_nat (index div 2 ^ i mod 2)) [0..<length (qp_point proof)]
           then None
           else if be_bytes 32 (qp_commitment proof) \<noteq> digest_bytes (sc_leaves (qc_certificate context) ! unat (qc_namespace context))
           then None
           else if ln_verify L (qp_commitment proof) (qp_point proof) (gl_new X value) (qp_opening proof) DIM_OPEN then Some ()
           else None } } } }"

definition verify_query :: "ext \<Rightarrow> 'o lens \<Rightarrow> 'o query_proof \<Rightarrow> bool" where
  "verify_query X L proof \<longleftrightarrow> authenticated X L proof None \<noteq> None"

definition verify_query_at :: "ext \<Rightarrow> 'o lens \<Rightarrow> 'o query_proof \<Rightarrow> particle \<Rightarrow> u64 \<Rightarrow> u64 \<Rightarrow> bool" where
  "verify_query_at X L proof root namespace index \<longleftrightarrow>
     (case qp_context proof of None \<Rightarrow> False | Some c \<Rightarrow> qc_namespace c = namespace \<and> qc_index c = index) \<and>
     authenticated X L proof (Some root) \<noteq> None"

definition u32_of :: "u64 \<Rightarrow> u32 option" where
  "u32_of v = (if v < 2 ^ 32 then Some (ucast v) else None)"

fun limb_bytes :: "u64 list \<Rightarrow> bytes option" where
  "limb_bytes [] = Some []"
| "limb_bytes (limb # limbs) = do { w \<leftarrow> u32_of limb; bs \<leftarrow> limb_bytes limbs; Some (le_bytes 4 w @ bs) }"

definition sort_key :: "dim \<Rightarrow> bytes \<Rightarrow> particle option" where
  "sort_key d bs = (if d = Time then
       (if list_ex (\<lambda>v. v \<noteq> 0) (drop 8 bs) then None
        else Some (of_be_bytes (be_bytes 8 (of_le_bytes (take 8 bs) :: u64) @ replicate 24 0)))
     else Some (of_be_bytes bs))"

definition entry_width :: "u64 list \<Rightarrow> dim \<Rightarrow> nat \<Rightarrow> nat option" where
  "entry_width flds d start = (case d of
     Particles \<Rightarrow> Some 12 | Neurons \<Rightarrow> Some 8 | Locations \<Rightarrow> Some 4 | Coins \<Rightarrow> Some 2 | Cards \<Rightarrow> Some 28 | Files \<Rightarrow> Some 4
   | Time \<Rightarrow> Some 8 | Signals \<Rightarrow> Some 30 | Balances \<Rightarrow> Some 2
   | _ \<Rightarrow> do {
       l \<leftarrow> get_at flds start;
       low \<leftarrow> u32_of l;
       h \<leftarrow> get_at flds (start + 1);
       high \<leftarrow> u32_of h;
       m \<leftarrow> usize_mul (unat (ucast low OR push_bit 32 (ucast high) :: u64)) 8;
       usize_add m 2 })"

fun primary_loop :: "u64 list \<Rightarrow> dim \<Rightarrow> particle \<Rightarrow> nat \<Rightarrow> nat \<Rightarrow> nat option \<Rightarrow> particle option \<Rightarrow> (nat \<times> nat option) option" where
  "primary_loop flds d key 0 offset found previous = Some (offset, found)"
| "primary_loop flds d key (Suc n) offset found previous = do {
     start \<leftarrow> usize_add offset KEY_FIELDS;
     limbs \<leftarrow> get_range flds offset start;
     bs \<leftarrow> limb_bytes limbs;
     sk \<leftarrow> sort_key d bs;
     if (case previous of None \<Rightarrow> False | Some p \<Rightarrow> sk \<le> p) then None
     else do {
       width \<leftarrow> entry_width flds d start;
       offset \<leftarrow> usize_add start width;
       vs \<leftarrow> get_range flds start offset;
       if list_ex (\<lambda>v. 0xffffffff < v) vs then None
       else primary_loop flds d key n offset
         (if of_be_bytes bs = key then Some (start + (if d = Signals then 16 else 0)) else found) (Some sk) } }"

definition primary_index :: "u64 list \<Rightarrow> dim \<Rightarrow> particle \<Rightarrow> nat option" where
  "primary_index flds d key = do {
     entries \<leftarrow> get_at flds 2;
     (offset, found) \<leftarrow> primary_loop flds d key (unat entries) HEADER_FIELDS None None;
     if offset \<noteq> length flds then None else found }"

definition verify_entity :: "ext \<Rightarrow> 'o lens \<Rightarrow> 'o query_proof \<Rightarrow> particle \<Rightarrow> dim \<Rightarrow> particle \<Rightarrow> bool" where
  "verify_entity X L proof root d key =
     (if authenticated X L proof (Some root) = None then False
      else case qp_context proof of
        None \<Rightarrow> False
      | Some context \<Rightarrow>
          if qc_namespace context \<noteq> dim_as_u64 d then False
          else case primary_index (dt_fields (sc_dimensions (qc_certificate context) ! 0)) d key of
            None \<Rightarrow> False | Some index \<Rightarrow> of_nat index = qc_index context)"

definition verify_particle :: "ext \<Rightarrow> 'o lens \<Rightarrow> 'o query_proof \<Rightarrow> particle \<Rightarrow> particle \<Rightarrow> bool" where
  "verify_particle X L proof root particle = verify_entity X L proof root Particles particle"

definition verify_public_balance :: "ext \<Rightarrow> 'o lens \<Rightarrow> 'o query_proof \<Rightarrow> particle \<Rightarrow> particle \<Rightarrow> particle \<Rightarrow> u64 option" where
  "verify_public_balance X L proof root owner token =
     (if \<not> verify_entity X L proof root Balances (balance_key X owner token) then None
      else do {
        context \<leftarrow> qp_context proof;
        let table = dt_fields (sc_dimensions (qc_certificate context) ! 0);
        let index = unat (qc_index context);
        l \<leftarrow> get_at table index;
        low \<leftarrow> u32_of l;
        h \<leftarrow> get_at table (index + 1);
        high \<leftarrow> u32_of h;
        Some (ucast low OR push_bit 32 (ucast high)) })"

section \<open>Queries and looks\<close>

definition bbg_query :: "ext \<Rightarrow> 'o lens \<Rightarrow> bbg_state \<Rightarrow> dim \<Rightarrow> particle \<Rightarrow> (bbg_state \<times> 'o query_proof option) option" where
  "bbg_query X L st d key =
     (if d = Time \<and> list_ex (\<lambda>v. v \<noteq> 0) (drop 8 (be_bytes 32 key)) then Some (st, None)
      else case d of
        Particles \<Rightarrow> prove_particle X L st key
      | AxonsOut \<Rightarrow> prove_axons_out X L st key
      | AxonsIn \<Rightarrow> prove_axons_in X L st key
      | Neurons \<Rightarrow> prove_neuron X L st key
      | Locations \<Rightarrow> prove_location X L st key
      | Coins \<Rightarrow> prove_coin X L st key
      | Cards \<Rightarrow> prove_card X L st key
      | Files \<Rightarrow> prove_file X L st key
      | Time \<Rightarrow> prove_time X L st (of_le_bytes (take 8 (be_bytes 32 key)))
      | Signals \<Rightarrow> prove_signal_key X L st key
      | Balances \<Rightarrow> Some (st, None))"

text \<open>\<open>BbgLookProvider::look\<close>.\<close>

definition look :: "ext \<Rightarrow> bbg_state \<Rightarrow> goldilocks \<Rightarrow> goldilocks \<Rightarrow> goldilocks option" where
  "look X st namespace key =
     (if 9 < namespace then None else do { d \<leftarrow> dim_from_u64 namespace; cell_value X st d (unat key) })"

record 'o look_opening =
  lo_commitment :: particle
  lo_point :: "goldilocks list"
  lo_value :: goldilocks
  lo_opening :: 'o
  lo_transcript_seed :: bytes
  lo_leaves :: root_leaves
  lo_namespace :: goldilocks

record 'o proof_look_provider =
  pl_state :: bbg_state
  pl_leaves :: root_leaves
  pl_openings :: "'o look_opening list"

definition proof_look_new :: "ext \<Rightarrow> bbg_state \<Rightarrow> 'o proof_look_provider option" where
  "proof_look_new X st = do {
     (st, leaves) \<leftarrow> state_root_leaves X st;
     Some \<lparr>pl_state = st, pl_leaves = leaves, pl_openings = []\<rparr> }"

definition take_look_openings :: "'o proof_look_provider \<Rightarrow> 'o proof_look_provider \<times> 'o look_opening list" where
  "take_look_openings p = (p\<lparr>pl_openings := []\<rparr>, pl_openings p)"

definition query_value :: "ext \<Rightarrow> 'o query_proof \<Rightarrow> goldilocks" where
  "query_value X proof = (if length (qp_value_bytes proof) < 8 then 0 else gl_new X (of_le_bytes (take 8 (qp_value_bytes proof))))"

definition look_opening_of :: "ext \<Rightarrow> 'o query_proof \<Rightarrow> root_leaves \<Rightarrow> goldilocks \<Rightarrow> 'o look_opening" where
  "look_opening_of X proof leaves namespace = \<lparr>lo_commitment = qp_commitment proof, lo_point = qp_point proof,
     lo_value = query_value X proof, lo_opening = qp_opening proof, lo_transcript_seed = DIM_OPEN, lo_leaves = leaves,
     lo_namespace = namespace\<rparr>"

definition proof_look :: "ext \<Rightarrow> 'o lens \<Rightarrow> 'o proof_look_provider \<Rightarrow> goldilocks \<Rightarrow> goldilocks \<Rightarrow>
    ('o proof_look_provider \<times> goldilocks option) option" where
  "proof_look X L p namespace key =
     (if 9 < namespace then Some (p, None)
      else case dim_from_u64 namespace of
        None \<Rightarrow> Some (p, None)
      | Some d \<Rightarrow> do {
          (st, r) \<leftarrow> open_cell X L (pl_state p) d (unat key);
          Some (case r of
            None \<Rightarrow> (p\<lparr>pl_state := st\<rparr>, None)
          | Some proof \<Rightarrow> (p\<lparr>pl_state := st, pl_openings := pl_openings p @ [look_opening_of X proof (pl_leaves p) namespace]\<rparr>,
              Some (query_value X proof))) })"

text \<open>A trace row of \<open>nox\<close> is its registers.\<close>

type_synonym trace_row = "nat \<Rightarrow> u64"

fun collect_rows :: "ext \<Rightarrow> 'o lens \<Rightarrow> root_leaves \<Rightarrow> bbg_state \<Rightarrow> trace_row list \<Rightarrow> (bbg_state \<times> 'o look_opening list) option" where
  "collect_rows X L leaves st [] = Some (st, [])"
| "collect_rows X L leaves st (row # rows) =
     (if row 0 \<noteq> 17 then collect_rows X L leaves st rows
      else let ns = gl_new X (row 5); key = gl_new X (row 6) in
      if 9 < ns then collect_rows X L leaves st rows
      else case dim_from_u64 ns of
        None \<Rightarrow> collect_rows X L leaves st rows
      | Some d \<Rightarrow> do {
          (st, r) \<leftarrow> open_cell X L st d (unat key);
          (st, rest) \<leftarrow> collect_rows X L leaves st rows;
          Some (st, case r of None \<Rightarrow> rest | Some proof \<Rightarrow> look_opening_of X proof leaves ns # rest) })"

definition collect_look_openings :: "ext \<Rightarrow> 'o lens \<Rightarrow> bbg_state \<Rightarrow> trace_row list \<Rightarrow> (bbg_state \<times> 'o look_opening list) option" where
  "collect_look_openings X L st rows = do {
     (st, leaves) \<leftarrow> state_root_leaves X st;
     collect_rows X L leaves st rows }"

definition verify_opening :: "'o look_opening \<Rightarrow> bool" where
  "verify_opening lo = False"

definition verify_opening_with_context :: "ext \<Rightarrow> 'o lens \<Rightarrow> 'o look_opening \<Rightarrow> 'o query_proof \<Rightarrow> particle \<Rightarrow> u64 \<Rightarrow> bool" where
  "verify_opening_with_context X L lo proof root index =
     (if \<not> verify_query_at X L proof root (lo_namespace lo) index then False
      else case qp_context proof of
        None \<Rightarrow> False
      | Some c \<Rightarrow> ordered (lo_leaves lo) = sc_leaves (qc_certificate c) \<and> lo_commitment lo = qp_commitment proof \<and>
          lo_point lo = qp_point proof \<and> le_bytes 8 (lo_value lo) = qp_value_bytes proof \<and>
          lo_opening lo = qp_opening proof \<and> lo_transcript_seed lo = DIM_OPEN)"

end
