(* ===== verification/Bbg_Query_Layout.thy ===== *)
theory Bbg_Query_Layout
  imports Bbg_Query
begin

text \<open>
  The verifier's walk over a disclosed table (\<open>primary_index\<close> of \<open>query_auth.rs\<close>) against the prover's layout
  (\<open>dim_entries\<close> and \<open>open_entity\<close> of \<open>proof.rs\<close>): on the table of a state both name the same cell.
\<close>

section \<open>Keys read back from their limbs\<close>

lemma concat_chunks: "concat (map (\<lambda>i. take n (drop (n * i) bs)) [0..<k]) = take (n * k) bs"
proof (induction k)
  case (Suc k)
  have "take (n * Suc k) bs = take (n * k) bs @ take n (drop (n * k) bs)"
    unfolding mult_Suc_right add.commute [of n] by (rule take_add)
  then show ?case using Suc by simp
qed simp

lemma u32_of_small: "v < 2 ^ 32 \<Longrightarrow> u32_of v = Some (ucast v)"
  by (simp add: u32_of_def)

lemma ucast_ucast_32: "v < 2 ^ 32 \<Longrightarrow> (ucast (ucast (v :: u64) :: u32) :: u64) = v"
proof -
  assume "v < 2 ^ 32"
  then have "unat v < 2 ^ 32" by (simp add: word_less_nat_alt)
  then have "take_bit 32 (unat v) = unat v" by (simp add: take_bit_nat_eq_self)
  then show ?thesis by (simp add: word_unat_eq_iff unsigned_ucast_eq unsigned_take_bit_eq)
qed

lemma limb_bytes_map:
  assumes "nebu_laws X" and "length bs = 32"
  shows "set is \<subseteq> {..<8} \<Longrightarrow> limb_bytes (map (\<lambda>i. gl_new X (limb_at bs i)) is) = Some (concat (map (\<lambda>i. take 4 (drop (4 * i) bs)) is))"
proof (induction "is")
  case (Cons i "is")
  let ?c = "take 4 (drop (4 * i) bs)"
  have "length ?c = 4" using Cons.prems assms(2) by auto
  then have "le_bytes 4 (of_le_bytes ?c :: u32) = ?c" by (simp add: le_bytes_of_le_bytes)
  moreover have "u32_of (gl_new X (limb_at bs i)) = Some (of_le_bytes ?c)"
    using gl_new_small [OF assms(1) limb_at_small] u32_of_small [OF limb_at_small, of bs i]
    by (simp add: limb_at_def ucast_up_ucast_id is_up)
  ultimately show ?case using Cons by simp
qed simp

lemma limb_bytes_key: "nebu_laws X \<Longrightarrow> limb_bytes (bytes32_limbs X k) = Some (be_bytes 32 k)"
  using limb_bytes_map [of X "be_bytes 32 k" "[0..<8]"] concat_chunks [of 4 "be_bytes 32 k" 8]
  unfolding bytes32_limbs_def by fastforce

section \<open>The order of the keys\<close>

definition key_order :: "dim \<Rightarrow> particle \<Rightarrow> particle" where
  "key_order d k = (if d = Time then of_be_bytes (be_bytes 8 (of_le_bytes (take 8 (be_bytes 32 k)) :: u64) @ replicate 24 0) else k)"

lemma height_bytes: "be_bytes 32 (u64_key_bytes h) = le_bytes 8 h @ replicate 24 0"
  by (simp add: u64_key_bytes_def be_bytes_of_be_bytes)

lemma sort_key_order:
  assumes "d = Time \<Longrightarrow> k \<in> range u64_key_bytes"
  shows "sort_key d (be_bytes 32 k) = Some (key_order d k)"
proof (cases "d = Time")
  case True
  then obtain h where "k = u64_key_bytes h" using assms by blast
  then show ?thesis using True by (simp add: sort_key_def key_order_def height_bytes list_ex_iff)
next
  case False
  then show ?thesis by (simp add: sort_key_def key_order_def)
qed

lemma key_order_height: "key_order Time (u64_key_bytes g) < key_order Time (u64_key_bytes h) \<longleftrightarrow> g < h"
proof -
  have e: "key_order Time (u64_key_bytes h) = push_bit 192 (ucast h)" for h
  proof (rule bit_eqI)
    fix i
    assume "possible_bit TYPE(256 word) i"
    then have i: "i < 256" by simp
    have k: "key_order Time (u64_key_bytes h) = of_le_bytes (replicate 24 0 @ le_bytes 8 h)"
      by (simp add: key_order_def height_bytes of_be_bytes_def) (simp add: be_bytes_def)
    show "bit (key_order Time (u64_key_bytes h)) i \<longleftrightarrow> bit (push_bit 192 (ucast h) :: particle) i"
    proof (cases "i < 192")
      case True
      then have "i div 8 < 24" by linarith
      then show ?thesis unfolding k using i True by (simp add: bit_of_le_bytes bit_push_bit_iff nth_append)
    next
      case False
      then obtain j where j: "i = j + 192" by (metis add.commute le_Suc_ex not_less)
      moreover have "(j + 24 * 8) mod 8 = j mod 8" by (rule mod_mult_self1)
      ultimately have "i div 8 = j div 8 + 24" "i mod 8 = j mod 8" "j div 8 < 8" using i by simp_all
      then show ?thesis unfolding k using i False
        by (simp add: j bit_of_le_bytes bit_push_bit_iff nth_append nth_le_bytes bit_unsigned_iff bit_drop_bit_eq)
    qed
  qed
  have "unat (push_bit 192 (ucast h) :: particle) = unat h * 2 ^ 192" for h :: u64
  proof -
    have "unat h < 2 ^ 64" using unsigned_less [of h, where 'a = nat] by simp
    then have "unat h * 2 ^ 192 < 2 ^ 256" by simp
    moreover have "unat (ucast h :: particle) = unat h"
      using \<open>unat h < 2 ^ 64\<close> by (simp add: unsigned_ucast_eq take_bit_nat_eq_self)
    ultimately show ?thesis
      by (simp add: push_bit_eq_mult unat_word_ariths)
  qed
  then show ?thesis by (simp add: e word_less_nat_alt)
qed

section \<open>The walk\<close>

definition primary_col :: "dim \<Rightarrow> nat" where
  "primary_col d = (if d = Signals then 16 else 0)"

abbreviation flat :: "ext \<Rightarrow> (particle \<times> goldilocks list) list \<Rightarrow> goldilocks list" where
  "flat X es \<equiv> concat (map (\<lambda>(key, values). bytes32_limbs X key @ values) es)"

text \<open>What the walk relies on of a list of entries: 32-bit fields, widths that can be read off, keys in order.\<close>

definition walkable :: "ext \<Rightarrow> dim \<Rightarrow> (particle \<times> goldilocks list) list \<Rightarrow> bool" where
  "walkable X d es \<longleftrightarrow> small_entries es \<and> sorted_wrt (\<lambda>a b. key_order d a < key_order d b) (map fst es) \<and>
     (\<forall>(k, v) \<in> set es. primary_col d < length v \<and> (d = Time \<longrightarrow> k \<in> range u64_key_bytes) \<and>
       (\<forall>pre post. length (pre @ bytes32_limbs X k @ v @ post) < 2 ^ 60 \<longrightarrow>
          entry_width (pre @ bytes32_limbs X k @ v @ post) d (length pre + KEY_FIELDS) = Some (length v)))"

lemma get_range_mid: "get_range (xs @ ys @ zs) (length xs) (length xs + length ys) = Some ys"
  by (simp add: get_range_def)

lemma u32_max: "0xffffffff < v \<longleftrightarrow> \<not> v < (2 ^ 32 :: u64)"
  by (simp add: word_less_nat_alt) linarith

lemma flat_index_found: "flat_index key c o' es = Some i \<Longrightarrow> key \<in> fst ` set es"
  by (induction key c o' es rule: flat_index.induct) (auto split: if_splits)

lemma primary_loop_entries:
  assumes X: "nebu_laws X"
  shows "walkable X d es \<Longrightarrow> length (pre @ flat X es) < 2 ^ 60 \<Longrightarrow>
    (\<forall>p. previous = Some p \<longrightarrow> (\<forall>k \<in> fst ` set es. p < key_order d k)) \<Longrightarrow> (found \<noteq> None \<longrightarrow> key \<notin> fst ` set es) \<Longrightarrow>
    primary_loop (pre @ flat X es) d key (length es) (length pre) found previous =
      Some (length (pre @ flat X es), case flat_index key (primary_col d) (length pre) es of None \<Rightarrow> found | Some i \<Rightarrow> Some i)"
proof (induction es arbitrary: pre found previous)
  case (Cons e es)
  obtain k v where e: "e = (k, v)" by force
  let ?fs = "pre @ bytes32_limbs X k @ v @ flat X es" and ?start = "length pre + KEY_FIELDS"
  let ?pre = "pre @ bytes32_limbs X k @ v"
  let ?found = "if k = key then Some (?start + primary_col d) else found"
  have fs: "pre @ flat X (e # es) = ?fs" "?pre @ flat X es = ?fs" by (simp_all add: e)
  have w: "primary_col d < length v" "d = Time \<Longrightarrow> k \<in> range u64_key_bytes" "entry_width ?fs d ?start = Some (length v)"
    "\<forall>x \<in> set v. x < 2 ^ 32" "walkable X d es" "\<forall>j \<in> fst ` set es. key_order d k < key_order d j"
    using Cons.prems(1,2) unfolding walkable_def small_entries_def e fs
    by (auto simp del: semiring_norm power_numeral length_append length_concat)
  have sk: "sort_key d (be_bytes 32 k) = Some (key_order d k)" by (rule sort_key_order [OF w(2)])
  have len: "length ?fs < 2 ^ 60" "length ?pre = ?start + length v" using Cons.prems(2) by (simp_all add: e KEY_FIELDS_def)
  have "usize_add (length pre) KEY_FIELDS = Some ?start" "usize_add ?start (length v) = Some (length ?pre)"
    using len by (simp_all add: usize_add_def KEY_FIELDS_def)
  moreover have "get_range ?fs (length pre) ?start = Some (bytes32_limbs X k)"
    using get_range_mid [of pre "bytes32_limbs X k" "v @ flat X es"] by (simp add: KEY_FIELDS_def)
  moreover have "get_range ?fs ?start (length ?pre) = Some v"
    using get_range_mid [of "pre @ bytes32_limbs X k" v "flat X es"] by (simp add: KEY_FIELDS_def add.assoc)
  moreover have "\<not> list_ex (\<lambda>x. 0xffffffff < x) v" using w(4) unfolding list_ex_iff u32_max by blast
  moreover have "\<not> (case previous of None \<Rightarrow> False | Some p \<Rightarrow> key_order d k \<le> p)"
    using Cons.prems(3) by (auto simp: e not_le split: option.split)
  ultimately have "primary_loop ?fs d key (length (e # es)) (length pre) found previous =
    primary_loop ?fs d key (length es) (length ?pre) ?found (Some (key_order d k))"
    by (simp add: limb_bytes_key [OF X] sk w(3) primary_col_def)
  also have "\<dots> = Some (length ?fs, case flat_index key (primary_col d) (length ?pre) es of None \<Rightarrow> ?found | Some i \<Rightarrow> Some i)"
    unfolding fs(2) [symmetric]
  proof (rule Cons.IH [OF w(5)])
    show "length (?pre @ flat X es) < 2 ^ 60" using len(1) by simp
    show "\<forall>p. Some (key_order d k) = Some p \<longrightarrow> (\<forall>k \<in> fst ` set es. p < key_order d k)" using w(6) by blast
    show "?found \<noteq> None \<longrightarrow> key \<notin> fst ` set es" using w(6) Cons.prems(4) by (auto simp: e split: if_splits)
  qed
  also have "(case flat_index key (primary_col d) (length ?pre) es of None \<Rightarrow> ?found | Some i \<Rightarrow> Some i) =
    (case flat_index key (primary_col d) (length pre) (e # es) of None \<Rightarrow> found | Some i \<Rightarrow> Some i)"
  proof (cases "k = key")
    case True
    then have "flat_index key (primary_col d) (length ?pre) es = None"
      using w(6) flat_index_found [of key "primary_col d" "length ?pre" es] by (cases "flat_index key (primary_col d) (length ?pre) es") auto
    then show ?thesis using True w(1) by (simp add: e)
  next
    case False
    then show ?thesis by (simp add: e len(2) del: length_append)
  qed
  finally show ?case unfolding fs(1) .
qed simp

section \<open>The tables of a state can be walked\<close>

lemma keys_sorted: "sorted_wrt (<) (map fst (sorted_list_of_fmap m))"
  by (simp add: sorted_list_of_fmap_def sorted_list_of_fset.rep_eq comp_def)

lemma map_fst_entries: "map fst (map (\<lambda>(k, v). (k, f v)) xs) = map fst xs"
  by (induction xs) auto

lemma time_keys:
  "map fst (map (\<lambda>(h, p). (of_be_bytes (le_bytes 8 h @ replicate 24 0), g p)) xs) = map u64_key_bytes (map fst (xs :: (u64 \<times> 'a) list))"
  by (induction xs) (auto simp: u64_key_bytes_def)

lemma dim_entries_sorted: "sorted_wrt (\<lambda>a b. key_order d a < key_order d b) (map fst (dim_entries X st d))"
proof (cases "d = Time")
  case True
  have "sorted_wrt (\<lambda>a b. key_order Time a < key_order Time b) (map u64_key_bytes (map fst (sorted_list_of_fmap (kd_map (st_time st)))))"
    using keys_sorted [of "kd_map (st_time st)"] unfolding sorted_wrt_map key_order_height .
  then show ?thesis unfolding True dim_entries.simps time_keys .
next
  case False
  then have "key_order d = (\<lambda>k. k)" by (simp add: key_order_def fun_eq_iff)
  then show ?thesis
    using False by (cases d) (simp_all only: dim_entries.simps axon_entries_def map_fst_entries keys_sorted refl not_True_eq_False)
qed

lemma axon_width:
  assumes X: "nebu_laws X" and d: "d = AxonsOut \<or> d = AxonsIn"
    and v: "v = scalar_fields X [of_nat (length ps)] @ concat (map (bytes32_limbs X) ps)"
    and len: "length (pre @ bytes32_limbs X k @ v @ post) < 2 ^ 60"
  shows "entry_width (pre @ bytes32_limbs X k @ v @ post) d (length pre + KEY_FIELDS) = Some (length v)"
proof -
  let ?n = "of_nat (length ps) :: u64" and ?fs = "pre @ bytes32_limbs X k @ v @ post"
  have lv: "length v = 8 * length ps + 2" by (simp add: v length_concat comp_def sum_list_triv)
  have n: "length ps < 2 ^ 60" "8 * length ps + 2 < 2 ^ 64" using len lv by simp_all
  then have un: "unat ?n = length ps" by (simp add: unat_of_nat take_bit_nat_eq_self)
  have at: "get_at ?fs (length pre + KEY_FIELDS) = Some (?n AND 0xffffffff)"
    "get_at ?fs (length pre + KEY_FIELDS + 1) = Some (drop_bit 32 ?n)"
    using gl_new_small [OF X low_limb_small] gl_new_small [OF X high_limb_small]
    by (simp_all add: get_at_def v scalar_fields_def u64_limbs_def KEY_FIELDS_def nth_append)
  have "(ucast (ucast (?n AND 0xffffffff) :: u32) OR push_bit 32 (ucast (ucast (drop_bit 32 ?n) :: u32)) :: u64) = ?n"
    by (simp only: ucast_ucast_32 [OF low_limb_small] ucast_ucast_32 [OF high_limb_small] limbs_recompose)
  then show ?thesis
    using d n un lv unfolding entry_width_def
    by (elim disjE) (simp_all only: at bind.simps dim.case u32_of_small [OF low_limb_small] u32_of_small [OF high_limb_small],
        simp_all add: usize_mul_def usize_add_def mult.commute)
qed

lemma axon_entries_width:
  assumes "nebu_laws X" and "d = AxonsOut \<or> d = AxonsIn" and "(k, v) \<in> set (axon_entries X m)"
  shows "0 < length v \<and> (\<forall>pre post. length (pre @ bytes32_limbs X k @ v @ post) < 2 ^ 60 \<longrightarrow>
    entry_width (pre @ bytes32_limbs X k @ v @ post) d (length pre + KEY_FIELDS) = Some (length v))"
proof -
  obtain ps where v: "v = scalar_fields X [of_nat (length ps)] @ concat (map (bytes32_limbs X) ps)"
    using assms(3) by (auto simp: axon_entries_def)
  then have "0 < length v" by simp
  then show ?thesis using axon_width [OF assms(1,2) v] by blast
qed

lemma flat_entries_width:
  assumes "(k, v) \<in> set (dim_entries X st d)" and "d \<noteq> AxonsOut" "d \<noteq> AxonsIn"
  shows "primary_col d < length v \<and> (d = Time \<longrightarrow> k \<in> range u64_key_bytes) \<and> entry_width fs d i = Some (length v)"
  using assms by (cases d) (auto simp: primary_col_def entry_width_def u64_key_bytes_def dest: arg_cong [where f = length])

lemma dim_entries_walkable:
  assumes "nebu_laws X"
  shows "walkable X d (dim_entries X st d)"
proof -
  have "primary_col d < length v \<and> (d = Time \<longrightarrow> k \<in> range u64_key_bytes) \<and>
      (\<forall>pre post. length (pre @ bytes32_limbs X k @ v @ post) < 2 ^ 60 \<longrightarrow>
        entry_width (pre @ bytes32_limbs X k @ v @ post) d (length pre + KEY_FIELDS) = Some (length v))"
    if kv: "(k, v) \<in> set (dim_entries X st d)" for k v
  proof (cases "d = AxonsOut \<or> d = AxonsIn")
    case True
    then obtain m where "(k, v) \<in> set (axon_entries X m)" using kv by auto
    from axon_entries_width [OF assms True this] show ?thesis using True by (auto simp: primary_col_def)
  next
    case False
    then show ?thesis using flat_entries_width [OF kv] by blast
  qed
  then show ?thesis
    using dim_entries_small [OF assms] dim_entries_sorted unfolding walkable_def by blast
qed

text \<open>The verifier's walk and the prover's offsets name the same cell of the same key.\<close>

lemma case_option_id: "(case m of None \<Rightarrow> None | Some i \<Rightarrow> Some i) = m"
  by (cases m) simp_all

lemma primary_index_state:
  assumes X: "nebu_laws X" and n: "entries_count (dim_entries X st d) \<le> MAX_FIELDS"
  shows "primary_index (dim_serialize X (dim_entries X st d)) d key = flat_index key (primary_col d) HEADER_FIELDS (dim_entries X st d)"
proof -
  let ?es = "dim_entries X st d"
  obtain h where h: "dim_serialize X ?es = h @ flat X ?es" "length h = HEADER_FIELDS"
    by (simp add: dim_serialize_def Let_def HEADER_FIELDS_def)
  have len: "length (h @ flat X ?es) \<le> 2 ^ 20" using n length_dim_serialize_count [of X ?es] by (simp add: h MAX_FIELDS_def)
  have "8 * length ?es \<le> 2 ^ 20" using entries_count_ge(1) [of ?es] n by (simp add: MAX_FIELDS_def)
  then have "unat (of_nat (length ?es) :: u64) = length ?es" by (simp add: unat_of_nat take_bit_nat_eq_self)
  moreover have "get_at (dim_serialize X ?es) 2 = Some (of_nat (length ?es))"
    using dim_serialize_header(3) [OF X n] entries_count_ge(2) [of ?es]
    by (simp add: get_at_def length_dim_serialize_count HEADER_FIELDS_def)
  moreover have "primary_loop (h @ flat X ?es) d key (length ?es) (length h) None None =
    Some (length (h @ flat X ?es), flat_index key (primary_col d) HEADER_FIELDS ?es)"
    using primary_loop_entries [OF X dim_entries_walkable [OF X], of h st d None None key] len h(2)
    by (simp add: case_option_id)
  ultimately show ?thesis using h by (simp add: primary_index_def)
qed

text \<open>The cell at that offset is the primary field of the record.\<close>

lemma flat_index_cell:
  "flat_index key c (length pre) es = Some i \<Longrightarrow>
     \<exists>v. (key, v) \<in> set es \<and> c < length v \<and> i < length (pre @ flat X es) \<and> (pre @ flat X es) ! i = v ! c \<and>
       (c + 1 < length v \<longrightarrow> i + 1 < length (pre @ flat X es) \<and> (pre @ flat X es) ! (i + 1) = v ! (c + 1))"
proof (induction es arbitrary: pre)
  case (Cons e es)
  obtain k v where e: "e = (k, v)" by force
  show ?case
  proof (cases "k = key")
    case True
    then have "c < length v" "i = length pre + KEY_FIELDS + c" using Cons.prems by (auto simp: e split: if_splits)
    then show ?thesis using True by (intro exI [of _ v]) (auto simp: e KEY_FIELDS_def nth_append)
  next
    case False
    then have "flat_index key c (length (pre @ bytes32_limbs X k @ v)) es = Some i"
      using Cons.prems by (simp add: e KEY_FIELDS_def add.assoc)
    from Cons.IH [OF this] show ?thesis by (auto simp: e)
  qed
qed simp

lemma flat_index_present:
  "(key, v) \<in> set es \<Longrightarrow> (\<forall>(k, v) \<in> set es. c < length v) \<Longrightarrow> flat_index key c o' es \<noteq> None"
  by (induction key c o' es rule: flat_index.induct) auto

end
