(* ===== verification/Bbg_Query_Auth.thy ===== *)
theory Bbg_Query_Auth
  imports Bbg_Query_Layout
begin

text \<open>
  Soundness and completeness of public query proofs, public balances and recorded look openings (\<open>query_auth.rs\<close>,
  \<open>proof.rs\<close>, \<open>query.rs\<close>) over a state under the flat root derivation.
\<close>

section \<open>The commitment crate\<close>

text \<open>What the sources rely on of \<open>lens\<close> (the comment of \<open>corner_point\<close>): a polynomial with \<open>2^m\<close> evaluations has
  \<open>m\<close> variables, and the opening at the corner of a cell verifies for the value of the cell.\<close>

definition lens_laws :: "ext \<Rightarrow> 'o lens \<Rightarrow> bool" where
  "lens_laws X L \<longleftrightarrow> (\<forall>evals m. length evals = 2 ^ m \<longrightarrow> ln_num_vars L evals = m \<and>
     (\<forall>idx < 2 ^ m. \<forall>seed. ln_verify L (lens_commit X evals) (corner_point idx m) (evals ! idx)
       (ln_open L evals (corner_point idx m) seed) seed))"

lemma ilog2_power [simp]: "ilog2 (2 ^ m) = m"
proof (induction m)
  case 0
  then show ?case by (subst ilog2.simps) simp
next
  case (Suc m)
  have "\<not> (2 :: nat) ^ Suc m < 2" by simp
  then show ?case using Suc by (subst ilog2.simps) simp
qed

lemma next_power_from_power: "\<exists>m. next_power_from k n = 2 ^ m"
proof (induction k n rule: next_power_from.induct)
  case (1 k n)
  then show ?case by (subst next_power_from.simps) auto
qed

lemma next_power_ilog2: "next_power_of_two n = 2 ^ ilog2 (next_power_of_two n)"
  using next_power_from_power [of 0 n] by (auto simp: next_power_of_two_def)

lemma lens_laws_sample: "lens_laws sample_ext sample_lens"
  by (simp add: lens_laws_def sample_lens_def)

lemma length_padded: "length (padded fs) = 2 ^ ilog2 (next_power_of_two (length fs))"
  using next_power_of_two_ge [of "length fs"] next_power_ilog2 [of "length fs"] by (simp add: padded_def)

section \<open>Proofs of a state\<close>

definition state_proof :: "ext \<Rightarrow> 'o lens \<Rightarrow> bbg_state \<Rightarrow> dim \<Rightarrow> nat \<Rightarrow> 'o query_proof" where
  "state_proof X L st d idx =
     (let fs = dim_serialize X (dim_entries X st d); point = corner_point idx (ilog2 (next_power_of_two (length fs)))
      in \<lparr>qp_commitment = lens_commit X (padded fs), qp_opening = ln_open L (padded fs) point DIM_OPEN,
        qp_value_bytes = le_bytes 8 (fs ! idx),
        qp_context = Some \<lparr>qc_version = QUERY_VERSION, qc_certificate = state_cert X L st [d], qc_namespace = dim_as_u64 d,
          qc_index = of_nat idx\<rparr>,
        qp_point = point\<rparr>)"

abbreviation table_of :: "ext \<Rightarrow> bbg_state \<Rightarrow> dim \<Rightarrow> goldilocks list" where
  "table_of X st d \<equiv> dim_serialize X (dim_entries X st d)"

text \<open>A state whose flat tables can be proved: under the flat derivation, with the table of \<open>d\<close> in the
  limit of a query.\<close>

definition provable :: "ext \<Rightarrow> nat \<Rightarrow> bbg_state \<Rightarrow> dim \<Rightarrow> bool" where
  "provable X n st d \<longleftrightarrow> state_inv X n st \<and> st_root_version st = V1 \<and> length (table_of X st d) \<le> MAX_QUERY_FIELDS"

lemma query_fields_small: "length (table_of X st d) \<le> MAX_QUERY_FIELDS \<Longrightarrow> entries_count (dim_entries X st d) \<le> MAX_FIELDS"
  by (simp add: length_dim_serialize_count MAX_QUERY_FIELDS_def MAX_FIELDS_def)

lemma context_ok:
  assumes "nebu_laws X" and "hemera_laws X" and "provable X n st d"
  shows "\<exists>st'. context_from_state X L st d idx = Some (st', qp_context (state_proof X L st d idx)) \<and> state_inv X n st' \<and> same_records st st'"
proof -
  have "tables_count X st [d] \<le> MAX_FIELDS" using query_fields_small assms(3) by (simp add: provable_def del: dim_entries.simps)
  then obtain st' where "certificate_from_state X L st [dim_as_u64 d] = Some (st', Inr (state_cert X L st [d]))" "state_inv X n st'" "same_records st st'"
    using from_state_ok [OF assms(1,2), of st n "[dim_as_u64 d]" "[d]" L] assms(3) by (auto simp: provable_def)
  then show ?thesis by (simp add: context_from_state_def state_proof_def Let_def)
qed

lemma open_entries_ok:
  assumes "lens_laws X L" and "idx < length (table_of X st d)"
  shows "open_cell_from_entries X L (dim_entries X st d) idx = Some ((state_proof X L st d idx)\<lparr>qp_context := None\<rparr>)"
proof -
  let ?fs = "table_of X st d"
  have "ln_num_vars L (padded ?fs) = ilog2 (next_power_of_two (length ?fs))"
    using assms(1) length_padded [of ?fs] by (simp add: lens_laws_def)
  moreover have "padded ?fs ! idx = ?fs ! idx" using assms(2) by (simp add: padded_def nth_append)
  ultimately show ?thesis
    using assms(2) unfolding open_cell_from_entries_def padded_def [symmetric] state_proof_def Let_def by simp
qed

lemma open_cell_ok:
  assumes "nebu_laws X" and "hemera_laws X" and "lens_laws X L" and "provable X n st d" and "d \<noteq> Balances"
  shows "\<exists>st'. open_cell X L st d idx = Some (st', if idx < length (table_of X st d) then Some (state_proof X L st d idx) else None) \<and>
    state_inv X n st' \<and> same_records st st'"
proof -
  have d: "dim_as_u64 d \<le> 9" using assms(5) by (cases d) simp_all
  have count: "\<not> MAX_QUERY_FIELDS < HEADER_FIELDS + sum_list (map (\<lambda>(_, v). KEY_FIELDS + length v) (dim_entries X st d))"
    using assms(4) by (simp add: provable_def length_dim_serialize)
  show ?thesis
  proof (cases "idx < length (table_of X st d)")
    case True
    obtain st' where "context_from_state X L st d idx = Some (st', qp_context (state_proof X L st d idx))" "state_inv X n st'" "same_records st st'"
      using context_ok [OF assms(1,2,4)] by blast
    then show ?thesis
      using True d count open_entries_ok [OF assms(3) True]
      by (simp add: open_cell_def Let_def state_proof_def del: dim_entries.simps)
  next
    case False
    then have "open_cell_from_entries X L (dim_entries X st d) idx = None" by (simp add: open_cell_from_entries_def Let_def)
    then show ?thesis
      using False count assms(4) by (simp add: open_cell_def Let_def provable_def del: dim_entries.simps)
  qed
qed

section \<open>Completeness\<close>

lemma root_fields_root:
  assumes "\<forall>v \<in> set (words_of r). v < gl_P X"
  shows "root_fields X (root_to_bytes r) = Some r"
proof -
  obtain a b c e where r: "r = (a, b, c, e)" by (cases r) auto
  have w: "take 8 (drop (8 * i) (digest_bytes r)) = le_bytes 8 (words_of r ! i)" if "i \<in> set [0..<4]" for i
  proof -
    have "i = 0 \<or> i = 1 \<or> i = 2 \<or> i = 3" using that by auto
    then show ?thesis by (auto simp: r digest_bytes_def words_of_def)
  qed
  show ?thesis
    using assms w [of 0] w [of 1] w [of 2] w [of 3]
    by (simp add: root_fields_def Let_def list_all_iff) (simp add: r words_of_def)
qed

lemma spec_root_canonical:
  assumes "nebu_laws X"
  shows "\<forall>v \<in> set (words_of (root_from_leaves X (spec_leaves X st))). v < gl_P X"
proof -
  have "rl_dims (spec_leaves X st) \<noteq> []" using spec_leaves_length(2) [of X st] by auto
  then show ?thesis by (rule words_of_root [OF assms])
qed

lemma corner_point_nth: "i < m \<Longrightarrow> corner_point idx m ! i = of_nat (idx div 2 ^ i mod 2)"
  using mod_less_divisor [of 2 "idx div 2 ^ i"] by (auto simp: corner_point_def)

lemma authenticated_state_proof:
  assumes X: "nebu_laws X" and h: "hemera_laws X" and L: "lens_laws X L" and st: "provable X n st d" and idx: "idx < length (table_of X st d)"
  shows "authenticated X L (state_proof X L st d idx) (Some (root_spec X st)) = Some ()"
proof -
  let ?fs = "table_of X st d" and ?r = "root_from_leaves X (spec_leaves X st)" and ?c = "state_cert X L st [d]"
  let ?m = "ilog2 (next_power_of_two (length ?fs))"
  have v1: "st_root_version st = V1" and len: "length ?fs \<le> MAX_QUERY_FIELDS" using st by (simp_all add: provable_def)
  have root: "certificate_root X L ?c = Inr ?r"
    using query_fields_small [OF len] by (intro state_cert_root [OF X h v1]) (simp_all del: dim_entries.simps)
  have ui: "unat (of_nat idx :: u64) = idx"
    using idx len by (simp add: MAX_QUERY_FIELDS_def unat_of_nat take_bit_nat_eq_self)
  have val: "gl_new X (?fs ! idx) = ?fs ! idx"
    by (rule gl_new_canonical [OF X dim_serialize_canonical [OF X dim_entries_small [OF X] nth_mem [OF idx]]])
  have leaf: "be_bytes 32 (lens_commit X (padded ?fs)) = digest_bytes (sc_leaves ?c ! unat (dim_as_u64 d))"
    using leaf_of_dim [OF v1, of X d] digest_bytes_of_bytes32 [OF X commit_dim_canonical [OF h], of "dim_entries X st d"]
    by (simp add: state_cert_def v1_leaf_def commit_dim_def commit_fields_padded)
  have "padded ?fs ! idx = ?fs ! idx" using idx by (simp add: padded_def nth_append)
  moreover have "idx < 2 ^ ?m" using idx length_padded [of ?fs] by (simp add: padded_def)
  ultimately have ver: "ln_verify L (lens_commit X (padded ?fs)) (corner_point idx ?m) (?fs ! idx) (ln_open L (padded ?fs) (corner_point idx ?m) DIM_OPEN) DIM_OPEN"
    using L length_padded [of ?fs] unfolding lens_laws_def by metis
  have pt: "\<not> list_ex (\<lambda>i. corner_point idx ?m ! i \<noteq> of_nat (idx div 2 ^ i mod 2)) [0..<?m]"
    using corner_point_nth by (auto simp: list_ex_iff)
  have lp: "length (corner_point idx ?m) = ?m" by (simp add: corner_point_def)
  have dims: "sc_dimensions ?c = [state_table X st d]" by (simp add: state_cert_def)
  have rf: "root_fields X (root_spec X st) = Some ?r"
    unfolding root_spec_def by (rule root_fields_root [OF spec_root_canonical [OF X]])
  show ?thesis
    unfolding authenticated_def state_proof_def Let_def
    using root len idx dims ui val leaf ver pt lp rf
    by (simp add: get_at_def del: dim_entries.simps)
qed

lemma authenticated_none: "authenticated X L p (Some r) = Some () \<Longrightarrow> authenticated X L p None = Some ()"
  unfolding authenticated_def by (auto simp: bind_eq_Some_conv Let_def split: if_splits)

text \<open>The entity proofs: the offset the prover walks to, and the acceptance by the verifier.\<close>

lemma entity_loop_index:
  "entity_loop X L st d key c off es =
     (case flat_index key c off es of None \<Rightarrow> Some (st, None) | Some i \<Rightarrow> open_cell X L st d i)"
  by (induction X L st d key c off es rule: entity_loop.induct) (auto split: option.split)

lemma flat_index_state:
  assumes "flat_index key c HEADER_FIELDS (dim_entries X st d) = Some i"
  shows "\<exists>v. (key, v) \<in> set (dim_entries X st d) \<and> c < length v \<and> i < length (table_of X st d) \<and> table_of X st d ! i = v ! c \<and>
    (c + 1 < length v \<longrightarrow> i + 1 < length (table_of X st d) \<and> table_of X st d ! (i + 1) = v ! (c + 1))"
proof -
  obtain h where "table_of X st d = h @ flat X (dim_entries X st d)" "length h = HEADER_FIELDS"
    by (simp add: dim_serialize_def Let_def HEADER_FIELDS_def)
  then show ?thesis using flat_index_cell [of key c h "dim_entries X st d" i X] assms by metis
qed

lemma verify_state_proof:
  assumes X: "nebu_laws X" and "hemera_laws X" and "lens_laws X L" and st: "provable X n st d"
    and i: "flat_index key (primary_col d) HEADER_FIELDS (dim_entries X st d) = Some i"
  shows "verify_entity X L (state_proof X L st d i) (root_spec X st) d key"
proof -
  have il: "i < length (table_of X st d)" using flat_index_state [OF i] by blast
  have "entries_count (dim_entries X st d) \<le> MAX_FIELDS" using st query_fields_small by (simp add: provable_def)
  then have pi: "primary_index (table_of X st d) d key = Some i" using primary_index_state [OF X] i by simp
  show ?thesis
    using authenticated_state_proof [OF assms(1-4) il] pi
    by (simp add: verify_entity_def state_proof_def Let_def state_cert_def)
qed

lemma entity_ok:
  assumes "nebu_laws X" and "hemera_laws X" and "lens_laws X L" and "provable X n st d" and "d \<noteq> Balances"
  shows "\<exists>st'. open_entity X L st d key (primary_col d) =
      Some (st', map_option (state_proof X L st d) (flat_index key (primary_col d) HEADER_FIELDS (dim_entries X st d))) \<and>
    state_inv X n st' \<and> same_records st st'"
proof (cases "flat_index key (primary_col d) HEADER_FIELDS (dim_entries X st d)")
  case None
  then show ?thesis using assms(4) by (auto simp: open_entity_def entity_loop_index provable_def)
next
  case (Some i)
  then have "i < length (table_of X st d)" using flat_index_state by blast
  then show ?thesis using Some open_cell_ok [OF assms, of i] by (simp add: open_entity_def entity_loop_index)
qed

lemma zero_tail_height:
  fixes key :: particle
  assumes "\<not> list_ex (\<lambda>v. v \<noteq> 0) (drop 8 (be_bytes 32 key))"
  shows "of_be_bytes (le_bytes 8 (of_le_bytes (take 8 (be_bytes 32 key)) :: u64) @ replicate 24 0) = key"
proof -
  have "drop 8 (be_bytes 32 key) = replicate 24 0"
    using assms by (intro replicate_eqI) (simp_all add: list_ex_iff)
  moreover have "take 8 (be_bytes 32 key) @ drop 8 (be_bytes 32 key) = be_bytes 32 key" by simp
  ultimately have "le_bytes 8 (of_le_bytes (take 8 (be_bytes 32 key)) :: u64) @ replicate 24 0 = be_bytes 32 key"
    by (simp add: le_bytes_of_le_bytes)
  then show ?thesis by simp
qed

lemma bbg_query_entity:
  assumes "d \<noteq> Balances" and "d = Time \<Longrightarrow> \<not> list_ex (\<lambda>v. v \<noteq> 0) (drop 8 (be_bytes 32 key))"
  shows "bbg_query X L st d key = open_entity X L st d key (primary_col d)"
  using assms zero_tail_height [of key]
  by (cases d) (simp_all add: bbg_query_def prove_particle_def prove_axons_out_def prove_axons_in_def prove_neuron_def
      prove_location_def prove_coin_def prove_card_def prove_file_def prove_time_def prove_signal_key_def primary_col_def)

section \<open>Soundness\<close>

text \<open>No collision among the values a proof shows: those of its certificate against the state. An array of 14 leaves is
  what the source's type says.\<close>

definition proof_apart :: "ext \<Rightarrow> bbg_state \<Rightarrow> 'o query_proof \<Rightarrow> bool" where
  "proof_apart X st p \<longleftrightarrow> (\<forall>c \<in> set_option (qp_context p). length (sc_leaves (qc_certificate c)) = 14 \<and> certificate_apart X st (qc_certificate c))"

lemma authenticated_sound:
  assumes X: "nebu_laws X" and h: "hemera_laws X" and v1: "st_root_version st = V1"
    and auth: "authenticated X L p (Some (root_spec X st)) = Some ()" and apart: "proof_apart X st p"
  shows "\<exists>c d. qp_context p = Some c \<and> qc_namespace c = dim_as_u64 d \<and> sc_dimensions (qc_certificate c) = [state_table X st d] \<and>
    unat (qc_index c) < length (table_of X st d) \<and> qp_value_bytes p = le_bytes 8 (table_of X st d ! unat (qc_index c)) \<and>
    length (table_of X st d) \<le> MAX_QUERY_FIELDS"
proof -
  let ?r = "root_from_leaves X (spec_leaves X st)"
  have rf: "root_fields X (root_spec X st) = Some ?r"
    unfolding root_spec_def by (rule root_fields_root [OF spec_root_canonical [OF X]])
  obtain c where c: "qp_context p = Some c" using auth by (cases "qp_context p") (simp_all add: authenticated_def)
  let ?C = "qc_certificate c" and ?t = "sc_dimensions (qc_certificate c) ! 0"
  have f: "length (sc_dimensions ?C) = 1" "dt_namespace ?t = qc_namespace c" "length (dt_fields ?t) \<le> MAX_QUERY_FIELDS"
    "certificate_root X L ?C = Inr ?r" "unat (qc_index c) < length (dt_fields ?t)"
    "qp_value_bytes p = le_bytes 8 (dt_fields ?t ! unat (qc_index c))"
    using auth unfolding authenticated_def c Let_def
    by (auto simp: bind_eq_Some_conv rf get_at_def not_less split: if_splits sum.splits)
  have len: "length (sc_leaves ?C) = 14" and ap: "certificate_apart X st ?C" using apart c by (simp_all add: proof_apart_def)
  obtain t where t: "sc_dimensions ?C = [t]" using f(1) by (cases "sc_dimensions ?C") auto
  obtain d where "t = state_table X st d" using certificate_binds_ok [OF X h v1 f(4) len ap, of t] t by auto
  then show ?thesis using c f t by (intro exI [of _ c] exI [of _ d]) (simp del: dim_entries.simps)
qed

lemma verify_entity_sound:
  assumes X: "nebu_laws X" and h: "hemera_laws X" and v1: "st_root_version st = V1"
    and ver: "verify_entity X L p (root_spec X st) d key" and apart: "proof_apart X st p"
  shows "\<exists>c v. qp_context p = Some c \<and> (key, v) \<in> set (dim_entries X st d) \<and> primary_col d < length v \<and>
    qp_value_bytes p = le_bytes 8 (v ! primary_col d) \<and> sc_dimensions (qc_certificate c) = [state_table X st d] \<and>
    (primary_col d + 1 < length v \<longrightarrow> unat (qc_index c) + 1 < length (table_of X st d) \<and>
      table_of X st d ! unat (qc_index c) = v ! primary_col d \<and> table_of X st d ! (unat (qc_index c) + 1) = v ! (primary_col d + 1))"
proof -
  have auth: "authenticated X L p (Some (root_spec X st)) = Some ()"
    using ver by (cases "authenticated X L p (Some (root_spec X st))") (simp_all add: verify_entity_def)
  from authenticated_sound [OF X h v1 this apart]
  obtain c e where c: "qp_context p = Some c" "qc_namespace c = dim_as_u64 e" "sc_dimensions (qc_certificate c) = [state_table X st e]"
    "unat (qc_index c) < length (table_of X st e)" "qp_value_bytes p = le_bytes 8 (table_of X st e ! unat (qc_index c))"
    "length (table_of X st e) \<le> MAX_QUERY_FIELDS"
    by blast
  have e: "e = d" using ver c by (simp add: verify_entity_def dim_as_inj split: if_splits)
  obtain i where i: "primary_index (table_of X st d) d key = Some i" "of_nat i = qc_index c"
    using ver c by (auto simp: verify_entity_def e split: if_splits option.splits)
  have fi: "flat_index key (primary_col d) HEADER_FIELDS (dim_entries X st d) = Some i"
    using primary_index_state [OF X query_fields_small [OF c(6)]] i(1) by (simp add: e)
  obtain v where v: "(key, v) \<in> set (dim_entries X st d)" "primary_col d < length v" "i < length (table_of X st d)"
    "table_of X st d ! i = v ! primary_col d"
    "primary_col d + 1 < length v \<longrightarrow> i + 1 < length (table_of X st d) \<and> table_of X st d ! (i + 1) = v ! (primary_col d + 1)"
    using flat_index_state [OF fi] by blast
  have "unat (qc_index c) = i"
    unfolding i(2) [symmetric] using v(3) c(6) e by (simp add: unat_of_nat take_bit_nat_eq_self MAX_QUERY_FIELDS_def)
  then show ?thesis using c v e by (intro exI [of _ c] exI [of _ v]) (simp del: dim_entries.simps)
qed

section \<open>Public balances\<close>

lemma position_of_Cons: "position_of k (a # as) = (if a = k then Some 0 else map_option Suc (position_of k as))"
proof -
  have f: "find (\<lambda>i. (a # as) ! i = k) (map Suc is) = map_option Suc (find (\<lambda>i. as ! i = k) is)" for "is"
    by (induction "is") auto
  have "[0..<length (a # as)] = 0 # map Suc [0..<length as]" by (simp add: upt_conv_Cons map_Suc_upt del: upt_Suc)
  then show ?thesis by (simp add: position_of_def f)
qed

lemma flat_index_position:
  "\<forall>(k, v) \<in> set es. length v = w \<Longrightarrow> c < w \<Longrightarrow>
     flat_index key c off es = map_option (\<lambda>i. off + i * (KEY_FIELDS + w) + KEY_FIELDS + c) (position_of key (map fst es))"
proof (induction es arbitrary: off)
  case (Cons e es)
  then show ?case by (cases e) (auto simp: position_of_Cons option.map_comp comp_def algebra_simps)
qed (simp add: position_of_def)

lemma balance_entries:
  "map fst (dim_entries X st Balances) = sorted_list_of_fset (fmdom (kd_map (st_balances st)))"
  "\<forall>(k, v) \<in> set (dim_entries X st Balances). length v = 2"
  "(k, v) \<in> set (dim_entries X st Balances) \<longleftrightarrow> (\<exists>b. fmlookup (kd_map (st_balances st)) k = Some b \<and> v = u64_limbs X b)"
  by (auto simp: sorted_list_of_fmap_def scalar_fields_def sorted_list_of_fset.rep_eq fmdomI comp_def split: prod.splits intro!: rev_image_eqI fmdomI)

lemma balance_table: "length (table_of X st Balances) = HEADER_FIELDS + fcard (fmdom (kd_map (st_balances st))) * (KEY_FIELDS + 2)"
proof -
  have "sum_list (map (\<lambda>(_, v). KEY_FIELDS + length v) es) = length es * (KEY_FIELDS + 2)"
    if "\<forall>(k, v) \<in> set es. length v = 2" for es :: "(particle \<times> goldilocks list) list"
    using that by (induction es) auto
  moreover have "length (dim_entries X st Balances) = fcard (fmdom (kd_map (st_balances st)))"
    using arg_cong [OF balance_entries(1) [of X st], of length] by (simp add: sorted_list_of_fset.rep_eq fcard.rep_eq del: dim_entries.simps)
  ultimately show ?thesis using balance_entries(2) [of X st] by (simp add: length_dim_serialize del: dim_entries.simps)
qed

lemma prove_public_balance_ok:
  assumes X: "nebu_laws X" and h: "hemera_laws X" and L: "lens_laws X L" and st: "provable X n st Balances"
  shows "\<exists>st'. prove_public_balance X L st owner token = Some (st', map_option (state_proof X L st Balances)
      (flat_index (balance_key X owner token) 0 HEADER_FIELDS (dim_entries X st Balances))) \<and> state_inv X n st' \<and> same_records st st'"
proof -
  let ?k = "balance_key X owner token" and ?es = "dim_entries X st Balances" and ?n = "fcard (fmdom (kd_map (st_balances st)))"
  have len: "HEADER_FIELDS + ?n * (KEY_FIELDS + 2) \<le> MAX_QUERY_FIELDS" using st unfolding provable_def balance_table by blast
  then have u: "Option.bind (usize_mul ?n (KEY_FIELDS + 2)) (usize_add HEADER_FIELDS) = Some (HEADER_FIELDS + ?n * (KEY_FIELDS + 2))"
    by (simp add: usize_mul_def usize_add_def MAX_QUERY_FIELDS_def)
  have fi: "flat_index ?k 0 HEADER_FIELDS ?es = map_option (\<lambda>i. HEADER_FIELDS + i * (KEY_FIELDS + 2) + KEY_FIELDS)
      (position_of ?k (sorted_list_of_fset (fmdom (kd_map (st_balances st)))))"
    using flat_index_position [OF balance_entries(2) [of X st], of 0 ?k HEADER_FIELDS] by (simp add: balance_entries(1) del: dim_entries.simps)
  show ?thesis
  proof (cases "position_of ?k (sorted_list_of_fset (fmdom (kd_map (st_balances st))))")
    case None
    then show ?thesis using u len st fi unfolding prove_public_balance_def by (auto simp: provable_def)
  next
    case (Some pos)
    let ?i = "HEADER_FIELDS + pos * (KEY_FIELDS + 2) + KEY_FIELDS"
    have i: "flat_index ?k 0 HEADER_FIELDS ?es = Some ?i" using fi Some by simp
    then have il: "?i < length (table_of X st Balances)" using flat_index_state by blast
    have "open_cell X L st Balances ?i = Some (st, Some ((state_proof X L st Balances ?i)\<lparr>qp_context := None\<rparr>))"
      using open_entries_ok [OF L il] by (simp add: open_cell_def Let_def del: dim_entries.simps)
    then have p: "prove_balances X L st owner token = Some (st, Some ((state_proof X L st Balances ?i)\<lparr>qp_context := None\<rparr>))"
      unfolding prove_balances_def open_entity_def entity_loop_index i by simp
    obtain st' where "context_from_state X L st Balances ?i = Some (st', qp_context (state_proof X L st Balances ?i))" "state_inv X n st'" "same_records st st'"
      using context_ok [OF X h st] by blast
    then show ?thesis
      using u len Some i p unfolding prove_public_balance_def Let_def by (simp add: state_proof_def Let_def del: dim_entries.simps)
  qed
qed

lemma public_balance_limbs:
  assumes "nebu_laws X"
  shows "Option.bind (u32_of (u64_limbs X b ! 0)) (\<lambda>low. Option.bind (u32_of (u64_limbs X b ! 1))
    (\<lambda>high. Some (ucast low OR push_bit 32 (ucast high) :: u64))) = Some b"
  by (simp add: u64_limbs_def gl_new_small [OF assms low_limb_small] gl_new_small [OF assms high_limb_small]
      u32_of_small [OF low_limb_small] u32_of_small [OF high_limb_small] ucast_ucast_32 [OF low_limb_small]
      ucast_ucast_32 [OF high_limb_small] limbs_recompose)

lemma verify_public_balance_sound:
  assumes "nebu_laws X" and "hemera_laws X" and "st_root_version st = V1" and "proof_apart X st p"
    and "verify_entity X L p (root_spec X st) Balances (balance_key X owner token)"
  shows "\<exists>b. fmlookup (kd_map (st_balances st)) (balance_key X owner token) = Some b \<and>
    verify_public_balance X L p (root_spec X st) owner token = Some b"
proof -
  let ?k = "balance_key X owner token"
  obtain c v where c: "qp_context p = Some c" "(?k, v) \<in> set (dim_entries X st Balances)"
    "sc_dimensions (qc_certificate c) = [state_table X st Balances]" "primary_col Balances + 1 < length v \<longrightarrow>
      unat (qc_index c) + 1 < length (table_of X st Balances) \<and>
      table_of X st Balances ! unat (qc_index c) = v ! primary_col Balances \<and>
      table_of X st Balances ! (unat (qc_index c) + 1) = v ! (primary_col Balances + 1)"
    using verify_entity_sound [OF assms(1-3,5,4)] by blast
  obtain b where b: "fmlookup (kd_map (st_balances st)) ?k = Some b" "v = u64_limbs X b" using c(2) unfolding balance_entries(3) by blast
  then have at: "get_at (table_of X st Balances) (unat (qc_index c)) = Some (u64_limbs X b ! 0)"
    "get_at (table_of X st Balances) (unat (qc_index c) + 1) = Some (u64_limbs X b ! 1)"
    using c(4) by (simp_all add: primary_col_def get_at_def del: dim_entries.simps)
  have "verify_public_balance X L p (root_spec X st) owner token = Some b"
    unfolding verify_public_balance_def Let_def c(1) using assms(5) public_balance_limbs [OF assms(1), of b] at
    by (simp add: c(3) del: dim_entries.simps)
  then show ?thesis using b(1) by blast
qed

section \<open>Properties\<close>

lemma root_now: "state_inv X n st \<Longrightarrow> hemera_laws X \<Longrightarrow> state_root X st = Some (st', root) \<Longrightarrow> root = root_spec X st"
  using root_of_inv(2) [of X n st] by auto

lemma time_keys_tail:
  assumes "(key, v) \<in> set (dim_entries X st Time)"
  shows "\<not> list_ex (\<lambda>v. v \<noteq> 0) (drop 8 (be_bytes 32 key))"
proof -
  obtain h where "key = u64_key_bytes h" using flat_entries_width [OF assms] by blast
  then show ?thesis by (simp add: height_bytes list_ex_iff)
qed

lemma flat_index_None:
  assumes "nebu_laws X"
  shows "flat_index key (primary_col d) off (dim_entries X st d) = None \<longleftrightarrow> key \<notin> fst ` set (dim_entries X st d)"
proof -
  have "\<forall>(k, v) \<in> set (dim_entries X st d). primary_col d < length v"
    using dim_entries_walkable [OF assms, of d st] by (auto simp: walkable_def)
  note present = flat_index_present [OF _ this, of key _ off]
  show ?thesis
  proof
    assume "flat_index key (primary_col d) off (dim_entries X st d) = None"
    then show "key \<notin> fst ` set (dim_entries X st d)" using present by force
  next
    assume "key \<notin> fst ` set (dim_entries X st d)"
    then show "flat_index key (primary_col d) off (dim_entries X st d) = None"
      using flat_index_found [of key "primary_col d" off "dim_entries X st d"] by force
  qed
qed

text \<open>C24: public queries are complete. On a state under the flat derivation whose table fits a query, \<open>bbg_query\<close>
  never fails: it returns a proof exactly for the keys the dimension holds, and the proof is accepted by
  \<open>verify_entity\<close> for that key against the state's root (and by \<open>verify_query\<close>).\<close>

theorem query_complete:
  assumes "nebu_laws X" and "hemera_laws X" and "lens_laws X L" and "provable X n st d" and "d \<noteq> Balances"
    and "state_root X st = Some (st', root)"
  shows "\<exists>st'' r. bbg_query X L st d key = Some (st'', r) \<and> state_inv X n st'' \<and> same_records st st'' \<and>
    (r = None \<longleftrightarrow> key \<notin> fst ` set (dim_entries X st d)) \<and>
    (\<forall>p. r = Some p \<longrightarrow> verify_entity X L p root d key \<and> verify_query X L p)"
proof (cases "d = Time \<and> list_ex (\<lambda>v. v \<noteq> 0) (drop 8 (be_bytes 32 key))")
  case True
  then have "key \<notin> fst ` set (dim_entries X st d)" using time_keys_tail [of key _ X st] by (auto simp del: dim_entries.simps)
  then show ?thesis using True assms(4) by (auto simp: bbg_query_def provable_def simp del: dim_entries.simps)
next
  case False
  let ?i = "flat_index key (primary_col d) HEADER_FIELDS (dim_entries X st d)"
  have root: "root = root_spec X st" using root_now [OF _ assms(2,6), of n] assms(4) unfolding provable_def by blast
  have q: "bbg_query X L st d key = open_entity X L st d key (primary_col d)"
    using False by (intro bbg_query_entity [OF assms(5)]) blast
  obtain st'' where st'': "open_entity X L st d key (primary_col d) = Some (st'', map_option (state_proof X L st d) ?i)"
    "state_inv X n st''" "same_records st st''"
    using entity_ok [OF assms(1-5)] by blast
  have "verify_entity X L p root d key \<and> verify_query X L p" if ip: "map_option (state_proof X L st d) ?i = Some p" for p
  proof -
    obtain i where i: "?i = Some i" "p = state_proof X L st d i" using ip by auto
    then have "verify_entity X L p root d key" unfolding root using verify_state_proof [OF assms(1-4)] by blast
    moreover have "i < length (table_of X st d)" using flat_index_state [OF i(1)] by blast
    from authenticated_none [OF authenticated_state_proof [OF assms(1-4) this]] have "verify_query X L p"
      unfolding i(2) by (simp add: verify_query_def)
    ultimately show ?thesis by blast
  qed
  moreover have "map_option (state_proof X L st d) ?i = None \<longleftrightarrow> key \<notin> fst ` set (dim_entries X st d)"
    using flat_index_None [OF assms(1), of key d HEADER_FIELDS st] by simp
  ultimately show ?thesis using q st'' by metis
qed

text \<open>C23: public queries are sound. A proof, whoever made it, that \<open>verify_entity\<close> accepts against the root of a state
  names a key the dimension holds and the primary field stored under it; one that \<open>verify_query_at\<close> accepts names
  the value of that cell. Both hold unless a compression or a table commitment collides.\<close>

theorem query_sound:
  assumes "nebu_laws X" and "hemera_laws X" and "st_root_version st = V1" and "state_inv X n st"
    and "state_root X st = Some (st', root)" and "proof_apart X st p"
  shows "(verify_entity X L p root d key \<longrightarrow> (\<exists>v. (key, v) \<in> set (dim_entries X st d) \<and> primary_col d < length v \<and>
      qp_value_bytes p = le_bytes 8 (v ! primary_col d))) \<and>
    (verify_query_at X L p root (dim_as_u64 d) index \<longrightarrow> (\<exists>v. cell_value X st d (unat index) = Some v \<and> qp_value_bytes p = le_bytes 8 v))"
proof (intro conjI impI)
  have root: "root = root_spec X st" by (rule root_now [OF assms(4,2,5)])
  show "\<exists>v. (key, v) \<in> set (dim_entries X st d) \<and> primary_col d < length v \<and> qp_value_bytes p = le_bytes 8 (v ! primary_col d)"
    if "verify_entity X L p root d key"
    using verify_entity_sound [OF assms(1-3) that [unfolded root] assms(6)] by blast
  show "\<exists>v. cell_value X st d (unat index) = Some v \<and> qp_value_bytes p = le_bytes 8 v" if v: "verify_query_at X L p root (dim_as_u64 d) index"
  proof -
    have "authenticated X L p (Some (root_spec X st)) = Some ()"
      using v unfolding root by (cases "authenticated X L p (Some (root_spec X st))") (simp_all add: verify_query_at_def)
    from authenticated_sound [OF assms(1-3) this assms(6)] v show ?thesis
      by (auto simp: verify_query_at_def cell_value_def Let_def dim_as_inj simp del: dim_entries.simps)
  qed
qed

text \<open>C25: a public balance is proved and read exactly. On a state whose balance table fits a query,
  \<open>prove_public_balance\<close> succeeds exactly when the account has a row, and verification of its proof returns the balance, both
  limbs; and whatever proof verifies, by whoever made, the returned number is the stored balance, absent collisions.\<close>

theorem public_balance_exact:
  assumes "nebu_laws X" and "hemera_laws X" and "lens_laws X L" and "provable X n st Balances"
    and "state_root X st = Some (st', root)"
  shows "(\<exists>st'' r. prove_public_balance X L st owner token = Some (st'', r) \<and> same_records st st'' \<and>
      Option.bind r (\<lambda>p. verify_public_balance X L p root owner token) = fmlookup (kd_map (st_balances st)) (balance_key X owner token) \<and>
      (r = None \<longleftrightarrow> fmlookup (kd_map (st_balances st)) (balance_key X owner token) = None)) \<and>
    (proof_apart X st q \<and> verify_public_balance X L q root owner token = Some b \<longrightarrow>
      fmlookup (kd_map (st_balances st)) (balance_key X owner token) = Some b)"
proof
  let ?k = "balance_key X owner token" and ?i = "flat_index (balance_key X owner token) 0 HEADER_FIELDS (dim_entries X st Balances)"
  have v1: "st_root_version st = V1" and inv: "state_inv X n st" using assms(4) by (simp_all add: provable_def)
  have root: "root = root_spec X st" by (rule root_now [OF inv assms(2,5)])
  note sound = verify_public_balance_sound [OF assms(1,2) v1, of _ L owner token]
  have none: "?i = None \<longleftrightarrow> fmlookup (kd_map (st_balances st)) ?k = None"
  proof -
    have "?k \<in> fst ` set (dim_entries X st Balances) \<longleftrightarrow> (\<exists>v. (?k, v) \<in> set (dim_entries X st Balances))" by force
    then have "?k \<in> fst ` set (dim_entries X st Balances) \<longleftrightarrow> fmlookup (kd_map (st_balances st)) ?k \<noteq> None"
      unfolding balance_entries(3) by blast
    then show ?thesis
      using flat_index_None [OF assms(1), of ?k Balances HEADER_FIELDS st] by (simp add: primary_col_def del: dim_entries.simps)
  qed
  obtain st'' where st'': "prove_public_balance X L st owner token = Some (st'', map_option (state_proof X L st Balances) ?i)" "same_records st st''"
    using prove_public_balance_ok [OF assms(1-4)] by blast
  have "verify_public_balance X L (state_proof X L st Balances i) root owner token = fmlookup (kd_map (st_balances st)) ?k" if "?i = Some i" for i
  proof -
    have "verify_entity X L (state_proof X L st Balances i) (root_spec X st) Balances ?k"
      using verify_state_proof [OF assms(1-4), of ?k i] that by (simp add: primary_col_def del: dim_entries.simps)
    moreover have "proof_apart X st (state_proof X L st Balances i)"
      by (simp add: proof_apart_def state_proof_def Let_def state_cert_apart) (simp add: state_cert_def spec_leaves_length)
    ultimately show ?thesis unfolding root using sound by metis
  qed
  then have "Option.bind (map_option (state_proof X L st Balances) ?i) (\<lambda>p. verify_public_balance X L p root owner token) =
      fmlookup (kd_map (st_balances st)) ?k"
    using none by (cases ?i) simp_all
  then show "\<exists>st'' r. prove_public_balance X L st owner token = Some (st'', r) \<and> same_records st st'' \<and>
      Option.bind r (\<lambda>p. verify_public_balance X L p root owner token) = fmlookup (kd_map (st_balances st)) ?k \<and>
      (r = None \<longleftrightarrow> fmlookup (kd_map (st_balances st)) ?k = None)"
    using st'' none by (intro exI [of _ st''] exI [of _ "map_option (state_proof X L st Balances) ?i"]) simp
  show "proof_apart X st q \<and> verify_public_balance X L q root owner token = Some b \<longrightarrow> fmlookup (kd_map (st_balances st)) ?k = Some b"
    using sound [of q] unfolding root by (auto simp: verify_public_balance_def split: if_splits)
qed

lemma query_value_state_proof:
  assumes "nebu_laws X" and "idx < length (table_of X st d)"
  shows "query_value X (state_proof X L st d idx) = table_of X st d ! idx"
  using gl_new_canonical [OF assms(1) dim_serialize_canonical [OF assms(1) dim_entries_small [OF assms(1)] nth_mem [OF assms(2)]]]
  by (simp add: query_value_def state_proof_def Let_def del: dim_entries.simps)

text \<open>The recording look provider agrees with the plain one. For every public dimension and cell index both return
  the same value; the recording one appends one opening for a cell in range and none otherwise, and the opening is accepted by
  \<open>verify_opening_with_context\<close> with the complete query for that cell and the state's root.\<close>

theorem look_providers_agree:
  assumes "nebu_laws X" and "hemera_laws X" and "lens_laws X L" and "provable X n (pl_state p) d" and "d \<noteq> Balances"
    and "pl_leaves p = spec_leaves X (pl_state p)" and "state_root X (pl_state p) = Some (st', root)"
  shows "\<exists>p'. proof_look X L p (dim_as_u64 d) key = Some (p', look X (pl_state p) (dim_as_u64 d) key) \<and>
    same_records (pl_state p) (pl_state p') \<and> state_inv X n (pl_state p') \<and>
    (case look X (pl_state p) (dim_as_u64 d) key of
       None \<Rightarrow> pl_openings p' = pl_openings p
     | Some v \<Rightarrow> \<exists>lo q st''. pl_openings p' = pl_openings p @ [lo] \<and> lo_value lo = v \<and>
         open_cell X L (pl_state p) d (unat key) = Some (st'', Some q) \<and> verify_opening_with_context X L lo q root key)"
proof -
  let ?st = "pl_state p" and ?q = "state_proof X L (pl_state p) d (unat key)"
  have root: "root = root_spec X ?st" using root_now [OF _ assms(2,7), of n] assms(4) unfolding provable_def by blast
  have d: "\<not> 9 < dim_as_u64 d" using assms(5) by (cases d) simp_all
  obtain st'' where st'': "open_cell X L ?st d (unat key) = Some (st'', if unat key < length (table_of X ?st d) then Some ?q else None)"
    "state_inv X n st''" "same_records ?st st''"
    using open_cell_ok [OF assms(1-5)] by blast
  have look: "look X ?st (dim_as_u64 d) key = (if unat key < length (table_of X ?st d) then Some (table_of X ?st d ! unat key) else None)"
    using d by (simp add: look_def cell_value_def Let_def del: dim_entries.simps)
  show ?thesis
  proof (cases "unat key < length (table_of X ?st d)")
    case False
    then show ?thesis using st'' d look by (simp add: proof_look_def del: dim_entries.simps)
  next
    case True
    let ?lo = "look_opening_of X ?q (pl_leaves p) (dim_as_u64 d)"
    have v: "query_value X ?q = table_of X ?st d ! unat key" by (rule query_value_state_proof [OF assms(1) True])
    have "verify_query_at X L ?q root (dim_as_u64 d) key"
      using authenticated_state_proof [OF assms(1-4) True] by (simp add: verify_query_at_def root) (simp add: state_proof_def Let_def)
    then have "verify_opening_with_context X L ?lo ?q root key"
      using v assms(6)
      by (simp add: verify_opening_with_context_def look_opening_of_def) (simp add: state_proof_def Let_def state_cert_def)
    then show ?thesis
      using True st'' d look v by (simp add: proof_look_def look_opening_of_def del: dim_entries.simps)
  qed
qed

section \<open>Witnesses\<close>

definition sample_query :: bbg_state where
  "sample_query = set_root_version (state_new\<lparr>
     st_neurons := fst (keyed_insert keyed_new 5 \<lparr>nr_focus = 9, nr_karma = 0, nr_stake = 0, nr_nonce = 1\<rparr>),
     st_balances := fst (keyed_insert keyed_new (balance_key sample_ext 1 2) 77)\<rparr>) V1"

lemma sample_query_maps:
  "kd_map (st_neurons sample_query) = fmupd 5 \<lparr>nr_focus = 9, nr_karma = 0, nr_stake = 0, nr_nonce = 1\<rparr> fmempty"
  "kd_map (st_balances sample_query) = fmupd (balance_key sample_ext 1 2) 77 fmempty"
  by (simp_all add: sample_query_def set_root_version_def keyed_new_def)

lemma sample_query_inv: "state_inv sample_ext 0 sample_query" "st_root_version sample_query = V1"
proof -
  let ?st = "state_new\<lparr>st_neurons := fst (keyed_insert keyed_new 5 \<lparr>nr_focus = 9, nr_karma = 0, nr_stake = 0, nr_nonce = 1\<rparr>),
     st_balances := fst (keyed_insert keyed_new (balance_key sample_ext 1 2) 77)\<rparr>"
  have "state_evolves sample_ext 2 state_new ?st"
    by (simp add: state_evolves_def insert_evolves(1)) (simp add: state_new_def insert_evolves(1))
  moreover have "state_inv sample_ext (0 + 2) state_new" by (rule state_inv_new) simp
  ultimately have "state_inv sample_ext 0 ?st" by (rule state_inv_evolves [rotated])
  then show "state_inv sample_ext 0 sample_query" unfolding sample_query_def by simp
  show "st_root_version sample_query = V1" by (simp add: sample_query_def set_root_version_def)
qed

lemma sample_query_provable: "provable sample_ext 0 sample_query Neurons" "provable sample_ext 0 sample_query Balances"
  using sample_query_inv
  by (simp_all add: provable_def length_dim_serialize sample_query_maps sorted_list_of_fmap_def sorted_list_of_fset.rep_eq
      MAX_QUERY_FIELDS_def HEADER_FIELDS_def KEY_FIELDS_def)

lemma sample_query_root:
  obtains st' where "state_root sample_ext sample_query = Some (st', root_spec sample_ext sample_query)"
  using root_of_inv(2) [OF sample_query_inv(1) hemera_laws_sample] by blast

lemma sample_query_key: "5 \<in> fst ` set (dim_entries sample_ext sample_query Neurons)"
  by (simp add: sample_query_maps sorted_list_of_fmap_def sorted_list_of_fset.rep_eq)

theorem query_complete_witness:
  "\<exists>st'' p. bbg_query sample_ext sample_lens sample_query Neurons 5 = Some (st'', Some p) \<and>
     verify_entity sample_ext sample_lens p (root_spec sample_ext sample_query) Neurons 5"
proof -
  obtain st' where r: "state_root sample_ext sample_query = Some (st', root_spec sample_ext sample_query)" by (rule sample_query_root)
  show ?thesis
    using query_complete [OF nebu_laws_sample hemera_laws_sample lens_laws_sample sample_query_provable(1) _ r, of 5] sample_query_key
    by (auto simp del: dim_entries.simps)
qed

lemma state_proof_apart: "proof_apart X st (state_proof X L st d i)"
  by (simp add: proof_apart_def state_proof_def Let_def state_cert_apart) (simp add: state_cert_def spec_leaves_length)

theorem query_sound_witness:
  "\<exists>v. (5, v) \<in> set (dim_entries sample_ext sample_query Neurons) \<and>
     qp_value_bytes (state_proof sample_ext sample_lens sample_query Neurons 11) = le_bytes 8 (v ! 0)"
proof -
  obtain st' where r: "state_root sample_ext sample_query = Some (st', root_spec sample_ext sample_query)" by (rule sample_query_root)
  have "verify_entity sample_ext sample_lens (state_proof sample_ext sample_lens sample_query Neurons 11) (root_spec sample_ext sample_query) Neurons 5"
    by (rule verify_state_proof [OF nebu_laws_sample hemera_laws_sample lens_laws_sample sample_query_provable(1)])
      (simp add: sample_query_maps sorted_list_of_fmap_def sorted_list_of_fset.rep_eq primary_col_def HEADER_FIELDS_def KEY_FIELDS_def)
  then show ?thesis
    using query_sound [OF nebu_laws_sample hemera_laws_sample sample_query_inv(2,1) r state_proof_apart, of sample_lens sample_lens Neurons 11 Neurons 5]
    by (auto simp: primary_col_def simp del: dim_entries.simps)
qed

theorem public_balance_exact_witness:
  "\<exists>st'' p. prove_public_balance sample_ext sample_lens sample_query 1 2 = Some (st'', Some p) \<and>
     verify_public_balance sample_ext sample_lens p (root_spec sample_ext sample_query) 1 2 = Some 77"
proof -
  obtain st' where r: "state_root sample_ext sample_query = Some (st', root_spec sample_ext sample_query)" by (rule sample_query_root)
  show ?thesis
    using public_balance_exact [OF nebu_laws_sample hemera_laws_sample lens_laws_sample sample_query_provable(2) r, of 1 2, THEN conjunct1]
    by (auto simp: sample_query_maps)
qed

theorem look_providers_agree_witness:
  "\<exists>p'. proof_look sample_ext sample_lens \<lparr>pl_state = sample_query, pl_leaves = spec_leaves sample_ext sample_query, pl_openings = []\<rparr> 3 11 =
     Some (p', look sample_ext sample_query 3 11)"
proof -
  obtain st' where r: "state_root sample_ext sample_query = Some (st', root_spec sample_ext sample_query)" by (rule sample_query_root)
  show ?thesis
    using look_providers_agree [OF nebu_laws_sample hemera_laws_sample lens_laws_sample, of 0
        "\<lparr>pl_state = sample_query, pl_leaves = spec_leaves sample_ext sample_query, pl_openings = []\<rparr>" Neurons st' _ 11]
      sample_query_provable(1) r by auto
qed

end
