(* ===== verification/Bbg_Storage.thy ===== *)
theory Bbg_Storage
  imports Bbg_Root "HOL-Library.Product_Lexorder"
begin

text \<open>
  Bounded storage access and the pending-write buffer (\<open>storage/access.rs\<close>, \<open>storage/buffer.rs\<close>, the value encodings
  of \<open>storage/mod.rs\<close>) and the in-memory store over it (\<open>storage/mem.rs\<close>). An operation that can panic (an index out of range,
  a subtraction below zero) returns an option; an operation that changes the store returns it with the result.
\<close>

section \<open>Access\<close>

definition MAX_VALUE_ELEMENTS :: nat where "MAX_VALUE_ELEMENTS = 131072"
definition MAX_PENDING_ELEMENTS :: nat where "MAX_PENDING_ELEMENTS = 2097152"
definition MAX_PENDING_KEYS :: nat where "MAX_PENDING_KEYS = 65536"
definition MAX_SCAN_ENTRIES :: nat where "MAX_SCAN_ENTRIES = 4096"

text \<open>\<open>dim::EPHEMERAL\<close>, the local-only dimension and the largest number.\<close>

definition EPHEMERAL :: u8 where "EPHEMERAL = 13"

datatype storage_error = InvalidDimension u8 | Limit string | Corrupt string | Io string | Busy | PendingWrites
  | Unsupported string | CommitUnknown particle string

text \<open>The \<open>Display\<close> of a storage error (\<open>storage/access.rs\<close>), which a commit quotes.\<close>

fun decimal :: "nat \<Rightarrow> string" where
  "decimal n = (if n < 10 then [char_of (48 + n)] else decimal (n div 10) @ [char_of (48 + n mod 10)])"

declare decimal.simps [simp del]

fun error_display :: "storage_error \<Rightarrow> string" where
  "error_display (InvalidDimension d) = ''invalid storage dimension '' @ decimal (unat d)"
| "error_display (Limit s) = ''storage limit: '' @ s"
| "error_display (Corrupt s) = ''corrupt storage: '' @ s"
| "error_display (Io s) = ''storage I/O: '' @ s"
| "error_display Busy = ''storage already has an exclusive writer''"
| "error_display PendingWrites = ''commit pending writes before scanning disk''"
| "error_display (Unsupported s) = ''unsupported storage operation: '' @ s"
| "error_display (CommitUnknown _ message) = ''unknown commit outcome; reopen and resolve: '' @ message"

type_synonym 'a storage_result = "storage_error + 'a"
type_synonym field_values = "goldilocks list"
type_synonym shard_entry = "particle \<times> field_values"

datatype durability = Memory | Disk

record scan_limits =
  sl_max_entries :: nat
  sl_max_elements :: nat

definition check_dimension :: "u8 \<Rightarrow> unit storage_result" where
  "check_dimension dimension = (if EPHEMERAL < dimension then Inl (InvalidDimension dimension) else Inr ())"

definition check_read_limit :: "nat \<Rightarrow> unit storage_result" where
  "check_read_limit max_elements = (if MAX_VALUE_ELEMENTS < max_elements then Inl (Limit ''read element count'') else Inr ())"

definition scan_validate :: "scan_limits \<Rightarrow> unit storage_result" where
  "scan_validate l = (if sl_max_entries l = 0 \<or> MAX_SCAN_ENTRIES < sl_max_entries l then Inl (Limit ''scan entry count'')
     else check_read_limit (sl_max_elements l))"

definition copy_value :: "field_values \<Rightarrow> nat \<Rightarrow> field_values storage_result" where
  "copy_value value max_elements = and_then (check_read_limit max_elements) (\<lambda>_.
     if max_elements < length value then Inl (Limit ''value exceeds read budget'') else Inr value)"

fun page_loop :: "nat \<Rightarrow> nat \<Rightarrow> shard_entry storage_result list \<Rightarrow> shard_entry list storage_result" where
  "page_loop max_elements elements [] = Inr []"
| "page_loop max_elements elements (entry # es) = and_then entry (\<lambda>(key, value).
     if max_elements < length value then Inl (Limit ''scan value exceeds page budget'')
     else if max_elements - elements < length value then Inr []
     else and_then (page_loop max_elements (elements + length value) es) (\<lambda>page. Inr ((key, value) # page)))"

definition collect_page :: "shard_entry storage_result list \<Rightarrow> scan_limits \<Rightarrow> shard_entry list storage_result" where
  "collect_page entries limits = and_then (scan_validate limits) (\<lambda>_.
     page_loop (sl_max_elements limits) 0 (take (sl_max_entries limits) entries))"

section \<open>Value encodings\<close>

definition serialize_goldilocks :: "field_values \<Rightarrow> bytes" where
  "serialize_goldilocks vals = concat (map (le_bytes 8) vals)"

fun chunks8 :: "bytes \<Rightarrow> bytes list" where
  "chunks8 bs = (if length bs < 8 then [] else take 8 bs # chunks8 (drop 8 bs))"

declare chunks8.simps [simp del]

fun decode_fields :: "ext \<Rightarrow> bytes list \<Rightarrow> field_values storage_result" where
  "decode_fields X [] = Inr []"
| "decode_fields X (c # cs) =
     (let value = of_le_bytes c :: u64 in
      if gl_P X \<le> value then Inl (Corrupt ''noncanonical field element'')
      else and_then (decode_fields X cs) (\<lambda>vs. Inr (gl_new X value # vs)))"

definition deserialize_goldilocks :: "ext \<Rightarrow> bytes \<Rightarrow> nat \<Rightarrow> field_values storage_result" where
  "deserialize_goldilocks X bs max_elements = and_then (check_read_limit max_elements) (\<lambda>_.
     if length bs mod 8 \<noteq> 0 then Inl (Corrupt ''field encoding length'')
     else if max_elements < length bs div 8 then Inl (Limit ''value exceeds read budget'')
     else decode_fields X (chunks8 bs))"

definition decode_marker :: "bytes \<Rightarrow> particle storage_result" where
  "decode_marker bs = (if length bs = 32 then Inr (of_be_bytes bs) else Inl (Corrupt ''commit marker length''))"

section \<open>The write buffer\<close>

type_synonym entry_key = "u8 \<times> particle"

record write_buffer =
  wb_cache :: "(entry_key, field_values) fmap"
  wb_dirty :: "(u8 \<times> particle \<times> field_values) list"
  wb_deleted :: "entry_key fset"
  wb_unknown :: "storage_error option"
  wb_positions :: "(entry_key, nat) fmap"
  wb_elements :: nat

definition wb_new :: write_buffer where
  "wb_new = \<lparr>wb_cache = fmempty, wb_dirty = [], wb_deleted = {||}, wb_unknown = None, wb_positions = fmempty, wb_elements = 0\<rparr>"

definition wb_ready :: "write_buffer \<Rightarrow> unit storage_result" where
  "wb_ready b = (case wb_unknown b of Some e \<Rightarrow> Inl e | None \<Rightarrow> Inr ())"

definition wb_clean :: "write_buffer \<Rightarrow> unit storage_result" where
  "wb_clean b = and_then (wb_ready b) (\<lambda>_. if wb_dirty b \<noteq> [] \<or> wb_deleted b \<noteq> {||} then Inl PendingWrites else Inr ())"

definition check_key_capacity :: "write_buffer \<Rightarrow> u8 \<Rightarrow> particle \<Rightarrow> unit storage_result" where
  "check_key_capacity b dimension key =
     (let ex = (dimension, key) |\<in>| wb_deleted b \<or> fmlookup (wb_positions b) (dimension, key) \<noteq> None
      in if \<not> ex \<and> MAX_PENDING_KEYS \<le> length (wb_dirty b) + fcard (wb_deleted b) then Inl (Limit ''pending key count'') else Inr ())"

text \<open>The length of the pending value a put replaces: \<open>position.map_or(0, |i| self.dirty[i].2.len())\<close>.\<close>

definition replaced_len :: "write_buffer \<Rightarrow> nat option \<Rightarrow> nat option" where
  "replaced_len b position = (case position of None \<Rightarrow> Some 0
     | Some i \<Rightarrow> if i < length (wb_dirty b) then Some (length (snd (snd (wb_dirty b ! i)))) else None)"

definition wb_put :: "write_buffer \<Rightarrow> u8 \<Rightarrow> particle \<Rightarrow> field_values \<Rightarrow> (write_buffer \<times> unit storage_result) option" where
  "wb_put b dimension key value =
     (case and_then (wb_ready b) (\<lambda>_. and_then (check_dimension dimension) (\<lambda>_.
        if MAX_VALUE_ELEMENTS < length value then Inl (Limit ''value element count'') else Inr ())) of
       Inl e \<Rightarrow> Some (b, Inl e)
     | Inr _ \<Rightarrow>
        if dimension = EPHEMERAL then Some (b\<lparr>wb_cache := fmupd (dimension, key) value (wb_cache b)\<rparr>, Inr ())
        else do {
          let position = fmlookup (wb_positions b) (dimension, key);
          old \<leftarrow> replaced_len b position;
          if wb_elements b < old then None
          else let elements = wb_elements b - old + length value in
          if MAX_PENDING_ELEMENTS < elements then Some (b, Inl (Limit ''pending element count''))
          else case check_key_capacity b dimension key of
            Inl e \<Rightarrow> Some (b, Inl e)
          | Inr _ \<Rightarrow>
              let b = b\<lparr>wb_deleted := wb_deleted b |-| {|(dimension, key)|}\<rparr>;
                  b = (case position of
                    Some i \<Rightarrow> b\<lparr>wb_dirty := (wb_dirty b)[i := (fst (wb_dirty b ! i), fst (snd (wb_dirty b ! i)), value)]\<rparr>
                  | None \<Rightarrow> b\<lparr>wb_positions := fmupd (dimension, key) (length (wb_dirty b)) (wb_positions b),
                      wb_dirty := wb_dirty b @ [(dimension, key, value)]\<rparr>)
              in Some (b\<lparr>wb_elements := elements, wb_cache := fmupd (dimension, key) value (wb_cache b)\<rparr>, Inr ()) })"

text \<open>\<open>Vec::swap_remove\<close>.\<close>

definition swap_remove :: "'a list \<Rightarrow> nat \<Rightarrow> ('a \<times> 'a list) option" where
  "swap_remove xs i = (if i < length xs then Some (xs ! i, butlast (xs[i := last xs])) else None)"

definition wb_delete :: "write_buffer \<Rightarrow> u8 \<Rightarrow> particle \<Rightarrow> (write_buffer \<times> unit storage_result) option" where
  "wb_delete b dimension key =
     (case and_then (wb_ready b) (\<lambda>_. check_dimension dimension) of
       Inl e \<Rightarrow> Some (b, Inl e)
     | Inr _ \<Rightarrow>
        if dimension = EPHEMERAL then Some (b\<lparr>wb_cache := fmdrop (dimension, key) (wb_cache b)\<rparr>, Inr ())
        else case check_key_capacity b dimension key of
          Inl e \<Rightarrow> Some (b, Inl e)
        | Inr _ \<Rightarrow> do {
            b \<leftarrow> (case fmlookup (wb_positions b) (dimension, key) of
              None \<Rightarrow> Some b
            | Some i \<Rightarrow> do {
                let b = b\<lparr>wb_positions := fmdrop (dimension, key) (wb_positions b)\<rparr>;
                ((_, _, value), dirty) \<leftarrow> swap_remove (wb_dirty b) i;
                if wb_elements b < length value then None
                else let b = b\<lparr>wb_dirty := dirty, wb_elements := wb_elements b - length value\<rparr> in
                  Some (if i < length dirty
                    then b\<lparr>wb_positions := fmupd (fst (dirty ! i), fst (snd (dirty ! i))) i (wb_positions b)\<rparr> else b) });
            let b = b\<lparr>wb_deleted := finsert (dimension, key) (wb_deleted b)\<rparr>;
            Some (b\<lparr>wb_cache := fmdrop (dimension, key) (wb_cache b)\<rparr>, Inr ()) })"

definition wb_clear_pending :: "write_buffer \<Rightarrow> write_buffer" where
  "wb_clear_pending b = b\<lparr>wb_dirty := [], wb_deleted := {||}, wb_positions := fmempty, wb_elements := 0\<rparr>"

definition wb_finish :: "write_buffer \<Rightarrow> write_buffer" where
  "wb_finish b = (let b = wb_clear_pending b in b\<lparr>wb_cache := fmfilter (\<lambda>(d, _). d = EPHEMERAL) (wb_cache b)\<rparr>)"

definition net_changes :: "write_buffer \<Rightarrow> (entry_key, field_values option) fmap" where
  "net_changes b =
     fold (\<lambda>key m. fmupd key None m) (sorted_list_of_fset (wb_deleted b))
       (fold (\<lambda>(d, k, v) m. fmupd (d, k) (Some v) m) (wb_dirty b) fmempty)"

definition shard_batch_tag :: bytes where
  "shard_batch_tag = map of_char ''bbg/shard-batch/v1'' @ [0]"

definition change_bytes :: "entry_key \<times> field_values option \<Rightarrow> bytes" where
  "change_bytes c = (case c of ((dimension, key), value) \<Rightarrow>
     dimension # be_bytes 32 key @ [of_bool (value \<noteq> None)] @
     (case value of None \<Rightarrow> [] | Some v \<Rightarrow> le_bytes 8 (of_nat (length v) :: u64) @ serialize_goldilocks v))"

definition change_preimage :: "(entry_key, field_values option) fmap \<Rightarrow> bytes" where
  "change_preimage changes = shard_batch_tag @ le_bytes 8 (of_nat (fcard (fmdom changes)) :: u64) @
     concat (map change_bytes (sorted_list_of_fmap changes))"

definition wb_change_id :: "ext \<Rightarrow> write_buffer \<Rightarrow> particle" where
  "wb_change_id X b = hm_hash X (change_preimage (net_changes b))"

section \<open>The in-memory store\<close>

text \<open>\<open>MemStore\<close> has one field, the buffer.\<close>

type_synonym mem_store = write_buffer

definition mem_get :: "mem_store \<Rightarrow> u8 \<Rightarrow> particle \<Rightarrow> field_values option" where
  "mem_get s dimension key = fmlookup (wb_cache s) (dimension, key)"

definition mem_put :: "mem_store \<Rightarrow> u8 \<Rightarrow> particle \<Rightarrow> field_values \<Rightarrow> (mem_store \<times> unit storage_result) option" where
  "mem_put s dimension key value = wb_put s dimension key value"

definition mem_has_pending :: "mem_store \<Rightarrow> bool" where
  "mem_has_pending s \<longleftrightarrow> wb_dirty s \<noteq> [] \<or> wb_deleted s \<noteq> {||}"

definition mem_commit :: "ext \<Rightarrow> mem_store \<Rightarrow> (mem_store \<times> particle storage_result) option" where
  "mem_commit X s = (let c = wb_change_id X s in Some (wb_clear_pending s, Inr c))"

text \<open>The default \<open>read\<close> of the trait, over what \<open>get\<close> returns.\<close>

definition shard_read_default :: "field_values option \<Rightarrow> u8 \<Rightarrow> nat \<Rightarrow> field_values option storage_result" where
  "shard_read_default found dimension max_elements =
     and_then (check_dimension dimension) (\<lambda>_. and_then (check_read_limit max_elements) (\<lambda>_.
       case found of None \<Rightarrow> Inr None | Some v \<Rightarrow> and_then (copy_value v max_elements) (\<lambda>v. Inr (Some v))))"

text \<open>\<open>get_mut\<close> hands out the slice; the write \<open>f\<close> through it cannot change its length.\<close>

definition mem_get_mut :: "mem_store \<Rightarrow> u8 \<Rightarrow> particle \<Rightarrow> (field_values \<Rightarrow> field_values) \<Rightarrow> mem_store option" where
  "mem_get_mut s dimension key f = map_option (\<lambda>v. s\<lparr>wb_cache := fmupd (dimension, key) (f v) (wb_cache s)\<rparr>)
     (fmlookup (wb_cache s) (dimension, key))"

definition mem_mark_dirty :: "mem_store \<Rightarrow> u8 \<Rightarrow> particle \<Rightarrow> (mem_store \<times> unit storage_result) option" where
  "mem_mark_dirty s dimension key =
     (case check_dimension dimension of
        Inl e \<Rightarrow> Some (s, Inl e)
      | Inr _ \<Rightarrow>
         if dimension = EPHEMERAL then Some (s, Inr ())
         else case fmlookup (wb_cache s) (dimension, key) of
           None \<Rightarrow> Some (s, Inr ())
         | Some value \<Rightarrow> wb_put s dimension key value)"

definition mem_remove :: "mem_store \<Rightarrow> u8 \<Rightarrow> particle \<Rightarrow> (mem_store \<times> field_values option storage_result) option" where
  "mem_remove s dimension key = do {
     let value = fmlookup (wb_cache s) (dimension, key);
     (s, r) \<leftarrow> wb_delete s dimension key;
     Some (s, and_then r (\<lambda>_. Inr value)) }"

text \<open>The entries of one dimension after a key, in order: the range \<open>scan_cache\<close> and \<open>iter\<close> walk.\<close>

definition cache_range :: "(entry_key, field_values) fmap \<Rightarrow> u8 \<Rightarrow> particle option \<Rightarrow> (entry_key \<times> field_values) list" where
  "cache_range cache dimension after = filter (\<lambda>((d, k), _). d = dimension \<and> (case after of None \<Rightarrow> True | Some a \<Rightarrow> a < k))
     (sorted_list_of_fmap cache)"

definition scan_cache :: "(entry_key, field_values) fmap \<Rightarrow> u8 \<Rightarrow> particle option \<Rightarrow> scan_limits \<Rightarrow> shard_entry list storage_result" where
  "scan_cache cache dimension after limits =
     and_then (check_dimension dimension) (\<lambda>_. and_then (scan_validate limits) (\<lambda>_.
       collect_page (map (\<lambda>((_, k), v). and_then (copy_value v (sl_max_elements limits)) (\<lambda>v. Inr (k, v)))
         (cache_range cache dimension after)) limits))"

definition mem_scan :: "mem_store \<Rightarrow> u8 \<Rightarrow> particle option \<Rightarrow> scan_limits \<Rightarrow> shard_entry list storage_result" where
  "mem_scan s dimension after limits = scan_cache (wb_cache s) dimension after limits"

definition mem_iter :: "mem_store \<Rightarrow> u8 \<Rightarrow> shard_entry list" where
  "mem_iter s dimension = map (\<lambda>((_, k), v). (k, v)) (cache_range (wb_cache s) dimension None)"

section \<open>The invariant of the buffer\<close>

definition dirty_key :: "u8 \<times> particle \<times> field_values \<Rightarrow> entry_key" where
  "dirty_key e = (fst e, fst (snd e))"

definition dirty_len :: "u8 \<times> particle \<times> field_values \<Rightarrow> nat" where
  "dirty_len e = length (snd (snd e))"

lemma dirty_simps [simp]: "dirty_key (d, k, v) = (d, k)" "dirty_len (d, k, v) = length v"
  by (simp_all add: dirty_key_def dirty_len_def)

text \<open>The positions index the pending values, the element count is their total, no key is pending and
  deleted at once, nothing local-only is pending, and the limits hold.\<close>

definition positions_ok :: "(entry_key, nat) fmap \<Rightarrow> (u8 \<times> particle \<times> field_values) list \<Rightarrow> bool" where
  "positions_ok ps ds \<longleftrightarrow> (\<forall>key i. fmlookup ps key = Some i \<longleftrightarrow> i < length ds \<and> dirty_key (ds ! i) = key)"

definition buffer_ok :: "write_buffer \<Rightarrow> bool" where
  "buffer_ok b \<longleftrightarrow> positions_ok (wb_positions b) (wb_dirty b) \<and> wb_elements b = sum_list (map dirty_len (wb_dirty b)) \<and>
     (\<forall>e \<in> set (wb_dirty b). dirty_key e |\<notin>| wb_deleted b \<and> fst (dirty_key e) < EPHEMERAL \<and> dirty_len e \<le> MAX_VALUE_ELEMENTS) \<and>
     (\<forall>key. key |\<in>| wb_deleted b \<longrightarrow> fst key < EPHEMERAL) \<and> wb_elements b \<le> MAX_PENDING_ELEMENTS \<and>
     length (wb_dirty b) + fcard (wb_deleted b) \<le> MAX_PENDING_KEYS"

lemma positions_okD: "positions_ok ps ds \<Longrightarrow> fmlookup ps key = Some i \<longleftrightarrow> i < length ds \<and> dirty_key (ds ! i) = key"
  unfolding positions_ok_def by blast

lemma positions_ok_None: "positions_ok ps ds \<Longrightarrow> fmlookup ps key = None \<longleftrightarrow> (\<forall>e \<in> set ds. dirty_key e \<noteq> key)"
proof -
  assume ok: "positions_ok ps ds"
  show "fmlookup ps key = None \<longleftrightarrow> (\<forall>e \<in> set ds. dirty_key e \<noteq> key)"
  proof (cases "fmlookup ps key")
    case None
    then have "\<forall>i < length ds. dirty_key (ds ! i) \<noteq> key" using positions_okD [OF ok, of key] by simp
    then show ?thesis using None by (metis in_set_conv_nth)
  next
    case (Some i)
    then show ?thesis using positions_okD [OF ok, of key i] nth_mem by fastforce
  qed
qed

lemma positions_ok_inj: "positions_ok ps ds \<Longrightarrow> i < length ds \<Longrightarrow> j < length ds \<Longrightarrow> dirty_key (ds ! i) = dirty_key (ds ! j) \<Longrightarrow> i = j"
  using positions_okD [of ps ds "dirty_key (ds ! j)" i] positions_okD [of ps ds "dirty_key (ds ! j)" j] by simp

lemma positions_ok_append:
  assumes ok: "positions_ok ps ds" and new: "fmlookup ps (dirty_key e) = None"
  shows "positions_ok (fmupd (dirty_key e) (length ds) ps) (ds @ [e])"
proof -
  have "\<forall>i < length ds. dirty_key (ds ! i) \<noteq> dirty_key e" using new by (simp add: positions_ok_None [OF ok])
  then have "fmlookup (fmupd (dirty_key e) (length ds) ps) key = Some i \<longleftrightarrow> i < length (ds @ [e]) \<and> dirty_key ((ds @ [e]) ! i) = key" for key i
    using positions_okD [OF ok, of key i] by (auto simp: nth_append less_Suc_eq)
  then show ?thesis unfolding positions_ok_def by blast
qed

lemma positions_ok_update:
  assumes ok: "positions_ok ps ds" and e: "dirty_key e = dirty_key (ds ! i)"
  shows "positions_ok ps (ds[i := e])"
proof -
  have "fmlookup ps key = Some j \<longleftrightarrow> j < length (ds[i := e]) \<and> dirty_key (ds[i := e] ! j) = key" for key j
    using positions_okD [OF ok, of key j] e by (cases "i = j") (auto simp: nth_list_update)
  then show ?thesis unfolding positions_ok_def by blast
qed

lemma swap_remove_Some:
  assumes "i < length xs"
  obtains ys where "swap_remove xs i = Some (xs ! i, ys)" "length xs = Suc (length ys)"
    "\<forall>j < length ys. ys ! j = (if j = i then xs ! length ys else xs ! j)"
    "sum_list (map f ys) + (f (xs ! i) :: nat) = sum_list (map f xs)"
proof -
  let ?ys = "butlast (xs[i := last xs])"
  have ne: "xs \<noteq> []" using assms by auto
  have "last (xs[i := last xs]) = last xs" using assms ne by (auto simp: last_conv_nth nth_list_update)
  then have split: "xs[i := last xs] = ?ys @ [last xs]" using ne append_butlast_last_id [of "xs[i := last xs]"] by simp
  have "sum_list (map f (xs[i := last xs])) = sum_list (map f ?ys) + f (last xs)"
    unfolding arg_cong [OF split, of "\<lambda>l. sum_list (map f l)"] by simp
  moreover have "sum_list (map f (xs[i := last xs])) + f (xs ! i) = sum_list (map f xs) + f (last xs)"
    using assms sum_list_update [of i "map f xs" "f (last xs)"] elem_le_sum_list [of i "map f xs"] by (simp add: map_update)
  ultimately have sum: "sum_list (map f ?ys) + f (xs ! i) = sum_list (map f xs)" by simp
  have len: "length xs = Suc (length ?ys)" using assms by simp
  have "?ys ! j = (if j = i then xs ! length ?ys else xs ! j)" if "j < length ?ys" for j
    using that assms by (simp add: nth_butlast nth_list_update last_conv_nth [OF ne])
  then have at: "\<forall>j < length ?ys. ?ys ! j = (if j = i then xs ! length ?ys else xs ! j)" by blast
  have sw: "swap_remove xs i = Some (xs ! i, ?ys)" using assms by (simp add: swap_remove_def)
  show thesis by (rule that [OF sw len at sum])
qed

lemma positions_ok_swap_remove:
  assumes ok: "positions_ok ps ds" and i: "i < length ds" and len: "length ds = Suc (length es)"
    and es: "\<forall>j < length es. es ! j = (if j = i then ds ! length es else ds ! j)"
  shows "positions_ok (if i < length es then fmupd (dirty_key (es ! i)) i (fmdrop (dirty_key (ds ! i)) ps) else fmdrop (dirty_key (ds ! i)) ps) es"
    "\<forall>e. e \<in> set es \<longleftrightarrow> e \<in> set ds \<and> dirty_key e \<noteq> dirty_key (ds ! i)"
proof -
  let ?n = "length es"
  note inj = positions_ok_inj [OF ok]
  have look: "fmlookup ps key = Some j \<longleftrightarrow> j < length ds \<and> dirty_key (ds ! j) = key" for key j
    by (rule positions_okD [OF ok])
  have cases: "es ! j \<in> set ds \<and> dirty_key (es ! j) \<noteq> dirty_key (ds ! i)" if "j < ?n" for j
    using es that len i inj [of ?n i] inj [of j i] by (cases "j = i") auto
  moreover have "ds ! j \<in> set es" if "j < length ds" "dirty_key (ds ! j) \<noteq> dirty_key (ds ! i)" for j
  proof (cases "j = ?n")
    case True
    then have "i < ?n" using that i len by (cases "i = ?n") auto
    then show ?thesis using True es nth_mem [of i es] by simp
  next
    case False
    then have "j < ?n" "j \<noteq> i" using that len by auto
    then show ?thesis using es nth_mem [of j es] by simp
  qed
  ultimately show "\<forall>e. e \<in> set es \<longleftrightarrow> e \<in> set ds \<and> dirty_key e \<noteq> dirty_key (ds ! i)" by (metis in_set_conv_nth)
  show "positions_ok (if i < length es then fmupd (dirty_key (es ! i)) i (fmdrop (dirty_key (ds ! i)) ps) else fmdrop (dirty_key (ds ! i)) ps) es"
  proof (cases "i < ?n")
    case True
    then have n: "es ! i = ds ! ?n" using es by simp
    have "fmlookup (fmupd (dirty_key (es ! i)) i (fmdrop (dirty_key (ds ! i)) ps)) key = Some j \<longleftrightarrow> j < length es \<and> dirty_key (es ! j) = key" for key j
    proof (cases "j = i")
      case j: True
      then show ?thesis using True n look [of key i] by auto
    next
      case j: False
      have "\<not> (j < ?n \<and> dirty_key (ds ! j) = dirty_key (ds ! ?n))" using inj [of j ?n] len by auto
      moreover have "j < length ds \<and> dirty_key (ds ! j) \<noteq> dirty_key (ds ! ?n) \<longrightarrow> j < ?n" using len less_Suc_eq by auto
      ultimately show ?thesis
        using True n j es look [of key j] len cases [of j] by (auto simp: less_Suc_eq split: if_splits)
    qed
    then show ?thesis using True unfolding positions_ok_def by presburger
  next
    case False
    then have n: "i = ?n" using len i by auto
    have "fmlookup (fmdrop (dirty_key (ds ! i)) ps) key = Some j \<longleftrightarrow> j < length es \<and> dirty_key (es ! j) = key" for key j
      using n es look [of key j] len cases [of j] by (auto simp: less_Suc_eq split: if_splits)
    then show ?thesis using False unfolding positions_ok_def by presburger
  qed
qed

text \<open>The pending value of a key.\<close>

definition pending :: "write_buffer \<Rightarrow> entry_key \<Rightarrow> field_values option" where
  "pending b key = map_of (map (\<lambda>e. (dirty_key e, snd (snd e))) (wb_dirty b)) key"

lemma positions_ok_distinct: "positions_ok ps ds \<Longrightarrow> distinct (map dirty_key ds)"
  using positions_ok_inj by (auto simp: distinct_conv_nth)

lemma pending_iff:
  assumes "buffer_ok b"
  shows "pending b (d, k) = Some v \<longleftrightarrow> (d, k, v) \<in> set (wb_dirty b)"
proof -
  have "distinct (map fst (map (\<lambda>e. (dirty_key e, snd (snd e))) (wb_dirty b)))"
    using assms positions_ok_distinct by (auto simp: buffer_ok_def comp_def)
  from map_of_eq_Some_iff [OF this] show ?thesis by (force simp: pending_def dirty_key_def)
qed

lemma pending_None: "pending b key = None \<longleftrightarrow> (\<forall>e \<in> set (wb_dirty b). dirty_key e \<noteq> key)"
  by (force simp: pending_def map_of_eq_None_iff)

lemma fold_deleted: "fmlookup (fold (\<lambda>key m. fmupd key None m) ks m) key = (if key \<in> set ks then Some None else fmlookup m key)"
  by (induction ks arbitrary: m) auto

lemma fold_dirty:
  "distinct (map dirty_key ds) \<Longrightarrow> fmlookup (fold (\<lambda>(d, k, v) m. fmupd (d, k) (Some v) m) ds m) key =
     (case map_of (map (\<lambda>e. (dirty_key e, snd (snd e))) ds) key of None \<Rightarrow> fmlookup m key | Some v \<Rightarrow> Some (Some v))"
proof (induction ds arbitrary: m)
  case (Cons e ds)
  obtain d k v where e: "e = (d, k, v)" by (cases e) auto
  have "map_of (map (\<lambda>e. (dirty_key e, snd (snd e))) ds) (d, k) = None"
    using Cons.prems by (force simp: e map_of_eq_None_iff)
  then show ?case using Cons by (auto simp: e split: option.split)
qed simp

lemma net_lookup:
  assumes "buffer_ok b"
  shows "fmlookup (net_changes b) key = (if key |\<in>| wb_deleted b then Some None else map_option Some (pending b key))"
proof -
  have "distinct (map dirty_key (wb_dirty b))" using assms positions_ok_distinct by (auto simp: buffer_ok_def)
  from fold_dirty [OF this] show ?thesis
    by (simp add: net_changes_def fold_deleted sorted_list_of_fset.rep_eq pending_def split: option.split)
qed

text \<open>What a put and a delete do when they succeed, and that a refused one changes nothing.\<close>

definition wb_stored :: "write_buffer \<Rightarrow> write_buffer \<Rightarrow> u8 \<Rightarrow> particle \<Rightarrow> field_values option \<Rightarrow> bool" where
  "wb_stored b b' d k v \<longleftrightarrow> buffer_ok b' \<and> wb_unknown b' = None \<and> d \<le> EPHEMERAL \<and>
     (\<forall>key. fmlookup (wb_cache b') key = (if key = (d, k) then v else fmlookup (wb_cache b) key)) \<and>
     (\<forall>key. fmlookup (net_changes b') key = (if key = (d, k) \<and> d \<noteq> EPHEMERAL then Some v else fmlookup (net_changes b) key))"

lemma replaced_len_ok:
  assumes "buffer_ok b"
  shows "\<exists>old. replaced_len b (fmlookup (wb_positions b) key) = Some old \<and> old \<le> wb_elements b"
proof (cases "fmlookup (wb_positions b) key")
  case None
  then show ?thesis by (simp add: replaced_len_def)
next
  case (Some i)
  then have "i < length (wb_dirty b)" using assms positions_okD [of "wb_positions b" "wb_dirty b" key i] by (simp add: buffer_ok_def)
  then show ?thesis
    using Some assms elem_le_sum_list [of i "map dirty_len (wb_dirty b)"] by (auto simp: replaced_len_def buffer_ok_def dirty_len_def)
qed

lemma capacity_room:
  assumes "check_key_capacity b d k = Inr ()" and "fmlookup (wb_positions b) (d, k) = None"
    and "length (wb_dirty b) + fcard (wb_deleted b) \<le> MAX_PENDING_KEYS"
  shows "Suc (length (wb_dirty b)) + fcard (wb_deleted b |-| {|(d, k)|}) \<le> MAX_PENDING_KEYS"
    "length (wb_dirty b) + fcard (finsert (d, k) (wb_deleted b)) \<le> MAX_PENDING_KEYS"
proof -
  let ?A = "wb_deleted b"
  have "fcard (?A |-| {|(d, k)|}) \<le> fcard ?A" "(d, k) |\<in>| ?A \<Longrightarrow> Suc (fcard (?A |-| {|(d, k)|})) = fcard ?A"
    using card_Suc_Diff1 [of "fset ?A" "(d, k)"] by (simp_all add: fcard.rep_eq card_Diff1_le)
  then show "Suc (length (wb_dirty b)) + fcard (?A |-| {|(d, k)|}) \<le> MAX_PENDING_KEYS"
    "length (wb_dirty b) + fcard (finsert (d, k) ?A) \<le> MAX_PENDING_KEYS"
    using assms by (auto simp: check_key_capacity_def Let_def fcard_finsert_if split: if_splits)
qed

text \<open>A buffer with an entry replaced or added, and one with an entry dropped.\<close>

lemma pending_eqI:
  assumes ok: "buffer_ok b'" and eq: "\<And>w. (d, k, w) \<in> set (wb_dirty b') \<longleftrightarrow> m = Some w"
  shows "pending b' (d, k) = m"
  using pending_iff [OF ok, of d k] eq by (cases m; cases "pending b' (d, k)") auto

lemma buffer_ok_upsert:
  assumes ok: "buffer_ok b" and d: "d < EPHEMERAL" and v: "length v \<le> MAX_VALUE_ELEMENTS"
    and el: "wb_elements b' = sum_list (map dirty_len (wb_dirty b'))" "wb_elements b' \<le> MAX_PENDING_ELEMENTS"
    and ix: "positions_ok (wb_positions b') (wb_dirty b')" and del: "wb_deleted b' = wb_deleted b |-| {|(d, k)|}"
    and cap: "length (wb_dirty b') + fcard (wb_deleted b') \<le> MAX_PENDING_KEYS"
    and mem: "\<forall>e. e \<in> set (wb_dirty b') \<longleftrightarrow> e = (d, k, v) \<or> e \<in> set (wb_dirty b) \<and> dirty_key e \<noteq> (d, k)"
    and rest: "wb_cache b' = fmupd (d, k) v (wb_cache b)" "wb_unknown b' = None"
  shows "wb_stored b b' d k (Some v)"
proof -
  have ok': "buffer_ok b'" using ok d v el ix cap mem unfolding buffer_ok_def del by auto
  have "pending b' (e, j) = (if (e, j) = (d, k) then Some v else pending b (e, j))" for e j
    by (rule pending_eqI [OF ok']) (use mem pending_iff [OF ok, of e j] in auto)
  then have "fmlookup (net_changes b') key = (if key = (d, k) \<and> d \<noteq> EPHEMERAL then Some (Some v) else fmlookup (net_changes b) key)" for key
    using d by (cases key) (auto simp: net_lookup [OF ok'] net_lookup [OF ok] del)
  then show ?thesis using ok' d rest by (simp add: wb_stored_def)
qed

lemma buffer_ok_drop:
  assumes ok: "buffer_ok b" and d: "d < EPHEMERAL" and el: "wb_elements b' = sum_list (map dirty_len (wb_dirty b'))"
    and ix: "positions_ok (wb_positions b') (wb_dirty b')" and del: "wb_deleted b' = finsert (d, k) (wb_deleted b)"
    and cap: "length (wb_dirty b') + fcard (wb_deleted b') \<le> MAX_PENDING_KEYS"
    and mem: "\<forall>e. e \<in> set (wb_dirty b') \<longleftrightarrow> e \<in> set (wb_dirty b) \<and> dirty_key e \<noteq> (d, k)" and le: "wb_elements b' \<le> wb_elements b"
    and rest: "wb_cache b' = fmdrop (d, k) (wb_cache b)" "wb_unknown b' = None"
  shows "wb_stored b b' d k None"
proof -
  have ok': "buffer_ok b'" using ok d el ix cap mem le unfolding buffer_ok_def del by auto
  have "pending b' (e, j) = (if (e, j) = (d, k) then None else pending b (e, j))" for e j
    by (rule pending_eqI [OF ok']) (use mem pending_iff [OF ok, of e j] in auto)
  then have "fmlookup (net_changes b') key = (if key = (d, k) \<and> d \<noteq> EPHEMERAL then Some None else fmlookup (net_changes b) key)" for key
    using d by (cases key) (auto simp: net_lookup [OF ok'] net_lookup [OF ok] del)
  then show ?thesis using ok' d rest by (simp add: wb_stored_def)
qed

lemma set_update_position:
  assumes ix: "positions_ok ps ds" and i: "i < length ds" "dirty_key (ds ! i) = (d, k)"
  shows "e \<in> set (ds[i := (d, k, v)]) \<longleftrightarrow> e = (d, k, v) \<or> e \<in> set ds \<and> dirty_key e \<noteq> (d, k)"
proof -
  have "ds ! j \<in> set (ds[i := (d, k, v)])" if "j < length ds" "dirty_key (ds ! j) \<noteq> (d, k)" for j
    using that i nth_mem [of j "ds[i := (d, k, v)]"] by (cases "j = i") auto
  moreover have "e = (d, k, v) \<or> e \<in> set ds \<and> dirty_key e \<noteq> (d, k)" if "j < length ds" "e = ds[i := (d, k, v)] ! j" for j
    using that i positions_ok_inj [OF ix, of j i] by (cases "j = i") auto
  moreover have "(d, k, v) \<in> set (ds[i := (d, k, v)])" using i by (simp add: set_update_memI)
  ultimately show ?thesis by (metis in_set_conv_nth length_list_update)
qed

lemma wb_put_ok:
  assumes ok: "buffer_ok b"
  shows "\<exists>b' r. wb_put b d k v = Some (b', r) \<and> (case r of Inl e \<Rightarrow> b' = b | Inr _ \<Rightarrow> wb_stored b b' d k (Some v))"
proof (cases "and_then (wb_ready b) (\<lambda>_. and_then (check_dimension d) (\<lambda>_.
    if MAX_VALUE_ELEMENTS < length v then Inl (Limit ''value element count'') else Inr ()))")
  case (Inl e)
  then show ?thesis by (auto simp: wb_put_def)
next
  case pre: (Inr u)
  then have f: "wb_unknown b = None" "d \<le> EPHEMERAL" "length v \<le> MAX_VALUE_ELEMENTS"
    by (auto simp: result_simps wb_ready_def check_dimension_def not_less split: option.splits if_splits)
  show ?thesis
  proof (cases "d = EPHEMERAL")
    case True
    have nc: "net_changes (b\<lparr>wb_cache := c\<rparr>) = net_changes b" for c by (simp add: net_changes_def)
    have "wb_stored b (b\<lparr>wb_cache := fmupd (d, k) v (wb_cache b)\<rparr>) d k (Some v)"
      using ok f True by (simp add: wb_stored_def buffer_ok_def nc)
    then show ?thesis using True pre by (auto simp: wb_put_def)
  next
    case False
    then have d: "d < EPHEMERAL" using f(2) by simp
    obtain old where old: "replaced_len b (fmlookup (wb_positions b) (d, k)) = Some old" "old \<le> wb_elements b"
      using replaced_len_ok [OF ok] by blast
    let ?el = "wb_elements b - old + length v"
    show ?thesis
    proof (cases "MAX_PENDING_ELEMENTS < ?el \<or> check_key_capacity b d k \<noteq> Inr ()")
      case True
      then show ?thesis
        using pre False old by (cases "check_key_capacity b d k") (auto simp: wb_put_def Let_def)
    next
      case fits: False
      then have cap: "check_key_capacity b d k = Inr ()" and el: "?el \<le> MAX_PENDING_ELEMENTS" by auto
      have ix: "positions_ok (wb_positions b) (wb_dirty b)" and keys: "length (wb_dirty b) + fcard (wb_deleted b) \<le> MAX_PENDING_KEYS"
        and sum: "wb_elements b = sum_list (map dirty_len (wb_dirty b))"
        using ok by (simp_all add: buffer_ok_def)
      show ?thesis
      proof (cases "fmlookup (wb_positions b) (d, k)")
        case None
        let ?b = "b\<lparr>wb_deleted := wb_deleted b |-| {|(d, k)|}, wb_positions := fmupd (d, k) (length (wb_dirty b)) (wb_positions b),
          wb_dirty := wb_dirty b @ [(d, k, v)], wb_elements := ?el, wb_cache := fmupd (d, k) v (wb_cache b)\<rparr>"
        have "wb_stored b ?b d k (Some v)"
          using None old(1) sum el f(1) capacity_room(1) [OF cap None keys] positions_ok_append [OF ix, of "(d, k, v)"] positions_ok_None [OF ix, of "(d, k)"]
          by (intro buffer_ok_upsert [OF ok d f(3)]) (auto simp: replaced_len_def)
        moreover have "wb_put b d k v = Some (?b, Inr ())" using pre False old el cap None by (simp add: wb_put_def Let_def)
        ultimately show ?thesis by simp
      next
        case (Some i)
        then have i: "i < length (wb_dirty b)" "dirty_key (wb_dirty b ! i) = (d, k)" using positions_okD [OF ix] by blast+
        then obtain w where w: "wb_dirty b ! i = (d, k, w)" by (cases "wb_dirty b ! i") auto
        let ?ds = "(wb_dirty b)[i := (d, k, v)]"
        let ?b = "b\<lparr>wb_deleted := wb_deleted b |-| {|(d, k)|}, wb_dirty := ?ds, wb_elements := ?el, wb_cache := fmupd (d, k) v (wb_cache b)\<rparr>"
        have "sum_list (map dirty_len ?ds) = sum_list (map dirty_len (wb_dirty b)) + length v - length w"
          using i w sum_list_update [of i "map dirty_len (wb_dirty b)" "length v"] by (simp add: map_update)
        then have "?el = sum_list (map dirty_len ?ds)" using old Some i w sum by (simp add: replaced_len_def)
        moreover have "fcard (wb_deleted b |-| {|(d, k)|}) \<le> fcard (wb_deleted b)" by (simp add: fcard.rep_eq card_Diff1_le)
        ultimately have "wb_stored b ?b d k (Some v)"
          using keys el f(1) w positions_ok_update [OF ix, of "(d, k, v)" i] i set_update_position [OF ix i, where v = v]
          by (intro buffer_ok_upsert [OF ok d f(3)]) auto
        moreover have "wb_put b d k v = Some (?b, Inr ())" using pre False old el cap Some w by (simp add: wb_put_def Let_def)
        ultimately show ?thesis by simp
      qed
    qed
  qed
qed

lemma wb_delete_ok:
  assumes ok: "buffer_ok b"
  shows "\<exists>b' r. wb_delete b d k = Some (b', r) \<and> (case r of Inl e \<Rightarrow> b' = b | Inr _ \<Rightarrow> wb_stored b b' d k None)"
proof (cases "and_then (wb_ready b) (\<lambda>_. check_dimension d)")
  case (Inl e)
  then show ?thesis by (auto simp: wb_delete_def)
next
  case pre: (Inr u)
  then have f: "wb_unknown b = None" "d \<le> EPHEMERAL"
    by (auto simp: result_simps wb_ready_def check_dimension_def not_less split: option.splits if_splits)
  show ?thesis
  proof (cases "d = EPHEMERAL")
    case True
    have nc: "net_changes (b\<lparr>wb_cache := c\<rparr>) = net_changes b" for c by (simp add: net_changes_def)
    have "wb_stored b (b\<lparr>wb_cache := fmdrop (d, k) (wb_cache b)\<rparr>) d k None"
      using ok f True by (simp add: wb_stored_def buffer_ok_def nc)
    then show ?thesis using True pre by (auto simp: wb_delete_def)
  next
    case False
    then have d: "d < EPHEMERAL" using f(2) by simp
    have ix: "positions_ok (wb_positions b) (wb_dirty b)" and keys: "length (wb_dirty b) + fcard (wb_deleted b) \<le> MAX_PENDING_KEYS"
      and sum: "wb_elements b = sum_list (map dirty_len (wb_dirty b))"
      using ok by (simp_all add: buffer_ok_def)
    show ?thesis
    proof (cases "check_key_capacity b d k")
      case (Inl e)
      then show ?thesis using pre False by (auto simp: wb_delete_def)
    next
      case capu: (Inr u)
      then have cap: "check_key_capacity b d k = Inr ()" by simp
      show ?thesis
      proof (cases "fmlookup (wb_positions b) (d, k)")
        case None
        let ?b = "b\<lparr>wb_deleted := finsert (d, k) (wb_deleted b), wb_cache := fmdrop (d, k) (wb_cache b)\<rparr>"
        have "wb_stored b ?b d k None"
          using None sum f(1) ix capacity_room(2) [OF cap None keys] positions_ok_None [OF ix, of "(d, k)"]
          by (intro buffer_ok_drop [OF ok d]) auto
        moreover have "wb_delete b d k = Some (?b, Inr ())" using pre False cap None by (simp add: wb_delete_def Let_def)
        ultimately show ?thesis by simp
      next
        case (Some i)
        then have i: "i < length (wb_dirty b)" "dirty_key (wb_dirty b ! i) = (d, k)" using positions_okD [OF ix] by blast+
        then obtain w where w: "wb_dirty b ! i = (d, k, w)" by (cases "wb_dirty b ! i") auto
        obtain es where es: "swap_remove (wb_dirty b) i = Some (wb_dirty b ! i, es)" "length (wb_dirty b) = Suc (length es)"
          "\<forall>j < length es. es ! j = (if j = i then wb_dirty b ! length es else wb_dirty b ! j)"
          "sum_list (map dirty_len es) + dirty_len (wb_dirty b ! i) = sum_list (map dirty_len (wb_dirty b))"
          using swap_remove_Some [OF i(1), where f = dirty_len] by blast
        note out = positions_ok_swap_remove [OF ix i(1) es(2,3), unfolded i(2)]
        let ?ps = "if i < length es then fmupd (dirty_key (es ! i)) i (fmdrop (d, k) (wb_positions b)) else fmdrop (d, k) (wb_positions b)"
        let ?b = "b\<lparr>wb_positions := ?ps, wb_dirty := es, wb_elements := wb_elements b - length w,
          wb_deleted := finsert (d, k) (wb_deleted b), wb_cache := fmdrop (d, k) (wb_cache b)\<rparr>"
        have le: "length w \<le> wb_elements b" using es(4) sum w by simp
        have "fcard (finsert (d, k) (wb_deleted b)) \<le> Suc (fcard (wb_deleted b))" by (simp add: fcard_finsert_if)
        then have "wb_stored b ?b d k None"
          using keys f(1) es(2,4) out sum w
          by (intro buffer_ok_drop [OF ok d]) simp_all
        moreover have "wb_delete b d k = Some (?b, Inr ())"
          using pre False cap Some es(1) w le by (simp add: wb_delete_def Let_def dirty_key_def)
        ultimately show ?thesis by auto
      qed
    qed
  qed
qed

section \<open>The store as a map\<close>

text \<open>A run of the public operations. A write through \<open>get_mut\<close> sets one field of the slice it returns.\<close>

datatype shard_op = Op_put u8 particle field_values | Op_remove u8 particle | Op_write u8 particle nat goldilocks
  | Op_mark u8 particle | Op_commit

definition result_error :: "'a storage_result \<Rightarrow> storage_error option" where
  "result_error r = (case r of Inl e \<Rightarrow> Some e | Inr _ \<Rightarrow> None)"

fun mem_apply :: "ext \<Rightarrow> mem_store \<Rightarrow> shard_op \<Rightarrow> (mem_store \<times> storage_error option) option" where
  "mem_apply X s (Op_put d k v) = map_option (apsnd result_error) (mem_put s d k v)"
| "mem_apply X s (Op_remove d k) = map_option (apsnd result_error) (mem_remove s d k)"
| "mem_apply X s (Op_write d k i x) = Some (case mem_get_mut s d k (\<lambda>v. v[i := x]) of None \<Rightarrow> s | Some s' \<Rightarrow> s', None)"
| "mem_apply X s (Op_mark d k) = map_option (apsnd result_error) (mem_mark_dirty s d k)"
| "mem_apply X s Op_commit = map_option (apsnd result_error) (mem_commit X s)"

fun mem_run :: "ext \<Rightarrow> mem_store \<Rightarrow> shard_op list \<Rightarrow> (mem_store \<times> storage_error option list) option" where
  "mem_run X s [] = Some (s, [])"
| "mem_run X s (op # ops) = do {
     (s, r) \<leftarrow> mem_apply X s op;
     (s, rs) \<leftarrow> mem_run X s ops;
     Some (s, r # rs) }"

text \<open>What the operations mean on a map: a refused one changes nothing.\<close>

fun view_step :: "(entry_key \<rightharpoonup> field_values) \<Rightarrow> shard_op \<Rightarrow> (entry_key \<rightharpoonup> field_values)" where
  "view_step m (Op_put d k v) = m((d, k) \<mapsto> v)"
| "view_step m (Op_remove d k) = m((d, k) := None)"
| "view_step m (Op_write d k i x) = m((d, k) := map_option (\<lambda>v. v[i := x]) (m (d, k)))"
| "view_step m (Op_mark d k) = m"
| "view_step m Op_commit = m"

definition view_run :: "(entry_key \<rightharpoonup> field_values) \<Rightarrow> (shard_op \<times> storage_error option) list \<Rightarrow> (entry_key \<rightharpoonup> field_values)" where
  "view_run = foldl (\<lambda>m (op, r). if r = None then view_step m op else m)"

definition mem_view :: "mem_store \<Rightarrow> (entry_key \<rightharpoonup> field_values)" where
  "mem_view s key = fmlookup (wb_cache s) key"

lemma buffer_ok_new [simp]: "buffer_ok wb_new" "wb_unknown wb_new = None"
  by (simp_all add: buffer_ok_def wb_new_def positions_ok_def fcard.rep_eq)

lemma buffer_ok_clear [simp]: "buffer_ok (wb_clear_pending b)"
  by (simp add: buffer_ok_def wb_clear_pending_def positions_ok_def fcard.rep_eq)

lemma buffer_ok_cache: "buffer_ok b \<Longrightarrow> buffer_ok (b\<lparr>wb_cache := c\<rparr>)"
  by (simp add: buffer_ok_def)

lemma stored_view: "wb_stored b b' d k v \<Longrightarrow> buffer_ok b' \<and> mem_view b' = (mem_view b)((d, k) := v)"
  by (auto simp: wb_stored_def mem_view_def fun_eq_iff)

lemma mem_mark_ok:
  assumes ok: "buffer_ok s"
  shows "\<exists>s' r. mem_mark_dirty s d k = Some (s', r) \<and> buffer_ok s' \<and> mem_view s' = mem_view s"
proof (cases "check_dimension d")
  case (Inl e)
  then show ?thesis using ok by (simp add: mem_mark_dirty_def)
next
  case (Inr u)
  show ?thesis
  proof (cases "d = EPHEMERAL \<or> fmlookup (wb_cache s) (d, k) = None")
    case True
    then show ?thesis using Inr ok by (auto simp: mem_mark_dirty_def)
  next
    case False
    then obtain v where v: "fmlookup (wb_cache s) (d, k) = Some v" by auto
    obtain s' r where r: "wb_put s d k v = Some (s', r)" "case r of Inl e \<Rightarrow> s' = s | Inr _ \<Rightarrow> wb_stored s s' d k (Some v)"
      using wb_put_ok [OF ok] by blast
    have "(mem_view s)((d, k) := Some v) = mem_view s" using v by (simp add: mem_view_def fun_upd_idem)
    then have "buffer_ok s' \<and> mem_view s' = mem_view s"
      using r(2) ok stored_view [of s s' d k "Some v"] by (cases r) auto
    then show ?thesis using r(1) False Inr v by (auto simp: mem_mark_dirty_def)
  qed
qed

lemma mem_apply_ok:
  assumes ok: "buffer_ok s"
  shows "\<exists>s' r. mem_apply X s op = Some (s', r) \<and> buffer_ok s' \<and> mem_view s' = (if r = None then view_step (mem_view s) op else mem_view s)"
proof (cases op)
  case (Op_put d k v)
  obtain s' r where r: "wb_put s d k v = Some (s', r)" "case r of Inl e \<Rightarrow> s' = s | Inr _ \<Rightarrow> wb_stored s s' d k (Some v)"
    using wb_put_ok [OF ok] by blast
  then show ?thesis
    using ok Op_put stored_view [of s s' d k "Some v"] by (cases r) (auto simp: mem_put_def result_error_def)
next
  case (Op_remove d k)
  obtain s' r where r: "wb_delete s d k = Some (s', r)" "case r of Inl e \<Rightarrow> s' = s | Inr _ \<Rightarrow> wb_stored s s' d k None"
    using wb_delete_ok [OF ok] by blast
  then show ?thesis
    using ok Op_remove stored_view [of s s' d k None] by (cases r) (auto simp: mem_remove_def result_error_def result_simps)
next
  case (Op_write d k i x)
  then show ?thesis
    using ok by (cases "fmlookup (wb_cache s) (d, k)") (auto simp: mem_get_mut_def mem_view_def buffer_ok_cache fun_eq_iff)
next
  case (Op_mark d k)
  then show ?thesis using mem_mark_ok [OF ok, of d k] by (auto simp: mem_view_def)
next
  case Op_commit
  then show ?thesis by (auto simp: mem_commit_def result_error_def mem_view_def wb_clear_pending_def buffer_ok_clear [unfolded wb_clear_pending_def])
qed

lemma mem_run_ok:
  "buffer_ok s \<Longrightarrow> \<exists>s' rs. mem_run X s ops = Some (s', rs) \<and> length rs = length ops \<and> buffer_ok s' \<and>
     mem_view s' = view_run (mem_view s) (zip ops rs)"
proof (induction ops arbitrary: s)
  case (Cons op ops)
  obtain s1 r where 1: "mem_apply X s op = Some (s1, r)" "buffer_ok s1"
    "mem_view s1 = (if r = None then view_step (mem_view s) op else mem_view s)"
    using mem_apply_ok [OF Cons.prems] by blast
  from Cons.IH [OF 1(2)] obtain s2 rs where "mem_run X s1 ops = Some (s2, rs)" "length rs = length ops" "buffer_ok s2"
    "mem_view s2 = view_run (mem_view s1) (zip ops rs)" by blast
  then show ?case using 1 by (simp add: view_run_def)
qed (simp add: view_run_def)

text \<open>C26: \<open>MemStore\<close> implements a map. Whatever sequence of puts, removals, in-place writes, dirty marks and commits
  is applied to a new store, no operation panics (no position is out of range, no element count underflows);
  the store then reads back exactly the map that the accepted operations define, a refused operation having changed nothing;
  the pending batch stays within the element and key limits, and the positions index it exactly.\<close>

theorem mem_store_refines_map:
  "\<exists>s rs. mem_run X wb_new ops = Some (s, rs) \<and> length rs = length ops \<and> buffer_ok s \<and>
     (\<forall>d k. mem_get s d k = view_run Map.empty (zip ops rs) (d, k))"
proof -
  have new: "mem_view wb_new = Map.empty" by (simp add: mem_view_def wb_new_def fun_eq_iff)
  have get: "mem_get s d k = mem_view s (d, k)" for s d k by (simp add: mem_get_def mem_view_def)
  show ?thesis using mem_run_ok [OF buffer_ok_new(1), of X ops] unfolding new get by auto
qed

section \<open>The identity of a batch\<close>

lemma le_bytes_length_inj:
  "length xs < 2 ^ 64 \<Longrightarrow> length ys < 2 ^ 64 \<Longrightarrow>
    le_bytes 8 (of_nat (length xs) :: u64) = le_bytes 8 (of_nat (length ys) :: u64) \<longleftrightarrow> length xs = length ys"
  by (simp add: le_bytes_inj word_of_nat_eq_iff take_bit_nat_eq_self)

lemma length_serialize [simp]: "length (serialize_goldilocks vs) = 8 * length vs"
  by (simp add: serialize_goldilocks_def length_concat comp_def sum_list_triv)

lemma serialize_inj: "length vs = length ws \<Longrightarrow> serialize_goldilocks vs = serialize_goldilocks ws \<longleftrightarrow> vs = ws"
  by (induction vs ws rule: list_induct2) (simp_all add: serialize_goldilocks_def le_bytes_inj)

text \<open>One change is read off the front of the bytes in only one way.\<close>

definition change_small :: "entry_key \<times> field_values option \<Rightarrow> bool" where
  "change_small c \<longleftrightarrow> (\<forall>v. snd c = Some v \<longrightarrow> length v \<le> MAX_VALUE_ELEMENTS)"

lemma change_bytes_split:
  assumes "change_small c" "change_small c'" and eq: "change_bytes c @ xs = change_bytes c' @ ys"
  shows "c = c' \<and> xs = ys"
proof -
  obtain d k v where c: "c = ((d, k), v)" by (cases c) auto
  obtain d' k' v' where c': "c' = ((d', k'), v')" by (cases c') auto
  have some: "(of_bool (v \<noteq> None) :: u8) = of_bool (v' \<noteq> None) \<longleftrightarrow> (v = None \<longleftrightarrow> v' = None)" by auto
  have key: "d = d'" "k = k'" "v = None \<longleftrightarrow> v' = None"
    using eq by (auto simp: c c' change_bytes_def append_eq_append_conv be_bytes_inj split: option.splits)
  show ?thesis
  proof (cases v)
    case None
    then show ?thesis using eq key by (simp add: c c' change_bytes_def)
  next
    case (Some w)
    then obtain w' where w': "v' = Some w'" using key(3) by auto
    have small: "length w < 2 ^ 64" "length w' < 2 ^ 64" using assms(1,2) Some w' by (auto simp: change_small_def c c' MAX_VALUE_ELEMENTS_def)
    have "le_bytes 8 (of_nat (length w) :: u64) @ serialize_goldilocks w @ xs = le_bytes 8 (of_nat (length w') :: u64) @ serialize_goldilocks w' @ ys"
      using eq key by (simp add: c c' change_bytes_def Some w')
    then have len: "length w = length w'" and rest: "serialize_goldilocks w @ xs = serialize_goldilocks w' @ ys"
      using le_bytes_length_inj [OF small] by (auto simp: append_eq_append_conv)
    from rest len have "w = w' \<and> xs = ys" by (simp add: append_eq_append_conv serialize_inj)
    then show ?thesis using key by (simp add: c c' Some w')
  qed
qed

lemma changes_inj:
  "length cs = length cs' \<Longrightarrow> list_all change_small cs \<Longrightarrow> list_all change_small cs' \<Longrightarrow>
    concat (map change_bytes cs) = concat (map change_bytes cs') \<Longrightarrow> cs = cs'"
proof (induction cs cs' rule: list_induct2)
  case (Cons c cs c' cs')
  then show ?case using change_bytes_split [of c c' "concat (map change_bytes cs)" "concat (map change_bytes cs')"] by simp
qed simp

lemma net_changes_small:
  assumes ok: "buffer_ok b"
  shows "list_all change_small (sorted_list_of_fmap (net_changes b))" "fcard (fmdom (net_changes b)) < 2 ^ 64"
proof -
  have "length v \<le> MAX_VALUE_ELEMENTS" if "fmlookup (net_changes b) key = Some (Some v)" for key v
  proof -
    obtain d k where key: "key = (d, k)" by (cases key)
    have "(d, k, v) \<in> set (wb_dirty b)" using that pending_iff [OF ok, of d k v] by (auto simp: key net_lookup [OF ok] split: if_splits)
    then show ?thesis using ok by (auto simp: buffer_ok_def)
  qed
  then show "list_all change_small (sorted_list_of_fmap (net_changes b))"
    by (auto simp: list_all_iff sorted_list_of_fmap_def change_small_def fmlookup_dom_iff)
  have "fset (fmdom (net_changes b)) \<subseteq> fset (wb_deleted b) \<union> set (map dirty_key (wb_dirty b))"
    using pending_None [of b] by (auto simp: fmlookup_dom_iff net_lookup [OF ok] split: if_splits) (metis option.distinct(1) image_eqI)
  then have "fcard (fmdom (net_changes b)) \<le> card (fset (wb_deleted b) \<union> set (map dirty_key (wb_dirty b)))"
    unfolding fcard.rep_eq by (rule card_mono [rotated]) simp
  also have "\<dots> \<le> fcard (wb_deleted b) + length (wb_dirty b)"
    unfolding fcard.rep_eq using card_length [of "map dirty_key (wb_dirty b)"] by (intro order_trans [OF card_Un_le]) simp
  also have "\<dots> < 2 ^ 64" using ok by (simp add: buffer_ok_def MAX_PENDING_KEYS_def)
  finally show "fcard (fmdom (net_changes b)) < 2 ^ 64" .
qed

lemma sorted_list_of_fmap_eqD: "sorted_list_of_fmap m = sorted_list_of_fmap m' \<Longrightarrow> m = m'"
  by (metis fmap_ext map_of_sorted_list)

lemma change_preimage_inj:
  assumes "buffer_ok b" "buffer_ok b'" and eq: "change_preimage (net_changes b) = change_preimage (net_changes b')"
  shows "net_changes b = net_changes b'"
proof -
  let ?cs = "sorted_list_of_fmap (net_changes b)" and ?cs' = "sorted_list_of_fmap (net_changes b')"
  have "length ?cs = length ?cs' \<and> concat (map change_bytes ?cs) = concat (map change_bytes ?cs')"
    using eq le_bytes_length_inj [of ?cs ?cs'] net_changes_small(2) [OF assms(1)] net_changes_small(2) [OF assms(2)]
    by (simp add: change_preimage_def length_sorted_list_of_fmap)
  then have "?cs = ?cs'" using changes_inj net_changes_small(1) assms(1,2) by blast
  then show ?thesis by (rule sorted_list_of_fmap_eqD)
qed

text \<open>C27: The identity of a batch is that of its net effect. Two reachable buffers have the same identity
  exactly when they make the same changes to the store, whatever the order and the repetitions of the puts and deletes
  that led there, unless their encodings are a hash collision: the encoding of the net changes is injective.\<close>

theorem change_id_identifies:
  assumes "mem_run X wb_new ops = Some (b, rs)" and "mem_run X wb_new ops' = Some (b', rs')"
    and apart: "hm_hash X (change_preimage (net_changes b)) = hm_hash X (change_preimage (net_changes b')) \<longrightarrow>
      change_preimage (net_changes b) = change_preimage (net_changes b')"
  shows "wb_change_id X b = wb_change_id X b' \<longleftrightarrow> (\<forall>key. fmlookup (net_changes b) key = fmlookup (net_changes b') key)"
proof -
  have "buffer_ok b" "buffer_ok b'"
    using mem_run_ok [OF buffer_ok_new(1), of X ops] mem_run_ok [OF buffer_ok_new(1), of X ops'] assms(1,2) by auto
  then show ?thesis
    using apart change_preimage_inj [of b b'] fmap_ext [of "net_changes b" "net_changes b'"] unfolding wb_change_id_def by metis
qed

section \<open>Field values on disk\<close>

lemma chunks8_append: "length c = 8 \<Longrightarrow> chunks8 (c @ bs) = c # chunks8 bs"
  by (subst chunks8.simps) simp

lemma chunks8_serialize: "chunks8 (serialize_goldilocks vs) = map (le_bytes 8) vs"
  by (induction vs) (simp_all add: serialize_goldilocks_def chunks8_append chunks8.simps [of "[]"])

lemma chunks8_concat: "length bs mod 8 = 0 \<Longrightarrow> concat (chunks8 bs) = bs \<and> list_all (\<lambda>c. length c = 8) (chunks8 bs)"
proof (induction bs rule: chunks8.induct)
  case (1 bs)
  show ?case
  proof (cases "length bs < 8")
    case True
    then show ?thesis using 1(2) by (simp add: chunks8.simps [of "[]"])
  next
    case False
    then have "length (drop 8 bs) mod 8 = 0" using 1(2) by (simp add: mod_if [of "length bs"])
    then show ?thesis using 1(1) [OF False] False by (simp add: chunks8.simps [of bs])
  qed
qed

lemma decode_fields_iff:
  assumes X: "nebu_laws X" and "list_all (\<lambda>c. length c = 8) cs"
  shows "decode_fields X cs = Inr vs \<longleftrightarrow> cs = map (le_bytes 8) vs \<and> list_all (\<lambda>v. v < gl_P X) vs"
  using assms(2)
proof (induction cs arbitrary: vs)
  case (Cons c cs)
  have c: "length c = 8" using Cons.prems by simp
  have bytes: "le_bytes 8 (of_le_bytes c :: u64) = c" by (rule le_bytes_of_le_bytes) (simp_all add: c)
  have new: "gl_new X v = v" if "v < gl_P X" for v using X that by (simp add: nebu_laws_def)
  show ?case
  proof (cases vs)
    case Nil
    then show ?thesis by (cases "decode_fields X cs") (auto simp: result_simps Let_def)
  next
    case (Cons v ws)
    have "decode_fields X (c # cs) = Inr vs \<longleftrightarrow> (of_le_bytes c :: u64) = v \<and> v < gl_P X \<and> decode_fields X cs = Inr ws"
      using new by (cases "decode_fields X cs") (auto simp: Cons result_simps Let_def not_le)
    moreover have "(of_le_bytes c :: u64) = v \<longleftrightarrow> c = le_bytes 8 v" using bytes by auto
    ultimately show ?thesis using Cons.IH [of ws] Cons.prems by (auto simp: Cons)
  qed
qed auto

text \<open>Field values on disk: decoding accepts exactly the encodings of canonical values within the
  read budget: whatever was encoded is read back, and nothing but an encoding decodes (a stored value has one
  representation, a length that is no multiple of eight, a noncanonical element or a value over budget is refused).\<close>

lemma deserialize_iff:
  assumes X: "nebu_laws X" and max_ok: "max_elements \<le> MAX_VALUE_ELEMENTS"
  shows "deserialize_goldilocks X bs max_elements = Inr vs \<longleftrightarrow>
    bs = serialize_goldilocks vs \<and> length vs \<le> max_elements \<and> list_all (\<lambda>v. v < gl_P X) vs"
proof (cases "length bs mod 8 = 0 \<and> length bs div 8 \<le> max_elements")
  case True
  have "deserialize_goldilocks X bs max_elements = decode_fields X (chunks8 bs)"
    using True max_ok by (simp add: deserialize_goldilocks_def check_read_limit_def result_simps)
  moreover have "bs = serialize_goldilocks vs \<longleftrightarrow> chunks8 bs = map (le_bytes 8) vs"
    using chunks8_concat [of bs] True chunks8_serialize by (metis serialize_goldilocks_def)
  moreover have "length bs = 8 * length vs" if "bs = serialize_goldilocks vs" using that by simp
  ultimately show ?thesis using decode_fields_iff [OF X, of "chunks8 bs" vs] chunks8_concat [of bs] True by auto
next
  case False
  then show ?thesis
    using max_ok by (auto simp: deserialize_goldilocks_def check_read_limit_def result_simps split: if_splits)
qed

theorem change_id_identifies_witness:
  "\<exists>b b'. mem_run sample_ext wb_new [Op_put 0 1 [5], Op_put 0 1 [6], Op_remove 3 2] = Some (b, [None, None, None]) \<and>
     mem_run sample_ext wb_new [Op_put 3 2 [9], Op_remove 3 2, Op_put 0 1 [6]] = Some (b', [None, None, None]) \<and>
     wb_change_id sample_ext b = wb_change_id sample_ext b'"
proof -
  let ?ops = "[Op_put 0 1 [5], Op_put 0 1 [6], Op_remove 3 2]" and ?ops' = "[Op_put 3 2 [9], Op_remove 3 2, Op_put 0 1 [6]]"
  let ?b = "\<lparr>wb_cache = fmdrop (3, 2) (fmupd (0, 1) [6] (fmupd (0, 1) [5] fmempty)), wb_dirty = [(0, 1, [6])], wb_deleted = {|(3, 2)|},
    wb_unknown = None, wb_positions = fmupd (0, 1) 0 fmempty, wb_elements = 1\<rparr>"
  let ?b' = "\<lparr>wb_cache = fmupd (0, 1) [6] (fmdrop (3, 2) (fmupd (3, 2) [9] fmempty)), wb_dirty = [(0, 1, [6])], wb_deleted = {|(3, 2)|},
    wb_unknown = None, wb_positions = fmupd (0, 1) 0 (fmdrop (3, 2) (fmupd (3, 2) 0 fmempty)), wb_elements = 1\<rparr>"
  note ev = mem_put_def mem_remove_def wb_put_def wb_delete_def wb_new_def wb_ready_def check_dimension_def check_key_capacity_def replaced_len_def
    swap_remove_def result_error_def result_simps EPHEMERAL_def MAX_VALUE_ELEMENTS_def MAX_PENDING_ELEMENTS_def MAX_PENDING_KEYS_def fcard.rep_eq
  have b: "mem_run sample_ext wb_new ?ops = Some (?b, [None, None, None])" by (simp add: ev)
  have b': "mem_run sample_ext wb_new ?ops' = Some (?b', [None, None, None])" by (simp add: ev)
  have "net_changes ?b = net_changes ?b'" by (simp add: net_changes_def)
  then show ?thesis using change_id_identifies [OF b b'] b b' by simp
qed

section \<open>Paged scans\<close>

definition entries_after :: "mem_store \<Rightarrow> u8 \<Rightarrow> particle option \<Rightarrow> shard_entry list" where
  "entries_after s dimension after = map (\<lambda>((_, k), v). (k, v)) (cache_range (wb_cache s) dimension after)"

lemma page_loop_prefix:
  "page_loop m e es = Inr page \<Longrightarrow> e \<le> m \<Longrightarrow> (\<exists>rest. es = map Inr page @ rest) \<and> e + sum_list (map (length \<circ> snd) page) \<le> m \<and>
    (page = [] \<longrightarrow> e = 0 \<longrightarrow> es = [])"
proof (induction m e es arbitrary: page rule: page_loop.induct)
  case (2 m e entry es)
  then obtain k v where kv: "entry = Inr (k, v)" by (cases entry) (auto simp: result_simps)
  show ?case
  proof (cases "m - e < length v")
    case True
    then show ?thesis using 2(2,3) by (auto simp: kv result_simps split: if_splits)
  next
    case False
    then obtain page' where p: "page_loop m (e + length v) es = Inr page'" "page = (k, v) # page'"
      using 2(2) by (cases "page_loop m (e + length v) es") (auto simp: kv result_simps split: if_splits)
    have "e + length v \<le> m" using False 2(3) by simp
    then show ?thesis using p 2(1) [of v page'] 2(2,3) False by (auto simp: kv result_simps split: if_splits)
  qed
qed simp

lemma scan_entries:
  assumes "map Inr page @ rest = take n (map (\<lambda>((_, k), v). and_then (copy_value v m) (\<lambda>v. Inr (k, v))) xs)"
  shows "\<exists>rest. map (\<lambda>((_, k), v). (k, v)) xs = page @ rest"
  using assms
proof (induction page arbitrary: xs n)
  case (Cons p page)
  obtain n' where n: "n = Suc n'" using Cons.prems by (cases n) auto
  obtain d k v xs' where xs: "xs = ((d, k), v) # xs'" using Cons.prems by (cases xs) (auto simp: n)
  have "and_then (copy_value v m) (\<lambda>v. Inr (k, v)) = Inr p" and rest: "map Inr page @ rest = take n' (map (\<lambda>((_, k), v). and_then (copy_value v m) (\<lambda>v. Inr (k, v))) xs')"
    using Cons.prems by (simp_all add: n xs)
  then have "p = (k, v)" by (auto simp: copy_value_def check_read_limit_def result_simps split: if_splits)
  then show ?case using Cons.IH [OF rest] by (simp add: xs)
qed simp

lemma entries_sorted: "sorted (map fst (entries_after s d after))" "distinct (map fst (entries_after s d after))"
proof -
  let ?r = "cache_range (wb_cache s) d after"
  have dims: "\<forall>e \<in> set ?r. fst (fst e) = d" by (auto simp: cache_range_def)
  have "sorted (map fst ?r)" "distinct (map fst ?r)"
    unfolding cache_range_def using sorted_list_of_fmap_props [of "wb_cache s"] by (simp_all add: sorted_filter distinct_map_filter)
  moreover have "sorted (map fst (map (\<lambda>((_, k), v). (k, v)) xs)) \<and> distinct (map fst (map (\<lambda>((_, k), v). (k, v)) xs))"
    if "sorted (map fst xs)" "distinct (map fst xs)" "\<forall>e \<in> set xs. fst (fst e) = d" for xs :: "(entry_key \<times> field_values) list"
    using that by (induction xs) (fastforce simp: less_eq_prod_def image_iff split: prod.splits)+
  ultimately show "sorted (map fst (entries_after s d after))" "distinct (map fst (entries_after s d after))"
    using dims unfolding entries_after_def by blast+
qed

lemma filter_after_prefix:
  assumes "sorted (map fst (ps @ qs))" "distinct (map fst (ps @ qs))" "ps \<noteq> []"
  shows "filter (\<lambda>(k :: 'a :: linorder, _). fst (last ps) < k) (ps @ qs) = qs"
proof -
  obtain rs p where ps: "ps = rs @ [p]" using assms(3) by (cases ps rule: rev_cases) auto
  have "\<forall>r \<in> set rs. fst r \<le> fst p" and after: "\<forall>q \<in> set qs. fst p \<le> fst q" using assms(1) by (simp_all add: ps sorted_append)
  then have "filter (\<lambda>e. fst p < fst e) rs = []" by (simp add: filter_empty_conv not_less)
  moreover have "\<forall>q \<in> set qs. fst p \<noteq> fst q" using assms(2) by (auto simp: ps)
  then have "filter (\<lambda>e. fst p < fst e) qs = qs" using after by (simp add: filter_id_conv order_less_le)
  ultimately show ?thesis by (simp add: ps case_prod_unfold)
qed

lemma entries_after_after:
  assumes "case after of None \<Rightarrow> True | Some b \<Rightarrow> b < a"
  shows "entries_after s d (Some a) = filter (\<lambda>(k, _). a < k) (entries_after s d after)"
  using assms by (auto simp: entries_after_def cache_range_def filter_map comp_def intro!: arg_cong [where f = "map _"] filter_cong split: option.splits)

text \<open>Paged scans. A page that \<open>scan\<close> returns is the beginning of what remains of the dimension, in key order, within the entry
  and element limits; it is empty only at the end; and the entries after its last key are exactly those that follow it,
  so that scanning on from there visits every entry of the dimension once.\<close>

theorem mem_scan_page:
  assumes scan: "mem_scan s dimension after limits = Inr page"
  shows "\<exists>rest. entries_after s dimension after = page @ rest \<and> length page \<le> sl_max_entries limits \<and>
    sum_list (map (length \<circ> snd) page) \<le> sl_max_elements limits \<and>
    (if page = [] then rest = [] else entries_after s dimension (Some (fst (last page))) = rest)"
proof -
  let ?xs = "cache_range (wb_cache s) dimension after" and ?m = "sl_max_elements limits" and ?n = "sl_max_entries limits"
  let ?es = "map (\<lambda>((_, k), v). and_then (copy_value v ?m) (\<lambda>v. Inr (k, v))) ?xs"
  have loop: "page_loop ?m 0 (take ?n ?es) = Inr page" and pos: "0 < ?n"
    using scan by (auto simp: mem_scan_def scan_cache_def collect_page_def scan_validate_def check_dimension_def check_read_limit_def result_simps split: if_splits)
  from page_loop_prefix [OF loop] obtain r where r: "take ?n ?es = map Inr page @ r"
    and size: "sum_list (map (length \<circ> snd) page) \<le> ?m" and empty: "page = [] \<Longrightarrow> take ?n ?es = []" by auto
  have len: "length page \<le> ?n" using arg_cong [OF r, of length] by simp
  obtain rest where rest: "entries_after s dimension after = page @ rest" unfolding entries_after_def using scan_entries [OF r [symmetric]] by blast
  have "if page = [] then rest = [] else entries_after s dimension (Some (fst (last page))) = rest"
  proof (cases "page = []")
    case True
    then show ?thesis using empty pos rest by (simp add: entries_after_def)
  next
    case False
    then have "last page \<in> set (entries_after s dimension after)" by (simp add: rest)
    then have "case after of None \<Rightarrow> True | Some b \<Rightarrow> b < fst (last page)"
      by (auto simp: entries_after_def cache_range_def split: option.splits)
    from entries_after_after [OF this, of s dimension] show ?thesis
      using False filter_after_prefix [of page rest] entries_sorted [of s dimension after] by (simp add: rest)
  qed
  then show ?thesis using rest len size by blast
qed

theorem mem_scan_page_witness:
  "\<exists>s. mem_scan s 2 None \<lparr>sl_max_entries = 2, sl_max_elements = 3\<rparr> = Inr [(4, [7]), (6, [8, 9])] \<and>
     entries_after s 2 (Some 6) = [(9, [1])]"
proof -
  let ?s = "wb_new\<lparr>wb_cache := fmap_of_list [((2, 4), [7]), ((2, 6), [8, 9]), ((2, 9), [1])]\<rparr>"
  have sc: "mem_scan ?s 2 None \<lparr>sl_max_entries = 2, sl_max_elements = 3\<rparr> = Inr [(4, [7]), (6, [8, 9])]"
    by (simp add: mem_scan_def scan_cache_def collect_page_def scan_validate_def check_dimension_def check_read_limit_def copy_value_def result_simps
      EPHEMERAL_def MAX_SCAN_ENTRIES_def MAX_VALUE_ELEMENTS_def cache_range_def sorted_list_of_fmap_def sorted_list_of_fset.rep_eq)
  from mem_scan_page [OF sc] obtain rest where "entries_after ?s 2 None = [(4, [7]), (6, [8, 9])] @ rest" "entries_after ?s 2 (Some 6) = rest" by auto
  moreover have "entries_after ?s 2 None = [(4, [7]), (6, [8, 9]), (9, [1])]"
    by (simp add: entries_after_def cache_range_def sorted_list_of_fmap_def sorted_list_of_fset.rep_eq)
  ultimately show ?thesis using sc by auto
qed

end
