(* ===== verification/Bbg_Engine.thy ===== *)
theory Bbg_Engine
  imports Bbg_Storage "HOL-Library.List_Lexorder"
begin

text \<open>
  Tables and physical engines (\<open>storage/database/backend.rs\<close>, \<open>backend_redb.rs\<close>, \<open>backend_fjall.rs\<close>, the table names of
  \<open>storage/database/mod.rs\<close> and \<open>records.rs\<close>). The two database crates are parameters, the records
  \<open>redb\<close> and \<open>fjall\<close> of the calls the engines make; \<open>redb_laws\<close> and \<open>fjall_laws\<close> say what the engines rely on.
\<close>

section \<open>Tables\<close>

datatype record_domain = NativeState | NativeHistory | NativeRequests | NativeMetadata | NativeBalances | NativeBlocks | NativeExport

definition RECORD_DOMAINS :: "record_domain list" where
  "RECORD_DOMAINS = [NativeState, NativeHistory, NativeRequests, NativeMetadata, NativeBalances, NativeBlocks, NativeExport]"

fun domain_name :: "record_domain \<Rightarrow> string" where
  "domain_name NativeState = ''native_state_v1''"
| "domain_name NativeHistory = ''native_history_v1''"
| "domain_name NativeRequests = ''native_requests_v1''"
| "domain_name NativeMetadata = ''native_metadata_v1''"
| "domain_name NativeBalances = ''native_balances_v1''"
| "domain_name NativeBlocks = ''native_blocks_v1''"
| "domain_name NativeExport = ''native_export_v1''"

datatype table = Shard u8 | Metadata | Content | Heads | History | Requests | Claims | Migration | Native record_domain

definition SHARD_NAMES :: "string list" where
  "SHARD_NAMES = [''particles'', ''axons_out'', ''axons_in'', ''neurons'', ''locations'', ''coins'', ''cards'', ''files'', ''time'',
     ''signals'', ''commitments'', ''nullifiers'', ''intents'', ''ephemeral'']"

text \<open>The name of a shard indexes an array of fourteen: another dimension panics.\<close>

fun table_name :: "table \<Rightarrow> string option" where
  "table_name (Shard d) = (if unat d < length SHARD_NAMES then Some (SHARD_NAMES ! unat d) else None)"
| "table_name Metadata = Some ''bbg_storage_v1''"
| "table_name Content = Some ''application_content''"
| "table_name Heads = Some ''application_heads''"
| "table_name History = Some ''application_history''"
| "table_name Requests = Some ''application_requests''"
| "table_name Claims = Some ''application_unique_claims''"
| "table_name Migration = Some ''bbg_import_v1''"
| "table_name (Native rd) = Some (domain_name rd)"

text \<open>The derived order of \<open>Table\<close>: by constructor, then by payload.\<close>

primrec domain_rank :: "record_domain \<Rightarrow> nat" where
  "domain_rank NativeState = 0" | "domain_rank NativeHistory = 1" | "domain_rank NativeRequests = 2" | "domain_rank NativeMetadata = 3"
| "domain_rank NativeBalances = 4" | "domain_rank NativeBlocks = 5" | "domain_rank NativeExport = 6"

primrec table_rank :: "table \<Rightarrow> nat" where
  "table_rank (Shard d) = unat d"
| "table_rank Metadata = 256" | "table_rank Content = 257" | "table_rank Heads = 258" | "table_rank History = 259"
| "table_rank Requests = 260" | "table_rank Claims = 261" | "table_rank Migration = 262"
| "table_rank (Native rd) = 263 + domain_rank rd"

lemma domain_rank_inj: "domain_rank a = domain_rank b \<longleftrightarrow> a = b"
  by (cases a; cases b) simp_all

lemma shard_rank: "unat (d :: u8) < 256"
  using unsigned_less [of d, where 'a = nat] by simp

lemma table_rank_inj: "table_rank a = table_rank b \<longleftrightarrow> a = b"
proof -
  have far: "unat d \<noteq> n" "n \<noteq> unat d" if "256 \<le> n" for d :: u8 and n using shard_rank [of d] that by simp_all
  show ?thesis by (cases a; cases b) (simp_all add: domain_rank_inj far word_unat_eq_iff)
qed

instantiation table :: linorder
begin

definition less_eq_table :: "table \<Rightarrow> table \<Rightarrow> bool" where "less_eq_table a b \<longleftrightarrow> table_rank a \<le> table_rank b"
definition less_table :: "table \<Rightarrow> table \<Rightarrow> bool" where "less_table a b \<longleftrightarrow> table_rank a < table_rank b"

instance
  by standard (auto simp: less_eq_table_def less_table_def table_rank_inj)

end

lemma length_shard_names [simp]: "length SHARD_NAMES = 14"
  by (simp add: SHARD_NAMES_def)

lemma shard_name_inj:
  assumes "i < 14" "j < 14"
  shows "SHARD_NAMES ! i = SHARD_NAMES ! j \<longleftrightarrow> i = j"
proof -
  have "distinct SHARD_NAMES" by (simp add: SHARD_NAMES_def)
  then show ?thesis using assms by (simp add: nth_eq_iff_index_eq)
qed

lemma domain_name_inj: "domain_name a = domain_name b \<longleftrightarrow> a = b"
  by (cases a; cases b) simp_all

definition other_names :: "string list" where
  "other_names = [''bbg_storage_v1'', ''application_content'', ''application_heads'', ''application_history'', ''application_requests'',
     ''application_unique_claims'', ''bbg_import_v1'', ''native_state_v1'', ''native_history_v1'', ''native_requests_v1'',
     ''native_metadata_v1'', ''native_balances_v1'', ''native_blocks_v1'', ''native_export_v1'']"

lemma shard_not_other: "i < 14 \<Longrightarrow> SHARD_NAMES ! i \<notin> set other_names"
proof -
  assume "i < 14"
  then have "SHARD_NAMES ! i \<in> set SHARD_NAMES" by simp
  moreover have "set SHARD_NAMES \<inter> set other_names = {}" by (simp add: SHARD_NAMES_def other_names_def)
  ultimately show ?thesis by blast
qed

lemma domain_name_other: "domain_name rd \<in> set other_names" "domain_name rd \<notin> set (take 7 other_names)"
  by (cases rd; simp add: other_names_def)+

lemma other_name: "table_name t = Some n \<Longrightarrow> (\<exists>d. t = Shard d) \<or> n \<in> set other_names"
  using domain_name_other(1) by (cases t) (auto simp: other_names_def)

lemma table_name_inj:
  assumes "table_name a = Some n" "table_name b = Some n"
  shows "a = b"
proof (cases "\<exists>d. a = Shard d \<or> b = Shard d")
  case False
  then show ?thesis using assms by (cases a; cases b) (auto simp: domain_name_inj domain_name_other(2) [simplified other_names_def, simplified] dest: sym)
next
  case True
  have sh: "t = Shard e \<Longrightarrow> table_name t = Some n \<Longrightarrow> n \<notin> set other_names" for t e
    using shard_not_other [of "unat e"] by (auto split: if_splits)
  then obtain d e where "a = Shard d" "b = Shard e" using True assms other_name by blast
  then show ?thesis using assms shard_name_inj [of "unat d" "unat e"] by (auto simp: word_unat_eq_iff split: if_splits)
qed

section \<open>Changes and limits\<close>

type_synonym address = "table \<times> bytes"
type_synonym changes = "(address, bytes option) fmap"
type_synonym raw_entry = "bytes \<times> bytes"

definition MAX_TRANSACTION_BYTES :: nat where "MAX_TRANSACTION_BYTES = 32 * 1024 * 1024"
definition MAX_TRANSACTION_KEYS :: nat where "MAX_TRANSACTION_KEYS = 150000"
definition MAX_BYTES_VALUE :: nat where "MAX_BYTES_VALUE = 16 * 1024 * 1024 + 1"

record byte_limits =
  bl_max_entries :: nat
  bl_max_bytes :: nat

definition byte_validate :: "byte_limits \<Rightarrow> unit storage_result" where
  "byte_validate l = (if bl_max_entries l = 0 \<or> 4096 < bl_max_entries l \<or> MAX_TRANSACTION_BYTES < bl_max_bytes l
     then Inl (Limit ''byte scan budget'') else Inr ())"

section \<open>Ranges of keys\<close>

datatype bound = Included bytes | Excluded bytes | Unbounded

text \<open>The least key above every key with the prefix: the last byte below 255 incremented, the rest cut off.\<close>

definition prefix_upper :: "bytes \<Rightarrow> bytes option" where
  "prefix_upper prefix = (case dropWhile (\<lambda>byte. byte = 255) (rev prefix) of [] \<Rightarrow> None | b # bs \<Rightarrow> Some (rev bs @ [b + 1]))"

definition scan_bounds :: "bytes option \<Rightarrow> bytes \<Rightarrow> (bound \<times> bound) option" where
  "scan_bounds after prefix =
     (let upper = prefix_upper prefix in
      if (case (upper, after) of (Some u, Some a) \<Rightarrow> u \<le> a | _ \<Rightarrow> False) then None
      else Some
        (case after of
           Some a \<Rightarrow> if prefix = [] \<or> prefix \<le> a then Excluded a else Included prefix
         | None \<Rightarrow> if prefix \<noteq> [] then Included prefix else Unbounded,
         case upper of None \<Rightarrow> Unbounded | Some u \<Rightarrow> Excluded u))"

definition copy_bytes :: "bytes \<Rightarrow> nat \<Rightarrow> bytes storage_result" where
  "copy_bytes bs max_bytes = (if max_bytes < length bs then Inl (Limit ''database value exceeds read budget'') else Inr bs)"

text \<open>\<open>push_row\<close>: whether the row was added, with the page and the bytes used. The source writes the value
  limit out; the page is within its budget whenever it is called.\<close>

definition push_row :: "raw_entry list \<Rightarrow> nat \<Rightarrow> bytes \<Rightarrow> bytes \<Rightarrow> byte_limits \<Rightarrow> (raw_entry list \<times> nat \<times> bool) storage_result" where
  "push_row page used key value limits =
     (if 64 < length key then Inl (Corrupt ''database key length'')
      else if 16 * 1024 * 1024 + 1 < length value then Inl (Limit ''database value length'')
      else let n = length key + length value in
        if bl_max_bytes limits < n then Inl (Limit ''database row exceeds page budget'')
        else if bl_max_bytes limits - used < n then Inr (page, used, False)
        else Inr (page @ [(key, value)], used + n, True))"

fun scan_rows :: "byte_limits \<Rightarrow> raw_entry list \<Rightarrow> nat \<Rightarrow> (string + raw_entry) list \<Rightarrow> raw_entry list storage_result" where
  "scan_rows limits page used [] = Inr page"
| "scan_rows limits page used (Inl e # es) = Inl (Io e)"
| "scan_rows limits page used (Inr (key, value) # es) =
     and_then (push_row page used key value limits) (\<lambda>(page, used, go). if go then scan_rows limits page used es else Inr page)"

definition io_result :: "string + 'a \<Rightarrow> 'a storage_result" where
  "io_result r = (case r of Inl e \<Rightarrow> Inl (Io e) | Inr a \<Rightarrow> Inr a)"

definition unknown :: "particle \<Rightarrow> string \<Rightarrow> storage_error" where
  "unknown i e = CommitUnknown i e"

section \<open>The redb engine\<close>

text \<open>The calls of the \<open>redb\<close> crate, on a database \<open>'k\<close> and a write transaction \<open>'t\<close>. \<open>rd_open_read\<close> answers
  whether the table exists; dropping a write transaction aborts it.\<close>

record ('k, 't) redb =
  rd_begin_read :: "'k \<Rightarrow> string + unit"
  rd_open_read :: "'k \<Rightarrow> string \<Rightarrow> string + bool"
  rd_get :: "'k \<Rightarrow> string \<Rightarrow> bytes \<Rightarrow> string + bytes option"
  rd_range :: "'k \<Rightarrow> string \<Rightarrow> bound \<Rightarrow> bound \<Rightarrow> string + (string + raw_entry) list"
  rd_begin_write :: "'k \<Rightarrow> string + 't"
  rd_open_table :: "'t \<Rightarrow> string \<Rightarrow> string + 't"
  rd_insert :: "'t \<Rightarrow> string \<Rightarrow> bytes \<Rightarrow> bytes \<Rightarrow> string + 't"
  rd_remove :: "'t \<Rightarrow> string \<Rightarrow> bytes \<Rightarrow> string + 't"
  rd_commit :: "'k \<Rightarrow> 't \<Rightarrow> 'k \<times> (string + unit)"

definition redb_get :: "('k, 't) redb \<Rightarrow> 'k \<Rightarrow> table \<Rightarrow> bytes \<Rightarrow> nat \<Rightarrow> bytes option storage_result option" where
  "redb_get R db table key max_bytes = do {
     name \<leftarrow> table_name table;
     Some (and_then (io_result (rd_begin_read R db)) (\<lambda>_. and_then (io_result (rd_open_read R db name)) (\<lambda>there.
       if \<not> there then Inr None
       else and_then (io_result (rd_get R db name key)) (\<lambda>found.
         case found of None \<Rightarrow> Inr None | Some value \<Rightarrow> and_then (copy_bytes value max_bytes) (\<lambda>v. Inr (Some v)))))) }"

definition redb_scan :: "('k, 't) redb \<Rightarrow> 'k \<Rightarrow> table \<Rightarrow> bytes option \<Rightarrow> bytes \<Rightarrow> byte_limits \<Rightarrow> raw_entry list storage_result option" where
  "redb_scan R db table after prefix limits =
     (case scan_bounds after prefix of
        None \<Rightarrow> Some (Inr [])
      | Some (start, end) \<Rightarrow> do {
          name \<leftarrow> table_name table;
          Some (and_then (io_result (rd_begin_read R db)) (\<lambda>_. and_then (io_result (rd_open_read R db name)) (\<lambda>there.
            if \<not> there then Inr []
            else and_then (io_result (rd_range R db name start end)) (\<lambda>entries.
              scan_rows limits [] 0 (take (bl_max_entries limits) entries))))) })"

text \<open>The changes come ordered by table; a table is opened once for each run of its changes.\<close>

fun redb_stage :: "('k, 't) redb \<Rightarrow> 't \<Rightarrow> table option \<Rightarrow> (address \<times> bytes option) list \<Rightarrow> 't storage_result option" where
  "redb_stage R txn current [] = Some (Inr txn)"
| "redb_stage R txn current (((table, key), value) # es) = do {
     name \<leftarrow> table_name table;
     case and_then (if current = Some table then Inr txn else io_result (rd_open_table R txn name)) (\<lambda>txn.
       io_result (case value of Some value \<Rightarrow> rd_insert R txn name key value | None \<Rightarrow> rd_remove R txn name key)) of
       Inl e \<Rightarrow> Some (Inl e)
     | Inr txn \<Rightarrow> redb_stage R txn (Some table) es }"

definition redb_commit :: "('k, 't) redb \<Rightarrow> 'k \<Rightarrow> changes \<Rightarrow> particle \<Rightarrow> ('k \<times> unit storage_result) option" where
  "redb_commit R db changes i =
     (case io_result (rd_begin_write R db) of
        Inl e \<Rightarrow> Some (db, Inl e)
      | Inr txn \<Rightarrow> do {
          r \<leftarrow> redb_stage R txn None (sorted_list_of_fmap changes);
          case r of
            Inl e \<Rightarrow> Some (db, Inl e)
          | Inr txn \<Rightarrow> (case rd_commit R db txn of
              (db, Inl e) \<Rightarrow> Some (db, Inl (unknown i e))
            | (db, Inr _) \<Rightarrow> Some (db, Inr ())) })"

section \<open>The fjall engine\<close>

text \<open>The calls of the \<open>fjall\<close> crate on a keyspace \<open>'f\<close>; a partition handle is the name it was opened with.\<close>

record 'f fjall =
  fj_get :: "'f \<Rightarrow> string \<Rightarrow> bytes \<Rightarrow> string + bytes option"
  fj_range :: "'f \<Rightarrow> string \<Rightarrow> bound \<Rightarrow> bound \<Rightarrow> (string + raw_entry) list"
  fj_commit :: "'f \<Rightarrow> (string \<times> bytes \<times> bytes option) list \<Rightarrow> 'f \<times> (string + unit)"
  fj_partitions :: "'f \<Rightarrow> string list"

record 'f fjall_engine =
  fe_keyspace :: 'f
  fe_tables :: "(table, string) fmap"

text \<open>The partitions \<open>open\<close> opens.\<close>

definition fjall_names :: "table list" where
  "fjall_names = map (\<lambda>d. Shard (of_nat d)) [0..<14] @ [Metadata, Content, Heads, History, Requests, Claims, Migration] @
     map Native RECORD_DOMAINS"

definition fjall_tables :: "(table, string) fmap" where
  "fjall_tables = fmap_of_list (List.map_filter (\<lambda>t. map_option (Pair t) (table_name t)) fjall_names)"

definition fjall_table :: "'f fjall_engine \<Rightarrow> table \<Rightarrow> string storage_result" where
  "fjall_table e table = ok_or (Corrupt ''unknown database table'') (fmlookup (fe_tables e) table)"

definition fjall_check_known_tables :: "'f fjall \<Rightarrow> 'f fjall_engine \<Rightarrow> unit storage_result option" where
  "fjall_check_known_tables F e = do {
     names \<leftarrow> those (map table_name (sorted_list_of_fset (fmdom (fe_tables e))));
     Some (if list_all (\<lambda>name. name \<in> set names) (fj_partitions F (fe_keyspace e)) then Inr ()
       else Inl (Unsupported ''unrecognized source partition'')) }"

definition fjall_get :: "'f fjall \<Rightarrow> 'f fjall_engine \<Rightarrow> table \<Rightarrow> bytes \<Rightarrow> nat \<Rightarrow> bytes option storage_result" where
  "fjall_get F e table key max_bytes = and_then (fjall_table e table) (\<lambda>p. and_then (io_result (fj_get F (fe_keyspace e) p key)) (\<lambda>found.
     case found of None \<Rightarrow> Inr None | Some value \<Rightarrow> and_then (copy_bytes value max_bytes) (\<lambda>v. Inr (Some v))))"

definition fjall_scan :: "'f fjall \<Rightarrow> 'f fjall_engine \<Rightarrow> table \<Rightarrow> bytes option \<Rightarrow> bytes \<Rightarrow> byte_limits \<Rightarrow> raw_entry list storage_result" where
  "fjall_scan F e table after prefix limits =
     (case scan_bounds after prefix of
        None \<Rightarrow> Inr []
      | Some (start, end) \<Rightarrow> and_then (fjall_table e table) (\<lambda>p.
          scan_rows limits [] 0 (take (bl_max_entries limits) (fj_range F (fe_keyspace e) p start end))))"

fun fjall_batch :: "'f fjall_engine \<Rightarrow> (address \<times> bytes option) list \<Rightarrow> (string \<times> bytes \<times> bytes option) list storage_result" where
  "fjall_batch e [] = Inr []"
| "fjall_batch e (((table, key), value) # es) =
     and_then (fjall_table e table) (\<lambda>p. and_then (fjall_batch e es) (\<lambda>bs. Inr ((p, key, value) # bs)))"

definition fjall_commit :: "'f fjall \<Rightarrow> 'f fjall_engine \<Rightarrow> changes \<Rightarrow> particle \<Rightarrow> 'f fjall_engine \<times> unit storage_result" where
  "fjall_commit F e changes i =
     (case fjall_batch e (sorted_list_of_fmap changes) of
        Inl err \<Rightarrow> (e, Inl err)
      | Inr batch \<Rightarrow> (case fj_commit F (fe_keyspace e) batch of
          (k, Inl err) \<Rightarrow> (e\<lparr>fe_keyspace := k\<rparr>, Inl (unknown i err))
        | (k, Inr _) \<Rightarrow> (e\<lparr>fe_keyspace := k\<rparr>, Inr ())))"

section \<open>The engine\<close>

datatype ('f, 'k) engine = Fjall "'f fjall_engine" | Redb 'k

definition check_known_tables :: "'f fjall \<Rightarrow> ('f, 'k) engine \<Rightarrow> unit storage_result option" where
  "check_known_tables F e = (case e of Fjall e \<Rightarrow> fjall_check_known_tables F e
     | Redb _ \<Rightarrow> Some (Inl (Unsupported ''use explicit redb conversion'')))"

definition engine_get :: "'f fjall \<Rightarrow> ('k, 't) redb \<Rightarrow> ('f, 'k) engine \<Rightarrow> table \<Rightarrow> bytes \<Rightarrow> nat \<Rightarrow> bytes option storage_result option" where
  "engine_get F R e table key max_bytes = (case e of Fjall e \<Rightarrow> Some (fjall_get F e table key max_bytes)
     | Redb k \<Rightarrow> redb_get R k table key max_bytes)"

definition engine_scan :: "'f fjall \<Rightarrow> ('k, 't) redb \<Rightarrow> ('f, 'k) engine \<Rightarrow> table \<Rightarrow> bytes option \<Rightarrow> bytes \<Rightarrow> byte_limits \<Rightarrow> raw_entry list storage_result option" where
  "engine_scan F R e table after prefix limits = (case e of Fjall e \<Rightarrow> Some (fjall_scan F e table after prefix limits)
     | Redb k \<Rightarrow> redb_scan R k table after prefix limits)"

definition engine_commit :: "'f fjall \<Rightarrow> ('k, 't) redb \<Rightarrow> ('f, 'k) engine \<Rightarrow> changes \<Rightarrow> particle \<Rightarrow> (('f, 'k) engine \<times> unit storage_result) option" where
  "engine_commit F R e changes i = (case e of Fjall e \<Rightarrow> Some (apfst Fjall (fjall_commit F e changes i))
     | Redb k \<Rightarrow> map_option (apfst Redb) (redb_commit R k changes i))"

section \<open>A range is a prefix\<close>

definition in_bounds :: "bound \<Rightarrow> bound \<Rightarrow> bytes \<Rightarrow> bool" where
  "in_bounds lo hi key \<longleftrightarrow> (case lo of Included b \<Rightarrow> b \<le> key | Excluded b \<Rightarrow> b < key | Unbounded \<Rightarrow> True) \<and>
     (case hi of Included b \<Rightarrow> key \<le> b | Excluded b \<Rightarrow> key < b | Unbounded \<Rightarrow> True)"

lemma prefix_upper_simps:
  "prefix_upper [] = None"
  "prefix_upper (b # p) = (case prefix_upper p of Some u \<Rightarrow> Some (b # u) | None \<Rightarrow> if b = 255 then None else Some [b + 1])"
proof -
  show "prefix_upper [] = None" by (simp add: prefix_upper_def)
  show "prefix_upper (b # p) = (case prefix_upper p of Some u \<Rightarrow> Some (b # u) | None \<Rightarrow> if b = 255 then None else Some [b + 1])"
  proof (cases "dropWhile (\<lambda>byte. byte = 255) (rev p)")
    case Nil
    have "prefix_upper p = None" unfolding prefix_upper_def Nil by simp
    moreover from Nil have "\<forall>x \<in> set p. x = 255" by (simp add: dropWhile_eq_Nil_conv)
    ultimately show ?thesis by (simp add: prefix_upper_def [of "b # p"] dropWhile_append)
  next
    case (Cons c cs)
    then have "\<not> (\<forall>x \<in> set p. x = 255)" using dropWhile_eq_Nil_conv [of "\<lambda>byte. byte = 255" "rev p"] by auto
    then show ?thesis using Cons by (auto simp: prefix_upper_def dropWhile_append)
  qed
qed

lemma byte_next: "(k :: u8) \<noteq> 255 \<Longrightarrow> b < k + 1 \<longleftrightarrow> b \<le> k"
proof -
  assume "k \<noteq> 255"
  then have "unat (k + 1) = unat k + 1"
    using shard_rank [of k] by (simp add: unat_word_ariths word_unat_eq_iff)
  then show ?thesis by (simp add: word_less_nat_alt word_le_nat_alt less_Suc_eq_le)
qed

lemma byte_max: "\<not> (255 :: u8) < c"
  using shard_rank [of c] by (simp add: word_less_nat_alt)

text \<open>The keys with a prefix are those from the prefix up to the upper bound.\<close>

lemma prefix_range:
  "take (length p) key = p \<longleftrightarrow> p \<le> key \<and> (case prefix_upper p of None \<Rightarrow> True | Some u \<Rightarrow> key < u)"
proof (induction p arbitrary: key)
  case (Cons b p)
  show ?case
  proof (cases key)
    case Nil
    then show ?thesis by simp
  next
    case (Cons c cs)
    show ?thesis
    proof (cases "prefix_upper p")
      case None
      then show ?thesis using Cons.IH [of cs] byte_next [of b c] byte_max [of c] by (auto simp: \<open>key = c # cs\<close> prefix_upper_simps None)
    next
      case (Some u)
      then show ?thesis using Cons.IH [of cs] by (auto simp: \<open>key = c # cs\<close> prefix_upper_simps)
    qed
  qed
qed (simp add: prefix_upper_simps)

lemma scan_bounds_iff:
  "(case scan_bounds after prefix of None \<Rightarrow> False | Some (lo, hi) \<Rightarrow> in_bounds lo hi key) \<longleftrightarrow>
     take (length prefix) key = prefix \<and> (case after of None \<Rightarrow> True | Some a \<Rightarrow> a < key)"
  unfolding prefix_range
  by (cases after; cases "prefix_upper prefix") (auto simp: scan_bounds_def in_bounds_def Let_def)

section \<open>What the engines rely on, and what they do\<close>

type_synonym contents = "string \<Rightarrow> (bytes, bytes) fmap"

definition store_at :: "contents \<Rightarrow> string \<Rightarrow> bytes \<Rightarrow> bytes option \<Rightarrow> contents" where
  "store_at c name key value = c(name := (case value of None \<Rightarrow> fmdrop key (c name) | Some v \<Rightarrow> fmupd key v (c name)))"

definition rows_of :: "(bytes, bytes) fmap \<Rightarrow> bound \<Rightarrow> bound \<Rightarrow> raw_entry list" where
  "rows_of m lo hi = filter (\<lambda>(key, _). in_bounds lo hi key) (sorted_list_of_fmap m)"

text \<open>An iterator yields the rows in order, an error in the place of a row it cannot read.\<close>

definition range_ok :: "(string + raw_entry) list \<Rightarrow> raw_entry list \<Rightarrow> bool" where
  "range_ok es rows \<longleftrightarrow> list_all2 (\<lambda>e x. case e of Inl _ \<Rightarrow> True | Inr y \<Rightarrow> y = x) es rows"

text \<open>The documented behaviour of \<open>redb\<close>, over the contents \<open>C\<close> of a database and \<open>V\<close> of a write transaction: reads return what is
  stored, a write transaction sees its own writes and is published as a whole by \<open>commit\<close>; a failed commit has published all or nothing.\<close>

definition redb_laws :: "('k, 't) redb \<Rightarrow> ('k \<Rightarrow> contents) \<Rightarrow> ('t \<Rightarrow> contents) \<Rightarrow> bool" where
  "redb_laws R C V \<longleftrightarrow>
     (\<forall>k name. rd_open_read R k name = Inr False \<longrightarrow> C k name = fmempty) \<and>
     (\<forall>k name key v. rd_get R k name key = Inr v \<longrightarrow> v = fmlookup (C k name) key) \<and>
     (\<forall>k name lo hi es. rd_range R k name lo hi = Inr es \<longrightarrow> range_ok es (rows_of (C k name) lo hi)) \<and>
     (\<forall>k t. rd_begin_write R k = Inr t \<longrightarrow> V t = C k) \<and>
     (\<forall>t name t'. rd_open_table R t name = Inr t' \<longrightarrow> V t' = V t) \<and>
     (\<forall>t name key v t'. rd_insert R t name key v = Inr t' \<longrightarrow> V t' = store_at (V t) name key (Some v)) \<and>
     (\<forall>t name key t'. rd_remove R t name key = Inr t' \<longrightarrow> V t' = store_at (V t) name key None) \<and>
     (\<forall>k t. case rd_commit R k t of (k', Inr _) \<Rightarrow> C k' = V t | (k', Inl _) \<Rightarrow> C k' = C k \<or> C k' = V t)"

definition fjall_laws :: "'f fjall \<Rightarrow> ('f \<Rightarrow> contents) \<Rightarrow> bool" where
  "fjall_laws F C \<longleftrightarrow>
     (\<forall>k name key v. fj_get F k name key = Inr v \<longrightarrow> v = fmlookup (C k name) key) \<and>
     (\<forall>k name lo hi. range_ok (fj_range F k name lo hi) (rows_of (C k name) lo hi)) \<and>
     (\<forall>k batch. let c = foldl (\<lambda>c (name, key, value). store_at c name key value) (C k) batch
        in case fj_commit F k batch of (k', Inr _) \<Rightarrow> C k' = c | (k', Inl _) \<Rightarrow> C k' = C k \<or> C k' = c)"

definition engine_names :: "('f \<Rightarrow> contents) \<Rightarrow> ('k \<Rightarrow> contents) \<Rightarrow> ('f, 'k) engine \<Rightarrow> contents" where
  "engine_names CF CK e = (case e of Fjall e \<Rightarrow> CF (fe_keyspace e) | Redb k \<Rightarrow> CK k)"

definition engine_table :: "('f \<Rightarrow> contents) \<Rightarrow> ('k \<Rightarrow> contents) \<Rightarrow> ('f, 'k) engine \<Rightarrow> table \<Rightarrow> (bytes, bytes) fmap" where
  "engine_table CF CK e t = (case table_name t of None \<Rightarrow> fmempty | Some name \<Rightarrow> engine_names CF CK e name)"

definition engine_ok :: "('f, 'k) engine \<Rightarrow> bool" where
  "engine_ok e \<longleftrightarrow> (case e of Fjall e \<Rightarrow> fe_tables e = fjall_tables | Redb _ \<Rightarrow> True)"

lemma fjall_names_all: "t \<in> set fjall_names \<longleftrightarrow> table_name t \<noteq> None"
proof (cases t)
  case (Shard d)
  have "unat d < 14 \<Longrightarrow> d \<in> of_nat ` {0..<14}" by (rule image_eqI [of _ _ "unat d"]) simp_all
  moreover have "n < 14 \<Longrightarrow> unat (of_nat n :: u8) < 14" for n by (simp add: unat_of_nat take_bit_nat_eq_self)
  ultimately show ?thesis by (auto simp: Shard fjall_names_def RECORD_DOMAINS_def)
next
  case (Native rd)
  then show ?thesis by (cases rd) (simp_all add: fjall_names_def RECORD_DOMAINS_def)
qed (auto simp: fjall_names_def RECORD_DOMAINS_def)

lemma fjall_tables_lookup: "fmlookup fjall_tables t = table_name t"
proof -
  have "map_of (List.map_filter (\<lambda>t. map_option (Pair t) (table_name t)) ts) t = (if t \<in> set ts then table_name t else None)" for ts
    by (induction ts) (auto simp: map_filter_simps split: option.splits)
  then show ?thesis using fjall_names_all [of t] by (auto simp: fjall_tables_def fmlookup_of_list)
qed

lemma fjall_table_ok: "engine_ok (Fjall e) \<Longrightarrow> fjall_table e t = ok_or (Corrupt ''unknown database table'') (table_name t)"
  by (simp add: engine_ok_def fjall_table_def fjall_tables_lookup)

text \<open>What the two crates promise of one engine.\<close>

definition engine_laws :: "'f fjall \<Rightarrow> ('f \<Rightarrow> contents) \<Rightarrow> ('k, 't) redb \<Rightarrow> ('k \<Rightarrow> contents) \<Rightarrow> ('t \<Rightarrow> contents) \<Rightarrow> bool" where
  "engine_laws F CF R CK V \<longleftrightarrow> fjall_laws F CF \<and> redb_laws R CK V"

lemma engine_get_ok:
  assumes laws: "engine_laws F CF R CK V" and ok: "engine_ok e" and t: "table_name t \<noteq> None"
  shows "\<exists>r. engine_get F R e t key m = Some r \<and> (\<forall>v. r = Inr v \<longrightarrow> v = fmlookup (engine_table CF CK e t) key \<and> (\<forall>bs. v = Some bs \<longrightarrow> length bs \<le> m))"
proof -
  obtain name where name: "table_name t = Some name" using t by auto
  show ?thesis
  proof (cases e)
    case (Fjall f)
    have get: "fj_get F (fe_keyspace f) name key = Inr v \<Longrightarrow> v = fmlookup (CF (fe_keyspace f) name) key" for v
      using laws by (simp add: engine_laws_def fjall_laws_def)
    show ?thesis using ok get
      by (auto simp: Fjall engine_get_def fjall_get_def fjall_table_ok engine_table_def engine_names_def name result_simps io_result_def
        copy_bytes_def split: sum.splits option.splits if_splits)
  next
    case (Redb k)
    have get: "rd_get R k name key = Inr v \<Longrightarrow> v = fmlookup (CK k name) key" "rd_open_read R k name = Inr False \<Longrightarrow> CK k name = fmempty" for v
      using laws by (simp_all add: engine_laws_def redb_laws_def)
    show ?thesis using get
      by (auto simp: Redb engine_get_def redb_get_def engine_table_def engine_names_def name result_simps io_result_def
        copy_bytes_def split: sum.splits option.splits if_splits)
  qed
qed

text \<open>Scanning: the rows of one page are the beginning of the range.\<close>

definition row_bytes :: "raw_entry list \<Rightarrow> nat" where
  "row_bytes rows = sum_list (map (\<lambda>(key, value). length key + length value) rows)"

lemma scan_rows_prefix:
  assumes "scan_rows limits page used es = Inr out" and "used = row_bytes page" and "used \<le> bl_max_bytes limits" and "range_ok es rows"
  shows "\<exists>more rest. out = page @ more \<and> rows = more @ rest \<and> length more \<le> length es \<and> row_bytes out \<le> bl_max_bytes limits \<and>
    (more = [] \<longrightarrow> used = 0 \<longrightarrow> rest = [])"
  using assms
proof (induction limits page used es arbitrary: rows rule: scan_rows.induct)
  case (1 limits page used)
  then show ?case by (simp add: range_ok_def)
next
  case (3 limits page used key val es)
  obtain rows' where rows: "rows = (key, val) # rows'" "range_ok es rows'"
    using "3.prems"(4) by (cases rows) (auto simp: range_ok_def)
  let ?n = "length key + length val"
  show ?case
  proof (cases "bl_max_bytes limits - used < ?n")
    case True
    then have "out = page" using "3.prems"(1) by (auto simp: push_row_def Let_def split: if_splits)
    moreover have "used \<noteq> 0" using True "3.prems"(1) by (auto simp: push_row_def Let_def split: if_splits)
    ultimately show ?thesis using "3.prems"(2,3) rows by simp
  next
    case False
    then have push: "push_row page used key val limits = Inr (page @ [(key, val)], used + ?n, True)"
      and rec: "scan_rows limits (page @ [(key, val)]) (used + ?n) es = Inr out"
      using "3.prems"(1) by (auto simp: push_row_def Let_def split: if_splits)
    have "used + ?n = row_bytes (page @ [(key, val)])" using "3.prems"(2) by (simp add: row_bytes_def)
    moreover have "used + ?n \<le> bl_max_bytes limits" using False "3.prems"(3) by simp
    ultimately obtain more rest where "out = (page @ [(key, val)]) @ more" "rows' = more @ rest" "length more \<le> length es" "row_bytes out \<le> bl_max_bytes limits"
      using "3.IH" [OF _ rec _ _ rows(2)] by fastforce
    then show ?thesis using rows by (intro exI [of _ "(key, val) # more"] exI [of _ rest]) simp
  qed
qed auto

definition rows_after :: "(bytes, bytes) fmap \<Rightarrow> bytes option \<Rightarrow> bytes \<Rightarrow> raw_entry list" where
  "rows_after m after prefix = filter (\<lambda>(key, _). take (length prefix) key = prefix \<and> (case after of None \<Rightarrow> True | Some a \<Rightarrow> a < key))
     (sorted_list_of_fmap m)"

lemma rows_after_bounds:
  "rows_after m after prefix = (case scan_bounds after prefix of None \<Rightarrow> [] | Some (lo, hi) \<Rightarrow> rows_of m lo hi)"
  unfolding rows_after_def scan_bounds_iff [symmetric]
  by (cases "scan_bounds after prefix") (auto simp: rows_of_def)

definition page_of :: "raw_entry list \<Rightarrow> byte_limits \<Rightarrow> raw_entry list \<Rightarrow> bool" where
  "page_of rows limits page \<longleftrightarrow> (\<exists>rest. rows = page @ rest \<and> length page \<le> bl_max_entries limits \<and> row_bytes page \<le> bl_max_bytes limits \<and>
     (page = [] \<longrightarrow> 0 < bl_max_entries limits \<longrightarrow> rest = []))"

lemma scan_rows_page:
  assumes "scan_rows limits [] 0 (take (bl_max_entries limits) es) = Inr page" and "range_ok es rows"
  shows "page_of rows limits page"
proof -
  let ?n = "bl_max_entries limits"
  have ok: "range_ok (take ?n es) (take ?n rows)" using assms(2) by (simp add: range_ok_def list_all2_takeI)
  have len: "length es = length rows" using assms(2) by (auto simp: range_ok_def dest: list_all2_lengthD)
  obtain more rest where m: "page = more" "take ?n rows = more @ rest" "length more \<le> length (take ?n es)" "row_bytes page \<le> bl_max_bytes limits"
      "more = [] \<longrightarrow> rest = []"
    using scan_rows_prefix [OF assms(1) _ _ ok] by (auto simp: row_bytes_def)
  have "rows = page @ rest @ drop ?n rows" using m(1,2) append_take_drop_id [of ?n rows] by (metis append_assoc)
  moreover have "page = [] \<longrightarrow> 0 < ?n \<longrightarrow> rest @ drop ?n rows = []" using m by auto
  ultimately show ?thesis unfolding page_of_def using m by auto
qed

lemma engine_scan_ok:
  assumes laws: "engine_laws F CF R CK V" and ok: "engine_ok e" and t: "table_name t \<noteq> None"
  shows "\<exists>r. engine_scan F R e t after prefix limits = Some r \<and>
    (\<forall>page. r = Inr page \<longrightarrow> page_of (rows_after (engine_table CF CK e t) after prefix) limits page)"
proof -
  obtain name where name: "table_name t = Some name" using t by auto
  have empty: "page_of [] limits []" by (simp add: page_of_def row_bytes_def)
  show ?thesis
  proof (cases "scan_bounds after prefix")
    case None
    then show ?thesis using empty by (cases e) (simp_all add: rows_after_bounds engine_scan_def fjall_scan_def redb_scan_def)
  next
    case (Some b)
    obtain lo hi where b: "b = (lo, hi)" by (cases b)
    show ?thesis
    proof (cases e)
      case (Fjall f)
      have "range_ok (fj_range F (fe_keyspace f) name lo hi) (rows_of (CF (fe_keyspace f) name) lo hi)"
        using laws by (simp add: engine_laws_def fjall_laws_def)
      then show ?thesis
        using ok scan_rows_page by (auto simp: Fjall Some b engine_scan_def fjall_scan_def fjall_table_ok name rows_after_bounds engine_table_def engine_names_def ok_or_def)
    next
      case (Redb k)
      have laws: "rd_range R k name lo hi = Inr es \<Longrightarrow> range_ok es (rows_of (CK k name) lo hi)"
          "rd_open_read R k name = Inr False \<Longrightarrow> CK k name = fmempty" for es
        using laws by (simp_all add: engine_laws_def redb_laws_def)
      have "rows_of fmempty lo hi = []" by (simp add: rows_of_def sorted_list_of_fmap_def sorted_list_of_fset.rep_eq)
      then show ?thesis
        using laws scan_rows_page empty
        by (auto simp: Redb Some b engine_scan_def redb_scan_def name rows_after_bounds engine_table_def engine_names_def result_simps io_result_def split: sum.splits if_splits)
    qed
  qed
qed

text \<open>Committing: all the changes or none.\<close>

definition store_changes :: "contents \<Rightarrow> (address \<times> bytes option) list \<Rightarrow> contents" where
  "store_changes = foldl (\<lambda>c ((t, key), value). case table_name t of None \<Rightarrow> c | Some name \<Rightarrow> store_at c name key value)"

lemma store_at_lookup: "fmlookup (store_at c n k v n') k' = (if n' = n \<and> k' = k then v else fmlookup (c n') k')"
  by (cases v) (auto simp: store_at_def)

lemma store_changes_lookup:
  assumes "distinct (map fst es)" and t: "table_name t = Some n"
  shows "fmlookup (store_changes c es n) key = (case map_of es (t, key) of None \<Rightarrow> fmlookup (c n) key | Some v \<Rightarrow> v)"
  using assms(1)
proof (induction es arbitrary: c)
  case (Cons e es)
  obtain t' k' v' where e: "e = ((t', k'), v')" by (cases e) auto
  let ?c = "case table_name t' of None \<Rightarrow> c | Some name \<Rightarrow> store_at c name k' v'"
  have "fmlookup (?c n) key = (if (t', k') = (t, key) then v' else fmlookup (c n) key)"
  proof (cases "table_name t'")
    case None
    then show ?thesis using t by auto
  next
    case (Some n')
    then have "n = n' \<longleftrightarrow> t' = t" using t table_name_inj [of t' n t] by auto
    then show ?thesis by (simp add: Some store_at_lookup)
  qed
  moreover have "map_of es (t, key) = None" if "(t', k') = (t, key)" using Cons.prems that by (force simp: e map_of_eq_None_iff)
  moreover have "fmlookup (store_changes c (e # es) n) key = (case map_of es (t, key) of None \<Rightarrow> fmlookup (?c n) key | Some v \<Rightarrow> v)"
    using Cons.IH [of ?c] Cons.prems by (simp add: e store_changes_def)
  ultimately show ?case by (cases "map_of es (t, key)") (auto simp: e)
qed (simp add: store_changes_def)

lemma redb_stage_ok:
  assumes laws: "redb_laws R CK V"
  shows "\<forall>e \<in> set es. table_name (fst (fst e)) \<noteq> None \<Longrightarrow> \<exists>r. redb_stage R txn cur es = Some r \<and>
    (case r of Inl e \<Rightarrow> \<exists>m. e = Io m | Inr txn' \<Rightarrow> V txn' = store_changes (V txn) es)"
proof (induction es arbitrary: txn cur)
  case (Cons e es)
  obtain t k v where e: "e = ((t, k), v)" by (cases e) auto
  obtain name where name: "table_name t = Some name" using Cons.prems by (auto simp: e)
  let ?open = "if cur = Some t then Inr txn else io_result (rd_open_table R txn name)"
  let ?put = "\<lambda>txn. io_result (case v of Some v \<Rightarrow> rd_insert R txn name k v | None \<Rightarrow> rd_remove R txn name k)"
  have o: "V txn' = V txn" if "?open = Inr txn'" for txn'
    using laws that by (auto simp: redb_laws_def io_result_def split: if_splits sum.splits)
  have p: "V txn2 = store_at (V txn1) name k v" if "?put txn1 = Inr txn2" for txn1 txn2
    using laws that by (auto simp: redb_laws_def io_result_def split: option.splits sum.splits)
  show ?case
  proof (cases "and_then ?open ?put")
    case (Inl err)
    then show ?thesis by (auto simp: e name result_simps io_result_def split: if_splits sum.splits option.splits)
  next
    case (Inr txn2)
    then have "V txn2 = store_at (V txn) name k v" using o p by (fastforce simp: result_simps)
    then have st: "store_changes (V txn) (e # es) = store_changes (V txn2) es" by (simp add: e name store_changes_def)
    have "redb_stage R txn cur (e # es) = redb_stage R txn2 (Some t) es" using Inr by (simp add: e name)
    then show ?thesis using Cons.IH [of txn2 "Some t"] Cons.prems unfolding st by simp
  qed
qed (simp add: store_changes_def)

lemma fjall_batch_ok:
  assumes "engine_ok (Fjall f)"
  shows "\<forall>e \<in> set es. table_name (fst (fst e)) \<noteq> None \<Longrightarrow> \<exists>batch. fjall_batch f es = Inr batch \<and>
    (\<forall>c. foldl (\<lambda>c (name, key, value). store_at c name key value) c batch = store_changes c es)"
proof (induction es)
  case (Cons e es)
  obtain t k v where e: "e = ((t, k), v)" by (cases e) auto
  then show ?case using Cons by (auto simp: fjall_table_ok [OF assms] store_changes_def ok_or_def)
qed (simp add: store_changes_def)

text \<open>The tables after the changes.\<close>

definition changed_to :: "(table \<Rightarrow> (bytes, bytes) fmap) \<Rightarrow> changes \<Rightarrow> (table \<Rightarrow> (bytes, bytes) fmap) \<Rightarrow> bool" where
  "changed_to c changes c' \<longleftrightarrow> (\<forall>t key. fmlookup (c' t) key = (case fmlookup changes (t, key) of None \<Rightarrow> fmlookup (c t) key | Some v \<Rightarrow> v))"

definition changes_named :: "changes \<Rightarrow> bool" where
  "changes_named changes \<longleftrightarrow> (\<forall>t key. fmlookup changes (t, key) \<noteq> None \<longrightarrow> table_name t \<noteq> None)"

lemma store_changes_changed:
  assumes named: "changes_named changes" and c': "\<And>t. c' t = (case table_name t of None \<Rightarrow> fmempty | Some n \<Rightarrow> store_changes c (sorted_list_of_fmap changes) n)"
    and c0: "\<And>t. c0 t = (case table_name t of None \<Rightarrow> fmempty | Some n \<Rightarrow> c n)"
  shows "changed_to c0 changes c'"
proof -
  have "fmlookup (c' t) key = (case fmlookup changes (t, key) of None \<Rightarrow> fmlookup (c0 t) key | Some v \<Rightarrow> v)" for t key
  proof (cases "table_name t")
    case None
    then have "fmlookup changes (t, key) = None" using named unfolding changes_named_def by metis
    then show ?thesis by (simp add: c' c0 None)
  next
    case (Some n)
    then show ?thesis
      using store_changes_lookup [OF sorted_list_of_fmap_props(3) Some, of c changes key] by (simp add: c' c0 split: option.split)
  qed
  then show ?thesis by (simp add: changed_to_def)
qed

definition commit_outcome :: "(table \<Rightarrow> (bytes, bytes) fmap) \<Rightarrow> changes \<Rightarrow> particle \<Rightarrow> unit storage_result \<Rightarrow> (table \<Rightarrow> (bytes, bytes) fmap) \<Rightarrow> bool" where
  "commit_outcome c changes i r c' \<longleftrightarrow> (case r of Inr _ \<Rightarrow> changed_to c changes c'
     | Inl err \<Rightarrow> (\<exists>m. err = Io m) \<and> c' = c \<or> (\<exists>m. err = CommitUnknown i m) \<and> (c' = c \<or> changed_to c changes c'))"

lemma engine_commit_ok:
  assumes laws: "engine_laws F CF R CK V" and ok: "engine_ok e" and named: "changes_named changes"
  shows "\<exists>e' r. engine_commit F R e changes i = Some (e', r) \<and> engine_ok e' \<and>
    commit_outcome (engine_table CF CK e) changes i r (engine_table CF CK e')"
proof -
  let ?es = "sorted_list_of_fmap changes"
  have es: "\<forall>x \<in> set ?es. table_name (fst (fst x)) \<noteq> None"
    using named by (force simp: set_sorted_list_of_fmap changes_named_def)
  have tab: "engine_table CF CK e'' t = (case table_name t of None \<Rightarrow> fmempty | Some n \<Rightarrow> engine_names CF CK e'' n)" for e'' t
    by (simp add: engine_table_def)
  have stored: "changed_to (engine_table CF CK e) changes (engine_table CF CK e'')"
    if "engine_names CF CK e'' = store_changes (engine_names CF CK e) ?es" for e''
    by (rule store_changes_changed [OF named, where c = "engine_names CF CK e"]) (simp_all add: tab that split: option.split)
  have same: "engine_table CF CK e'' = engine_table CF CK e" if "engine_names CF CK e'' = engine_names CF CK e" for e''
    using that by (simp add: engine_table_def fun_eq_iff split: option.split)
  show ?thesis
  proof (cases e)
    case (Fjall f)
    obtain batch where b: "fjall_batch f ?es = Inr batch"
        "\<forall>c. foldl (\<lambda>c (name, key, value). store_at c name key value) c batch = store_changes c ?es"
      using fjall_batch_ok [OF ok [unfolded Fjall] es] by blast
    obtain k r where c: "fj_commit F (fe_keyspace f) batch = (k, r)" by (cases "fj_commit F (fe_keyspace f) batch")
    let ?e = "Fjall (f\<lparr>fe_keyspace := k\<rparr>)"
    have "case r of Inr _ \<Rightarrow> CF k = store_changes (CF (fe_keyspace f)) ?es
        | Inl _ \<Rightarrow> CF k = CF (fe_keyspace f) \<or> CF k = store_changes (CF (fe_keyspace f)) ?es"
      using laws b(2) c unfolding engine_laws_def fjall_laws_def Let_def by (auto dest!: spec [of _ "fe_keyspace f"] dest: spec [of _ batch] split: sum.splits)
    then show ?thesis
      using ok b(1) c stored [of ?e] same [of ?e]
      by (cases r) (auto simp: Fjall engine_commit_def fjall_commit_def engine_ok_def commit_outcome_def unknown_def engine_names_def)
  next
    case (Redb k)
    show ?thesis
    proof (cases "rd_begin_write R k")
      case (Inl m)
      then show ?thesis by (simp add: Redb engine_commit_def redb_commit_def io_result_def engine_ok_def commit_outcome_def)
    next
      case (Inr txn)
      have txn: "V txn = CK k" using laws Inr by (simp add: engine_laws_def redb_laws_def)
      obtain r where r: "redb_stage R txn None ?es = Some r" "case r of Inl e \<Rightarrow> \<exists>m. e = Io m | Inr txn' \<Rightarrow> V txn' = store_changes (CK k) ?es"
        using redb_stage_ok [of R CK V, OF _ es, of txn None] laws unfolding txn engine_laws_def by blast
      show ?thesis
      proof (cases r)
        case (Inl err)
        then show ?thesis using r Inr by (auto simp: Redb engine_commit_def redb_commit_def io_result_def engine_ok_def commit_outcome_def)
      next
        case (Inr txn')
        obtain k' out where c: "rd_commit R k txn' = (k', out)" by (cases "rd_commit R k txn'")
        have "\<forall>k t. case rd_commit R k t of (k', Inr _) \<Rightarrow> CK k' = V t | (k', Inl _) \<Rightarrow> CK k' = CK k \<or> CK k' = V t"
          using laws by (simp add: engine_laws_def redb_laws_def)
        from this [rule_format, of k txn'] have "case out of Inr _ \<Rightarrow> CK k' = V txn' | Inl _ \<Rightarrow> CK k' = CK k \<or> CK k' = V txn'"
          by (simp add: c split: sum.splits)
        then show ?thesis
          using r(1) r(2) [unfolded Inr] \<open>rd_begin_write R k = Inr txn\<close> Inr c stored [of "Redb k'"] same [of "Redb k'"]
          by (cases out) (auto simp: Redb engine_commit_def redb_commit_def io_result_def engine_ok_def commit_outcome_def unknown_def engine_names_def)
      qed
    qed
  qed
qed

section \<open>Concrete crates\<close>

text \<open>In-memory stand-ins for the two crates, for the witnesses.\<close>

definition sample_redb :: "(contents, contents) redb" where
  "sample_redb = \<lparr>rd_begin_read = (\<lambda>_. Inr ()), rd_open_read = (\<lambda>_ _. Inr True), rd_get = (\<lambda>k name key. Inr (fmlookup (k name) key)),
     rd_range = (\<lambda>k name lo hi. Inr (map Inr (rows_of (k name) lo hi))), rd_begin_write = Inr, rd_open_table = (\<lambda>t _. Inr t),
     rd_insert = (\<lambda>t name key v. Inr (store_at t name key (Some v))), rd_remove = (\<lambda>t name key. Inr (store_at t name key None)),
     rd_commit = (\<lambda>_ t. (t, Inr ()))\<rparr>"

definition sample_fjall :: "contents fjall" where
  "sample_fjall = \<lparr>fj_get = (\<lambda>k name key. Inr (fmlookup (k name) key)), fj_range = (\<lambda>k name lo hi. map Inr (rows_of (k name) lo hi)),
     fj_commit = (\<lambda>k batch. (foldl (\<lambda>c (name, key, value). store_at c name key value) k batch, Inr ())), fj_partitions = (\<lambda>_. [])\<rparr>"

lemma engine_laws_sample: "engine_laws sample_fjall id sample_redb id id"
proof -
  have "range_ok (map Inr rows) rows" for rows :: "raw_entry list" by (simp add: range_ok_def list_all2_map1 list_all2_same)
  then show ?thesis by (auto simp: engine_laws_def fjall_laws_def redb_laws_def sample_fjall_def sample_redb_def Let_def)
qed

text \<open>A range is a prefix. The bounds a scan passes to the engine select exactly the keys that begin with the requested prefix and
  lie after the cursor, for every cursor and every prefix, including prefixes that end in or consist of the byte 255
  and cursors outside the prefix; where no bounds are returned there is no such key.\<close>

theorem scan_bounds_exact:
  "(case scan_bounds after prefix of None \<Rightarrow> False | Some (lo, hi) \<Rightarrow> in_bounds lo hi key) \<longleftrightarrow>
     take (length prefix) key = prefix \<and> (case after of None \<Rightarrow> True | Some a \<Rightarrow> a < key)"
  by (rule scan_bounds_iff)

end
