(* ===== verification/Bbg_Database.thy ===== *)
theory Bbg_Database
  imports Bbg_Engine
begin

text \<open>
  The transaction owner (\<open>storage/database/mod.rs\<close>, \<open>transaction.rs\<close>, \<open>generation.rs\<close>, \<open>records.rs\<close>). The mutex of the owner
  makes a transaction one step, so a call takes the database and returns it with the result; a panic, which would
  poison the mutex, is the value None. Paths, the migration guard file and the weak coordination locks are not modelled.
\<close>

section \<open>Transactions\<close>

record ('f, 'k) transaction =
  tx_engine :: "('f, 'k) engine"
  tx_changes :: changes
  tx_bytes :: nat

definition tx_new :: "('f, 'k) engine \<Rightarrow> ('f, 'k) transaction" where
  "tx_new e = \<lparr>tx_engine = e, tx_changes = fmempty, tx_bytes = 0\<rparr>"

definition tx_get :: "'f fjall \<Rightarrow> ('k, 't) redb \<Rightarrow> ('f, 'k) transaction \<Rightarrow> table \<Rightarrow> bytes \<Rightarrow> nat \<Rightarrow> bytes option storage_result option" where
  "tx_get F R tx table key max_len =
     (if 64 < length key \<or> MAX_BYTES_VALUE < max_len then Some (Inl (Limit ''byte read budget''))
      else case fmlookup (tx_changes tx) (table, key) of
        Some value \<Rightarrow> Some (case value of None \<Rightarrow> Inr None
          | Some v \<Rightarrow> if max_len < length v then Inl (Limit ''value exceeds read budget'') else Inr (Some v))
      | None \<Rightarrow> engine_get F R (tx_engine tx) table key max_len)"

definition opt_len :: "bytes option \<Rightarrow> nat" where
  "opt_len v = (case v of None \<Rightarrow> 0 | Some v \<Rightarrow> length v)"

definition tx_stage :: "('f, 'k) transaction \<Rightarrow> table \<Rightarrow> bytes \<Rightarrow> bytes option \<Rightarrow> (('f, 'k) transaction \<times> unit storage_result) option" where
  "tx_stage tx table key value =
     (if 64 < length key \<or> MAX_BYTES_VALUE < opt_len value then Some (tx, Inl (Limit ''transaction record''))
      else let previous = fmlookup (tx_changes tx) (table, key) in
      if previous = None \<and> MAX_TRANSACTION_KEYS - 2 \<le> fcard (fmdom (tx_changes tx)) then Some (tx, Inl (Limit ''transaction key count''))
      else let old = (case previous of None \<Rightarrow> 0 | Some v \<Rightarrow> length key + opt_len v) in
      if tx_bytes tx < old then None
      else let n = tx_bytes tx - old + length key + opt_len value in
      if MAX_TRANSACTION_BYTES - 91 < n then Some (tx, Inl (Limit ''transaction bytes''))
      else Some (tx\<lparr>tx_changes := fmupd (table, key) value (tx_changes tx), tx_bytes := n\<rparr>, Inr ()))"

definition tx_put :: "('f, 'k) transaction \<Rightarrow> table \<Rightarrow> bytes \<Rightarrow> bytes \<Rightarrow> (('f, 'k) transaction \<times> unit storage_result) option" where
  "tx_put tx table key value = tx_stage tx table key (Some value)"

definition tx_remove :: "('f, 'k) transaction \<Rightarrow> table \<Rightarrow> bytes \<Rightarrow> (('f, 'k) transaction \<times> unit storage_result) option" where
  "tx_remove tx table key = tx_stage tx table key None"

definition disk_dimension :: "u8 \<Rightarrow> unit storage_result" where
  "disk_dimension dimension = and_then (check_dimension dimension) (\<lambda>_.
     if dimension = EPHEMERAL then Inl (Unsupported ''EPHEMERAL in disk transaction'') else Inr ())"

text \<open>The conversion of an optional byte string: \<open>.map(|v| deserialize_goldilocks(&v, max)).transpose()\<close>.\<close>

definition decode_opt :: "ext \<Rightarrow> nat \<Rightarrow> bytes option \<Rightarrow> field_values option storage_result" where
  "decode_opt X max_elements v = (case v of None \<Rightarrow> Inr None | Some bs \<Rightarrow> and_then (deserialize_goldilocks X bs max_elements) (\<lambda>vs. Inr (Some vs)))"

definition tx_read_shard :: "ext \<Rightarrow> 'f fjall \<Rightarrow> ('k, 't) redb \<Rightarrow> ('f, 'k) transaction \<Rightarrow> u8 \<Rightarrow> particle \<Rightarrow> nat \<Rightarrow> field_values option storage_result option" where
  "tx_read_shard X F R tx dimension key max_elements =
     (case and_then (disk_dimension dimension) (\<lambda>_. check_read_limit max_elements) of
        Inl e \<Rightarrow> Some (Inl e)
      | Inr _ \<Rightarrow> do {
          r \<leftarrow> tx_get F R tx (Shard dimension) (be_bytes 32 key) (max_elements * 8);
          Some (and_then r (decode_opt X max_elements)) })"

definition tx_put_shard :: "('f, 'k) transaction \<Rightarrow> u8 \<Rightarrow> particle \<Rightarrow> field_values \<Rightarrow> (('f, 'k) transaction \<times> unit storage_result) option" where
  "tx_put_shard tx dimension key value =
     (case and_then (disk_dimension dimension) (\<lambda>_. check_read_limit (length value)) of
        Inl e \<Rightarrow> Some (tx, Inl e)
      | Inr _ \<Rightarrow> tx_put tx (Shard dimension) (be_bytes 32 key) (serialize_goldilocks value))"

definition tx_remove_shard :: "ext \<Rightarrow> 'f fjall \<Rightarrow> ('k, 't) redb \<Rightarrow> ('f, 'k) transaction \<Rightarrow> u8 \<Rightarrow> particle \<Rightarrow>
    (('f, 'k) transaction \<times> field_values option storage_result) option" where
  "tx_remove_shard X F R tx dimension key = do {
     r \<leftarrow> tx_read_shard X F R tx dimension key MAX_VALUE_ELEMENTS;
     case r of
       Inl e \<Rightarrow> Some (tx, Inl e)
     | Inr previous \<Rightarrow> do {
         (tx, r) \<leftarrow> tx_remove tx (Shard dimension) (be_bytes 32 key);
         Some (tx, and_then r (\<lambda>_. Inr previous)) } }"

definition tx_scan :: "'f fjall \<Rightarrow> ('k, 't) redb \<Rightarrow> ('f, 'k) transaction \<Rightarrow> table \<Rightarrow> bytes option \<Rightarrow> bytes \<Rightarrow> byte_limits \<Rightarrow> raw_entry list storage_result option" where
  "tx_scan F R tx table after prefix limits =
     (case byte_validate limits of
        Inl e \<Rightarrow> Some (Inl e)
      | Inr _ \<Rightarrow>
          if (case after of None \<Rightarrow> False | Some a \<Rightarrow> 64 < length a) \<or> 64 < length prefix then Some (Inl (Limit ''scan key''))
          else if fBex (fmdom (tx_changes tx)) (\<lambda>(t, _). t = table) then Some (Inl PendingWrites)
          else engine_scan F R (tx_engine tx) table after prefix limits)"

section \<open>The database\<close>

record ('f, 'k) database =
  db_engine :: "('f, 'k) engine"
  db_failure :: "storage_error option"
  db_poisoned :: bool

record 'a commit =
  cm_value :: 'a
  cm_change_id :: "particle option"

definition db_from_engine :: "('f, 'k) engine \<Rightarrow> ('f, 'k) database" where
  "db_from_engine e = \<lparr>db_engine = e, db_failure = None, db_poisoned = False\<rparr>"

definition database_batch_tag :: bytes where
  "database_batch_tag = map of_char ''bbg/database-batch/v1'' @ [0]"

definition len_prefixed :: "bytes \<Rightarrow> bytes" where
  "len_prefixed bs = le_bytes 8 (of_nat (length bs) :: u64) @ bs"

definition change_row :: "address \<times> bytes option \<Rightarrow> bytes option" where
  "change_row c = (case c of ((table, key), value) \<Rightarrow> do {
     name \<leftarrow> table_name table;
     Some (len_prefixed (map of_char name) @ len_prefixed key @ [of_bool (value \<noteq> None)] @
       (case value of None \<Rightarrow> [] | Some v \<Rightarrow> len_prefixed v)) })"

text \<open>The order of the rows: by the name of the table, then by the key.\<close>

definition row_order :: "address \<times> bytes option \<Rightarrow> bytes \<times> bytes" where
  "row_order c = (map of_char (case table_name (fst (fst c)) of None \<Rightarrow> [] | Some name \<Rightarrow> name), snd (fst c))"

definition db_change_id :: "ext \<Rightarrow> changes \<Rightarrow> particle option" where
  "db_change_id X changes = do {
     rows \<leftarrow> those (map change_row (sort_key row_order (sorted_list_of_fmap changes)));
     Some (hm_hash X (database_batch_tag @ concat rows)) }"

definition last_commit_key :: bytes where "last_commit_key = map of_char ''last_commit''"
definition last_transaction_key :: bytes where "last_transaction_key = map of_char ''last_transaction''"

text \<open>The markers a transaction adds to its changes.\<close>

definition with_markers :: "particle \<Rightarrow> changes \<Rightarrow> changes" where
  "with_markers i changes =
     fmupd (Metadata, last_transaction_key) (Some (be_bytes 32 i))
       (if fBex (fmdom changes) (\<lambda>(t, _). case t of Shard _ \<Rightarrow> True | _ \<Rightarrow> False)
        then fmupd (Metadata, last_commit_key) (Some (be_bytes 32 i)) changes else changes)"

definition is_unknown :: "storage_error \<Rightarrow> bool" where
  "is_unknown e \<longleftrightarrow> (case e of CommitUnknown _ _ \<Rightarrow> True | _ \<Rightarrow> False)"

definition db_transaction :: "ext \<Rightarrow> 'f fjall \<Rightarrow> ('k, 't) redb \<Rightarrow> (storage_error \<Rightarrow> 'e) \<Rightarrow> ('f, 'k) database \<Rightarrow>
    (('f, 'k) transaction \<Rightarrow> (('f, 'k) transaction \<times> ('e + 'a)) option) \<Rightarrow> (('f, 'k) database \<times> ('e + 'a commit)) option" where
  "db_transaction X F R from_err db execute =
     (case db_failure db of
        Some e \<Rightarrow> Some (db, Inl (from_err e))
      | None \<Rightarrow> do {
          (tx, r) \<leftarrow> execute (tx_new (db_engine db));
          case r of
            Inl e \<Rightarrow> Some (db, Inl e)
          | Inr v \<Rightarrow>
              if fmdom (tx_changes tx) = {||} then Some (db, Inr \<lparr>cm_value = v, cm_change_id = None\<rparr>)
              else do {
                i \<leftarrow> db_change_id X (tx_changes tx);
                (engine, r) \<leftarrow> engine_commit F R (db_engine db) (with_markers i (tx_changes tx)) i;
                let db = db\<lparr>db_engine := engine\<rparr>;
                Some (case r of
                  Inl e \<Rightarrow> (if is_unknown e then db\<lparr>db_failure := Some e, db_poisoned := True\<rparr> else db, Inl (from_err e))
                | Inr _ \<Rightarrow> (db, Inr \<lparr>cm_value = v, cm_change_id = Some i\<rparr>)) } })"

definition db_is_poisoned :: "('f, 'k) database \<Rightarrow> bool" where
  "db_is_poisoned db = db_poisoned db"

definition db_ready :: "('f, 'k) database \<Rightarrow> unit storage_result" where
  "db_ready db = (case db_failure db of None \<Rightarrow> Inr () | Some e \<Rightarrow> Inl e)"

definition db_check_known_tables :: "'f fjall \<Rightarrow> ('f, 'k) database \<Rightarrow> unit storage_result option" where
  "db_check_known_tables F db = check_known_tables F (db_engine db)"

text \<open>A closure that only reads, and the value of its commit.\<close>

definition read_only :: "(('f, 'k) transaction \<Rightarrow> 'a storage_result option) \<Rightarrow> ('f, 'k) transaction \<Rightarrow> (('f, 'k) transaction \<times> 'a storage_result) option" where
  "read_only f tx = map_option (Pair tx) (f tx)"

definition commit_value :: "('e + 'a commit) \<Rightarrow> 'e + 'a" where
  "commit_value r = and_then r (\<lambda>c. Inr (cm_value c))"

definition db_read :: "ext \<Rightarrow> 'f fjall \<Rightarrow> ('k, 't) redb \<Rightarrow> ('f, 'k) database \<Rightarrow> table \<Rightarrow> bytes \<Rightarrow> nat \<Rightarrow> bytes option storage_result option" where
  "db_read X F R db table key max_len = map_option (\<lambda>(_, r). commit_value r)
     (db_transaction X F R id db (read_only (\<lambda>tx. tx_get F R tx table key max_len)))"

definition db_scan :: "ext \<Rightarrow> 'f fjall \<Rightarrow> ('k, 't) redb \<Rightarrow> ('f, 'k) database \<Rightarrow> table \<Rightarrow> bytes option \<Rightarrow> bytes \<Rightarrow> byte_limits \<Rightarrow> raw_entry list storage_result option" where
  "db_scan X F R db table after prefix limits = map_option (\<lambda>(_, r). commit_value r)
     (db_transaction X F R id db (read_only (\<lambda>tx. tx_scan F R tx table after prefix limits)))"

definition marker_opt :: "bytes option \<Rightarrow> particle option storage_result" where
  "marker_opt v = (case v of None \<Rightarrow> Inr None | Some bs \<Rightarrow> and_then (decode_marker bs) (\<lambda>i. Inr (Some i)))"

definition db_last_transaction :: "ext \<Rightarrow> 'f fjall \<Rightarrow> ('k, 't) redb \<Rightarrow> ('f, 'k) database \<Rightarrow> particle option storage_result option" where
  "db_last_transaction X F R db = map_option (\<lambda>r. and_then r marker_opt) (db_read X F R db Metadata last_transaction_key 32)"

section \<open>Reader generations\<close>

datatype reader_generation = Original | NeuronV1 | AuthenticatedV1

primrec generation_rank :: "reader_generation \<Rightarrow> nat" where
  "generation_rank Original = 0" | "generation_rank NeuronV1 = 1" | "generation_rank AuthenticatedV1 = 2"

definition gen_decode :: "bytes option \<Rightarrow> reader_generation storage_result" where
  "gen_decode status =
     (if status = None \<or> status = Some (map of_char ''complete'') then Inr Original
      else if status = Some (map of_char ''neuron-v1'') then Inr NeuronV1
      else if status = Some (map of_char ''auth-v1'') then Inr AuthenticatedV1
      else Inl (Corrupt ''unsupported reader generation or incomplete migration''))"

definition status_key :: bytes where "status_key = map of_char ''status''"

definition gen_promote :: "'f fjall \<Rightarrow> ('k, 't) redb \<Rightarrow> reader_generation \<Rightarrow> ('f, 'k) transaction \<Rightarrow>
    (('f, 'k) transaction \<times> reader_generation storage_result) option" where
  "gen_promote F R required tx = do {
     r \<leftarrow> tx_get F R tx Migration status_key 16;
     case and_then r gen_decode of
       Inl e \<Rightarrow> Some (tx, Inl e)
     | Inr current \<Rightarrow>
         if generation_rank required \<le> generation_rank current then Some (tx, Inr current)
         else (case (case required of Original \<Rightarrow> None | NeuronV1 \<Rightarrow> Some (map of_char ''neuron-v1'')
             | AuthenticatedV1 \<Rightarrow> Some (map of_char ''auth-v1'')) of
           None \<Rightarrow> Some (tx, Inr current)
         | Some marker \<Rightarrow> do {
             (tx, r) \<leftarrow> tx_put tx Migration status_key marker;
             Some (tx, and_then r (\<lambda>_. Inr required)) }) }"

definition db_reader_generation :: "ext \<Rightarrow> 'f fjall \<Rightarrow> ('k, 't) redb \<Rightarrow> ('f, 'k) database \<Rightarrow> reader_generation storage_result option" where
  "db_reader_generation X F R db = map_option (\<lambda>r. and_then r gen_decode) (db_read X F R db Migration status_key 16)"

definition db_require_reader_generation :: "ext \<Rightarrow> 'f fjall \<Rightarrow> ('k, 't) redb \<Rightarrow> ('f, 'k) database \<Rightarrow> reader_generation \<Rightarrow>
    (('f, 'k) database \<times> reader_generation storage_result) option" where
  "db_require_reader_generation X F R db required = map_option (apsnd commit_value) (db_transaction X F R id db (gen_promote F R required))"

text \<open>\<open>validate_open\<close>, with the outcome of the check for the migration guard file.\<close>

definition validate_open :: "ext \<Rightarrow> 'f fjall \<Rightarrow> ('k, 't) redb \<Rightarrow> bool storage_result \<Rightarrow> ('f, 'k) database \<Rightarrow> ('f, 'k) database storage_result option" where
  "validate_open X F R guard db =
     (case and_then guard (\<lambda>there. if there then Inl (Corrupt ''incomplete application migration'') else Inr ()) of
        Inl e \<Rightarrow> Some (Inl e)
      | Inr _ \<Rightarrow> do {
          g \<leftarrow> db_reader_generation X F R db;
          case g of Inl e \<Rightarrow> Some (Inl e) | Inr _ \<Rightarrow> do {
            t \<leftarrow> db_last_transaction X F R db;
            case t of Inl e \<Rightarrow> Some (Inl e) | Inr _ \<Rightarrow> do {
              c \<leftarrow> db_read X F R db Metadata last_commit_key 32;
              Some (and_then (and_then c marker_opt) (\<lambda>_. Inr db)) } } })"

section \<open>Native records\<close>

record record_limits =
  rl_max_entries :: nat
  rl_max_bytes :: nat

definition record_byte_limits :: "record_limits \<Rightarrow> byte_limits" where
  "record_byte_limits l = \<lparr>bl_max_entries = rl_max_entries l, bl_max_bytes = rl_max_bytes l\<rparr>"

definition db_read_record :: "ext \<Rightarrow> 'f fjall \<Rightarrow> ('k, 't) redb \<Rightarrow> ('f, 'k) database \<Rightarrow> record_domain \<Rightarrow> bytes \<Rightarrow> nat \<Rightarrow> bytes option storage_result option" where
  "db_read_record X F R db rd key max_len = db_read X F R db (Native rd) key max_len"

definition db_scan_records :: "ext \<Rightarrow> 'f fjall \<Rightarrow> ('k, 't) redb \<Rightarrow> ('f, 'k) database \<Rightarrow> record_domain \<Rightarrow> bytes option \<Rightarrow> bytes \<Rightarrow> record_limits \<Rightarrow>
    raw_entry list storage_result option" where
  "db_scan_records X F R db rd after prefix limits = db_scan X F R db (Native rd) after prefix (record_byte_limits limits)"

definition tx_read_record :: "'f fjall \<Rightarrow> ('k, 't) redb \<Rightarrow> ('f, 'k) transaction \<Rightarrow> record_domain \<Rightarrow> bytes \<Rightarrow> nat \<Rightarrow> bytes option storage_result option" where
  "tx_read_record F R tx rd key max_len = tx_get F R tx (Native rd) key max_len"

definition tx_put_record :: "('f, 'k) transaction \<Rightarrow> record_domain \<Rightarrow> bytes \<Rightarrow> bytes \<Rightarrow> (('f, 'k) transaction \<times> unit storage_result) option" where
  "tx_put_record tx rd key value = tx_put tx (Native rd) key value"

definition tx_remove_record :: "('f, 'k) transaction \<Rightarrow> record_domain \<Rightarrow> bytes \<Rightarrow> (('f, 'k) transaction \<times> unit storage_result) option" where
  "tx_remove_record tx rd key = tx_remove tx (Native rd) key"

definition tx_scan_records :: "'f fjall \<Rightarrow> ('k, 't) redb \<Rightarrow> ('f, 'k) transaction \<Rightarrow> record_domain \<Rightarrow> bytes option \<Rightarrow> bytes \<Rightarrow> record_limits \<Rightarrow>
    raw_entry list storage_result option" where
  "tx_scan_records F R tx rd after prefix limits = tx_scan F R tx (Native rd) after prefix (record_byte_limits limits)"

section \<open>The budget of a transaction\<close>

definition changes_bytes :: "changes \<Rightarrow> nat" where
  "changes_bytes c = (\<Sum>a \<in> fset (fmdom c). length (snd a) + opt_len (the (fmlookup c a)))"

lemma changes_bytes_upd:
  "changes_bytes (fmupd a v c) + (case fmlookup c a of None \<Rightarrow> 0 | Some w \<Rightarrow> length (snd a) + opt_len w) = changes_bytes c + length (snd a) + opt_len v"
proof -
  let ?D = "fset (fmdom c) - {a}" and ?w = "\<lambda>c b. length (snd b) + opt_len (the (fmlookup c b))"
  have rest: "sum (?w (fmupd a v c)) ?D = sum (?w c) ?D" by (rule sum.cong) auto
  have "changes_bytes (fmupd a v c) = length (snd a) + opt_len v + sum (?w c) ?D"
    using rest by (simp add: changes_bytes_def sum.insert_remove)
  moreover have "changes_bytes c = (case fmlookup c a of None \<Rightarrow> 0 | Some w \<Rightarrow> length (snd a) + opt_len w) + sum (?w c) ?D"
  proof (cases "fmlookup c a")
    case None
    then have "a \<notin> fset (fmdom c)" by (simp add: fmlookup_dom_iff)
    then show ?thesis using None by (simp add: changes_bytes_def)
  next
    case (Some w)
    then have "a \<in> fset (fmdom c)" by (simp add: fmlookup_dom_iff)
    then show ?thesis using Some by (simp add: changes_bytes_def sum.remove)
  qed
  ultimately show ?thesis by simp
qed

lemma fcard_fmdom_upd: "fcard (fmdom (fmupd a v c)) = (if fmlookup c a = None then Suc (fcard (fmdom c)) else fcard (fmdom c))"
proof (cases "fmlookup c a")
  case None
  then have "a |\<notin>| fmdom c" by (simp add: fmlookup_dom_iff)
  then show ?thesis using None by (simp add: fcard_finsert_if)
next
  case (Some w)
  then have "a |\<in>| fmdom c" by (simp add: fmlookup_dom_iff)
  then show ?thesis using Some by (simp add: fcard_finsert_if)
qed

definition tx_ok :: "('f, 'k) transaction \<Rightarrow> bool" where
  "tx_ok tx \<longleftrightarrow> tx_bytes tx = changes_bytes (tx_changes tx) \<and> tx_bytes tx \<le> MAX_TRANSACTION_BYTES - 91 \<and>
     fcard (fmdom (tx_changes tx)) \<le> MAX_TRANSACTION_KEYS - 2 \<and>
     (\<forall>t k v. fmlookup (tx_changes tx) (t, k) = Some v \<longrightarrow> length k \<le> 64 \<and> opt_len v \<le> MAX_BYTES_VALUE)"

lemma tx_ok_new [simp]: "tx_ok (tx_new e)" "tx_changes (tx_new e) = fmempty" "tx_engine (tx_new e) = e"
  by (simp_all add: tx_ok_def tx_new_def changes_bytes_def fcard.rep_eq)

lemma tx_stage_ok:
  assumes ok: "tx_ok tx"
  shows "\<exists>tx' r. tx_stage tx t k v = Some (tx', r) \<and> tx_ok tx' \<and> tx_engine tx' = tx_engine tx \<and>
    (case r of Inl e \<Rightarrow> tx' = tx \<and> (\<exists>m. e = Limit m) | Inr _ \<Rightarrow> tx_changes tx' = fmupd (t, k) v (tx_changes tx))"
proof -
  let ?old = "case fmlookup (tx_changes tx) (t, k) of None \<Rightarrow> 0 | Some v \<Rightarrow> length k + opt_len v"
  let ?n = "tx_bytes tx - ?old + length k + opt_len v"
  consider (size) "64 < length k \<or> MAX_BYTES_VALUE < opt_len v"
    | (count) "\<not> (64 < length k \<or> MAX_BYTES_VALUE < opt_len v)"
        "fmlookup (tx_changes tx) (t, k) = None \<and> MAX_TRANSACTION_KEYS - 2 \<le> fcard (fmdom (tx_changes tx))"
    | (fits) "\<not> (64 < length k \<or> MAX_BYTES_VALUE < opt_len v)"
        "\<not> (fmlookup (tx_changes tx) (t, k) = None \<and> MAX_TRANSACTION_KEYS - 2 \<le> fcard (fmdom (tx_changes tx)))" by blast
  then show ?thesis
  proof cases
    case size
    then show ?thesis using ok by (simp add: tx_stage_def)
  next
    case count
    then show ?thesis using ok by (simp add: tx_stage_def Let_def)
  next
    case fits
    have upd: "changes_bytes (fmupd (t, k) v (tx_changes tx)) + ?old = tx_bytes tx + length k + opt_len v"
      using changes_bytes_upd [of "(t, k)" v "tx_changes tx"] ok unfolding tx_ok_def snd_conv by simp
    have old: "?old \<le> tx_bytes tx"
    proof (cases "fmlookup (tx_changes tx) (t, k)")
      case (Some w)
      then have "(t, k) \<in> fset (fmdom (tx_changes tx))" by (simp add: fmlookup_dom_iff)
      from member_le_sum [OF this, of "\<lambda>a. length (snd a) + opt_len (the (fmlookup (tx_changes tx) a))"] show ?thesis
        using ok Some by (simp add: tx_ok_def changes_bytes_def)
    qed simp
    let ?tx = "tx\<lparr>tx_changes := fmupd (t, k) v (tx_changes tx), tx_bytes := ?n\<rparr>"
    show ?thesis
    proof (cases "MAX_TRANSACTION_BYTES - 91 < ?n")
      case True
      then show ?thesis using fits old ok by (simp add: tx_stage_def Let_def)
    next
      case False
      have "fcard (fmdom (fmupd (t, k) v (tx_changes tx))) \<le> MAX_TRANSACTION_KEYS - 2"
        using ok fits(2) by (auto simp: tx_ok_def fcard_fmdom_upd simp del: fmdom_fmupd)
      then have "tx_ok ?tx" using ok fits(1) False upd old by (auto simp: tx_ok_def split: if_splits)
      moreover have "tx_stage tx t k v = Some (?tx, Inr ())" using fits old False by (auto simp: tx_stage_def Let_def)
      ultimately show ?thesis by simp
    qed
  qed
qed

text \<open>The two markers fit in the room every transaction leaves for them.\<close>

lemma with_markers_lookup:
  "fmlookup (with_markers i c) a = (if a = (Metadata, last_transaction_key) then Some (Some (be_bytes 32 i))
     else if a = (Metadata, last_commit_key) \<and> (\<exists>d k. fmlookup c (Shard d, k) \<noteq> None) then Some (Some (be_bytes 32 i)) else fmlookup c a)"
proof -
  have "fBex (fmdom c) (\<lambda>(t, _). case t of Shard _ \<Rightarrow> True | _ \<Rightarrow> False) \<longleftrightarrow> (\<exists>d k. fmlookup c (Shard d, k) \<noteq> None)"
    by (force simp: fmlookup_dom_iff split: table.splits)
  moreover have "last_commit_key \<noteq> last_transaction_key" by (simp add: last_commit_key_def last_transaction_key_def)
  ultimately show ?thesis by (auto simp: with_markers_def)
qed

lemma marker_lengths [simp]: "length last_commit_key = 11" "length last_transaction_key = 16"
  by (simp_all add: last_commit_key_def last_transaction_key_def)

lemma with_markers_budget:
  assumes "tx_ok tx"
  shows "changes_bytes (with_markers i (tx_changes tx)) \<le> MAX_TRANSACTION_BYTES" "fcard (fmdom (with_markers i (tx_changes tx))) \<le> MAX_TRANSACTION_KEYS"
proof -
  have len: "changes_bytes (fmupd (t, k) (Some (be_bytes 32 i)) c) \<le> changes_bytes c + length k + 32" for t k c
    using changes_bytes_upd [of "(t, k)" "Some (be_bytes 32 i)" c] by (simp add: opt_len_def)
  have count: "fcard (fmdom (fmupd a (Some v) c)) \<le> Suc (fcard (fmdom c))" for a :: address and v and c :: changes by (simp add: fcard_fmdom_upd del: fmdom_fmupd)
  define c where "c = (if fBex (fmdom (tx_changes tx)) (\<lambda>(t, _). case t of Shard _ \<Rightarrow> True | _ \<Rightarrow> False)
    then fmupd (Metadata, last_commit_key) (Some (be_bytes 32 i)) (tx_changes tx) else tx_changes tx)"
  have c: "changes_bytes c \<le> changes_bytes (tx_changes tx) + 43" "fcard (fmdom c) \<le> Suc (fcard (fmdom (tx_changes tx)))"
    using len [of Metadata last_commit_key "tx_changes tx"] count [of "(Metadata, last_commit_key)" "be_bytes 32 i" "tx_changes tx"]
    by (simp_all add: c_def del: fmdom_fmupd)
  have m: "with_markers i (tx_changes tx) = fmupd (Metadata, last_transaction_key) (Some (be_bytes 32 i)) c"
    unfolding with_markers_def c_def ..
  show "changes_bytes (with_markers i (tx_changes tx)) \<le> MAX_TRANSACTION_BYTES"
    using assms c(1) len [of Metadata last_transaction_key c] unfolding m by (simp add: tx_ok_def MAX_TRANSACTION_BYTES_def)
  show "fcard (fmdom (with_markers i (tx_changes tx))) \<le> MAX_TRANSACTION_KEYS"
    using assms c(2) count [of "(Metadata, last_transaction_key)" "be_bytes 32 i" c] unfolding m
    by (simp add: tx_ok_def MAX_TRANSACTION_KEYS_def del: fmdom_fmupd)
qed

section \<open>Atomicity\<close>

lemma those_total: "(\<forall>x \<in> set xs. f x \<noteq> None) \<Longrightarrow> those (map f xs) \<noteq> None"
  by (induction xs) auto

lemma db_change_id_total: "changes_named c \<Longrightarrow> \<exists>i. db_change_id X c = Some i"
proof -
  assume named: "changes_named c"
  have "\<forall>x \<in> set (sort_key row_order (sorted_list_of_fmap c)). change_row x \<noteq> None"
    using named by (force simp: set_sorted_list_of_fmap changes_named_def change_row_def)
  from those_total [OF this] show ?thesis by (auto simp: db_change_id_def)
qed

lemma changes_named_markers: "changes_named c \<Longrightarrow> changes_named (with_markers i c)"
  unfolding changes_named_def with_markers_lookup by auto

definition database_ok :: "('f, 'k) database \<Rightarrow> bool" where
  "database_ok db \<longleftrightarrow> engine_ok (db_engine db) \<and> (db_poisoned db \<longleftrightarrow> db_failure db \<noteq> None) \<and> (\<forall>e. db_failure db = Some e \<longrightarrow> is_unknown e)"

definition db_table :: "('f \<Rightarrow> contents) \<Rightarrow> ('k \<Rightarrow> contents) \<Rightarrow> ('f, 'k) database \<Rightarrow> table \<Rightarrow> (bytes, bytes) fmap" where
  "db_table CF CK db = engine_table CF CK (db_engine db)"

text \<open>Reading: a row, and a page of rows.\<close>

lemma db_read_ok:
  assumes laws: "engine_laws F CF R CK V" and ok: "database_ok db" and t: "table_name t \<noteq> None"
  shows "\<exists>r. db_read X F R db t key m = Some r \<and> (\<forall>v. r = Inr v \<longrightarrow> v = fmlookup (db_table CF CK db t) key)"
proof (cases "db_failure db")
  case (Some e)
  then show ?thesis by (simp add: db_read_def db_transaction_def commit_value_def)
next
  case None
  have e: "engine_ok (db_engine db)" using ok by (simp add: database_ok_def)
  obtain g where g: "engine_get F R (db_engine db) t key m = Some g" "\<forall>v. g = Inr v \<longrightarrow> v = fmlookup (db_table CF CK db t) key"
    using engine_get_ok [OF laws e t, of key m] by (auto simp: db_table_def)
  define r where "r = (if 64 < length key \<or> MAX_BYTES_VALUE < m then Inl (Limit ''byte read budget'') else g)"
  have "tx_get F R (tx_new (db_engine db)) t key m = Some r" "\<forall>v. r = Inr v \<longrightarrow> v = fmlookup (db_table CF CK db t) key"
    using g by (simp_all add: tx_get_def tx_new_def r_def)
  then show ?thesis using None by (cases r) (auto simp: db_read_def db_transaction_def read_only_def commit_value_def)
qed

lemma db_scan_ok:
  assumes laws: "engine_laws F CF R CK V" and ok: "database_ok db" and t: "table_name t \<noteq> None"
  shows "\<exists>r. db_scan X F R db t after prefix limits = Some r \<and>
    (\<forall>page. r = Inr page \<longrightarrow> 0 < bl_max_entries limits \<and> page_of (rows_after (db_table CF CK db t) after prefix) limits page)"
proof (cases "db_failure db")
  case (Some e)
  then show ?thesis by (simp add: db_scan_def db_transaction_def commit_value_def)
next
  case None
  have e: "engine_ok (db_engine db)" using ok by (simp add: database_ok_def)
  obtain r where r: "engine_scan F R (db_engine db) t after prefix limits = Some r"
    "\<forall>page. r = Inr page \<longrightarrow> page_of (rows_after (engine_table CF CK (db_engine db) t) after prefix) limits page"
    using engine_scan_ok [OF laws e t] by blast
  define q where "q = (case byte_validate limits of Inl e \<Rightarrow> Inl e | Inr _ \<Rightarrow>
    if (case after of None \<Rightarrow> False | Some a \<Rightarrow> 64 < length a) \<or> 64 < length prefix then Inl (Limit ''scan key'') else r)"
  have "tx_scan F R (tx_new (db_engine db)) t after prefix limits = Some q" using r(1) by (simp add: tx_scan_def tx_new_def q_def split: sum.split)
  moreover have "0 < bl_max_entries limits \<and> page_of (rows_after (db_table CF CK db t) after prefix) limits page" if "q = Inr page" for page
  proof -
    have "0 < bl_max_entries limits" "r = Inr page" using that by (auto simp: q_def byte_validate_def split: if_splits)
    then show ?thesis using r(2) by (simp add: db_table_def)
  qed
  ultimately show ?thesis using None by (cases q) (auto simp: db_scan_def db_transaction_def read_only_def commit_value_def)
qed

text \<open>What a transaction may have done when it returns.\<close>

definition transacted :: "(table \<Rightarrow> (bytes, bytes) fmap) \<Rightarrow> (storage_error \<Rightarrow> 'e) \<Rightarrow> changes \<Rightarrow> ('e + 'a) \<Rightarrow> ('e + 'a commit) \<Rightarrow>
    (table \<Rightarrow> (bytes, bytes) fmap) \<Rightarrow> storage_error option \<Rightarrow> bool" where
  "transacted c from_err changes r out c' failure \<longleftrightarrow>
     (case r of
        Inl e \<Rightarrow> out = Inl e \<and> c' = c \<and> failure = None
      | Inr v \<Rightarrow>
          if changes = fmempty then out = Inr \<lparr>cm_value = v, cm_change_id = None\<rparr> \<and> c' = c \<and> failure = None
          else (\<exists>i. out = Inr \<lparr>cm_value = v, cm_change_id = Some i\<rparr> \<and> changed_to c (with_markers i changes) c' \<and> failure = None) \<or>
            (\<exists>m. out = Inl (from_err (Io m)) \<and> c' = c \<and> failure = None) \<or>
            (\<exists>i m. out = Inl (from_err (CommitUnknown i m)) \<and> failure = Some (CommitUnknown i m) \<and>
               (c' = c \<or> changed_to c (with_markers i changes) c')))"

lemma db_transaction_commit:
  assumes "db_failure db = None" and "execute (tx_new (db_engine db)) = Some (tx, Inr v)" and "fmdom (tx_changes tx) \<noteq> {||}"
    and "db_change_id X (tx_changes tx) = Some i" and "engine_commit F R (db_engine db) (with_markers i (tx_changes tx)) i = Some (e', out)"
  shows "db_transaction X F R from_err db execute = Some (case out of
      Inl e \<Rightarrow> (if is_unknown e then db\<lparr>db_engine := e', db_failure := Some e, db_poisoned := True\<rparr> else db\<lparr>db_engine := e'\<rparr>, Inl (from_err e))
    | Inr _ \<Rightarrow> (db\<lparr>db_engine := e'\<rparr>, Inr \<lparr>cm_value = v, cm_change_id = Some i\<rparr>))"
  using assms by (simp add: db_transaction_def Let_def)

lemma db_transaction_ok:
  assumes laws: "engine_laws F CF R CK V" and ok: "database_ok db" "db_failure db = None"
    and ex: "execute (tx_new (db_engine db)) = Some (tx, r)" and named: "changes_named (tx_changes tx)"
  shows "\<exists>db' out. db_transaction X F R from_err db execute = Some (db', out) \<and> database_ok db' \<and>
    transacted (db_table CF CK db) from_err (tx_changes tx) r out (db_table CF CK db') (db_failure db')"
proof (cases r)
  case (Inl e)
  then show ?thesis using ok ex by (simp add: db_transaction_def transacted_def)
next
  case (Inr v)
  show ?thesis
  proof (cases "tx_changes tx = fmempty")
    case True
    then show ?thesis using Inr ok ex by (simp add: db_transaction_def transacted_def)
  next
    case False
    then have dom: "fmdom (tx_changes tx) \<noteq> {||}" by (metis fmrestrict_fset_dom fmrestrict_fset_null)
    obtain i where i: "db_change_id X (tx_changes tx) = Some i" using db_change_id_total [OF named] by blast
    obtain e' out where c: "engine_commit F R (db_engine db) (with_markers i (tx_changes tx)) i = Some (e', out)" "engine_ok e'"
        "commit_outcome (db_table CF CK db) (with_markers i (tx_changes tx)) i out (engine_table CF CK e')"
      using engine_commit_ok [OF laws _ changes_named_markers [OF named]] ok(1) unfolding database_ok_def db_table_def by blast
    note db_transaction_commit [where execute = execute and from_err = from_err, OF ok(2) ex [unfolded Inr] dom i c(1)]
    then show ?thesis
      using c(2,3) ok Inr False
      by (cases out) (auto simp: transacted_def commit_outcome_def database_ok_def db_table_def is_unknown_def)
  qed
qed

section \<open>Properties\<close>

fun stage_run :: "('f, 'k) transaction \<Rightarrow> (address \<times> bytes option) list \<Rightarrow> (('f, 'k) transaction \<times> unit storage_result list) option" where
  "stage_run tx [] = Some (tx, [])"
| "stage_run tx (((t, k), v) # ops) = do {
     (tx, r) \<leftarrow> tx_stage tx t k v;
     (tx, rs) \<leftarrow> stage_run tx ops;
     Some (tx, r # rs) }"

definition accepted :: "(address \<times> bytes option) list \<Rightarrow> unit storage_result list \<Rightarrow> (address \<times> bytes option) list" where
  "accepted ops rs = map fst (filter (\<lambda>(_, r). r = Inr ()) (zip ops rs))"

lemma stage_run_ok:
  "tx_ok tx \<Longrightarrow> \<exists>tx' rs. stage_run tx ops = Some (tx', rs) \<and> length rs = length ops \<and> tx_ok tx' \<and> tx_engine tx' = tx_engine tx \<and>
    (\<forall>a. fmlookup (tx_changes tx') a = (case map_of (rev (accepted ops rs)) a of None \<Rightarrow> fmlookup (tx_changes tx) a | Some v \<Rightarrow> Some v))"
proof (induction ops arbitrary: tx)
  case (Cons op ops)
  obtain t k v where op: "op = ((t, k), v)" by (cases op) auto
  obtain tx1 r where 1: "tx_stage tx t k v = Some (tx1, r)" "tx_ok tx1" "tx_engine tx1 = tx_engine tx"
      "case r of Inl e \<Rightarrow> tx1 = tx \<and> (\<exists>m. e = Limit m) | Inr _ \<Rightarrow> tx_changes tx1 = fmupd (t, k) v (tx_changes tx)"
    using tx_stage_ok [OF Cons.prems] by blast
  from Cons.IH [OF 1(2)] obtain tx2 rs where 2: "stage_run tx1 ops = Some (tx2, rs)" "length rs = length ops" "tx_ok tx2" "tx_engine tx2 = tx_engine tx1"
      "\<forall>a. fmlookup (tx_changes tx2) a = (case map_of (rev (accepted ops rs)) a of None \<Rightarrow> fmlookup (tx_changes tx1) a | Some v \<Rightarrow> Some v)" by blast
  have "fmlookup (tx_changes tx2) a = (case map_of (rev (accepted (op # ops) (r # rs))) a of None \<Rightarrow> fmlookup (tx_changes tx) a | Some v \<Rightarrow> Some v)" for a
    using 1(4) 2(5) [rule_format, of a] by (cases r; cases "map_of (rev (accepted ops rs)) a") (auto simp: accepted_def op map_add_def)
  then show ?case using 1 2 by (simp add: op)
qed (simp add: accepted_def)

text \<open>C31: The budget of a transaction. Whatever is staged, no staging panics (the byte count never underflows); a refused record leaves
  the transaction as it was and the changes are exactly the accepted records, the last one of an address winning; and the batch
  handed to the engine, the automatic markers included, is within the limits on the bytes and the keys of a transaction.\<close>

theorem transaction_budget:
  "\<exists>tx rs. stage_run (tx_new e) ops = Some (tx, rs) \<and> length rs = length ops \<and>
     (\<forall>a. fmlookup (tx_changes tx) a = map_of (rev (accepted ops rs)) a) \<and>
     changes_bytes (with_markers i (tx_changes tx)) \<le> MAX_TRANSACTION_BYTES \<and> fcard (fmdom (with_markers i (tx_changes tx))) \<le> MAX_TRANSACTION_KEYS"
proof -
  obtain tx rs where tx: "stage_run (tx_new e) ops = Some (tx, rs)" "length rs = length ops" "tx_ok tx"
      "\<forall>a. fmlookup (tx_changes tx) a = (case map_of (rev (accepted ops rs)) a of None \<Rightarrow> fmlookup fmempty a | Some v \<Rightarrow> Some v)"
    using stage_run_ok [OF tx_ok_new(1), of e ops] unfolding tx_ok_new(2) by blast
  have "\<forall>a. fmlookup (tx_changes tx) a = map_of (rev (accepted ops rs)) a" using tx(4) by (simp split: option.splits)
  then show ?thesis using tx(1,2) with_markers_budget [OF tx(3)] by blast
qed

text \<open>C30: Atomicity of a transaction, given what the database crates document. Whatever the closure does,
  the transaction returns. If the closure fails, or stages nothing, the tables are as they were. Otherwise either every staged change and the
  markers have been applied, the identity of the batch being returned and recorded; or the engine refused and
  the tables are as they were; or the outcome is unknown, all or none of the changes applied, and then the error is retained: every later transaction
  on this owner is refused with it, whatever its closure, and changes nothing.\<close>

theorem transaction_atomic:
  assumes "engine_laws F CF R CK V" and "database_ok db" and "db_failure db = None"
    and "execute (tx_new (db_engine db)) = Some (tx, r)" and "changes_named (tx_changes tx)"
  shows "\<exists>db' out. db_transaction X F R from_err db execute = Some (db', out) \<and>
    transacted (db_table CF CK db) from_err (tx_changes tx) r out (db_table CF CK db') (db_failure db') \<and>
    (\<forall>err later. db_failure db' = Some err \<longrightarrow> db_is_poisoned db' \<and> db_transaction X F R from_err db' later = Some (db', Inl (from_err err)))"
proof -
  obtain db' out where d: "db_transaction X F R from_err db execute = Some (db', out)" "database_ok db'"
      "transacted (db_table CF CK db) from_err (tx_changes tx) r out (db_table CF CK db') (db_failure db')"
    using db_transaction_ok [where from_err = from_err and execute = execute, OF assms] by blast
  moreover have "db_is_poisoned db' \<and> db_transaction X F R from_err db' later = Some (db', Inl (from_err err))" if "db_failure db' = Some err" for err later
    using that d(2) by (simp add: db_transaction_def database_ok_def db_is_poisoned_def)
  ultimately show ?thesis by blast
qed

lemma sample_stage: "\<forall>e \<in> set es. table_name (fst (fst e)) \<noteq> None \<Longrightarrow> \<exists>t'. redb_stage sample_redb t cur es = Some (Inr t')"
proof (induction es arbitrary: t cur)
  case (Cons e es)
  obtain tb k v where e: "e = ((tb, k), v)" by (cases e) auto
  obtain n where "table_name tb = Some n" using Cons.prems by (auto simp: e)
  then show ?case using Cons by (cases v) (auto simp: e sample_redb_def io_result_def)
qed simp

lemma sample_commit:
  assumes "changes_named c"
  shows "\<exists>k'. engine_commit F sample_redb (Redb k) c i = Some (Redb k', Inr ())"
proof -
  have "\<forall>x \<in> set (sorted_list_of_fmap c). table_name (fst (fst x)) \<noteq> None"
    using assms by (force simp: set_sorted_list_of_fmap changes_named_def)
  from sample_stage [OF this, of k None] obtain t where "redb_stage sample_redb k None (sorted_list_of_fmap c) = Some (Inr t)" by blast
  then show ?thesis by (auto simp: engine_commit_def redb_commit_def io_result_def sample_redb_def)
qed

theorem transaction_atomic_witness:
  "\<exists>db' i. db_transaction sample_ext sample_fjall sample_redb id (db_from_engine (Redb (\<lambda>_. fmempty)))
       (\<lambda>tx. map_option (apsnd (\<lambda>_. Inr True)) (tx_put tx Content [1] [2, 3])) = Some (db', Inr \<lparr>cm_value = True, cm_change_id = Some i\<rparr>) \<and>
     fmlookup (db_table id id db' Content) [1] = Some [2, 3] \<and> fmlookup (db_table id id db' Metadata) last_transaction_key = Some (be_bytes 32 i)"
proof -
  let ?db = "db_from_engine (Redb (\<lambda>_. fmempty)) :: (contents, contents) database"
  let ?ex = "\<lambda>tx. map_option (apsnd (\<lambda>_. Inr True)) (tx_put tx Content [1] [2, 3])"
  let ?tx = "(tx_new (db_engine ?db))\<lparr>tx_changes := fmupd (Content, [1]) (Some [2, 3]) fmempty, tx_bytes := 3\<rparr>"
  have ex: "?ex (tx_new (db_engine ?db)) = Some (?tx, Inr True)"
    by (simp add: tx_put_def tx_stage_def tx_new_def opt_len_def MAX_BYTES_VALUE_def MAX_TRANSACTION_KEYS_def MAX_TRANSACTION_BYTES_def fcard.rep_eq)
  have ok: "database_ok ?db" "db_failure ?db = None" by (simp_all add: db_from_engine_def database_ok_def engine_ok_def)
  have named: "changes_named (tx_changes ?tx)" by (simp add: changes_named_def)
  obtain db' out where d: "db_transaction sample_ext sample_fjall sample_redb id ?db ?ex = Some (db', out)"
      "transacted (db_table id id ?db) id (tx_changes ?tx) (Inr True) out (db_table id id db') (db_failure db')"
    using transaction_atomic [where execute = ?ex and from_err = id and X = sample_ext, OF engine_laws_sample ok ex named] by blast
  obtain i where i: "db_change_id sample_ext (tx_changes ?tx) = Some i" using db_change_id_total [OF named] by blast
  have dom: "fmdom (tx_changes ?tx) \<noteq> {||}" by simp
  obtain k where k: "engine_commit sample_fjall sample_redb (db_engine ?db) (with_markers i (tx_changes ?tx)) i = Some (Redb k, Inr ())"
    using sample_commit [OF changes_named_markers [OF named], of sample_fjall "\<lambda>_. fmempty" i i] by (auto simp: db_from_engine_def)
  have out: "out = Inr \<lparr>cm_value = True, cm_change_id = Some i\<rparr>"
    using d(1) db_transaction_commit [where execute = ?ex and from_err = id, OF ok(2) ex dom i k] by simp
  have "changed_to (db_table id id ?db) (with_markers i (tx_changes ?tx)) (db_table id id db')"
    using d(2) dom unfolding transacted_def out by (auto split: if_splits)
  then have "fmlookup (db_table id id db' Content) [1] = Some [2, 3] \<and> fmlookup (db_table id id db' Metadata) last_transaction_key = Some (be_bytes 32 i)"
    unfolding changed_to_def with_markers_lookup by (simp add: last_transaction_key_def)
  then show ?thesis using d(1) out by blast
qed

end
