(* ===== verification/Bbg_Disk.thy ===== *)
theory Bbg_Disk
  imports Bbg_Database Bbg_Byte_Order
begin

text \<open>
  The shard view over the transaction owner (\<open>storage/disk.rs\<close>), the interface \<open>ShardStore\<close> (\<open>storage/mod.rs\<close>) as a record of operations and
  its contract as a locale, which the in-memory store and the disk store satisfy. A disk store is modelled with the database it
  shares, as its only user.
\<close>

section \<open>The disk store\<close>

record ('f, 'k) disk_store =
  ds_db :: "('f, 'k) database"
  ds_pending :: write_buffer

definition disk_new :: "('f, 'k) database \<Rightarrow> ('f, 'k) disk_store" where
  "disk_new db = \<lparr>ds_db = db, ds_pending = wb_new\<rparr>"

definition disk_ready :: "('f, 'k) disk_store \<Rightarrow> unit storage_result" where
  "disk_ready s = and_then (wb_ready (ds_pending s)) (\<lambda>_. db_ready (ds_db s))"

definition disk_load :: "ext \<Rightarrow> 'f fjall \<Rightarrow> ('k, 't) redb \<Rightarrow> ('f, 'k) disk_store \<Rightarrow> u8 \<Rightarrow> particle \<Rightarrow> nat \<Rightarrow> field_values option storage_result option" where
  "disk_load X F R s dimension key limit =
     (case and_then (disk_ready s) (\<lambda>_. and_then (check_dimension dimension) (\<lambda>_. check_read_limit limit)) of
        Inl e \<Rightarrow> Some (Inl e)
      | Inr _ \<Rightarrow>
          if dimension = EPHEMERAL then Some (Inr None)
          else do {
            r \<leftarrow> db_read X F R (ds_db s) (Shard dimension) (be_bytes 32 key) (limit * 8);
            Some (and_then r (decode_opt X limit)) })"

definition disk_is_poisoned :: "('f, 'k) disk_store \<Rightarrow> bool" where
  "disk_is_poisoned s \<longleftrightarrow> wb_unknown (ds_pending s) \<noteq> None \<or> db_is_poisoned (ds_db s)"

definition disk_get :: "('f, 'k) disk_store \<Rightarrow> u8 \<Rightarrow> particle \<Rightarrow> field_values option" where
  "disk_get s dimension key = (if disk_is_poisoned s then None else fmlookup (wb_cache (ds_pending s)) (dimension, key))"

definition disk_put :: "('f, 'k) disk_store \<Rightarrow> u8 \<Rightarrow> particle \<Rightarrow> field_values \<Rightarrow> (('f, 'k) disk_store \<times> unit storage_result) option" where
  "disk_put s dimension key value =
     (case disk_ready s of
        Inl e \<Rightarrow> Some (s, Inl e)
      | Inr _ \<Rightarrow> do {
          (b, r) \<leftarrow> wb_put (ds_pending s) dimension key value;
          Some (s\<lparr>ds_pending := b\<rparr>, r) })"

definition disk_has_pending :: "('f, 'k) disk_store \<Rightarrow> bool" where
  "disk_has_pending s \<longleftrightarrow> wb_dirty (ds_pending s) \<noteq> [] \<or> wb_deleted (ds_pending s) \<noteq> {||}"

definition disk_last_commit :: "ext \<Rightarrow> 'f fjall \<Rightarrow> ('k, 't) redb \<Rightarrow> ('f, 'k) disk_store \<Rightarrow> particle option storage_result option" where
  "disk_last_commit X F R s =
     (case disk_ready s of
        Inl e \<Rightarrow> Some (Inl e)
      | Inr _ \<Rightarrow> map_option (\<lambda>r. and_then r marker_opt) (db_read X F R (ds_db s) Metadata last_commit_key 32))"

fun stage_dirty :: "('f, 'k) transaction \<Rightarrow> (u8 \<times> particle \<times> field_values) list \<Rightarrow> (('f, 'k) transaction \<times> unit storage_result) option" where
  "stage_dirty tx [] = Some (tx, Inr ())"
| "stage_dirty tx ((d, k, v) # es) = do {
     (tx, r) \<leftarrow> tx_put_shard tx d k v;
     case r of Inl e \<Rightarrow> Some (tx, Inl e) | Inr _ \<Rightarrow> stage_dirty tx es }"

fun stage_deleted :: "('f, 'k) transaction \<Rightarrow> entry_key list \<Rightarrow> (('f, 'k) transaction \<times> unit storage_result) option" where
  "stage_deleted tx [] = Some (tx, Inr ())"
| "stage_deleted tx ((d, k) # es) = do {
     (tx, r) \<leftarrow> tx_remove tx (Shard d) (be_bytes 32 k);
     case r of Inl e \<Rightarrow> Some (tx, Inl e) | Inr _ \<Rightarrow> stage_deleted tx es }"

definition stage_pending :: "write_buffer \<Rightarrow> ('f, 'k) transaction \<Rightarrow> (('f, 'k) transaction \<times> unit storage_result) option" where
  "stage_pending b tx = do {
     (tx, r) \<leftarrow> stage_dirty tx (wb_dirty b);
     case r of Inl e \<Rightarrow> Some (tx, Inl e) | Inr _ \<Rightarrow> stage_deleted tx (sorted_list_of_fset (wb_deleted b)) }"

definition disk_commit :: "ext \<Rightarrow> 'f fjall \<Rightarrow> ('k, 't) redb \<Rightarrow> ('f, 'k) disk_store \<Rightarrow> (('f, 'k) disk_store \<times> particle storage_result) option" where
  "disk_commit X F R s =
     (case disk_ready s of
        Inl e \<Rightarrow> Some (s, Inl e)
      | Inr _ \<Rightarrow>
          if \<not> disk_has_pending s then do {
            r \<leftarrow> disk_last_commit X F R s;
            Some (s, and_then r (\<lambda>l. Inr (case l of None \<Rightarrow> wb_change_id X (ds_pending s) | Some i \<Rightarrow> i))) }
          else do {
            (db, r) \<leftarrow> db_transaction X F R id (ds_db s) (stage_pending (ds_pending s));
            let s = s\<lparr>ds_db := db\<rparr>;
            Some (case r of
              Inr c \<Rightarrow> (case cm_change_id c of
                None \<Rightarrow> (s, Inl (Corrupt ''missing shard commit identity''))
              | Some i \<Rightarrow> (s\<lparr>ds_pending := wb_finish (ds_pending s)\<rparr>, Inr i))
            | Inl e \<Rightarrow> (if is_unknown e then s\<lparr>ds_pending := (ds_pending s)\<lparr>wb_unknown := Some e\<rparr>\<rparr> else s, Inl e)) })"

definition disk_read :: "ext \<Rightarrow> 'f fjall \<Rightarrow> ('k, 't) redb \<Rightarrow> ('f, 'k) disk_store \<Rightarrow> u8 \<Rightarrow> particle \<Rightarrow> nat \<Rightarrow> field_values option storage_result option" where
  "disk_read X F R s dimension key max_elements =
     (case and_then (disk_ready s) (\<lambda>_. and_then (check_dimension dimension) (\<lambda>_. check_read_limit max_elements)) of
        Inl e \<Rightarrow> Some (Inl e)
      | Inr _ \<Rightarrow>
          if (dimension, key) |\<in>| wb_deleted (ds_pending s) then Some (Inr None)
          else case fmlookup (wb_cache (ds_pending s)) (dimension, key) of
            Some value \<Rightarrow> Some (and_then (copy_value value max_elements) (\<lambda>v. Inr (Some v)))
          | None \<Rightarrow> disk_load X F R s dimension key max_elements)"

definition decode_row :: "ext \<Rightarrow> nat \<Rightarrow> raw_entry \<Rightarrow> shard_entry storage_result" where
  "decode_row X max_elements row = (case row of (key, bs) \<Rightarrow>
     if length key \<noteq> 32 then Inl (Corrupt ''shard key length'')
     else and_then (deserialize_goldilocks X bs max_elements) (\<lambda>vs. Inr (of_be_bytes key, vs)))"

definition disk_scan :: "ext \<Rightarrow> 'f fjall \<Rightarrow> ('k, 't) redb \<Rightarrow> ('f, 'k) disk_store \<Rightarrow> u8 \<Rightarrow> particle option \<Rightarrow> scan_limits \<Rightarrow> shard_entry list storage_result option" where
  "disk_scan X F R s dimension after limits =
     (case and_then (disk_ready s) (\<lambda>_. and_then (check_dimension dimension) (\<lambda>_. and_then (scan_validate limits) (\<lambda>_. wb_clean (ds_pending s)))) of
        Inl e \<Rightarrow> Some (Inl e)
      | Inr _ \<Rightarrow>
          if dimension = EPHEMERAL then Some (scan_cache (wb_cache (ds_pending s)) dimension after limits)
          else do {
            rows \<leftarrow> db_scan X F R (ds_db s) (Shard dimension) (map_option (be_bytes 32) after) []
              \<lparr>bl_max_entries = sl_max_entries limits, bl_max_bytes = sl_max_elements limits * 8 + sl_max_entries limits * 32\<rparr>;
            Some (and_then rows (\<lambda>rows. collect_page (map (decode_row X (sl_max_elements limits)) rows) limits)) })"

definition disk_mark_dirty :: "('f, 'k) disk_store \<Rightarrow> u8 \<Rightarrow> particle \<Rightarrow> unit storage_result" where
  "disk_mark_dirty s dimension key = and_then (disk_ready s) (\<lambda>_. check_dimension dimension)"

definition disk_remove :: "ext \<Rightarrow> 'f fjall \<Rightarrow> ('k, 't) redb \<Rightarrow> ('f, 'k) disk_store \<Rightarrow> u8 \<Rightarrow> particle \<Rightarrow>
    (('f, 'k) disk_store \<times> field_values option storage_result) option" where
  "disk_remove X F R s dimension key = do {
     r \<leftarrow> disk_read X F R s dimension key MAX_VALUE_ELEMENTS;
     case r of
       Inl e \<Rightarrow> Some (s, Inl e)
     | Inr value \<Rightarrow> do {
         (b, r) \<leftarrow> wb_delete (ds_pending s) dimension key;
         Some (s\<lparr>ds_pending := b\<rparr>, and_then r (\<lambda>_. Inr value)) } }"

definition disk_iter :: "('f, 'k) disk_store \<Rightarrow> u8 \<Rightarrow> shard_entry list" where
  "disk_iter s dimension = map (\<lambda>((_, k), v). (k, v)) (filter (\<lambda>((d, _), _). d = dimension \<and> \<not> disk_is_poisoned s)
     (sorted_list_of_fmap (wb_cache (ds_pending s))))"

section \<open>The interface of a store\<close>

text \<open>A value of the trait \<open>ShardStore\<close> is a store with these operations. Operations that can panic return an option; \<open>get_mut\<close> takes the
  write through the slice it hands out.\<close>

record 's shard_ops =
  so_get :: "'s \<Rightarrow> u8 \<Rightarrow> particle \<Rightarrow> field_values option"
  so_put :: "'s \<Rightarrow> u8 \<Rightarrow> particle \<Rightarrow> field_values \<Rightarrow> ('s \<times> unit storage_result) option"
  so_dirty :: "'s \<Rightarrow> (u8 \<times> particle \<times> field_values) list"
  so_commit :: "'s \<Rightarrow> ('s \<times> particle storage_result) option"
  so_read :: "'s \<Rightarrow> u8 \<Rightarrow> particle \<Rightarrow> nat \<Rightarrow> field_values option storage_result option"
  so_scan :: "'s \<Rightarrow> u8 \<Rightarrow> particle option \<Rightarrow> scan_limits \<Rightarrow> shard_entry list storage_result option"
  so_durability :: "'s \<Rightarrow> durability"
  so_last_commit :: "'s \<Rightarrow> particle option storage_result option"
  so_poisoned :: "'s \<Rightarrow> bool"
  so_pending :: "'s \<Rightarrow> bool"
  so_get_mut :: "'s \<Rightarrow> u8 \<Rightarrow> particle \<Rightarrow> (field_values \<Rightarrow> field_values) \<Rightarrow> 's option"
  so_mark :: "'s \<Rightarrow> u8 \<Rightarrow> particle \<Rightarrow> ('s \<times> unit storage_result) option"
  so_remove :: "'s \<Rightarrow> u8 \<Rightarrow> particle \<Rightarrow> ('s \<times> field_values option storage_result) option"
  so_iter :: "'s \<Rightarrow> u8 \<Rightarrow> shard_entry list"

definition mem_ops :: "ext \<Rightarrow> mem_store shard_ops" where
  "mem_ops X = \<lparr>so_get = mem_get, so_put = mem_put, so_dirty = wb_dirty, so_commit = mem_commit X,
     so_read = (\<lambda>s d k m. Some (shard_read_default (mem_get s d k) d m)), so_scan = (\<lambda>s d a l. Some (mem_scan s d a l)),
     so_durability = (\<lambda>_. Memory), so_last_commit = (\<lambda>_. Some (Inr None)), so_poisoned = (\<lambda>_. False), so_pending = mem_has_pending,
     so_get_mut = mem_get_mut, so_mark = mem_mark_dirty, so_remove = mem_remove, so_iter = mem_iter\<rparr>"

definition disk_ops :: "ext \<Rightarrow> 'f fjall \<Rightarrow> ('k, 't) redb \<Rightarrow> ('f, 'k) disk_store shard_ops" where
  "disk_ops X F R = \<lparr>so_get = disk_get, so_put = disk_put, so_dirty = (\<lambda>s. wb_dirty (ds_pending s)), so_commit = disk_commit X F R,
     so_read = disk_read X F R, so_scan = disk_scan X F R, so_durability = (\<lambda>_. Disk), so_last_commit = disk_last_commit X F R,
     so_poisoned = disk_is_poisoned, so_pending = disk_has_pending, so_get_mut = (\<lambda>_ _ _ _. None),
     so_mark = (\<lambda>s d k. Some (s, disk_mark_dirty s d k)), so_remove = disk_remove X F R, so_iter = disk_iter\<rparr>"

section \<open>The contract of a store\<close>

text \<open>The values a store can hold: canonical elements, no longer than a value may be.\<close>

definition valid_value :: "ext \<Rightarrow> field_values \<Rightarrow> bool" where
  "valid_value X v \<longleftrightarrow> length v \<le> MAX_VALUE_ELEMENTS \<and> list_all (\<lambda>x. x < gl_P X) v"

text \<open>A store stands for a map from dimension and key to value. Operations return; one that is refused changes nothing of the map, one that is
  accepted changes exactly its key; a commit does not change the map; a read that succeeds returns the value of the map;
  a memory store answers \<open>get\<close> from the whole map, another one from what it has at hand.\<close>

locale shard_contract =
  fixes S :: "'s shard_ops" and ok :: "'s \<Rightarrow> bool" and view :: "'s \<Rightarrow> entry_key \<Rightarrow> field_values option" and X :: ext
  assumes put: "ok s \<Longrightarrow> valid_value X v \<Longrightarrow> \<exists>s' r. so_put S s d k v = Some (s', r) \<and> ok s' \<and> so_durability S s' = so_durability S s \<and>
      view s' = (case r of Inl _ \<Rightarrow> view s | Inr _ \<Rightarrow> (view s)((d, k) := Some v))"
    and remove: "ok s \<Longrightarrow> \<exists>s' r. so_remove S s d k = Some (s', r) \<and> ok s' \<and> so_durability S s' = so_durability S s \<and>
      (case r of Inl _ \<Rightarrow> view s' = view s | Inr old \<Rightarrow> old = view s (d, k) \<and> view s' = (view s)((d, k) := None))"
    and commit: "ok s \<Longrightarrow> \<exists>s' r. so_commit S s = Some (s', r) \<and> ok s' \<and> so_durability S s' = so_durability S s \<and> view s' = view s"
    and mark: "ok s \<Longrightarrow> \<exists>s' r. so_mark S s d k = Some (s', r) \<and> ok s' \<and> so_durability S s' = so_durability S s \<and> view s' = view s"
    and in_place: "ok s \<Longrightarrow> so_get_mut S s d k f = Some s' \<Longrightarrow> \<forall>v. valid_value X v \<longrightarrow> valid_value X (f v) \<Longrightarrow>
      ok s' \<and> so_durability S s' = so_durability S s \<and> view s (d, k) \<noteq> None \<and> view s' = (view s)((d, k) := map_option f (view s (d, k)))"
    and read: "ok s \<Longrightarrow> \<exists>r. so_read S s d k m = Some r \<and> (\<forall>found. r = Inr found \<longrightarrow> found = view s (d, k))"
    and get: "ok s \<Longrightarrow> so_get S s d k = Some v \<Longrightarrow> view s (d, k) = Some v"
    and exact: "ok s \<Longrightarrow> so_durability S s = Memory \<Longrightarrow> so_get S s d k = view s (d, k)"
    and bounded: "ok s \<Longrightarrow> view s (d, k) = Some v \<Longrightarrow> valid_value X v \<and> d \<le> EPHEMERAL"
begin

lemma read_total: "ok s \<Longrightarrow> \<exists>r. so_read S s d k m = Some r"
  using read by blast

lemma remove_then_get: "ok s \<Longrightarrow> so_remove S s d k = Some (s', Inr old) \<Longrightarrow> so_get S s' d k = None"
proof -
  assume ok: "ok s" and r: "so_remove S s d k = Some (s', Inr old)"
  from remove [OF ok, of d k] r have "ok s'" "view s' = (view s)((d, k) := None)" by auto
  then show ?thesis using get [of s' d k] by (cases "so_get S s' d k") auto
qed

end

section \<open>The in-memory store\<close>

definition mem_ok :: "ext \<Rightarrow> mem_store \<Rightarrow> bool" where
  "mem_ok X s \<longleftrightarrow> buffer_ok s \<and> (\<forall>d k v. mem_view s (d, k) = Some v \<longrightarrow> valid_value X v \<and> d \<le> EPHEMERAL)"

lemma mem_okD: "mem_ok X s \<Longrightarrow> mem_view s (d, k) = Some v \<Longrightarrow> valid_value X v \<and> d \<le> EPHEMERAL"
  by (simp add: mem_ok_def)

lemma mem_ok_new: "mem_ok X wb_new"
  by (simp add: mem_ok_def mem_view_def wb_new_def buffer_ok_new [unfolded wb_new_def])

lemma mem_ok_stored:
  assumes "mem_ok X s" "wb_stored s s' d k v" "\<forall>w. v = Some w \<longrightarrow> valid_value X w"
  shows "mem_ok X s' \<and> mem_view s' = (mem_view s)((d, k) := v)"
proof -
  have "d \<le> EPHEMERAL" using assms(2) by (simp add: wb_stored_def)
  then show ?thesis using assms(1,3) stored_view [OF assms(2)] unfolding mem_ok_def by auto
qed

lemma mem_read_view: "shard_read_default (mem_get s d k) d m = Inr found \<Longrightarrow> found = mem_view s (d, k)"
  by (auto simp: shard_read_default_def mem_get_def mem_view_def copy_value_def result_simps split: option.splits if_splits)

lemma mem_contract: "shard_contract (mem_ops X) (mem_ok X) mem_view X"
proof
  fix s d k v
  assume ok: "mem_ok X s" and v: "valid_value X v"
  obtain s' r where r: "wb_put s d k v = Some (s', r)" "case r of Inl e \<Rightarrow> s' = s | Inr _ \<Rightarrow> wb_stored s s' d k (Some v)"
    using wb_put_ok [of s d k v] ok by (auto simp: mem_ok_def)
  then show "\<exists>s' r. so_put (mem_ops X) s d k v = Some (s', r) \<and> mem_ok X s' \<and> so_durability (mem_ops X) s' = so_durability (mem_ops X) s \<and>
      mem_view s' = (case r of Inl _ \<Rightarrow> mem_view s | Inr _ \<Rightarrow> (mem_view s)((d, k) := Some v))"
    using ok v mem_ok_stored [OF ok, of s' d k "Some v"] by (cases r) (auto simp: mem_ops_def mem_put_def)
next
  fix s d k
  assume ok: "mem_ok X s"
  obtain s' r where r: "wb_delete s d k = Some (s', r)" "case r of Inl e \<Rightarrow> s' = s | Inr _ \<Rightarrow> wb_stored s s' d k None"
    using wb_delete_ok [of s d k] ok by (auto simp: mem_ok_def)
  then show "\<exists>s' r. so_remove (mem_ops X) s d k = Some (s', r) \<and> mem_ok X s' \<and> so_durability (mem_ops X) s' = so_durability (mem_ops X) s \<and>
      (case r of Inl _ \<Rightarrow> mem_view s' = mem_view s | Inr old \<Rightarrow> old = mem_view s (d, k) \<and> mem_view s' = (mem_view s)((d, k) := None))"
    using ok mem_ok_stored [OF ok, of s' d k None] by (cases r) (auto simp: mem_ops_def mem_remove_def mem_view_def)
next
  fix s
  assume ok: "mem_ok X s"
  have "mem_view (wb_clear_pending s) = mem_view s" by (simp add: mem_view_def wb_clear_pending_def fun_eq_iff)
  then show "\<exists>s' r. so_commit (mem_ops X) s = Some (s', r) \<and> mem_ok X s' \<and> so_durability (mem_ops X) s' = so_durability (mem_ops X) s \<and> mem_view s' = mem_view s"
    using ok by (simp add: mem_ops_def mem_commit_def mem_ok_def Let_def)
next
  fix s d k
  assume ok: "mem_ok X s"
  then obtain s' r where "mem_mark_dirty s d k = Some (s', r)" "buffer_ok s'" "mem_view s' = mem_view s"
    using mem_mark_ok [of s d k] unfolding mem_ok_def by blast
  then show "\<exists>s' r. so_mark (mem_ops X) s d k = Some (s', r) \<and> mem_ok X s' \<and> so_durability (mem_ops X) s' = so_durability (mem_ops X) s \<and> mem_view s' = mem_view s"
    using ok by (simp add: mem_ops_def mem_ok_def)
next
  fix s d k f s'
  assume ok: "mem_ok X s" and w: "so_get_mut (mem_ops X) s d k f = Some s'" and f: "\<forall>v. valid_value X v \<longrightarrow> valid_value X (f v)"
  obtain v where v: "fmlookup (wb_cache s) (d, k) = Some v" "s' = s\<lparr>wb_cache := fmupd (d, k) (f v) (wb_cache s)\<rparr>"
    using w by (auto simp: mem_ops_def mem_get_mut_def)
  have view: "mem_view s' = (mem_view s)((d, k) := Some (f v))" by (simp add: v(2) mem_view_def fun_eq_iff)
  have "valid_value X (f v) \<and> d \<le> EPHEMERAL" using mem_okD [OF ok, of d k v] v(1) f by (simp add: mem_view_def)
  then have "mem_ok X s'" using ok unfolding mem_ok_def view by (auto simp: v(2) buffer_ok_cache)
  then show "mem_ok X s' \<and> so_durability (mem_ops X) s' = so_durability (mem_ops X) s \<and> mem_view s (d, k) \<noteq> None \<and>
      mem_view s' = (mem_view s)((d, k) := map_option f (mem_view s (d, k)))"
    using view v(1) by (simp add: mem_ops_def mem_view_def)
qed (auto simp: mem_ops_def mem_get_def mem_view_def [abs_def] dest: mem_read_view [unfolded mem_get_def mem_view_def] mem_okD)

interpretation mem: shard_contract "mem_ops X" "mem_ok X" mem_view X for X
  by (rule mem_contract)

section \<open>The disk store as a map\<close>

definition stored_value :: "('f \<Rightarrow> contents) \<Rightarrow> ('k \<Rightarrow> contents) \<Rightarrow> ext \<Rightarrow> ('f, 'k) database \<Rightarrow> u8 \<Rightarrow> particle \<Rightarrow> field_values option" where
  "stored_value CF CK X db d k = map_option (\<lambda>bs. case deserialize_goldilocks X bs MAX_VALUE_ELEMENTS of Inl _ \<Rightarrow> [] | Inr vs \<Rightarrow> vs)
     (fmlookup (db_table CF CK db (Shard d)) (be_bytes 32 k))"

definition rows_ok :: "ext \<Rightarrow> (table \<Rightarrow> (bytes, bytes) fmap) \<Rightarrow> bool" where
  "rows_ok X T \<longleftrightarrow> (\<forall>d key bs. d < EPHEMERAL \<longrightarrow> fmlookup (T (Shard d)) key = Some bs \<longrightarrow>
     length key = 32 \<and> (\<exists>vs. valid_value X vs \<and> bs = serialize_goldilocks vs))"

definition cache_synced :: "write_buffer \<Rightarrow> bool" where
  "cache_synced b \<longleftrightarrow> (\<forall>d k. d < EPHEMERAL \<longrightarrow> fmlookup (wb_cache b) (d, k) = (case fmlookup (net_changes b) (d, k) of None \<Rightarrow> None | Some v \<Rightarrow> v))"

definition disk_ok :: "('f \<Rightarrow> contents) \<Rightarrow> ('k \<Rightarrow> contents) \<Rightarrow> ext \<Rightarrow> ('f, 'k) disk_store \<Rightarrow> bool" where
  "disk_ok CF CK X s \<longleftrightarrow> database_ok (ds_db s) \<and> rows_ok X (db_table CF CK (ds_db s)) \<and> mem_ok X (ds_pending s) \<and> cache_synced (ds_pending s)"

definition disk_view :: "('f \<Rightarrow> contents) \<Rightarrow> ('k \<Rightarrow> contents) \<Rightarrow> ext \<Rightarrow> ('f, 'k) disk_store \<Rightarrow> entry_key \<Rightarrow> field_values option" where
  "disk_view CF CK X s key =
     (if fst key < EPHEMERAL then (case fmlookup (net_changes (ds_pending s)) key of Some v \<Rightarrow> v
        | None \<Rightarrow> stored_value CF CK X (ds_db s) (fst key) (snd key))
      else fmlookup (wb_cache (ds_pending s)) key)"

lemma decode_stored:
  assumes X: "nebu_laws X" and m: "m \<le> MAX_VALUE_ELEMENTS" and v: "valid_value X vs"
  shows "deserialize_goldilocks X (serialize_goldilocks vs) m = Inr ws \<longleftrightarrow> ws = vs \<and> length vs \<le> m"
  using deserialize_iff [OF X m] v serialize_inj [of vs ws] by (fastforce simp: valid_value_def dest: arg_cong [where f = length])

lemma deserialize_valid: "nebu_laws X \<Longrightarrow> valid_value X vs \<Longrightarrow> deserialize_goldilocks X (serialize_goldilocks vs) MAX_VALUE_ELEMENTS = Inr vs"
  using decode_stored [of X MAX_VALUE_ELEMENTS vs vs] by (simp add: valid_value_def)

lemma stored_value_ok:
  assumes "nebu_laws X" "rows_ok X (db_table CF CK db)" "d < EPHEMERAL" "stored_value CF CK X db d k = Some v"
  shows "valid_value X v"
  using assms deserialize_valid [OF assms(1)] by (fastforce simp: stored_value_def rows_ok_def)

lemma disk_stored:
  assumes ok: "disk_ok CF CK X s" and st: "wb_stored (ds_pending s) b d k v" and v: "\<forall>w. v = Some w \<longrightarrow> valid_value X w"
  shows "disk_ok CF CK X (s\<lparr>ds_pending := b\<rparr>) \<and> disk_view CF CK X (s\<lparr>ds_pending := b\<rparr>) = (disk_view CF CK X s)((d, k) := v)"
proof -
  have m: "mem_ok X b" using ok mem_ok_stored [OF _ st v] by (simp add: disk_ok_def)
  have d: "d \<le> EPHEMERAL" and c: "fmlookup (wb_cache b) key = (if key = (d, k) then v else fmlookup (wb_cache (ds_pending s)) key)"
    and n: "fmlookup (net_changes b) key = (if key = (d, k) \<and> d \<noteq> EPHEMERAL then Some v else fmlookup (net_changes (ds_pending s)) key)" for key
    using st unfolding wb_stored_def by blast+
  have "cache_synced b" using ok d unfolding disk_ok_def cache_synced_def c n by auto
  moreover have "disk_view CF CK X (s\<lparr>ds_pending := b\<rparr>) key = ((disk_view CF CK X s)((d, k) := v)) key" for key
    using d by (cases "key = (d, k)") (auto simp: disk_view_def c n split: option.split)
  ultimately show ?thesis using ok m by (auto simp: disk_ok_def)
qed

text \<open>Reads through the owner.\<close>

lemma shard_named: "d \<le> EPHEMERAL \<Longrightarrow> table_name (Shard d) \<noteq> None"
  by (simp add: EPHEMERAL_def word_le_nat_alt)

lemma disk_load_ok:
  assumes X: "nebu_laws X" and laws: "engine_laws F CF R CK V" and ok: "disk_ok CF CK X s"
    and none: "d < EPHEMERAL \<Longrightarrow> fmlookup (net_changes (ds_pending s)) (d, k) = None" "d = EPHEMERAL \<Longrightarrow> fmlookup (wb_cache (ds_pending s)) (d, k) = None"
  shows "\<exists>r. disk_load X F R s d k m = Some r \<and> (\<forall>found. r = Inr found \<longrightarrow> found = disk_view CF CK X s (d, k))"
proof (cases "and_then (disk_ready s) (\<lambda>_. and_then (check_dimension d) (\<lambda>_. check_read_limit m))")
  case (Inl e)
  then show ?thesis by (simp add: disk_load_def)
next
  case (Inr u)
  then have d: "d \<le> EPHEMERAL" and m: "m \<le> MAX_VALUE_ELEMENTS"
    by (auto simp: result_simps check_dimension_def check_read_limit_def not_less split: if_splits)
  show ?thesis
  proof (cases "d = EPHEMERAL")
    case True
    then show ?thesis using Inr none by (simp add: disk_load_def disk_view_def)
  next
    case False
    then have d': "d < EPHEMERAL" using d by simp
    obtain r where r: "db_read X F R (ds_db s) (Shard d) (be_bytes 32 k) (m * 8) = Some r"
        "\<forall>v. r = Inr v \<longrightarrow> v = fmlookup (db_table CF CK (ds_db s) (Shard d)) (be_bytes 32 k)"
      using db_read_ok [OF laws _ shard_named [OF d]] ok unfolding disk_ok_def by blast
    have "found = disk_view CF CK X s (d, k)" if "and_then r (decode_opt X m) = Inr found" for found
    proof (cases "fmlookup (db_table CF CK (ds_db s) (Shard d)) (be_bytes 32 k)")
      case None
      then show ?thesis using that r(2) d' none(1) by (auto simp: result_simps decode_opt_def disk_view_def stored_value_def)
    next
      case (Some bs)
      then obtain vs where vs: "valid_value X vs" "bs = serialize_goldilocks vs" using ok d' unfolding disk_ok_def rows_ok_def by blast
      then show ?thesis
        using Some that r(2) d' none(1) decode_stored [OF X m vs(1)] deserialize_valid [OF X vs(1)]
        by (auto simp: result_simps decode_opt_def disk_view_def stored_value_def)
    qed
    then show ?thesis using Inr False r(1) by (auto simp: disk_load_def)
  qed
qed

lemma disk_read_ok:
  assumes X: "nebu_laws X" and laws: "engine_laws F CF R CK V" and ok: "disk_ok CF CK X s"
  shows "\<exists>r. disk_read X F R s d k m = Some r \<and> (\<forall>found. r = Inr found \<longrightarrow> found = disk_view CF CK X s (d, k))"
proof (cases "and_then (disk_ready s) (\<lambda>_. and_then (check_dimension d) (\<lambda>_. check_read_limit m))")
  case (Inl e)
  then show ?thesis by (simp add: disk_read_def)
next
  case (Inr u)
  then have d: "d \<le> EPHEMERAL" by (auto simp: result_simps check_dimension_def not_less split: if_splits)
  have b: "buffer_ok (ds_pending s)" and sync: "d < EPHEMERAL \<Longrightarrow> fmlookup (wb_cache (ds_pending s)) (d, k) =
      (case fmlookup (net_changes (ds_pending s)) (d, k) of None \<Rightarrow> None | Some v \<Rightarrow> v)"
    using ok by (simp_all add: disk_ok_def mem_ok_def cache_synced_def)
  show ?thesis
  proof (cases "(d, k) |\<in>| wb_deleted (ds_pending s)")
    case True
    then have "d < EPHEMERAL" using b by (auto simp: buffer_ok_def)
    then show ?thesis using Inr True by (simp add: disk_read_def disk_view_def net_lookup [OF b])
  next
    case nd: False
    show ?thesis
    proof (cases "fmlookup (wb_cache (ds_pending s)) (d, k)")
      case None
      have "fmlookup (net_changes (ds_pending s)) (d, k) = None" if "d < EPHEMERAL"
        using sync [OF that] None nd by (auto simp: net_lookup [OF b] split: option.splits)
      from disk_load_ok [OF X laws ok this None, of m] show ?thesis using Inr nd None by (simp add: disk_read_def)
    next
      case (Some v)
      have "disk_view CF CK X s (d, k) = Some v" using sync Some d by (auto simp: disk_view_def split: option.splits)
      then show ?thesis
        using Inr nd Some by (auto simp: disk_read_def copy_value_def result_simps split: if_splits)
    qed
  qed
qed

text \<open>A pending batch always fits in a transaction.\<close>

fun stage_list :: "('f, 'k) transaction \<Rightarrow> (address \<times> bytes option) list \<Rightarrow> (('f, 'k) transaction \<times> unit storage_result) option" where
  "stage_list tx [] = Some (tx, Inr ())"
| "stage_list tx (((t, k), v) # es) = do {
     (tx, r) \<leftarrow> tx_stage tx t k v;
     case r of Inl e \<Rightarrow> Some (tx, Inl e) | Inr _ \<Rightarrow> stage_list tx es }"

definition entry_weight :: "address \<times> bytes option \<Rightarrow> nat" where
  "entry_weight e = length (snd (fst e)) + opt_len (snd e)"

lemma tx_stage_fits:
  assumes ok: "tx_ok tx" and "length k \<le> 64" "opt_len v \<le> MAX_BYTES_VALUE" "fcard (fmdom (tx_changes tx)) < MAX_TRANSACTION_KEYS - 2"
    and "tx_bytes tx + length k + opt_len v \<le> MAX_TRANSACTION_BYTES - 91"
  shows "\<exists>tx'. tx_stage tx t k v = Some (tx', Inr ()) \<and> tx_ok tx' \<and> tx_changes tx' = fmupd (t, k) v (tx_changes tx) \<and>
    tx_bytes tx' \<le> tx_bytes tx + length k + opt_len v \<and> fcard (fmdom (tx_changes tx')) \<le> Suc (fcard (fmdom (tx_changes tx)))"
proof -
  obtain tx' r where r: "tx_stage tx t k v = Some (tx', r)" "tx_ok tx'"
      "case r of Inl e \<Rightarrow> tx' = tx \<and> (\<exists>m. e = Limit m) | Inr _ \<Rightarrow> tx_changes tx' = fmupd (t, k) v (tx_changes tx)"
    using tx_stage_ok [OF ok] by blast
  have "\<not> (\<exists>e. r = Inl e)" using r(1) assms(2-5) by (auto simp: tx_stage_def Let_def split: if_splits option.splits)
  then have "r = Inr ()" by (cases r) auto
  moreover have "tx_bytes tx' \<le> tx_bytes tx + length k + opt_len v"
    using changes_bytes_upd [of "(t, k)" v "tx_changes tx"] r(2,3) ok by (simp add: \<open>r = Inr ()\<close> tx_ok_def)
  ultimately show ?thesis using r by (simp add: fcard_fmdom_upd del: fmdom_fmupd)
qed

lemma stage_list_fits:
  assumes "tx_ok tx" and "\<forall>e \<in> set es. length (snd (fst e)) \<le> 64 \<and> opt_len (snd e) \<le> MAX_BYTES_VALUE"
    and "fcard (fmdom (tx_changes tx)) + length es \<le> MAX_TRANSACTION_KEYS - 2"
    and "tx_bytes tx + sum_list (map entry_weight es) \<le> MAX_TRANSACTION_BYTES - 91" and "distinct (map fst es)"
  shows "\<exists>tx'. stage_list tx es = Some (tx', Inr ()) \<and>
    (\<forall>a. fmlookup (tx_changes tx') a = (case map_of es a of None \<Rightarrow> fmlookup (tx_changes tx) a | Some v \<Rightarrow> Some v))"
  using assms
proof (induction es arbitrary: tx)
  case (Cons e es)
  obtain t k v where e: "e = ((t, k), v)" by (cases e) auto
  obtain tx1 where 1: "tx_stage tx t k v = Some (tx1, Inr ())" "tx_ok tx1" "tx_changes tx1 = fmupd (t, k) v (tx_changes tx)"
      "tx_bytes tx1 \<le> tx_bytes tx + length k + opt_len v" "fcard (fmdom (tx_changes tx1)) \<le> Suc (fcard (fmdom (tx_changes tx)))"
    using tx_stage_fits [of tx k v t] Cons.prems by (auto simp: e entry_weight_def)
  obtain tx2 where 2: "stage_list tx1 es = Some (tx2, Inr ())"
      "\<forall>a. fmlookup (tx_changes tx2) a = (case map_of es a of None \<Rightarrow> fmlookup (tx_changes tx1) a | Some v \<Rightarrow> Some v)"
    using Cons.IH [OF 1(2)] 1(4,5) Cons.prems by (auto simp: e entry_weight_def)
  have fresh: "map_of es (t, k) = None" using Cons.prems(5) by (force simp: e map_of_eq_None_iff)
  have "fmlookup (tx_changes tx2) a = (case map_of (e # es) a of None \<Rightarrow> fmlookup (tx_changes tx) a | Some v \<Rightarrow> Some v)" for a
    using 2(2) [rule_format, of a] fresh by (cases "map_of es a") (auto simp: e 1(3))
  then show ?case using 1(1) 2(1) by (simp add: e)
qed simp

text \<open>The batch of a buffer.\<close>

definition batch_of :: "write_buffer \<Rightarrow> (address \<times> bytes option) list" where
  "batch_of b = map (\<lambda>(d, k, v). ((Shard d, be_bytes 32 k), Some (serialize_goldilocks v))) (wb_dirty b) @
     map (\<lambda>(d, k). ((Shard d, be_bytes 32 k), None)) (sorted_list_of_fset (wb_deleted b))"

lemma stage_dirty_list:
  "\<forall>e \<in> set es. fst e < EPHEMERAL \<and> dirty_len e \<le> MAX_VALUE_ELEMENTS \<Longrightarrow>
    stage_dirty tx es = stage_list tx (map (\<lambda>(d, k, v). ((Shard d, be_bytes 32 k), Some (serialize_goldilocks v))) es)"
proof (induction es arbitrary: tx)
  case (Cons e es)
  obtain d k v where e: "e = (d, k, v)" by (cases e) auto
  have "tx_put_shard tx d k v = tx_stage tx (Shard d) (be_bytes 32 k) (Some (serialize_goldilocks v))"
    using Cons.prems by (auto simp: e tx_put_shard_def tx_put_def disk_dimension_def check_dimension_def check_read_limit_def)
  then show ?case using Cons by (auto simp: e intro!: Option.bind_cong split: sum.split)
qed simp

lemma stage_deleted_list: "stage_deleted tx ks = stage_list tx (map (\<lambda>(d, k). ((Shard d, be_bytes 32 k), None)) ks)"
  by (induction ks arbitrary: tx) (auto simp: tx_remove_def intro!: Option.bind_cong split: sum.split)

lemma stage_list_append: "stage_list tx (es @ fs) = do { (tx, r) \<leftarrow> stage_list tx es; case r of Inl e \<Rightarrow> Some (tx, Inl e) | Inr _ \<Rightarrow> stage_list tx fs }"
  by (induction es arbitrary: tx) (auto intro!: Option.bind_cong split: sum.split)

lemma batch_address: "map_of (batch_of b) a = Some w \<Longrightarrow> \<exists>d (k :: particle). a = (Shard d, be_bytes 32 k)"
proof -
  assume "map_of (batch_of b) a = Some w"
  from map_of_SomeD [OF this] consider d k v where "a = (Shard d, be_bytes 32 (k :: particle))" "(d, k, v) \<in> set (wb_dirty b)"
    | d k where "a = (Shard d, be_bytes 32 (k :: particle))" "(d, k) |\<in>| wb_deleted b"
    by (auto simp: batch_of_def)
  then show ?thesis by cases blast+
qed

lemma batch_distinct:
  assumes ok: "buffer_ok b"
  shows "distinct (map fst (batch_of b))"
proof -
  let ?a = "\<lambda>(d, k :: particle). (Shard d, be_bytes 32 k)"
  have inj: "inj ?a" by (rule injI) (auto simp: be_bytes_inj)
  have fsts: "map fst (batch_of b) = map ?a (map dirty_key (wb_dirty b) @ sorted_list_of_fset (wb_deleted b))"
    by (auto simp: batch_of_def dirty_key_def)
  have "distinct (map dirty_key (wb_dirty b))" using ok positions_ok_distinct by (auto simp: buffer_ok_def)
  moreover have "dirty_key e \<notin> set (sorted_list_of_fset (wb_deleted b))" if "e \<in> set (wb_dirty b)" for e
    using ok that by (simp add: buffer_ok_def sorted_list_of_fset.rep_eq)
  ultimately have "distinct (map dirty_key (wb_dirty b) @ sorted_list_of_fset (wb_deleted b))" by (auto simp: sorted_list_of_fset.rep_eq)
  from distinct_map [THEN iffD2, OF conjI, OF this inj_on_subset [OF inj subset_UNIV]] show ?thesis unfolding fsts .
qed

lemma batch_lookup:
  assumes ok: "buffer_ok b"
  shows "map_of (batch_of b) (Shard d, be_bytes 32 k) = map_option (map_option serialize_goldilocks) (fmlookup (net_changes b) (d, k))"
proof -
  have "map_of (batch_of b) (Shard d, be_bytes 32 k) = Some w \<longleftrightarrow>
      (\<exists>v. (d, k, v) \<in> set (wb_dirty b) \<and> w = Some (serialize_goldilocks v)) \<or> (d, k) |\<in>| wb_deleted b \<and> w = None" for w
    unfolding map_of_eq_Some_iff [OF batch_distinct [OF ok]]
    by (force simp: batch_of_def be_bytes_inj sorted_list_of_fset.rep_eq)
  moreover have "(d, k, v) \<in> set (wb_dirty b) \<Longrightarrow> (d, k) |\<notin>| wb_deleted b" for v using ok by (auto simp: buffer_ok_def)
  moreover have "pending b (d, k) = Some v \<longleftrightarrow> (d, k, v) \<in> set (wb_dirty b)" for v by (rule pending_iff [OF ok])
  ultimately show ?thesis
    by (cases "map_of (batch_of b) (Shard d, be_bytes 32 k)"; cases "pending b (d, k)") (auto simp: net_lookup [OF ok])
qed

lemma stage_pending_ok:
  assumes ok: "buffer_ok b"
  shows "\<exists>tx. stage_pending b (tx_new e) = Some (tx, Inr ()) \<and> (\<forall>a. fmlookup (tx_changes tx) a = map_of (batch_of b) a)"
proof -
  have dirty: "\<forall>e \<in> set (wb_dirty b). fst e < EPHEMERAL \<and> dirty_len e \<le> MAX_VALUE_ELEMENTS" and el: "wb_elements b = sum_list (map dirty_len (wb_dirty b))"
    and lim: "wb_elements b \<le> MAX_PENDING_ELEMENTS" "length (wb_dirty b) + fcard (wb_deleted b) \<le> MAX_PENDING_KEYS"
    using ok by (auto simp: buffer_ok_def dirty_key_def)
  have "stage_pending b (tx_new e) = stage_list (tx_new e) (batch_of b)"
    unfolding stage_pending_def batch_of_def stage_list_append stage_dirty_list [OF dirty] stage_deleted_list ..
  moreover have "\<forall>x \<in> set (batch_of b). length (snd (fst x)) \<le> 64 \<and> opt_len (snd x) \<le> MAX_BYTES_VALUE"
    using dirty by (fastforce simp: batch_of_def opt_len_def dirty_len_def MAX_VALUE_ELEMENTS_def MAX_BYTES_VALUE_def)
  moreover have len: "length (batch_of b) = length (wb_dirty b) + fcard (wb_deleted b)"
    by (simp add: batch_of_def sorted_list_of_fset.rep_eq fcard.rep_eq)
  moreover have "sum_list (map entry_weight (batch_of b)) = 32 * length (batch_of b) + 8 * wb_elements b"
  proof -
    have "sum_list (map entry_weight (map (\<lambda>(d, k, v). ((Shard d, be_bytes 32 k), Some (serialize_goldilocks v))) ds)) =
        32 * length ds + 8 * sum_list (map dirty_len ds)" for ds
      by (induction ds) (auto simp: entry_weight_def opt_len_def)
    moreover have "sum_list (map entry_weight (map (\<lambda>(d, k). ((Shard d, be_bytes 32 k), None)) ks)) = 32 * length ks" for ks
      by (induction ks) (auto simp: entry_weight_def opt_len_def)
    ultimately show ?thesis by (simp add: batch_of_def el)
  qed
  ultimately obtain tx where "stage_pending b (tx_new e) = Some (tx, Inr ())"
      "\<forall>a. fmlookup (tx_changes tx) a = (case map_of (batch_of b) a of None \<Rightarrow> fmlookup (tx_changes (tx_new e)) a | Some v \<Rightarrow> Some v)"
    using stage_list_fits [OF tx_ok_new(1) _ _ _ batch_distinct [OF ok], of e] lim
    by (auto simp: fcard.rep_eq tx_new_def MAX_PENDING_ELEMENTS_def MAX_PENDING_KEYS_def MAX_TRANSACTION_BYTES_def MAX_TRANSACTION_KEYS_def)
  moreover have "(case m of None \<Rightarrow> fmlookup (tx_changes (tx_new e)) a | Some v \<Rightarrow> Some v) = m" for a :: address and m by (cases m) simp_all
  ultimately show ?thesis by metis
qed

section \<open>Commits of the disk store\<close>

lemma pending_valid:
  assumes "disk_ok CF CK X s" "d < EPHEMERAL" "fmlookup (net_changes (ds_pending s)) (d, k) = Some (Some v)"
  shows "valid_value X v"
  using assms mem_okD [of X "ds_pending s" d k v] by (simp add: disk_ok_def cache_synced_def mem_view_def)

text \<open>The shards of a database after the batch of a buffer was applied, and in any outcome of its commit.\<close>

definition batch_applied :: "write_buffer \<Rightarrow> (table \<Rightarrow> (bytes, bytes) fmap) \<Rightarrow> (table \<Rightarrow> (bytes, bytes) fmap) \<Rightarrow> bool" where
  "batch_applied b T T' \<longleftrightarrow> (\<forall>d. \<exists>c. fmlookup (T' (Shard d)) = (\<lambda>key. case c key of None \<Rightarrow> fmlookup (T (Shard d)) key | Some v \<Rightarrow> v) \<and>
     (\<forall>k. c (be_bytes 32 k) = map_option (map_option serialize_goldilocks) (fmlookup (net_changes b) (d, k))) \<and>
     (\<forall>key v. c key = Some v \<longrightarrow> (\<exists>k :: particle. key = be_bytes 32 k)))"

lemma batch_appliedI:
  assumes ok: "buffer_ok b" and ch: "\<forall>a. fmlookup ch a = map_of (batch_of b) a" and to: "changed_to T (with_markers i ch) T'"
  shows "batch_applied b T T'"
  unfolding batch_applied_def
proof
  fix d
  have "fmlookup (T' (Shard d)) key = (case fmlookup ch (Shard d, key) of None \<Rightarrow> fmlookup (T (Shard d)) key | Some v \<Rightarrow> v)" for key
    using to [unfolded changed_to_def, rule_format, of "Shard d" key] by (simp add: with_markers_lookup)
  moreover have "fmlookup ch (Shard d, be_bytes 32 k) = map_option (map_option serialize_goldilocks) (fmlookup (net_changes b) (d, k))" for k
    using ch batch_lookup [OF ok] by metis
  moreover have "\<exists>k :: particle. key = be_bytes 32 k" if "fmlookup ch (Shard d, key) = Some v" for key v
    using that ch batch_address [of b "(Shard d, key)" v] by auto
  ultimately show "\<exists>c. fmlookup (T' (Shard d)) = (\<lambda>key. case c key of None \<Rightarrow> fmlookup (T (Shard d)) key | Some v \<Rightarrow> v) \<and>
     (\<forall>k. c (be_bytes 32 k) = map_option (map_option serialize_goldilocks) (fmlookup (net_changes b) (d, k))) \<and>
     (\<forall>key v. c key = Some v \<longrightarrow> (\<exists>k :: particle. key = be_bytes 32 k))"
    by (intro exI [of _ "\<lambda>key. fmlookup ch (Shard d, key)"]) auto
qed

lemma batch_applied_values:
  assumes X: "nebu_laws X" and ok: "disk_ok CF CK X s" and app: "batch_applied (ds_pending s) (db_table CF CK (ds_db s)) (db_table CF CK db')"
  shows "rows_ok X (db_table CF CK db')" "d < EPHEMERAL \<Longrightarrow> stored_value CF CK X db' d k = disk_view CF CK X s (d, k)"
proof -
  let ?T = "db_table CF CK (ds_db s)" and ?T' = "db_table CF CK db'"
  have rows: "rows_ok X ?T" using ok by (simp add: disk_ok_def)
  show "rows_ok X ?T'" unfolding rows_ok_def
  proof (intro allI impI)
    fix d key bs
    assume d: "d < EPHEMERAL" and row: "fmlookup (?T' (Shard d)) key = Some bs"
    obtain c where c: "fmlookup (?T' (Shard d)) = (\<lambda>key. case c key of None \<Rightarrow> fmlookup (?T (Shard d)) key | Some v \<Rightarrow> v)"
        "\<forall>k. c (be_bytes 32 k) = map_option (map_option serialize_goldilocks) (fmlookup (net_changes (ds_pending s)) (d, k))"
        "\<forall>key v. c key = Some v \<longrightarrow> (\<exists>k :: particle. key = be_bytes 32 k)"
      using app unfolding batch_applied_def by blast
    show "length key = 32 \<and> (\<exists>vs. valid_value X vs \<and> bs = serialize_goldilocks vs)"
    proof (cases "c key")
      case None
      then show ?thesis using rows row d by (auto simp: c(1) rows_ok_def)
    next
      case (Some v)
      then obtain k :: particle where k: "key = be_bytes 32 k" using c(3) by blast
      then obtain w where "fmlookup (net_changes (ds_pending s)) (d, k) = Some (Some w)" "bs = serialize_goldilocks w"
        using Some row c(1,2) by auto
      then show ?thesis using k pending_valid [OF ok d, of k w] by auto
    qed
  qed
  show "stored_value CF CK X db' d k = disk_view CF CK X s (d, k)" if d: "d < EPHEMERAL"
  proof -
    obtain c where c: "fmlookup (?T' (Shard d)) = (\<lambda>key. case c key of None \<Rightarrow> fmlookup (?T (Shard d)) key | Some v \<Rightarrow> v)"
        "c (be_bytes 32 k) = map_option (map_option serialize_goldilocks) (fmlookup (net_changes (ds_pending s)) (d, k))"
      using app unfolding batch_applied_def by blast
    then show ?thesis
      using d pending_valid [OF ok d, of k] deserialize_valid [OF X]
      by (cases "fmlookup (net_changes (ds_pending s)) (d, k)"; cases "the (fmlookup (net_changes (ds_pending s)) (d, k))")
        (auto simp: stored_value_def disk_view_def split: option.splits)
  qed
qed

text \<open>With the batch applied or not, the store with its pending changes shows the same map.\<close>

lemma disk_same_view:
  assumes X: "nebu_laws X" and ok: "disk_ok CF CK X s" and db: "database_ok db'"
    and app: "db_table CF CK db' = db_table CF CK (ds_db s) \<or> batch_applied (ds_pending s) (db_table CF CK (ds_db s)) (db_table CF CK db')"
    and b: "wb_cache b = wb_cache (ds_pending s)" "net_changes b = net_changes (ds_pending s)" "buffer_ok b"
  shows "disk_ok CF CK X \<lparr>ds_db = db', ds_pending = b\<rparr> \<and> disk_view CF CK X \<lparr>ds_db = db', ds_pending = b\<rparr> = disk_view CF CK X s"
proof -
  have rows: "rows_ok X (db_table CF CK db')" using app ok batch_applied_values(1) [OF X ok] by (auto simp: disk_ok_def)
  have stored: "stored_value CF CK X db' d k = stored_value CF CK X (ds_db s) d k"
    if "d < EPHEMERAL" "fmlookup (net_changes (ds_pending s)) (d, k) = None" for d k
    using app
  proof
    assume "db_table CF CK db' = db_table CF CK (ds_db s)"
    then show ?thesis by (simp add: stored_value_def)
  next
    assume "batch_applied (ds_pending s) (db_table CF CK (ds_db s)) (db_table CF CK db')"
    from batch_applied_values(2) [OF X ok this that(1)] show ?thesis using that by (simp add: disk_view_def)
  qed
  have "mem_ok X b \<and> cache_synced b" using ok b by (simp add: disk_ok_def mem_ok_def mem_view_def cache_synced_def)
  moreover have "disk_view CF CK X \<lparr>ds_db = db', ds_pending = b\<rparr> key = disk_view CF CK X s key" for key
    using stored [of "fst key" "snd key"] by (auto simp: disk_view_def b split: option.splits)
  ultimately show ?thesis using db rows by (auto simp: disk_ok_def)
qed

lemma net_changes_finish [simp]: "net_changes (wb_finish b) = fmempty" "buffer_ok (wb_finish b)"
proof -
  show "net_changes (wb_finish b) = fmempty" by (simp add: net_changes_def wb_finish_def wb_clear_pending_def Let_def sorted_list_of_fset.rep_eq)
  have "buffer_ok (wb_clear_pending b)" by simp
  then show "buffer_ok (wb_finish b)" unfolding wb_finish_def Let_def by (rule buffer_ok_cache)
qed

lemma wb_finish_cache: "fmlookup (wb_cache (wb_finish b)) (d, k) = (if d = EPHEMERAL then fmlookup (wb_cache b) (d, k) else None)"
  by (simp add: wb_finish_def wb_clear_pending_def Let_def)

lemma disk_finished:
  assumes X: "nebu_laws X" and ok: "disk_ok CF CK X s" and db: "database_ok db'"
    and app: "batch_applied (ds_pending s) (db_table CF CK (ds_db s)) (db_table CF CK db')"
  shows "disk_ok CF CK X \<lparr>ds_db = db', ds_pending = wb_finish (ds_pending s)\<rparr> \<and>
    disk_view CF CK X \<lparr>ds_db = db', ds_pending = wb_finish (ds_pending s)\<rparr> = disk_view CF CK X s"
proof -
  note vals = batch_applied_values [OF X ok app]
  have mem: "mem_ok X (ds_pending s)" using ok by (simp add: disk_ok_def)
  have "mem_ok X (wb_finish (ds_pending s))"
    using mem unfolding mem_ok_def mem_view_def wb_finish_cache by auto
  moreover have "cache_synced (wb_finish (ds_pending s))" by (auto simp: cache_synced_def wb_finish_cache)
  moreover have "disk_view CF CK X \<lparr>ds_db = db', ds_pending = wb_finish (ds_pending s)\<rparr> (d, k) = disk_view CF CK X s (d, k)" for d k
  proof (cases "d < EPHEMERAL")
    case True
    then show ?thesis using vals(2) [OF True, of k] by (simp add: disk_view_def)
  next
    case False
    then have "d \<noteq> EPHEMERAL \<Longrightarrow> fmlookup (wb_cache (ds_pending s)) (d, k) = None"
      using mem_okD [OF mem, of d k] by (cases "fmlookup (wb_cache (ds_pending s)) (d, k)") (auto simp: mem_view_def)
    then show ?thesis using False by (simp add: disk_view_def wb_finish_cache)
  qed
  ultimately show ?thesis using db vals(1) by (auto simp: disk_ok_def fun_eq_iff)
qed

lemma batch_named:
  assumes b: "buffer_ok b" and ch: "\<forall>a. fmlookup ch a = map_of (batch_of b) a"
  shows "changes_named ch"
  unfolding changes_named_def
proof (intro allI impI)
  fix t key
  assume "fmlookup ch (t, key) \<noteq> None"
  then obtain w where w: "map_of (batch_of b) (t, key) = Some w" using ch by auto
  then obtain d and k :: particle where a: "t = Shard d" "key = be_bytes 32 k" using batch_address by blast
  from w have "fmlookup (net_changes b) (d, k) \<noteq> None" by (auto simp: a batch_lookup [OF b])
  then have "d < EPHEMERAL" using b by (auto simp: net_lookup [OF b] pending_iff [OF b] buffer_ok_def split: if_splits)
  then show "table_name t \<noteq> None" unfolding a by (intro shard_named) simp
qed

lemma disk_batch_transaction:
  assumes laws: "engine_laws F CF R CK V" and b: "buffer_ok b" and db: "database_ok db" "db_failure db = None"
  shows "\<exists>db' out. db_transaction X F R id db (stage_pending b) = Some (db', out) \<and> database_ok db' \<and>
    (case out of Inr c \<Rightarrow> (case cm_change_id c of None \<Rightarrow> db_table CF CK db' = db_table CF CK db
        | Some _ \<Rightarrow> batch_applied b (db_table CF CK db) (db_table CF CK db'))
      | Inl _ \<Rightarrow> db_table CF CK db' = db_table CF CK db \<or> batch_applied b (db_table CF CK db) (db_table CF CK db'))"
proof -
  obtain tx where tx: "stage_pending b (tx_new (db_engine db)) = Some (tx, Inr ())" "\<forall>a. fmlookup (tx_changes tx) a = map_of (batch_of b) a"
    using stage_pending_ok [OF b] by blast
  obtain db' out where t: "db_transaction X F R id db (stage_pending b) = Some (db', out)" "database_ok db'"
      "transacted (db_table CF CK db) id (tx_changes tx) (Inr ()) out (db_table CF CK db') (db_failure db')"
    using db_transaction_ok [where from_err = id and execute = "stage_pending b" and X = X, OF laws db tx(1) batch_named [OF b tx(2)]] by blast
  have "case out of Inr c \<Rightarrow> (case cm_change_id c of None \<Rightarrow> db_table CF CK db' = db_table CF CK db
        | Some _ \<Rightarrow> batch_applied b (db_table CF CK db) (db_table CF CK db'))
      | Inl _ \<Rightarrow> db_table CF CK db' = db_table CF CK db \<or> batch_applied b (db_table CF CK db) (db_table CF CK db')"
    using t(3) batch_appliedI [OF b tx(2), of "db_table CF CK db" _ "db_table CF CK db'"]
    by (auto simp: transacted_def split: if_splits)
  then show ?thesis using t(1,2) by blast
qed

lemma disk_commit_ok:
  assumes X: "nebu_laws X" and laws: "engine_laws F CF R CK V" and ok: "disk_ok CF CK X s"
  shows "\<exists>s' r. disk_commit X F R s = Some (s', r) \<and> disk_ok CF CK X s' \<and> disk_view CF CK X s' = disk_view CF CK X s \<and>
    (\<forall>i. r = Inr i \<longrightarrow> net_changes (ds_pending s') = fmempty)"
proof -
  have b: "buffer_ok (ds_pending s)" and db: "database_ok (ds_db s)" using ok by (simp_all add: disk_ok_def mem_ok_def)
  show ?thesis
  proof (cases "disk_ready s")
    case (Inl e)
    then show ?thesis using ok by (simp add: disk_commit_def)
  next
    case ready: (Inr u)
    then have fail: "db_failure (ds_db s) = None" by (auto simp: disk_ready_def db_ready_def result_simps split: option.splits)
    show ?thesis
    proof (cases "disk_has_pending s")
      case False
      obtain r where "db_read X F R (ds_db s) Metadata last_commit_key 32 = Some r" using db_read_ok [OF laws db, of Metadata X last_commit_key 32] by auto
      moreover have "net_changes (ds_pending s) = fmempty"
        using False by (simp add: disk_has_pending_def net_changes_def sorted_list_of_fset.rep_eq)
      ultimately show ?thesis using ready False ok by (simp add: disk_commit_def disk_last_commit_def)
    next
      case pend: True
      obtain db' out where t: "db_transaction X F R id (ds_db s) (stage_pending (ds_pending s)) = Some (db', out)" "database_ok db'"
          "case out of Inr c \<Rightarrow> (case cm_change_id c of None \<Rightarrow> db_table CF CK db' = db_table CF CK (ds_db s)
              | Some _ \<Rightarrow> batch_applied (ds_pending s) (db_table CF CK (ds_db s)) (db_table CF CK db'))
            | Inl _ \<Rightarrow> db_table CF CK db' = db_table CF CK (ds_db s) \<or> batch_applied (ds_pending s) (db_table CF CK (ds_db s)) (db_table CF CK db')"
        using disk_batch_transaction [OF laws b db fail] by blast
      note keep = disk_same_view [OF X ok t(2)]
      have unk: "net_changes (ds_pending s\<lparr>wb_unknown := u\<rparr>) = net_changes (ds_pending s)" "buffer_ok (ds_pending s\<lparr>wb_unknown := u\<rparr>)" for u
        using b by (simp_all add: net_changes_def buffer_ok_def)
      have upd: "s\<lparr>ds_db := db', ds_pending := b'\<rparr> = \<lparr>ds_db = db', ds_pending = b'\<rparr>" "s\<lparr>ds_db := db'\<rparr> = \<lparr>ds_db = db', ds_pending = ds_pending s\<rparr>" for b'
        by simp_all
      have c: "disk_commit X F R s = Some (case out of
          Inr c \<Rightarrow> (case cm_change_id c of None \<Rightarrow> (\<lparr>ds_db = db', ds_pending = ds_pending s\<rparr>, Inl (Corrupt ''missing shard commit identity''))
            | Some i \<Rightarrow> (\<lparr>ds_db = db', ds_pending = wb_finish (ds_pending s)\<rparr>, Inr i))
        | Inl e \<Rightarrow> (if is_unknown e then \<lparr>ds_db = db', ds_pending = (ds_pending s)\<lparr>wb_unknown := Some e\<rparr>\<rparr>
            else \<lparr>ds_db = db', ds_pending = ds_pending s\<rparr>, Inl e))"
        using ready pend t(1) by (simp add: disk_commit_def upd Let_def split: sum.split option.split)
      show ?thesis
      proof (cases out)
        case (Inl e)
        then show ?thesis using c t(3) keep [of "ds_pending s"] keep [of "(ds_pending s)\<lparr>wb_unknown := Some e\<rparr>"] unk b by (auto split: if_splits)
      next
        case (Inr cm)
        then show ?thesis
          using c t(3) keep [of "ds_pending s"] b disk_finished [OF X ok t(2)] by (cases "cm_change_id cm") auto
      qed
    qed
  qed
qed

lemma disk_view_valid:
  assumes X: "nebu_laws X" and ok: "disk_ok CF CK X s" and v: "disk_view CF CK X s (d, k) = Some v"
  shows "valid_value X v \<and> d \<le> EPHEMERAL"
proof (cases "d < EPHEMERAL")
  case True
  then show ?thesis
    using v ok pending_valid [OF ok True, of k v] stored_value_ok [OF X _ True, of CF CK "ds_db s" k v]
    by (auto simp: disk_view_def disk_ok_def split: option.splits)
next
  case False
  then show ?thesis using v ok mem_okD [of X "ds_pending s" d k v] by (simp add: disk_view_def disk_ok_def mem_view_def)
qed

lemma disk_contract:
  assumes X: "nebu_laws X" and laws: "engine_laws F CF R CK V"
  shows "shard_contract (disk_ops X F R) (disk_ok CF CK X) (disk_view CF CK X) X"
proof
  fix s d k v
  assume ok: "disk_ok CF CK X s" and v: "valid_value X v"
  obtain b r where r: "wb_put (ds_pending s) d k v = Some (b, r)" "case r of Inl e \<Rightarrow> b = ds_pending s | Inr _ \<Rightarrow> wb_stored (ds_pending s) b d k (Some v)"
    using wb_put_ok [of "ds_pending s" d k v] ok by (auto simp: disk_ok_def mem_ok_def)
  show "\<exists>s' r. so_put (disk_ops X F R) s d k v = Some (s', r) \<and> disk_ok CF CK X s' \<and> so_durability (disk_ops X F R) s' = so_durability (disk_ops X F R) s \<and>
      disk_view CF CK X s' = (case r of Inl _ \<Rightarrow> disk_view CF CK X s | Inr _ \<Rightarrow> (disk_view CF CK X s)((d, k) := Some v))"
    using r ok v disk_stored [OF ok, of b d k "Some v"] by (cases "disk_ready s"; cases r) (auto simp: disk_ops_def disk_put_def)
next
  fix s d k
  assume ok: "disk_ok CF CK X s"
  obtain b r where r: "wb_delete (ds_pending s) d k = Some (b, r)" "case r of Inl e \<Rightarrow> b = ds_pending s | Inr _ \<Rightarrow> wb_stored (ds_pending s) b d k None"
    using wb_delete_ok [of "ds_pending s" d k] ok by (auto simp: disk_ok_def mem_ok_def)
  obtain q where q: "disk_read X F R s d k MAX_VALUE_ELEMENTS = Some q" "\<forall>found. q = Inr found \<longrightarrow> found = disk_view CF CK X s (d, k)"
    using disk_read_ok [OF X laws ok] by blast
  show "\<exists>s' r. so_remove (disk_ops X F R) s d k = Some (s', r) \<and> disk_ok CF CK X s' \<and> so_durability (disk_ops X F R) s' = so_durability (disk_ops X F R) s \<and>
      (case r of Inl _ \<Rightarrow> disk_view CF CK X s' = disk_view CF CK X s
       | Inr old \<Rightarrow> old = disk_view CF CK X s (d, k) \<and> disk_view CF CK X s' = (disk_view CF CK X s)((d, k) := None))"
    using r q ok disk_stored [OF ok, of b d k None] by (cases q; cases r) (auto simp: disk_ops_def disk_remove_def)
next
  fix s
  assume ok: "disk_ok CF CK X s"
  show "\<exists>s' r. so_commit (disk_ops X F R) s = Some (s', r) \<and> disk_ok CF CK X s' \<and> so_durability (disk_ops X F R) s' = so_durability (disk_ops X F R) s \<and>
      disk_view CF CK X s' = disk_view CF CK X s"
    using disk_commit_ok [OF X laws ok] by (auto simp: disk_ops_def)
next
  fix s d k v
  assume ok: "disk_ok CF CK X s" and g: "so_get (disk_ops X F R) s d k = Some v"
  have "fmlookup (wb_cache (ds_pending s)) (d, k) = Some v" using g by (auto simp: disk_ops_def disk_get_def split: if_splits)
  moreover have "d < EPHEMERAL \<Longrightarrow> fmlookup (wb_cache (ds_pending s)) (d, k) = (case fmlookup (net_changes (ds_pending s)) (d, k) of None \<Rightarrow> None | Some v \<Rightarrow> v)"
    using ok by (simp add: disk_ok_def cache_synced_def)
  ultimately show "disk_view CF CK X s (d, k) = Some v" by (auto simp: disk_view_def split: option.splits)
qed (auto simp: disk_ops_def disk_read_ok [OF X laws] dest: disk_view_valid [OF X])

section \<open>Pages, resident values and the commit marker\<close>

text \<open>A page of a map: the entries of a dimension after a key, strictly ascending, none left out up to the last one, within the limits.\<close>

definition page_of_map :: "(entry_key \<Rightarrow> field_values option) \<Rightarrow> u8 \<Rightarrow> particle option \<Rightarrow> scan_limits \<Rightarrow> shard_entry list \<Rightarrow> bool" where
  "page_of_map m d after limits page \<longleftrightarrow> sorted_wrt (<) (map fst page) \<and> length page \<le> sl_max_entries limits \<and>
     sum_list (map (length \<circ> snd) page) \<le> sl_max_elements limits \<and>
     (\<forall>k v. (k, v) \<in> set page \<longleftrightarrow> m (d, k) = Some v \<and> (case after of None \<Rightarrow> True | Some a \<Rightarrow> a < k) \<and> (page \<noteq> [] \<longrightarrow> k \<le> fst (last page)))"

lemma page_of_mapI:
  assumes xs: "xs = page @ rest" "page = [] \<Longrightarrow> rest = []" and sorted: "sorted_wrt (<) (map fst xs)"
    and content: "\<And>k v. (k, v) \<in> set xs \<longleftrightarrow> m (d, k) = Some v \<and> (case after of None \<Rightarrow> True | Some a \<Rightarrow> a < k)"
    and size: "length page \<le> sl_max_entries limits" "sum_list (map (length \<circ> snd) page) \<le> sl_max_elements limits"
  shows "page_of_map m d after limits page"
proof -
  have member: "(k, v) \<in> set page \<longleftrightarrow> (k, v) \<in> set xs \<and> (page \<noteq> [] \<longrightarrow> k \<le> fst (last page))" for k v
  proof (cases "page = []")
    case False
    then obtain ps p where ps: "page = ps @ [p]" by (cases page rule: rev_cases) auto
    have "\<forall>q \<in> set ps. fst q < fst p" "\<forall>q \<in> set rest. fst p < fst q" using sorted by (auto simp: xs ps sorted_wrt_append)
    then show ?thesis by (fastforce simp: xs ps)
  qed (use xs in simp)
  have "sorted_wrt (<) (map fst page)" using sorted by (simp add: xs(1) sorted_wrt_append)
  then show ?thesis unfolding page_of_map_def member content using size by blast
qed

lemma scan_cache_page: "scan_cache c d after limits = Inr page \<Longrightarrow> page_of_map (fmlookup c) d after limits page"
proof -
  let ?s = "wb_new\<lparr>wb_cache := c\<rparr>"
  assume "scan_cache c d after limits = Inr page"
  then have "mem_scan ?s d after limits = Inr page" by (simp add: mem_scan_def)
  from mem_scan_page [OF this] obtain rest where r: "entries_after ?s d after = page @ rest" "length page \<le> sl_max_entries limits"
      "sum_list (map (length \<circ> snd) page) \<le> sl_max_elements limits" "page = [] \<Longrightarrow> rest = []" by (auto split: if_splits)
  show ?thesis
  proof (rule page_of_mapI [OF r(1,4)])
    show "sorted_wrt (<) (map fst (entries_after ?s d after))" using entries_sorted [of ?s d after] by (simp add: strict_sorted_iff)
    show "(k, v) \<in> set (entries_after ?s d after) \<longleftrightarrow> fmlookup c (d, k) = Some v \<and> (case after of None \<Rightarrow> True | Some a \<Rightarrow> a < k)" for k v
      by (force simp: entries_after_def cache_range_def set_sorted_list_of_fmap)
  qed (use r in simp_all)
qed

text \<open>The rows of a shard, decoded.\<close>

definition row_entry :: "ext \<Rightarrow> raw_entry \<Rightarrow> shard_entry" where
  "row_entry X row = (of_be_bytes (fst row), case deserialize_goldilocks X (snd row) MAX_VALUE_ELEMENTS of Inl _ \<Rightarrow> [] | Inr vs \<Rightarrow> vs)"

lemma decode_row_entry:
  assumes X: "nebu_laws X" and m: "m \<le> MAX_VALUE_ELEMENTS" and v: "valid_value X vs" and r: "decode_row X m (key, serialize_goldilocks vs) = Inr e"
  shows "e = row_entry X (key, serialize_goldilocks vs)"
  using r decode_stored [OF X m v] deserialize_valid [OF X v]
  by (auto simp: decode_row_def row_entry_def result_simps split: if_splits sum.splits)

lemma decoded_prefix:
  assumes "map f xs = map Inr page @ r" and "\<forall>x \<in> set xs. \<forall>e. f x = Inr e \<longrightarrow> e = g x"
  shows "\<exists>rest. map g xs = page @ rest"
  using assms
proof (induction page arbitrary: xs)
  case (Cons p page)
  then obtain x ys where xs: "xs = x # ys" "f x = Inr p" "map f ys = map Inr page @ r" by (cases xs) auto
  then show ?case using Cons.IH [of ys] Cons.prems(2) by auto
qed simp

lemma row_entries_sorted:
  assumes len: "\<forall>row \<in> set rows. length (fst row) = 32" and sorted: "sorted_wrt (<) (map fst rows)"
  shows "sorted_wrt (<) (map fst (map (row_entry X) rows))"
proof -
  have "of_be_bytes (fst x) < (of_be_bytes (fst y) :: particle)" if "x \<in> set rows" "y \<in> set rows" "fst x < fst y" for x y :: raw_entry
    using that len be_bytes_less [where n = 32, of "of_be_bytes (fst x) :: particle" "of_be_bytes (fst y)"] by simp
  then show ?thesis using sorted by (auto simp: sorted_wrt_map row_entry_def elim!: sorted_wrt_mono_rel [rotated])
qed

lemma shard_rows:
  assumes rows: "rows_ok X (db_table CF CK db)" and d: "d < EPHEMERAL"
  shows "(k, v) \<in> set (map (row_entry X) (rows_after (db_table CF CK db (Shard d)) (map_option (be_bytes 32) after) [])) \<longleftrightarrow>
    stored_value CF CK X db d k = Some v \<and> (case after of None \<Rightarrow> True | Some a \<Rightarrow> a < k)"
proof -
  let ?T = "db_table CF CK db (Shard d)"
  have order: "be_bytes 32 a < be_bytes 32 b \<longleftrightarrow> a < b" for a b :: particle by (rule be_bytes_less) simp
  have "(k, v) \<in> set (map (row_entry X) (rows_after ?T (map_option (be_bytes 32) after) [])) \<longleftrightarrow>
      (\<exists>key bs. fmlookup ?T key = Some bs \<and> (case after of None \<Rightarrow> True | Some a \<Rightarrow> be_bytes 32 a < key) \<and> row_entry X (key, bs) = (k, v))"
    by (force simp: rows_after_def set_sorted_list_of_fmap split: option.splits)
  also have "\<dots> \<longleftrightarrow> (\<exists>bs. fmlookup ?T (be_bytes 32 k) = Some bs \<and> (case after of None \<Rightarrow> True | Some a \<Rightarrow> a < k) \<and> row_entry X (be_bytes 32 k, bs) = (k, v))"
  proof -
    have "key = be_bytes 32 k" if "fmlookup ?T key = Some bs" "row_entry X (key, bs) = (k, v)" for key bs
      using that rows d by (auto simp: rows_ok_def row_entry_def)
    then show ?thesis by (cases after) (fastforce simp: order)+
  qed
  also have "\<dots> \<longleftrightarrow> stored_value CF CK X db d k = Some v \<and> (case after of None \<Rightarrow> True | Some a \<Rightarrow> a < k)"
    by (auto simp: stored_value_def row_entry_def)
  finally show ?thesis .
qed

lemma shard_page:
  assumes X: "nebu_laws X" and rows: "rows_ok X (db_table CF CK db)" and d: "d < EPHEMERAL" and m: "sl_max_elements limits \<le> MAX_VALUE_ELEMENTS"
    and page: "page_of (rows_after (db_table CF CK db (Shard d)) (map_option (be_bytes 32) after) []) bl raws" "0 < bl_max_entries bl"
    and col: "collect_page (map (decode_row X (sl_max_elements limits)) raws) limits = Inr es"
  shows "page_of_map (\<lambda>(d, k). stored_value CF CK X db d k) d after limits es"
proof -
  let ?rows = "rows_after (db_table CF CK db (Shard d)) (map_option (be_bytes 32) after) []" and ?m = "sl_max_elements limits" and ?n = "sl_max_entries limits"
  obtain tl where tl: "?rows = raws @ tl" "raws = [] \<Longrightarrow> tl = []" using page by (auto simp: page_of_def)
  have loop: "page_loop ?m 0 (take ?n (map (decode_row X ?m) raws)) = Inr es" and pos: "0 < ?n"
    using col by (auto simp: collect_page_def scan_validate_def result_simps split: if_splits)
  from page_loop_prefix [OF loop] obtain r where r: "map (decode_row X ?m) (take ?n raws) = map Inr es @ r"
    and size: "sum_list (map (length \<circ> snd) es) \<le> ?m" and empty: "es = [] \<Longrightarrow> take ?n raws = []" by (auto simp: take_map)
  have row: "length (fst x) = 32 \<and> (\<exists>vs. valid_value X vs \<and> snd x = serialize_goldilocks vs)" if "x \<in> set ?rows" for x
  proof -
    have "x \<in> set (sorted_list_of_fmap (db_table CF CK db (Shard d)))" using that unfolding rows_after_def by (rule filter_is_subset [THEN subsetD])
    then have "fmlookup (db_table CF CK db (Shard d)) (fst x) = Some (snd x)" by (metis prod.collapse set_sorted_list_of_fmap)
    then show ?thesis using rows d unfolding rows_ok_def by blast
  qed
  have "\<forall>x \<in> set (take ?n raws). \<forall>e. decode_row X ?m x = Inr e \<longrightarrow> e = row_entry X x"
  proof (intro ballI allI impI)
    fix x e
    assume x: "x \<in> set (take ?n raws)" and e: "decode_row X ?m x = Inr e"
    have "x \<in> set ?rows" using in_set_takeD [OF x] by (simp add: tl(1))
    then obtain vs where "valid_value X vs" "snd x = serialize_goldilocks vs" using row by blast
    then show "e = row_entry X x" using decode_row_entry [OF X m] e by (metis prod.collapse)
  qed
  from decoded_prefix [OF r this] obtain r2 where r2: "map (row_entry X) (take ?n raws) = es @ r2" by blast
  have "map (row_entry X) raws = map (row_entry X) (take ?n raws) @ map (row_entry X) (drop ?n raws)" by (simp flip: map_append)
  then have all: "map (row_entry X) ?rows = es @ (r2 @ map (row_entry X) (drop ?n raws @ tl))" by (simp add: tl(1) r2)
  have len: "length es \<le> ?n" using arg_cong [OF r, of length] by simp
  show ?thesis
  proof (rule page_of_mapI [OF all])
    show "r2 @ map (row_entry X) (drop ?n raws @ tl) = []" if "es = []" using empty [OF that] r2 pos tl(2) by simp
    show "sorted_wrt (<) (map fst (map (row_entry X) ?rows))"
    proof (rule row_entries_sorted)
      have "sorted_wrt (<) (map fst (sorted_list_of_fmap (db_table CF CK db (Shard d))))" unfolding strict_sorted_iff using sorted_list_of_fmap_props(2,3) by blast
      then show "sorted_wrt (<) (map fst ?rows)" by (simp add: rows_after_def sorted_wrt_map sorted_wrt_filter)
    qed (use row in blast)
    show "(k, v) \<in> set (map (row_entry X) ?rows) \<longleftrightarrow> (case (d, k) of (d, k) \<Rightarrow> stored_value CF CK X db d k) = Some v \<and> (case after of None \<Rightarrow> True | Some a \<Rightarrow> a < k)" for k v
      using shard_rows [OF rows d] by simp
  qed (use len size in simp_all)
qed

lemma disk_scan_ok:
  assumes X: "nebu_laws X" and laws: "engine_laws F CF R CK V" and ok: "disk_ok CF CK X s"
  shows "\<exists>r. disk_scan X F R s d after limits = Some r \<and>
    (\<forall>page. r = Inr page \<longrightarrow> \<not> disk_has_pending s \<and> page_of_map (disk_view CF CK X s) d after limits page)"
proof (cases "and_then (disk_ready s) (\<lambda>_. and_then (check_dimension d) (\<lambda>_. and_then (scan_validate limits) (\<lambda>_. wb_clean (ds_pending s))))")
  case (Inl e)
  then show ?thesis by (simp add: disk_scan_def)
next
  case go: (Inr u)
  then have d: "d \<le> EPHEMERAL" and limits: "sl_max_elements limits \<le> MAX_VALUE_ELEMENTS" and clean: "\<not> disk_has_pending s"
    by (auto simp: check_dimension_def scan_validate_def check_read_limit_def wb_clean_def disk_has_pending_def result_simps split: if_splits sum.splits)
  show ?thesis
  proof (cases "d = EPHEMERAL")
    case True
    have "page_of_map (disk_view CF CK X s) d after limits page" if "scan_cache (wb_cache (ds_pending s)) d after limits = Inr page" for page
      using scan_cache_page [OF that] by (simp add: True page_of_map_def disk_view_def)
    then show ?thesis using go True clean by (simp add: disk_scan_def)
  next
    case False
    with d have d: "d < EPHEMERAL" by simp
    let ?bl = "\<lparr>bl_max_entries = sl_max_entries limits, bl_max_bytes = sl_max_elements limits * 8 + sl_max_entries limits * 32\<rparr>"
    have db: "database_ok (ds_db s)" and rows: "rows_ok X (db_table CF CK (ds_db s))" using ok by (simp_all add: disk_ok_def)
    obtain r where r: "db_scan X F R (ds_db s) (Shard d) (map_option (be_bytes 32) after) [] ?bl = Some r"
        "\<forall>page. r = Inr page \<longrightarrow> 0 < bl_max_entries ?bl \<and> page_of (rows_after (db_table CF CK (ds_db s) (Shard d)) (map_option (be_bytes 32) after) []) ?bl page"
      using db_scan_ok [OF laws db, of "Shard d" X "map_option (be_bytes 32) after" "[]" ?bl] shard_named d by (auto simp del: table_name.simps)
    have "net_changes (ds_pending s) = fmempty" using clean by (simp add: disk_has_pending_def net_changes_def sorted_list_of_fset.rep_eq)
    then have view: "page_of_map (disk_view CF CK X s) d after limits page" if "page_of_map (\<lambda>(d, k). stored_value CF CK X (ds_db s) d k) d after limits page" for page
      using that d by (simp add: page_of_map_def disk_view_def)
    have "page_of_map (disk_view CF CK X s) d after limits page"
      if "r = Inr raws" "collect_page (map (decode_row X (sl_max_elements limits)) raws) limits = Inr page" for raws page
      using view [OF shard_page [OF X rows d limits _ _ that(2)]] r(2) that(1) by blast
    then show ?thesis using go False clean r(1) by (cases r) (auto simp: disk_scan_def result_simps)
  qed
qed

lemma disk_get_view:
  assumes ok: "disk_ok CF CK X s"
  shows "disk_get s d k = (if disk_is_poisoned s \<or> d < EPHEMERAL \<and> fmlookup (net_changes (ds_pending s)) (d, k) = None then None else disk_view CF CK X s (d, k))"
  using ok by (auto simp: disk_get_def disk_view_def disk_ok_def cache_synced_def split: option.split)

lemma disk_iter_get: "sorted_wrt (<) (map fst (disk_iter s d)) \<and> (\<forall>k v. (k, v) \<in> set (disk_iter s d) \<longleftrightarrow> disk_get s d k = Some v)"
proof (cases "disk_is_poisoned s")
  case False
  then have "disk_iter s d = entries_after (ds_pending s) d None"
    by (simp add: disk_iter_def entries_after_def cache_range_def case_prod_unfold)
  moreover have "(k, v) \<in> set (entries_after (ds_pending s) d None) \<longleftrightarrow> fmlookup (wb_cache (ds_pending s)) (d, k) = Some v" for k v
    by (force simp: entries_after_def cache_range_def set_sorted_list_of_fmap)
  ultimately show ?thesis using entries_sorted [of "ds_pending s" d None] False by (simp add: strict_sorted_iff disk_get_def)
next
  case True
  then have "disk_iter s d = []" by (auto simp: disk_iter_def filter_empty_conv)
  then show ?thesis using True by (simp add: disk_get_def)
qed

text \<open>The commit marker.\<close>

definition commit_marker :: "('f \<Rightarrow> contents) \<Rightarrow> ('k \<Rightarrow> contents) \<Rightarrow> ('f, 'k) database \<Rightarrow> bytes option" where
  "commit_marker CF CK db = fmlookup (db_table CF CK db Metadata) last_commit_key"

lemma disk_last_commit_ok:
  assumes laws: "engine_laws F CF R CK V" and ok: "disk_ok CF CK X s"
  shows "\<exists>r. disk_last_commit X F R s = Some r \<and> (\<forall>found. r = Inr found \<longrightarrow> map_option (be_bytes 32) found = commit_marker CF CK (ds_db s))"
proof (cases "disk_ready s")
  case (Inr u)
  have db: "database_ok (ds_db s)" using ok by (simp add: disk_ok_def)
  obtain r where r: "db_read X F R (ds_db s) Metadata last_commit_key 32 = Some r" "\<forall>v. r = Inr v \<longrightarrow> v = commit_marker CF CK (ds_db s)"
    using db_read_ok [OF laws db, of Metadata X last_commit_key 32] by (auto simp: commit_marker_def)
  have "map_option (be_bytes 32) found = v" if "marker_opt v = Inr found" for v found
    using that by (auto simp: marker_opt_def decode_marker_def result_simps split: option.splits if_splits)
  then show ?thesis using r Inr by (cases r) (auto simp: disk_last_commit_def result_simps)
qed (simp add: disk_last_commit_def)


lemma disk_commit_marker:
  assumes laws: "engine_laws F CF R CK V" and ok: "disk_ok CF CK X s" and c: "disk_commit X F R s = Some (s', Inr i)" and pend: "disk_has_pending s"
  shows "commit_marker CF CK (ds_db s') = Some (be_bytes 32 i)"
proof -
  let ?b = "ds_pending s"
  have b: "buffer_ok ?b" and db: "database_ok (ds_db s)" using ok by (simp_all add: disk_ok_def mem_ok_def)
  have ready: "disk_ready s = Inr ()" using c by (auto simp: disk_commit_def split: sum.splits)
  then have fail: "db_failure (ds_db s) = None" by (auto simp: disk_ready_def db_ready_def result_simps split: option.splits)
  obtain tx where tx: "stage_pending ?b (tx_new (db_engine (ds_db s))) = Some (tx, Inr ())" "\<forall>a. fmlookup (tx_changes tx) a = map_of (batch_of ?b) a"
    using stage_pending_ok [OF b] by blast
  obtain db' out where t: "db_transaction X F R id (ds_db s) (stage_pending ?b) = Some (db', out)"
      "transacted (db_table CF CK (ds_db s)) id (tx_changes tx) (Inr ()) out (db_table CF CK db') (db_failure db')"
    using db_transaction_ok [where from_err = id and execute = "stage_pending ?b" and X = X, OF laws db fail tx(1) batch_named [OF b tx(2)]] by blast
  have out: "\<exists>cm. out = Inr cm \<and> cm_change_id cm = Some i" and s': "ds_db s' = db'"
    using c ready pend t(1) by (auto simp: disk_commit_def Let_def split: sum.splits option.splits if_splits)
  then have to: "changed_to (db_table CF CK (ds_db s)) (with_markers i (tx_changes tx)) (db_table CF CK db')" and "tx_changes tx \<noteq> fmempty"
    using t(2) by (auto simp: transacted_def split: if_splits)
  then obtain a w where "map_of (batch_of ?b) a = Some w" using tx(2) by (metis fmap_ext fmempty_lookup option.exhaust)
  with batch_address have "\<exists>d k. fmlookup (tx_changes tx) (Shard d, k) \<noteq> None" using tx(2) by (metis option.distinct(1))
  then show ?thesis
    using to [unfolded changed_to_def, rule_format, of Metadata last_commit_key] unfolding with_markers_lookup by (auto simp: commit_marker_def s' split: if_splits)
qed

text \<open>C28: The disk store implements a durable map, given what the database crates document. On a store in a consistent
  state every operation that reads or changes the map returns and keeps the state consistent, and the store answers as the map it stands for. A put or a removal
  that is accepted changes exactly its key, a refused one nothing, and a removal returns the previous value. A successful read returns the value of the map,
  staged or committed; a successful scan, only given when nothing is pending, returns the entries of the dimension after the cursor in strictly ascending order, within the limits,
  none left out up to the last one and none left when the page is empty. \<open>get\<close> and \<open>iter\<close> show the map where the value is resident: staged, or ephemeral. A commit
  changes nothing of the map whatever its outcome. After a commit that succeeds, a store opened afresh on the same database shows
  the same map on every persistent dimension, and the last commit, when it can be read, is the one of the identity returned.\<close>

theorem disk_store_durable_map:
  assumes "nebu_laws X" and "engine_laws F CF R CK V" and "disk_ok CF CK X s"
  shows "(\<exists>s' r. disk_commit X F R s = Some (s', r) \<and> disk_ok CF CK X s' \<and> disk_view CF CK X s' = disk_view CF CK X s \<and>
      (\<forall>i d k. r = Inr i \<longrightarrow> d < EPHEMERAL \<longrightarrow> disk_view CF CK X (disk_new (ds_db s')) (d, k) = disk_view CF CK X s (d, k)) \<and>
      (\<forall>i q found. r = Inr i \<longrightarrow> disk_has_pending s \<longrightarrow> disk_last_commit X F R s' = Some q \<longrightarrow> q = Inr found \<longrightarrow> found = Some i)) \<and>
    (\<forall>v d k. valid_value X v \<longrightarrow> (\<exists>s' r. disk_put s d k v = Some (s', r) \<and> disk_ok CF CK X s' \<and>
      disk_view CF CK X s' = (case r of Inl _ \<Rightarrow> disk_view CF CK X s | Inr _ \<Rightarrow> (disk_view CF CK X s)((d, k) := Some v)))) \<and>
    (\<forall>d k. \<exists>s' r. disk_remove X F R s d k = Some (s', r) \<and> disk_ok CF CK X s' \<and>
      (case r of Inl _ \<Rightarrow> disk_view CF CK X s' = disk_view CF CK X s
       | Inr old \<Rightarrow> old = disk_view CF CK X s (d, k) \<and> disk_view CF CK X s' = (disk_view CF CK X s)((d, k) := None))) \<and>
    (\<forall>d k m. \<exists>r. disk_read X F R s d k m = Some r \<and> (\<forall>found. r = Inr found \<longrightarrow> found = disk_view CF CK X s (d, k))) \<and>
    (\<forall>d after limits. \<exists>r. disk_scan X F R s d after limits = Some r \<and>
      (\<forall>page. r = Inr page \<longrightarrow> \<not> disk_has_pending s \<and> page_of_map (disk_view CF CK X s) d after limits page)) \<and>
    (\<forall>d k. disk_get s d k =
      (if disk_is_poisoned s \<or> d < EPHEMERAL \<and> fmlookup (net_changes (ds_pending s)) (d, k) = None then None else disk_view CF CK X s (d, k))) \<and>
    (\<forall>d. sorted_wrt (<) (map fst (disk_iter s d)) \<and> (\<forall>k v. (k, v) \<in> set (disk_iter s d) \<longleftrightarrow> disk_get s d k = Some v)) \<and>
    (\<exists>r. disk_last_commit X F R s = Some r \<and> (\<forall>found. r = Inr found \<longrightarrow> map_option (be_bytes 32) found = commit_marker CF CK (ds_db s)))"
proof (intro conjI allI)
  note C = disk_contract [OF assms(1,2)]
  have new: "net_changes wb_new = fmempty" by (simp add: net_changes_def wb_new_def sorted_list_of_fset.rep_eq)
  obtain s' r where c: "disk_commit X F R s = Some (s', r)" "disk_ok CF CK X s'" "disk_view CF CK X s' = disk_view CF CK X s"
      "\<forall>i. r = Inr i \<longrightarrow> net_changes (ds_pending s') = fmempty"
    using disk_commit_ok [OF assms] by blast
  have "disk_view CF CK X (disk_new (ds_db s')) (d, k) = disk_view CF CK X s (d, k)" if "r = Inr i" "d < EPHEMERAL" for i d k
  proof -
    have "net_changes (ds_pending s') = fmempty" using c(4) that by blast
    then show ?thesis using that fun_cong [OF c(3), of "(d, k)"] by (simp add: disk_view_def disk_new_def new)
  qed
  moreover have "found = Some i" if "r = Inr i" "disk_has_pending s" "disk_last_commit X F R s' = Some q" "q = Inr found" for i q found
    using disk_commit_marker [OF assms(2,3) c(1) [unfolded that(1)] that(2)] disk_last_commit_ok [OF assms(2) c(2)] that(3,4)
    by (auto simp: be_bytes_inj)
  ultimately show "\<exists>s' r. disk_commit X F R s = Some (s', r) \<and> disk_ok CF CK X s' \<and> disk_view CF CK X s' = disk_view CF CK X s \<and>
      (\<forall>i d k. r = Inr i \<longrightarrow> d < EPHEMERAL \<longrightarrow> disk_view CF CK X (disk_new (ds_db s')) (d, k) = disk_view CF CK X s (d, k)) \<and>
      (\<forall>i q found. r = Inr i \<longrightarrow> disk_has_pending s \<longrightarrow> disk_last_commit X F R s' = Some q \<longrightarrow> q = Inr found \<longrightarrow> found = Some i)"
    using c(1-3) by blast
  show "valid_value X v \<longrightarrow> (\<exists>s' r. disk_put s d k v = Some (s', r) \<and> disk_ok CF CK X s' \<and>
      disk_view CF CK X s' = (case r of Inl _ \<Rightarrow> disk_view CF CK X s | Inr _ \<Rightarrow> (disk_view CF CK X s)((d, k) := Some v)))" for v d k
    using shard_contract.put [OF C assms(3), where v = v and d = d and k = k] by (auto simp: disk_ops_def)
  show "\<exists>s' r. disk_remove X F R s d k = Some (s', r) \<and> disk_ok CF CK X s' \<and>
      (case r of Inl _ \<Rightarrow> disk_view CF CK X s' = disk_view CF CK X s
       | Inr old \<Rightarrow> old = disk_view CF CK X s (d, k) \<and> disk_view CF CK X s' = (disk_view CF CK X s)((d, k) := None))" for d k
    using shard_contract.remove [OF C assms(3), of d k] by (auto simp: disk_ops_def)
  show "\<exists>r. disk_read X F R s d k m = Some r \<and> (\<forall>found. r = Inr found \<longrightarrow> found = disk_view CF CK X s (d, k))" for d k m
    by (rule disk_read_ok [OF assms])
  show "\<exists>r. disk_scan X F R s d after limits = Some r \<and>
      (\<forall>page. r = Inr page \<longrightarrow> \<not> disk_has_pending s \<and> page_of_map (disk_view CF CK X s) d after limits page)" for d after limits
    by (rule disk_scan_ok [OF assms])
qed (use disk_get_view [OF assms(3)] disk_iter_get [of s] disk_last_commit_ok [OF assms(2,3)] in blast)+

definition sample_disk :: "(contents, contents) disk_store" where
  "sample_disk = disk_new (db_from_engine (Redb (\<lambda>_. fmempty)))"

lemma sample_disk_ok: "disk_ok id id X sample_disk"
proof -
  have "db_table id id (ds_db sample_disk) t = fmempty" for t
    by (simp add: sample_disk_def disk_new_def db_from_engine_def db_table_def engine_table_def engine_names_def split: option.split)
  then show ?thesis
    using mem_ok_new [of X] by (simp add: disk_ok_def sample_disk_def disk_new_def db_from_engine_def database_ok_def engine_ok_def rows_ok_def
      cache_synced_def net_changes_def wb_new_def sorted_list_of_fset.rep_eq)
qed

lemma sample_disk_commit:
  assumes ok: "disk_ok id id X s" and ready: "disk_ready s = Inr ()" and pend: "disk_has_pending s" and e: "db_engine (ds_db s) = Redb k"
  shows "\<exists>s' i. disk_commit X sample_fjall sample_redb s = Some (s', Inr i)"
proof -
  let ?b = "ds_pending s"
  have b: "buffer_ok ?b" using ok by (simp add: disk_ok_def mem_ok_def)
  have fail: "db_failure (ds_db s) = None" using ready by (auto simp: disk_ready_def db_ready_def result_simps split: option.splits)
  obtain tx where tx: "stage_pending ?b (tx_new (db_engine (ds_db s))) = Some (tx, Inr ())" "\<forall>a. fmlookup (tx_changes tx) a = map_of (batch_of ?b) a"
    using stage_pending_ok [OF b] by blast
  have named: "changes_named (tx_changes tx)" by (rule batch_named [OF b tx(2)])
  have "batch_of ?b \<noteq> []" using pend by (auto simp: batch_of_def disk_has_pending_def sorted_list_of_fset.rep_eq bot_fset.rep_eq fset_inject [symmetric])
  then have "fmlookup (tx_changes tx) (fst (hd (batch_of ?b))) \<noteq> None" unfolding tx(2) [rule_format] by (cases "batch_of ?b") auto
  then have dom: "fmdom (tx_changes tx) \<noteq> {||}" by (metis fmdom_notI fmempty_lookup fmrestrict_fset_dom fmrestrict_fset_null)
  obtain i where i: "db_change_id X (tx_changes tx) = Some i" using db_change_id_total [OF named] by blast
  obtain k' where k': "engine_commit sample_fjall sample_redb (db_engine (ds_db s)) (with_markers i (tx_changes tx)) i = Some (Redb k', Inr ())"
    using sample_commit [OF changes_named_markers [OF named], of sample_fjall k i i] by (auto simp: e)
  show ?thesis
    using db_transaction_commit [where execute = "stage_pending ?b" and from_err = id, OF fail tx(1) dom i k'] ready pend
    by (simp add: disk_commit_def Let_def)
qed

theorem disk_store_durable_map_witness:
  "\<exists>s1 s2 s3 i. disk_put sample_disk 0 1 [7] = Some (s1, Inr ()) \<and> disk_get s1 0 1 = Some [7] \<and>
     disk_commit sample_ext sample_fjall sample_redb s1 = Some (s2, Inr i) \<and> disk_view id id sample_ext (disk_new (ds_db s2)) (0, 1) = Some [7] \<and>
     disk_put sample_disk EPHEMERAL 5 [8] = Some (s3, Inr ()) \<and>
     disk_scan sample_ext sample_fjall sample_redb s3 EPHEMERAL None \<lparr>sl_max_entries = 4, sl_max_elements = 4\<rparr> = Some (Inr [(5, [8])]) \<and>
     disk_view id id sample_ext s3 (EPHEMERAL, 5) = Some [8]"
proof -
  have v: "valid_value sample_ext [7]" "valid_value sample_ext [8]" by (simp_all add: valid_value_def MAX_VALUE_ELEMENTS_def sample_ext_def)
  note putting = disk_put_def sample_disk_def disk_new_def db_from_engine_def disk_ready_def db_ready_def wb_ready_def wb_put_def wb_new_def check_dimension_def
      replaced_len_def check_key_capacity_def EPHEMERAL_def MAX_VALUE_ELEMENTS_def MAX_PENDING_ELEMENTS_def MAX_PENDING_KEYS_def fcard.rep_eq
  obtain s1 where s1: "disk_put sample_disk 0 1 [7] = Some (s1, Inr ())" "disk_ready s1 = Inr ()" "disk_has_pending s1" "db_engine (ds_db s1) = Redb (\<lambda>_. fmempty)"
      "fmlookup (wb_cache (ds_pending s1)) (0, 1) = Some [7]" "\<not> disk_is_poisoned s1"
    by (simp add: putting disk_has_pending_def disk_is_poisoned_def db_is_poisoned_def)
  obtain s3 where s3: "disk_put sample_disk EPHEMERAL 5 [8] = Some (s3, Inr ())"
      "disk_scan sample_ext sample_fjall sample_redb s3 EPHEMERAL None \<lparr>sl_max_entries = 4, sl_max_elements = 4\<rparr> = Some (Inr [(5, [8])])"
    by (simp add: putting disk_scan_def wb_clean_def scan_validate_def check_read_limit_def MAX_SCAN_ENTRIES_def scan_cache_def cache_range_def collect_page_def
      copy_value_def result_simps sorted_list_of_fmap_def sorted_list_of_fset.rep_eq)
  note all = disk_store_durable_map [OF nebu_laws_sample engine_laws_sample]
  note start = all [OF sample_disk_ok, THEN conjunct2, THEN conjunct1, rule_format]
  have ok1: "disk_ok id id sample_ext s1" and view1: "disk_view id id sample_ext s1 = (disk_view id id sample_ext sample_disk)((0, 1) := Some [7])"
    using start [OF v(1), of 0 1] s1(1) by simp_all
  have ok3: "disk_ok id id sample_ext s3" using start [OF v(2), of EPHEMERAL 5] s3(1) by simp
  obtain s2 i where s2: "disk_commit sample_ext sample_fjall sample_redb s1 = Some (s2, Inr i)"
    using sample_disk_commit [OF ok1 s1(2-4)] by blast
  have "disk_view id id sample_ext (disk_new (ds_db s2)) (0, 1) = Some [7]"
    using all [OF ok1, THEN conjunct1] s2 view1 by (auto simp: EPHEMERAL_def)
  moreover have "disk_view id id sample_ext s3 (EPHEMERAL, 5) = Some [8]"
  proof -
    have "page_of_map (disk_view id id sample_ext s3) EPHEMERAL None \<lparr>sl_max_entries = 4, sl_max_elements = 4\<rparr> [(5, [8])]"
      using all [OF ok3, THEN conjunct2, THEN conjunct2, THEN conjunct2, THEN conjunct2, THEN conjunct1, rule_format,
        of EPHEMERAL None "\<lparr>sl_max_entries = 4, sl_max_elements = 4\<rparr>"] s3(2) by simp
    then have "(5, [8]) \<in> set [(5, [8 :: u64])] \<longleftrightarrow> disk_view id id sample_ext s3 (EPHEMERAL, 5) = Some [8]" unfolding page_of_map_def by fastforce
    then show ?thesis by simp
  qed
  ultimately show ?thesis using s1(1,5,6) s2 s3 by (auto simp: disk_get_def)
qed

end
