(* ===== verification/Bbg_Tiered.thy ===== *)
theory Bbg_Tiered
  imports Bbg_Disk
begin

text \<open>
  The tiered store (\<open>storage/tiered.rs\<close>) over any store of the interface \<open>shard_ops\<close>: a hot cache, an authoritative warm store,
  an optional archive and an optional network tier. A value of \<open>Box<dyn ShardStore>\<close> is an element of the type \<open>'s\<close> with the operations \<open>S\<close>;
  \<open>dyn_ops\<close> dispatches on a store that is either in memory or on disk.
\<close>

section \<open>The tiered store\<close>

text \<open>Of a \<open>NetworkStore\<close> the tiered store uses \<open>fetch\<close>.\<close>

type_synonym network_fetch = "particle \<Rightarrow> bytes option"

record 's tiered_store =
  ti_hot :: 's
  ti_warm :: "'s option"
  ti_cold :: "'s option"
  ti_network :: "network_fetch option"
  ti_failure :: "storage_error option"

definition tiered_new :: "'s \<Rightarrow> 's tiered_store" where
  "tiered_new hot = \<lparr>ti_hot = hot, ti_warm = None, ti_cold = None, ti_network = None, ti_failure = None\<rparr>"

definition with_warm :: "'s shard_ops \<Rightarrow> 's tiered_store \<Rightarrow> 's \<Rightarrow> 's tiered_store storage_result" where
  "with_warm S t warm =
     (if ti_warm t \<noteq> None then Inl (Unsupported ''WARM is already attached'')
      else if so_durability S warm = Disk \<and> so_durability S (ti_hot t) \<noteq> Memory then Inl (Unsupported ''durable WARM requires a memory HOT tier'')
      else if so_durability S warm = Disk \<and> (so_pending S (ti_hot t) \<or> list_ex (\<lambda>d. so_iter S (ti_hot t) (of_nat d) \<noteq> []) [0..<unat EPHEMERAL])
      then Inl (Unsupported ''attach durable WARM to an empty persistent HOT cache'')
      else Inr (t\<lparr>ti_warm := Some warm\<rparr>))"

definition with_cold :: "'s tiered_store \<Rightarrow> 's \<Rightarrow> 's tiered_store" where
  "with_cold t cold = t\<lparr>ti_cold := Some cold\<rparr>"

definition with_network :: "'s tiered_store \<Rightarrow> network_fetch \<Rightarrow> 's tiered_store" where
  "with_network t net = t\<lparr>ti_network := Some net\<rparr>"

definition ti_ready :: "'s tiered_store \<Rightarrow> unit storage_result" where
  "ti_ready t = (case ti_failure t of Some e \<Rightarrow> Inl e | None \<Rightarrow> Inr ())"

definition retain_failure :: "'s tiered_store \<Rightarrow> 'a storage_result \<Rightarrow> 's tiered_store \<times> 'a storage_result" where
  "retain_failure t r = (case r of Inl e \<Rightarrow> (t\<lparr>ti_failure := Some e\<rparr>, Inl e) | Inr a \<Rightarrow> (t, Inr a))"

definition ti_is_poisoned :: "'s shard_ops \<Rightarrow> 's tiered_store \<Rightarrow> bool" where
  "ti_is_poisoned S t \<longleftrightarrow> ti_failure t \<noteq> None \<or> so_poisoned S (ti_hot t) \<or> (case ti_warm t of None \<Rightarrow> False | Some w \<Rightarrow> so_poisoned S w)"

definition ti_get :: "'s shard_ops \<Rightarrow> 's tiered_store \<Rightarrow> u8 \<Rightarrow> particle \<Rightarrow> field_values option" where
  "ti_get S t dimension key =
     (if ti_is_poisoned S t then None
      else case so_get S (ti_hot t) dimension key of
        Some v \<Rightarrow> Some v
      | None \<Rightarrow>
          if dimension = EPHEMERAL then None
          else case ti_warm t of
            Some warm \<Rightarrow> so_get S warm dimension key
          | None \<Rightarrow> (case ti_cold t of None \<Rightarrow> None | Some cold \<Rightarrow> so_get S cold dimension key))"

definition ti_read :: "'s shard_ops \<Rightarrow> 's tiered_store \<Rightarrow> u8 \<Rightarrow> particle \<Rightarrow> nat \<Rightarrow> field_values option storage_result option" where
  "ti_read S t dimension key max_elements =
     (case ti_ready t of
        Inl e \<Rightarrow> Some (Inl e)
      | Inr _ \<Rightarrow>
          (case (if dimension \<noteq> EPHEMERAL then ti_warm t else None) of
             Some warm \<Rightarrow>
               (case (if \<not> so_poisoned S warm then so_get S (ti_hot t) dimension key else None) of
                  Some hot \<Rightarrow> Some (and_then (copy_value hot max_elements) (\<lambda>v. Inr (Some v)))
                | None \<Rightarrow> so_read S warm dimension key max_elements)
           | None \<Rightarrow> do {
               r \<leftarrow> so_read S (ti_hot t) dimension key max_elements;
               case r of
                 Inl e \<Rightarrow> Some (Inl e)
               | Inr found \<Rightarrow>
                   if found \<noteq> None \<or> dimension = EPHEMERAL then Some (Inr found)
                   else case ti_cold t of None \<Rightarrow> Some (Inr None) | Some cold \<Rightarrow> so_read S cold dimension key max_elements }))"

definition promote :: "'s shard_ops \<Rightarrow> 's tiered_store \<Rightarrow> u8 \<Rightarrow> particle \<Rightarrow> ('s tiered_store \<times> bool storage_result) option" where
  "promote S t dimension key =
     (case ti_ready t of
        Inl e \<Rightarrow> Some (t, Inl e)
      | Inr _ \<Rightarrow> do {
          r \<leftarrow> ti_read S t dimension key MAX_VALUE_ELEMENTS;
          case r of
            Inl e \<Rightarrow> Some (t, Inl e)
          | Inr None \<Rightarrow> Some (t, Inr False)
          | Inr (Some v) \<Rightarrow> do {
              (hot, r) \<leftarrow> so_put S (ti_hot t) dimension key v;
              Some (t\<lparr>ti_hot := hot\<rparr>, and_then r (\<lambda>_. Inr True)) } })"

definition evict :: "'s shard_ops \<Rightarrow> 's tiered_store \<Rightarrow> u8 \<Rightarrow> particle \<Rightarrow> ('s tiered_store \<times> unit storage_result) option" where
  "evict S t dimension key =
     (case and_then (ti_ready t) (\<lambda>_. check_dimension dimension) of
        Inl e \<Rightarrow> Some (t, Inl e)
      | Inr _ \<Rightarrow>
          if dimension = EPHEMERAL then Some (t, Inr ())
          else case ti_warm t of
            None \<Rightarrow> Some (t, Inr ())
          | Some warm \<Rightarrow>
              if so_pending S warm then Some (t, Inr ())
              else do {
                let hot = so_get S (ti_hot t) dimension key;
                r \<leftarrow> so_read S warm dimension key MAX_VALUE_ELEMENTS;
                case r of
                  Inl e \<Rightarrow> Some (t, Inl e)
                | Inr None \<Rightarrow> Some (t, Inr ())
                | Inr (Some v) \<Rightarrow>
                    if hot = Some v then do {
                      (h, r) \<leftarrow> so_remove S (ti_hot t) dimension key;
                      Some (t\<lparr>ti_hot := h\<rparr>, and_then r (\<lambda>_. Inr ())) }
                    else Some (t, Inr ()) })"

definition fetch_content :: "ext \<Rightarrow> 's tiered_store \<Rightarrow> particle \<Rightarrow> bytes option" where
  "fetch_content X t particle = do {
     net \<leftarrow> ti_network t;
     bs \<leftarrow> net particle;
     if hm_hash X bs = particle then Some bs else None }"

definition archive :: "'s shard_ops \<Rightarrow> 's tiered_store \<Rightarrow> ('s tiered_store \<times> particle option storage_result) option" where
  "archive S t =
     (case ti_ready t of
        Inl e \<Rightarrow> Some (t, Inl e)
      | Inr _ \<Rightarrow> (case ti_cold t of
          None \<Rightarrow> Some (t, Inr None)
        | Some cold \<Rightarrow> do {
            (c, r) \<leftarrow> so_commit S cold;
            Some (t\<lparr>ti_cold := Some c\<rparr>, and_then r (\<lambda>i. Inr (Some i))) }))"

definition ti_put :: "'s shard_ops \<Rightarrow> 's tiered_store \<Rightarrow> u8 \<Rightarrow> particle \<Rightarrow> field_values \<Rightarrow> ('s tiered_store \<times> unit storage_result) option" where
  "ti_put S t dimension key value =
     (case ti_ready t of
        Inl e \<Rightarrow> Some (t, Inl e)
      | Inr _ \<Rightarrow> do {
          (t, w) \<leftarrow> (case (if dimension \<noteq> EPHEMERAL then ti_warm t else None) of
             None \<Rightarrow> Some (t, Inr ())
           | Some warm \<Rightarrow> map_option (apfst (\<lambda>warm. t\<lparr>ti_warm := Some warm\<rparr>)) (so_put S warm dimension key value));
          case w of
            Inl e \<Rightarrow> Some (t, Inl e)
          | Inr _ \<Rightarrow> do {
              (hot, r) \<leftarrow> so_put S (ti_hot t) dimension key value;
              let t = t\<lparr>ti_hot := hot\<rparr>;
              Some (if dimension \<noteq> EPHEMERAL \<and> ti_warm t \<noteq> None then retain_failure t r else (t, r)) } })"

definition ti_has_pending :: "'s shard_ops \<Rightarrow> 's tiered_store \<Rightarrow> bool" where
  "ti_has_pending S t \<longleftrightarrow> so_pending S (ti_hot t) \<or> (case ti_warm t of None \<Rightarrow> False | Some w \<Rightarrow> so_pending S w)"

definition ti_durability :: "'s shard_ops \<Rightarrow> 's tiered_store \<Rightarrow> durability" where
  "ti_durability S t = (case ti_warm t of None \<Rightarrow> so_durability S (ti_hot t) | Some w \<Rightarrow> so_durability S w)"

definition ti_commit :: "'s shard_ops \<Rightarrow> 's tiered_store \<Rightarrow> ('s tiered_store \<times> particle storage_result) option" where
  "ti_commit S t =
     (case ti_ready t of
        Inl e \<Rightarrow> Some (t, Inl e)
      | Inr _ \<Rightarrow> do {
          (t, w) \<leftarrow> (case ti_warm t of
             None \<Rightarrow> Some (t, Inr None)
           | Some warm \<Rightarrow> map_option (\<lambda>(warm, r). (t\<lparr>ti_warm := Some warm\<rparr>, and_then r (\<lambda>i. Inr (Some i)))) (so_commit S warm));
          case w of
            Inl e \<Rightarrow> Some (retain_failure t (Inl e))
          | Inr durable_id \<Rightarrow> do {
              (hot, r) \<leftarrow> so_commit S (ti_hot t);
              let t = t\<lparr>ti_hot := hot\<rparr>;
              Some (retain_failure t (case r of
                Inl e \<Rightarrow> Inl (case durable_id of
                  Some change_id \<Rightarrow> if ti_durability S t = Disk
                    then CommitUnknown change_id (''WARM committed; HOT publication failed: '' @ error_display e) else e
                | None \<Rightarrow> e)
              | Inr hot_id \<Rightarrow> Inr (case durable_id of Some i \<Rightarrow> i | None \<Rightarrow> hot_id))) } })"

definition ti_last_commit :: "'s shard_ops \<Rightarrow> 's tiered_store \<Rightarrow> particle option storage_result option" where
  "ti_last_commit S t =
     (case ti_ready t of
        Inl e \<Rightarrow> Some (Inl e)
      | Inr _ \<Rightarrow> (case ti_warm t of None \<Rightarrow> so_last_commit S (ti_hot t) | Some w \<Rightarrow> so_last_commit S w))"

definition ti_scan :: "'s shard_ops \<Rightarrow> 's tiered_store \<Rightarrow> u8 \<Rightarrow> particle option \<Rightarrow> scan_limits \<Rightarrow> shard_entry list storage_result option" where
  "ti_scan S t dimension after limits =
     (case ti_ready t of
        Inl e \<Rightarrow> Some (Inl e)
      | Inr _ \<Rightarrow>
          if dimension \<noteq> EPHEMERAL \<and> ti_warm t \<noteq> None then so_scan S (the (ti_warm t)) dimension after limits
          else if dimension \<noteq> EPHEMERAL \<and> ti_cold t \<noteq> None then Some (Inl (Unsupported ''scan mixed HOT/archive without WARM''))
          else so_scan S (ti_hot t) dimension after limits)"

definition ti_get_mut :: "'s shard_ops \<Rightarrow> 's tiered_store \<Rightarrow> u8 \<Rightarrow> particle \<Rightarrow> (field_values \<Rightarrow> field_values) \<Rightarrow> 's tiered_store option" where
  "ti_get_mut S t dimension key f =
     (if ti_is_poisoned S t then None
      else map_option (\<lambda>hot. t\<lparr>ti_hot := hot\<rparr>) (so_get_mut S (ti_hot t) dimension key f))"

definition ti_mark_dirty :: "'s shard_ops \<Rightarrow> 's tiered_store \<Rightarrow> u8 \<Rightarrow> particle \<Rightarrow> ('s tiered_store \<times> unit storage_result) option" where
  "ti_mark_dirty S t dimension key =
     (case and_then (ti_ready t) (\<lambda>_. check_dimension dimension) of
        Inl e \<Rightarrow> Some (t, Inl e)
      | Inr _ \<Rightarrow> do {
          (t, w) \<leftarrow> (case (if dimension \<noteq> EPHEMERAL then (so_get S (ti_hot t) dimension key, ti_warm t) else (None, None)) of
             (Some value, Some warm) \<Rightarrow> map_option (apfst (\<lambda>warm. t\<lparr>ti_warm := Some warm\<rparr>)) (so_put S warm dimension key value)
           | _ \<Rightarrow> Some (t, Inr ()));
          case w of
            Inl e \<Rightarrow> Some (retain_failure t (Inl e))
          | Inr _ \<Rightarrow> do {
              (hot, r) \<leftarrow> so_mark S (ti_hot t) dimension key;
              Some (retain_failure (t\<lparr>ti_hot := hot\<rparr>) r) } })"

definition ti_remove :: "'s shard_ops \<Rightarrow> 's tiered_store \<Rightarrow> u8 \<Rightarrow> particle \<Rightarrow> ('s tiered_store \<times> field_values option storage_result) option" where
  "ti_remove S t dimension key =
     (case ti_ready t of
        Inl e \<Rightarrow> Some (t, Inl e)
      | Inr _ \<Rightarrow>
          if dimension \<noteq> EPHEMERAL \<and> ti_warm t = None \<and> ti_cold t \<noteq> None then Some (t, Inl (Unsupported ''archive deletion requires authoritative WARM''))
          else do {
            r \<leftarrow> ti_read S t dimension key MAX_VALUE_ELEMENTS;
            case r of
              Inl e \<Rightarrow> Some (t, Inl e)
            | Inr value \<Rightarrow> do {
                (t, w) \<leftarrow> (case (if dimension \<noteq> EPHEMERAL then ti_warm t else None) of
                   None \<Rightarrow> Some (t, Inr None)
                 | Some warm \<Rightarrow> map_option (apfst (\<lambda>warm. t\<lparr>ti_warm := Some warm\<rparr>)) (so_remove S warm dimension key));
                case w of
                  Inl e \<Rightarrow> Some (t, Inl e)
                | Inr _ \<Rightarrow> do {
                    (hot, r) \<leftarrow> so_remove S (ti_hot t) dimension key;
                    let t = t\<lparr>ti_hot := hot\<rparr>;
                    let r = and_then r (\<lambda>_. Inr value);
                    Some (if dimension \<noteq> EPHEMERAL \<and> ti_warm t \<noteq> None then retain_failure t r else (t, r)) } } })"

definition ti_iter :: "'s shard_ops \<Rightarrow> 's tiered_store \<Rightarrow> u8 \<Rightarrow> shard_entry list" where
  "ti_iter S t dimension = (if ti_is_poisoned S t then [] else so_iter S (ti_hot t) dimension)"

section \<open>The tiers as one map\<close>

text \<open>The hot tier is in memory and a warm tier is attached. While nothing has failed, a persistent value in the hot tier is the
  value of the warm tier.\<close>

definition coherent :: "(entry_key \<Rightarrow> field_values option) \<Rightarrow> (entry_key \<Rightarrow> field_values option) \<Rightarrow> bool" where
  "coherent h w \<longleftrightarrow> (\<forall>d k v. d \<noteq> EPHEMERAL \<longrightarrow> h (d, k) = Some v \<longrightarrow> w (d, k) = Some v)"

definition tiered_ok :: "'s shard_ops \<Rightarrow> ('s \<Rightarrow> bool) \<Rightarrow> ('s \<Rightarrow> entry_key \<Rightarrow> field_values option) \<Rightarrow> 's tiered_store \<Rightarrow> bool" where
  "tiered_ok S ok view t \<longleftrightarrow> ok (ti_hot t) \<and> so_durability S (ti_hot t) = Memory \<and>
     (\<exists>w. ti_warm t = Some w \<and> ok w \<and> (ti_failure t = None \<longrightarrow> coherent (view (ti_hot t)) (view w))) \<and>
     (\<forall>c. ti_cold t = Some c \<longrightarrow> ok c)"

definition tiered_view :: "('s \<Rightarrow> entry_key \<Rightarrow> field_values option) \<Rightarrow> 's tiered_store \<Rightarrow> entry_key \<Rightarrow> field_values option" where
  "tiered_view view t key = (if fst key = EPHEMERAL then view (ti_hot t) key else case ti_warm t of None \<Rightarrow> None | Some w \<Rightarrow> view w key)"

text \<open>What an operation leaves: a consistent store, and unless it failed the map \<open>m\<close>.\<close>

definition tiered_to :: "'s shard_ops \<Rightarrow> ('s \<Rightarrow> bool) \<Rightarrow> ('s \<Rightarrow> entry_key \<Rightarrow> field_values option) \<Rightarrow> (entry_key \<Rightarrow> field_values option) \<Rightarrow> 's tiered_store \<Rightarrow> bool" where
  "tiered_to S ok view m t \<longleftrightarrow> tiered_ok S ok view t \<and> (ti_failure t = None \<longrightarrow> tiered_view view t = m)"

lemma tiered_okE:
  assumes "tiered_ok S ok view t"
  obtains w where "ok (ti_hot t)" "so_durability S (ti_hot t) = Memory" "ti_warm t = Some w" "ok w" "\<forall>c. ti_cold t = Some c \<longrightarrow> ok c"
    "ti_failure t = None \<longrightarrow> coherent (view (ti_hot t)) (view w)"
proof -
  obtain w where "ti_warm t = Some w" "ok w" "ti_failure t = None \<longrightarrow> coherent (view (ti_hot t)) (view w)"
    using assms by (auto simp: tiered_ok_def)
  moreover have "ok (ti_hot t)" "so_durability S (ti_hot t) = Memory" "\<forall>c. ti_cold t = Some c \<longrightarrow> ok c"
    using assms by (simp_all add: tiered_ok_def)
  ultimately show thesis by (intro that)
qed

lemma tiered_same: "tiered_ok S ok view t \<Longrightarrow> tiered_to S ok view (tiered_view view t) t"
  by (simp add: tiered_to_def)

lemma tiered_toI:
  assumes "ok h" "so_durability S h = Memory" "ok w" "\<forall>c. ti_cold t = Some c \<longrightarrow> ok c" "ti_hot t = h" "ti_warm t = Some w"
    and "ti_failure t = None \<Longrightarrow> coherent (view h) (view w)"
    and "ti_failure t = None \<Longrightarrow> \<forall>d k. m (d, k) = (if d = EPHEMERAL then view h (d, k) else view w (d, k))"
  shows "tiered_to S ok view m t"
  using assms unfolding tiered_to_def tiered_ok_def tiered_view_def by (auto simp: fun_eq_iff)

context shard_contract
begin

lemma ti_read_ok:
  assumes t: "tiered_ok S ok view t"
  shows "\<exists>r. ti_read S t d k m = Some r \<and> (\<forall>found. r = Inr found \<longrightarrow> found = tiered_view view t (d, k))"
proof -
  obtain w where w: "ok (ti_hot t)" "so_durability S (ti_hot t) = Memory" "ti_warm t = Some w" "ok w" "\<forall>c. ti_cold t = Some c \<longrightarrow> ok c"
    "ti_failure t = None \<longrightarrow> coherent (view (ti_hot t)) (view w)"
    by (rule tiered_okE [OF t])
  obtain h where h: "so_read S (ti_hot t) d k m = Some h" "\<forall>found. h = Inr found \<longrightarrow> found = view (ti_hot t) (d, k)" using read [OF w(1)] by blast
  obtain c where c: "so_read S w d k m = Some c" "\<forall>found. c = Inr found \<longrightarrow> found = view w (d, k)" using read [OF w(4)] by blast
  show ?thesis
  proof (cases "ti_failure t = None")
    case False
    then show ?thesis by (auto simp: ti_read_def ti_ready_def)
  next
    case ready: True
    show ?thesis
    proof (cases "d = EPHEMERAL")
      case True
      then show ?thesis using ready h by (cases h) (auto simp: ti_read_def ti_ready_def tiered_view_def)
    next
      case False
      have "view w (d, k) = Some v" if "so_get S (ti_hot t) d k = Some v" for v using w(6) ready get [OF w(1) that] False unfolding coherent_def by blast
      then show ?thesis
        using ready False c w(3)
        by (cases "so_get S (ti_hot t) d k"; cases "so_poisoned S w") (auto simp: ti_read_def ti_ready_def tiered_view_def copy_value_def result_simps split: if_splits)
    qed
  qed
qed

lemma ti_put_ok:
  assumes t: "tiered_ok S ok view t" and v: "valid_value X v"
  shows "\<exists>t' r. ti_put S t d k v = Some (t', r) \<and> (ti_failure t' = None \<longrightarrow> ti_failure t = None) \<and>
    tiered_to S ok view (case r of Inl _ \<Rightarrow> tiered_view view t | Inr _ \<Rightarrow> (tiered_view view t)((d, k) := Some v)) t'"
proof -
  obtain w where w: "ok (ti_hot t)" "so_durability S (ti_hot t) = Memory" "ti_warm t = Some w" "ok w" "\<forall>c. ti_cold t = Some c \<longrightarrow> ok c"
    "ti_failure t = None \<longrightarrow> coherent (view (ti_hot t)) (view w)"
    by (rule tiered_okE [OF t])
  obtain h a where h: "so_put S (ti_hot t) d k v = Some (h, a)" "ok h" "so_durability S h = so_durability S (ti_hot t)"
      "view h = (case a of Inl _ \<Rightarrow> view (ti_hot t) | Inr _ \<Rightarrow> (view (ti_hot t))((d, k) := Some v))"
    using put [OF w(1) v] by blast
  obtain w' b where b: "so_put S w d k v = Some (w', b)" "ok w'" "view w' = (case b of Inl _ \<Rightarrow> view w | Inr _ \<Rightarrow> (view w)((d, k) := Some v))"
    using put [OF w(4) v] by blast
  show ?thesis
  proof (cases "ti_failure t")
    case (Some e)
    then show ?thesis using t by (simp add: ti_put_def ti_ready_def tiered_same)
  next
    case None
    have coh: "coherent (view (ti_hot t)) (view w)" using w(6) None by blast
    show ?thesis
    proof (cases "d = EPHEMERAL")
      case True
      have "ti_put S t d k v = Some (t\<lparr>ti_hot := h\<rparr>, a)" using None True h(1) by (simp add: ti_put_def ti_ready_def)
      moreover have "tiered_to S ok view (case a of Inl _ \<Rightarrow> tiered_view view t | Inr _ \<Rightarrow> (tiered_view view t)((d, k) := Some v)) (t\<lparr>ti_hot := h\<rparr>)"
        using h(2-) w coh True by (intro tiered_toI [where h = h and w = w]) (auto simp: tiered_view_def coherent_def split: sum.splits if_splits)
      ultimately show ?thesis using None by auto
    next
      case False
      show ?thesis
      proof (cases b)
        case (Inl e)
        have "ti_put S t d k v = Some (t\<lparr>ti_warm := Some w'\<rparr>, Inl e)" using None False b(1) w(3) by (simp add: ti_put_def ti_ready_def Inl)
        moreover have "tiered_to S ok view (tiered_view view t) (t\<lparr>ti_warm := Some w'\<rparr>)"
          using b(2,3) w coh by (intro tiered_toI [where h = "ti_hot t" and w = w']) (auto simp: tiered_view_def coherent_def Inl)
        ultimately show ?thesis using None by auto
      next
        case (Inr u)
        let ?t = "t\<lparr>ti_warm := Some w', ti_hot := h\<rparr>"
        have "ti_put S t d k v = Some (retain_failure ?t a)" using None False b(1) h(1) w(3) by (simp add: ti_put_def ti_ready_def Inr Let_def)
        moreover have "tiered_to S ok view ((tiered_view view t)((d, k) := Some v)) ?t" if "a = Inr ()"
          using b(2,3) h(2-) w coh False that by (intro tiered_toI [where h = h and w = w']) (auto simp: tiered_view_def coherent_def Inr)
        moreover have "tiered_to S ok view m (?t\<lparr>ti_failure := Some e\<rparr>)" for m e
          using b(2) h(2,3) w by (intro tiered_toI [where h = h and w = w']) auto
        ultimately show ?thesis using None by (cases a) (auto simp: retain_failure_def)
      qed
    qed
  qed
qed

lemma ti_remove_ok:
  assumes t: "tiered_ok S ok view t"
  shows "\<exists>t' r. ti_remove S t d k = Some (t', r) \<and> (ti_failure t' = None \<longrightarrow> ti_failure t = None) \<and>
    tiered_to S ok view (case r of Inl _ \<Rightarrow> tiered_view view t | Inr _ \<Rightarrow> (tiered_view view t)((d, k) := None)) t' \<and>
    (\<forall>old. r = Inr old \<longrightarrow> old = tiered_view view t (d, k))"
proof -
  obtain w where w: "ok (ti_hot t)" "so_durability S (ti_hot t) = Memory" "ti_warm t = Some w" "ok w" "\<forall>c. ti_cold t = Some c \<longrightarrow> ok c"
    "ti_failure t = None \<longrightarrow> coherent (view (ti_hot t)) (view w)"
    by (rule tiered_okE [OF t])
  obtain h a where h: "so_remove S (ti_hot t) d k = Some (h, a)" "ok h" "so_durability S h = so_durability S (ti_hot t)"
      "case a of Inl _ \<Rightarrow> view h = view (ti_hot t) | Inr old \<Rightarrow> old = view (ti_hot t) (d, k) \<and> view h = (view (ti_hot t))((d, k) := None)"
    using remove [OF w(1)] by blast
  obtain w' b where b: "so_remove S w d k = Some (w', b)" "ok w'"
      "case b of Inl _ \<Rightarrow> view w' = view w | Inr old \<Rightarrow> old = view w (d, k) \<and> view w' = (view w)((d, k) := None)"
    using remove [OF w(4)] by blast
  obtain q where q: "ti_read S t d k MAX_VALUE_ELEMENTS = Some q" "\<forall>found. q = Inr found \<longrightarrow> found = tiered_view view t (d, k)"
    using ti_read_ok [OF t] by blast
  show ?thesis
  proof (cases "\<exists>e. ti_failure t = Some e \<or> q = Inl e")
    case True
    then show ?thesis using t q(1) w(3) by (cases "ti_failure t") (auto simp: ti_remove_def ti_ready_def tiered_same)
  next
    case False
    then obtain old where none: "ti_failure t = None" and old: "q = Inr old" by (cases q) auto
    have coh: "coherent (view (ti_hot t)) (view w)" using w(6) none by blast
    show ?thesis
    proof (cases "d = EPHEMERAL")
      case True
      have "ti_remove S t d k = Some (t\<lparr>ti_hot := h\<rparr>, and_then a (\<lambda>_. Inr old))"
        using none True h(1) q(1) old by (simp add: ti_remove_def ti_ready_def Let_def)
      moreover have "tiered_to S ok view (case a of Inl _ \<Rightarrow> tiered_view view t | Inr _ \<Rightarrow> (tiered_view view t)((d, k) := None)) (t\<lparr>ti_hot := h\<rparr>)"
        using h(2-) w coh True by (intro tiered_toI [where h = h and w = w]) (auto simp: tiered_view_def coherent_def split: sum.splits if_splits)
      ultimately show ?thesis using none q(2) old by (cases a) auto
    next
      case False
      show ?thesis
      proof (cases b)
        case (Inl e)
        have "ti_remove S t d k = Some (t\<lparr>ti_warm := Some w'\<rparr>, Inl e)" using none False b(1) w(3) q(1) old by (simp add: ti_remove_def ti_ready_def Inl)
        moreover have "tiered_to S ok view (tiered_view view t) (t\<lparr>ti_warm := Some w'\<rparr>)"
          using b(2,3) w coh by (intro tiered_toI [where h = "ti_hot t" and w = w']) (auto simp: tiered_view_def coherent_def Inl)
        ultimately show ?thesis using none by auto
      next
        case (Inr u)
        let ?t = "t\<lparr>ti_warm := Some w', ti_hot := h\<rparr>"
        have "ti_remove S t d k = Some (retain_failure ?t (and_then a (\<lambda>_. Inr old)))"
          using none False b(1) h(1) w(3) q(1) old by (simp add: ti_remove_def ti_ready_def Inr Let_def)
        moreover have "tiered_to S ok view ((tiered_view view t)((d, k) := None)) ?t" if "a = Inr x" for x
          using b(2,3) h(2-) w coh False that by (intro tiered_toI [where h = h and w = w']) (auto simp: tiered_view_def coherent_def Inr)
        moreover have "tiered_to S ok view m (?t\<lparr>ti_failure := Some e\<rparr>)" for m e
          using b(2) h(2,3) w by (intro tiered_toI [where h = h and w = w']) auto
        ultimately show ?thesis using none q(2) old by (cases a) (auto simp: retain_failure_def)
      qed
    qed
  qed
qed

text \<open>Marking an entry pushes the hot value into the warm tier, also when it was just edited in place.\<close>

lemma ti_mark_ok:
  assumes hot: "ok (ti_hot t)" "so_durability S (ti_hot t) = Memory" and w: "ti_warm t = Some w" "ok w" "\<forall>c. ti_cold t = Some c \<longrightarrow> ok c"
    and coh: "ti_failure t = None" "\<forall>d' k' v. d' \<noteq> EPHEMERAL \<longrightarrow> (d', k') \<noteq> (d, k) \<longrightarrow> view (ti_hot t) (d', k') = Some v \<longrightarrow> view w (d', k') = Some v"
  shows "\<exists>t' r. ti_mark_dirty S t d k = Some (t', r) \<and>
    tiered_to S ok view (\<lambda>key. if fst key = EPHEMERAL \<or> key = (d, k) \<and> view (ti_hot t) key \<noteq> None then view (ti_hot t) key else view w key) t' \<and>
    (\<forall>e. r = Inl e \<longrightarrow> d \<le> EPHEMERAL \<longrightarrow> ti_failure t' = Some e)"
    (is "\<exists>t' r. _ \<and> tiered_to S ok view ?m t' \<and> _")
proof (cases "EPHEMERAL < d")
  case True
  then have none: "view (ti_hot t) (d, k) = None" using bounded [OF hot(1), of d k] by (cases "view (ti_hot t) (d, k)") auto
  then have "coherent (view (ti_hot t)) (view w)" using coh(2) unfolding coherent_def by (metis option.distinct(1) prod.inject)
  then have "tiered_to S ok view ?m t"
    using hot w coh(1) none by (intro tiered_toI [where h = "ti_hot t" and w = w]) auto
  then show ?thesis using True coh(1) by (simp add: ti_mark_dirty_def ti_ready_def check_dimension_def)
next
  case dim: False
  then have ready: "and_then (ti_ready t) (\<lambda>_. check_dimension d) = Inr ()" using coh(1) by (simp add: ti_ready_def check_dimension_def)
  obtain h a where h: "so_mark S (ti_hot t) d k = Some (h, a)" "ok h" "so_durability S h = so_durability S (ti_hot t)" "view h = view (ti_hot t)"
    using mark [OF hot(1)] by blast
  have failed: "tiered_to S ok view ?m (u\<lparr>ti_failure := Some e\<rparr>)"
    if "ok (ti_hot u)" "so_durability S (ti_hot u) = Memory" "ti_warm u = Some w'" "ok w'" "ti_cold u = ti_cold t" for u w' e
    using that w(3) by (intro tiered_toI [where h = "ti_hot u" and w = w']) auto
  show ?thesis
  proof (cases "d = EPHEMERAL \<or> view (ti_hot t) (d, k) = None")
    case True
    have step: "ti_mark_dirty S t d k = Some (retain_failure (t\<lparr>ti_hot := h\<rparr>) a)"
      using True ready h(1) exact [OF hot] by (auto simp: ti_mark_dirty_def)
    have "coherent (view (ti_hot t)) (view w)" using True coh(2) unfolding coherent_def by (metis option.distinct(1) prod.inject)
    then have "tiered_to S ok view ?m (t\<lparr>ti_hot := h\<rparr>)"
      using True h hot w coh(1) by (intro tiered_toI [where h = h and w = w]) auto
    then show ?thesis using step failed [of "t\<lparr>ti_hot := h\<rparr>" w] h hot w by (cases a) (auto simp: retain_failure_def)
  next
    case False
    then obtain v where v: "view (ti_hot t) (d, k) = Some v" and d: "d \<noteq> EPHEMERAL" by auto
    have valid: "valid_value X v" using bounded [OF hot(1) v] by blast
    obtain w' b where b: "so_put S w d k v = Some (w', b)" "ok w'" "view w' = (case b of Inl _ \<Rightarrow> view w | Inr _ \<Rightarrow> (view w)((d, k) := Some v))"
      using put [OF w(2) valid] by blast
    show ?thesis
    proof (cases b)
      case (Inl e)
      have "ti_mark_dirty S t d k = Some (retain_failure (t\<lparr>ti_warm := Some w'\<rparr>) (Inl e))"
        using v d ready w(1) b(1) exact [OF hot, of d k] by (simp add: ti_mark_dirty_def Inl)
      then show ?thesis using failed [of "t\<lparr>ti_warm := Some w'\<rparr>" w'] hot b(2) by (auto simp: retain_failure_def)
    next
      case (Inr u)
      let ?t = "t\<lparr>ti_warm := Some w', ti_hot := h\<rparr>"
      have step: "ti_mark_dirty S t d k = Some (retain_failure ?t a)"
        using v d ready w(1) b(1) h(1) exact [OF hot, of d k] by (simp add: ti_mark_dirty_def Inr)
      have "tiered_to S ok view ?m ?t"
        using h hot w coh b(2,3) v d by (intro tiered_toI [where h = h and w = w']) (auto simp: coherent_def Inr)
      then show ?thesis using step failed [of ?t w'] h hot b(2) by (cases a) (auto simp: retain_failure_def)
    qed
  qed
qed

lemma ti_edit_ok:
  assumes t: "tiered_ok S ok view t" and f: "\<forall>v. valid_value X v \<longrightarrow> valid_value X (f v)" and e: "ti_get_mut S t d k f = Some t1"
  shows "ti_failure t = None \<and> (\<exists>t' r. ti_mark_dirty S t1 d k = Some (t', r) \<and>
    tiered_to S ok view ((tiered_view view t)((d, k) := map_option f (tiered_view view t (d, k)))) t' \<and> (\<forall>e. r = Inl e \<longrightarrow> ti_failure t' = Some e))"
proof -
  obtain w where w: "ok (ti_hot t)" "so_durability S (ti_hot t) = Memory" "ti_warm t = Some w" "ok w" "\<forall>c. ti_cold t = Some c \<longrightarrow> ok c"
    "ti_failure t = None \<longrightarrow> coherent (view (ti_hot t)) (view w)"
    by (rule tiered_okE [OF t])
  obtain h where h: "so_get_mut S (ti_hot t) d k f = Some h" and t1: "t1 = t\<lparr>ti_hot := h\<rparr>" and none: "ti_failure t = None"
    using e by (auto simp: ti_get_mut_def ti_is_poisoned_def split: if_splits)
  have vh: "ok h" "so_durability S h = Memory" "view (ti_hot t) (d, k) \<noteq> None" "view h = (view (ti_hot t))((d, k) := map_option f (view (ti_hot t) (d, k)))"
    using in_place [OF w(1) h f] w(2) by auto
  have coh: "coherent (view (ti_hot t)) (view w)" using w(6) none by blast
  have rest: "\<forall>d' k' v. d' \<noteq> EPHEMERAL \<longrightarrow> (d', k') \<noteq> (d, k) \<longrightarrow> view (ti_hot t1) (d', k') = Some v \<longrightarrow> view w (d', k') = Some v"
    using coh by (auto simp: t1 vh(4) coherent_def)
  have "(\<lambda>key. if fst key = EPHEMERAL \<or> key = (d, k) \<and> view (ti_hot t1) key \<noteq> None then view (ti_hot t1) key else view w key) =
      (tiered_view view t)((d, k) := map_option f (tiered_view view t (d, k)))"
  proof
    fix key :: entry_key
    obtain d' k' where key: "key = (d', k')" by (cases key)
    obtain v where v: "view (ti_hot t) (d, k) = Some v" using vh(3) by auto
    have "d \<noteq> EPHEMERAL \<Longrightarrow> view w (d, k) = Some v" using coh v by (auto simp: coherent_def)
    then show "(if fst key = EPHEMERAL \<or> key = (d, k) \<and> view (ti_hot t1) key \<noteq> None then view (ti_hot t1) key else view w key) =
      ((tiered_view view t)((d, k) := map_option f (tiered_view view t (d, k)))) key"
      using v w(3) by (auto simp: key t1 vh(4) tiered_view_def)
  qed
  moreover have "d \<le> EPHEMERAL" using bounded [OF w(1), of d k] vh(3) by blast
  moreover note ti_mark_ok [of t1 w d k]
  ultimately show ?thesis using none w vh(1,2) rest by (auto simp: t1)
qed

lemma ti_mark_same:
  assumes t: "tiered_ok S ok view t"
  shows "\<exists>t' r. ti_mark_dirty S t d k = Some (t', r) \<and> (ti_failure t' = None \<longrightarrow> ti_failure t = None) \<and> tiered_to S ok view (tiered_view view t) t'"
proof (cases "ti_failure t")
  case (Some e)
  then show ?thesis using t by (simp add: ti_mark_dirty_def ti_ready_def tiered_same)
next
  case None
  obtain w where w: "ok (ti_hot t)" "so_durability S (ti_hot t) = Memory" "ti_warm t = Some w" "ok w" "\<forall>c. ti_cold t = Some c \<longrightarrow> ok c"
    "ti_failure t = None \<longrightarrow> coherent (view (ti_hot t)) (view w)"
    by (rule tiered_okE [OF t])
  have coh: "\<forall>d' k' v. d' \<noteq> EPHEMERAL \<longrightarrow> view (ti_hot t) (d', k') = Some v \<longrightarrow> view w (d', k') = Some v" using w(6) None by (simp add: coherent_def)
  then have "(\<lambda>key. if fst key = EPHEMERAL \<or> key = (d, k) \<and> view (ti_hot t) key \<noteq> None then view (ti_hot t) key else view w key) = tiered_view view t"
    using w(3) by (auto simp: tiered_view_def fun_eq_iff)
  then show ?thesis using ti_mark_ok [OF w(1-5) None, of d k] coh None by auto
qed

lemma ti_promote_ok:
  assumes t: "tiered_ok S ok view t"
  shows "\<exists>t' r. promote S t d k = Some (t', r) \<and> ti_failure t' = ti_failure t \<and> tiered_to S ok view (tiered_view view t) t'"
proof -
  obtain w where w: "ok (ti_hot t)" "so_durability S (ti_hot t) = Memory" "ti_warm t = Some w" "ok w" "\<forall>c. ti_cold t = Some c \<longrightarrow> ok c"
    "ti_failure t = None \<longrightarrow> coherent (view (ti_hot t)) (view w)"
    by (rule tiered_okE [OF t])
  obtain q where q: "ti_read S t d k MAX_VALUE_ELEMENTS = Some q" "\<forall>found. q = Inr found \<longrightarrow> found = tiered_view view t (d, k)"
    using ti_read_ok [OF t] by blast
  show ?thesis
  proof (cases "\<exists>v. q = Inr (Some v) \<and> ti_failure t = None")
    case False
    then show ?thesis
      using q(1) t tiered_same [OF t] by (cases "ti_failure t"; cases q) (auto simp: promote_def ti_ready_def split: option.splits)
  next
    case True
    then obtain v where v: "q = Inr (Some v)" and none: "ti_failure t = None" by blast
    then have view_v: "tiered_view view t (d, k) = Some v" using q(2) by simp
    have valid: "valid_value X v"
      using view_v w bounded [OF w(1), of d k v] bounded [OF w(4), of d k v] by (auto simp: tiered_view_def split: if_splits)
    obtain h a where h: "so_put S (ti_hot t) d k v = Some (h, a)" "ok h" "so_durability S h = so_durability S (ti_hot t)"
        "view h = (case a of Inl _ \<Rightarrow> view (ti_hot t) | Inr _ \<Rightarrow> (view (ti_hot t))((d, k) := Some v))"
      using put [OF w(1) valid] by blast
    have "promote S t d k = Some (t\<lparr>ti_hot := h\<rparr>, and_then a (\<lambda>_. Inr True))" using none q(1) v h(1) by (simp add: promote_def ti_ready_def)
    moreover have "tiered_to S ok view (tiered_view view t) (t\<lparr>ti_hot := h\<rparr>)"
      using h(2-) w none view_v by (intro tiered_toI [where h = h and w = w]) (auto simp: tiered_view_def coherent_def split: sum.splits if_splits)
    ultimately show ?thesis by auto
  qed
qed

lemma ti_evict_ok:
  assumes t: "tiered_ok S ok view t"
  shows "\<exists>t' r. evict S t d k = Some (t', r) \<and> ti_failure t' = ti_failure t \<and> tiered_to S ok view (tiered_view view t) t'"
proof -
  obtain w where w: "ok (ti_hot t)" "so_durability S (ti_hot t) = Memory" "ti_warm t = Some w" "ok w" "\<forall>c. ti_cold t = Some c \<longrightarrow> ok c"
    "ti_failure t = None \<longrightarrow> coherent (view (ti_hot t)) (view w)"
    by (rule tiered_okE [OF t])
  obtain h a where h: "so_remove S (ti_hot t) d k = Some (h, a)" "ok h" "so_durability S h = so_durability S (ti_hot t)"
      "case a of Inl _ \<Rightarrow> view h = view (ti_hot t) | Inr old \<Rightarrow> old = view (ti_hot t) (d, k) \<and> view h = (view (ti_hot t))((d, k) := None)"
    using remove [OF w(1)] by blast
  obtain q where q: "so_read S w d k MAX_VALUE_ELEMENTS = Some q" using read [OF w(4)] by blast
  have to: "tiered_to S ok view (tiered_view view t) (t\<lparr>ti_hot := h\<rparr>)" if "d \<noteq> EPHEMERAL"
    using h(2-) w that by (intro tiered_toI [where h = h and w = w]) (auto simp: tiered_view_def coherent_def split: sum.splits if_splits)
  have "evict S t d k = Some (t, r) \<or> (\<exists>r. d \<noteq> EPHEMERAL \<and> evict S t d k = Some (t\<lparr>ti_hot := h\<rparr>, r))" 
    if "r = (case evict S t d k of None \<Rightarrow> Inr () | Some x \<Rightarrow> snd x)" for r
    unfolding that evict_def using h(1) q w(3) by (auto simp: Let_def split: sum.splits option.splits)
  then show ?thesis using to tiered_same [OF t] by (metis tiered_store.select_convs(5) tiered_store.surjective tiered_store.update_convs(1))
qed

lemma ti_commit_ok:
  assumes t: "tiered_ok S ok view t"
  shows "\<exists>t' r. ti_commit S t = Some (t', r) \<and> (ti_failure t' = None \<longrightarrow> ti_failure t = None) \<and> tiered_to S ok view (tiered_view view t) t'"
proof -
  obtain w where w: "ok (ti_hot t)" "so_durability S (ti_hot t) = Memory" "ti_warm t = Some w" "ok w" "\<forall>c. ti_cold t = Some c \<longrightarrow> ok c"
    "ti_failure t = None \<longrightarrow> coherent (view (ti_hot t)) (view w)"
    by (rule tiered_okE [OF t])
  obtain h a where h: "so_commit S (ti_hot t) = Some (h, a)" "ok h" "so_durability S h = so_durability S (ti_hot t)" "view h = view (ti_hot t)"
    using commit [OF w(1)] by blast
  obtain w' b where b: "so_commit S w = Some (w', b)" "ok w'" "view w' = view w" using commit [OF w(4)] by blast
  show ?thesis
  proof (cases "ti_failure t")
    case (Some e)
    then show ?thesis using t by (simp add: ti_commit_def ti_ready_def tiered_same)
  next
    case None
    have keep: "tiered_to S ok view (tiered_view view t) u"
      if "ti_hot u = h \<or> ti_hot u = ti_hot t" "ti_warm u = Some w'" "ti_cold u = ti_cold t" for u
      using that h b w None by (intro tiered_toI [where h = "ti_hot u" and w = w']) (auto simp: tiered_view_def)
    have "\<exists>u. (\<exists>r. ti_commit S t = Some (retain_failure u r)) \<and> (ti_hot u = h \<or> ti_hot u = ti_hot t) \<and> ti_warm u = Some w' \<and> ti_cold u = ti_cold t"
    proof (cases b)
      case (Inl e)
      have "ti_commit S t = Some (retain_failure (t\<lparr>ti_warm := Some w'\<rparr>) (Inl e))"
        using None w(3) b(1) by (simp add: ti_commit_def ti_ready_def Inl)
      then show ?thesis by (intro exI [of _ "t\<lparr>ti_warm := Some w'\<rparr>"]) auto
    next
      case (Inr i)
      have "\<exists>r. ti_commit S t = Some (retain_failure (t\<lparr>ti_warm := Some w', ti_hot := h\<rparr>) r)"
        using None w(3) h(1) b(1) by (simp add: ti_commit_def ti_ready_def Inr Let_def) (rule exI, rule refl)
      then show ?thesis by (intro exI [of _ "t\<lparr>ti_warm := Some w', ti_hot := h\<rparr>"]) auto
    qed
    then obtain r u where "ti_commit S t = Some (retain_failure u r)" and u: "ti_hot u = h \<or> ti_hot u = ti_hot t" "ti_warm u = Some w'" "ti_cold u = ti_cold t"
      by blast
    then show ?thesis using None keep [OF u] keep [of "u\<lparr>ti_failure := e\<rparr>" for e] by (cases r) (auto simp: retain_failure_def)
  qed
qed

lemma ti_archive_ok:
  assumes t: "tiered_ok S ok view t"
  shows "\<exists>t' r. archive S t = Some (t', r) \<and> ti_failure t' = ti_failure t \<and> tiered_to S ok view (tiered_view view t) t'"
proof (cases "ti_failure t = None \<and> ti_cold t \<noteq> None")
  case False
  then show ?thesis using tiered_same [OF t] by (auto simp: archive_def ti_ready_def split: option.splits)
next
  case True
  then obtain c where c: "ti_cold t = Some c" and none: "ti_failure t = None" by auto
  obtain w where w: "ok (ti_hot t)" "so_durability S (ti_hot t) = Memory" "ti_warm t = Some w" "ok w" "\<forall>c. ti_cold t = Some c \<longrightarrow> ok c"
    "ti_failure t = None \<longrightarrow> coherent (view (ti_hot t)) (view w)"
    by (rule tiered_okE [OF t])
  obtain c' a where "so_commit S c = Some (c', a)" "ok c'" using commit [of c] w(5) c by blast
  moreover have "tiered_to S ok view (tiered_view view t) (t\<lparr>ti_cold := Some c'\<rparr>)" if "ok c'"
    using w that by (intro tiered_toI [where h = "ti_hot t" and w = w]) (auto simp: tiered_view_def)
  ultimately show ?thesis using none c by (auto simp: archive_def ti_ready_def)
qed

end

section \<open>Runs\<close>

text \<open>A run of the operations; an edit is the in-place write of one element and the dirty mark that must follow it.\<close>

datatype tier_op = T_put u8 particle field_values | T_remove u8 particle | T_edit u8 particle nat goldilocks | T_mark u8 particle
  | T_promote u8 particle | T_evict u8 particle | T_commit | T_archive

definition outcome :: "'a storage_result \<Rightarrow> bool storage_result" where
  "outcome r = and_then r (\<lambda>_. Inr True)"

fun tier_apply :: "'s shard_ops \<Rightarrow> 's tiered_store \<Rightarrow> tier_op \<Rightarrow> ('s tiered_store \<times> bool storage_result) option" where
  "tier_apply S t (T_put d k v) = map_option (apsnd outcome) (ti_put S t d k v)"
| "tier_apply S t (T_remove d k) = map_option (apsnd outcome) (ti_remove S t d k)"
| "tier_apply S t (T_edit d k i x) = (case ti_get_mut S t d k (\<lambda>v. v[i := x]) of
     None \<Rightarrow> Some (t, Inr False) | Some t \<Rightarrow> map_option (apsnd outcome) (ti_mark_dirty S t d k))"
| "tier_apply S t (T_mark d k) = map_option (apsnd outcome) (ti_mark_dirty S t d k)"
| "tier_apply S t (T_promote d k) = map_option (apsnd outcome) (promote S t d k)"
| "tier_apply S t (T_evict d k) = map_option (apsnd outcome) (evict S t d k)"
| "tier_apply S t T_commit = map_option (apsnd outcome) (ti_commit S t)"
| "tier_apply S t T_archive = map_option (apsnd outcome) (archive S t)"

fun tier_run :: "'s shard_ops \<Rightarrow> 's tiered_store \<Rightarrow> tier_op list \<Rightarrow> ('s tiered_store \<times> bool storage_result list) option" where
  "tier_run S t [] = Some (t, [])"
| "tier_run S t (op # ops) = do {
     (t, r) \<leftarrow> tier_apply S t op;
     (t, rs) \<leftarrow> tier_run S t ops;
     Some (t, r # rs) }"

fun tier_step :: "(entry_key \<Rightarrow> field_values option) \<Rightarrow> tier_op \<Rightarrow> (entry_key \<Rightarrow> field_values option)" where
  "tier_step m (T_put d k v) = m((d, k) := Some v)"
| "tier_step m (T_remove d k) = m((d, k) := None)"
| "tier_step m (T_edit d k i x) = m((d, k) := map_option (\<lambda>v. v[i := x]) (m (d, k)))"
| "tier_step m _ = m"

definition tier_map :: "(entry_key \<Rightarrow> field_values option) \<Rightarrow> (tier_op \<times> bool storage_result) list \<Rightarrow> (entry_key \<Rightarrow> field_values option)" where
  "tier_map = foldl (\<lambda>m (op, r). if r = Inr True then tier_step m op else m)"

fun tier_op_ok :: "ext \<Rightarrow> tier_op \<Rightarrow> bool" where
  "tier_op_ok X (T_put d k v) = valid_value X v"
| "tier_op_ok X (T_edit d k i x) = (x < gl_P X)"
| "tier_op_ok X _ = True"

lemma valid_update: "x < gl_P X \<Longrightarrow> valid_value X v \<Longrightarrow> valid_value X (v[i := x])"
  by (auto simp: valid_value_def list_all_iff dest: set_update_subset_insert [THEN subsetD])

text \<open>An operation that is the identity on the map.\<close>

lemma tier_unobserved:
  assumes "\<exists>t' r. x = Some (t', r) \<and> (ti_failure t' = None \<longrightarrow> ti_failure t = None) \<and> tiered_to S ok view (tiered_view view t) t'"
    and "tier_apply S t op = map_option (apsnd outcome) x" and "tier_step (tiered_view view t) op = tiered_view view t"
  shows "\<exists>t' r. tier_apply S t op = Some (t', r) \<and> (ti_failure t' = None \<longrightarrow> ti_failure t = None) \<and>
    tiered_to S ok view (if r = Inr True then tier_step (tiered_view view t) op else tiered_view view t) t'"
proof -
  obtain t' r where "x = Some (t', r)" "ti_failure t' = None \<longrightarrow> ti_failure t = None" "tiered_to S ok view (tiered_view view t) t'"
    using assms(1) by (elim exE conjE) (rule that)
  then show ?thesis using assms(2,3) by (intro exI [where x = t'] exI [where x = "outcome r"]) simp
qed

context shard_contract
begin

lemma tier_apply_ok:
  assumes t: "tiered_ok S ok view t" and op: "tier_op_ok X op"
  shows "\<exists>t' r. tier_apply S t op = Some (t', r) \<and> (ti_failure t' = None \<longrightarrow> ti_failure t = None) \<and>
    tiered_to S ok view (if r = Inr True then tier_step (tiered_view view t) op else tiered_view view t) t'"
proof (cases op)
  case (T_put d k v)
  from ti_put_ok [OF t, of v d k] op obtain t' r where "ti_put S t d k v = Some (t', r)" "ti_failure t' = None \<longrightarrow> ti_failure t = None"
      "tiered_to S ok view (case r of Inl _ \<Rightarrow> tiered_view view t | Inr _ \<Rightarrow> (tiered_view view t)((d, k) := Some v)) t'" by (auto simp: T_put)
  then show ?thesis by (cases r) (auto simp: T_put outcome_def)
next
  case (T_remove d k)
  from ti_remove_ok [OF t, of d k] obtain t' r where "ti_remove S t d k = Some (t', r)" "ti_failure t' = None \<longrightarrow> ti_failure t = None"
      "tiered_to S ok view (case r of Inl _ \<Rightarrow> tiered_view view t | Inr _ \<Rightarrow> (tiered_view view t)((d, k) := None)) t'" by auto
  then show ?thesis by (cases r) (auto simp: T_remove outcome_def)
next
  case (T_edit d k i x)
  let ?f = "\<lambda>v. v[i := x]"
  show ?thesis
  proof (cases "ti_get_mut S t d k ?f")
    case None
    then show ?thesis using tiered_same [OF t] by (simp add: T_edit)
  next
    case (Some t1)
    have f: "\<forall>v. valid_value X v \<longrightarrow> valid_value X (?f v)" using op valid_update by (simp add: T_edit)
    obtain t' r where "ti_failure t = None" "ti_mark_dirty S t1 d k = Some (t', r)" "\<forall>e. r = Inl e \<longrightarrow> ti_failure t' = Some e"
        "tiered_to S ok view ((tiered_view view t)((d, k) := map_option ?f (tiered_view view t (d, k)))) t'"
      using ti_edit_ok [OF t f Some] by blast
    then show ?thesis using Some by (cases r) (auto simp: T_edit outcome_def tiered_to_def)
  qed
next
  case (T_mark d k)
  from ti_mark_same [OF t, of d k] show ?thesis by (rule tier_unobserved) (simp_all add: T_mark)
next
  case (T_promote d k)
  from ti_promote_ok [OF t, of d k] have "\<exists>t' r. promote S t d k = Some (t', r) \<and> (ti_failure t' = None \<longrightarrow> ti_failure t = None) \<and> tiered_to S ok view (tiered_view view t) t'" by auto
  then show ?thesis by (rule tier_unobserved) (simp_all add: T_promote)
next
  case (T_evict d k)
  from ti_evict_ok [OF t, of d k] have "\<exists>t' r. evict S t d k = Some (t', r) \<and> (ti_failure t' = None \<longrightarrow> ti_failure t = None) \<and> tiered_to S ok view (tiered_view view t) t'" by auto
  then show ?thesis by (rule tier_unobserved) (simp_all add: T_evict)
next
  case T_commit
  from ti_commit_ok [OF t] show ?thesis by (rule tier_unobserved) (simp_all add: T_commit)
next
  case T_archive
  from ti_archive_ok [OF t] have "\<exists>t' r. archive S t = Some (t', r) \<and> (ti_failure t' = None \<longrightarrow> ti_failure t = None) \<and> tiered_to S ok view (tiered_view view t) t'" by auto
  then show ?thesis by (rule tier_unobserved) (simp_all add: T_archive)
qed

lemma tier_run_ok:
  assumes "tiered_ok S ok view t" and "list_all (tier_op_ok X) ops"
  shows "\<exists>t' rs. tier_run S t ops = Some (t', rs) \<and> length rs = length ops \<and> (ti_failure t' = None \<longrightarrow> ti_failure t = None) \<and>
    tiered_to S ok view (tier_map (tiered_view view t) (zip ops rs)) t'"
  using assms
proof (induction ops arbitrary: t)
  case Nil
  then show ?case by (simp add: tier_map_def tiered_same)
next
  case (Cons op ops)
  obtain t1 r where 1: "tier_apply S t op = Some (t1, r)" "ti_failure t1 = None \<longrightarrow> ti_failure t = None"
      "tiered_to S ok view (if r = Inr True then tier_step (tiered_view view t) op else tiered_view view t) t1"
    using tier_apply_ok [OF Cons.prems(1), of op] Cons.prems(2) by auto
  obtain t2 rs where 2: "tier_run S t1 ops = Some (t2, rs)" "length rs = length ops" "ti_failure t2 = None \<longrightarrow> ti_failure t1 = None"
      "tiered_to S ok view (tier_map (tiered_view view t1) (zip ops rs)) t2"
    using Cons.IH [of t1] 1(3) Cons.prems(2) by (auto simp: tiered_to_def)
  have "tiered_to S ok view (tier_map (tiered_view view t) (zip (op # ops) (r # rs))) t2"
    using 2(3,4) 1(3) by (auto simp: tiered_to_def tier_map_def)
  then show ?case using 1 2 by simp
qed

end

section \<open>A store in memory or on disk\<close>

definition dyn_ops :: "'a shard_ops \<Rightarrow> 'b shard_ops \<Rightarrow> ('a + 'b) shard_ops" where
  "dyn_ops M D = \<lparr>so_get = case_sum (so_get M) (so_get D),
     so_put = (\<lambda>s d k v. case s of Inl m \<Rightarrow> map_option (apfst Inl) (so_put M m d k v) | Inr q \<Rightarrow> map_option (apfst Inr) (so_put D q d k v)),
     so_dirty = case_sum (so_dirty M) (so_dirty D),
     so_commit = (\<lambda>s. case s of Inl m \<Rightarrow> map_option (apfst Inl) (so_commit M m) | Inr q \<Rightarrow> map_option (apfst Inr) (so_commit D q)),
     so_read = case_sum (so_read M) (so_read D), so_scan = case_sum (so_scan M) (so_scan D),
     so_durability = case_sum (so_durability M) (so_durability D), so_last_commit = case_sum (so_last_commit M) (so_last_commit D),
     so_poisoned = case_sum (so_poisoned M) (so_poisoned D), so_pending = case_sum (so_pending M) (so_pending D),
     so_get_mut = (\<lambda>s d k f. case s of Inl m \<Rightarrow> map_option Inl (so_get_mut M m d k f) | Inr q \<Rightarrow> map_option Inr (so_get_mut D q d k f)),
     so_mark = (\<lambda>s d k. case s of Inl m \<Rightarrow> map_option (apfst Inl) (so_mark M m d k) | Inr q \<Rightarrow> map_option (apfst Inr) (so_mark D q d k)),
     so_remove = (\<lambda>s d k. case s of Inl m \<Rightarrow> map_option (apfst Inl) (so_remove M m d k) | Inr q \<Rightarrow> map_option (apfst Inr) (so_remove D q d k)),
     so_iter = case_sum (so_iter M) (so_iter D)\<rparr>"

lemma dyn_contract:
  assumes M: "shard_contract M okm vm X" and D: "shard_contract D okd vd X"
  shows "shard_contract (dyn_ops M D) (case_sum okm okd) (case_sum vm vd) X"
proof (unfold_locales, goal_cases)
  case (1 s v d k)
  show ?case
  proof (cases s)
    case (Inl m)
    with 1(1) have o: "okm m" by simp
    from shard_contract.put [OF M o 1(2), of d k] obtain s' r where "so_put M m d k v = Some (s', r)" "okm s'" "so_durability M s' = so_durability M m"
        "vm s' = (case r of Inl _ \<Rightarrow> vm m | Inr _ \<Rightarrow> (vm m)((d, k) := Some v))" by blast
    then show ?thesis by (intro exI [where x = "Inl s'"] exI [where x = r]) (simp add: dyn_ops_def Inl split: sum.split)
  next
    case (Inr q)
    with 1(1) have o: "okd q" by simp
    from shard_contract.put [OF D o 1(2), of d k] obtain s' r where "so_put D q d k v = Some (s', r)" "okd s'" "so_durability D s' = so_durability D q"
        "vd s' = (case r of Inl _ \<Rightarrow> vd q | Inr _ \<Rightarrow> (vd q)((d, k) := Some v))" by blast
    then show ?thesis by (intro exI [where x = "Inr s'"] exI [where x = r]) (simp add: dyn_ops_def Inr split: sum.split)
  qed
next
  case (2 s d k)
  show ?case
  proof (cases s)
    case (Inl m)
    with 2(1) have o: "okm m" by simp
    from shard_contract.remove [OF M o, of d k] obtain s' r where "so_remove M m d k = Some (s', r)" "okm s'" "so_durability M s' = so_durability M m"
        "case r of Inl _ \<Rightarrow> vm s' = vm m | Inr old \<Rightarrow> old = vm m (d, k) \<and> vm s' = (vm m)((d, k) := None)" by blast
    then show ?thesis by (intro exI [where x = "Inl s'"] exI [where x = r]) (simp add: dyn_ops_def Inl split: sum.splits)
  next
    case (Inr q)
    with 2(1) have o: "okd q" by simp
    from shard_contract.remove [OF D o, of d k] obtain s' r where "so_remove D q d k = Some (s', r)" "okd s'" "so_durability D s' = so_durability D q"
        "case r of Inl _ \<Rightarrow> vd s' = vd q | Inr old \<Rightarrow> old = vd q (d, k) \<and> vd s' = (vd q)((d, k) := None)" by blast
    then show ?thesis by (intro exI [where x = "Inr s'"] exI [where x = r]) (simp add: dyn_ops_def Inr split: sum.splits)
  qed
next
  case (3 s)
  show ?case
  proof (cases s)
    case (Inl m)
    with 3(1) have o: "okm m" by simp
    from shard_contract.commit [OF M o] obtain s' r where "so_commit M m = Some (s', r)" "okm s'" "so_durability M s' = so_durability M m"
        "vm s' = vm m" by blast
    then show ?thesis by (intro exI [where x = "Inl s'"] exI [where x = r]) (simp add: dyn_ops_def Inl)
  next
    case (Inr q)
    with 3(1) have o: "okd q" by simp
    from shard_contract.commit [OF D o] obtain s' r where "so_commit D q = Some (s', r)" "okd s'" "so_durability D s' = so_durability D q"
        "vd s' = vd q" by blast
    then show ?thesis by (intro exI [where x = "Inr s'"] exI [where x = r]) (simp add: dyn_ops_def Inr)
  qed
next
  case (4 s d k)
  show ?case
  proof (cases s)
    case (Inl m)
    with 4(1) have o: "okm m" by simp
    from shard_contract.mark [OF M o, of d k] obtain s' r where "so_mark M m d k = Some (s', r)" "okm s'" "so_durability M s' = so_durability M m"
        "vm s' = vm m" by blast
    then show ?thesis by (intro exI [where x = "Inl s'"] exI [where x = r]) (simp add: dyn_ops_def Inl)
  next
    case (Inr q)
    with 4(1) have o: "okd q" by simp
    from shard_contract.mark [OF D o, of d k] obtain s' r where "so_mark D q d k = Some (s', r)" "okd s'" "so_durability D s' = so_durability D q"
        "vd s' = vd q" by blast
    then show ?thesis by (intro exI [where x = "Inr s'"] exI [where x = r]) (simp add: dyn_ops_def Inr)
  qed
next
  case (5 s d k f s')
  then show ?case using shard_contract.in_place [OF M, of _ d k f] shard_contract.in_place [OF D, of _ d k f] by (cases s) (auto simp: dyn_ops_def)
next
  case (6 s d k m)
  then show ?case using shard_contract.read [OF M] shard_contract.read [OF D] by (cases s) (simp_all add: dyn_ops_def)
next
  case (7 s d k v)
  then show ?case using shard_contract.get [OF M] shard_contract.get [OF D] by (cases s) (simp_all add: dyn_ops_def)
next
  case (8 s d k)
  then show ?case using shard_contract.exact [OF M] shard_contract.exact [OF D] by (cases s) (simp_all add: dyn_ops_def)
next
  case (9 s d k v)
  then show ?case using shard_contract.bounded [OF M] shard_contract.bounded [OF D] by (cases s) (simp_all add: dyn_ops_def)
qed

lemma mem_iter_empty: "mem_iter s d = [] \<Longrightarrow> mem_view s (d, k) = None"
proof (rule ccontr)
  assume e: "mem_iter s d = []" and "mem_view s (d, k) \<noteq> None"
  then obtain v where "fmlookup (wb_cache s) (d, k) = Some v" by (auto simp: mem_view_def)
  then have "((d, k), v) \<in> set (cache_range (wb_cache s) d None)" by (simp add: cache_range_def set_sorted_list_of_fmap)
  then show False using e by (simp add: mem_iter_def)
qed

text \<open>Attaching a durable warm tier to a memory store: the guards of \<open>with_warm\<close> leave nothing in the hot tier that the warm tier lacks.\<close>

lemma with_warm_ok:
  assumes m: "mem_ok X m" and q: "okd q" and disk: "so_durability D q = Disk"
    and w: "with_warm (dyn_ops (mem_ops X) D) (tiered_new (Inl m)) (Inr q) = Inr t"
  shows "tiered_ok (dyn_ops (mem_ops X) D) (case_sum (mem_ok X) okd) (case_sum mem_view vd) t" "ti_failure t = None"
    "tiered_view (case_sum mem_view vd) t = (\<lambda>(d, k). if d = EPHEMERAL then mem_view m (d, k) else vd q (d, k))"
proof -
  have t: "t = \<lparr>ti_hot = Inl m, ti_warm = Some (Inr q), ti_cold = None, ti_network = None, ti_failure = None\<rparr>"
    and empty: "list_all (\<lambda>d. mem_iter m (of_nat d) = []) [0..<unat EPHEMERAL]"
    using w disk by (auto simp: with_warm_def tiered_new_def dyn_ops_def mem_ops_def list_all_iff list_ex_iff split: if_splits)
  have "mem_view m (d, k) = None" if "d \<noteq> EPHEMERAL" for d k
  proof (cases "d < EPHEMERAL")
    case True
    then have "mem_iter m d = []" using empty by (auto simp: list_all_iff word_less_nat_alt dest!: bspec [of _ _ "unat d"])
    then show ?thesis by (rule mem_iter_empty)
  next
    case False
    then show ?thesis using mem_okD [OF m, of d k] that by (cases "mem_view m (d, k)") auto
  qed
  then have "coherent (mem_view m) (vd q)" by (simp add: coherent_def)
  then show "tiered_ok (dyn_ops (mem_ops X) D) (case_sum (mem_ok X) okd) (case_sum mem_view vd) t"
    using m q by (simp add: t tiered_ok_def dyn_ops_def mem_ops_def)
  show "ti_failure t = None" "tiered_view (case_sum mem_view vd) t = (\<lambda>(d, k). if d = EPHEMERAL then mem_view m (d, k) else vd q (d, k))"
    by (auto simp: t tiered_view_def fun_eq_iff)
qed

text \<open>C29: The tiered store with a memory cache over a disk store implements one map, given what the database crates document. Once \<open>with_warm\<close> has accepted the disk store, any
  sequence of puts, removals, in-place edits followed by their dirty marks, promotions, evictions, commits and archivings returns at every
  step, and afterwards either a failure is retained and every read is refused with it, or a successful read returns exactly the value that
  the accepted operations define on what the disk store held, whether it comes from the cache or from disk: caching,
  eviction and committing are not observable.\<close>

theorem tiered_store_refines_map:
  assumes "nebu_laws X" and "engine_laws F CF R CK V" and "mem_ok X m" and "disk_ok CF CK X q"
    and "with_warm (dyn_ops (mem_ops X) (disk_ops X F R)) (tiered_new (Inl m)) (Inr q) = Inr t0" and "list_all (tier_op_ok X) ops"
  shows "\<exists>t rs. tier_run (dyn_ops (mem_ops X) (disk_ops X F R)) t0 ops = Some (t, rs) \<and> length rs = length ops \<and>
    (\<forall>d k n. \<exists>r. ti_read (dyn_ops (mem_ops X) (disk_ops X F R)) t d k n = Some r \<and>
      (case ti_failure t of
         Some e \<Rightarrow> r = Inl e
       | None \<Rightarrow> \<forall>found. r = Inr found \<longrightarrow> found =
           tier_map (\<lambda>(d, k). if d = EPHEMERAL then mem_view m (d, k) else disk_view CF CK X q (d, k)) (zip ops rs) (d, k)))"
proof -
  let ?S = "dyn_ops (mem_ops X) (disk_ops X F R)" and ?ok = "case_sum (mem_ok X) (disk_ok CF CK X)" and ?view = "case_sum mem_view (disk_view CF CK X)"
  note C = dyn_contract [OF mem_contract disk_contract [OF assms(1,2)]]
  have disk: "so_durability (disk_ops X F R) q = Disk" by (simp add: disk_ops_def)
  note ok0 = with_warm_ok(1) [where okd = "disk_ok CF CK X" and vd = "disk_view CF CK X", OF assms(3,4) disk assms(5)]
    and view0 = with_warm_ok(3) [where okd = "disk_ok CF CK X" and vd = "disk_view CF CK X", OF assms(3,4) disk assms(5)]
  obtain t rs where t: "tier_run ?S t0 ops = Some (t, rs)" "length rs = length ops" "tiered_to ?S ?ok ?view (tier_map (tiered_view ?view t0) (zip ops rs)) t"
    using shard_contract.tier_run_ok [OF C ok0 assms(6)] by blast
  have "\<exists>r. ti_read ?S t d k n = Some r \<and> (case ti_failure t of Some e \<Rightarrow> r = Inl e
      | None \<Rightarrow> \<forall>found. r = Inr found \<longrightarrow> found = tier_map (tiered_view ?view t0) (zip ops rs) (d, k))" for d k n
  proof (cases "ti_failure t")
    case None
    have "tiered_ok ?S ?ok ?view t" "tiered_view ?view t = tier_map (tiered_view ?view t0) (zip ops rs)" using t(3) None by (simp_all add: tiered_to_def)
    then show ?thesis using shard_contract.ti_read_ok [OF C, of t d k n] None by simp
  next
    case (Some e)
    then show ?thesis by (simp add: ti_read_def ti_ready_def)
  qed
  then show ?thesis using t(1,2) unfolding view0 by blast
qed

theorem tiered_store_refines_map_witness:
  "\<exists>t0 t rs r. with_warm (dyn_ops (mem_ops sample_ext) (disk_ops sample_ext sample_fjall sample_redb)) (tiered_new (Inl wb_new)) (Inr sample_disk) = Inr t0 \<and>
     tier_run (dyn_ops (mem_ops sample_ext) (disk_ops sample_ext sample_fjall sample_redb)) t0 [T_put 0 1 [7], T_evict 0 1, T_commit] = Some (t, rs) \<and>
     length rs = 3 \<and> ti_read (dyn_ops (mem_ops sample_ext) (disk_ops sample_ext sample_fjall sample_redb)) t 0 1 1 = Some r"
proof -
  let ?S = "dyn_ops (mem_ops sample_ext) (disk_ops sample_ext sample_fjall sample_redb)" and ?ops = "[T_put 0 1 [7], T_evict 0 1, T_commit]"
  have "mem_iter wb_new d = []" for d by (simp add: mem_iter_def wb_new_def cache_range_def sorted_list_of_fmap_def sorted_list_of_fset.rep_eq)
  then obtain t0 where t0: "with_warm ?S (tiered_new (Inl wb_new)) (Inr sample_disk) = Inr t0"
    by (simp add: with_warm_def tiered_new_def dyn_ops_def mem_ops_def disk_ops_def list_ex_iff mem_has_pending_def wb_new_def)
  have "list_all (tier_op_ok sample_ext) ?ops" by (simp add: valid_value_def MAX_VALUE_ELEMENTS_def sample_ext_def)
  from tiered_store_refines_map [OF nebu_laws_sample engine_laws_sample mem_ok_new sample_disk_ok t0 this]
  obtain t rs where "tier_run ?S t0 ?ops = Some (t, rs)" "length rs = 3" "\<exists>r. ti_read ?S t 0 1 1 = Some r" by force
  with t0 show ?thesis by blast
qed

end
