(* ===== verification/Bbg_Application.thy ===== *)
theory Bbg_Application
  imports Bbg_Database
begin

text \<open>
  The application store (\<open>storage/application.rs\<close>) with the transfer cursor it consults (\<open>application/transfer.rs\<close>): per namespace a
  chain of heads, receipts that make a request idempotent, immutable content and unique claims, and fences that retire a migrated namespace.
  A closure over a transaction is a function that returns the transaction with its result; \<open>tx_then\<close> is the question mark operator.
\<close>

section \<open>Data\<close>

datatype app_error = AppStorage string | AppCommitUnknown string | Conflict | HeadMismatch | Fenced | InvalidSequence | AppLimit | AppCorrupt

fun from_storage :: "storage_error \<Rightarrow> app_error" where
  "from_storage (CommitUnknown _ message) = AppCommitUnknown message"
| "from_storage (Limit _) = AppLimit"
| "from_storage (Corrupt _) = AppCorrupt"
| "from_storage e = AppStorage (error_display e)"

declare from_storage.simps [simp del]

record head =
  hd_index :: u64
  hd_commit :: particle

record write_request =
  wr_namespace :: particle
  wr_request :: particle
  wr_fingerprint :: particle
  wr_expected :: "head option"
  wr_head :: head
  wr_content :: "(particle \<times> bytes) list"
  wr_claims :: "(particle \<times> particle) list"

record migration_target =
  mt_namespace :: particle
  mt_manifest :: particle

record namespace_migration =
  nm_manifest :: particle
  nm_sources :: "(particle \<times> head) list"

type_synonym ('f, 'k, 'a) app_tx = "('f, 'k) transaction \<Rightarrow> (('f, 'k) transaction \<times> (app_error + 'a)) option"

section \<open>Encodings\<close>

definition encode_head :: "head \<Rightarrow> bytes" where
  "encode_head h = le_bytes 8 (hd_index h) @ be_bytes 32 (hd_commit h)"

definition decode_head :: "bytes \<Rightarrow> app_error + head" where
  "decode_head bs = (if length bs \<noteq> 40 then Inl AppCorrupt
     else Inr \<lparr>hd_index = of_le_bytes (take 8 bs), hd_commit = of_be_bytes (drop 8 bs)\<rparr>)"

definition decode_request :: "bytes \<Rightarrow> app_error + (particle \<times> head)" where
  "decode_request bs = (if length bs \<noteq> 72 then Inl AppCorrupt
     else and_then (decode_head (drop 32 bs)) (\<lambda>h. Inr (of_be_bytes (take 32 bs), h)))"

definition request_key :: "particle \<Rightarrow> particle \<Rightarrow> bytes" where
  "request_key namespace request = be_bytes 32 namespace @ be_bytes 32 request"

definition history_key :: "particle \<Rightarrow> u64 \<Rightarrow> bytes" where
  "history_key namespace index = be_bytes 32 namespace @ be_bytes 8 index"

definition fence_key :: "particle \<Rightarrow> bytes" where
  "fence_key namespace = map of_char ''neuron-fence'' @ 0 # be_bytes 32 namespace"

definition stage_key :: "particle \<Rightarrow> bytes" where "stage_key i = of_char (CHR ''s'') # be_bytes 32 i"
definition cursor_key :: "particle \<Rightarrow> bytes" where "cursor_key i = of_char (CHR ''t'') # be_bytes 32 i"
definition target_key :: "particle \<Rightarrow> bytes" where "target_key i = of_char (CHR ''u'') # be_bytes 32 i"

record transfer_cursor =
  cu_table :: u8
  cu_after :: "bytes option"
  cu_rows :: u64
  cu_bytes :: u64

definition cursor_encode :: "transfer_cursor \<Rightarrow> bytes" where
  "cursor_encode c = [cu_table c, case cu_after c of None \<Rightarrow> 0 | Some a \<Rightarrow> of_nat (length a)] @
     le_bytes 8 (cu_rows c) @ le_bytes 8 (cu_bytes c) @ (case cu_after c of None \<Rightarrow> [] | Some a \<Rightarrow> a)"

definition cursor_decode :: "bytes \<Rightarrow> app_error + transfer_cursor" where
  "cursor_decode b = (if length b < 18 \<or> 5 < b ! 0 \<or> 64 < b ! 1 \<or> length b \<noteq> 18 + unat (b ! 1) then Inl AppCorrupt
     else Inr \<lparr>cu_table = b ! 0, cu_after = if b ! 1 = 0 then None else Some (drop 18 b),
       cu_rows = of_le_bytes (take 8 (drop 2 b)), cu_bytes = of_le_bytes (take 8 (drop 10 b))\<rparr>)"

section \<open>Closures\<close>

definition tx_then :: "('f, 'k, 'a) app_tx \<Rightarrow> ('a \<Rightarrow> ('f, 'k, 'b) app_tx) \<Rightarrow> ('f, 'k, 'b) app_tx" where
  "tx_then m f = (\<lambda>tx. case m tx of None \<Rightarrow> None | Some (tx, Inl e) \<Rightarrow> Some (tx, Inl e) | Some (tx, Inr a) \<Rightarrow> f a tx)"

definition tx_result :: "app_error + 'a \<Rightarrow> ('f, 'k, 'a) app_tx" where
  "tx_result r = (\<lambda>tx. Some (tx, r))"

definition tx_lift :: "(('f, 'k) transaction \<Rightarrow> (('f, 'k) transaction \<times> 'a storage_result) option) \<Rightarrow> ('f, 'k, 'a) app_tx" where
  "tx_lift m = (\<lambda>tx. map_option (apsnd (map_sum from_storage id)) (m tx))"

definition tx_ask :: "'f fjall \<Rightarrow> ('k, 't) redb \<Rightarrow> table \<Rightarrow> bytes \<Rightarrow> nat \<Rightarrow> ('f, 'k, bytes option) app_tx" where
  "tx_ask F R table key max_bytes = tx_lift (read_only (\<lambda>tx. tx_get F R tx table key max_bytes))"

definition tx_store :: "table \<Rightarrow> bytes \<Rightarrow> bytes \<Rightarrow> ('f, 'k, unit) app_tx" where
  "tx_store table key bs = tx_lift (\<lambda>tx. tx_put tx table key bs)"

definition immutable_put :: "'f fjall \<Rightarrow> ('k, 't) redb \<Rightarrow> table \<Rightarrow> bytes \<Rightarrow> bytes \<Rightarrow> nat \<Rightarrow> ('f, 'k, unit) app_tx" where
  "immutable_put F R table key bs max_bytes = tx_then (tx_ask F R table key max_bytes) (\<lambda>found. case found of
       Some previous \<Rightarrow> tx_result (if previous \<noteq> bs then Inl Conflict else Inr ())
     | None \<Rightarrow> tx_store table key bs)"

fun put_rows :: "'f fjall \<Rightarrow> ('k, 't) redb \<Rightarrow> table \<Rightarrow> nat \<Rightarrow> (bytes \<times> bytes) list \<Rightarrow> ('f, 'k, unit) app_tx" where
  "put_rows F R table max_bytes [] = tx_result (Inr ())"
| "put_rows F R table max_bytes ((key, bs) # rows) = tx_then (immutable_put F R table key bs max_bytes) (\<lambda>_. put_rows F R table max_bytes rows)"

definition opt_head :: "bytes option \<Rightarrow> app_error + head option" where
  "opt_head row = (case row of None \<Rightarrow> Inr None | Some bs \<Rightarrow> and_then (decode_head bs) (\<lambda>h. Inr (Some h)))"

definition read_head :: "'f fjall \<Rightarrow> ('k, 't) redb \<Rightarrow> particle \<Rightarrow> ('f, 'k, head option) app_tx" where
  "read_head F R namespace = tx_then (tx_ask F R Heads (be_bytes 32 namespace) 40) (\<lambda>row. tx_result (opt_head row))"

definition check_cursor :: "'f fjall \<Rightarrow> ('k, 't) redb \<Rightarrow> particle \<Rightarrow> particle \<Rightarrow> ('f, 'k, unit) app_tx" where
  "check_cursor F R manifest target = tx_then (tx_ask F R Migration (cursor_key manifest) 82) (\<lambda>cursor. case cursor of
       None \<Rightarrow> tx_result (Inl AppCorrupt)
     | Some c \<Rightarrow> tx_then (tx_result (cursor_decode c)) (\<lambda>c.
         if cu_table c \<noteq> 5 then tx_result (Inl Fenced)
         else tx_then (tx_ask F R Migration (target_key manifest) 32) (\<lambda>found.
           tx_result (if found \<noteq> Some (be_bytes 32 target) then Inl Conflict else Inr ()))))"

definition require_complete :: "'f fjall \<Rightarrow> ('k, 't) redb \<Rightarrow> particle \<Rightarrow> particle \<Rightarrow> ('f, 'k, unit) app_tx" where
  "require_complete F R origin target = tx_then (tx_ask F R Migration (stage_key origin) 32) (\<lambda>manifest. case manifest of
       None \<Rightarrow> tx_result (Inr ())
     | Some m \<Rightarrow> if length m \<noteq> 32 then tx_result (Inl AppCorrupt) else check_cursor F R (of_be_bytes m) target)"

section \<open>Applying a write\<close>

fun content_total :: "nat \<Rightarrow> (particle \<times> bytes) list \<Rightarrow> nat option" where
  "content_total n [] = Some n"
| "content_total n ((_, bs) # rest) = (if 2 ^ 64 \<le> n + length bs then None else content_total (n + length bs) rest)"

definition validate_write :: "write_request \<Rightarrow> app_error + unit" where
  "validate_write w =
     (if 131072 < length (wr_content w) \<or> 4096 < length (wr_claims w) then Inl AppLimit
      else case content_total 0 (wr_content w) of
        None \<Rightarrow> Inl AppLimit
      | Some n \<Rightarrow> if 16 * 1024 * 1024 < n then Inl AppLimit else Inr ())"

definition next_index :: "head option \<Rightarrow> app_error + u64" where
  "next_index current = (case current of
       Some h \<Rightarrow> if hd_index h = - 1 then Inl InvalidSequence else Inr (hd_index h + 1)
     | None \<Rightarrow> Inr 0)"

definition export_marker :: bytes where "export_marker = map of_char ''export-v1''"

definition check_fences :: "'f fjall \<Rightarrow> ('k, 't) redb \<Rightarrow> particle \<Rightarrow> ('f, 'k, unit) app_tx" where
  "check_fences F R namespace = tx_then (tx_ask F R Migration (fence_key namespace) 64) (\<lambda>fence.
     if fence \<noteq> None then tx_result (Inl Fenced)
     else tx_then (tx_ask F R Migration status_key 16) (\<lambda>status.
       if status = Some export_marker then tx_result (Inl Fenced)
       else tx_then (tx_ask F R Migration (stage_key namespace) 32) (\<lambda>staged.
         tx_result (if staged \<noteq> None then Inl Fenced else Inr ()))))"

definition publish_head :: "write_request \<Rightarrow> u64 \<Rightarrow> ('f, 'k, head) app_tx" where
  "publish_head w index =
     tx_then (tx_store History (history_key (wr_namespace w) index) (be_bytes 32 (hd_commit (wr_head w)))) (\<lambda>_.
     tx_then (tx_store Heads (be_bytes 32 (wr_namespace w)) (encode_head (wr_head w))) (\<lambda>_.
     tx_then (tx_store Requests (request_key (wr_namespace w) (wr_request w)) (be_bytes 32 (wr_fingerprint w) @ encode_head (wr_head w))) (\<lambda>_.
     tx_result (Inr (wr_head w)))))"

definition apply_rows :: "'f fjall \<Rightarrow> ('k, 't) redb \<Rightarrow> write_request \<Rightarrow> ('f, 'k, unit) app_tx \<Rightarrow> u64 \<Rightarrow> ('f, 'k, head) app_tx" where
  "apply_rows F R w transition index =
     tx_then (put_rows F R Claims 32 (map (map_prod (be_bytes 32) (be_bytes 32)) (wr_claims w))) (\<lambda>_.
     tx_then (put_rows F R Content MAX_BYTES_VALUE (map (apfst (be_bytes 32)) (wr_content w))) (\<lambda>_.
     tx_then (tx_ask F R Content (be_bytes 32 (hd_commit (wr_head w))) MAX_BYTES_VALUE) (\<lambda>found.
     if found = None then tx_result (Inl AppCorrupt)
     else tx_then transition (\<lambda>_. publish_head w index))))"

definition apply_sequence :: "'f fjall \<Rightarrow> ('k, 't) redb \<Rightarrow> write_request \<Rightarrow> ('f, 'k, unit) app_tx \<Rightarrow> head option \<Rightarrow> ('f, 'k, head) app_tx" where
  "apply_sequence F R w transition current =
     (if current \<noteq> wr_expected w then tx_result (Inl HeadMismatch)
      else tx_then (tx_result (next_index current)) (\<lambda>index.
        if hd_index (wr_head w) \<noteq> index then tx_result (Inl InvalidSequence)
        else apply_rows F R w transition index))"

definition apply_new :: "'f fjall \<Rightarrow> ('k, 't) redb \<Rightarrow> write_request \<Rightarrow> ('f, 'k, unit) app_tx \<Rightarrow> ('f, 'k, head) app_tx" where
  "apply_new F R w transition =
     tx_then (check_fences F R (wr_namespace w)) (\<lambda>_.
     tx_then (read_head F R (wr_namespace w)) (\<lambda>current. apply_sequence F R w transition current))"

definition apply_body :: "'f fjall \<Rightarrow> ('k, 't) redb \<Rightarrow> write_request \<Rightarrow> bool \<Rightarrow> ('f, 'k, unit) app_tx \<Rightarrow> ('f, 'k, head) app_tx" where
  "apply_body F R w allow_retry transition =
     tx_then (tx_ask F R Requests (request_key (wr_namespace w) (wr_request w)) 72) (\<lambda>prior. case prior of
       Some receipt \<Rightarrow>
         if \<not> allow_retry then tx_result (Inl Conflict)
         else tx_result (and_then (decode_request receipt) (\<lambda>(fingerprint, h). if fingerprint = wr_fingerprint w then Inr h else Inl Conflict))
     | None \<Rightarrow> apply_new F R w transition)"

definition apply_checked :: "ext \<Rightarrow> 'f fjall \<Rightarrow> ('k, 't) redb \<Rightarrow> ('f, 'k) database \<Rightarrow> write_request \<Rightarrow> bool \<Rightarrow> ('f, 'k, unit) app_tx \<Rightarrow>
    (('f, 'k) database \<times> (app_error + head)) option" where
  "apply_checked X F R db w allow_retry transition =
     (case validate_write w of
        Inl e \<Rightarrow> Some (db, Inl e)
      | Inr _ \<Rightarrow> map_option (apsnd commit_value) (db_transaction X F R from_storage db (apply_body F R w allow_retry transition)))"

definition app_apply_with :: "ext \<Rightarrow> 'f fjall \<Rightarrow> ('k, 't) redb \<Rightarrow> ('f, 'k) database \<Rightarrow> write_request \<Rightarrow> ('f, 'k, unit) app_tx \<Rightarrow>
    (('f, 'k) database \<times> (app_error + head)) option" where
  "app_apply_with X F R db w transition = apply_checked X F R db w True transition"

definition app_apply :: "ext \<Rightarrow> 'f fjall \<Rightarrow> ('k, 't) redb \<Rightarrow> ('f, 'k) database \<Rightarrow> write_request \<Rightarrow> (('f, 'k) database \<times> (app_error + head)) option" where
  "app_apply X F R db w = app_apply_with X F R db w (tx_result (Inr ()))"

definition app_apply_once :: "ext \<Rightarrow> 'f fjall \<Rightarrow> ('k, 't) redb \<Rightarrow> ('f, 'k) database \<Rightarrow> write_request \<Rightarrow> (('f, 'k) database \<times> (app_error + head)) option" where
  "app_apply_once X F R db w = apply_checked X F R db w False (tx_result (Inr ()))"

fun fence_sources :: "'f fjall \<Rightarrow> ('k, 't) redb \<Rightarrow> particle \<Rightarrow> particle \<Rightarrow> (particle \<times> head) list \<Rightarrow> ('f, 'k, unit) app_tx" where
  "fence_sources F R target manifest [] = tx_result (Inr ())"
| "fence_sources F R target manifest ((origin, expected) # sources) =
     tx_then (require_complete F R origin target) (\<lambda>_.
     tx_then (read_head F R origin) (\<lambda>current.
     if current \<noteq> Some expected then tx_result (Inl HeadMismatch)
     else tx_then (immutable_put F R Migration (fence_key origin) (be_bytes 32 target @ be_bytes 32 manifest) 64) (\<lambda>_.
       fence_sources F R target manifest sources)))"

definition migrate_transition :: "'f fjall \<Rightarrow> ('k, 't) redb \<Rightarrow> particle \<Rightarrow> namespace_migration \<Rightarrow> ('f, 'k, unit) app_tx" where
  "migrate_transition F R target m = tx_then (fence_sources F R target (nm_manifest m) (nm_sources m)) (\<lambda>_.
     tx_then (tx_lift (gen_promote F R NeuronV1)) (\<lambda>_. tx_result (Inr ())))"

definition valid_sources :: "particle \<Rightarrow> (particle \<times> head) list \<Rightarrow> bool" where
  "valid_sources target sources \<longleftrightarrow> sources \<noteq> [] \<and> length sources \<le> 256 \<and> sorted_wrt (<) (map fst sources) \<and> target \<notin> fst ` set sources"

definition app_apply_migration :: "ext \<Rightarrow> 'f fjall \<Rightarrow> ('k, 't) redb \<Rightarrow> ('f, 'k) database \<Rightarrow> write_request \<Rightarrow> namespace_migration \<Rightarrow>
    (('f, 'k) database \<times> (app_error + head)) option" where
  "app_apply_migration X F R db w m =
     (if \<not> valid_sources (wr_namespace w) (nm_sources m) then Some (db, Inl AppLimit)
      else app_apply_with X F R db w (migrate_transition F R (wr_namespace w) m))"

section \<open>Reading\<close>

definition db_get :: "ext \<Rightarrow> 'f fjall \<Rightarrow> ('k, 't) redb \<Rightarrow> ('f, 'k) database \<Rightarrow> table \<Rightarrow> bytes \<Rightarrow> nat \<Rightarrow> (app_error + bytes option) option" where
  "db_get X F R db table key max_bytes = map_option (map_sum from_storage id) (db_read X F R db table key max_bytes)"

definition app_head :: "ext \<Rightarrow> 'f fjall \<Rightarrow> ('k, 't) redb \<Rightarrow> ('f, 'k) database \<Rightarrow> particle \<Rightarrow> (app_error + head option) option" where
  "app_head X F R db namespace = map_option (\<lambda>r. and_then r opt_head) (db_get X F R db Heads (be_bytes 32 namespace) 40)"

definition app_content :: "ext \<Rightarrow> 'f fjall \<Rightarrow> ('k, 't) redb \<Rightarrow> ('f, 'k) database \<Rightarrow> particle \<Rightarrow> nat \<Rightarrow> (app_error + bytes option) option" where
  "app_content X F R db i max_bytes = db_get X F R db Content (be_bytes 32 i) max_bytes"

definition app_resolve :: "ext \<Rightarrow> 'f fjall \<Rightarrow> ('k, 't) redb \<Rightarrow> ('f, 'k) database \<Rightarrow> particle \<Rightarrow> particle \<Rightarrow> (app_error + (particle \<times> head) option) option" where
  "app_resolve X F R db namespace request = map_option (\<lambda>r. and_then r (\<lambda>row. case row of
       None \<Rightarrow> Inr None
     | Some bs \<Rightarrow> and_then (decode_request bs) (\<lambda>p. Inr (Some p)))) (db_get X F R db Requests (request_key namespace request) 72)"

definition app_migration_target :: "ext \<Rightarrow> 'f fjall \<Rightarrow> ('k, 't) redb \<Rightarrow> ('f, 'k) database \<Rightarrow> particle \<Rightarrow> (app_error + migration_target option) option" where
  "app_migration_target X F R db namespace = map_option (\<lambda>r. and_then r (\<lambda>row. case row of
       None \<Rightarrow> Inr None
     | Some bs \<Rightarrow> if length bs \<noteq> 64 then Inl AppCorrupt
         else Inr (Some \<lparr>mt_namespace = of_be_bytes (take 32 bs), mt_manifest = of_be_bytes (drop 32 bs)\<rparr>)))
     (db_get X F R db Migration (fence_key namespace) 64)"

fun history_rows :: "particle \<Rightarrow> raw_entry list \<Rightarrow> app_error + head list" where
  "history_rows namespace [] = Inr []"
| "history_rows namespace ((key, bs) # rows) =
     (if length key \<noteq> 40 \<or> take 32 key \<noteq> be_bytes 32 namespace \<or> length bs \<noteq> 32 then Inl AppCorrupt
      else and_then (history_rows namespace rows) (\<lambda>hs. Inr (\<lparr>hd_index = of_be_bytes (drop 32 key), hd_commit = of_be_bytes bs\<rparr> # hs)))"

definition app_history :: "ext \<Rightarrow> 'f fjall \<Rightarrow> ('k, 't) redb \<Rightarrow> ('f, 'k) database \<Rightarrow> particle \<Rightarrow> u64 option \<Rightarrow> nat \<Rightarrow> (app_error + head list) option" where
  "app_history X F R db namespace after limit =
     (if limit = 0 \<or> 4096 < limit then Some (Inl AppLimit)
      else if after = Some (- 1) then Some (Inr [])
      else map_option (\<lambda>r. and_then (map_sum from_storage id r) (history_rows namespace))
        (db_scan X F R db History (map_option (history_key namespace) after) (be_bytes 32 namespace)
          \<lparr>bl_max_entries = limit, bl_max_bytes = limit * 72\<rparr>))"

end
