(* ===== verification/Bbg_Application_Spec.thy ===== *)
theory Bbg_Application_Spec
  imports Bbg_Application
begin

text \<open>
  What the application store promises: a specification on chains of commits, receipts, contents and claims, the relation between its states and the tables, and
  a proof, part by part, that the closure of a write implements it. \<open>implements P m g\<close> is total correctness up to storage faults: on a state with \<open>P\<close> the closure \<open>m\<close>
  returns, and unless a read or a staging fails it has the result and the effect of \<open>g\<close>.
\<close>

section \<open>Encodings round trip\<close>

lemma decode_encode_head [simp]: "decode_head (encode_head h) = Inr h"
  by (simp add: decode_head_def encode_head_def)

lemma length_encode_head [simp]: "length (encode_head h) = 40"
  by (simp add: encode_head_def)

lemma decode_receipt [simp]: "decode_request (be_bytes 32 fp @ encode_head h) = Inr (fp, h)"
  by (simp add: decode_request_def)

lemma opt_head_encode [simp]: "opt_head (map_option encode_head h) = Inr h"
  by (cases h) (simp_all add: opt_head_def)

lemma append_be32 [simp]: "be_bytes 32 (a :: particle) @ xs = be_bytes 32 b @ ys \<longleftrightarrow> a = b \<and> xs = ys"
  by (simp add: append_eq_append_conv be_bytes_inj)

lemma key_injective [simp]:
  "request_key ns r = request_key ns' r' \<longleftrightarrow> ns = ns' \<and> r = r'"
  "history_key ns i = history_key ns' i' \<longleftrightarrow> ns = ns' \<and> i = i'"
  "fence_key ns = fence_key ns' \<longleftrightarrow> ns = ns'"
  "fence_key ns \<noteq> status_key" "fence_key ns \<noteq> stage_key ns'"
  by (simp_all add: request_key_def history_key_def fence_key_def stage_key_def status_key_def be_bytes_inj)

section \<open>The specification\<close>

text \<open>What the tables stand for: a chain of commits per namespace, a receipt (fingerprint and position) per accepted request, the contents, the
  claims, and the migration table as it is.\<close>

record app_spec =
  ap_chain :: "particle \<Rightarrow> particle list"
  ap_requests :: "particle \<times> particle \<Rightarrow> (particle \<times> nat) option"
  ap_content :: "particle \<Rightarrow> bytes option"
  ap_claims :: "particle \<Rightarrow> particle option"
  ap_migration :: "bytes \<Rightarrow> bytes option"

definition spec_at :: "app_spec \<Rightarrow> particle \<Rightarrow> nat \<Rightarrow> head" where
  "spec_at A ns i = \<lparr>hd_index = of_nat i, hd_commit = ap_chain A ns ! i\<rparr>"

definition spec_head :: "app_spec \<Rightarrow> particle \<Rightarrow> head option" where
  "spec_head A ns = (if ap_chain A ns = [] then None else Some (spec_at A ns (length (ap_chain A ns) - 1)))"

definition spec_fenced :: "app_spec \<Rightarrow> particle \<Rightarrow> bool" where
  "spec_fenced A ns \<longleftrightarrow> ap_migration A (fence_key ns) \<noteq> None \<or> ap_migration A status_key = Some export_marker \<or> ap_migration A (stage_key ns) \<noteq> None"

fun put_all :: "('k \<Rightarrow> 'v option) \<Rightarrow> ('k \<times> 'v) list \<Rightarrow> ('k \<Rightarrow> 'v option) option" where
  "put_all m [] = Some m"
| "put_all m ((k, v) # rows) = (case m k of None \<Rightarrow> put_all (m(k \<mapsto> v)) rows | Some w \<Rightarrow> if w = v then put_all m rows else None)"

type_synonym 'a spec_tx = "app_spec \<Rightarrow> app_error + ('a \<times> app_spec)"

definition spec_claims :: "(particle \<times> particle) list \<Rightarrow> unit spec_tx" where
  "spec_claims rows A = (case put_all (ap_claims A) rows of None \<Rightarrow> Inl Conflict | Some m \<Rightarrow> Inr ((), A\<lparr>ap_claims := m\<rparr>))"

definition spec_content :: "(particle \<times> bytes) list \<Rightarrow> unit spec_tx" where
  "spec_content rows A = (case put_all (ap_content A) rows of None \<Rightarrow> Inl Conflict | Some m \<Rightarrow> Inr ((), A\<lparr>ap_content := m\<rparr>))"

definition spec_publish :: "write_request \<Rightarrow> head spec_tx" where
  "spec_publish w A = Inr (wr_head w,
     A\<lparr>ap_chain := (ap_chain A)(wr_namespace w := ap_chain A (wr_namespace w) @ [hd_commit (wr_head w)]),
       ap_requests := (ap_requests A)((wr_namespace w, wr_request w) \<mapsto> (wr_fingerprint w, length (ap_chain A (wr_namespace w))))\<rparr>)"

definition spec_rows :: "write_request \<Rightarrow> unit spec_tx \<Rightarrow> head spec_tx" where
  "spec_rows w transition A =
     and_then (spec_claims (wr_claims w) A) (\<lambda>(_, A).
     and_then (spec_content (wr_content w) A) (\<lambda>(_, A).
     if ap_content A (hd_commit (wr_head w)) = None then Inl AppCorrupt
     else and_then (transition A) (\<lambda>(_, A). spec_publish w A)))"

definition spec_new :: "write_request \<Rightarrow> unit spec_tx \<Rightarrow> head spec_tx" where
  "spec_new w transition A =
     (if spec_fenced A (wr_namespace w) then Inl Fenced
      else if spec_head A (wr_namespace w) \<noteq> wr_expected w then Inl HeadMismatch
      else if length (ap_chain A (wr_namespace w)) = 2 ^ 64 \<or> unat (hd_index (wr_head w)) \<noteq> length (ap_chain A (wr_namespace w)) then Inl InvalidSequence
      else spec_rows w transition A)"

definition spec_apply :: "write_request \<Rightarrow> bool \<Rightarrow> unit spec_tx \<Rightarrow> head spec_tx" where
  "spec_apply w allow_retry transition A =
     (case ap_requests A (wr_namespace w, wr_request w) of
        Some (fingerprint, i) \<Rightarrow> if allow_retry \<and> fingerprint = wr_fingerprint w then Inr (spec_at A (wr_namespace w) i, A) else Inl Conflict
      | None \<Rightarrow> spec_new w transition A)"

text \<open>The tables of a transaction and what they stand for.\<close>

definition tx_view :: "('f \<Rightarrow> contents) \<Rightarrow> ('k \<Rightarrow> contents) \<Rightarrow> ('f, 'k) transaction \<Rightarrow> table \<Rightarrow> bytes \<Rightarrow> bytes option" where
  "tx_view CF CK tx t key = (case fmlookup (tx_changes tx) (t, key) of Some v \<Rightarrow> v | None \<Rightarrow> fmlookup (engine_table CF CK (tx_engine tx) t) key)"

definition tx_good :: "('f, 'k) transaction \<Rightarrow> bool" where
  "tx_good tx \<longleftrightarrow> tx_ok tx \<and> engine_ok (tx_engine tx) \<and> changes_named (tx_changes tx)"

definition stands_for :: "(table \<Rightarrow> bytes \<Rightarrow> bytes option) \<Rightarrow> app_spec \<Rightarrow> bool" where
  "stands_for T A \<longleftrightarrow>
     (\<forall>ns. T Heads (be_bytes 32 (ns :: particle)) = map_option encode_head (spec_head A ns)) \<and>
     (\<forall>ns i. T History (history_key ns i) = (if unat i < length (ap_chain A ns) then Some (be_bytes 32 (ap_chain A ns ! unat i)) else None)) \<and>
     (\<forall>ns r. T Requests (request_key ns r) = map_option (\<lambda>(fp, i). be_bytes 32 fp @ encode_head (spec_at A ns i)) (ap_requests A (ns, r))) \<and>
     (\<forall>c. T Content (be_bytes 32 (c :: particle)) = ap_content A c) \<and>
     (\<forall>c. T Claims (be_bytes 32 (c :: particle)) = map_option (be_bytes 32) (ap_claims A c)) \<and>
     (\<forall>key. T Migration key = ap_migration A key)"

text \<open>Every position of a chain is the answer to exactly one request, and every commit has its content.\<close>

definition spec_ok :: "app_spec \<Rightarrow> bool" where
  "spec_ok A \<longleftrightarrow> (\<forall>ns. length (ap_chain A ns) \<le> 2 ^ 64) \<and>
     (\<forall>ns r fp i. ap_requests A (ns, r) = Some (fp, i) \<longrightarrow> i < length (ap_chain A ns)) \<and>
     (\<forall>ns i. i < length (ap_chain A ns) \<longrightarrow> (\<exists>!r. \<exists>fp. ap_requests A (ns, r) = Some (fp, i))) \<and>
     (\<forall>ns c. c \<in> set (ap_chain A ns) \<longrightarrow> ap_content A c \<noteq> None)"

lemma spec_okD:
  assumes "spec_ok A"
  shows "length (ap_chain A ns) \<le> 2 ^ 64" and "ap_requests A (ns, r) = Some (fp, i) \<Longrightarrow> i < length (ap_chain A ns)"
  using assms unfolding spec_ok_def by blast+

text \<open>A closure implements a specification on the states with \<open>P\<close>: it returns, and unless the storage fails it does what the specification does.\<close>

definition implements :: "('f \<Rightarrow> contents) \<Rightarrow> ('k \<Rightarrow> contents) \<Rightarrow> (app_spec \<Rightarrow> bool) \<Rightarrow> ('f, 'k, 'a) app_tx \<Rightarrow> 'a spec_tx \<Rightarrow> bool" where
  "implements CF CK P m g \<longleftrightarrow> (\<forall>tx A. tx_good tx \<longrightarrow> spec_ok A \<longrightarrow> P A \<longrightarrow> stands_for (tx_view CF CK tx) A \<longrightarrow>
     (\<exists>tx' r. m tx = Some (tx', r) \<and> tx_good tx' \<and> tx_engine tx' = tx_engine tx \<and>
       ((\<exists>e. r = Inl (from_storage e)) \<or>
        (case g A of Inl e \<Rightarrow> r = Inl e | Inr (a, A') \<Rightarrow> r = Inr a \<and> stands_for (tx_view CF CK tx') A' \<and> spec_ok A'))))"

lemma implementsE:
  assumes "implements CF CK P m g" "tx_good tx" "spec_ok A" "P A" "stands_for (tx_view CF CK tx) A"
  obtains (fault) tx' e where "m tx = Some (tx', Inl (from_storage e))" "tx_good tx'" "tx_engine tx' = tx_engine tx"
    | (fails) tx' e where "m tx = Some (tx', Inl e)" "g A = Inl e" "tx_good tx'" "tx_engine tx' = tx_engine tx"
    | (returns) tx' a A' where "m tx = Some (tx', Inr a)" "g A = Inr (a, A')" "tx_good tx'" "tx_engine tx' = tx_engine tx"
        "stands_for (tx_view CF CK tx') A'" "spec_ok A'"
proof -
  obtain tx' r where "m tx = Some (tx', r)" "tx_good tx'" "tx_engine tx' = tx_engine tx"
      "(\<exists>e. r = Inl (from_storage e)) \<or> (case g A of Inl e \<Rightarrow> r = Inl e | Inr (a, A') \<Rightarrow> r = Inr a \<and> stands_for (tx_view CF CK tx') A' \<and> spec_ok A')"
    using assms unfolding implements_def by blast
  then show thesis using that by (cases "g A") auto
qed

lemma implements_result: "(\<And>A. spec_ok A \<Longrightarrow> P A \<Longrightarrow> g A = and_then r (\<lambda>a. Inr (a, A))) \<Longrightarrow> implements CF CK P (tx_result r) g"
  by (cases r) (auto simp: implements_def tx_result_def)

text \<open>What follows a closure may use what its specification says of its result.\<close>

lemma implements_then:
  assumes m: "implements CF CK P m g" and f: "\<And>a. implements CF CK (\<lambda>A'. \<exists>A. spec_ok A \<and> P A \<and> g A = Inr (a, A')) (f a) (h a)"
    and g': "\<And>A. spec_ok A \<Longrightarrow> P A \<Longrightarrow> g' A = and_then (g A) (\<lambda>(a, A'). h a A')"
  shows "implements CF CK P (tx_then m f) g'"
  unfolding implements_def
proof (intro allI impI)
  fix tx A assume tx: "tx_good tx" "spec_ok A" "P A" "stands_for (tx_view CF CK tx) A"
  from m tx show "\<exists>tx' r. tx_then m f tx = Some (tx', r) \<and> tx_good tx' \<and> tx_engine tx' = tx_engine tx \<and>
      ((\<exists>e. r = Inl (from_storage e)) \<or> (case g' A of Inl e \<Rightarrow> r = Inl e
        | Inr (a, A') \<Rightarrow> r = Inr a \<and> stands_for (tx_view CF CK tx') A' \<and> spec_ok A'))"
  proof (cases rule: implementsE)
    case fault
    then show ?thesis by (auto simp: tx_then_def)
  next
    case fails
    then show ?thesis by (auto simp: tx_then_def g' [OF tx(2,3)])
  next
    case (returns tx1 a A1)
    from f [of a, unfolded implements_def, rule_format, OF returns(3,6) _ returns(5)] returns(1,2,4) tx(2,3) show ?thesis
      by (auto simp: tx_then_def g' [OF tx(2,3)])
  qed
qed

lemma implements_weaken: "implements CF CK P m g \<Longrightarrow> (\<And>A. spec_ok A \<Longrightarrow> Q A \<Longrightarrow> P A \<and> g' A = g A) \<Longrightarrow> implements CF CK Q m g'"
  by (simp add: implements_def)

section \<open>Reads and writes\<close>

lemma tx_lift_cases: "tx_lift m tx = Some (tx', r) \<longleftrightarrow> (\<exists>q. m tx = Some (tx', q) \<and> r = map_sum from_storage id q)"
  by (auto simp: tx_lift_def)

lemma tx_get_view:
  assumes laws: "engine_laws F CF R CK V" and tx: "tx_good tx" and t: "table_name t \<noteq> None"
  shows "\<exists>r. tx_get F R tx t key m = Some r \<and> (\<forall>v. r = Inr v \<longrightarrow> v = tx_view CF CK tx t key)"
proof (cases "64 < length key \<or> MAX_BYTES_VALUE < m")
  case True
  then show ?thesis by (simp add: tx_get_def)
next
  case False
  have e: "engine_ok (tx_engine tx)" using tx by (simp add: tx_good_def)
  show ?thesis
    using False engine_get_ok [OF laws e t, of key m]
    by (cases "fmlookup (tx_changes tx) (t, key)") (auto simp: tx_get_def tx_view_def split: option.splits)
qed

lemma tx_ask_view:
  assumes "engine_laws F CF R CK V" and "tx_good tx" and "table_name t \<noteq> None"
  shows "(\<exists>e. tx_ask F R t key m tx = Some (tx, Inl (from_storage e))) \<or> tx_ask F R t key m tx = Some (tx, Inr (tx_view CF CK tx t key))"
proof -
  obtain r where "tx_get F R tx t key m = Some r" "\<forall>v. r = Inr v \<longrightarrow> v = tx_view CF CK tx t key" using tx_get_view [OF assms] by blast
  then show ?thesis by (cases r) (auto simp: tx_ask_def tx_lift_def read_only_def)
qed

lemma tx_store_view:
  assumes tx: "tx_good tx" and t: "table_name t \<noteq> None"
  shows "\<exists>tx' r. tx_store t key bs tx = Some (tx', r) \<and> tx_good tx' \<and> tx_engine tx' = tx_engine tx \<and>
    ((\<exists>e. r = Inl (from_storage e)) \<or> r = Inr () \<and> tx_view CF CK tx' = (tx_view CF CK tx)(t := (tx_view CF CK tx t)(key \<mapsto> bs)))"
proof -
  have ok: "tx_ok tx" using tx by (simp add: tx_good_def)
  obtain tx' r where s: "tx_stage tx t key (Some bs) = Some (tx', r)" "tx_ok tx'" "tx_engine tx' = tx_engine tx"
      "case r of Inl e \<Rightarrow> tx' = tx \<and> (\<exists>m. e = Limit m) | Inr _ \<Rightarrow> tx_changes tx' = fmupd (t, key) (Some bs) (tx_changes tx)"
    using tx_stage_ok [OF ok] by blast
  have "tx_good tx'" using s tx t by (cases r) (auto simp: tx_good_def changes_named_def)
  moreover have "tx_view CF CK tx' = (tx_view CF CK tx)(t := (tx_view CF CK tx t)(key \<mapsto> bs))" if "r = Inr ()"
    using s(3,4) that by (intro ext) (simp add: tx_view_def split: option.split)
  ultimately show ?thesis using s by (cases r) (auto simp: tx_store_def tx_lift_def tx_put_def)
qed

lemma tx_storeE:
  assumes "tx_good tx" "table_name t \<noteq> None"
  obtains tx' r where "tx_store t key bs tx = Some (tx', r)" "tx_good tx'" "tx_engine tx' = tx_engine tx"
    "(\<exists>e. r = Inl (from_storage e)) \<or> r = Inr () \<and> tx_view CF CK tx' = (tx_view CF CK tx)(t := (tx_view CF CK tx t)(key \<mapsto> bs))"
  using tx_store_view [OF assms, of key bs CF CK] by (elim exE conjE) (rule that)

text \<open>A read implements a lookup in what the table stands for.\<close>

lemma implements_ask:
  assumes laws: "engine_laws F CF R CK V" and t: "table_name t \<noteq> None"
    and row: "\<And>T A. stands_for T A \<Longrightarrow> spec_ok A \<Longrightarrow> P A \<Longrightarrow> T t key = row A"
  shows "implements CF CK P (tx_ask F R t key m) (\<lambda>A. Inr (row A, A))"
  unfolding implements_def
proof (intro allI impI)
  fix tx A assume tx: "tx_good tx" "spec_ok A" "P A" "stands_for (tx_view CF CK tx) A"
  from tx_ask_view [OF laws tx(1) t, of key m] tx row [OF tx(4,2,3)]
  show "\<exists>tx' r. tx_ask F R t key m tx = Some (tx', r) \<and> tx_good tx' \<and> tx_engine tx' = tx_engine tx \<and>
      ((\<exists>e. r = Inl (from_storage e)) \<or> (case Inr (row A, A) of Inl e \<Rightarrow> r = Inl e
        | Inr (a, A') \<Rightarrow> r = Inr a \<and> stands_for (tx_view CF CK tx') A' \<and> spec_ok A'))" by auto
qed

lemma implements_store:
  assumes t: "table_name t \<noteq> None"
    and upd: "\<And>T A. stands_for T A \<Longrightarrow> spec_ok A \<Longrightarrow> P A \<Longrightarrow> stands_for (T(t := (T t)(key \<mapsto> bs))) (f A) \<and> spec_ok (f A)"
  shows "implements CF CK P (tx_store t key bs) (\<lambda>A. Inr ((), f A))"
  unfolding implements_def
proof (intro allI impI)
  fix tx A assume tx: "tx_good tx" "spec_ok A" "P A" "stands_for (tx_view CF CK tx) A"
  from tx_store_view [OF tx(1) t, of key bs CF CK] upd [OF tx(4,2,3)]
  show "\<exists>tx' r. tx_store t key bs tx = Some (tx', r) \<and> tx_good tx' \<and> tx_engine tx' = tx_engine tx \<and>
      ((\<exists>e. r = Inl (from_storage e)) \<or> (case Inr ((), f A) of Inl e \<Rightarrow> r = Inl e
        | Inr (a, A') \<Rightarrow> r = Inr a \<and> stands_for (tx_view CF CK tx') A' \<and> spec_ok A'))" by auto
qed

lemma implements_immutable:
  assumes laws: "engine_laws F CF R CK V" and t: "table_name t \<noteq> None"
    and row: "\<And>T A. stands_for T A \<Longrightarrow> spec_ok A \<Longrightarrow> P A \<Longrightarrow> T t key = row A"
    and upd: "\<And>T A. stands_for T A \<Longrightarrow> spec_ok A \<Longrightarrow> P A \<Longrightarrow> row A = None \<Longrightarrow> stands_for (T(t := (T t)(key \<mapsto> bs))) (f A) \<and> spec_ok (f A)"
  shows "implements CF CK P (immutable_put F R t key bs m) (\<lambda>A. case row A of None \<Rightarrow> Inr ((), f A) | Some p \<Rightarrow> if p = bs then Inr ((), A) else Inl Conflict)"
proof -
  have ask: "implements CF CK P (tx_ask F R t key m) (\<lambda>A. Inr (row A, A))" by (rule implements_ask [OF laws t]) (rule row)
  show ?thesis unfolding immutable_put_def
  proof (rule implements_then [OF ask])
  fix found
  let ?h = "\<lambda>A. case found of None \<Rightarrow> Inr ((), f A) | Some p \<Rightarrow> if p = bs then Inr ((), A) else Inl Conflict"
  show "implements CF CK (\<lambda>A'. \<exists>A. spec_ok A \<and> P A \<and> Inr (row A, A) = Inr (found, A'))
      (case found of Some p \<Rightarrow> tx_result (if p \<noteq> bs then Inl Conflict else Inr ()) | None \<Rightarrow> tx_store t key bs) ?h"
  proof (cases found)
    case None
    then show ?thesis by simp (intro implements_store [OF t], use upd in blast)
  next
    case (Some p)
    then show ?thesis by (auto intro!: implements_result)
  qed
  qed auto
qed

section \<open>The parts of a write\<close>

lemma stands_for_rows:
  assumes "stands_for T A"
  shows "T Heads (be_bytes 32 ns) = map_option encode_head (spec_head A ns)"
    and "T History (history_key ns i) = (if unat i < length (ap_chain A ns) then Some (be_bytes 32 (ap_chain A ns ! unat i)) else None)"
    and "T Requests (request_key ns r) = map_option (\<lambda>(fp, i). be_bytes 32 fp @ encode_head (spec_at A ns i)) (ap_requests A (ns, r))"
    and "T Content (be_bytes 32 c) = ap_content A c" and "T Claims (be_bytes 32 c) = map_option (be_bytes 32) (ap_claims A c)"
    and "T Migration key = ap_migration A key"
  using assms unfolding stands_for_def by blast+

lemma spec_at_update [simp]:
  "spec_at (A\<lparr>ap_content := c\<rparr>) = spec_at A" "spec_at (A\<lparr>ap_claims := l\<rparr>) = spec_at A" "spec_at (A\<lparr>ap_migration := m\<rparr>) = spec_at A"
  "spec_head (A\<lparr>ap_content := c\<rparr>) = spec_head A" "spec_head (A\<lparr>ap_claims := l\<rparr>) = spec_head A" "spec_head (A\<lparr>ap_migration := m\<rparr>) = spec_head A"
  by (simp_all add: fun_eq_iff spec_at_def spec_head_def)

lemma stands_for_claim: "stands_for T A \<Longrightarrow> stands_for (T(Claims := (T Claims)(be_bytes 32 k \<mapsto> be_bytes 32 v))) (A\<lparr>ap_claims := (ap_claims A)(k \<mapsto> v)\<rparr>)"
  by (simp add: stands_for_def be_bytes_inj)

lemma stands_for_content: "stands_for T A \<Longrightarrow> stands_for (T(Content := (T Content)(be_bytes 32 k \<mapsto> v))) (A\<lparr>ap_content := (ap_content A)(k \<mapsto> v)\<rparr>)"
  by (simp add: stands_for_def be_bytes_inj)

lemma stands_for_migration: "stands_for T A \<Longrightarrow> stands_for (T(Migration := (T Migration)(key \<mapsto> v))) (A\<lparr>ap_migration := (ap_migration A)(key \<mapsto> v)\<rparr>)"
  by (simp add: stands_for_def)

lemma spec_ok_update:
  "spec_ok A \<Longrightarrow> spec_ok (A\<lparr>ap_claims := l\<rparr>)" "spec_ok A \<Longrightarrow> spec_ok (A\<lparr>ap_migration := m\<rparr>)" "spec_ok A \<Longrightarrow> spec_ok (A\<lparr>ap_content := (ap_content A)(k \<mapsto> v)\<rparr>)"
  by (simp_all add: spec_ok_def)

lemma implements_claims:
  assumes laws: "engine_laws F CF R CK V"
  shows "implements CF CK P (put_rows F R Claims 32 (map (map_prod (be_bytes 32) (be_bytes 32)) rows)) (spec_claims rows)"
proof (induction rows arbitrary: P)
  case Nil
  then show ?case by (auto intro!: implements_result simp: spec_claims_def)
next
  case (Cons row rows)
  obtain k v where row: "row = (k, v)" by (cases row)
  have put: "implements CF CK P (immutable_put F R Claims (be_bytes 32 k) (be_bytes 32 v) 32)
      (\<lambda>A. case map_option (be_bytes 32) (ap_claims A k) of None \<Rightarrow> Inr ((), A\<lparr>ap_claims := (ap_claims A)(k \<mapsto> v)\<rparr>)
        | Some p \<Rightarrow> if p = be_bytes 32 v then Inr ((), A) else Inl Conflict)" for P
    by (rule implements_immutable [OF laws]) (auto simp: stands_for_rows stands_for_claim spec_ok_update)
  show ?case unfolding row list.map map_prod_simp put_rows.simps
    by (rule implements_then [OF put Cons.IH]) (auto simp: spec_claims_def be_bytes_inj split: option.split)
qed

lemma implements_content:
  assumes laws: "engine_laws F CF R CK V"
  shows "implements CF CK P (put_rows F R Content MAX_BYTES_VALUE (map (apfst (be_bytes 32)) rows)) (spec_content rows)"
proof (induction rows arbitrary: P)
  case Nil
  then show ?case by (auto intro!: implements_result simp: spec_content_def)
next
  case (Cons row rows)
  obtain k v where row: "row = (k, v)" by (cases row)
  have put: "implements CF CK P (immutable_put F R Content (be_bytes 32 k) v MAX_BYTES_VALUE)
      (\<lambda>A. case ap_content A k of None \<Rightarrow> Inr ((), A\<lparr>ap_content := (ap_content A)(k \<mapsto> v)\<rparr>)
        | Some p \<Rightarrow> if p = v then Inr ((), A) else Inl Conflict)" for P
    by (rule implements_immutable [OF laws]) (auto simp: stands_for_rows stands_for_content spec_ok_update)
  show ?case unfolding row list.map apfst_conv put_rows.simps
    by (rule implements_then [OF put Cons.IH]) (auto simp: spec_content_def split: option.split)
qed

lemma implements_read_head:
  assumes laws: "engine_laws F CF R CK V"
  shows "implements CF CK P (read_head F R ns) (\<lambda>A. Inr (spec_head A ns, A))"
  unfolding read_head_def
proof (rule implements_then [OF implements_ask [where row = "\<lambda>A. map_option encode_head (spec_head A ns)", OF laws]])
  show "implements CF CK (\<lambda>A'. \<exists>A. spec_ok A \<and> P A \<and> Inr (map_option encode_head (spec_head A ns), A) = Inr (row, A')) (tx_result (opt_head row))
    (\<lambda>A. Inr (spec_head A ns, A))" for row :: "bytes option"
    by (rule implements_result) auto
qed (simp_all add: stands_for_rows)

lemma implements_fences:
  assumes laws: "engine_laws F CF R CK V"
  shows "implements CF CK P (check_fences F R ns) (\<lambda>A. if spec_fenced A ns then Inl Fenced else Inr ((), A))"
proof -
  have ask: "implements CF CK P (tx_ask F R Migration key m) (\<lambda>A. Inr (ap_migration A key, A))" for P key m
    by (rule implements_ask [OF laws]) (simp_all add: stands_for_rows)
  have fail: "implements CF CK P (tx_result (Inl Fenced)) (\<lambda>_. Inl Fenced)" for P by (rule implements_result) simp
  have "implements CF CK P (tx_result (if b then Inl Fenced else Inr ())) (\<lambda>A. if b then Inl Fenced else Inr ((), A))" for P b
    by (rule implements_result) simp
  note 3 = implements_then [OF ask this]
  have 2: "implements CF CK P (if b then tx_result (Inl Fenced) else tx_then (tx_ask F R Migration (stage_key ns) 32) (\<lambda>staged.
         tx_result (if staged \<noteq> None then Inl Fenced else Inr ())))
      (\<lambda>A. if b \<or> ap_migration A (stage_key ns) \<noteq> None then Inl Fenced else Inr ((), A))" for P b
    by (cases b) (auto intro!: fail 3)
  have 1: "implements CF CK P (if b then tx_result (Inl Fenced) else tx_then (tx_ask F R Migration status_key 16) (\<lambda>status.
       if status = Some export_marker then tx_result (Inl Fenced)
       else tx_then (tx_ask F R Migration (stage_key ns) 32) (\<lambda>staged. tx_result (if staged \<noteq> None then Inl Fenced else Inr ()))))
      (\<lambda>A. if b \<or> ap_migration A status_key = Some export_marker \<or> ap_migration A (stage_key ns) \<noteq> None then Inl Fenced else Inr ((), A))" for P b
    by (cases b) (auto intro!: fail implements_then [OF ask 2])
  show ?thesis unfolding check_fences_def by (rule implements_then [OF ask 1]) (auto simp: spec_fenced_def)
qed

text \<open>The last three records of a write extend the chain by one head and record its receipt.\<close>

definition fresh :: "write_request \<Rightarrow> app_spec \<Rightarrow> bool" where
  "fresh w A \<longleftrightarrow> ap_requests A (wr_namespace w, wr_request w) = None \<and> length (ap_chain A (wr_namespace w)) < 2 ^ 64 \<and>
     unat (hd_index (wr_head w)) = length (ap_chain A (wr_namespace w)) \<and> ap_content A (hd_commit (wr_head w)) \<noteq> None"

lemma spec_ok_publish:
  assumes A: "spec_ok A" and w: "fresh w A" and p: "spec_publish w A = Inr (h, A')"
  shows "spec_ok A'"
proof -
  let ?ns = "wr_namespace w" and ?n = "length (ap_chain A (wr_namespace w))"
  have A': "A' = A\<lparr>ap_chain := (ap_chain A)(?ns := ap_chain A ?ns @ [hd_commit (wr_head w)]),
      ap_requests := (ap_requests A)((?ns, wr_request w) \<mapsto> (wr_fingerprint w, ?n))\<rparr>" using p by (auto simp: spec_publish_def)
  have old: "i < length (ap_chain A ns)" if "ap_requests A (ns, r) = Some (fp, i)" for ns r fp i using A that unfolding spec_ok_def by blast
  have "\<exists>!r. \<exists>fp. ap_requests A' (ns, r) = Some (fp, i)" if i: "i < length (ap_chain A' ns)" for ns i
  proof (cases "ns = ?ns \<and> i = ?n")
    case True
    then show ?thesis using old by (intro ex1I [of _ "wr_request w"]) (fastforce simp: A' split: if_splits)+
  next
    case False
    then have "i < length (ap_chain A ns)" using i by (auto simp: A' split: if_splits)
    then obtain r where r: "\<exists>fp. ap_requests A (ns, r) = Some (fp, i)" "\<And>r'. \<exists>fp. ap_requests A (ns, r') = Some (fp, i) \<Longrightarrow> r' = r"
      using A unfolding spec_ok_def by blast
    have req: "ap_requests A' (ns, q) = Some (fp, i) \<longleftrightarrow> ap_requests A (ns, q) = Some (fp, i)" for q fp
      using False w by (auto simp: A' fresh_def)
    show ?thesis unfolding req by (rule ex1I, rule r(1), rule r(2))
  qed
  moreover have "i < length (ap_chain A' ns)" if "ap_requests A' (ns, r) = Some (fp, i)" for ns r fp i
    using that old [of ns r fp i] by (auto simp: A' less_Suc_eq split: if_splits)
  ultimately show ?thesis using A w by (auto simp: spec_ok_def A' fresh_def)
qed

lemma stands_for_publish:
  assumes T: "stands_for T A" and A: "spec_ok A" and w: "fresh w A" and p: "spec_publish w A = Inr (h, A')"
  shows "stands_for (T(History := (T History)(history_key (wr_namespace w) (hd_index (wr_head w)) \<mapsto> be_bytes 32 (hd_commit (wr_head w))),
      Heads := (T Heads)(be_bytes 32 (wr_namespace w) \<mapsto> encode_head (wr_head w)),
      Requests := (T Requests)(request_key (wr_namespace w) (wr_request w) \<mapsto> be_bytes 32 (wr_fingerprint w) @ encode_head (wr_head w)))) A'"
proof -
  let ?ns = "wr_namespace w" and ?n = "length (ap_chain A (wr_namespace w))"
  have A': "A' = A\<lparr>ap_chain := (ap_chain A)(?ns := ap_chain A ?ns @ [hd_commit (wr_head w)]),
      ap_requests := (ap_requests A)((?ns, wr_request w) \<mapsto> (wr_fingerprint w, ?n))\<rparr>" using p by (auto simp: spec_publish_def)
  have "unat (hd_index (wr_head w)) = ?n" using w unfolding fresh_def by blast
  then have index: "hd_index (wr_head w) = of_nat ?n" by (metis of_nat_unat ucast_id)
  then have head: "spec_at A' ?ns ?n = wr_head w" by (simp add: spec_at_def A')
  then have newest: "spec_head A' ns = (if ns = ?ns then Some (wr_head w) else spec_head A ns)" for ns by (auto simp: spec_head_def spec_at_def A')
  have at: "spec_at A' ns i = spec_at A ns i" if "ap_requests A (ns, r) = Some (fp, i)" for ns r fp i
  proof -
    have "i < length (ap_chain A ns)" using A that unfolding spec_ok_def by blast
    then show ?thesis by (auto simp: spec_at_def A' nth_append)
  qed
  have history: "(if unat i < length (ap_chain A' ns) then Some (be_bytes 32 (ap_chain A' ns ! unat i)) else None) =
      (if ns = ?ns \<and> i = hd_index (wr_head w) then Some (be_bytes 32 (hd_commit (wr_head w)))
       else if unat i < length (ap_chain A ns) then Some (be_bytes 32 (ap_chain A ns ! unat i)) else None)" for ns i
  proof -
    have "i = hd_index (wr_head w) \<longleftrightarrow> unat i = ?n" using w unfolding fresh_def by (metis word_unat_eq_iff)
    then show ?thesis by (auto simp: A' nth_append less_Suc_eq)
  qed
  have requests: "map_option (\<lambda>(fp, i). be_bytes 32 fp @ encode_head (spec_at A' ns i)) (ap_requests A' (ns, r)) =
      (if ns = ?ns \<and> r = wr_request w then Some (be_bytes 32 (wr_fingerprint w) @ encode_head (wr_head w))
       else map_option (\<lambda>(fp, i). be_bytes 32 fp @ encode_head (spec_at A ns i)) (ap_requests A (ns, r)))" for ns r
    using head at [of ns r] by (auto simp: A' map_option_case split: option.split)
  show ?thesis unfolding stands_for_def newest history requests
    using T by (auto simp: stands_for_rows A' be_bytes_inj)
qed

lemma implements_publish: "implements CF CK (fresh w) (publish_head w (hd_index (wr_head w))) (spec_publish w)"
  unfolding implements_def
proof (intro allI impI)
  fix tx A assume tx: "tx_good tx" "spec_ok A" "fresh w A" "stands_for (tx_view CF CK tx) A"
  obtain h A' where p: "spec_publish w A = Inr (h, A')" by (simp add: spec_publish_def)
  have h: "h = wr_head w" using p by (simp add: spec_publish_def)
  have named: "table_name History \<noteq> None" "table_name Heads \<noteq> None" "table_name Requests \<noteq> None" by simp_all
  obtain tx1 r1 where 1: "tx_store History (history_key (wr_namespace w) (hd_index (wr_head w))) (be_bytes 32 (hd_commit (wr_head w))) tx = Some (tx1, r1)"
      "tx_good tx1" "tx_engine tx1 = tx_engine tx" "(\<exists>e. r1 = Inl (from_storage e)) \<or> r1 = Inr () \<and> tx_view CF CK tx1 = (tx_view CF CK tx)(History :=
        (tx_view CF CK tx History)(history_key (wr_namespace w) (hd_index (wr_head w)) \<mapsto> be_bytes 32 (hd_commit (wr_head w))))"
    by (rule tx_storeE [OF tx(1) named(1)])
  obtain tx2 r2 where 2: "tx_store Heads (be_bytes 32 (wr_namespace w)) (encode_head (wr_head w)) tx1 = Some (tx2, r2)"
      "tx_good tx2" "tx_engine tx2 = tx_engine tx1" "(\<exists>e. r2 = Inl (from_storage e)) \<or> r2 = Inr () \<and> tx_view CF CK tx2 = (tx_view CF CK tx1)(Heads :=
        (tx_view CF CK tx1 Heads)(be_bytes 32 (wr_namespace w) \<mapsto> encode_head (wr_head w)))"
    by (rule tx_storeE [OF 1(2) named(2)])
  obtain tx3 r3 where 3: "tx_store Requests (request_key (wr_namespace w) (wr_request w)) (be_bytes 32 (wr_fingerprint w) @ encode_head (wr_head w)) tx2 = Some (tx3, r3)"
      "tx_good tx3" "tx_engine tx3 = tx_engine tx2" "(\<exists>e. r3 = Inl (from_storage e)) \<or> r3 = Inr () \<and> tx_view CF CK tx3 = (tx_view CF CK tx2)(Requests :=
        (tx_view CF CK tx2 Requests)(request_key (wr_namespace w) (wr_request w) \<mapsto> be_bytes 32 (wr_fingerprint w) @ encode_head (wr_head w)))"
    by (rule tx_storeE [OF 2(2) named(3)])
  note steps = publish_head_def tx_then_def tx_result_def 1(1) 2(1) 3(1)
  consider e where "r1 = Inl (from_storage e)" | e where "r1 = Inr ()" "r2 = Inl (from_storage e)" | e where "r1 = Inr ()" "r2 = Inr ()" "r3 = Inl (from_storage e)"
    | "r1 = Inr ()" "r2 = Inr ()" "r3 = Inr ()" using 1(4) 2(4) 3(4) by blast
  then show "\<exists>tx' r. publish_head w (hd_index (wr_head w)) tx = Some (tx', r) \<and> tx_good tx' \<and> tx_engine tx' = tx_engine tx \<and>
      ((\<exists>e. r = Inl (from_storage e)) \<or> (case spec_publish w A of Inl e \<Rightarrow> r = Inl e
        | Inr (a, A') \<Rightarrow> r = Inr a \<and> stands_for (tx_view CF CK tx') A' \<and> spec_ok A'))"
  proof cases
    case 4
    then have view: "tx_view CF CK tx3 = (tx_view CF CK tx)(History := (tx_view CF CK tx History)(history_key (wr_namespace w) (hd_index (wr_head w)) \<mapsto> be_bytes 32 (hd_commit (wr_head w))),
      Heads := (tx_view CF CK tx Heads)(be_bytes 32 (wr_namespace w) \<mapsto> encode_head (wr_head w)),
      Requests := (tx_view CF CK tx Requests)(request_key (wr_namespace w) (wr_request w) \<mapsto> be_bytes 32 (wr_fingerprint w) @ encode_head (wr_head w)))"
      using 1(4) 2(4) 3(4) by simp
    show ?thesis
      using 4 1(3) 2(3) 3(2,3) stands_for_publish [OF tx(4,2,3) p] spec_ok_publish [OF tx(2,3) p] h
      by (simp add: steps p view)
  qed (use 1 2 3 in \<open>auto simp: steps\<close>)
qed

section \<open>The whole write\<close>

text \<open>A transition may change the migration table only, and lifts no fence.\<close>

definition keeps_chains :: "unit spec_tx \<Rightarrow> bool" where
  "keeps_chains tr \<longleftrightarrow> (\<forall>A u A'. tr A = Inr (u, A') \<longrightarrow> (\<exists>m. A' = A\<lparr>ap_migration := m\<rparr> \<and>
     (\<forall>ns v. ap_migration A (fence_key ns) = Some v \<longrightarrow> m (fence_key ns) = Some v)))"

lemma spec_next:
  assumes A: "spec_ok A"
  shows "next_index (spec_head A ns) = (if length (ap_chain A ns) = 2 ^ 64 then Inl InvalidSequence else Inr (of_nat (length (ap_chain A ns))))"
proof (cases "ap_chain A ns")
  case Nil
  then show ?thesis by (simp add: next_index_def spec_head_def)
next
  case (Cons c cs)
  then have n: "length (ap_chain A ns) = Suc (length cs)" "length cs < 2 ^ 64" using A unfolding spec_ok_def by (metis length_Cons Suc_le_eq)+
  have "(of_nat (length cs) :: u64) = - 1 \<longleftrightarrow> length cs = 2 ^ 64 - 1"
  proof
    assume "(of_nat (length cs) :: u64) = - 1"
    then have "unat (of_nat (length cs) :: u64) = 2 ^ 64 - 1" by (simp add: unsigned_minus_1_eq_mask mask_eq_exp_minus_1)
    then show "length cs = 2 ^ 64 - 1" using n(2) by (simp add: unat_of_nat)
  next
    assume "length cs = 2 ^ 64 - 1"
    then show "(of_nat (length cs) :: u64) = - 1" by simp
  qed
  then show ?thesis using n by (auto simp: next_index_def spec_head_def spec_at_def Cons)
qed

lemma spec_position:
  assumes "spec_ok A" and "length (ap_chain A ns) \<noteq> 2 ^ 64"
  shows "length (ap_chain A ns) < 2 ^ 64" "i = (of_nat (length (ap_chain A ns)) :: u64) \<longleftrightarrow> unat i = length (ap_chain A ns)"
proof -
  show l: "length (ap_chain A ns) < 2 ^ 64" using assms unfolding spec_ok_def by (metis le_neq_implies_less)
  have "unat (of_nat (length (ap_chain A ns)) :: u64) = length (ap_chain A ns)" using l by (simp add: unat_of_nat)
  then show "i = (of_nat (length (ap_chain A ns)) :: u64) \<longleftrightarrow> unat i = length (ap_chain A ns)" by (metis word_unat_eq_iff)
qed

lemma spec_rowsD:
  "spec_claims rows A = Inr (u, A') \<Longrightarrow> \<exists>m. A' = A\<lparr>ap_claims := m\<rparr>" "spec_content rows' A = Inr (u, A') \<Longrightarrow> \<exists>m. A' = A\<lparr>ap_content := m\<rparr>"
  by (auto simp: spec_claims_def spec_content_def split: option.splits)

definition next_free :: "write_request \<Rightarrow> app_spec \<Rightarrow> bool" where
  "next_free w A \<longleftrightarrow> ap_requests A (wr_namespace w, wr_request w) = None \<and> length (ap_chain A (wr_namespace w)) < 2 ^ 64 \<and>
     unat (hd_index (wr_head w)) = length (ap_chain A (wr_namespace w))"

lemma implements_transition:
  assumes tr: "implements CF CK (\<lambda>_. True) transition tr" and local: "keeps_chains tr"
  shows "implements CF CK (fresh w) (tx_then transition (\<lambda>_. publish_head w (hd_index (wr_head w)))) (\<lambda>A. and_then (tr A) (\<lambda>(_, A). spec_publish w A))"
proof (rule implements_then [OF implements_weaken [OF tr] implements_weaken [OF implements_publish]])
  show "fresh w A' \<and> spec_publish w A' = spec_publish w A'" if "\<exists>A. spec_ok A \<and> fresh w A \<and> tr A = Inr (u, A')" for A' u
    using that local unfolding keeps_chains_def by (fastforce simp: fresh_def)
qed auto

lemma implements_rows:
  assumes laws: "engine_laws F CF R CK V" and tr: "implements CF CK (\<lambda>_. True) transition tr" "keeps_chains tr"
  shows "implements CF CK (next_free w) (apply_rows F R w transition (hd_index (wr_head w))) (spec_rows w tr)"
proof -
  let ?h = "\<lambda>A. and_then (tr A) (\<lambda>(_, A). spec_publish w A)"
  let ?g = "\<lambda>A. if ap_content A (hd_commit (wr_head w)) = None then Inl AppCorrupt else ?h A"
  have content: "implements CF CK (next_free w) (tx_then (tx_ask F R Content (be_bytes 32 (hd_commit (wr_head w))) MAX_BYTES_VALUE) (\<lambda>found.
       if found = None then tx_result (Inl AppCorrupt) else tx_then transition (\<lambda>_. publish_head w (hd_index (wr_head w))))) ?g"
  proof (rule implements_then [OF implements_ask [OF laws, where row = "\<lambda>A. ap_content A (hd_commit (wr_head w))"]])
    show "implements CF CK (\<lambda>A'. \<exists>A. spec_ok A \<and> next_free w A \<and> Inr (ap_content A (hd_commit (wr_head w)), A) = Inr (found, A'))
       (if found = None then tx_result (Inl AppCorrupt) else tx_then transition (\<lambda>_. publish_head w (hd_index (wr_head w))))
       (\<lambda>A. if found = None then Inl AppCorrupt else ?h A)" for found
      by (cases found) (auto intro!: implements_result implements_weaken [OF implements_transition [OF tr]] simp: next_free_def fresh_def)
  qed (auto simp: stands_for_rows)
  show ?thesis unfolding apply_rows_def
  proof (rule implements_then [OF implements_claims [OF laws] implements_then [OF implements_content [OF laws] implements_weaken [OF content]]])
    fix u u' A' assume "\<exists>A2. spec_ok A2 \<and> (\<exists>A1. spec_ok A1 \<and> next_free w A1 \<and> spec_claims (wr_claims w) A1 = Inr (u, A2)) \<and> spec_content (wr_content w) A2 = Inr (u', A')"
    then obtain A1 m m' where "next_free w A1" "A' = A1\<lparr>ap_claims := m, ap_content := m'\<rparr>" using spec_rowsD by blast
    then show "next_free w A' \<and> ?g A' = ?g A'" by (simp add: next_free_def)
  qed (auto simp: spec_rows_def)
qed

lemma implements_sequence:
  assumes laws: "engine_laws F CF R CK V" and tr: "implements CF CK (\<lambda>_. True) transition tr" "keeps_chains tr"
  shows "implements CF CK (\<lambda>A. ap_requests A (wr_namespace w, wr_request w) = None \<and> spec_head A (wr_namespace w) = current) (apply_sequence F R w transition current)
    (\<lambda>A. if spec_head A (wr_namespace w) \<noteq> wr_expected w then Inl HeadMismatch
       else if length (ap_chain A (wr_namespace w)) = 2 ^ 64 \<or> unat (hd_index (wr_head w)) \<noteq> length (ap_chain A (wr_namespace w)) then Inl InvalidSequence
       else spec_rows w tr A)" (is "implements _ _ ?P _ ?G")
proof (cases "current = wr_expected w")
  case True
  let ?g = "\<lambda>A. and_then (next_index current) (\<lambda>a. Inr (a, A))"
  have pre: "implements CF CK ?P (tx_result (next_index current)) ?g" by (rule implements_result) simp
  have "implements CF CK (\<lambda>A'. \<exists>A. spec_ok A \<and> ?P A \<and> ?g A = Inr (index, A')) (if hd_index (wr_head w) \<noteq> index then tx_result (Inl InvalidSequence)
      else apply_rows F R w transition index) (\<lambda>A. if hd_index (wr_head w) \<noteq> index then Inl InvalidSequence else spec_rows w tr A)" for index
  proof (cases "hd_index (wr_head w) = index")
    case True
    have "next_free w A" if "\<exists>B. spec_ok B \<and> ?P B \<and> ?g B = Inr (index, A)" for A
    proof -
      have "spec_ok A" "?P A" "next_index (spec_head A (wr_namespace w)) = Inr index" using that by (auto simp: result_simps)
      then show ?thesis
        using True spec_next [of A "wr_namespace w"] spec_position(1) [of A "wr_namespace w"] spec_position(2) [of A "wr_namespace w" "hd_index (wr_head w)"]
        by (simp add: next_free_def split: if_splits)
    qed
    then show ?thesis using True implements_weaken [OF implements_rows [OF laws tr, where w = w]] by auto
  qed (auto intro: implements_result)
  note step = implements_then [OF pre this]
  have "implements CF CK ?P (tx_then (tx_result (next_index current)) (\<lambda>index. if hd_index (wr_head w) \<noteq> index then tx_result (Inl InvalidSequence)
      else apply_rows F R w transition index)) ?G"
  proof (rule step)
    fix A assume A: "spec_ok A" "?P A"
    show "?G A = and_then (?g A) (\<lambda>(index, A). if hd_index (wr_head w) \<noteq> index then Inl InvalidSequence else spec_rows w tr A)"
      using A spec_next [OF A(1), of "wr_namespace w"] spec_position(2) [OF A(1), of "wr_namespace w" "hd_index (wr_head w)"]
      by (cases "length (ap_chain A (wr_namespace w)) = 2 ^ 64") (simp_all add: True)
  qed
  then show ?thesis by (simp add: apply_sequence_def True)
qed (auto simp: apply_sequence_def intro: implements_result)

lemma implements_new:
  assumes laws: "engine_laws F CF R CK V" and tr: "implements CF CK (\<lambda>_. True) transition tr" "keeps_chains tr"
  shows "implements CF CK (\<lambda>A. ap_requests A (wr_namespace w, wr_request w) = None) (apply_new F R w transition) (spec_new w tr)"
    (is "implements _ _ ?P _ _")
proof -
  let ?ns = "wr_namespace w"
  let ?G = "\<lambda>A. if spec_head A ?ns \<noteq> wr_expected w then Inl HeadMismatch
       else if length (ap_chain A ?ns) = 2 ^ 64 \<or> unat (hd_index (wr_head w)) \<noteq> length (ap_chain A ?ns) then Inl InvalidSequence else spec_rows w tr A"
  have head: "implements CF CK ?P (tx_then (read_head F R ?ns) (apply_sequence F R w transition)) ?G"
  proof (rule implements_then [where h = "\<lambda>_. ?G", OF implements_read_head [OF laws]])
    show "implements CF CK (\<lambda>A'. \<exists>A. spec_ok A \<and> ?P A \<and> Inr (spec_head A ?ns, A) = Inr (current, A')) (apply_sequence F R w transition current) ?G" for current
      by (rule implements_weaken [OF implements_sequence [OF laws tr, of w current]]) auto
  qed simp
  show ?thesis unfolding apply_new_def
  proof (rule implements_then [where h = "\<lambda>_. ?G", OF implements_fences [OF laws]])
    show "implements CF CK (\<lambda>A'. \<exists>A. spec_ok A \<and> ?P A \<and> (if spec_fenced A ?ns then Inl Fenced else Inr ((), A)) = Inr (u, A'))
      (tx_then (read_head F R ?ns) (apply_sequence F R w transition)) ?G" for u
      by (rule implements_weaken [OF head]) (elim exE conjE, simp split: if_splits)
  qed (simp add: spec_new_def)
qed

lemma implements_body:
  assumes laws: "engine_laws F CF R CK V" and tr: "implements CF CK (\<lambda>_. True) transition tr" "keeps_chains tr"
  shows "implements CF CK (\<lambda>_. True) (apply_body F R w allow_retry transition) (spec_apply w allow_retry tr)"
proof -
  let ?row = "\<lambda>A. map_option (\<lambda>(fp, i). be_bytes 32 fp @ encode_head (spec_at A (wr_namespace w) i)) (ap_requests A (wr_namespace w, wr_request w))"
  have ask: "implements CF CK (\<lambda>_. True) (tx_ask F R Requests (request_key (wr_namespace w) (wr_request w)) 72) (\<lambda>A. Inr (?row A, A))"
    by (rule implements_ask [OF laws]) (simp_all add: stands_for_rows)
  have "implements CF CK (\<lambda>A'. \<exists>A. spec_ok A \<and> True \<and> Inr (?row A, A) = Inr (prior, A')) (case prior of
       Some receipt \<Rightarrow> if \<not> allow_retry then tx_result (Inl Conflict)
         else tx_result (and_then (decode_request receipt) (\<lambda>(fingerprint, h). if fingerprint = wr_fingerprint w then Inr h else Inl Conflict))
     | None \<Rightarrow> apply_new F R w transition) (spec_apply w allow_retry tr)" for prior
  proof (cases prior)
    case None
    then show ?thesis by simp (rule implements_weaken [OF implements_new [OF laws tr, where w = w]], simp add: spec_apply_def)
  next
    case (Some receipt)
    then show ?thesis by (cases allow_retry) (auto intro!: implements_result simp: spec_apply_def)
  qed
  then show ?thesis unfolding apply_body_def by (rule implements_then [OF ask]) simp
qed

end
