(* ===== verification/Bbg_Application_Runs.thy ===== *)
theory Bbg_Application_Runs
  imports Bbg_Application_Spec
begin

text \<open>
  Migrations, the write on the database with its commit outcomes, and runs of the application store with retries and reopenings.
\<close>

section \<open>Migrations\<close>

definition spec_cursor :: "particle \<Rightarrow> particle \<Rightarrow> unit spec_tx" where
  "spec_cursor manifest target A = (case ap_migration A (cursor_key manifest) of
       None \<Rightarrow> Inl AppCorrupt
     | Some c \<Rightarrow> and_then (cursor_decode c) (\<lambda>c.
         if cu_table c \<noteq> 5 then Inl Fenced
         else if ap_migration A (target_key manifest) \<noteq> Some (be_bytes 32 target) then Inl Conflict else Inr ((), A)))"

definition spec_complete :: "particle \<Rightarrow> particle \<Rightarrow> unit spec_tx" where
  "spec_complete origin target A = (case ap_migration A (stage_key origin) of
       None \<Rightarrow> Inr ((), A)
     | Some m \<Rightarrow> if length m \<noteq> 32 then Inl AppCorrupt else spec_cursor (of_be_bytes m) target A)"

definition spec_fence :: "particle \<Rightarrow> bytes \<Rightarrow> unit spec_tx" where
  "spec_fence origin row A = (case ap_migration A (fence_key origin) of
       None \<Rightarrow> Inr ((), A\<lparr>ap_migration := (ap_migration A)(fence_key origin \<mapsto> row)\<rparr>)
     | Some p \<Rightarrow> if p = row then Inr ((), A) else Inl Conflict)"

fun spec_sources :: "particle \<Rightarrow> particle \<Rightarrow> (particle \<times> head) list \<Rightarrow> unit spec_tx" where
  "spec_sources target manifest [] A = Inr ((), A)"
| "spec_sources target manifest ((origin, expected) # sources) A = and_then (spec_complete origin target A) (\<lambda>(_, A).
     if spec_head A origin \<noteq> Some expected then Inl HeadMismatch
     else and_then (spec_fence origin (be_bytes 32 target @ be_bytes 32 manifest) A) (\<lambda>(_, A). spec_sources target manifest sources A))"

definition spec_promote :: "unit spec_tx" where
  "spec_promote A = and_then (map_sum from_storage id (gen_decode (ap_migration A status_key))) (\<lambda>current.
     Inr ((), if current = Original then A\<lparr>ap_migration := (ap_migration A)(status_key \<mapsto> map of_char ''neuron-v1'')\<rparr> else A))"

definition spec_migrate :: "particle \<Rightarrow> namespace_migration \<Rightarrow> unit spec_tx" where
  "spec_migrate target m A = and_then (spec_sources target (nm_manifest m) (nm_sources m) A) (\<lambda>(_, A). spec_promote A)"

lemma implements_migration_ask:
  assumes "engine_laws F CF R CK V"
  shows "implements CF CK P (tx_ask F R Migration key m) (\<lambda>A. Inr (ap_migration A key, A))"
  by (rule implements_ask [OF assms]) (simp_all add: stands_for_rows)

lemma implements_cursor:
  assumes laws: "engine_laws F CF R CK V"
  shows "implements CF CK P (check_cursor F R manifest target) (spec_cursor manifest target)"
proof -
  note ask = implements_migration_ask [OF laws]
  have 3: "implements CF CK P (tx_result (if found \<noteq> Some x then Inl Conflict else Inr ())) (\<lambda>A. if found \<noteq> Some x then Inl Conflict else Inr ((), A))" for P found x
    by (rule implements_result) simp
  have 2: "implements CF CK P (if cu_table c \<noteq> 5 then tx_result (Inl Fenced) else tx_then (tx_ask F R Migration (target_key manifest) 32) (\<lambda>found.
         tx_result (if found \<noteq> Some (be_bytes 32 target) then Inl Conflict else Inr ())))
       (\<lambda>A. if cu_table c \<noteq> 5 then Inl Fenced else if ap_migration A (target_key manifest) \<noteq> Some (be_bytes 32 target) then Inl Conflict else Inr ((), A))" for P c
    by (cases "cu_table c = 5") (auto intro!: implements_then [OF ask 3] implements_result)
  have decode: "implements CF CK P (tx_result (cursor_decode c)) (\<lambda>A. and_then (cursor_decode c) (\<lambda>c. Inr (c, A)))" for P c by (rule implements_result) simp
  have 1: "implements CF CK P (case cursor of None \<Rightarrow> tx_result (Inl AppCorrupt) | Some c \<Rightarrow> tx_then (tx_result (cursor_decode c)) (\<lambda>c.
         if cu_table c \<noteq> 5 then tx_result (Inl Fenced) else tx_then (tx_ask F R Migration (target_key manifest) 32) (\<lambda>found.
           tx_result (if found \<noteq> Some (be_bytes 32 target) then Inl Conflict else Inr ()))))
       (\<lambda>A. case cursor of None \<Rightarrow> Inl AppCorrupt | Some c \<Rightarrow> and_then (cursor_decode c) (\<lambda>c. if cu_table c \<noteq> 5 then Inl Fenced
           else if ap_migration A (target_key manifest) \<noteq> Some (be_bytes 32 target) then Inl Conflict else Inr ((), A)))" for P cursor
  proof (cases cursor)
    case (Some c)
    show ?thesis unfolding Some option.case by (rule implements_then [OF decode 2]) (cases "cursor_decode c"; simp)
  qed (auto intro: implements_result)
  show ?thesis unfolding check_cursor_def by (rule implements_then [OF ask 1]) (simp add: spec_cursor_def)
qed

lemma implements_complete:
  assumes laws: "engine_laws F CF R CK V"
  shows "implements CF CK P (require_complete F R origin target) (spec_complete origin target)"
proof -
  have "implements CF CK P (case manifest of None \<Rightarrow> tx_result (Inr ()) | Some m \<Rightarrow> if length m \<noteq> 32 then tx_result (Inl AppCorrupt) else check_cursor F R (of_be_bytes m) target)
      (\<lambda>A. case manifest of None \<Rightarrow> Inr ((), A) | Some m \<Rightarrow> if length m \<noteq> 32 then Inl AppCorrupt else spec_cursor (of_be_bytes m) target A)" for P manifest
    by (cases manifest) (auto intro!: implements_result implements_cursor [OF laws])
  then show ?thesis unfolding require_complete_def by (rule implements_then [OF implements_migration_ask [OF laws]]) (simp add: spec_complete_def)
qed

lemma implements_fence:
  assumes laws: "engine_laws F CF R CK V"
  shows "implements CF CK P (immutable_put F R Migration (fence_key origin) row 64) (spec_fence origin row)"
proof -
  have "implements CF CK P (immutable_put F R Migration (fence_key origin) row 64)
      (\<lambda>A. case ap_migration A (fence_key origin) of None \<Rightarrow> Inr ((), A\<lparr>ap_migration := (ap_migration A)(fence_key origin \<mapsto> row)\<rparr>)
        | Some p \<Rightarrow> if p = row then Inr ((), A) else Inl Conflict)"
    by (rule implements_immutable [OF laws]) (auto simp: stands_for_rows stands_for_migration spec_ok_update)
  then show ?thesis by (rule implements_weaken) (simp add: spec_fence_def)
qed

lemma implements_sources:
  assumes laws: "engine_laws F CF R CK V"
  shows "implements CF CK P (fence_sources F R target manifest sources) (spec_sources target manifest sources)"
proof (induction sources arbitrary: P)
  case Nil
  then show ?case by (auto intro!: implements_result)
next
  case (Cons source sources)
  obtain origin expected where source: "source = (origin, expected)" by (cases source)
  let ?row = "be_bytes 32 target @ be_bytes 32 manifest"
  let ?rest = "\<lambda>A. and_then (spec_fence origin ?row A) (\<lambda>(_, A). spec_sources target manifest sources A)"
  have rest: "implements CF CK P (tx_then (immutable_put F R Migration (fence_key origin) ?row 64) (\<lambda>_. fence_sources F R target manifest sources)) ?rest" for P
    by (rule implements_then [OF implements_fence [OF laws] Cons.IH]) simp
  have "implements CF CK P (if current \<noteq> Some expected then tx_result (Inl HeadMismatch)
      else tx_then (immutable_put F R Migration (fence_key origin) ?row 64) (\<lambda>_. fence_sources F R target manifest sources))
      (\<lambda>A. if current \<noteq> Some expected then Inl HeadMismatch else ?rest A)" for P current
    by (cases "current = Some expected") (auto intro!: implements_result rest)
  note head = implements_then [OF implements_read_head [OF laws] this]
  show ?case unfolding source fence_sources.simps
    by (rule implements_then [OF implements_complete [OF laws] head]) auto
qed

lemma promote_code:
  "tx_lift (gen_promote F R NeuronV1) = tx_then (tx_ask F R Migration status_key 16) (\<lambda>row.
      tx_then (tx_result (map_sum from_storage id (gen_decode row))) (\<lambda>current. if current = Original
        then tx_then (tx_store Migration status_key (map of_char ''neuron-v1'')) (\<lambda>_. tx_result (Inr NeuronV1)) else tx_result (Inr current)))"
proof
  fix tx
  have rank: "Suc 0 \<le> generation_rank current \<longleftrightarrow> current \<noteq> Original" for current by (cases current) simp_all
  note defs = tx_lift_def gen_promote_def tx_then_def tx_ask_def read_only_def tx_store_def tx_result_def
  show "tx_lift (gen_promote F R NeuronV1) tx = tx_then (tx_ask F R Migration status_key 16) (\<lambda>row.
      tx_then (tx_result (map_sum from_storage id (gen_decode row))) (\<lambda>current. if current = Original
        then tx_then (tx_store Migration status_key (map of_char ''neuron-v1'')) (\<lambda>_. tx_result (Inr NeuronV1)) else tx_result (Inr current))) tx"
  proof (cases "tx_get F R tx Migration status_key 16")
    case None
    then show ?thesis by (simp add: defs)
  next
    case (Some r)
    show ?thesis
    proof (cases "and_then r gen_decode")
      case (Inl e)
      then show ?thesis using Some by (auto simp: defs result_simps)
    next
      case (Inr current)
      then obtain row where row: "r = Inr row" "gen_decode row = Inr current" by (auto simp: result_simps)
      obtain tx' q where "tx_put tx Migration status_key (map of_char ''neuron-v1'') = Some (tx', q) \<or> tx_put tx Migration status_key (map of_char ''neuron-v1'') = None"
        by (cases "tx_put tx Migration status_key (map of_char ''neuron-v1'')") auto
      then show ?thesis using Some row by (cases q; cases "current = Original") (auto simp: defs rank and_then_def)
    qed
  qed
qed

lemma implements_promote:
  assumes laws: "engine_laws F CF R CK V"
  shows "implements CF CK P (tx_then (tx_lift (gen_promote F R NeuronV1)) (\<lambda>_. tx_result (Inr ()))) spec_promote"
proof -
  let ?set = "\<lambda>A. A\<lparr>ap_migration := (ap_migration A)(status_key \<mapsto> map of_char ''neuron-v1'')\<rparr>"
  have store: "implements CF CK P (tx_store Migration status_key (map of_char ''neuron-v1'')) (\<lambda>A. Inr ((), ?set A))" for P
    by (rule implements_store) (auto simp: stands_for_migration spec_ok_update)
  have gives: "implements CF CK P (tx_result (Inr x)) (\<lambda>A. Inr (x, A))" for P and x :: reader_generation by (rule implements_result) simp
  have decode: "implements CF CK P (tx_result r) (\<lambda>A. and_then r (\<lambda>c. Inr (c, A)))" for P and r :: "app_error + reader_generation" by (rule implements_result) simp
  have ends: "implements CF CK P (tx_result (Inr ())) (\<lambda>A. Inr ((), A))" for P by (rule implements_result) simp
  have "implements CF CK P (tx_then (tx_store Migration status_key (map of_char ''neuron-v1'')) (\<lambda>_. tx_result (Inr NeuronV1))) (\<lambda>A. Inr (NeuronV1, ?set A))" for P
    by (rule implements_then [OF store gives]) simp
  then have "implements CF CK P (if current = Original then tx_then (tx_store Migration status_key (map of_char ''neuron-v1'')) (\<lambda>_. tx_result (Inr NeuronV1)) else tx_result (Inr current))
      (\<lambda>A. if current = Original then Inr (NeuronV1, ?set A) else Inr (current, A))" for P current
    using gives by simp
  note 2 = implements_then [OF decode this]
  have "implements CF CK P (tx_lift (gen_promote F R NeuronV1)) (\<lambda>A. and_then (map_sum from_storage id (gen_decode (ap_migration A status_key)))
      (\<lambda>current. if current = Original then Inr (NeuronV1, ?set A) else Inr (current, A)))" for P
    unfolding promote_code by (rule implements_then [OF implements_migration_ask [OF laws] 2 [OF refl]]) (auto simp: and_then_def split: sum.split)
  then show ?thesis by (rule implements_then [OF _ ends]) (auto simp: spec_promote_def and_then_def split: sum.split)
qed

lemma spec_complete_same: "spec_complete origin target A = Inr (u, A') \<Longrightarrow> A' = A"
  by (auto simp: spec_complete_def spec_cursor_def result_simps split: option.splits if_splits)

lemma migration_self: "A\<lparr>ap_migration := ap_migration A\<rparr> = (A :: app_spec)"
  by simp

text \<open>The sources of a migration have the expected heads, and are fenced afterwards.\<close>

lemma spec_sources_fenced:
  assumes "spec_sources target manifest sources A = Inr (u, A')"
  shows "\<exists>m. A' = A\<lparr>ap_migration := m\<rparr> \<and> (\<forall>ns v. ap_migration A (fence_key ns) = Some v \<longrightarrow> m (fence_key ns) = Some v) \<and>
    (\<forall>origin expected. (origin, expected) \<in> set sources \<longrightarrow> spec_head A origin = Some expected \<and> m (fence_key origin) = Some (be_bytes 32 target @ be_bytes 32 manifest))"
  using assms
proof (induction sources arbitrary: A)
  case (Cons source sources)
  obtain origin expected where source: "source = (origin, expected)" by (cases source)
  let ?row = "be_bytes 32 target @ be_bytes 32 manifest"
  obtain A1 where 1: "spec_head A origin = Some expected" "spec_fence origin ?row A = Inr ((), A1)" "spec_sources target manifest sources A1 = Inr (u, A')"
    using Cons.prems by (auto simp: source result_simps dest!: spec_complete_same split: if_splits)
  obtain m1 where m1: "A1 = A\<lparr>ap_migration := m1\<rparr>" "m1 (fence_key origin) = Some ?row" "\<forall>ns v. ap_migration A (fence_key ns) = Some v \<longrightarrow> m1 (fence_key ns) = Some v"
  proof (cases "ap_migration A (fence_key origin)")
    case None
    then show ?thesis using 1(2) that [of "(ap_migration A)(fence_key origin \<mapsto> ?row)"] by (auto simp: spec_fence_def)
  next
    case (Some p)
    then show ?thesis using 1(2) that [of "ap_migration A"] by (auto simp: spec_fence_def split: if_splits)
  qed
  obtain m where m: "A' = A1\<lparr>ap_migration := m\<rparr>" "\<forall>ns v. m1 (fence_key ns) = Some v \<longrightarrow> m (fence_key ns) = Some v"
      "\<forall>origin expected. (origin, expected) \<in> set sources \<longrightarrow> spec_head A origin = Some expected \<and> m (fence_key origin) = Some ?row"
    using Cons.IH [OF 1(3)] by (auto simp: m1(1))
  show ?case
  proof (intro exI [of _ m] conjI allI impI)
    show "A' = A\<lparr>ap_migration := m\<rparr>" by (simp add: m(1) m1(1))
    show "m (fence_key ns) = Some v" if "ap_migration A (fence_key ns) = Some v" for ns v using that m1(3) m(2) by blast
  qed (use 1(1) m1(2) m(2,3) in \<open>auto simp: source\<close>)
next
  case Nil
  then show ?case by (auto intro!: exI [of _ "ap_migration A"] simp: migration_self)
qed

lemma spec_migrate_fenced:
  assumes "spec_migrate target nm A = Inr (u, A')"
  shows "\<exists>m. A' = A\<lparr>ap_migration := m\<rparr> \<and> (\<forall>ns v. ap_migration A (fence_key ns) = Some v \<longrightarrow> m (fence_key ns) = Some v) \<and>
    (\<forall>origin expected. (origin, expected) \<in> set (nm_sources nm) \<longrightarrow>
      spec_head A origin = Some expected \<and> m (fence_key origin) = Some (be_bytes 32 target @ be_bytes 32 (nm_manifest nm)))"
proof -
  obtain A1 where 1: "spec_sources target (nm_manifest nm) (nm_sources nm) A = Inr ((), A1)" "spec_promote A1 = Inr (u, A')"
    using assms by (auto simp: spec_migrate_def result_simps)
  obtain m where m: "A1 = A\<lparr>ap_migration := m\<rparr>" "\<forall>ns v. ap_migration A (fence_key ns) = Some v \<longrightarrow> m (fence_key ns) = Some v"
      "\<forall>origin expected. (origin, expected) \<in> set (nm_sources nm) \<longrightarrow>
        spec_head A origin = Some expected \<and> m (fence_key origin) = Some (be_bytes 32 target @ be_bytes 32 (nm_manifest nm))"
    using spec_sources_fenced [OF 1(1)] by blast
  obtain m' where "A' = A1\<lparr>ap_migration := m'\<rparr>" "\<forall>ns. m' (fence_key ns) = ap_migration A1 (fence_key ns)"
  proof (cases "A' = A1")
    case True
    then show ?thesis using that [of "ap_migration A1"] by (simp add: migration_self)
  next
    case False
    then have "A' = A1\<lparr>ap_migration := (ap_migration A1)(status_key \<mapsto> map of_char ''neuron-v1'')\<rparr>"
      using 1(2) by (auto simp: spec_promote_def result_simps split: if_splits)
    then show ?thesis using that by simp
  qed
  then show ?thesis using m by (intro exI [of _ m']) simp
qed

lemma keeps_chains_migrate: "keeps_chains (spec_migrate target m)"
  unfolding keeps_chains_def using spec_migrate_fenced by blast

lemma keeps_chains_none: "keeps_chains (\<lambda>A. Inr ((), A))"
  by (auto simp: keeps_chains_def migration_self intro!: exI [of _ "ap_migration _"])

lemma implements_migrate:
  assumes laws: "engine_laws F CF R CK V"
  shows "implements CF CK P (migrate_transition F R target m) (spec_migrate target m)"
  unfolding migrate_transition_def by (rule implements_then [OF implements_sources [OF laws] implements_promote [OF laws]]) (simp add: spec_migrate_def)

section \<open>A write on the database\<close>

definition db_tables :: "('f \<Rightarrow> contents) \<Rightarrow> ('k \<Rightarrow> contents) \<Rightarrow> ('f, 'k) database \<Rightarrow> table \<Rightarrow> bytes \<Rightarrow> bytes option" where
  "db_tables CF CK db t key = fmlookup (db_table CF CK db t) key"

text \<open>The markers of a commit are outside the tables of the application store.\<close>

lemma stands_for_markers:
  assumes "changed_to c (with_markers i changes) c'"
  shows "stands_for (\<lambda>t key. fmlookup (c' t) key) A \<longleftrightarrow>
    stands_for (\<lambda>t key. case fmlookup changes (t, key) of Some v \<Rightarrow> v | None \<Rightarrow> fmlookup (c t) key) A"
proof -
  have "fmlookup (c' t) key = (case fmlookup changes (t, key) of Some v \<Rightarrow> v | None \<Rightarrow> fmlookup (c t) key)" if "t \<noteq> Metadata" for t key
    using assms that unfolding changed_to_def with_markers_lookup by (simp split: option.split)
  then show ?thesis by (simp add: stands_for_def)
qed

text \<open>What a write may answer when the specification says \<open>s\<close>: the specified answer, or a storage error with nothing changed; and only
  when the outcome of the commit is unknown, with the owner poisoned, it is open whether the write took place.\<close>

definition answered :: "app_spec \<Rightarrow> app_error + (head \<times> app_spec) \<Rightarrow> app_error + head \<Rightarrow> (table \<Rightarrow> bytes \<Rightarrow> bytes option) \<Rightarrow> storage_error option \<Rightarrow> bool" where
  "answered A s out T' failure \<longleftrightarrow>
     (case s of
        Inl e \<Rightarrow> (out = Inl e \<or> (\<exists>e. out = Inl (from_storage e))) \<and> stands_for T' A \<and> failure = None
      | Inr (h, A') \<Rightarrow>
          out = Inr h \<and> stands_for T' A' \<and> spec_ok A' \<and> failure = None \<or>
          (\<exists>e. out = Inl (from_storage e)) \<and> stands_for T' A \<and> failure = None \<or>
          (\<exists>m. out = Inl (AppCommitUnknown m)) \<and> failure \<noteq> None \<and> (stands_for T' A \<or> stands_for T' A' \<and> spec_ok A'))"

lemma apply_checked_ok:
  assumes laws: "engine_laws F CF R CK V" and db: "database_ok db" "db_failure db = None"
    and A: "spec_ok A" "stands_for (db_tables CF CK db) A" and w: "validate_write w = Inr ()"
    and tr: "implements CF CK (\<lambda>_. True) transition tr" "keeps_chains tr"
  shows "\<exists>db' out. apply_checked X F R db w allow transition = Some (db', out) \<and> database_ok db' \<and>
    answered A (spec_apply w allow tr A) out (db_tables CF CK db') (db_failure db')"
proof -
  let ?tx = "tx_new (db_engine db)" and ?body = "apply_body F R w allow transition" and ?s = "spec_apply w allow tr A"
  have tx: "tx_good ?tx" using db(1) by (simp add: tx_good_def database_ok_def changes_named_def)
  have view: "tx_view CF CK ?tx = db_tables CF CK db" by (simp add: fun_eq_iff tx_view_def db_tables_def db_table_def)
  obtain tx' r where b: "?body ?tx = Some (tx', r)" "tx_good tx'" "tx_engine tx' = db_engine db"
      "(\<exists>e. r = Inl (from_storage e)) \<or> (case ?s of Inl e \<Rightarrow> r = Inl e | Inr (a, A') \<Rightarrow> r = Inr a \<and> stands_for (tx_view CF CK tx') A' \<and> spec_ok A')"
    using implements_body [OF laws tr, of w allow, unfolded implements_def, rule_format, OF tx A(1) TrueI] A(2) view by auto
  have named: "changes_named (tx_changes tx')" using b(2) by (simp add: tx_good_def)
  obtain db' out where d: "db_transaction X F R from_storage db ?body = Some (db', out)" "database_ok db'"
      "transacted (db_table CF CK db) from_storage (tx_changes tx') r out (db_table CF CK db') (db_failure db')"
    using db_transaction_ok [where execute = ?body and from_err = from_storage and X = X, OF laws db b(1) named] by blast
  have same: "stands_for (db_tables CF CK db') A" if "db_table CF CK db' = db_table CF CK db" using A(2) that by (simp add: db_tables_def [abs_def])
  have changed: "stands_for (db_tables CF CK db') A'" if "stands_for (tx_view CF CK tx') A'" "changed_to (db_table CF CK db) (with_markers i (tx_changes tx')) (db_table CF CK db')" for A' i
  proof -
    have "tx_view CF CK tx' = (\<lambda>t key. case fmlookup (tx_changes tx') (t, key) of Some v \<Rightarrow> v | None \<Rightarrow> fmlookup (db_table CF CK db t) key)"
      by (simp add: fun_eq_iff tx_view_def b(3) db_table_def split: option.split)
    then show ?thesis using stands_for_markers [OF that(2), of A'] that(1) unfolding db_tables_def [abs_def] by simp
  qed
  have empty: "tx_view CF CK tx' = db_tables CF CK db" if "tx_changes tx' = fmempty" using that by (simp add: fun_eq_iff tx_view_def db_tables_def db_table_def b(3))
  have "answered A ?s (commit_value out) (db_tables CF CK db') (db_failure db')"
  proof (cases r)
    case (Inl e)
    then show ?thesis using d(3) b(4) same by (cases ?s) (auto simp: transacted_def answered_def commit_value_def)
  next
    case (Inr h)
    then obtain A' where s: "?s = Inr (h, A')" "stands_for (tx_view CF CK tx') A'" "spec_ok A'" using b(4) by (cases ?s) auto
    have "stands_for (db_tables CF CK db') A'" if "tx_changes tx' = fmempty" "db_table CF CK db' = db_table CF CK db"
      using s(2) empty [OF that(1)] that(2) by (simp add: db_tables_def [abs_def])
    then show ?thesis using d(3) s same changed
      by (auto simp: Inr transacted_def answered_def commit_value_def from_storage.simps(1) split: if_splits)
  qed
  moreover have "apply_checked X F R db w allow transition = Some (db', commit_value out)" using d(1) w by (simp add: apply_checked_def)
  ultimately show ?thesis using d(2) by blast
qed

section \<open>Runs\<close>

text \<open>What has been accepted stays: a specification state extends another.\<close>

definition extends :: "app_spec \<Rightarrow> app_spec \<Rightarrow> bool" where
  "extends A A' \<longleftrightarrow> (\<forall>ns. \<exists>cs. ap_chain A' ns = ap_chain A ns @ cs) \<and> (\<forall>q v. ap_requests A q = Some v \<longrightarrow> ap_requests A' q = Some v) \<and>
     (\<forall>c v. ap_content A c = Some v \<longrightarrow> ap_content A' c = Some v) \<and> (\<forall>c v. ap_claims A c = Some v \<longrightarrow> ap_claims A' c = Some v) \<and>
     (\<forall>ns v. ap_migration A (fence_key ns) = Some v \<longrightarrow> ap_migration A' (fence_key ns) = Some v)"

lemma extends_refl [simp]: "extends A A"
  by (simp add: extends_def)

lemma extends_trans:
  assumes "extends A B" "extends B C"
  shows "extends A C"
proof -
  have "\<exists>cs. ap_chain C ns = ap_chain A ns @ cs" for ns using assms unfolding extends_def by (metis append_assoc)
  then show ?thesis using assms unfolding extends_def by blast
qed

lemma put_all_extends: "put_all m rows = Some m' \<Longrightarrow> m k = Some v \<Longrightarrow> m' k = Some v"
proof (induction rows arbitrary: m)
  case (Cons row rows)
  obtain k' v' where row: "row = (k', v')" by (cases row)
  show ?case
  proof (cases "m k'")
    case None
    then have "put_all (m(k' \<mapsto> v')) rows = Some m'" "(m(k' \<mapsto> v')) k = Some v" using Cons.prems by (auto simp: row)
    then show ?thesis by (rule Cons.IH)
  next
    case (Some w)
    then show ?thesis using Cons by (simp add: row split: if_splits)
  qed
qed simp

lemma spec_apply_extends:
  assumes "keeps_chains tr" and "spec_apply w allow tr A = Inr (h, A')"
  shows "extends A A'"
proof (cases "ap_requests A (wr_namespace w, wr_request w)")
  case (Some receipt)
  then show ?thesis using assms(2) by (auto simp: spec_apply_def split: if_splits prod.splits)
next
  case None
  then have "spec_new w tr A = Inr (h, A')" using assms(2) by (simp add: spec_apply_def)
  then obtain A1 A2 A3 where 1: "spec_claims (wr_claims w) A = Inr ((), A1)" and 2: "spec_content (wr_content w) A1 = Inr ((), A2)" and 3: "tr A2 = Inr ((), A3)"
      and 4: "spec_publish w A3 = Inr (h, A')"
    by (auto simp: spec_new_def spec_rows_def result_simps split: if_splits)
  have "extends A A1" using 1 put_all_extends by (auto simp: spec_claims_def extends_def split: option.splits)
  moreover have "extends A1 A2" using 2 put_all_extends by (auto simp: spec_content_def extends_def split: option.splits)
  moreover have "extends A2 A3" using 3 assms(1) unfolding keeps_chains_def by (fastforce simp: extends_def)
  moreover have r: "ap_requests A3 (wr_namespace w, wr_request w) = None"
    using None 3 assms(1) spec_rowsD(1) [OF 1] spec_rowsD(2) [OF 2] unfolding keeps_chains_def by fastforce
  then have "extends A3 A'" using 4 by (auto simp: spec_publish_def extends_def)
  ultimately show ?thesis using extends_trans by blast
qed

text \<open>The answer to a write is a position of the chain that holds its receipt.\<close>

definition recorded :: "app_spec \<Rightarrow> write_request \<Rightarrow> head \<Rightarrow> bool" where
  "recorded A w h \<longleftrightarrow> ap_requests A (wr_namespace w, wr_request w) = Some (wr_fingerprint w, unat (hd_index h)) \<and>
     unat (hd_index h) < length (ap_chain A (wr_namespace w)) \<and> ap_chain A (wr_namespace w) ! unat (hd_index h) = hd_commit h"

lemma recorded_extends:
  assumes A: "recorded A w h" and A': "extends A A'"
  shows "recorded A' w h"
proof -
  obtain cs where "ap_chain A' (wr_namespace w) = ap_chain A (wr_namespace w) @ cs" using A' unfolding extends_def by blast
  moreover have "ap_requests A' (wr_namespace w, wr_request w) = Some (wr_fingerprint w, unat (hd_index h))" using A A' unfolding recorded_def extends_def by blast
  ultimately show ?thesis using A by (simp add: recorded_def nth_append)
qed

lemma spec_apply_recorded:
  assumes tr: "keeps_chains tr" and A: "spec_ok A" and s: "spec_apply w allow tr A = Inr (h, A')"
  shows "recorded A' w h"
proof (cases "ap_requests A (wr_namespace w, wr_request w)")
  case (Some receipt)
  obtain fp i where r: "receipt = (fp, i)" by (cases receipt)
  then have i: "fp = wr_fingerprint w" "h = spec_at A (wr_namespace w) i" "A' = A"
    using s Some by (auto simp: spec_apply_def split: if_splits)
  have "i < length (ap_chain A (wr_namespace w))" "length (ap_chain A (wr_namespace w)) \<le> 2 ^ 64"
    using spec_okD [OF A] Some r by simp_all
  then have "unat (of_nat i :: u64) = i" by (simp add: unat_of_nat)
  then show ?thesis using i r Some \<open>i < _\<close> by (simp add: recorded_def spec_at_def)
next
  case None
  then have n: "spec_new w tr A = Inr (h, A')" using s by (simp add: spec_apply_def)
  then obtain A1 A2 A3 where 1: "spec_claims (wr_claims w) A = Inr ((), A1)" and 2: "spec_content (wr_content w) A1 = Inr ((), A2)" and 3: "tr A2 = Inr ((), A3)"
      and 4: "spec_publish w A3 = Inr (h, A')" and index: "unat (hd_index (wr_head w)) = length (ap_chain A (wr_namespace w))"
    by (auto simp: spec_new_def spec_rows_def result_simps split: if_splits)
  have "ap_chain A3 = ap_chain A" using 3 tr spec_rowsD(1) [OF 1] spec_rowsD(2) [OF 2] unfolding keeps_chains_def by fastforce
  then show ?thesis using 4 index by (auto simp: spec_publish_def recorded_def)
qed

text \<open>A fenced namespace gets no new request.\<close>

definition retired :: "app_spec \<Rightarrow> particle \<Rightarrow> bool" where
  "retired A ns \<longleftrightarrow> ap_migration A (fence_key ns) \<noteq> None"

definition retires :: "app_spec \<Rightarrow> app_spec \<Rightarrow> bool" where
  "retires A A' \<longleftrightarrow> (\<forall>ns. retired A ns \<longrightarrow> retired A' ns \<and> (\<forall>r. ap_requests A' (ns, r) = ap_requests A (ns, r)))"

lemma retires_refl [simp]: "retires A A"
  by (simp add: retires_def)

lemma retires_trans: "retires A B \<Longrightarrow> retires B C \<Longrightarrow> retires A C"
  by (simp add: retires_def)

lemma spec_apply_retires:
  assumes tr: "keeps_chains tr" and s: "spec_apply w allow tr A = Inr (h, A')"
  shows "retires A A' \<and> (retired A (wr_namespace w) \<longrightarrow> ap_requests A (wr_namespace w, wr_request w) \<noteq> None)"
proof (cases "ap_requests A (wr_namespace w, wr_request w)")
  case (Some receipt)
  then show ?thesis using s by (auto simp: spec_apply_def split: if_splits prod.splits)
next
  case None
  then have new: "spec_new w tr A = Inr (h, A')" using s by (simp add: spec_apply_def)
  then have other: "\<not> retired A (wr_namespace w)" by (auto simp: spec_new_def spec_fenced_def retired_def split: if_splits)
  obtain A1 A2 A3 where 1: "spec_claims (wr_claims w) A = Inr ((), A1)" and 2: "spec_content (wr_content w) A1 = Inr ((), A2)" and 3: "tr A2 = Inr ((), A3)"
      and 4: "spec_publish w A3 = Inr (h, A')"
    using new by (auto simp: spec_new_def spec_rows_def result_simps split: if_splits)
  have "ap_requests A3 = ap_requests A" using 3 tr spec_rowsD(1) [OF 1] spec_rowsD(2) [OF 2] unfolding keeps_chains_def by fastforce
  then have "ap_requests A' (ns, r) = ap_requests A (ns, r)" if "ns \<noteq> wr_namespace w" for ns r using 4 that by (auto simp: spec_publish_def)
  moreover have "retired A' ns" if "retired A ns" for ns
    using that spec_apply_extends [OF tr s] unfolding retired_def extends_def by fastforce
  ultimately show ?thesis using other unfolding retires_def by metis
qed

text \<open>A run of writes. Reopening the store after a failure makes a new owner over the same engine.\<close>

datatype app_op = App_apply write_request | App_once write_request | App_migrate write_request namespace_migration | App_reopen

fun app_step :: "ext \<Rightarrow> 'f fjall \<Rightarrow> ('k, 't) redb \<Rightarrow> ('f, 'k) database \<Rightarrow> app_op \<Rightarrow> (('f, 'k) database \<times> (app_error + head) option) option" where
  "app_step X F R db (App_apply w) = map_option (apsnd Some) (app_apply X F R db w)"
| "app_step X F R db (App_once w) = map_option (apsnd Some) (app_apply_once X F R db w)"
| "app_step X F R db (App_migrate w m) = map_option (apsnd Some) (app_apply_migration X F R db w m)"
| "app_step X F R db App_reopen = Some (db_from_engine (db_engine db), None)"

fun app_run :: "ext \<Rightarrow> 'f fjall \<Rightarrow> ('k, 't) redb \<Rightarrow> ('f, 'k) database \<Rightarrow> app_op list \<Rightarrow> (('f, 'k) database \<times> (app_error + head) option list) option" where
  "app_run X F R db [] = Some (db, [])"
| "app_run X F R db (op # ops) = do {
     (db, r) \<leftarrow> app_step X F R db op;
     (db, rs) \<leftarrow> app_run X F R db ops;
     Some (db, r # rs) }"

fun op_write :: "app_op \<Rightarrow> write_request option" where
  "op_write (App_apply w) = Some w" | "op_write (App_once w) = Some w" | "op_write (App_migrate w m) = Some w" | "op_write App_reopen = None"

fun op_spec :: "app_op \<Rightarrow> head spec_tx" where
  "op_spec (App_apply w) = spec_apply w True (\<lambda>A. Inr ((), A))"
| "op_spec (App_once w) = spec_apply w False (\<lambda>A. Inr ((), A))"
| "op_spec (App_migrate w m) = spec_apply w True (spec_migrate (wr_namespace w) m)"
| "op_spec App_reopen = (\<lambda>_. Inl AppLimit)"

definition op_guard :: "app_op \<Rightarrow> bool" where
  "op_guard op \<longleftrightarrow> (\<forall>w. op_write op = Some w \<longrightarrow> validate_write w = Inr ()) \<and> (\<forall>w m. op = App_migrate w m \<longrightarrow> valid_sources (wr_namespace w) (nm_sources m))"

lemma op_spec_apply: "op_write op = Some w \<Longrightarrow> \<exists>allow tr. op_spec op = spec_apply w allow tr \<and> keeps_chains tr"
  by (cases op) (auto intro: keeps_chains_none keeps_chains_migrate)

text \<open>A write whose guards fail is refused with the limit error and changes nothing; any other write on a working owner answers what the specification says.\<close>

lemma app_step_write:
  assumes laws: "engine_laws F CF R CK V" and db: "database_ok db" "db_failure db = None"
    and A: "spec_ok A" "stands_for (db_tables CF CK db) A" and op: "op_write op = Some w"
  shows "\<exists>db' out. app_step X F R db op = Some (db', Some out) \<and> database_ok db' \<and>
    (if op_guard op then answered A (op_spec op A) out (db_tables CF CK db') (db_failure db') else db' = db \<and> out = Inl AppLimit)"
proof -
  have none: "implements CF CK (\<lambda>_. True) (tx_result (Inr ())) (\<lambda>A. Inr ((), A))" by (rule implements_result) simp
  note defs = app_apply_def app_apply_once_def app_apply_migration_def app_apply_with_def op_guard_def
  have limit: "validate_write w = Inl AppLimit" if "validate_write w \<noteq> Inr ()" using that by (auto simp: validate_write_def split: if_splits option.splits)
  show ?thesis
  proof (cases "op_guard op")
    case True
    then have w: "validate_write w = Inr ()" using op by (simp add: op_guard_def)
    note run = apply_checked_ok [where X = X, OF laws db A w]
    show ?thesis
    proof (cases op)
      case (App_apply v)
      then show ?thesis using run [OF none keeps_chains_none, of True] True op by (auto simp: defs)
    next
      case (App_once v)
      then show ?thesis using run [OF none keeps_chains_none, of False] True op by (auto simp: defs)
    next
      case (App_migrate v m)
      then show ?thesis using run [OF implements_migrate [OF laws] keeps_chains_migrate, of True "wr_namespace w" m] True op by (auto simp: defs)
    qed (use op in simp)
  next
    case False
    then show ?thesis using db limit op by (cases op) (auto simp: defs apply_checked_def)
  qed
qed

lemma app_step_poisoned:
  assumes "db_failure db = Some e" and "op_write op = Some w"
  shows "\<exists>err. app_step X F R db op = Some (db, Some (Inl err))"
  using assms by (cases op) (auto simp: app_apply_def app_apply_once_def app_apply_migration_def app_apply_with_def apply_checked_def db_transaction_def commit_value_def split: sum.split)

lemma app_step_ok:
  assumes laws: "engine_laws F CF R CK V" and db: "database_ok db" and A: "spec_ok A" "stands_for (db_tables CF CK db) A"
  shows "\<exists>db' r A'. app_step X F R db op = Some (db', r) \<and> database_ok db' \<and> spec_ok A' \<and> stands_for (db_tables CF CK db') A' \<and> extends A A' \<and> retires A A' \<and>
    (\<forall>w h. op_write op = Some w \<longrightarrow> r = Some (Inr h) \<longrightarrow> recorded A' w h \<and> (retired A (wr_namespace w) \<longrightarrow> ap_requests A (wr_namespace w, wr_request w) \<noteq> None))"
proof (cases "op_write op")
  case None
  then have op: "op = App_reopen" by (cases op) simp_all
  have "db_tables CF CK (db_from_engine (db_engine db)) = db_tables CF CK db" by (simp add: fun_eq_iff db_tables_def db_table_def db_from_engine_def)
  moreover have "database_ok (db_from_engine (db_engine db))" using db by (simp add: database_ok_def db_from_engine_def)
  ultimately show ?thesis using A by (auto simp: op intro!: exI [of _ A])
next
  case (Some w)
  show ?thesis
  proof (cases "db_failure db")
    case (Some e)
    then show ?thesis using app_step_poisoned [OF Some \<open>op_write op = Some w\<close>, of X F R] db A by (auto intro!: exI [of _ A])
  next
    case none: None
    obtain db' out where step: "app_step X F R db op = Some (db', Some out)" "database_ok db'"
        "if op_guard op then answered A (op_spec op A) out (db_tables CF CK db') (db_failure db') else db' = db \<and> out = Inl AppLimit"
      using app_step_write [where X = X, OF laws db none A Some] by blast
    obtain allow tr where spec: "op_spec op = spec_apply w allow tr" "keeps_chains tr" using op_spec_apply [OF Some] by blast
    have kept: ?thesis if "stands_for (db_tables CF CK db') A" "\<forall>h. out \<noteq> Inr h" using that step A by (auto intro!: exI [of _ A])
    show ?thesis
    proof (cases "\<not> op_guard op \<or> (\<exists>e. op_spec op A = Inl e)")
      case True
      then have "stands_for (db_tables CF CK db') A" "\<forall>h. out \<noteq> Inr h" using step(3) A(2) by (auto simp: answered_def split: if_splits)
      then show ?thesis by (rule kept)
    next
      case False
      then obtain h A' where s: "spec_apply w allow tr A = Inr (h, A')" "op_guard op" using spec(1) by (cases "op_spec op A") auto
      note after = spec_apply_extends [OF spec(2) s(1)] spec_apply_recorded [OF spec(2) A(1) s(1)] spec_apply_retires [OF spec(2) s(1)]
      have taken: ?thesis if "stands_for (db_tables CF CK db') A'" "spec_ok A'" "\<forall>g. out = Inr g \<longrightarrow> g = h"
        using that step(1,2) after Some by (auto intro!: exI [of _ A'])
      show ?thesis using step(3) s kept taken unfolding spec(1) by (auto simp: answered_def)
    qed
  qed
qed

lemma app_run_ok:
  assumes laws: "engine_laws F CF R CK V" and "database_ok db" and "spec_ok A" "stands_for (db_tables CF CK db) A"
  shows "\<exists>db' rs A'. app_run X F R db ops = Some (db', rs) \<and> length rs = length ops \<and> database_ok db' \<and> spec_ok A' \<and> stands_for (db_tables CF CK db') A' \<and>
    extends A A' \<and> retires A A' \<and> (\<forall>i w h. i < length ops \<longrightarrow> op_write (ops ! i) = Some w \<longrightarrow> rs ! i = Some (Inr h) \<longrightarrow>
      recorded A' w h \<and> (retired A (wr_namespace w) \<longrightarrow> ap_requests A (wr_namespace w, wr_request w) \<noteq> None))"
  using assms(2-)
proof (induction ops arbitrary: db A)
  case Nil
  then show ?case by (auto intro!: exI [of _ A])
next
  case (Cons op ops)
  obtain db1 r A1 where 1: "app_step X F R db op = Some (db1, r)" "database_ok db1" "spec_ok A1" "stands_for (db_tables CF CK db1) A1" "extends A A1" "retires A A1"
      "\<forall>w h. op_write op = Some w \<longrightarrow> r = Some (Inr h) \<longrightarrow> recorded A1 w h \<and> (retired A (wr_namespace w) \<longrightarrow> ap_requests A (wr_namespace w, wr_request w) \<noteq> None)"
    using app_step_ok [OF laws Cons.prems, of X op] by blast
  obtain db2 rs A2 where 2: "app_run X F R db1 ops = Some (db2, rs)" "length rs = length ops" "database_ok db2" "spec_ok A2" "stands_for (db_tables CF CK db2) A2"
      "extends A1 A2" "retires A1 A2" "\<forall>i w h. i < length ops \<longrightarrow> op_write (ops ! i) = Some w \<longrightarrow> rs ! i = Some (Inr h) \<longrightarrow>
        recorded A2 w h \<and> (retired A1 (wr_namespace w) \<longrightarrow> ap_requests A1 (wr_namespace w, wr_request w) \<noteq> None)"
    using Cons.IH [OF 1(2-4)] by blast
  have "recorded A2 w h \<and> (retired A (wr_namespace w) \<longrightarrow> ap_requests A (wr_namespace w, wr_request w) \<noteq> None)"
    if "i < length (op # ops)" "op_write ((op # ops) ! i) = Some w" "(r # rs) ! i = Some (Inr h)" for i w h
    using that 1(6,7) 2(6,8) recorded_extends unfolding retires_def by (cases i) auto
  then show ?case using 1 2 extends_trans [OF 1(5) 2(6)] retires_trans [OF 1(6) 2(7)] by (intro exI [of _ db2] exI [of _ "r # rs"] exI [of _ A2]) simp
qed

section \<open>Properties\<close>

definition empty_spec :: app_spec where
  "empty_spec = \<lparr>ap_chain = (\<lambda>_. []), ap_requests = (\<lambda>_. None), ap_content = (\<lambda>_. None), ap_claims = (\<lambda>_. None), ap_migration = (\<lambda>_. None)\<rparr>"

lemma empty_spec_ok: "spec_ok (empty_spec\<lparr>ap_migration := m\<rparr>)"
  by (simp add: spec_ok_def empty_spec_def)

lemma empty_stands_for:
  assumes "\<forall>t \<in> {Content, Claims, Requests, History, Heads}. c t = fmempty"
  shows "stands_for (\<lambda>t key. fmlookup (c t) key) (empty_spec\<lparr>ap_migration := fmlookup (c Migration)\<rparr>)"
  using assms by (simp add: stands_for_def empty_spec_def spec_head_def)

text \<open>C33: Every write answers what the specification of the chains says, given what the database crates document. A write whose sizes or sources are out of
  bounds is refused with the limit error and nothing changes. Otherwise the transaction returns, and it either gives the specified answer, with the tables
  standing for the specified chains, receipts, contents, claims and migration rows (for a repeated request: the original head, nothing changed; for a failing
  check: that very error, nothing changed), or it reports a storage error and nothing has changed, or the outcome of the commit is unknown, the owner
  is poisoned, and the tables stand for the state before the write or for the one after it.\<close>

theorem application_write_refines:
  assumes "engine_laws F CF R CK V" and "database_ok db" and "db_failure db = None"
    and "spec_ok A" and "stands_for (db_tables CF CK db) A" and "op_write op = Some w"
  shows "\<exists>db' out. app_step X F R db op = Some (db', Some out) \<and>
    (if op_guard op then answered A (op_spec op A) out (db_tables CF CK db') (db_failure db') else db' = db \<and> out = Inl AppLimit)"
  using app_step_write [where X = X, OF assms] by blast

text \<open>C32: Accepted writes are applied exactly once, across retries, unknown commit outcomes and reopenings. Start from an engine whose application tables are empty
  and run any sequence of writes, one-time writes, migrations and reopenings: no step panics, and afterwards the tables stand for chains in which every
  position belongs to exactly one request and every commit has its content, and every write that was ever answered with a head
  is in the chain of its namespace at exactly that position, under its own fingerprint.\<close>

theorem application_exactly_once:
  assumes laws: "engine_laws F CF R CK V" and e: "engine_ok e" and empty: "\<forall>t \<in> {Content, Claims, Requests, History, Heads}. engine_table CF CK e t = fmempty"
  shows "\<exists>db rs A. app_run X F R (db_from_engine e) ops = Some (db, rs) \<and> length rs = length ops \<and> spec_ok A \<and> stands_for (db_tables CF CK db) A \<and>
    (\<forall>i w h. i < length ops \<longrightarrow> op_write (ops ! i) = Some w \<longrightarrow> rs ! i = Some (Inr h) \<longrightarrow> recorded A w h)"
proof -
  let ?db = "db_from_engine e" and ?A = "empty_spec\<lparr>ap_migration := fmlookup (engine_table CF CK e Migration)\<rparr>"
  have "database_ok ?db" using e by (simp add: database_ok_def db_from_engine_def)
  moreover have "db_tables CF CK ?db = (\<lambda>t key. fmlookup (engine_table CF CK e t) key)" by (simp add: fun_eq_iff db_tables_def db_table_def db_from_engine_def)
  then have "stands_for (db_tables CF CK ?db) ?A" using empty_stands_for [OF empty] by simp
  ultimately show ?thesis using app_run_ok [where X = X and ops = ops, OF laws _ empty_spec_ok] by blast
qed

text \<open>A write under a new request to a retired namespace is answered with an error, whenever it comes.\<close>

lemma retired_refuses:
  assumes laws: "engine_laws F CF R CK V" and db: "database_ok db" and A: "spec_ok A" "stands_for (db_tables CF CK db) A" and ns: "retired A ns"
  shows "\<exists>db' rs. app_run X F R db ops = Some (db', rs) \<and> length rs = length ops \<and>
    (\<forall>i v. i < length ops \<longrightarrow> op_write (ops ! i) = Some v \<longrightarrow> wr_namespace v = ns \<longrightarrow> ap_requests A (ns, wr_request v) = None \<longrightarrow> (\<exists>err. rs ! i = Some (Inl err)))"
proof -
  obtain db' rs where run: "app_run X F R db ops = Some (db', rs)" "length rs = length ops"
      "\<And>i w h. i < length ops \<Longrightarrow> op_write (ops ! i) = Some w \<Longrightarrow> rs ! i = Some (Inr h) \<Longrightarrow> retired A (wr_namespace w) \<Longrightarrow> ap_requests A (wr_namespace w, wr_request w) \<noteq> None"
    using app_run_ok [where X = X and ops = ops, OF laws db A] by blast
  have some: "rs ! i \<noteq> None" if "i < length ops" "op_write (ops ! i) = Some v" for i v
    using run(1) that
  proof (induction ops arbitrary: db rs i)
    case (Cons op ops)
    obtain db1 r rs1 where "app_step X F R db op = Some (db1, r)" "app_run X F R db1 ops = Some (db', rs1)" "rs = r # rs1"
      using Cons.prems(1) by (auto split: bind_splits)
    then show ?case using Cons.IH Cons.prems(2,3) by (cases i; cases op) auto
  qed simp
  have "\<exists>err. rs ! i = Some (Inl err)" if v: "i < length ops" "op_write (ops ! i) = Some v" "wr_namespace v = ns" "ap_requests A (ns, wr_request v) = None" for i v
  proof -
    obtain x where x: "rs ! i = Some x" using some [OF v(1,2)] by blast
    show ?thesis
    proof (cases x)
      case (Inr h)
      then have "ap_requests A (ns, wr_request v) \<noteq> None" using run(3) [OF v(1,2), of h] x ns v(3) by simp
      then show ?thesis using v(4) by simp
    qed (use x in simp)
  qed
  then show ?thesis using run(1,2) by blast
qed

text \<open>C34: A migration retires its sources atomically and for good. A migration under a new request returns; if it is answered with a head, every source had exactly the expected
  head, and in whatever is run on the store from then on, writes, one-time writes, further migrations and reopenings in any order, no write to a source
  namespace is accepted, unless it repeats a request that had already been accepted there.\<close>

theorem migration_retires_sources:
  assumes laws: "engine_laws F CF R CK V" and db: "database_ok db" "db_failure db = None"
    and A: "spec_ok A" "stands_for (db_tables CF CK db) A" and new: "ap_requests A (wr_namespace w, wr_request w) = None"
  shows "\<exists>db' out. app_apply_migration X F R db w m = Some (db', out) \<and>
    (\<forall>h. out = Inr h \<longrightarrow> (\<forall>origin expected. (origin, expected) \<in> set (nm_sources m) \<longrightarrow> spec_head A origin = Some expected \<and>
      (\<forall>ops. \<exists>db2 rs. app_run X F R db' ops = Some (db2, rs) \<and> length rs = length ops \<and>
        (\<forall>i v. i < length ops \<longrightarrow> op_write (ops ! i) = Some v \<longrightarrow> wr_namespace v = origin \<longrightarrow> ap_requests A (origin, wr_request v) = None \<longrightarrow>
          (\<exists>err. rs ! i = Some (Inl err))))))"
proof -
  let ?op = "App_migrate w m"
  obtain db' out where step: "app_step X F R db ?op = Some (db', Some out)" "database_ok db'"
      "if op_guard ?op then answered A (op_spec ?op A) out (db_tables CF CK db') (db_failure db') else db' = db \<and> out = Inl AppLimit"
    using app_step_write [where X = X and op = ?op, OF laws db A] by auto
  have run: "app_apply_migration X F R db w m = Some (db', out)" using step(1) by auto
  have "spec_head A origin = Some expected \<and> (\<exists>A'. spec_ok A' \<and> stands_for (db_tables CF CK db') A' \<and> retired A' origin \<and>
      (\<forall>r. ap_requests A' (origin, r) = ap_requests A (origin, r)))"
    if out: "out = Inr h" and o: "(origin, expected) \<in> set (nm_sources m)" for h origin expected
  proof -
    have guard: "op_guard ?op" using step(3) out by (auto split: if_splits)
    then obtain A' where A': "spec_apply w True (spec_migrate (wr_namespace w) m) A = Inr (h, A')" "stands_for (db_tables CF CK db') A'" "spec_ok A'"
      using step(3) out by (auto simp: answered_def split: sum.splits)
    have other: "origin \<noteq> wr_namespace w" using guard o by (auto simp: op_guard_def valid_sources_def image_iff)
    obtain A1 A2 A3 where 1: "spec_claims (wr_claims w) A = Inr ((), A1)" and 2: "spec_content (wr_content w) A1 = Inr ((), A2)"
        and 3: "spec_migrate (wr_namespace w) m A2 = Inr ((), A3)" and 4: "spec_publish w A3 = Inr (h, A')"
      using A'(1) new by (auto simp: spec_apply_def spec_new_def spec_rows_def result_simps split: if_splits)
    obtain c d where A2: "A2 = A\<lparr>ap_claims := c, ap_content := d\<rparr>" using spec_rowsD(1) [OF 1] spec_rowsD(2) [OF 2] by blast
    obtain g where g: "A3 = A2\<lparr>ap_migration := g\<rparr>" "spec_head A2 origin = Some expected" "g (fence_key origin) \<noteq> None"
      using spec_migrate_fenced [OF 3] o by auto
    have "retired A' origin" "ap_requests A' (origin, r) = ap_requests A (origin, r)" for r
      using 4 g(1,3) other by (auto simp: A2 spec_publish_def retired_def)
    then show ?thesis using g(2) A'(2,3) by (auto simp: A2)
  qed
  moreover have "\<exists>db2 rs. app_run X F R db' ops = Some (db2, rs) \<and> length rs = length ops \<and>
      (\<forall>i v. i < length ops \<longrightarrow> op_write (ops ! i) = Some v \<longrightarrow> wr_namespace v = origin \<longrightarrow> ap_requests A (origin, wr_request v) = None \<longrightarrow> (\<exists>err. rs ! i = Some (Inl err)))"
    if "spec_ok A'" "stands_for (db_tables CF CK db') A'" "retired A' origin" "\<forall>r. ap_requests A' (origin, r) = ap_requests A (origin, r)" for A' ops origin
    using retired_refuses [where X = X and ops = ops, OF laws step(2) that(1-3)] that(4) by simp
  ultimately show ?thesis using run by blast
qed

section \<open>Witnesses\<close>

definition sample_write :: write_request where
  "sample_write = \<lparr>wr_namespace = 1, wr_request = 2, wr_fingerprint = 3, wr_expected = None, wr_head = \<lparr>hd_index = 0, hd_commit = 4\<rparr>,
     wr_content = [(4, [9])], wr_claims = [(5, 6)]\<rparr>"

definition sample_migration :: namespace_migration where
  "sample_migration = \<lparr>nm_manifest = 7, nm_sources = [(8, \<lparr>hd_index = 0, hd_commit = 4\<rparr>)]\<rparr>"

definition sample_database :: "(contents, contents) database" where
  "sample_database = db_from_engine (Redb (\<lambda>_. fmempty))"

lemma sample_database_ok:
  "database_ok sample_database" "db_failure sample_database = None" "stands_for (db_tables id id sample_database) empty_spec" "spec_ok empty_spec"
proof -
  have "db_tables id id sample_database = (\<lambda>_ _. None)"
    by (simp add: fun_eq_iff db_tables_def db_table_def sample_database_def db_from_engine_def engine_table_def engine_names_def split: option.split)
  then show "stands_for (db_tables id id sample_database) empty_spec" by (simp add: stands_for_def empty_spec_def spec_head_def)
  show "database_ok sample_database" "db_failure sample_database = None" by (simp_all add: sample_database_def database_ok_def db_from_engine_def engine_ok_def)
  show "spec_ok empty_spec" by (simp add: spec_ok_def empty_spec_def)
qed

theorem application_write_refines_witness:
  "\<exists>db' out. app_step sample_ext sample_fjall sample_redb sample_database (App_apply sample_write) = Some (db', Some out) \<and>
     answered empty_spec (op_spec (App_apply sample_write) empty_spec) out (db_tables id id db') (db_failure db')"
proof -
  have "op_guard (App_apply sample_write)" by (simp add: op_guard_def sample_write_def validate_write_def)
  then show ?thesis
    using application_write_refines [OF engine_laws_sample sample_database_ok(1,2,4,3), of "App_apply sample_write" sample_write sample_ext] by simp
qed

theorem application_exactly_once_witness:
  "\<exists>db rs A. app_run sample_ext sample_fjall sample_redb sample_database [App_apply sample_write, App_reopen, App_apply sample_write] = Some (db, rs) \<and>
     length rs = 3 \<and> spec_ok A \<and> stands_for (db_tables id id db) A"
proof -
  let ?e = "Redb (\<lambda>_. fmempty) :: (contents, contents) engine"
  have "engine_ok ?e" "\<forall>t \<in> {Content, Claims, Requests, History, Heads}. engine_table id id ?e t = fmempty"
    by (auto simp: engine_ok_def engine_table_def engine_names_def split: option.split)
  from application_exactly_once [OF engine_laws_sample this, of sample_ext "[App_apply sample_write, App_reopen, App_apply sample_write]"]
  show ?thesis unfolding sample_database_def by auto
qed

text \<open>A store whose namespace 8 has one position, which a write to namespace 1 retires.\<close>

definition source_tables :: contents where
  "source_tables = (\<lambda>_. fmempty)(
     ''application_heads'' := fmupd (be_bytes 32 (8 :: particle)) (encode_head \<lparr>hd_index = 0, hd_commit = 4\<rparr>) fmempty,
     ''application_history'' := fmupd (history_key 8 0) (be_bytes 32 (4 :: particle)) fmempty,
     ''application_requests'' := fmupd (request_key 8 9) (be_bytes 32 (3 :: particle) @ encode_head \<lparr>hd_index = 0, hd_commit = 4\<rparr>) fmempty,
     ''application_content'' := fmupd (be_bytes 32 (4 :: particle)) [9] fmempty)"

definition source_spec :: app_spec where
  "source_spec = empty_spec\<lparr>ap_chain := (\<lambda>_. [])(8 := [4]), ap_requests := [(8, 9) \<mapsto> (3, 0)], ap_content := [4 \<mapsto> [9]]\<rparr>"

definition retiring_write :: write_request where
  "retiring_write = \<lparr>wr_namespace = 1, wr_request = 2, wr_fingerprint = 3, wr_expected = None, wr_head = \<lparr>hd_index = 0, hd_commit = 4\<rparr>,
     wr_content = [], wr_claims = []\<rparr>"

lemma source_ok:
  "database_ok (db_from_engine (Redb source_tables))" "db_failure (db_from_engine (Redb source_tables)) = None"
  "stands_for (db_tables id id (db_from_engine (Redb source_tables))) source_spec" "spec_ok source_spec"
proof -
  have u: "unat i = 0 \<longleftrightarrow> i = 0" for i :: u64 by (simp add: unat_eq_0)
  show "stands_for (db_tables id id (db_from_engine (Redb source_tables))) source_spec"
    by (auto simp: stands_for_def db_tables_def db_table_def db_from_engine_def engine_table_def engine_names_def source_tables_def source_spec_def empty_spec_def
      spec_head_def spec_at_def be_bytes_inj u)
  show "database_ok (db_from_engine (Redb source_tables))" "db_failure (db_from_engine (Redb source_tables)) = None"
    by (simp_all add: database_ok_def db_from_engine_def engine_ok_def)
  show "spec_ok source_spec" by (auto simp: spec_ok_def source_spec_def empty_spec_def)
qed

text \<open>The transaction of the sample engine, step by step.\<close>

definition at_source :: "changes \<Rightarrow> nat \<Rightarrow> (contents, contents) transaction" where
  "at_source c n = \<lparr>tx_engine = Redb source_tables, tx_changes = c, tx_bytes = n\<rparr>"

lemma at_source_ask:
  assumes "table_name t = Some name" and "length key \<le> 64" and "m \<le> MAX_BYTES_VALUE"
    and "v = (case fmlookup c (t, key) of Some v \<Rightarrow> v | None \<Rightarrow> fmlookup (source_tables name) key)" and "opt_len v \<le> m"
  shows "tx_ask sample_fjall sample_redb t key m (at_source c n) = Some (at_source c n, Inr v)"
  using assms
  by (auto simp: tx_ask_def tx_lift_def read_only_def tx_get_def at_source_def engine_get_def redb_get_def sample_redb_def io_result_def opt_len_def copy_bytes_def
    result_simps split: option.splits)

lemma at_source_store:
  assumes "length key \<le> 64" and "length bs \<le> 100" and "fmlookup c (t, key) = None" and "fcard (fmdom c) \<le> 10" and "n \<le> 1000"
  shows "tx_store t key bs (at_source c n) = Some (at_source (fmupd (t, key) (Some bs) c) (n + length key + length bs), Inr ())"
  using assms by (simp add: tx_store_def tx_lift_def tx_put_def tx_stage_def at_source_def opt_len_def MAX_BYTES_VALUE_def MAX_TRANSACTION_KEYS_def MAX_TRANSACTION_BYTES_def)

lemma at_source_read:
  assumes "table_name t \<noteq> None" and "length key \<le> 64" and "m \<le> MAX_BYTES_VALUE"
    and "opt_len (case fmlookup c (t, key) of Some v \<Rightarrow> v | None \<Rightarrow> fmlookup (source_tables (the (table_name t))) key) \<le> m"
  shows "tx_ask sample_fjall sample_redb t key m (at_source c n) =
    Some (at_source c n, Inr (case fmlookup c (t, key) of Some v \<Rightarrow> v | None \<Rightarrow> fmlookup (source_tables (the (table_name t))) key))"
  by (rule at_source_ask [where name = "the (table_name t)"]) (use assms in auto)

lemma key_length [simp]: "length (request_key ns r) = 64" "length (history_key ns i) = 40" "length (fence_key ns) = 45" "length (stage_key ns) = 33"
    "length status_key = 6"
  by (simp_all add: request_key_def history_key_def fence_key_def stage_key_def status_key_def)

lemma retiring_body:
  "\<exists>c n. apply_body sample_fjall sample_redb retiring_write True (migrate_transition sample_fjall sample_redb 1 sample_migration) (at_source fmempty 0) =
     Some (at_source c n, Inr \<lparr>hd_index = 0, hd_commit = 4\<rparr>) \<and> changes_named c \<and> c \<noteq> fmempty"
proof -
  let ?h = "\<lparr>hd_index = 0, hd_commit = 4\<rparr> :: head"
  let ?row = "be_bytes 32 (1 :: particle) @ be_bytes 32 (7 :: particle)"
  let ?c1 = "fmupd (Migration, fence_key 8) (Some ?row) fmempty :: changes"
  let ?c2 = "fmupd (Migration, status_key) (Some (map of_char ''neuron-v1'')) ?c1"
  note read = at_source_read source_tables_def opt_len_def MAX_BYTES_VALUE_def
  note run = tx_then_def tx_result_def
  have key: "status_key \<noteq> fence_key 8" "fence_key 8 \<noteq> status_key" by (rule key_injective(4) [THEN not_sym], rule key_injective(4))
  have fences: "check_fences sample_fjall sample_redb 1 (at_source fmempty 0) = Some (at_source fmempty 0, Inr ())"
    by (simp add: check_fences_def run read)
  have head1: "read_head sample_fjall sample_redb 1 (at_source fmempty 0) = Some (at_source fmempty 0, Inr None)"
    by (simp add: read_head_def run read be_bytes_inj opt_head_def)
  have head8: "read_head sample_fjall sample_redb 8 (at_source fmempty 0) = Some (at_source fmempty 0, Inr (Some ?h))"
    by (simp add: read_head_def run read opt_head_def)
  have complete: "require_complete sample_fjall sample_redb 8 1 (at_source fmempty 0) = Some (at_source fmempty 0, Inr ())"
    by (simp add: require_complete_def run read)
  have fence: "immutable_put sample_fjall sample_redb Migration (fence_key 8) ?row 64 (at_source fmempty 0) = Some (at_source ?c1 109, Inr ())"
    by (simp add: immutable_put_def run read at_source_store fcard.rep_eq)
  have sources: "fence_sources sample_fjall sample_redb 1 7 [(8, ?h)] (at_source fmempty 0) = Some (at_source ?c1 109, Inr ())"
    unfolding fence_sources.simps by (simp add: run complete head8 fence)
  have promote: "tx_lift (gen_promote sample_fjall sample_redb NeuronV1) (at_source ?c1 109) = Some (at_source ?c2 124, Inr NeuronV1)"
    unfolding promote_code by (simp add: run read gen_decode_def at_source_store fcard.rep_eq key)
  have migrate: "migrate_transition sample_fjall sample_redb 1 sample_migration (at_source fmempty 0) = Some (at_source ?c2 124, Inr ())"
    using sources promote by (simp add: migrate_transition_def sample_migration_def tx_then_def tx_result_def del: fence_sources.simps)
  let ?c3 = "fmupd (History, history_key 1 0) (Some (be_bytes 32 (4 :: particle))) ?c2"
  let ?c4 = "fmupd (Heads, be_bytes 32 (1 :: particle)) (Some (encode_head ?h)) ?c3"
  let ?c5 = "fmupd (Requests, request_key 1 2) (Some (be_bytes 32 (3 :: particle) @ encode_head ?h)) ?c4"
  have card: "fcard (fmdom ?c2) \<le> 10" "fcard (fmdom ?c3) \<le> 10" "fcard (fmdom ?c4) \<le> 10"
    by (simp_all add: fcard_finsert_if key fcard.rep_eq [of "{||}"])
  have count: "fcard (fmdom ?c2) \<le> 10" "fcard (fmdom ?c3) \<le> 10" "fcard (fmdom ?c4) \<le> 10" by (fact card)+
  have "tx_store History (history_key 1 0) (be_bytes 32 (4 :: particle)) (at_source ?c2 124) = Some (at_source ?c3 (124 + 40 + 32), Inr ())"
    by (rule at_source_store [where n = 124 and bs = "be_bytes 32 (4 :: particle)" and key = "history_key 1 0", simplified key_length length_be_bytes]) (use card(1) in simp_all)
  moreover have "tx_store Heads (be_bytes 32 (1 :: particle)) (encode_head ?h) (at_source ?c3 196) = Some (at_source ?c4 (196 + 32 + 40), Inr ())"
    by (rule at_source_store [where n = 196 and bs = "encode_head ?h" and key = "be_bytes 32 (1 :: particle)", simplified length_encode_head length_be_bytes]) (use card(2) in simp_all)
  moreover have "tx_store Requests (request_key 1 2) (be_bytes 32 (3 :: particle) @ encode_head ?h) (at_source ?c4 268) = Some (at_source ?c5 (268 + length (request_key 1 2) + length (be_bytes 32 (3 :: particle) @ encode_head ?h)), Inr ())"
    by (rule at_source_store) (use card(3) in simp_all)
  ultimately have publish: "publish_head retiring_write 0 (at_source ?c2 124) = Some (at_source ?c5 404, Inr ?h)"
    by (simp add: publish_head_def retiring_write_def run)
  have content: "tx_ask sample_fjall sample_redb Content (be_bytes 32 (4 :: particle)) MAX_BYTES_VALUE (at_source fmempty 0) = Some (at_source fmempty 0, Inr (Some [9]))"
    by (simp add: read)
  have w: "wr_claims retiring_write = []" "wr_content retiring_write = []" "hd_commit (wr_head retiring_write) = 4" by (simp_all add: retiring_write_def)
  have rows: "apply_rows sample_fjall sample_redb retiring_write (migrate_transition sample_fjall sample_redb 1 sample_migration) 0 (at_source fmempty 0) = Some (at_source ?c5 404, Inr ?h)"
    unfolding apply_rows_def w using migrate publish by (simp add: run content)
  have new: "apply_new sample_fjall sample_redb retiring_write (migrate_transition sample_fjall sample_redb 1 sample_migration) (at_source fmempty 0) = Some (at_source ?c5 404, Inr ?h)"
    unfolding apply_new_def apply_sequence_def using rows fences head1 by (simp add: retiring_write_def next_index_def run)
  have "apply_body sample_fjall sample_redb retiring_write True (migrate_transition sample_fjall sample_redb 1 sample_migration) (at_source fmempty 0) = Some (at_source ?c5 404, Inr ?h)"
    unfolding apply_body_def using new by (simp add: retiring_write_def tx_then_def read)
  moreover have "changes_named ?c5" unfolding changes_named_def by (auto split: if_splits)
  moreover have "?c5 \<noteq> fmempty" by simp
  ultimately show ?thesis by blast
qed

lemma migrated_run:
  assumes "\<exists>db' out. f = Some (db', out) \<and> (\<forall>h. out = Inr h \<longrightarrow> (\<forall>origin expected. (origin, expected) \<in> S \<longrightarrow> P origin expected \<and> (\<forall>ops. Q db' origin ops)))"
    and "f = Some (db', Inr h)" and "(origin, expected) \<in> S"
  shows "Q db' origin ops"
  using assms by auto

theorem migration_retires_sources_witness:
  "\<exists>db' h. app_apply_migration sample_ext sample_fjall sample_redb (db_from_engine (Redb source_tables)) retiring_write sample_migration = Some (db', Inr h) \<and>
     (\<forall>v. wr_namespace v = 8 \<longrightarrow> wr_request v = 10 \<longrightarrow>
       (\<exists>db2 err. app_run sample_ext sample_fjall sample_redb db' [App_reopen, App_apply v] = Some (db2, [None, Some (Inl err)])))"
proof -
  let ?db = "db_from_engine (Redb source_tables) :: (contents, contents) database" and ?m = sample_migration
  let ?body = "apply_body sample_fjall sample_redb retiring_write True (migrate_transition sample_fjall sample_redb 1 ?m)"
  obtain c n where c: "?body (at_source fmempty 0) = Some (at_source c n, Inr \<lparr>hd_index = 0, hd_commit = 4\<rparr>)" "changes_named c" "c \<noteq> fmempty"
    using retiring_body by blast
  have new: "tx_new (db_engine ?db) = at_source fmempty 0" by (simp add: tx_new_def at_source_def db_from_engine_def)
  have dom: "fmdom (tx_changes (at_source c n)) \<noteq> {||}" using c(3) by (metis at_source_def fmrestrict_fset_dom fmrestrict_fset_null transaction.select_convs(2))
  obtain i where i: "db_change_id sample_ext (tx_changes (at_source c n)) = Some i" using db_change_id_total [of c sample_ext] c(2) by (auto simp: at_source_def)
  obtain k where k: "engine_commit sample_fjall sample_redb (db_engine ?db) (with_markers i (tx_changes (at_source c n))) i = Some (Redb k, Inr ())"
    using sample_commit [OF changes_named_markers [OF c(2)], of sample_fjall source_tables i i] by (auto simp: db_from_engine_def at_source_def)
  have "wr_namespace retiring_write = 1" by (simp add: retiring_write_def)
  moreover have "valid_sources 1 (nm_sources ?m)" "validate_write retiring_write = Inr ()"
    by (simp_all add: valid_sources_def sample_migration_def validate_write_def retiring_write_def)
  ultimately obtain db' where run: "app_apply_migration sample_ext sample_fjall sample_redb ?db retiring_write ?m = Some (db', Inr \<lparr>hd_index = 0, hd_commit = 4\<rparr>)"
    using db_transaction_commit [where execute = ?body and from_err = from_storage, OF source_ok(2) c(1) [folded new] dom i k]
    by (simp add: app_apply_migration_def app_apply_with_def apply_checked_def commit_value_def)
  have "ap_requests source_spec (wr_namespace retiring_write, wr_request retiring_write) = None" by (simp add: source_spec_def empty_spec_def retiring_write_def)
  note retire = migration_retires_sources [OF engine_laws_sample source_ok(1,2,4,3) this, of sample_ext ?m]
  have "\<exists>db2 err. app_run sample_ext sample_fjall sample_redb db' [App_reopen, App_apply v] = Some (db2, [None, Some (Inl err)])" if v: "wr_namespace v = 8" "wr_request v = 10" for v
  proof -
    have "(8, \<lparr>hd_index = 0, hd_commit = 4\<rparr>) \<in> set (nm_sources ?m)" by (simp add: sample_migration_def)
    note after = migrated_run [OF retire run this, of "[App_reopen, App_apply v]"]
    obtain db2 rs where r: "app_run sample_ext sample_fjall sample_redb db' [App_reopen, App_apply v] = Some (db2, rs)" "length rs = 2"
        "\<And>i w. i < 2 \<Longrightarrow> op_write ([App_reopen, App_apply v] ! i) = Some w \<Longrightarrow> wr_namespace w = 8 \<Longrightarrow> ap_requests source_spec (8, wr_request w) = None \<Longrightarrow> \<exists>err. rs ! i = Some (Inl err)"
      using after by auto
    have "ap_requests source_spec (8, wr_request v) = None" using v(2) by (simp add: source_spec_def empty_spec_def)
    from r(3) [of 1 v, OF _ _ v(1) this] obtain err where "rs ! 1 = Some (Inl err)" by auto
    moreover have "rs ! 0 = None" using r(1) by (auto split: bind_splits)
    ultimately have "rs = [None, Some (Inl err)]" using r(2) by (intro nth_equalityI) (auto simp: less_2_cases_iff)
    then show ?thesis using r(1) by blast
  qed
  then show ?thesis using run by blast
qed

end
