(* ===== verification/Bbg_Archive.thy ===== *)
theory Bbg_Archive
  imports Bbg_Application_Runs
begin

text \<open>
  Inspection of an application store (\<open>application/archive.rs\<close>, \<open>validate_record\<close> of \<open>application/validation.rs\<close>): what an archive holds
  when it is opened, and the bounded walk over its five tables that checks every row and every link between rows. The checks of the path and of the
  guard file before the database is opened are not modelled; the caller's check of a content is a function. An incremental hash is the hash of the bytes fed to it.
\<close>

section \<open>Archives\<close>

definition MAX_INSPECTION_ROWS :: u64 where "MAX_INSPECTION_ROWS = 1000000"
definition MAX_INSPECTION_BYTES :: u64 where "MAX_INSPECTION_BYTES = 8 * 1024 * 1024 * 1024"

definition TABLES :: "table list" where
  "TABLES = [Content, Claims, Requests, History, Heads]"

definition SEAL :: bytes where "SEAL = map of_char ''application-export''"

record archive_seal =
  as_target :: particle
  as_nonce :: particle
  as_prior :: particle
  as_manifest :: particle

record archive_summary =
  su_rows :: u64
  su_bytes :: u64
  su_tables :: "u64 list"
  su_digest :: particle

record ('f, 'k) application_archive =
  ar_db :: "('f, 'k) database"
  ar_sources :: "(particle \<times> head) list"
  ar_seal :: "archive_seal option"
  ar_transaction :: "particle option"

section \<open>Opening\<close>

definition db_page :: "ext \<Rightarrow> 'f fjall \<Rightarrow> ('k, 't) redb \<Rightarrow> ('f, 'k) database \<Rightarrow> table \<Rightarrow> bytes option \<Rightarrow> byte_limits \<Rightarrow> (app_error + raw_entry list) option" where
  "db_page X F R db table after limits = map_option (map_sum from_storage id) (db_scan X F R db table after [] limits)"

fun all_empty :: "ext \<Rightarrow> 'f fjall \<Rightarrow> ('k, 't) redb \<Rightarrow> ('f, 'k) database \<Rightarrow> table list \<Rightarrow> (app_error + unit) option" where
  "all_empty X F R db [] = Some (Inr ())"
| "all_empty X F R db (t # ts) = do {
     r \<leftarrow> db_page X F R db t None \<lparr>bl_max_entries = 1, bl_max_bytes = MAX_TRANSACTION_BYTES\<rparr>;
     case r of Inl e \<Rightarrow> Some (Inl e)
     | Inr rows \<Rightarrow> if rows \<noteq> [] then Some (Inl Conflict) else all_empty X F R db ts }"

fun decode_sources :: "raw_entry list \<Rightarrow> app_error + (particle \<times> head) list" where
  "decode_sources [] = Inr []"
| "decode_sources ((i, h) # rows) =
     (if length i \<noteq> 32 then Inl AppCorrupt
      else and_then (decode_head h) (\<lambda>h. and_then (decode_sources rows) (\<lambda>hs. Inr ((of_be_bytes i, h) # hs))))"

definition transfer_tag :: bytes where "transfer_tag = map of_char ''bbg/application-transfer/1'' @ [0]"

definition source_bytes :: "(particle \<times> head) list \<Rightarrow> bytes" where
  "source_bytes sources = concat (map (\<lambda>(i, h). be_bytes 32 i @ le_bytes 8 (hd_index h) @ be_bytes 32 (hd_commit h)) sources)"

definition manifest_of :: "ext \<Rightarrow> bytes \<Rightarrow> (particle \<times> head) list \<Rightarrow> particle" where
  "manifest_of X origin sources = hm_hash X (transfer_tag @ origin @ source_bytes sources)"

definition decode_seal :: "ext \<Rightarrow> bytes option \<Rightarrow> (particle \<times> head) list \<Rightarrow> bytes \<Rightarrow> app_error + archive_seal" where
  "decode_seal X status sources bs =
     (if length bs \<noteq> 128 \<or> status \<noteq> Some export_marker then Inl AppCorrupt
      else if be_bytes 32 (manifest_of X (take 96 bs) sources) \<noteq> drop 96 bs then Inl AppCorrupt
      else Inr \<lparr>as_target = of_be_bytes (take 32 bs), as_nonce = of_be_bytes (take 32 (drop 32 bs)), as_prior = of_be_bytes (take 32 (drop 64 bs)),
        as_manifest = of_be_bytes (drop 96 bs)\<rparr>)"

text \<open>The question mark operator on a result that may also panic.\<close>

definition res_then :: "('e + 'a) option \<Rightarrow> ('a \<Rightarrow> ('e + 'b) option) \<Rightarrow> ('e + 'b) option" where
  "res_then r f = do { r \<leftarrow> r; case r of Inl e \<Rightarrow> Some (Inl e) | Inr a \<Rightarrow> f a }"

definition archive_open :: "ext \<Rightarrow> 'f fjall \<Rightarrow> ('k, 't) redb \<Rightarrow> ('f, 'k) database \<Rightarrow> (app_error + ('f, 'k) application_archive) option" where
  "archive_open X F R db =
     res_then (map_option (map_sum from_storage id) (db_check_known_tables F db)) (\<lambda>_.
     res_then (db_get X F R db Migration status_key 16) (\<lambda>status.
     if status \<noteq> None \<and> status \<noteq> Some (map of_char ''complete'') \<and> status \<noteq> Some export_marker then Some (Inl Conflict)
     else res_then (all_empty X F R db (map (\<lambda>d. Shard (of_nat d)) [0..<14])) (\<lambda>_.
     res_then (all_empty X F R db (map Native [NativeState, NativeHistory, NativeRequests, NativeMetadata, NativeBalances, NativeBlocks, NativeExport])) (\<lambda>_.
     res_then (db_page X F R db Heads None \<lparr>bl_max_entries = 257, bl_max_bytes = 32768\<rparr>) (\<lambda>heads.
     if heads = [] \<or> 256 < length heads then Some (Inl AppLimit)
     else res_then (Some (decode_sources heads)) (\<lambda>sources.
     res_then (db_get X F R db Migration SEAL 128) (\<lambda>bs.
     res_then (Some (case bs of None \<Rightarrow> Inr None | Some bs \<Rightarrow> and_then (decode_seal X status sources bs) (\<lambda>s. Inr (Some s)))) (\<lambda>seal.
     if status = Some export_marker \<and> seal = None then Some (Inl AppCorrupt)
     else res_then (map_option (map_sum from_storage id) (db_last_transaction X F R db)) (\<lambda>transaction.
       Some (Inr \<lparr>ar_db = db, ar_sources = sources, ar_seal = seal, ar_transaction = transaction\<rparr>))))))))))"

section \<open>Inspection\<close>

definition validate_record :: "table \<Rightarrow> bytes \<Rightarrow> bytes \<Rightarrow> app_error + unit" where
  "validate_record table key value =
     (if (case table of
            Content \<Rightarrow> length key = 32
          | Heads \<Rightarrow> length key = 32 \<and> \<not> isl (decode_head value)
          | History \<Rightarrow> length key = 40 \<and> length value = 32
          | Requests \<Rightarrow> length key = 64 \<and> \<not> isl (decode_request value)
          | Claims \<Rightarrow> length key = 32 \<and> length value = 32
          | _ \<Rightarrow> False)
      then Inr () else Inl AppCorrupt)"

record inspection =
  in_rows :: u64
  in_bytes :: u64
  in_tables :: "u64 list"
  in_hash :: bytes
  in_receipts :: "(particle \<times> u64) fset"
  in_previous :: "(particle \<times> u64) option"

text \<open>The counters with their limits.\<close>

definition count_row :: "u64 \<Rightarrow> u64 \<Rightarrow> nat \<Rightarrow> bytes \<Rightarrow> bytes \<Rightarrow> inspection \<Rightarrow> app_error + inspection" where
  "count_row max_rows max_bytes ordinal key value s =
     and_then (ok_or AppLimit (checked_add (in_rows s) 1)) (\<lambda>rows.
     and_then (ok_or AppLimit (checked_add (in_bytes s) (of_nat (length key + length value)))) (\<lambda>bytes.
     if max_rows < rows \<or> max_bytes < bytes then Inl AppLimit
     else Inr (s\<lparr>in_rows := rows, in_bytes := bytes, in_tables := (in_tables s)[ordinal := in_tables s ! ordinal + 1]\<rparr>)))"

definition hash_row :: "bytes \<Rightarrow> bytes \<Rightarrow> bytes" where
  "hash_row key value = le_bytes 8 (of_nat (length key) :: u64) @ key @ le_bytes 8 (of_nat (length value) :: u64) @ value"

text \<open>The head a row names, with the effect on the open receipts and on the position in the history.\<close>

definition row_head :: "table \<Rightarrow> bytes \<Rightarrow> bytes \<Rightarrow> inspection \<Rightarrow> app_error + (head \<times> inspection)" where
  "row_head table key value s = (let ns = of_be_bytes (take 32 key) in
     case table of
       Heads \<Rightarrow> and_then (decode_head value) (\<lambda>h. Inr (h, s))
     | Requests \<Rightarrow> and_then (decode_request value) (\<lambda>(_, h).
         if (ns, hd_index h) |\<in>| in_receipts s then Inl AppCorrupt
         else Inr (h, s\<lparr>in_receipts := finsert (ns, hd_index h) (in_receipts s)\<rparr>))
     | History \<Rightarrow>
         let index = of_be_bytes (drop 32 key) in
         and_then (case in_previous s of
             Some (p, n) \<Rightarrow> if p = ns then ok_or AppCorrupt (checked_add n 1) else Inr 0
           | None \<Rightarrow> Inr 0) (\<lambda>expected.
         if index \<noteq> expected \<or> (ns, index) |\<notin>| in_receipts s then Inl AppCorrupt
         else Inr (\<lparr>hd_index = index, hd_commit = of_be_bytes value\<rparr>,
           s\<lparr>in_receipts := in_receipts s |-| {|(ns, index)|}, in_previous := Some (ns, index)\<rparr>))
     | _ \<Rightarrow> Inl AppCorrupt)"

definition check_links :: "ext \<Rightarrow> 'f fjall \<Rightarrow> ('k, 't) redb \<Rightarrow> ('f, 'k) database \<Rightarrow> particle \<Rightarrow> head \<Rightarrow> (app_error + unit) option" where
  "check_links X F R db ns h =
     res_then (app_head X F R db ns) (\<lambda>selected.
     case selected of
       None \<Rightarrow> Some (Inl AppCorrupt)
     | Some selected \<Rightarrow>
         if hd_index selected < hd_index h then Some (Inl AppCorrupt)
         else res_then (db_get X F R db History (history_key ns (hd_index h)) 32) (\<lambda>row.
           if row \<noteq> Some (be_bytes 32 (hd_commit h)) then Some (Inl AppCorrupt)
           else res_then (app_content X F R db (hd_commit h) MAX_BYTES_VALUE) (\<lambda>c.
             Some (if c = None then Inl AppCorrupt else Inr ()))))"

definition inspect_row :: "ext \<Rightarrow> 'f fjall \<Rightarrow> ('k, 't) redb \<Rightarrow> ('f, 'k) database \<Rightarrow> (particle \<Rightarrow> bytes \<Rightarrow> app_error + unit) \<Rightarrow> u64 \<Rightarrow> u64 \<Rightarrow>
    nat \<Rightarrow> table \<Rightarrow> bytes \<Rightarrow> bytes \<Rightarrow> inspection \<Rightarrow> (app_error + inspection) option" where
  "inspect_row X F R db validate_content max_rows max_bytes ordinal table key value s =
     res_then (Some (count_row max_rows max_bytes ordinal key value s)) (\<lambda>s.
     res_then (Some (validate_record table key value)) (\<lambda>_.
     let s = s\<lparr>in_hash := in_hash s @ hash_row key value\<rparr> in
     if table = Content then Some (and_then (validate_content (of_be_bytes key) value) (\<lambda>_. Inr s))
     else if table = Claims then Some (Inr s)
     else res_then (Some (row_head table key value s)) (\<lambda>(h, s).
       res_then (check_links X F R db (of_be_bytes (take 32 key)) h) (\<lambda>_. Some (Inr s)))))"

fun inspect_rows :: "ext \<Rightarrow> 'f fjall \<Rightarrow> ('k, 't) redb \<Rightarrow> ('f, 'k) database \<Rightarrow> (particle \<Rightarrow> bytes \<Rightarrow> app_error + unit) \<Rightarrow> u64 \<Rightarrow> u64 \<Rightarrow>
    nat \<Rightarrow> table \<Rightarrow> raw_entry list \<Rightarrow> inspection \<Rightarrow> (app_error + inspection) option" where
  "inspect_rows X F R db vc max_rows max_bytes ordinal table [] s = Some (Inr s)"
| "inspect_rows X F R db vc max_rows max_bytes ordinal table ((key, value) # rows) s =
     res_then (inspect_row X F R db vc max_rows max_bytes ordinal table key value s) (inspect_rows X F R db vc max_rows max_bytes ordinal table rows)"

partial_function (option) inspect_pages :: "ext \<Rightarrow> 'f fjall \<Rightarrow> ('k, 't) redb \<Rightarrow> ('f, 'k) database \<Rightarrow> (particle \<Rightarrow> bytes \<Rightarrow> app_error + unit) \<Rightarrow> u64 \<Rightarrow> u64 \<Rightarrow>
    nat \<Rightarrow> table \<Rightarrow> bytes option \<Rightarrow> inspection \<Rightarrow> (app_error + inspection) option" where
  "inspect_pages X F R db vc max_rows max_bytes ordinal table after s = do {
     r \<leftarrow> db_page X F R db table after \<lparr>bl_max_entries = 512, bl_max_bytes = MAX_TRANSACTION_BYTES - 4096\<rparr>;
     case r of
       Inl e \<Rightarrow> Some (Inl e)
     | Inr rows \<Rightarrow>
         if rows = [] then Some (Inr s)
         else do {
           r \<leftarrow> inspect_rows X F R db vc max_rows max_bytes ordinal table rows s;
           case r of
             Inl e \<Rightarrow> Some (Inl e)
           | Inr s \<Rightarrow> inspect_pages X F R db vc max_rows max_bytes ordinal table (Some (fst (last rows))) s } }"

fun inspect_tables :: "ext \<Rightarrow> 'f fjall \<Rightarrow> ('k, 't) redb \<Rightarrow> ('f, 'k) database \<Rightarrow> (particle \<Rightarrow> bytes \<Rightarrow> app_error + unit) \<Rightarrow> u64 \<Rightarrow> u64 \<Rightarrow>
    nat \<Rightarrow> table list \<Rightarrow> inspection \<Rightarrow> (app_error + inspection) option" where
  "inspect_tables X F R db vc max_rows max_bytes ordinal [] s = Some (Inr s)"
| "inspect_tables X F R db vc max_rows max_bytes ordinal (t # ts) s =
     res_then (inspect_pages X F R db vc max_rows max_bytes ordinal t None (s\<lparr>in_hash := in_hash s @ [of_nat ordinal], in_previous := None\<rparr>))
       (inspect_tables X F R db vc max_rows max_bytes (Suc ordinal) ts)"

definition archive_tag :: bytes where "archive_tag = map of_char ''bbg/application-archive-rows/1'' @ [0]"

definition inspect :: "ext \<Rightarrow> 'f fjall \<Rightarrow> ('k, 't) redb \<Rightarrow> ('f, 'k) application_archive \<Rightarrow> u64 \<Rightarrow> u64 \<Rightarrow> (particle \<Rightarrow> bytes \<Rightarrow> app_error + unit) \<Rightarrow>
    (app_error + archive_summary) option" where
  "inspect X F R ar max_rows max_bytes validate_content =
     (if max_rows = 0 \<or> MAX_INSPECTION_ROWS < max_rows \<or> max_bytes = 0 \<or> MAX_INSPECTION_BYTES < max_bytes then Some (Inl AppLimit)
      else res_then (inspect_tables X F R (ar_db ar) validate_content max_rows max_bytes 0 TABLES
          \<lparr>in_rows = 0, in_bytes = 0, in_tables = replicate 5 0, in_hash = archive_tag, in_receipts = {||}, in_previous = None\<rparr>) (\<lambda>s.
        if in_receipts s \<noteq> {||} then Some (Inl AppCorrupt)
        else res_then (map_option (map_sum from_storage id) (db_last_transaction X F R (ar_db ar))) (\<lambda>transaction.
          Some (if transaction \<noteq> ar_transaction ar then Inl AppCorrupt
            else Inr \<lparr>su_rows = in_rows s, su_bytes = in_bytes s, su_tables = in_tables s, su_digest = hm_hash X (in_hash s)\<rparr>))))"

section \<open>The walk over a table\<close>

lemma res_then_simps [simp]: "res_then None f = None" "res_then (Some (Inl e)) f = Some (Inl e)" "res_then (Some (Inr a)) f = f a"
  by (simp_all add: res_then_def)

lemma res_then_Inr: "res_then r f = Some (Inr b) \<longleftrightarrow> (\<exists>a. r = Some (Inr a) \<and> f a = Some (Inr b))"
  by (auto simp: res_then_def split: bind_splits sum.splits)

lemma res_then_total: "\<exists>a. r = Some a \<Longrightarrow> (\<And>a. r = Some (Inr a) \<Longrightarrow> \<exists>b. f a = Some b) \<Longrightarrow> \<exists>b. res_then r f = Some b"
  by (auto simp: res_then_def split: sum.split)

lemma res_then_assoc: "res_then (res_then r f) g = res_then r (\<lambda>a. res_then (f a) g)"
  by (cases r) (auto simp: res_then_def split: sum.split)

lemma db_get_ok:
  assumes "engine_laws F CF R CK V" and "database_ok db" and "table_name t \<noteq> None"
  shows "\<exists>r. db_get X F R db t key m = Some r \<and> (\<forall>v. r = Inr v \<longrightarrow> v = db_tables CF CK db t key)"
proof -
  obtain r where "db_read X F R db t key m = Some r" "\<forall>v. r = Inr v \<longrightarrow> v = fmlookup (db_table CF CK db t) key" using db_read_ok [OF assms] by blast
  then show ?thesis by (cases r) (auto simp: db_get_def db_tables_def)
qed

lemma db_page_ok:
  assumes "engine_laws F CF R CK V" and "database_ok db" and "table_name t \<noteq> None"
  shows "\<exists>r. db_page X F R db t after limits = Some r \<and>
    (\<forall>page. r = Inr page \<longrightarrow> 0 < bl_max_entries limits \<and> page_of (rows_after (db_table CF CK db t) after []) limits page)"
proof -
  obtain r where "db_scan X F R db t after [] limits = Some r"
    "\<forall>page. r = Inr page \<longrightarrow> 0 < bl_max_entries limits \<and> page_of (rows_after (db_table CF CK db t) after []) limits page"
    using db_scan_ok [OF assms] by blast
  then show ?thesis by (cases r) (auto simp: db_page_def)
qed

lemma rows_after_rest:
  assumes "rows_after m after [] = page @ rest" and "page \<noteq> []"
  shows "rows_after m (Some (fst (last page))) [] = rest"
proof -
  let ?L = "sorted_list_of_fmap m" and ?k = "fst (last page)"
  let ?p = "\<lambda>(key, _ :: bytes). case after of None \<Rightarrow> True | Some a \<Rightarrow> a < (key :: bytes)"
  have e: "filter ?p ?L = page @ rest" using assms(1) by (simp add: rows_after_def)
  have "sorted_wrt (<) (map fst (filter ?p ?L))" using sorted_list_of_fmap_props [of m] by (simp add: strict_sorted_iff sorted_filter distinct_map_filter)
  then have s: "sorted_wrt (<) (map fst page @ map fst rest)" unfolding e by simp
  obtain init where init: "page = init @ [last page]" using assms(2) by (metis append_butlast_last_id)
  have "\<forall>x \<in> set page. \<not> ?k < fst x" using s unfolding sorted_wrt_append by (subst (asm) (1) init, subst init) (auto simp: sorted_wrt_append)
  moreover have "\<forall>x \<in> set rest. ?k < fst x" using s assms(2) by (auto simp: sorted_wrt_append)
  ultimately have "filter (\<lambda>(key, _). ?k < key) (page @ rest) = rest" by (auto simp: filter_empty_conv filter_id_conv split_beta)
  moreover have "last page \<in> set (filter ?p ?L)" unfolding e using assms(2) by simp
  then have "?k < key \<Longrightarrow> ?p (key, v)" for key v by (auto split: option.splits)
  then have "filter (\<lambda>(key, _). ?k < key) (filter ?p ?L) = filter (\<lambda>(key, _). ?k < key) ?L" by (auto intro!: filter_cong)
  ultimately show ?thesis unfolding rows_after_def e [symmetric] by simp
qed

lemma inspect_rows_append:
  "inspect_rows X F R db vc mr mb ord t (xs @ ys) s = res_then (inspect_rows X F R db vc mr mb ord t xs s) (inspect_rows X F R db vc mr mb ord t ys)"
proof (induction xs arbitrary: s)
  case (Cons x xs)
  have "inspect_rows X F R db vc mr mb ord t (xs @ ys) = (\<lambda>s. res_then (inspect_rows X F R db vc mr mb ord t xs s) (inspect_rows X F R db vc mr mb ord t ys))"
    by (rule ext) (rule Cons.IH)
  then show ?case by (cases x) (simp add: res_then_assoc)
qed simp

text \<open>What the links of a row mean for the tables.\<close>

definition linked :: "(table \<Rightarrow> bytes \<Rightarrow> bytes option) \<Rightarrow> particle \<Rightarrow> head \<Rightarrow> bool" where
  "linked T ns h \<longleftrightarrow> (\<exists>bs selected. T Heads (be_bytes 32 ns) = Some bs \<and> decode_head bs = Inr selected \<and> hd_index h \<le> hd_index selected) \<and>
     T History (history_key ns (hd_index h)) = Some (be_bytes 32 (hd_commit h)) \<and> T Content (be_bytes 32 (hd_commit h)) \<noteq> None"

lemma app_head_ok:
  assumes "engine_laws F CF R CK V" and "database_ok db"
  shows "\<exists>r. app_head X F R db ns = Some r \<and> (\<forall>h. r = Inr (Some h) \<longrightarrow> (\<exists>bs. db_tables CF CK db Heads (be_bytes 32 ns) = Some bs \<and> decode_head bs = Inr h))"
proof -
  obtain r where "db_get X F R db Heads (be_bytes 32 ns) 40 = Some r" "\<forall>v. r = Inr v \<longrightarrow> v = db_tables CF CK db Heads (be_bytes 32 ns)"
    using db_get_ok [OF assms, of Heads X "be_bytes 32 ns" 40] by auto
  then show ?thesis by (cases r) (auto simp: app_head_def opt_head_def result_simps split: option.splits sum.splits)
qed

lemma check_links_ok:
  assumes "engine_laws F CF R CK V" and "database_ok db"
  shows "\<exists>r. check_links X F R db ns h = Some r \<and> (r = Inr () \<longrightarrow> linked (db_tables CF CK db) ns h)"
proof -
  obtain a where a: "app_head X F R db ns = Some a"
    "\<forall>h. a = Inr (Some h) \<longrightarrow> (\<exists>bs. db_tables CF CK db Heads (be_bytes 32 ns) = Some bs \<and> decode_head bs = Inr h)"
    using app_head_ok [OF assms] by blast
  obtain b where b: "db_get X F R db History (history_key ns (hd_index h)) 32 = Some b"
    "\<forall>v. b = Inr v \<longrightarrow> v = db_tables CF CK db History (history_key ns (hd_index h))"
    using db_get_ok [OF assms, of History X "history_key ns (hd_index h)" 32] by auto
  obtain c where c: "app_content X F R db (hd_commit h) MAX_BYTES_VALUE = Some c"
    "\<forall>v. c = Inr v \<longrightarrow> v = db_tables CF CK db Content (be_bytes 32 (hd_commit h))"
    using db_get_ok [OF assms, of Content X "be_bytes 32 (hd_commit h)" MAX_BYTES_VALUE] by (auto simp: app_content_def)
  show ?thesis
  proof (cases a)
    case (Inr sel)
    then show ?thesis using a b c
      by (cases sel; cases b; cases c) (auto simp: check_links_def linked_def not_less)
  qed (simp add: check_links_def a(1))
qed

lemma inspect_row_total:
  assumes "engine_laws F CF R CK V" and "database_ok db"
  shows "\<exists>r. inspect_row X F R db vc mr mb ord t key value s = Some r"
proof -
  have "\<exists>r. check_links X F R db ns h = Some r" for ns h using check_links_ok [OF assms] by blast
  then show ?thesis unfolding inspect_row_def Let_def by (intro res_then_total) (auto intro!: res_then_total split: prod.split)
qed

lemma inspect_rows_total:
  assumes "engine_laws F CF R CK V" and "database_ok db"
  shows "\<exists>r. inspect_rows X F R db vc mr mb ord t rows s = Some r"
proof (induction rows arbitrary: s)
  case (Cons row rows)
  then show ?case using inspect_row_total [OF assms] by (cases row) (auto intro!: res_then_total)
qed simp

lemma inspect_pages_ok:
  assumes laws: "engine_laws F CF R CK V" and ok: "database_ok db" and t: "table_name t \<noteq> None"
  shows "\<exists>r. inspect_pages X F R db vc mr mb ord t after s = Some r \<and>
    (\<forall>s'. r = Inr s' \<longrightarrow> inspect_rows X F R db vc mr mb ord t (rows_after (db_table CF CK db t) after []) s = Some (Inr s'))"
proof (induction "length (rows_after (db_table CF CK db t) after [])" arbitrary: after s rule: less_induct)
  case less
  let ?rows = "rows_after (db_table CF CK db t) after []" and ?l = "\<lparr>bl_max_entries = 512, bl_max_bytes = MAX_TRANSACTION_BYTES - 4096\<rparr>"
  obtain r where r: "db_page X F R db t after ?l = Some r" "\<forall>page. r = Inr page \<longrightarrow> 0 < bl_max_entries ?l \<and> page_of ?rows ?l page"
    using db_page_ok [OF laws ok t] by blast
  show ?case
  proof (cases r)
    case (Inl e)
    then show ?thesis using r(1) by (subst inspect_pages.simps) simp
  next
    case (Inr page)
    then obtain rest where p: "?rows = page @ rest" "page = [] \<Longrightarrow> rest = []" using r(2) by (auto simp: page_of_def)
    show ?thesis
    proof (cases "page = []")
      case True
      then show ?thesis using r(1) Inr p by (subst inspect_pages.simps) simp
    next
      case False
      obtain q where q: "inspect_rows X F R db vc mr mb ord t page s = Some q" using inspect_rows_total [OF laws ok] by blast
      have rest: "rows_after (db_table CF CK db t) (Some (fst (last page))) [] = rest" by (rule rows_after_rest [OF p(1) False])
      then have "length (rows_after (db_table CF CK db t) (Some (fst (last page))) []) < length ?rows" using p(1) False by simp
      note IH = less [OF this, unfolded rest]
      show ?thesis
      proof (cases q)
        case (Inl e)
        then show ?thesis using r(1) Inr False q by (subst inspect_pages.simps) simp
      next
        case (Inr s')
        then show ?thesis using IH [of s'] r(1) \<open>r = Inr page\<close> False q unfolding p(1)
          by (subst inspect_pages.simps) (simp add: inspect_rows_append)
      qed
    qed
  qed
qed

section \<open>What an accepted row says\<close>

lemma inspect_row_Inr:
  assumes "inspect_row X F R db vc mr mb ord t key value s = Some (Inr s')"
  obtains s1 where "in_receipts s1 = in_receipts s" "in_previous s1 = in_previous s" "validate_record t key value = Inr ()"
    "if t = Content \<or> t = Claims then s' = s1
     else \<exists>h. row_head t key value s1 = Inr (h, s') \<and> check_links X F R db (of_be_bytes (take 32 key)) h = Some (Inr ())"
proof -
  obtain s0 where s0: "count_row mr mb ord key value s = Inr s0" "validate_record t key value = Inr ()"
    "(let s = s0\<lparr>in_hash := in_hash s0 @ hash_row key value\<rparr> in
     if t = Content then Some (and_then (vc (of_be_bytes key) value) (\<lambda>_. Inr s))
     else if t = Claims then Some (Inr s)
     else res_then (Some (row_head t key value s)) (\<lambda>(h, s).
       res_then (check_links X F R db (of_be_bytes (take 32 key)) h) (\<lambda>_. Some (Inr s)))) = Some (Inr s')"
    using assms unfolding inspect_row_def res_then_Inr by auto
  have "in_receipts s0 = in_receipts s" "in_previous s0 = in_previous s"
    using s0(1) by (auto simp: count_row_def result_simps split: if_splits)
  then show ?thesis using s0(2,3) by (intro that [of "s0\<lparr>in_hash := in_hash s0 @ hash_row key value\<rparr>"]) (auto simp: Let_def res_then_Inr result_simps split: if_splits)
qed

definition ns_of :: "bytes \<Rightarrow> particle" where "ns_of key = of_be_bytes (take 32 key)"

definition request_position :: "raw_entry \<Rightarrow> particle \<times> u64" where
  "request_position row = (ns_of (fst row), hd_index (snd (projr (decode_request (snd row)))))"

definition history_position :: "raw_entry \<Rightarrow> particle \<times> u64" where
  "history_position row = (ns_of (fst row), of_be_bytes (drop 32 (fst row)))"

definition request_row :: "(table \<Rightarrow> bytes \<Rightarrow> bytes option) \<Rightarrow> raw_entry \<Rightarrow> bool" where
  "request_row T row \<longleftrightarrow> length (fst row) = 64 \<and> (\<exists>fp h. decode_request (snd row) = Inr (fp, h) \<and> linked T (ns_of (fst row)) h)"

definition history_row :: "(table \<Rightarrow> bytes \<Rightarrow> bytes option) \<Rightarrow> raw_entry \<Rightarrow> bool" where
  "history_row T row \<longleftrightarrow> length (fst row) = 40 \<and> length (snd row) = 32 \<and>
     linked T (ns_of (fst row)) \<lparr>hd_index = of_be_bytes (drop 32 (fst row)), hd_commit = of_be_bytes (snd row)\<rparr>"

definition head_row :: "(table \<Rightarrow> bytes \<Rightarrow> bytes option) \<Rightarrow> raw_entry \<Rightarrow> bool" where
  "head_row T row \<longleftrightarrow> length (fst row) = 32 \<and> (\<exists>h. decode_head (snd row) = Inr h \<and> linked T (ns_of (fst row)) h)"

lemma request_step:
  assumes laws: "engine_laws F CF R CK V" "database_ok db" and r: "inspect_row X F R db vc mr mb ord Requests key value s = Some (Inr s')"
  shows "request_row (db_tables CF CK db) (key, value)" "request_position (key, value) |\<notin>| in_receipts s"
    "in_receipts s' = finsert (request_position (key, value)) (in_receipts s)"
proof -
  obtain s1 h where s1: "in_receipts s1 = in_receipts s" "validate_record Requests key value = Inr ()"
    "row_head Requests key value s1 = Inr (h, s')" "check_links X F R db (ns_of key) h = Some (Inr ())"
    by (rule inspect_row_Inr [OF r]) (auto simp: ns_of_def)
  obtain fp where fp: "decode_request value = Inr (fp, h)" using s1(3) by (auto simp: row_head_def Let_def result_simps split: if_splits)
  have "length key = 64" using s1(2) by (simp add: validate_record_def split: if_splits)
  moreover have "linked (db_tables CF CK db) (ns_of key) h" using check_links_ok [OF laws, of X "ns_of key" h] s1(4) by auto
  ultimately show "request_row (db_tables CF CK db) (key, value)" using fp by (auto simp: request_row_def)
  have e: "(ns_of key, hd_index h) |\<notin>| in_receipts s1" "s' = s1\<lparr>in_receipts := finsert (ns_of key, hd_index h) (in_receipts s1)\<rparr>"
    using s1(3) by (simp_all add: row_head_def Let_def fp ns_of_def [symmetric] split: if_splits)
  show "request_position (key, value) |\<notin>| in_receipts s" "in_receipts s' = finsert (request_position (key, value)) (in_receipts s)"
    using e s1(1) by (simp_all add: request_position_def fp)
qed

lemma history_step:
  assumes laws: "engine_laws F CF R CK V" "database_ok db" and r: "inspect_row X F R db vc mr mb ord History key value s = Some (Inr s')"
  shows "history_row (db_tables CF CK db) (key, value)" "history_position (key, value) |\<in>| in_receipts s"
    "in_receipts s' = in_receipts s |-| {|history_position (key, value)|}" "in_previous s' = Some (history_position (key, value))"
    "snd (history_position (key, value)) = 0 \<or> in_previous s = Some (ns_of key, snd (history_position (key, value)) - 1)"
proof -
  obtain s1 h where s1: "in_receipts s1 = in_receipts s" "in_previous s1 = in_previous s" "validate_record History key value = Inr ()"
    "row_head History key value s1 = Inr (h, s')" "check_links X F R db (ns_of key) h = Some (Inr ())"
    by (rule inspect_row_Inr [OF r]) (auto simp: ns_of_def)
  have h: "h = \<lparr>hd_index = of_be_bytes (drop 32 key), hd_commit = of_be_bytes value\<rparr>"
    using s1(4) by (auto simp: row_head_def Let_def result_simps split: if_splits)
  have "length key = 40" "length value = 32" using s1(3) by (simp_all add: validate_record_def split: if_splits)
  moreover have "linked (db_tables CF CK db) (ns_of key) h" using check_links_ok [OF laws, of X "ns_of key" h] s1(5) by auto
  ultimately show "history_row (db_tables CF CK db) (key, value)" by (simp add: history_row_def h)
  let ?i = "of_be_bytes (drop 32 key) :: u64"
  obtain expected where x: "(case in_previous s1 of Some (p, n) \<Rightarrow> if p = ns_of key then ok_or AppCorrupt (checked_add n 1) else Inr 0 | None \<Rightarrow> Inr 0) = Inr expected"
      "?i = expected" "(ns_of key, ?i) |\<in>| in_receipts s1" "s' = s1\<lparr>in_receipts := in_receipts s1 |-| {|(ns_of key, ?i)|}, in_previous := Some (ns_of key, ?i)\<rparr>"
    using s1(4) by (simp add: row_head_def Let_def ns_of_def [symmetric] result_simps(1) split: if_splits)
  show "history_position (key, value) |\<in>| in_receipts s" "in_receipts s' = in_receipts s |-| {|history_position (key, value)|}"
    "in_previous s' = Some (history_position (key, value))"
    using x(3,4) s1(1) by (simp_all add: history_position_def)
  show "snd (history_position (key, value)) = 0 \<or> in_previous s = Some (ns_of key, snd (history_position (key, value)) - 1)"
    using x(1,2) s1(2) by (auto simp: history_position_def checked_add_def ok_or_def eq_diff_eq split: if_splits option.splits)
qed

lemma head_step:
  assumes laws: "engine_laws F CF R CK V" "database_ok db" and r: "inspect_row X F R db vc mr mb ord Heads key value s = Some (Inr s')"
  shows "head_row (db_tables CF CK db) (key, value)" "in_receipts s' = in_receipts s"
proof -
  obtain s1 h where s1: "in_receipts s1 = in_receipts s" "validate_record Heads key value = Inr ()"
    "row_head Heads key value s1 = Inr (h, s')" "check_links X F R db (ns_of key) h = Some (Inr ())"
    by (rule inspect_row_Inr [OF r]) (auto simp: ns_of_def)
  have "length key = 32" using s1(2) by (simp add: validate_record_def split: if_splits)
  moreover have "linked (db_tables CF CK db) (ns_of key) h" using check_links_ok [OF laws, of X "ns_of key" h] s1(4) by auto
  ultimately show "head_row (db_tables CF CK db) (key, value)" "in_receipts s' = in_receipts s"
    using s1(1,3) by (auto simp: row_head_def Let_def result_simps head_row_def)
qed

lemma plain_step:
  assumes "inspect_row X F R db vc mr mb ord t key value s = Some (Inr s')" and "t = Content \<or> t = Claims"
  shows "validate_record t key value = Inr ()" "in_receipts s' = in_receipts s"
  using inspect_row_Inr [OF assms(1)] assms(2) by auto

section \<open>What an accepted table says\<close>

lemma requests_walk:
  assumes laws: "engine_laws F CF R CK V" "database_ok db" and "inspect_rows X F R db vc mr mb ord Requests rows s = Some (Inr s')"
  shows "(\<forall>row \<in> set rows. request_row (db_tables CF CK db) row) \<and> fset (in_receipts s') = fset (in_receipts s) \<union> request_position ` set rows \<and>
    distinct (map request_position rows) \<and> request_position ` set rows \<inter> fset (in_receipts s) = {}"
  using assms(3)
proof (induction rows arbitrary: s)
  case (Cons row rows)
  obtain key val where row: "row = (key, val)" by (cases row)
  obtain s1 where s1: "inspect_row X F R db vc mr mb ord Requests key val s = Some (Inr s1)" "inspect_rows X F R db vc mr mb ord Requests rows s1 = Some (Inr s')"
    using Cons.prems by (auto simp: row res_then_Inr)
  show ?case using request_step [OF laws s1(1)] Cons.IH [OF s1(2)] by (auto simp: row)
qed simp

lemma history_walk:
  assumes laws: "engine_laws F CF R CK V" "database_ok db" and "inspect_rows X F R db vc mr mb ord History rows s = Some (Inr s')"
  shows "(\<forall>row \<in> set rows. history_row (db_tables CF CK db) row \<and>
      (snd (history_position row) = 0 \<or> (fst (history_position row), snd (history_position row) - 1) \<in> set_option (in_previous s) \<union> history_position ` set rows)) \<and>
    history_position ` set rows \<subseteq> fset (in_receipts s) \<and> fset (in_receipts s') = fset (in_receipts s) - history_position ` set rows"
  using assms(3)
proof (induction rows arbitrary: s)
  case (Cons row rows)
  obtain key val where row: "row = (key, val)" by (cases row)
  obtain s1 where s1: "inspect_row X F R db vc mr mb ord History key val s = Some (Inr s1)" "inspect_rows X F R db vc mr mb ord History rows s1 = Some (Inr s')"
    using Cons.prems by (auto simp: row res_then_Inr)
  note step = history_step [OF laws s1(1)] and IH = Cons.IH [OF s1(2)]
  have "fst (history_position row) = ns_of key" by (simp add: row history_position_def)
  then show ?case using step IH by (auto simp: row)
qed simp

lemma heads_walk:
  assumes laws: "engine_laws F CF R CK V" "database_ok db" and "inspect_rows X F R db vc mr mb ord Heads rows s = Some (Inr s')"
  shows "(\<forall>row \<in> set rows. head_row (db_tables CF CK db) row) \<and> in_receipts s' = in_receipts s"
  using assms(3)
proof (induction rows arbitrary: s)
  case (Cons row rows)
  obtain key val where row: "row = (key, val)" by (cases row)
  obtain s1 where s1: "inspect_row X F R db vc mr mb ord Heads key val s = Some (Inr s1)" "inspect_rows X F R db vc mr mb ord Heads rows s1 = Some (Inr s')"
    using Cons.prems by (auto simp: row res_then_Inr)
  show ?case using head_step [OF laws s1(1)] Cons.IH [OF s1(2)] by (auto simp: row)
qed simp

lemma plain_walk:
  assumes "inspect_rows X F R db vc mr mb ord t rows s = Some (Inr s')" and t: "t = Content \<or> t = Claims"
  shows "(\<forall>row \<in> set rows. validate_record t (fst row) (snd row) = Inr ()) \<and> in_receipts s' = in_receipts s"
  using assms(1)
proof (induction rows arbitrary: s)
  case (Cons row rows)
  obtain key val where row: "row = (key, val)" by (cases row)
  obtain s1 where s1: "inspect_row X F R db vc mr mb ord t key val s = Some (Inr s1)" "inspect_rows X F R db vc mr mb ord t rows s1 = Some (Inr s')"
    using Cons.prems by (auto simp: row res_then_Inr)
  show ?case using plain_step [OF s1(1) t] Cons.IH [OF s1(2)] by (auto simp: row)
qed simp

text \<open>The tables of an archive that passes.\<close>

definition consistent :: "(table \<Rightarrow> bytes \<Rightarrow> bytes option) \<Rightarrow> bool" where
  "consistent T \<longleftrightarrow>
     (\<forall>key v. T Claims key = Some v \<longrightarrow> length v = 32) \<and>
     (\<forall>key v. T Requests key = Some v \<longrightarrow> request_row T (key, v)) \<and>
     (\<forall>key v. T History key = Some v \<longrightarrow> history_row T (key, v)) \<and>
     (\<forall>key v. T Heads key = Some v \<longrightarrow> head_row T (key, v)) \<and>
     (\<forall>k1 v1 k2 v2. T Requests k1 = Some v1 \<longrightarrow> T Requests k2 = Some v2 \<longrightarrow> request_position (k1, v1) = request_position (k2, v2) \<longrightarrow> k1 = k2) \<and>
     (\<forall>key v. T Requests key = Some v \<longrightarrow> (\<exists>k w. T History k = Some w \<and> history_position (k, w) = request_position (key, v))) \<and>
     (\<forall>key v. T History key = Some v \<longrightarrow> (\<exists>k w. T Requests k = Some w \<and> request_position (k, w) = history_position (key, v))) \<and>
     (\<forall>key v. T History key = Some v \<longrightarrow> snd (history_position (key, v)) = 0 \<or>
        (\<exists>k w. T History k = Some w \<and> history_position (k, w) = (fst (history_position (key, v)), snd (history_position (key, v)) - 1)))"

lemma rows_after_all [simp]: "rows_after m None [] = sorted_list_of_fmap m"
  by (simp add: rows_after_def)

lemma inspect_tables_ok:
  assumes laws: "engine_laws F CF R CK V" "database_ok db" and ts: "\<forall>t \<in> set ts. table_name t \<noteq> None"
  shows "\<exists>r. inspect_tables X F R db vc mr mb ord ts s = Some r"
  using ts
proof (induction ts arbitrary: ord s)
  case (Cons t ts)
  have "\<exists>r. inspect_pages X F R db vc mr mb ord t None s = Some r" for s
    using inspect_pages_ok [OF laws, of t X vc mr mb ord None s] Cons.prems by auto
  then show ?case using Cons by (auto intro!: res_then_total)
qed simp

lemma inspect_consistent:
  assumes laws: "engine_laws F CF R CK V" "database_ok (ar_db ar)" and acc: "inspect X F R ar mr mb vc = Some (Inr summary)"
  shows "consistent (db_tables CF CK (ar_db ar))"
proof -
  let ?db = "ar_db ar" and ?T = "db_tables CF CK (ar_db ar)"
  let ?rows = "\<lambda>t. sorted_list_of_fmap (db_table CF CK ?db t)"
  have walk: "inspect_rows X F R ?db vc mr mb ord t (?rows t) s = Some (Inr s')"
    if "inspect_pages X F R ?db vc mr mb ord t None s = Some (Inr s')" "table_name t \<noteq> None" for ord t s s'
    using inspect_pages_ok [OF laws that(2), of X vc mr mb ord None s] that(1) by auto
  define s0 where "s0 = \<lparr>in_rows = 0, in_bytes = 0, in_tables = replicate 5 0, in_hash = archive_tag @ [0], in_receipts = {||}, in_previous = None\<rparr>"
  obtain s1 s2 s3 s4 s5 where steps:
    "inspect_pages X F R ?db vc mr mb 0 Content None s0 = Some (Inr s1)"
    "inspect_pages X F R ?db vc mr mb 1 Claims None (s1\<lparr>in_hash := in_hash s1 @ [1], in_previous := None\<rparr>) = Some (Inr s2)"
    "inspect_pages X F R ?db vc mr mb 2 Requests None (s2\<lparr>in_hash := in_hash s2 @ [2], in_previous := None\<rparr>) = Some (Inr s3)"
    "inspect_pages X F R ?db vc mr mb 3 History None (s3\<lparr>in_hash := in_hash s3 @ [3], in_previous := None\<rparr>) = Some (Inr s4)"
    "inspect_pages X F R ?db vc mr mb 4 Heads None (s4\<lparr>in_hash := in_hash s4 @ [4], in_previous := None\<rparr>) = Some (Inr s5)"
    "in_receipts s5 = {||}"
    using acc unfolding s0_def by (auto simp: inspect_def TABLES_def res_then_Inr eval_nat_numeral split: if_splits)
  note content = plain_walk [OF walk [OF steps(1)]] and claims = plain_walk [OF walk [OF steps(2)]]
    and requests = requests_walk [OF laws walk [OF steps(3)]] and history = history_walk [OF laws walk [OF steps(4)]] and heads = heads_walk [OF laws walk [OF steps(5)]]
  have lookup: "?T t key = Some v \<longleftrightarrow> (key, v) \<in> set (?rows t)" for t key v by (simp add: db_tables_def set_sorted_list_of_fmap)
  have empty: "fset (in_receipts s2) = {}" using content claims by (simp add: s0_def)
  have r: "fset (in_receipts s3) = request_position ` set (?rows Requests)" "distinct (map request_position (?rows Requests))"
    "\<forall>row \<in> set (?rows Requests). request_row ?T row"
    using requests empty by simp_all
  have "fset (in_receipts s4) = {}" using heads steps(6) by simp
  then have h: "history_position ` set (?rows History) = request_position ` set (?rows Requests)" "\<forall>row \<in> set (?rows History). history_row ?T row"
    "\<forall>row \<in> set (?rows History). snd (history_position row) = 0 \<or> (fst (history_position row), snd (history_position row) - 1) \<in> history_position ` set (?rows History)"
    using history r(1) by auto
  have c: "\<forall>(key, v) \<in> set (?rows Claims). length v = 32" using claims by (auto simp: validate_record_def split: if_splits)
  have inj: "inj_on request_position (set (?rows Requests))" using r(2) by (simp add: distinct_map)
  have rh: "\<exists>k w. (k, w) \<in> set (?rows History) \<and> history_position (k, w) = p" if "p \<in> request_position ` set (?rows Requests)" for p
    using that unfolding h(1) [symmetric] by (metis imageE surj_pair)
  have hr: "\<exists>k w. (k, w) \<in> set (?rows Requests) \<and> request_position (k, w) = p" if "p \<in> history_position ` set (?rows History)" for p
    using that unfolding h(1) by (metis imageE surj_pair)
  have prev: "snd (history_position row) = 0 \<or> (\<exists>k w. (k, w) \<in> set (?rows History) \<and>
      history_position (k, w) = (fst (history_position row), snd (history_position row) - 1))" if "row \<in> set (?rows History)" for row
  proof (cases "snd (history_position row) = 0")
    case False
    then have "(fst (history_position row), snd (history_position row) - 1) \<in> history_position ` set (?rows History)" using h(3) that by blast
    then show ?thesis by (rule imageE) (metis prod.collapse)
  qed simp
  show ?thesis unfolding consistent_def lookup
  proof (intro conjI allI impI)
    fix k1 v1 k2 v2
    assume "(k1, v1) \<in> set (?rows Requests)" "(k2, v2) \<in> set (?rows Requests)" "request_position (k1, v1) = request_position (k2, v2)"
    then show "k1 = k2" using inj_onD [OF inj] by blast
  next
    fix key v
    show "length v = 32" if "(key, v) \<in> set (?rows Claims)" using c that by auto
    show "request_row ?T (key, v)" if "(key, v) \<in> set (?rows Requests)" using r(3) that by auto
    show "history_row ?T (key, v)" if "(key, v) \<in> set (?rows History)" using h(2) that by auto
    show "head_row ?T (key, v)" if "(key, v) \<in> set (?rows Heads)" using heads that by auto
    show "\<exists>k w. (k, w) \<in> set (?rows History) \<and> history_position (k, w) = request_position (key, v)" if "(key, v) \<in> set (?rows Requests)"
      by (rule rh) (rule imageI [OF that])
    show "\<exists>k w. (k, w) \<in> set (?rows Requests) \<and> request_position (k, w) = history_position (key, v)" if "(key, v) \<in> set (?rows History)"
      by (rule hr) (rule imageI [OF that])
    show "snd (history_position (key, v)) = 0 \<or> (\<exists>k w. (k, w) \<in> set (?rows History) \<and>
        history_position (k, w) = (fst (history_position (key, v)), snd (history_position (key, v)) - 1))" if "(key, v) \<in> set (?rows History)"
      by (rule prev [OF that])
  qed
qed

section \<open>The specification an archive stands for\<close>

definition spec_of :: "(table \<Rightarrow> bytes \<Rightarrow> bytes option) \<Rightarrow> app_spec" where
  "spec_of T = \<lparr>
     ap_chain = (\<lambda>ns. case T Heads (be_bytes 32 ns) of None \<Rightarrow> []
       | Some bs \<Rightarrow> map (\<lambda>i. of_be_bytes (the (T History (history_key ns (of_nat i))))) [0..<unat (hd_index (projr (decode_head bs))) + 1]),
     ap_requests = (\<lambda>(ns, r). map_option (\<lambda>bs. case projr (decode_request bs) of (fp, h) \<Rightarrow> (fp, unat (hd_index h))) (T Requests (request_key ns r))),
     ap_content = (\<lambda>c. T Content (be_bytes 32 c)),
     ap_claims = (\<lambda>c. map_option of_be_bytes (T Claims (be_bytes 32 c))),
     ap_migration = T Migration\<rparr>"

lemma head_code: "decode_head bs = Inr h \<longleftrightarrow> bs = encode_head h"
proof
  assume d: "decode_head bs = Inr h"
  then have "length bs = 40" by (simp add: decode_head_def split: if_splits)
  moreover from this have "length (take 8 bs) = 8" "length (drop 8 bs) = 32" by simp_all
  ultimately show "bs = encode_head h" using d by (auto simp: decode_head_def encode_head_def le_bytes_of_le_bytes be_bytes_of_be_bytes)
qed (simp add: decode_head_def encode_head_def)

lemma request_code: "decode_request bs = Inr (fp, h) \<longleftrightarrow> bs = be_bytes 32 fp @ encode_head h"
proof
  assume d: "decode_request bs = Inr (fp, h)"
  then have "length bs = 72" "drop 32 bs = encode_head h" "fp = of_be_bytes (take 32 bs)" by (auto simp: decode_request_def result_simps head_code split: if_splits)
  then show "bs = be_bytes 32 fp @ encode_head h" using append_take_drop_id [of 32 bs] by simp
next
  assume "bs = be_bytes 32 fp @ encode_head h"
  then show "decode_request bs = Inr (fp, h)" by (simp add: decode_request_def result_simps head_code encode_head_def)
qed

lemma history_key_of: "length key = 40 \<Longrightarrow> key = history_key (ns_of key) (of_be_bytes (drop 32 key))"
  by (simp add: history_key_def ns_of_def be_bytes_of_be_bytes)

lemma history_position_key [simp]: "history_position (history_key ns i, v) = (ns, i)" "ns_of (history_key ns i) = ns" "ns_of (request_key ns r) = ns"
    "ns_of (be_bytes 32 ns) = ns" "of_be_bytes (drop 32 (history_key ns i)) = i"
  by (simp_all add: history_position_def history_key_def request_key_def ns_of_def)

lemma history_linked:
  assumes "consistent T" and "T History (history_key ns i) = Some v"
  shows "length v = 32" "linked T ns \<lparr>hd_index = i, hd_commit = of_be_bytes v\<rparr>"
proof -
  have "history_row T (history_key ns i, v)" using assms unfolding consistent_def by blast
  then show "length v = 32" "linked T ns \<lparr>hd_index = i, hd_commit = of_be_bytes v\<rparr>" by (simp_all add: history_row_def)
qed

lemma history_below:
  assumes T: "consistent T" and "T History (history_key ns i) \<noteq> None" and "j \<le> i"
  shows "T History (history_key ns j) \<noteq> None"
  using assms(2,3)
proof (induction "unat i - unat j" arbitrary: i)
  case 0
  then have "j = i" by (simp add: word_le_nat_alt word_unat_eq_iff)
  then show ?case using "0.prems" by simp
next
  case (Suc n)
  obtain v where v: "T History (history_key ns i) = Some v" using Suc.prems by auto
  have "i \<noteq> 0" using Suc.hyps(2) by auto
  moreover have "snd (history_position (history_key ns i, v)) = 0 \<or> (\<exists>k w. T History k = Some w \<and>
      history_position (k, w) = (fst (history_position (history_key ns i, v)), snd (history_position (history_key ns i, v)) - 1))"
    using T v unfolding consistent_def by blast
  ultimately obtain k w where k: "T History k = Some w" "history_position (k, w) = (ns, i - 1)" by auto
  have "history_row T (k, w)" using T k(1) unfolding consistent_def by blast
  then have "k = history_key ns (i - 1)" using k(2) history_key_of [of k] by (simp add: history_row_def history_position_def)
  then have "T History (history_key ns (i - 1)) \<noteq> None" using k(1) by simp
  moreover have u: "unat (i - 1) = unat i - 1" using \<open>i \<noteq> 0\<close> by (simp add: unat_minus_one)
  then have "n = unat (i - 1) - unat j" "j \<le> i - 1" using Suc.hyps(2) by (simp_all add: word_le_nat_alt)
  ultimately show ?case using Suc.hyps(1) by blast
qed

lemma head_linked:
  assumes "consistent T" and "T Heads (be_bytes 32 ns) = Some bs"
  obtains h where "decode_head bs = Inr h" "T History (history_key ns (hd_index h)) = Some (be_bytes 32 (hd_commit h))"
proof -
  have "head_row T (be_bytes 32 ns, bs)" using assms unfolding consistent_def by blast
  then show ?thesis using that by (auto simp: head_row_def linked_def)
qed

text \<open>The history of a namespace is exactly its chain, and the head is the end of it.\<close>

lemma chain_head:
  assumes T: "consistent T" and h: "T Heads (be_bytes 32 ns) = Some bs" "decode_head bs = Inr h"
  shows "length (ap_chain (spec_of T) ns) = unat (hd_index h) + 1"
    "i \<le> hd_index h \<Longrightarrow> T History (history_key ns i) = Some (be_bytes 32 (ap_chain (spec_of T) ns ! unat i))"
proof -
  have c: "ap_chain (spec_of T) ns = map (\<lambda>i. of_be_bytes (the (T History (history_key ns (of_nat i))))) [0..<unat (hd_index h) + 1]"
    by (simp add: spec_of_def h)
  then show "length (ap_chain (spec_of T) ns) = unat (hd_index h) + 1" by simp
  assume i: "i \<le> hd_index h"
  obtain h' where "decode_head bs = Inr h'" "T History (history_key ns (hd_index h')) = Some (be_bytes 32 (hd_commit h'))" by (rule head_linked [OF T h(1)])
  then have "T History (history_key ns (hd_index h)) \<noteq> None" using h(2) by simp
  then obtain v where v: "T History (history_key ns i) = Some v" using history_below [OF T _ i] by blast
  have "unat i < unat (hd_index h) + 1" using i by (simp add: word_le_nat_alt)
  then have "ap_chain (spec_of T) ns ! unat i = of_be_bytes v" unfolding c by (simp add: v del: upt_Suc)
  then show "T History (history_key ns i) = Some (be_bytes 32 (ap_chain (spec_of T) ns ! unat i))" using v history_linked(1) [OF T v] by simp
qed

lemma chain_history:
  assumes T: "consistent T"
  shows "T History (history_key ns i) = (if unat i < length (ap_chain (spec_of T) ns) then Some (be_bytes 32 (ap_chain (spec_of T) ns ! unat i)) else None)"
proof (cases "T Heads (be_bytes 32 ns)")
  case None
  then have "ap_chain (spec_of T) ns = []" by (simp add: spec_of_def)
  moreover have "T History (history_key ns i) \<noteq> Some v" for v using history_linked(2) [OF T, of ns i v] None by (auto simp: linked_def)
  ultimately show ?thesis by (cases "T History (history_key ns i)") auto
next
  case (Some bs)
  obtain h where h: "decode_head bs = Inr h" using head_linked [OF T Some] by blast
  note c = chain_head [OF T Some h]
  have "T History (history_key ns i) \<noteq> Some v" if "\<not> i \<le> hd_index h" for v
    using history_linked(2) [OF T, of ns i v] Some h that by (auto simp: linked_def)
  then have "T History (history_key ns i) = None" if "\<not> i \<le> hd_index h" using that by (cases "T History (history_key ns i)") auto
  then show ?thesis using c(1) c(2) [of i] by (cases "i \<le> hd_index h") (simp_all add: word_le_nat_alt)
qed

lemma linked_position:
  assumes T: "consistent T" and "linked T ns h"
  shows "unat (hd_index h) < length (ap_chain (spec_of T) ns)" "spec_at (spec_of T) ns (unat (hd_index h)) = h"
proof -
  have t: "T History (history_key ns (hd_index h)) = Some (be_bytes 32 (hd_commit h))" using assms(2) by (simp add: linked_def)
  then show *: "unat (hd_index h) < length (ap_chain (spec_of T) ns)" unfolding chain_history [OF T] by (simp split: if_splits)
  have "be_bytes 32 (ap_chain (spec_of T) ns ! unat (hd_index h)) = be_bytes 32 (hd_commit h)" using t * unfolding chain_history [OF T] by simp
  then have "ap_chain (spec_of T) ns ! unat (hd_index h) = hd_commit h" by (drule_tac arg_cong [of _ _ "of_be_bytes :: bytes \<Rightarrow> particle"]) simp
  then show "spec_at (spec_of T) ns (unat (hd_index h)) = h" by (simp add: spec_at_def)
qed

lemma consistent_stands_for:
  assumes T: "consistent T"
  shows "stands_for T (spec_of T)"
proof -
  have heads: "T Heads (be_bytes 32 ns) = map_option encode_head (spec_head (spec_of T) ns)" for ns
  proof (cases "T Heads (be_bytes 32 ns)")
    case None
    then show ?thesis by (simp add: spec_of_def spec_head_def)
  next
    case (Some bs)
    have "head_row T (be_bytes 32 ns, bs)" using T Some unfolding consistent_def by blast
    then obtain h where h: "decode_head bs = Inr h" "linked T ns h" by (auto simp: head_row_def)
    then have "spec_head (spec_of T) ns = Some h"
      using chain_head(1) [OF T Some h(1)] linked_position(2) [OF T h(2)] by (auto simp: spec_head_def)
    then show ?thesis using Some h(1) by (simp add: head_code)
  qed
  have requests: "T Requests (request_key ns r) = map_option (\<lambda>(fp, i). be_bytes 32 fp @ encode_head (spec_at (spec_of T) ns i)) (ap_requests (spec_of T) (ns, r))" for ns r
  proof (cases "T Requests (request_key ns r)")
    case (Some bs)
    then have "request_row T (request_key ns r, bs)" using T unfolding consistent_def by blast
    then obtain fp h where h: "decode_request bs = Inr (fp, h)" "linked T ns h" by (auto simp: request_row_def)
    then show ?thesis using Some linked_position(2) [OF T h(2)] by (simp add: spec_of_def [of T] spec_at_def) (simp add: request_code)
  qed (simp add: spec_of_def)
  have claims: "T Claims (be_bytes 32 c) = map_option (be_bytes 32) (ap_claims (spec_of T) c)" for c
  proof (cases "T Claims (be_bytes 32 c)")
    case (Some v)
    then have "length v = 32" using T unfolding consistent_def by blast
    then show ?thesis using Some by (simp add: spec_of_def)
  qed (simp add: spec_of_def)
  have "T Content (be_bytes 32 c) = ap_content (spec_of T) c" "T Migration key = ap_migration (spec_of T) key" for c key by (simp_all add: spec_of_def)
  then show ?thesis unfolding stands_for_def by (intro conjI allI heads requests claims chain_history [OF T])
qed

lemma request_key_of: "length key = 64 \<Longrightarrow> key = request_key (ns_of key) (of_be_bytes (drop 32 key))"
  by (simp add: request_key_def ns_of_def be_bytes_of_be_bytes)

lemma spec_request:
  assumes T: "consistent T" and "ap_requests (spec_of T) (ns, r) = Some (fp, i)"
  obtains bs h where "T Requests (request_key ns r) = Some bs" "decode_request bs = Inr (fp, h)" "linked T ns h" "i = unat (hd_index h)"
    "request_position (request_key ns r, bs) = (ns, hd_index h)"
proof -
  obtain bs where bs: "T Requests (request_key ns r) = Some bs" using assms(2) by (auto simp: spec_of_def)
  then have "request_row T (request_key ns r, bs)" using T unfolding consistent_def by blast
  then obtain fp' h where h: "decode_request bs = Inr (fp', h)" "linked T ns h" by (auto simp: request_row_def)
  then have "fp' = fp" "i = unat (hd_index h)" using assms(2) bs by (simp_all add: spec_of_def)
  then show ?thesis using that [of bs h] bs h by (simp add: request_position_def)
qed

lemma consistent_spec_ok:
  assumes T: "consistent T"
  shows "spec_ok (spec_of T)"
proof -
  have len: "length (ap_chain (spec_of T) ns) \<le> 2 ^ 64" for ns
  proof (cases "T Heads (be_bytes 32 ns)")
    case (Some bs)
    obtain h where h: "decode_head bs = Inr h" by (rule head_linked [OF T Some])
    have "unat (hd_index h) < 2 ^ 64" using unsigned_less [of "hd_index h", where ?'a = nat] by simp
    then show ?thesis using chain_head(1) [OF T Some h] by simp
  qed (simp add: spec_of_def)
  have "i < length (ap_chain (spec_of T) ns)" if "ap_requests (spec_of T) (ns, r) = Some (fp, i)" for ns r fp i
    by (rule spec_request [OF T that]) (use linked_position(1) [OF T] in blast)
  moreover have "\<exists>!r. \<exists>fp. ap_requests (spec_of T) (ns, r) = Some (fp, i)" if i: "i < length (ap_chain (spec_of T) ns)" for ns i
  proof -
    have u: "unat (of_nat i :: u64) = i" using len [of ns] i by (simp add: unat_of_nat)
    then obtain v where v: "T History (history_key ns (of_nat i)) = Some v" using chain_history [OF T, of ns "of_nat i"] i by auto
    have "\<exists>k w. T Requests k = Some w \<and> request_position (k, w) = history_position (history_key ns (of_nat i), v)"
      using T v unfolding consistent_def by blast
    then obtain k w where k: "T Requests k = Some w" "request_position (k, w) = (ns, of_nat i)" by auto
    have "request_row T (k, w)" using T k(1) unfolding consistent_def by blast
    then obtain fp h where h: "length k = 64" "decode_request w = Inr (fp, h)" by (auto simp: request_row_def)
    let ?r = "of_be_bytes (drop 32 k) :: particle"
    have "ns_of k = ns" "hd_index h = of_nat i" using k(2) h(2) by (simp_all add: request_position_def)
    then have "k = request_key ns ?r" using request_key_of [OF h(1)] by simp
    then have r: "ap_requests (spec_of T) (ns, ?r) = Some (fp, i)" using k(1) h(2) u \<open>hd_index h = of_nat i\<close> by (simp add: spec_of_def)
    moreover have "r' = ?r" if a: "ap_requests (spec_of T) (ns, r') = Some (fp', i)" for r' fp'
    proof -
      obtain bs and h' :: head where b: "T Requests (request_key ns r') = Some bs" "i = unat (hd_index h')" "request_position (request_key ns r', bs) = (ns, hd_index h')"
        by (rule spec_request [OF T a], rule that, assumption+)
      then have "request_position (request_key ns r', bs) = request_position (k, w)" using k(2) by simp
      then have "request_key ns r' = k" using T b(1) k(1) unfolding consistent_def by blast
      then show ?thesis by (auto simp: request_key_def)
    qed
    ultimately show ?thesis by blast
  qed
  moreover have "ap_content (spec_of T) c \<noteq> None" if c: "c \<in> set (ap_chain (spec_of T) ns)" for ns c
  proof -
    obtain i where i: "i < length (ap_chain (spec_of T) ns)" "c = ap_chain (spec_of T) ns ! i" using c by (auto simp: in_set_conv_nth)
    have "unat (of_nat i :: u64) = i" using len [of ns] i by (simp add: unat_of_nat)
    then have "T History (history_key ns (of_nat i)) = Some (be_bytes 32 c)" using chain_history [OF T, of ns "of_nat i"] i by simp
    from history_linked(2) [OF T this] show ?thesis by (auto simp: linked_def spec_of_def)
  qed
  ultimately show ?thesis using len unfolding spec_ok_def by blast
qed

section \<open>Properties\<close>

text \<open>C35: an inspected archive is a state of the application store. The inspection of an archive always returns, however many pages its tables have;
  and when it accepts, the five tables stand for a state of the specification: per namespace one unbroken chain that ends in the head, each position with the
  content of its commit and with exactly one receipt. No check of the walk can be passed by tables with a gap, a foreign receipt or a dangling commit.\<close>

theorem archive_inspection_sound:
  assumes "engine_laws F CF R CK V" and "database_ok (ar_db ar)"
  shows "\<exists>r. inspect X F R ar max_rows max_bytes vc = Some r \<and>
    (\<forall>summary. r = Inr summary \<longrightarrow> (\<exists>A. stands_for (db_tables CF CK (ar_db ar)) A \<and> spec_ok A))"
proof -
  have "\<forall>t \<in> set TABLES. table_name t \<noteq> None" by (simp add: TABLES_def)
  note tables = inspect_tables_ok [OF assms this, of X vc max_rows max_bytes 0]
  have "\<exists>r. db_last_transaction X F R (ar_db ar) = Some r"
    using db_read_ok [OF assms, of Metadata X last_transaction_key 32] by (auto simp: db_last_transaction_def)
  then have "\<exists>r. inspect X F R ar max_rows max_bytes vc = Some r"
    using tables unfolding inspect_def by (auto intro!: res_then_total)
  then show ?thesis
    using inspect_consistent [OF assms, of X max_rows max_bytes vc] consistent_stands_for consistent_spec_ok by blast
qed

definition sample_archive :: "(contents, contents) application_archive" where
  "sample_archive = \<lparr>ar_db = sample_database, ar_sources = [], ar_seal = None, ar_transaction = None\<rparr>"

lemma rows_of_fmempty: "rows_of fmempty lo hi = []"
  by (simp add: rows_of_def sorted_list_of_fmap_def sorted_list_of_fset.rep_eq)

lemma sample_transaction:
  assumes "execute (tx_new (db_engine sample_database)) = Some (tx_new (db_engine sample_database), Inr v)"
  shows "\<exists>db c. db_transaction X F R id sample_database execute = Some (db, Inr c) \<and> cm_value c = v"
  using assms by (simp add: db_transaction_def sample_database_def db_from_engine_def tx_new_def)

lemma sample_page:
  assumes "table_name t \<noteq> None"
  shows "db_page sample_ext sample_fjall sample_redb sample_database t None \<lparr>bl_max_entries = 512, bl_max_bytes = MAX_TRANSACTION_BYTES - 4096\<rparr> = Some (Inr [])"
proof -
  obtain name where n: "table_name t = Some name" using assms by blast
  let ?l = "\<lparr>bl_max_entries = 512, bl_max_bytes = MAX_TRANSACTION_BYTES - 4096\<rparr>"
  obtain lo hi where b: "scan_bounds None [] = Some (lo, hi)" by (cases "prefix_upper []") (simp_all add: scan_bounds_def)
  have "redb_scan sample_redb (\<lambda>_. fmempty) t None [] ?l = Some (Inr [])" unfolding redb_scan_def b by (simp add: n sample_redb_def io_result_def rows_of_fmempty result_simps)
  then have "tx_scan sample_fjall sample_redb (tx_new (db_engine sample_database)) t None [] ?l = Some (Inr [])"
    by (simp add: tx_scan_def byte_validate_def MAX_TRANSACTION_BYTES_def tx_new_def sample_database_def db_from_engine_def engine_scan_def)
  then show ?thesis using sample_transaction [of "read_only (\<lambda>tx. tx_scan sample_fjall sample_redb tx t None [] \<lparr>bl_max_entries = 512, bl_max_bytes = MAX_TRANSACTION_BYTES - 4096\<rparr>)" "[]" sample_ext sample_fjall sample_redb]
    by (auto simp: db_page_def db_scan_def read_only_def commit_value_def)
qed

lemma sample_last_transaction: "db_last_transaction sample_ext sample_fjall sample_redb sample_database = Some (Inr None)"
proof -
  have "tx_get sample_fjall sample_redb (tx_new (db_engine sample_database)) Metadata last_transaction_key 32 = Some (Inr None)"
    by (simp add: tx_get_def tx_new_def sample_database_def db_from_engine_def engine_get_def redb_get_def sample_redb_def io_result_def result_simps
      last_transaction_key_def MAX_BYTES_VALUE_def)
  then show ?thesis using sample_transaction [of "read_only (\<lambda>tx. tx_get sample_fjall sample_redb tx Metadata last_transaction_key 32)" None sample_ext sample_fjall sample_redb]
    by (auto simp: db_last_transaction_def db_read_def read_only_def commit_value_def marker_opt_def)
qed

lemma sample_inspection: "\<exists>summary. inspect sample_ext sample_fjall sample_redb sample_archive 10 100 (\<lambda>_ _. Inr ()) = Some (Inr summary)"
proof -
  have pages: "inspect_pages sample_ext sample_fjall sample_redb sample_database vc mr mb ord t None s = Some (Inr s)" if "t \<in> set TABLES" for vc mr mb ord t s
    using that by (subst inspect_pages.simps) (auto simp: sample_page TABLES_def)
  then show ?thesis by (simp add: inspect_def TABLES_def sample_archive_def MAX_INSPECTION_ROWS_def MAX_INSPECTION_BYTES_def sample_last_transaction)
qed

theorem archive_inspection_sound_witness:
  "\<exists>summary A. inspect sample_ext sample_fjall sample_redb sample_archive 10 100 (\<lambda>_ _. Inr ()) = Some (Inr summary) \<and>
     stands_for (db_tables id id sample_database) A \<and> spec_ok A"
  using archive_inspection_sound [OF engine_laws_sample, of sample_archive sample_ext 10 100 "\<lambda>_ _. Inr ()"] sample_database_ok(1) sample_inspection
  by (auto simp: sample_archive_def)

end
