(* ===== verification/Bbg_Frame.thy ===== *)
theory Bbg_Frame
  imports Bbg_Block
begin

text \<open>
  The signal log of the command line tool (\<open>cli/src/frame.rs\<close>) and its replay (\<open>open_store\<close> of \<open>cli/src/main.rs\<close>). Frames are
  chunks of the \<open>tape\<close> crate, which is a parameter: how it encodes a chunk, the reader's state, and the two sigils.
\<close>

section \<open>The tape crate\<close>

datatype read_result = Chunk u8 bytes | Pending | Eof

record 'r tape =
  tp_zap :: u8
  tp_ket :: u8
  tp_encode :: "u8 \<Rightarrow> u8 \<Rightarrow> bytes \<Rightarrow> bytes"
  tp_reader :: 'r
  tp_feed :: "'r \<Rightarrow> bytes \<Rightarrow> 'r"
  tp_next :: "'r \<Rightarrow> 'r \<times> read_result"

definition RENDER_BIN :: u8 where "RENDER_BIN = of_char (CHR ''b'')"
definition SIG_FINALIZE :: u8 where "SIG_FINALIZE = of_char (CHR ''.'')"

section \<open>Serialization\<close>

definition serialize_link :: "cyberlink \<Rightarrow> bytes" where
  "serialize_link l = be_bytes 32 (cl_from l) @ be_bytes 32 (cl_to l) @ be_bytes 32 (cl_token l) @ le_bytes 8 (cl_amount l) @ [cl_valence l]"

definition serialize_move :: "box_move \<Rightarrow> bytes" where
  "serialize_move m = be_bytes 32 (bm_nullifier m) @
     (case bm_commitment m of Some (point, v) \<Rightarrow> 1 # be_bytes 32 point @ le_bytes 8 v | None \<Rightarrow> [0])"

definition serialize_signal :: "signal \<Rightarrow> bytes" where
  "serialize_signal s = be_bytes 32 (sg_neuron s) @ le_bytes 8 (sg_height s) @
     le_bytes 4 (of_nat (length (sg_links s)) :: u32) @ concat (map serialize_link (sg_links s)) @
     le_bytes 4 (of_nat (length (sg_box_moves s)) :: u32) @ concat (map serialize_move (sg_box_moves s))"

definition serialize_intent :: "intent_record \<Rightarrow> bytes" where
  "serialize_intent i = be_bytes 32 (ir_neuron i) @ le_bytes 8 (ir_h0 i) @ be_bytes 32 (ir_scope_hash i) @ be_bytes 64 (ir_signature i)"

section \<open>Bounded reads\<close>

definition get_slice :: "bytes \<Rightarrow> nat \<Rightarrow> nat \<Rightarrow> (bytes \<times> nat) option" where
  "get_slice buf p n = (if p + n \<le> length buf then Some (take n (drop p buf), p + n) else None)"

definition take32 :: "bytes \<Rightarrow> nat \<Rightarrow> (particle \<times> nat) option" where
  "take32 buf p = map_option (apfst of_be_bytes) (get_slice buf p 32)"

definition take64 :: "bytes \<Rightarrow> nat \<Rightarrow> (512 word \<times> nat) option" where
  "take64 buf p = map_option (apfst of_be_bytes) (get_slice buf p 64)"

definition take_u64 :: "bytes \<Rightarrow> nat \<Rightarrow> (u64 \<times> nat) option" where
  "take_u64 buf p = map_option (apfst of_le_bytes) (get_slice buf p 8)"

definition take_u32 :: "bytes \<Rightarrow> nat \<Rightarrow> (u32 \<times> nat) option" where
  "take_u32 buf p = map_option (apfst of_le_bytes) (get_slice buf p 4)"

definition take_u8 :: "bytes \<Rightarrow> nat \<Rightarrow> (u8 \<times> nat) option" where
  "take_u8 buf p = (if p < length buf then Some (buf ! p, p + 1) else None)"

definition LINK_BYTES :: nat where "LINK_BYTES = 32 + 32 + 32 + 8 + 1"
definition MOVE_MIN_BYTES :: nat where "MOVE_MIN_BYTES = 32 + 1"

fun take_links :: "nat \<Rightarrow> bytes \<Rightarrow> nat \<Rightarrow> (cyberlink list \<times> nat) option" where
  "take_links 0 buf p = Some ([], p)"
| "take_links (Suc n) buf p = do {
     (from, p) \<leftarrow> take32 buf p;
     (to, p) \<leftarrow> take32 buf p;
     (token, p) \<leftarrow> take32 buf p;
     (amount, p) \<leftarrow> take_u64 buf p;
     (valence, p) \<leftarrow> take_u8 buf p;
     (links, p) \<leftarrow> take_links n buf p;
     Some (\<lparr>cl_from = from, cl_to = to, cl_token = token, cl_amount = amount, cl_valence = valence\<rparr> # links, p) }"

fun take_moves :: "nat \<Rightarrow> bytes \<Rightarrow> nat \<Rightarrow> (box_move list \<times> nat) option" where
  "take_moves 0 buf p = Some ([], p)"
| "take_moves (Suc n) buf p = do {
     (nullifier, p) \<leftarrow> take32 buf p;
     (tag, p) \<leftarrow> take_u8 buf p;
     (commitment, p) \<leftarrow> (if tag = 1 then do {
         (point, p) \<leftarrow> take32 buf p;
         (v, p) \<leftarrow> take_u64 buf p;
         Some (Some (point, v), p) } else Some (None, p));
     (moves, p) \<leftarrow> take_moves n buf p;
     Some (\<lparr>bm_nullifier = nullifier, bm_commitment = commitment\<rparr> # moves, p) }"

definition deserialize_signal :: "bytes \<Rightarrow> signal option" where
  "deserialize_signal buf = do {
     (neuron, p) \<leftarrow> take32 buf 0;
     (height, p) \<leftarrow> take_u64 buf p;
     (n_links, p) \<leftarrow> take_u32 buf p;
     if (length buf - p) div LINK_BYTES < unat n_links then None
     else do {
       (links, p) \<leftarrow> take_links (unat n_links) buf p;
       (n_moves, p) \<leftarrow> take_u32 buf p;
       if (length buf - p) div MOVE_MIN_BYTES < unat n_moves then None
       else do {
         (moves, p) \<leftarrow> take_moves (unat n_moves) buf p;
         Some \<lparr>sg_neuron = neuron, sg_links = links, sg_box_moves = moves, sg_height = height\<rparr> } } }"

definition deserialize_intent :: "bytes \<Rightarrow> intent_record option" where
  "deserialize_intent buf = do {
     (neuron, p) \<leftarrow> take32 buf 0;
     (h0, p) \<leftarrow> take_u64 buf p;
     (scope_hash, p) \<leftarrow> take32 buf p;
     (signature, p) \<leftarrow> take64 buf p;
     Some \<lparr>ir_neuron = neuron, ir_h0 = h0, ir_scope_hash = scope_hash, ir_signature = signature\<rparr> }"

section \<open>Frames\<close>

datatype event = Signal signal | Intent intent_record | Finalize

definition encode_signal :: "'r tape \<Rightarrow> signal \<Rightarrow> bytes" where
  "encode_signal T s = tp_encode T (tp_zap T) RENDER_BIN (serialize_signal s)"

definition encode_intent :: "'r tape \<Rightarrow> intent_record \<Rightarrow> bytes" where
  "encode_intent T i = tp_encode T (tp_ket T) RENDER_BIN (serialize_intent i)"

definition encode_finalize :: "'r tape \<Rightarrow> bytes" where
  "encode_finalize T = tp_encode T SIG_FINALIZE RENDER_BIN []"

definition chunk_events :: "'r tape \<Rightarrow> u8 \<Rightarrow> bytes \<Rightarrow> event list" where
  "chunk_events T sigil payload =
     (if sigil = tp_zap T then (case deserialize_signal payload of Some s \<Rightarrow> [Signal s] | None \<Rightarrow> [])
      else if sigil = tp_ket T then (case deserialize_intent payload of Some i \<Rightarrow> [Intent i] | None \<Rightarrow> [])
      else if sigil = SIG_FINALIZE then [Finalize]
      else [])"

text \<open>The loop ends when the reader has no chunk left; a reader that always has one makes it run forever.\<close>

partial_function (option) read_events :: "'r tape \<Rightarrow> 'r \<Rightarrow> event list option" where
  "read_events T r = (case tp_next T r of
       (r, Chunk sigil payload) \<Rightarrow> do { rest \<leftarrow> read_events T r; Some (chunk_events T sigil payload @ rest) }
     | (r, Pending) \<Rightarrow> Some []
     | (r, Eof) \<Rightarrow> Some [])"

definition decode_events :: "'r tape \<Rightarrow> bytes \<Rightarrow> event list option" where
  "decode_events T bs = read_events T (tp_feed T (tp_reader T) bs)"

section \<open>Replay\<close>

fun replay :: "ext \<Rightarrow> bbg \<Rightarrow> event list \<Rightarrow> bbg option" where
  "replay X b [] = Some b"
| "replay X b (e # es) = do {
     b \<leftarrow> (case e of
       Signal s \<Rightarrow> map_option fst (bbg_insert X b s)
     | Intent i \<Rightarrow> Some (fst (bbg_apply_intent X b i))
     | Finalize \<Rightarrow> finalize_block X b);
     replay X b es }"

text \<open>A store is a directory, if one was given, with the bytes of its log file, if there is one. The file operations may fail: the log may be
  unreadable, and an append may not open the file (nothing is written) or stop after some bytes.\<close>

type_synonym log_store = "bytes option option"

datatype append_outcome = Appended | Short nat | Unopened

record log_io =
  io_readable :: bool
  io_append :: append_outcome

definition open_store :: "ext \<Rightarrow> 'r tape \<Rightarrow> log_io \<Rightarrow> log_store \<Rightarrow> (unit + bbg) option" where
  "open_store X T io store = do {
     b \<leftarrow> bbg_new X;
     case store of
       None \<Rightarrow> Some (Inr b)
     | Some None \<Rightarrow> Some (Inr b)
     | Some (Some bs) \<Rightarrow>
         if \<not> io_readable io then Some (Inl ())
         else do { es \<leftarrow> decode_events T bs; b \<leftarrow> replay X b es; Some (Inr b) } }"

definition append_log :: "log_io \<Rightarrow> log_store \<Rightarrow> bytes \<Rightarrow> log_store" where
  "append_log io store frame = (case (store, io_append io) of
       (None, _) \<Rightarrow> None
     | (_, Unopened) \<Rightarrow> store
     | (Some log, Appended) \<Rightarrow> Some (Some ((case log of None \<Rightarrow> [] | Some bs \<Rightarrow> bs) @ frame))
     | (Some log, Short n) \<Rightarrow> Some (Some ((case log of None \<Rightarrow> [] | Some bs \<Rightarrow> bs) @ take n frame)))"

section \<open>Reading back what was written\<close>

lemma get_slice_at: "drop p buf = x @ rest \<Longrightarrow> length x = n \<Longrightarrow> 0 < n \<Longrightarrow> get_slice buf p n = Some (x, p + n) \<and> drop (p + n) buf = rest"
proof -
  assume d: "drop p buf = x @ rest" and n: "length x = n" "0 < n"
  have "p + n \<le> length buf" using arg_cong [OF d, of length] n by simp
  moreover have "drop (p + n) buf = rest" using arg_cong [OF d, of "drop n"] n by (simp add: add.commute)
  ultimately show ?thesis using d n by (simp add: get_slice_def)
qed

lemma takes_at:
  "drop p buf = be_bytes 32 (k :: particle) @ rest \<Longrightarrow> take32 buf p = Some (k, p + 32) \<and> drop (p + 32) buf = rest"
  "drop p buf = be_bytes 64 (s :: 512 word) @ rest \<Longrightarrow> take64 buf p = Some (s, p + 64) \<and> drop (p + 64) buf = rest"
  "drop p buf = le_bytes 8 (v :: u64) @ rest \<Longrightarrow> take_u64 buf p = Some (v, p + 8) \<and> drop (p + 8) buf = rest"
  "drop p buf = le_bytes 4 (n :: u32) @ rest \<Longrightarrow> take_u32 buf p = Some (n, p + 4) \<and> drop (p + 4) buf = rest"
  using get_slice_at [of p buf "be_bytes 32 k" rest 32] get_slice_at [of p buf "be_bytes 64 s" rest 64] get_slice_at [of p buf "le_bytes 8 v" rest 8]
    get_slice_at [of p buf "le_bytes 4 n" rest 4] by (simp_all add: take32_def take64_def take_u64_def take_u32_def)

lemma take_u8_at: "drop p buf = b # rest \<Longrightarrow> take_u8 buf p = Some (b, p + 1) \<and> drop (p + 1) buf = rest"
proof -
  assume d: "drop p buf = b # rest"
  then have p: "p < length buf" by (metis drop_eq_Nil list.distinct(1) not_le)
  then show ?thesis using d by (simp add: take_u8_def) (metis Cons_nth_drop_Suc list.inject)
qed

lemma take_links_at:
  "drop p buf = concat (map serialize_link ls) @ rest \<Longrightarrow> \<exists>q. take_links (length ls) buf p = Some (ls, q) \<and> drop q buf = rest"
proof (induction ls arbitrary: p)
  case (Cons l ls)
  let ?ls = "concat (map serialize_link ls) @ rest"
  from Cons.prems have "drop p buf = be_bytes 32 (cl_from l) @ be_bytes 32 (cl_to l) @ be_bytes 32 (cl_token l) @ le_bytes 8 (cl_amount l) @ cl_valence l # ?ls"
    by (simp add: serialize_link_def [of l])
  note 1 = takes_at(1) [OF this]
  note 2 = takes_at(1) [OF 1 [THEN conjunct2]]
  note 3 = takes_at(1) [OF 2 [THEN conjunct2]]
  note 4 = takes_at(3) [OF 3 [THEN conjunct2]]
  note 5 = take_u8_at [OF 4 [THEN conjunct2]]
  from Cons.IH [OF 5 [THEN conjunct2]] obtain q where "take_links (length ls) buf (p + 32 + 32 + 32 + 8 + 1) = Some (ls, q)" "drop q buf = rest" by blast
  then show ?case using 1 2 3 4 5 by simp
qed simp

lemma take_moves_at:
  "drop p buf = concat (map serialize_move ms) @ rest \<Longrightarrow> \<exists>q. take_moves (length ms) buf p = Some (ms, q) \<and> drop q buf = rest"
proof (induction ms arbitrary: p)
  case (Cons m ms)
  let ?ms = "concat (map serialize_move ms) @ rest"
  show ?case
  proof (cases "bm_commitment m")
    case None
    have "drop p buf = be_bytes 32 (bm_nullifier m) @ 0 # ?ms" using Cons.prems by (simp add: serialize_move_def [of m] None)
    note 1 = takes_at(1) [OF this]
    note 2 = take_u8_at [OF 1 [THEN conjunct2]]
    from Cons.IH [OF 2 [THEN conjunct2]] obtain q where "take_moves (length ms) buf (p + 32 + 1) = Some (ms, q)" "drop q buf = rest" by blast
    then show ?thesis using 1 2 by (simp add: None [symmetric])
  next
    case (Some pv)
    obtain point v where pv: "pv = (point, v)" by (cases pv)
    have "drop p buf = be_bytes 32 (bm_nullifier m) @ 1 # be_bytes 32 point @ le_bytes 8 v @ ?ms" using Cons.prems by (simp add: serialize_move_def [of m] Some pv)
    note 1 = takes_at(1) [OF this]
    note 2 = take_u8_at [OF 1 [THEN conjunct2]]
    note 3 = takes_at(1) [OF 2 [THEN conjunct2]]
    note 4 = takes_at(3) [OF 3 [THEN conjunct2]]
    from Cons.IH [OF 4 [THEN conjunct2]] obtain q where "take_moves (length ms) buf (p + 32 + 1 + 32 + 8) = Some (ms, q)" "drop q buf = rest" by blast
    then show ?thesis using 1 2 3 4 Some by (simp add: pv)
  qed
qed simp

lemma serialized_lengths: "length (concat (map serialize_link ls)) = LINK_BYTES * length ls" "MOVE_MIN_BYTES * length ms \<le> length (concat (map serialize_move ms))"
proof -
  show "length (concat (map serialize_link ls)) = LINK_BYTES * length ls" by (induction ls) (simp_all add: serialize_link_def LINK_BYTES_def)
  have "MOVE_MIN_BYTES \<le> length (serialize_move m)" for m by (auto simp: serialize_move_def MOVE_MIN_BYTES_def split: option.split)
  then show "MOVE_MIN_BYTES * length ms \<le> length (concat (map serialize_move ms))" by (induction ms) (auto simp: add_mono)
qed

lemma room: "drop p buf = x @ rest \<Longrightarrow> n * w \<le> length x \<Longrightarrow> 0 < w \<Longrightarrow> \<not> (length buf - p) div w < n"
  by (metis div_le_mono le_trans length_append length_drop le_add1 nonzero_mult_div_cancel_right not_le not_less_iff_gr_or_eq)

text \<open>A signal whose lists fit the 32-bit counts.\<close>

definition signal_fits :: "signal \<Rightarrow> bool" where
  "signal_fits s \<longleftrightarrow> length (sg_links s) < 2 ^ 32 \<and> length (sg_box_moves s) < 2 ^ 32"

lemma deserialize_serialize_signal:
  assumes "signal_fits s"
  shows "deserialize_signal (serialize_signal s) = Some s"
proof -
  let ?buf = "serialize_signal s" and ?nl = "of_nat (length (sg_links s)) :: u32" and ?nm = "of_nat (length (sg_box_moves s)) :: u32"
  let ?moves = "concat (map serialize_move (sg_box_moves s))"
  have counts: "unat ?nl = length (sg_links s)" "unat ?nm = length (sg_box_moves s)" using assms by (simp_all add: signal_fits_def unat_of_nat)
  have "drop 0 ?buf = be_bytes 32 (sg_neuron s) @ le_bytes 8 (sg_height s) @ le_bytes 4 ?nl @ concat (map serialize_link (sg_links s)) @ le_bytes 4 ?nm @ ?moves"
    by (simp add: serialize_signal_def)
  note 1 = takes_at(1) [OF this]
  note 2 = takes_at(3) [OF 1 [THEN conjunct2]]
  note 3 = takes_at(4) [OF 2 [THEN conjunct2]]
  obtain q where q: "take_links (length (sg_links s)) ?buf (0 + 32 + 8 + 4) = Some (sg_links s, q)" "drop q ?buf = le_bytes 4 ?nm @ ?moves"
    using take_links_at [OF 3 [THEN conjunct2]] by blast
  note 4 = takes_at(4) [OF q(2)]
  have "drop (q + 4) ?buf = ?moves @ []" using 4 by simp
  from take_moves_at [OF this] obtain r where r: "take_moves (length (sg_box_moves s)) ?buf (q + 4) = Some (sg_box_moves s, r)" by blast
  have "\<not> (length ?buf - (0 + 32 + 8 + 4)) div LINK_BYTES < length (sg_links s)"
    by (rule room [OF 3 [THEN conjunct2]]) (simp_all add: serialized_lengths LINK_BYTES_def mult.commute)
  moreover have "\<not> (length ?buf - (q + 4)) div MOVE_MIN_BYTES < length (sg_box_moves s)"
    by (rule room [where x = ?moves and rest = "[]"]) (use 4 serialized_lengths(2) [of "sg_box_moves s"] in \<open>simp_all add: MOVE_MIN_BYTES_def mult.commute\<close>)
  ultimately show ?thesis using 1 2 3 4 q(1) r counts by (simp add: deserialize_signal_def)
qed

lemma deserialize_serialize_intent: "deserialize_intent (serialize_intent i) = Some i"
proof -
  have "drop 0 (serialize_intent i) = be_bytes 32 (ir_neuron i) @ le_bytes 8 (ir_h0 i) @ be_bytes 32 (ir_scope_hash i) @ be_bytes 64 (ir_signature i) @ []"
    by (simp add: serialize_intent_def)
  note 1 = takes_at(1) [OF this]
  note 2 = takes_at(3) [OF 1 [THEN conjunct2]]
  note 3 = takes_at(1) [OF 2 [THEN conjunct2]]
  note 4 = takes_at(2) [OF 3 [THEN conjunct2]]
  show ?thesis using 1 2 3 4 by (simp add: deserialize_intent_def)
qed

section \<open>The log\<close>

text \<open>What the tool relies on of the crate: the two sigils differ from each other and from the block marker, and a reader that was fed a sequence
  of encoded chunks returns those chunks in order and then reports that nothing is left. \<open>holds r cs\<close> says that the reader has the chunks \<open>cs\<close> left.\<close>

type_synonym chunk = "u8 \<times> u8 \<times> bytes"

definition tape_laws :: "'r tape \<Rightarrow> ('r \<Rightarrow> chunk list \<Rightarrow> bool) \<Rightarrow> bool" where
  "tape_laws T holds \<longleftrightarrow> tp_zap T \<noteq> tp_ket T \<and> tp_zap T \<noteq> SIG_FINALIZE \<and> tp_ket T \<noteq> SIG_FINALIZE \<and>
     (\<forall>cs. holds (tp_feed T (tp_reader T) (concat (map (\<lambda>(s, q, p). tp_encode T s q p) cs))) cs) \<and>
     (\<forall>r s q p cs. holds r ((s, q, p) # cs) \<longrightarrow> (\<exists>r'. tp_next T r = (r', Chunk s p) \<and> holds r' cs)) \<and>
     (\<forall>r. holds r [] \<longrightarrow> snd (tp_next T r) \<in> {Pending, Eof})"

lemma read_events_chunks:
  assumes T: "tape_laws T holds" and r: "holds r cs"
  shows "read_events T r = Some (concat (map (\<lambda>(s, q, p). chunk_events T s p) cs))"
  using r
proof (induction cs arbitrary: r)
  case Nil
  then have "snd (tp_next T r) \<in> {Pending, Eof}" using T unfolding tape_laws_def by blast
  then show ?case by (subst read_events.simps) (auto simp: prod.case_eq_if)
next
  case (Cons c cs)
  obtain s q p where c: "c = (s, q, p)" by (cases c)
  obtain r' where "tp_next T r = (r', Chunk s p)" "holds r' cs" using T Cons.prems unfolding tape_laws_def c by blast
  then show ?case using Cons.IH by (subst read_events.simps) (simp add: c)
qed

fun event_chunk :: "'r tape \<Rightarrow> event \<Rightarrow> chunk" where
  "event_chunk T (Signal s) = (tp_zap T, RENDER_BIN, serialize_signal s)"
| "event_chunk T (Intent i) = (tp_ket T, RENDER_BIN, serialize_intent i)"
| "event_chunk T Finalize = (SIG_FINALIZE, RENDER_BIN, [])"

fun encode_event :: "'r tape \<Rightarrow> event \<Rightarrow> bytes" where
  "encode_event T (Signal s) = encode_signal T s"
| "encode_event T (Intent i) = encode_intent T i"
| "encode_event T Finalize = encode_finalize T"

lemma encode_event_chunk: "encode_event T e = (case event_chunk T e of (s, q, p) \<Rightarrow> tp_encode T s q p)"
  by (cases e) (simp_all add: encode_signal_def encode_intent_def encode_finalize_def)

fun event_fits :: "event \<Rightarrow> bool" where
  "event_fits (Signal s) = signal_fits s" | "event_fits _ = True"

lemma chunk_events_event:
  assumes "tape_laws T holds" "event_fits e"
  shows "(case event_chunk T e of (s, q, p) \<Rightarrow> chunk_events T s p) = [e]"
  using assms by (cases e) (auto simp: chunk_events_def tape_laws_def deserialize_serialize_signal deserialize_serialize_intent)

text \<open>A log as later versions may write it: events of the catalogue and chunks with other sigils.\<close>

definition foreign :: "'r tape \<Rightarrow> chunk \<Rightarrow> bool" where
  "foreign T c \<longleftrightarrow> fst c \<notin> {tp_zap T, tp_ket T, SIG_FINALIZE}"

definition log_item :: "'r tape \<Rightarrow> event + chunk \<Rightarrow> chunk" where
  "log_item T = case_sum (event_chunk T) id"

lemma decode_log:
  assumes T: "tape_laws T holds" and items: "\<forall>e. Inl e \<in> set items \<longrightarrow> event_fits e" "\<forall>c. Inr c \<in> set items \<longrightarrow> foreign T c"
  shows "decode_events T (concat (map (\<lambda>i. case log_item T i of (s, q, p) \<Rightarrow> tp_encode T s q p) items)) = Some (concat (map (case_sum (\<lambda>e. [e]) (\<lambda>_. [])) items))"
proof -
  let ?cs = "map (log_item T) items"
  have "holds (tp_feed T (tp_reader T) (concat (map (\<lambda>(s, q, p). tp_encode T s q p) ?cs))) ?cs" using T unfolding tape_laws_def by blast
  then have dec: "decode_events T (concat (map (\<lambda>(s, q, p). tp_encode T s q p) ?cs)) = Some (concat (map (\<lambda>(s, q, p). chunk_events T s p) ?cs))"
    unfolding decode_events_def by (rule read_events_chunks [OF T])
  have eq: "map (\<lambda>(s, q, p). chunk_events T s p) ?cs = map (case_sum (\<lambda>e. [e]) (\<lambda>_. [])) items"
  proof -
    have "(case log_item T i of (s, q, p) \<Rightarrow> chunk_events T s p) = case_sum (\<lambda>e. [e]) (\<lambda>_. []) i" if "i \<in> set items" for i
    proof (cases i)
      case (Inl e)
      then show ?thesis using chunk_events_event [OF T, of e] items(1) that by (simp add: log_item_def)
    next
      case (Inr c)
      then have "foreign T c" using items(2) that by blast
      then show ?thesis by (cases c) (simp add: Inr log_item_def foreign_def chunk_events_def)
    qed
    then show ?thesis unfolding map_map comp_def by (rule map_cong [OF refl])
  qed
  show ?thesis using dec unfolding eq by (simp only: map_map comp_def)
qed

definition written :: "'r tape \<Rightarrow> event list \<Rightarrow> bytes" where
  "written T es = concat (map (encode_event T) es)"

lemma decode_written:
  assumes "tape_laws T holds" "list_all event_fits es"
  shows "decode_events T (written T es) = Some es"
proof -
  let ?items = "map Inl es :: (event + chunk) list"
  have "decode_events T (concat (map (\<lambda>i. case log_item T i of (s, q, p) \<Rightarrow> tp_encode T s q p) ?items)) =
      Some (concat (map (case_sum (\<lambda>e. [e]) (\<lambda>_. [])) ?items))"
    by (rule decode_log [OF assms(1)]) (use assms(2) in \<open>auto simp: list_all_iff\<close>)
  moreover have "concat (map (case_sum (\<lambda>e. [e]) (\<lambda>_. [])) ?items) = es" by (induction es) simp_all
  ultimately show ?thesis by (simp add: written_def encode_event_chunk [symmetric] log_item_def comp_def)
qed

lemma replay_append: "replay X b (es @ fs) = do { b \<leftarrow> replay X b es; replay X b fs }"
  by (induction es arbitrary: b) (simp_all add: Option.bind_assoc)

section \<open>A tape for the witnesses\<close>

text \<open>Every byte of the payload is preceded by 1, the end of a chunk is 0.\<close>

fun sample_payload :: "bytes \<Rightarrow> bytes \<Rightarrow> (bytes \<times> bytes) option" where
  "sample_payload acc (m # bs) = (if m = 0 then Some (rev acc, bs) else case bs of [] \<Rightarrow> None | b # bs \<Rightarrow> sample_payload (b # acc) bs)"
| "sample_payload acc [] = None"

definition sample_tape :: "bytes tape" where
  "sample_tape = \<lparr>tp_zap = 33, tp_ket = 94, tp_encode = (\<lambda>s q p. s # q # concat (map (\<lambda>b. [1, b]) p) @ [0]), tp_reader = [], tp_feed = (@),
     tp_next = (\<lambda>r. case r of s # q # bs \<Rightarrow> (case sample_payload [] bs of Some (p, rest) \<Rightarrow> (rest, Chunk s p) | None \<Rightarrow> (r, Pending)) | _ \<Rightarrow> (r, Eof))\<rparr>"

lemma sample_payload_ok: "sample_payload acc (concat (map (\<lambda>b. [1, b]) p) @ 0 # rest) = Some (rev acc @ p, rest)"
  by (induction p arbitrary: acc) simp_all

lemma tape_laws_sample: "tape_laws sample_tape (\<lambda>r cs. r = concat (map (\<lambda>(s, q, p). s # q # concat (map (\<lambda>b. [1, b]) p) @ [0]) cs))"
  by (auto simp: tape_laws_def sample_tape_def SIG_FINALIZE_def sample_payload_ok)

section \<open>Properties\<close>

text \<open>C38: The log reads back, and reading it ends. Given what the tape crate documents, decoding a log in which frames of the catalogue, whose counts fit 32 bits, are mixed
  with frames of unknown sigils returns exactly the events, in order, skipping the unknown frames; the decoding loop terminates on it.\<close>

theorem log_decoding_terminates:
  assumes "tape_laws T holds" and "\<forall>e. Inl e \<in> set items \<longrightarrow> event_fits e" and "\<forall>c. Inr c \<in> set items \<longrightarrow> foreign T c"
  shows "decode_events T (concat (map (\<lambda>i. case log_item T i of (s, q, p) \<Rightarrow> tp_encode T s q p) items)) = Some (concat (map (case_sum (\<lambda>e. [e]) (\<lambda>_. [])) items))"
  by (rule decode_log [OF assms])

theorem log_decoding_terminates_witness:
  "decode_events sample_tape (concat (map (\<lambda>i. case log_item sample_tape i of (s, q, p) \<Rightarrow> tp_encode sample_tape s q p) [Inl (Signal sample_signal), Inr (7, 0, [1]), Inl Finalize])) =
     Some [Signal sample_signal, Finalize]"
  using log_decoding_terminates [OF tape_laws_sample, of "[Inl (Signal sample_signal), Inr (7, 0, [1]), Inl Finalize]"]
  by (auto simp: signal_fits_def sample_signal_def foreign_def sample_tape_def SIG_FINALIZE_def)

end
