(* ===== verification/Bbg_Cli.thy ===== *)
theory Bbg_Cli
  imports Bbg_Frame Bbg_Query Bbg_Storage
begin

text \<open>
  The command line tool (\<open>cli/src/main.rs\<close>): the forms in which keys are written and read, the commands, and one
  invocation of the tool as a function from the store and the command to the store, the lines printed on the standard output and the
  exit code. Arguments are byte strings, as the operating system passes them; their splitting into a command is the argument parser's work.
  Diagnostics on the standard error are not modelled.
\<close>

section \<open>Hexadecimal and decimal text\<close>

definition hex_digit :: "nat \<Rightarrow> char" where
  "hex_digit n = (if n < 10 then char_of (48 + n) else char_of (87 + n))"

definition hex :: "bytes \<Rightarrow> string" where
  "hex bs = concat (map (\<lambda>b. [hex_digit (unat b div 16), hex_digit (unat b mod 16)]) bs)"

definition to_digit :: "nat \<Rightarrow> char \<Rightarrow> nat option" where
  "to_digit radix c =
     (let n = of_char c :: nat;
          v = (if 48 \<le> n \<and> n \<le> 57 then n - 48 else if 97 \<le> n \<and> n \<le> 122 then n - 87 else if 65 \<le> n \<and> n \<le> 90 then n - 55 else radix)
      in if v < radix then Some v else None)"

fun digits_value :: "nat \<Rightarrow> nat \<Rightarrow> nat \<Rightarrow> string \<Rightarrow> nat option" where
  "digits_value radix bound acc [] = Some acc"
| "digits_value radix bound acc (c # cs) = do {
     d \<leftarrow> to_digit radix c;
     if bound < acc * radix + d then None else digits_value radix bound (acc * radix + d) cs }"

text \<open>The standard library's parser of unsigned integers up to a bound: an optional sign and at least one digit.\<close>

definition from_str_radix :: "nat \<Rightarrow> nat \<Rightarrow> string \<Rightarrow> nat option" where
  "from_str_radix radix bound s =
     (case s of [] \<Rightarrow> None | c # cs \<Rightarrow> digits_value radix bound 0 (if c = CHR ''+'' \<and> cs \<noteq> [] then cs else s))"

definition parse_u64 :: "string \<Rightarrow> u64 option" where
  "parse_u64 s = map_option of_nat (from_str_radix 10 (2 ^ 64 - 1) s)"

definition h32 :: "string \<Rightarrow> particle option" where
  "h32 s = (let s = (if take 2 s = ''0x'' then drop 2 s else s) in
     if s = [] \<or> 64 < length s \<or> \<not> list_all (\<lambda>c. to_digit 16 c \<noteq> None) s then None
     else do {
       let padded = replicate (64 - length s) (CHR ''0'') @ s;
       out \<leftarrow> those (map (\<lambda>i. from_str_radix 16 255 (take 2 (drop (i * 2) padded))) [0..<32]);
       Some (of_be_bytes (map of_nat out)) })"

section \<open>Keys on the command line\<close>

fun split_once :: "char \<Rightarrow> string \<Rightarrow> (string \<times> string) option" where
  "split_once d [] = None"
| "split_once d (c # cs) = (if c = d then Some ([], cs) else map_option (apfst ((#) c)) (split_once d cs))"

fun split_all :: "char \<Rightarrow> string \<Rightarrow> string list" where
  "split_all d [] = [[]]"
| "split_all d (c # cs) = (if c = d then [] # split_all d cs else (case split_all d cs of w # ws \<Rightarrow> (c # w) # ws | [] \<Rightarrow> [[c]]))"

definition signal_key_arg :: "ext \<Rightarrow> string \<Rightarrow> particle option" where
  "signal_key_arg X s = (case split_once (CHR '':'') s of
       Some (neuron, step) \<Rightarrow> do { n \<leftarrow> h32 neuron; k \<leftarrow> parse_u64 step; Some (signal_key X n k) }
     | None \<Rightarrow> h32 s)"

definition card_key_arg :: "ext \<Rightarrow> string \<Rightarrow> particle option" where
  "card_key_arg X s = (case split_all (CHR '':'') s of
       [author, p, q] \<Rightarrow> do { a \<leftarrow> h32 author; p \<leftarrow> h32 p; q \<leftarrow> h32 q; Some (card_id X a p q) }
     | [c] \<Rightarrow> h32 c
     | _ \<Rightarrow> None)"

definition height_key :: "string \<Rightarrow> particle option" where
  "height_key s = do { n \<leftarrow> parse_u64 s; Some (of_be_bytes (le_bytes 8 n @ replicate 24 0)) }"

definition dim_from :: "string \<Rightarrow> dim option" where
  "dim_from s =
     (if s = ''particles'' then Some Particles
      else if s = ''axons-out'' then Some AxonsOut
      else if s = ''axons-in'' then Some AxonsIn
      else if s = ''neurons'' then Some Neurons
      else if s = ''locations'' then Some Locations
      else if s = ''coins'' then Some Coins
      else if s = ''cards'' then Some Cards
      else if s = ''files'' then Some Files
      else if s = ''time'' then Some Time
      else if s = ''signals'' then Some Signals
      else None)"

section \<open>Printed answers\<close>

type_synonym lines = "string list"

abbreviation dec :: "'a::len word \<Rightarrow> string" where "dec w \<equiv> decimal (unat w)"
abbreviation key_hex :: "particle \<Rightarrow> string" where "key_hex k \<equiv> hex (be_bytes 32 k)"

definition quote :: string where "quote = [CHR 0x22]"
definition arrow :: string where "arrow = [CHR 0xE2, CHR 0x86, CHR 0x92]"

text \<open>The debug form of an array of integers, and a field of a JSON object.\<close>

fun separated :: "string list \<Rightarrow> string" where
  "separated [] = []"
| "separated [s] = s"
| "separated (s # ss) = s @ '', '' @ separated ss"

definition json_field :: "string \<Rightarrow> string \<Rightarrow> string" where
  "json_field name v = quote @ name @ quote @ '':'' @ v"

definition print_stats :: "bbg \<Rightarrow> bool \<Rightarrow> lines" where
  "print_stats b json =
     (let s = bbg_statistics b; sizes = ''['' @ separated (map dec (gs_relation_sizes s)) @ '']'' in
      if json then [''{'' @ json_field ''node_count'' (dec (gs_node_count s)) @ '','' @ json_field ''max_degree'' (dec (gs_max_degree s)) @ '','' @
        json_field ''diameter_bound'' (dec (gs_diameter_bound s)) @ '','' @ json_field ''relation_sizes'' sizes @ ''}'']
      else [''node_count      '' @ dec (gs_node_count s), ''max_degree      '' @ dec (gs_max_degree s),
        ''diameter_bound  '' @ dec (gs_diameter_bound s), ''relation_sizes  '' @ sizes])"

definition cmd_get :: "bbg \<Rightarrow> string \<Rightarrow> string \<Rightarrow> bool \<Rightarrow> lines \<times> nat" where
  "cmd_get b d key json = (case h32 key of
       None \<Rightarrow> ([], 3)
     | Some k \<Rightarrow>
         let st = bb_state b;
             answer = (\<lambda>line. case line of Some l \<Rightarrow> ([l], 0) | None \<Rightarrow> ([], 1))
         in if d = ''particles'' then answer (map_option (\<lambda>p.
              if json then ''{'' @ json_field ''energy'' (dec (pr_energy p)) @ '','' @ json_field ''pi_star'' (dec (pr_pi_star p)) @ '','' @
                json_field ''weight'' (dec (pr_weight p)) @ ''}''
              else ''energy '' @ dec (pr_energy p) @ ''  pi_star '' @ dec (pr_pi_star p) @ ''  weight '' @ dec (pr_weight p))
              (fmlookup (kd_map (st_particles st)) k))
            else if d = ''neurons'' then answer (map_option (\<lambda>n.
              if json then ''{'' @ json_field ''focus'' (dec (nr_focus n)) @ '','' @ json_field ''karma'' (dec (nr_karma n)) @ '','' @
                json_field ''stake'' (dec (nr_stake n)) @ ''}''
              else ''focus '' @ dec (nr_focus n) @ ''  karma '' @ dec (nr_karma n) @ ''  stake '' @ dec (nr_stake n))
              (fmlookup (kd_map (st_neurons st)) k))
            else if d = ''axons-out'' then answer (map_option (\<lambda>v. ''out '' @ decimal (length v)) (fmlookup (ax_map (st_axons_out st)) k))
            else if d = ''axons-in'' then answer (map_option (\<lambda>v. ''in '' @ decimal (length v)) (fmlookup (ax_map (st_axons_in st)) k))
            else ([], 3))"

definition print_dump :: "bbg \<Rightarrow> string option \<Rightarrow> lines" where
  "print_dump b d =
     (let st = bb_state b; shown = (\<lambda>name. d = None \<or> d = Some name) in
      (if shown ''particles'' then map (\<lambda>(k, p). ''particles '' @ key_hex k @ ''  energy '' @ dec (pr_energy p) @ ''  weight '' @ dec (pr_weight p))
         (sorted_list_of_fmap (kd_map (st_particles st))) else []) @
      (if shown ''neurons'' then map (\<lambda>(k, n). ''neurons '' @ key_hex k @ ''  focus '' @ dec (nr_focus n) @ ''  karma '' @ dec (nr_karma n) @ ''  stake '' @ dec (nr_stake n))
         (sorted_list_of_fmap (kd_map (st_neurons st))) else []) @
      (if shown ''axons'' then map (\<lambda>(aid, f, t).
         let w = (case fmlookup (kd_map (st_particles st)) aid of None \<Rightarrow> 0 | Some p \<Rightarrow> pr_weight p)
         in ''axon '' @ key_hex f @ '' '' @ arrow @ '' '' @ key_hex t @ ''  weight '' @ dec w)
         (sorted_list_of_fmap (st_axon_edges st)) else []) @
      (if shown ''signals'' then map (\<lambda>(key, r). ''signal '' @ key_hex key @ ''  neuron '' @ key_hex (sr_neuron r) @ ''  step '' @ dec (sr_step r) @
           ''  links '' @ dec (sr_link_count r) @ ''  height '' @ dec (sr_block_height r))
         (sorted_list_of_fmap (kd_map (st_signals st))) else []))"

text \<open>The form of the key depends on the dimension.\<close>

definition key_arg :: "ext \<Rightarrow> string \<Rightarrow> string \<Rightarrow> particle option" where
  "key_arg X d key = (if d = ''time'' then height_key key else if d = ''signals'' then signal_key_arg X key
     else if d = ''cards'' then card_key_arg X key else h32 key)"

text \<open>The answer with its exit code: 0 proved and verified, 1 absent, 2 not verified, 3 bad arguments.\<close>

definition cmd_prove :: "ext \<Rightarrow> 'o lens \<Rightarrow> bbg \<Rightarrow> string \<Rightarrow> string \<Rightarrow> bool \<Rightarrow> (lines \<times> nat) option" where
  "cmd_prove X L b d key json = (case dim_from d of
       None \<Rightarrow> Some ([], 3)
     | Some dd \<Rightarrow>
         (case key_arg X d key of
            None \<Rightarrow> Some ([], 3)
          | Some k \<Rightarrow> do {
              (st, r) \<leftarrow> bbg_query X L (bb_state b) dd k;
              case r of
                None \<Rightarrow> Some ([], 1)
              | Some proof \<Rightarrow> do {
                  let ok = verify_query X L proof;
                  let v = hex (qp_value_bytes proof);
                  Some (if json then [''{'' @ json_field ''dim'' (quote @ d @ quote) @ '','' @ json_field ''value'' (quote @ v @ quote) @ '','' @
                      json_field ''verified'' (if ok then ''true'' else ''false'') @ ''}'']
                    else [''value    '' @ v, ''verified '' @ (if ok then ''ok'' else ''FAIL''),
                      ''note     proof held in-process; portable proof export awaits lens serde''],
                    if ok then 0 else 2) } }))"

section \<open>An invocation\<close>

datatype command =
    CmdRoot
  | CmdHeight
  | CmdStats
  | CmdGet string string
  | CmdDump "string option"
  | CmdApply string string string string u64 u8
  | CmdIntend string u64 string
  | CmdFinalize
  | CmdPrune
  | CmdProve string string

definition root_line :: "ext \<Rightarrow> bbg \<Rightarrow> string option" where
  "root_line X b = do { (_, root) \<leftarrow> state_root X (bb_state b); Some (key_hex root) }"

fun exec :: "ext \<Rightarrow> 'r tape \<Rightarrow> 'o lens \<Rightarrow> log_io \<Rightarrow> bool \<Rightarrow> log_store \<Rightarrow> bbg \<Rightarrow> command \<Rightarrow> (log_store \<times> lines \<times> nat) option" where
  "exec X T L io json store b CmdRoot = do { r \<leftarrow> root_line X b; Some (store, [r], 0) }"
| "exec X T L io json store b CmdHeight = Some (store, [dec (st_height (bb_state b))], 0)"
| "exec X T L io json store b CmdStats = Some (store, print_stats b json, 0)"
| "exec X T L io json store b (CmdGet d key) = Some (store, cmd_get b d key json)"
| "exec X T L io json store b (CmdDump d) = Some (store, print_dump b d, 0)"
| "exec X T L io json store b (CmdApply neuron from to token amount valence) =
     (case (h32 neuron, h32 from, h32 to, h32 token) of
        (Some n, Some f, Some t, Some tok) \<Rightarrow> do {
          let signal = \<lparr>sg_neuron = n, sg_links = [\<lparr>cl_from = f, cl_to = t, cl_token = tok, cl_amount = amount, cl_valence = valence\<rparr>],
            sg_box_moves = [], sg_height = st_height (bb_state b)\<rparr>;
          (b, r) \<leftarrow> bbg_insert X b signal;
          case r of
            Inl e \<Rightarrow> Some (store, [], 2)
          | Inr _ \<Rightarrow> do {
              let store = append_log io store (encode_signal T signal);
              line \<leftarrow> root_line X b;
              Some (store, [line], 0) } }
      | _ \<Rightarrow> Some (store, [], 3))"
| "exec X T L io json store b (CmdIntend neuron h0 scope) =
     (case (h32 neuron, h32 scope) of
        (Some n, Some s) \<Rightarrow> do {
          let intent = \<lparr>ir_neuron = n, ir_h0 = h0, ir_scope_hash = s, ir_signature = 0\<rparr>;
          let (b, key) = bbg_apply_intent X b intent;
          Some (append_log io store (encode_intent T intent), [key_hex key], 0) }
      | _ \<Rightarrow> Some (store, [], 3))"
| "exec X T L io json store b CmdFinalize = do {
     b \<leftarrow> finalize_block X b;
     let store = append_log io store (encode_finalize T);
     line \<leftarrow> root_line X b;
     Some (store, [''height '' @ dec (st_height (bb_state b)) @ ''  root '' @ line], 0) }"
| "exec X T L io json store b CmdPrune = do {
     let epoch = st_height (bb_state b) div EPOCH_BLOCKS;
     let before = fcard (fmdom (st_axon_edges (bb_state b)));
     (st, ps) \<leftarrow> prune X (bb_state b) (bb_prune_state b) (bb_prune_config b) epoch;
     Some (store, [''pruned: axons '' @ decimal before @ '' '' @ arrow @ '' '' @ decimal (fcard (fmdom (st_axon_edges st)))], 0) }"
| "exec X T L io json store b (CmdProve d key) = do { (out, code) \<leftarrow> cmd_prove X L b d key json; Some (store, out, code) }"

definition cli_run :: "ext \<Rightarrow> 'r tape \<Rightarrow> 'o lens \<Rightarrow> log_io \<Rightarrow> bool \<Rightarrow> log_store \<Rightarrow> command \<Rightarrow> (log_store \<times> lines \<times> nat) option" where
  "cli_run X T L io json store cmd = do {
     r \<leftarrow> open_store X T io store;
     case r of Inl _ \<Rightarrow> Some (store, [], 3) | Inr b \<Rightarrow> exec X T L io json store b cmd }"

section \<open>Text round trips\<close>

lemma char_ne_if_code: "of_char c \<noteq> (of_char d :: nat) \<Longrightarrow> c \<noteq> d"
  by auto

lemma hex_digit_props:
  assumes "n < 16"
  shows "to_digit 16 (hex_digit n) = Some n" "hex_digit n \<noteq> CHR ''+''" "hex_digit n \<noteq> CHR ''x''" "hex_digit n \<noteq> CHR '':''"
proof -
  have c: "of_char (hex_digit n) = (if n < 10 then 48 + n else 87 + n)" using assms by (simp add: hex_digit_def)
  show "to_digit 16 (hex_digit n) = Some n" using assms unfolding to_digit_def Let_def c by auto
  have "of_char (CHR ''+'') = (43 :: nat)" "of_char (CHR ''x'') = (120 :: nat)" "of_char (CHR '':'') = (58 :: nat)" by simp_all
  then show "hex_digit n \<noteq> CHR ''+''" "hex_digit n \<noteq> CHR ''x''" "hex_digit n \<noteq> CHR '':''"
    using c assms by (auto intro!: char_ne_if_code simp del: of_char_eq_iff split: if_splits)
qed

lemma unat_byte: "unat (b :: u8) div 16 < 16" "unat b mod 16 < 16" "unat b div 16 * 16 + unat b mod 16 = unat b"
proof -
  have "unat b < 256" using unsigned_less [of b, where ?'a = nat] by simp
  then show "unat b div 16 < 16" by simp
qed simp_all

lemma hex_chars: "c \<in> set (hex bs) \<Longrightarrow> \<exists>n < 16. c = hex_digit n"
  by (auto simp: hex_def intro: unat_byte)

lemma length_hex [simp]: "length (hex bs) = 2 * length bs"
  by (induction bs) (simp_all add: hex_def)

lemma hex_pair: "i < length bs \<Longrightarrow> take 2 (drop (i * 2) (hex bs)) = [hex_digit (unat (bs ! i) div 16), hex_digit (unat (bs ! i) mod 16)]"
proof (induction bs arbitrary: i)
  case (Cons b bs)
  then show ?case by (cases i) (simp_all add: hex_def)
qed simp

lemma byte_radix: "from_str_radix 16 255 [hex_digit (unat b div 16), hex_digit (unat b mod 16)] = Some (unat (b :: u8))"
proof -
  have "unat b \<le> 255" using unsigned_less [of b, where ?'a = nat] by simp
  moreover from this have "unat b div 16 \<le> 255" by simp
  ultimately show ?thesis
    using unat_byte [of b] by (simp add: from_str_radix_def hex_digit_props not_less)
qed

lemma h32_hex:
  assumes "length bs = 32"
  shows "h32 (hex bs) = Some (of_be_bytes bs)" "h32 (''0x'' @ hex bs) = Some (of_be_bytes bs)"
proof -
  have all: "list_all (\<lambda>c. to_digit 16 c \<noteq> None) (hex bs)" using hex_digit_props(1) by (fastforce simp: list_all_iff dest: hex_chars)
  have "hex bs ! 1 \<in> set (hex bs)" using assms by (intro nth_mem) simp
  then have "hex bs ! 1 \<noteq> CHR ''x''" by (metis hex_chars hex_digit_props(3))
  moreover have "take 2 (hex bs) ! 1 = hex bs ! 1" by simp
  ultimately have x: "take 2 (hex bs) \<noteq> ''0x''" by (metis One_nat_def nth_Cons_0 nth_Cons_Suc)
  have "those (map (\<lambda>i. from_str_radix 16 255 (take 2 (drop (i * 2) (hex bs)))) [0..<32]) = Some (map (\<lambda>i. unat (bs ! i)) [0..<32])"
    by (rule those_map_Some) (use assms in \<open>simp add: hex_pair byte_radix\<close>)
  moreover have "map of_nat (map (\<lambda>i. unat (bs ! i)) [0..<32]) = bs" by (rule nth_equalityI) (use assms in simp_all)
  moreover have "hex bs \<noteq> []" using length_hex [of bs] assms by (metis length_0_conv mult_eq_0_iff numeral_neq_zero)
  ultimately show "h32 (hex bs) = Some (of_be_bytes bs)" "h32 (''0x'' @ hex bs) = Some (of_be_bytes bs)"
    using all x assms by (simp_all add: h32_def Let_def)
qed

lemma digits_value_append: "digits_value r B acc (xs @ ys) = do { a \<leftarrow> digits_value r B acc xs; digits_value r B a ys }"
  by (induction xs arbitrary: acc) (simp_all add: Option.bind_assoc, auto split: bind_splits)

lemma decimal_chars: "c \<in> set (decimal n) \<Longrightarrow> 48 \<le> (of_char c :: nat) \<and> (of_char c :: nat) \<le> 57"
  by (induction n rule: decimal.induct) (subst (asm) (2) decimal.simps, fastforce split: if_splits)

lemma decimal_nonempty: "decimal n \<noteq> []"
  by (subst decimal.simps) simp

lemma to_digit_ten: "n < 10 \<Longrightarrow> to_digit 10 (char_of (48 + n)) = Some n"
  by (simp add: to_digit_def)

lemma digits_value_decimal: "n \<le> B \<Longrightarrow> digits_value 10 B 0 (decimal n) = Some n"
proof (induction n rule: decimal.induct)
  case (1 n)
  show ?case
  proof (cases "n < 10")
    case True
    then show ?thesis using 1(2) by (subst decimal.simps) (simp add: to_digit_ten)
  next
    case False
    have "n div 10 \<le> B" using 1(2) by (meson div_le_dividend le_trans)
    then have "digits_value 10 B 0 (decimal (n div 10)) = Some (n div 10)" using 1(1) False by blast
    then show ?thesis using False 1(2) by (subst decimal.simps) (simp add: digits_value_append to_digit_ten)
  qed
qed

lemma parse_u64_dec: "parse_u64 (dec (n :: u64)) = Some n"
proof -
  have "unat n \<le> 2 ^ 64 - 1" using unsigned_less [of n, where ?'a = nat] by simp
  then have v: "digits_value 10 (2 ^ 64 - 1) 0 (dec n) = Some (unat n)" by (rule digits_value_decimal)
  obtain c cs where d: "dec n = c # cs" using decimal_nonempty by (metis list.exhaust)
  then have "c \<noteq> CHR ''+''" using decimal_chars [of c "unat n"] by auto
  then show ?thesis using v by (simp add: parse_u64_def from_str_radix_def d)
qed

lemma split_once_at: "d \<notin> set xs \<Longrightarrow> split_once d (xs @ d # ys) = Some (xs, ys)" "d \<notin> set xs \<Longrightarrow> split_once d xs = None"
  by (induction xs) auto

lemma split_all_at: "d \<notin> set xs \<Longrightarrow> split_all d (xs @ d # ys) = xs # split_all d ys" "d \<notin> set xs \<Longrightarrow> split_all d xs = [xs]"
  by (induction xs) auto

lemma colon_hex: "CHR '':'' \<notin> set (hex bs)"
  by (metis hex_chars hex_digit_props(4))

text \<open>C40: Keys read back. The tool accepts every key in the form in which it prints keys, with or without the prefix: a bare key in any dimension,
  a block height in the time dimension (the key under which the query reads that height), neuron and step for a signal, author and axon for a card.\<close>

theorem cli_keys_roundtrip:
  "h32 (key_hex k) = Some k \<and> h32 (''0x'' @ key_hex k) = Some k \<and>
   (\<exists>t. height_key (dec n) = Some t \<and> of_le_bytes (take 8 (be_bytes 32 t)) = (n :: u64) \<and> list_all (\<lambda>v. v = 0) (drop 8 (be_bytes 32 t))) \<and>
   signal_key_arg X (key_hex k @ '':'' @ dec n) = Some (signal_key X k n) \<and> signal_key_arg X (key_hex k) = Some k \<and>
   card_key_arg X (key_hex k @ '':'' @ key_hex p @ '':'' @ key_hex q) = Some (card_id X k p q) \<and> card_key_arg X (key_hex k) = Some k"
proof -
  have h: "h32 (key_hex a) = Some a" "h32 (''0x'' @ key_hex a) = Some a" for a using h32_hex [of "be_bytes 32 a"] by simp_all
  have "signal_key_arg X (key_hex k @ '':'' @ dec n) = Some (signal_key X k n)" "signal_key_arg X (key_hex k) = Some k"
    by (simp_all add: signal_key_arg_def split_once_at colon_hex h parse_u64_dec)
  moreover have "card_key_arg X (key_hex k @ '':'' @ key_hex p @ '':'' @ key_hex q) = Some (card_id X k p q)" "card_key_arg X (key_hex k) = Some k"
    by (simp_all add: card_key_arg_def split_all_at colon_hex h)
  ultimately show ?thesis using h by (simp add: height_key_def parse_u64_dec list_all_iff)
qed

section \<open>The log across invocations\<close>

fun mutates :: "command \<Rightarrow> bool" where
  "mutates (CmdApply _ _ _ _ _ _) = True"
| "mutates (CmdIntend _ _ _) = True"
| "mutates CmdFinalize = True"
| "mutates _ = False"

text \<open>The store is a directory whose log, if there is one, is what the tool writes for the events \<open>es\<close>.\<close>

definition log_holds :: "'r tape \<Rightarrow> log_store \<Rightarrow> event list \<Rightarrow> bool" where
  "log_holds T store es \<longleftrightarrow> list_all event_fits es \<and>
     (case store of None \<Rightarrow> False | Some None \<Rightarrow> es = [] | Some (Some bs) \<Rightarrow> bs = written T es)"

lemma log_holds_append:
  "log_holds T store es \<Longrightarrow> event_fits e \<Longrightarrow> io_append io = Appended \<Longrightarrow> log_holds T (append_log io store (encode_event T e)) (es @ [e])"
  by (auto simp: log_holds_def append_log_def written_def split: option.splits)

lemma open_log:
  assumes "tape_laws T holds" and "io_readable io" and "log_holds T store es"
  shows "open_store X T io store = do { g \<leftarrow> bbg_new X; b \<leftarrow> replay X g es; Some (Inr b) }"
  using assms by (auto simp: log_holds_def open_store_def decode_written split: option.splits)

lemma open_log_append:
  assumes "tape_laws T holds" and "io_readable io" and "io_append io = Appended" and "log_holds T store es" and "event_fits e"
    and "bbg_new X = Some g" and "replay X g es = Some b" and "replay X b [e] = Some b'"
  shows "open_store X T io (append_log io store (encode_event T e)) = Some (Inr b')"
  using open_log [OF assms(1,2) log_holds_append [OF assms(4,5,3)], of X] assms(6-8) by (simp add: replay_append del: replay.simps)

lemma bbg_ok_mono: "bbg_ok X n b \<Longrightarrow> m \<le> n \<Longrightarrow> bbg_ok X m b"
  using state_inv_mono [of X n "bb_state b" m] by (simp add: bbg_ok_def)

lemma root_line_ok: "bbg_ok X n b \<Longrightarrow> hemera_laws X \<Longrightarrow> root_line X b = Some (key_hex (root_spec X (bb_state b)))"
  using state_root_ok [of X n "bb_state b"] by (force simp: root_line_def bbg_ok_def)

text \<open>The event a command describes, at a height, if its arguments can be read; whether the state accepts it; and what the command prints about it.\<close>

fun event_of :: "u64 \<Rightarrow> command \<Rightarrow> event option" where
  "event_of height (CmdApply neuron source to token amount valence) = do {
     n \<leftarrow> h32 neuron; f \<leftarrow> h32 source; t \<leftarrow> h32 to; k \<leftarrow> h32 token;
     Some (Signal \<lparr>sg_neuron = n, sg_links = [\<lparr>cl_from = f, cl_to = t, cl_token = k, cl_amount = amount, cl_valence = valence\<rparr>],
       sg_box_moves = [], sg_height = height\<rparr>) }"
| "event_of height (CmdIntend neuron h0 scope) = do {
     n \<leftarrow> h32 neuron; s \<leftarrow> h32 scope;
     Some (Intent \<lparr>ir_neuron = n, ir_h0 = h0, ir_scope_hash = s, ir_signature = 0\<rparr>) }"
| "event_of height CmdFinalize = Some Finalize"
| "event_of height _ = None"

fun event_accepted :: "ext \<Rightarrow> bbg \<Rightarrow> event \<Rightarrow> bool" where
  "event_accepted X b (Signal s) \<longleftrightarrow> (case bbg_insert X b s of Some (_, Inr _) \<Rightarrow> True | _ \<Rightarrow> False)"
| "event_accepted X b _ \<longleftrightarrow> True"

fun reply :: "ext \<Rightarrow> event \<Rightarrow> bbg \<Rightarrow> lines" where
  "reply X (Signal s) b = [key_hex (root_spec X (bb_state b))]"
| "reply X (Intent i) b = [key_hex (intent_key X (ir_neuron i) (ir_h0 i) (ir_scope_hash i))]"
| "reply X Finalize b = [''height '' @ dec (st_height (bb_state b)) @ ''  root '' @ key_hex (root_spec X (bb_state b))]"

text \<open>An event the state refuses ends the command with code 2; an accepted one is applied, handed to the log, and answered from the state it leads to.\<close>

definition carried_out :: "ext \<Rightarrow> 'r tape \<Rightarrow> log_io \<Rightarrow> log_store \<Rightarrow> bbg \<Rightarrow> event \<Rightarrow> (log_store \<times> lines \<times> nat) option \<Rightarrow> bool" where
  "carried_out X T io store b e r \<longleftrightarrow>
     (if event_accepted X b e
      then \<exists>b'. r = Some (append_log io store (encode_event T e), reply X e b', 0) \<and> replay X b [e] = Some b' \<and> bbg_ok X 0 b'
      else r = Some (store, [], 2))"

lemma exec_apply:
  assumes b: "bbg_ok X 4 b" and h: "hemera_laws X" and e: "event_of (st_height (bb_state b)) (CmdApply neuron source to token amount valence) = Some e"
  shows "carried_out X T io store b e (exec X T L io json store b (CmdApply neuron source to token amount valence))"
proof -
  obtain n f t k where a: "h32 neuron = Some n" "h32 source = Some f" "h32 to = Some t" "h32 token = Some k" using e by (auto split: bind_splits)
  let ?s = "\<lparr>sg_neuron = n, sg_links = [\<lparr>cl_from = f, cl_to = t, cl_token = k, cl_amount = amount, cl_valence = valence\<rparr>],
            sg_box_moves = [], sg_height = st_height (bb_state b)\<rparr>"
  have s: "e = Signal ?s" using e a by simp
  have "bbg_ok X (0 + 2 * length (sg_box_moves ?s) + 4 * length (sg_links ?s)) b" using b by simp
  from bbg_insert_ok [OF this] obtain b' r where r: "bbg_insert X b ?s = Some (b', r)" "bbg_ok X 0 b'" by blast
  show ?thesis
  proof (cases r)
    case (Inl err)
    then show ?thesis using a r(1) by (simp add: carried_out_def s)
  next
    case (Inr u)
    then show ?thesis using a r root_line_ok [OF r(2) h] by (simp add: carried_out_def s)
  qed
qed

lemma exec_intend:
  assumes b: "bbg_ok X 0 b" and e: "event_of height (CmdIntend neuron h0 scope) = Some e"
  shows "carried_out X T io store b e (exec X T L io json store b (CmdIntend neuron h0 scope))"
proof -
  obtain n s where a: "h32 neuron = Some n" "h32 scope = Some s" using e by (auto split: bind_splits)
  let ?i = "\<lparr>ir_neuron = n, ir_h0 = h0, ir_scope_hash = s, ir_signature = 0\<rparr>"
  have "e = Intent ?i" using e a by simp
  then show ?thesis
    using a bbg_setters_ok(4) [OF b, of ?i] by (simp add: carried_out_def bbg_apply_intent_def apply_intent_def Let_def)
qed

lemma exec_finalize:
  assumes b: "bbg_ok X (2 + 2 * prune_size b) b" "prune_size b < 2 ^ 64" "st_height (bb_state b) < - 1" and h: "hemera_laws X"
  shows "carried_out X T io store b Finalize (exec X T L io json store b CmdFinalize)"
proof -
  have "bbg_ok X (0 + 2 + 2 * prune_size b) b" using b(1) by simp
  from bbg_finalize_ok [OF this b(2,3) h] obtain b' where b': "finalize_block X b = Some b'" "bbg_ok X 0 b'" by blast
  then show ?thesis using root_line_ok [OF b'(2) h] by (simp add: carried_out_def)
qed

text \<open>The room one command needs: the nodes a link or a finished block may add to the tries, and counters that do not wrap.\<close>

definition command_room :: "ext \<Rightarrow> bbg \<Rightarrow> bool" where
  "command_room X b \<longleftrightarrow> bbg_ok X (4 + 2 * prune_size b) b \<and> prune_size b < 2 ^ 64 \<and> st_height (bb_state b) < - 1"

lemma command_roomD:
  assumes "command_room X b"
  shows "bbg_ok X 0 b" "bbg_ok X 4 b" "bbg_ok X (2 + 2 * prune_size b) b" "prune_size b < 2 ^ 64" "st_height (bb_state b) < - 1"
proof -
  have b: "bbg_ok X (4 + 2 * prune_size b) b" "prune_size b < 2 ^ 64" "st_height (bb_state b) < - 1" using assms by (simp_all add: command_room_def)
  show "bbg_ok X 0 b" "bbg_ok X 4 b" "bbg_ok X (2 + 2 * prune_size b) b" by (rule bbg_ok_mono [OF b(1)]; simp)+
  show "prune_size b < 2 ^ 64" "st_height (bb_state b) < - 1" by fact+
qed

lemma exec_event:
  assumes "command_room X b" and "hemera_laws X" and "event_of (st_height (bb_state b)) cmd = Some e"
  shows "event_fits e \<and> carried_out X T io store b e (exec X T L io json store b cmd)"
proof (cases cmd)
  case (CmdApply neuron source to token amount valence)
  have "event_fits e" using assms(3) by (auto simp: CmdApply signal_fits_def split: bind_splits)
  then show ?thesis using exec_apply [OF command_roomD(2) [OF assms(1)] assms(2)] assms(3) unfolding CmdApply by blast
next
  case (CmdIntend neuron h0 scope)
  have "event_fits e" using assms(3) by (auto simp: CmdIntend split: bind_splits)
  then show ?thesis using exec_intend [OF command_roomD(1) [OF assms(1)]] assms(3) unfolding CmdIntend by blast
next
  case CmdFinalize
  then show ?thesis using exec_finalize [OF command_roomD(3-5) [OF assms(1)] assms(2)] assms(3) by simp
qed (use assms(3) in simp_all)

lemma exec_unreadable: "mutates cmd \<Longrightarrow> event_of height cmd = None \<Longrightarrow> exec X T L io json store b cmd = Some (store, [], 3)"
  by (cases cmd) (auto split: bind_splits option.split)

text \<open>C36: what a command reports is what the next invocation finds, as far as the append reached the log. On a directory whose log holds the events \<open>es\<close>, a mutating command
  returns. Arguments that cannot be read end it with code 3 and an event the state refuses with code 2, both without output or effect. Otherwise it prints the answer for exactly the
  state that the event it describes leads to and ends with code 0, however the append goes. When the append succeeds, the log holds that event as its new last one, and a new invocation of
  \<open>root\<close>, which replays the log from genesis, prints the root of that state; when the log could not be opened the store is as before, so the next invocation prints
  the old root; when the append stopped short the log ends in the beginning of the frame.\<close>

theorem cli_commands_durable:
  assumes "tape_laws T holds" and "hemera_laws X" and "io_readable io" and "log_holds T store es"
    and "bbg_new X = Some g" and "replay X g es = Some b" and "command_room X b" and "mutates cmd"
  shows "case event_of (st_height (bb_state b)) cmd of
      None \<Rightarrow> cli_run X T L io json store cmd = Some (store, [], 3)
    | Some e \<Rightarrow>
        if \<not> event_accepted X b e then cli_run X T L io json store cmd = Some (store, [], 2)
        else \<exists>b' store'. cli_run X T L io json store cmd = Some (store', reply X e b', 0) \<and> replay X b [e] = Some b' \<and>
          (case io_append io of
             Appended \<Rightarrow> log_holds T store' (es @ [e]) \<and>
               cli_run X T L io json store' CmdRoot = Some (store', [key_hex (root_spec X (bb_state b'))], 0)
           | Unopened \<Rightarrow> store' = store \<and> cli_run X T L io json store' CmdRoot = Some (store', [key_hex (root_spec X (bb_state b))], 0)
           | Short n \<Rightarrow> store' = Some (Some (written T es @ take n (encode_event T e))))"
proof -
  have op: "open_store X T io store = Some (Inr b)" using open_log [OF assms(1,3,4), of X] assms(5,6) by simp
  have run: "cli_run X T L io json store c = exec X T L io json store b c" for c using op by (simp add: cli_run_def)
  show ?thesis
  proof (cases "event_of (st_height (bb_state b)) cmd")
    case None
    then show ?thesis using exec_unreadable [OF assms(8) None] by (simp add: run)
  next
    case (Some e)
    note ev = exec_event [OF assms(7,2) Some, of T io store L json]
    show ?thesis
    proof (cases "event_accepted X b e")
      case False
      then show ?thesis using ev Some by (simp add: run carried_out_def)
    next
      case True
      then obtain b' where b': "exec X T L io json store b cmd = Some (append_log io store (encode_event T e), reply X e b', 0)"
          "replay X b [e] = Some b'" "bbg_ok X 0 b'" using ev by (auto simp: carried_out_def)
      let ?s = "append_log io store (encode_event T e)"
      have "case io_append io of
             Appended \<Rightarrow> log_holds T ?s (es @ [e]) \<and> cli_run X T L io json ?s CmdRoot = Some (?s, [key_hex (root_spec X (bb_state b'))], 0)
           | Unopened \<Rightarrow> ?s = store \<and> cli_run X T L io json ?s CmdRoot = Some (?s, [key_hex (root_spec X (bb_state b))], 0)
           | Short n \<Rightarrow> ?s = Some (Some (written T es @ take n (encode_event T e)))"
      proof (cases "io_append io")
        case Appended
        have "open_store X T io ?s = Some (Inr b')" using ev by (intro open_log_append [OF assms(1,3) Appended assms(4) _ assms(5,6) b'(2)]) blast
        then show ?thesis using log_holds_append [OF assms(4) _ Appended] ev root_line_ok [OF b'(3) assms(2)] by (simp add: Appended cli_run_def)
      next
        case (Short n)
        then show ?thesis using assms(4) by (auto simp: append_log_def log_holds_def written_def split: option.splits)
      next
        case Unopened
        then have "?s = store" by (simp add: append_log_def split: option.split)
        then show ?thesis using root_line_ok [OF command_roomD(1) [OF assms(7)] assms(2)] by (simp add: Unopened run)
      qed
      then show ?thesis using True Some b'(1,2) by (auto simp: run simp del: replay.simps)
    qed
  qed
qed

lemma genesis_room:
  assumes "hemera_laws X"
  shows "\<exists>g. bbg_new X = Some g \<and> command_room X g \<and> st_height (bb_state g) = 0"
proof -
  obtain g where g: "bbg_new X = Some g" "bbg_ok X 4 g" "same_records state_new (bb_state g)" "bb_prune_state g = prune_state_default"
    using bbg_new_ok [OF assms, of 4] by auto
  have z: "prune_size g = 0" "st_height (bb_state g) = 0" using g(3) new_prune_size [OF g(3,4)] by (simp_all add: same_records_def state_new_def)
  have "command_room X g" using g(2) unfolding command_room_def z by (simp add: word_greater_zero_iff)
  then show ?thesis using g(1) z(2) by blast
qed

text \<open>Finishing a block in an empty directory succeeds; with a working log the next invocation finds its root, and with one that cannot be opened
  the same answer is printed although the next invocation is back at genesis.\<close>

theorem cli_commands_durable_witness:
  "\<exists>g b store. bbg_new sample_ext = Some g \<and> replay sample_ext g [Finalize] = Some b \<and> log_holds sample_tape store [Finalize] \<and>
    (let run = cli_run sample_ext sample_tape sample_lens \<lparr>io_readable = True, io_append = Appended\<rparr> False in
     run (Some None) CmdFinalize = Some (store, reply sample_ext Finalize b, 0) \<and>
     run store CmdRoot = Some (store, [key_hex (root_spec sample_ext (bb_state b))], 0)) \<and>
    (let run = cli_run sample_ext sample_tape sample_lens \<lparr>io_readable = True, io_append = Unopened\<rparr> False in
     run (Some None) CmdFinalize = Some (Some None, reply sample_ext Finalize b, 0) \<and>
     run (Some None) CmdRoot = Some (Some None, [key_hex (root_spec sample_ext (bb_state g))], 0))"
proof -
  obtain g where g: "bbg_new sample_ext = Some g" "command_room sample_ext g" using genesis_room [OF hemera_laws_sample] by blast
  have "log_holds sample_tape (Some None) []" by (simp add: log_holds_def)
  note all = cli_commands_durable [OF tape_laws_sample hemera_laws_sample _ this g(1) _ g(2), of _ CmdFinalize sample_lens False, simplified]
  from all [of "\<lparr>io_readable = True, io_append = Appended\<rparr>"] all [of "\<lparr>io_readable = True, io_append = Unopened\<rparr>"]
  show ?thesis using g(1) by auto
qed

section \<open>Every command returns\<close>

text \<open>A query returns on every state in which the root can be read.\<close>

lemma context_total:
  assumes st: "state_inv X n st" and h: "hemera_laws X"
  shows "\<exists>r. context_from_state X L st d idx = Some r"
proof -
  obtain st1 where st1: "state_root_leaves X st = Some (st1, spec_leaves X st)" "state_inv X n st1" using root_of_inv(1) [OF st h] by blast
  obtain st2 where st2: "state_root X st1 = Some (st2, root_spec X st1)" using root_of_inv(2) [OF st1(2) h] by blast
  have "\<exists>t. state_tables X st 0 [dim_as_u64 d] = Some t" by (auto simp: Let_def simp del: dim_entries.simps split: option.split)
  then obtain t where "state_tables X st 0 [dim_as_u64 d] = Some t" by blast
  then show ?thesis
    using st1(1) st2 by (auto simp: context_from_state_def certificate_from_state_def Let_def simp del: state_tables.simps split: sum.split)
qed

lemma query_total:
  assumes "state_inv X n st" and "hemera_laws X"
  shows "\<exists>r. bbg_query X L st d key = Some r"
proof -
  have cell: "\<exists>r. open_cell X L st d idx = Some r" for d idx
    using context_total [OF assms, of L d idx] by (auto simp: open_cell_def Let_def simp del: dim_entries.simps split: option.split)
  have "\<exists>r. entity_loop X L st d key col off es = Some r" for d key col off es
    using cell by (induction es arbitrary: off) auto
  then have "\<exists>r. open_entity X L st d key col = Some r" for d key col unfolding open_entity_def by blast
  then show ?thesis
    by (cases d) (simp_all add: bbg_query_def prove_particle_def prove_axons_out_def prove_axons_in_def prove_neuron_def
      prove_location_def prove_coin_def prove_card_def prove_file_def prove_time_def prove_signal_key_def)
qed

lemma cmd_get_code: "snd (cmd_get b d key json) \<in> {0, 1, 3}"
  by (auto simp: cmd_get_def Let_def split: option.split)

lemma cmd_prove_returns:
  assumes "bbg_ok X n b" and "hemera_laws X"
  shows "\<exists>out code. cmd_prove X L b d key json = Some (out, code) \<and> code \<in> {0, 1, 2, 3}"
proof -
  have q: "\<exists>r. bbg_query X L (bb_state b) dd k = Some r" for dd k using query_total assms by (auto simp: bbg_ok_def)
  show ?thesis
  proof (cases "dim_from d = None \<or> key_arg X d key = None")
    case True
    then show ?thesis by (auto simp: cmd_prove_def split: option.split)
  next
    case False
    then obtain dd k st r where "dim_from d = Some dd" "key_arg X d key = Some k" "bbg_query X L (bb_state b) dd k = Some (st, r)"
      using q by (metis not_Some_eq surj_pair)
    then show ?thesis by (cases r) (simp_all add: cmd_prove_def Let_def)
  qed
qed

lemma prune_returns:
  assumes "command_room X b" and "hemera_laws X"
  shows "\<exists>r. prune X (bb_state b) (bb_prune_state b) (bb_prune_config b) epoch = Some r"
proof -
  obtain flr where flr: "rank_floor (bb_state b) (pc_rank_floor_pct (bb_prune_config b)) = Some flr" using rank_floor_ex by blast
  have "state_inv X (0 + 2 * prune_size b) (bb_state b)" using command_roomD(3) [OF assms(1)] state_inv_mono [of X "2 + 2 * prune_size b"] by (simp add: bbg_ok_def)
  from prune_ok [OF this command_roomD(4) [OF assms(1)] assms(2) flr] show ?thesis by blast
qed

lemma exec_returns:
  assumes room: "command_room X b" and h: "hemera_laws X"
  shows "\<exists>store' out code. exec X T L io json store b cmd = Some (store', out, code) \<and> code \<in> {0, 1, 2, 3} \<and>
    (store' = store \<or> code = 0 \<and> (\<exists>e. event_of (st_height (bb_state b)) cmd = Some e \<and> event_accepted X b e \<and> event_fits e \<and>
      store' = append_log io store (encode_event T e)))"
proof (cases "mutates cmd")
  case True
  show ?thesis
  proof (cases "event_of (st_height (bb_state b)) cmd")
    case None
    then show ?thesis using exec_unreadable [OF True None, of X T L io json store b] by simp
  next
    case (Some e)
    then show ?thesis using exec_event [OF room h Some, of T io store L json] by (cases "event_accepted X b e") (auto simp: carried_out_def)
  qed
next
  case False
  show ?thesis
  proof (cases cmd)
    case CmdRoot
    then show ?thesis using root_line_ok [OF command_roomD(1) [OF room] h] by simp
  next
    case (CmdGet d key)
    then show ?thesis using cmd_get_code [of b d key json] by (cases "cmd_get b d key json") auto
  next
    case CmdPrune
    then show ?thesis using prune_returns [OF room h, of "st_height (bb_state b) div EPOCH_BLOCKS"] by (auto simp: Let_def)
  next
    case (CmdProve d key)
    then show ?thesis using cmd_prove_returns [OF command_roomD(1) [OF room] h, of L d key json] by auto
  qed (use False in auto)
qed

text \<open>The events the tool writes: signals of one link without box moves, intents and block ends. A log of them can be replayed as long as every event finds the
  room it needs.\<close>

fun tool_event :: "event \<Rightarrow> bool" where
  "tool_event (Signal s) \<longleftrightarrow> length (sg_links s) = 1 \<and> sg_box_moves s = []"
| "tool_event _ = True"

fun replay_room :: "ext \<Rightarrow> bbg \<Rightarrow> event list \<Rightarrow> bool" where
  "replay_room X b [] \<longleftrightarrow> command_room X b"
| "replay_room X b (e # es) \<longleftrightarrow> command_room X b \<and> tool_event e \<and> (case replay X b [e] of None \<Rightarrow> True | Some b' \<Rightarrow> replay_room X b' es)"

lemma event_returns:
  assumes room: "command_room X b" and e: "tool_event e" and h: "hemera_laws X"
  shows "\<exists>b'. replay X b [e] = Some b' \<and> bbg_ok X 0 b'"
proof (cases e)
  case (Signal s)
  have "bbg_ok X (0 + 2 * length (sg_box_moves s) + 4 * length (sg_links s)) b" using command_roomD(2) [OF room] e by (simp add: Signal)
  from bbg_insert_ok [OF this] show ?thesis by (auto simp: Signal)
next
  case (Intent i)
  then show ?thesis using bbg_setters_ok(4) [OF command_roomD(1) [OF room], of i] by simp
next
  case Finalize
  have "bbg_ok X (0 + 2 + 2 * prune_size b) b" using command_roomD(3) [OF room] by simp
  from bbg_finalize_ok [OF this command_roomD(4,5) [OF room] h] show ?thesis by (auto simp: Finalize)
qed

lemma replay_returns: "hemera_laws X \<Longrightarrow> replay_room X b es \<Longrightarrow> \<exists>b'. replay X b es = Some b' \<and> command_room X b'"
proof (induction es arbitrary: b)
  case (Cons e es)
  obtain b1 where b1: "replay X b [e] = Some b1" using event_returns [of X b e] Cons.prems by auto
  then have "replay_room X b1 es" using Cons.prems(2) by (simp del: replay.simps)
  from Cons.IH [OF Cons.prems(1) this] show ?case using replay_append [of X b "[e]" es] b1 by (simp del: replay.simps)
qed simp

text \<open>C37: every command returns, and keeps the log well-formed. Without a directory, or on one whose log holds events of the tool that can be replayed with room, every
  command, whatever its arguments and whether or not the log can be read, returns with one of the four exit codes. It leaves the store as it is, except that a mutating command that ends with
  code 0 hands the frame of exactly the event it describes, which the state accepts, to the log; when the append succeeds the log is again one of
  the tool's, with that event at the end. Pruning in particular never reaches the log.\<close>

theorem cli_log_typed:
  assumes "tape_laws T holds" and "hemera_laws X" and "bbg_new X = Some g" and "store = None \<and> es = [] \<or> log_holds T store es" and "replay_room X g es"
  shows "\<exists>store' out code. cli_run X T L io json store cmd = Some (store', out, code) \<and> code \<in> {0, 1, 2, 3} \<and>
    (store' = store \<or> mutates cmd \<and> code = 0 \<and>
      (\<exists>b e. replay X g es = Some b \<and> event_of (st_height (bb_state b)) cmd = Some e \<and> event_accepted X b e \<and> store' = append_log io store (encode_event T e) \<and>
        (io_append io = Appended \<longrightarrow> log_holds T store' (es @ [e]))))"
proof -
  obtain b where b: "replay X g es = Some b" "command_room X b" using replay_returns [OF assms(2,5)] by blast
  have op: "open_store X T io store = Some (Inr b) \<or> open_store X T io store = Some (Inl ())"
  proof (cases "store = None \<or> store = Some None")
    case True
    then have "es = []" using assms(4) by (auto simp: log_holds_def)
    then show ?thesis using True assms(3) b(1) by (auto simp: open_store_def)
  next
    case False
    then have "log_holds T store es" using assms(4) by blast
    from open_log [OF assms(1) _ this, of io X] show ?thesis
      using False assms(3) b(1) by (cases "io_readable io") (auto simp: open_store_def)
  qed
  have mut: "event_of height cmd = Some e \<Longrightarrow> mutates cmd" for height e by (cases cmd) simp_all
  obtain store' out code where e: "exec X T L io json store b cmd = Some (store', out, code)" "code \<in> {0, 1, 2, 3}"
      "store' = store \<or> code = 0 \<and> (\<exists>e. event_of (st_height (bb_state b)) cmd = Some e \<and> event_accepted X b e \<and> event_fits e \<and> store' = append_log io store (encode_event T e))"
    using exec_returns [OF b(2) assms(2)] by blast
  have logged: "log_holds T (append_log io store (encode_event T e)) (es @ [e])"
    if "event_fits e" "io_append io = Appended" "append_log io store (encode_event T e) \<noteq> store" for e
  proof -
    have "store \<noteq> None" using that(3) by (cases store) (simp_all add: append_log_def)
    then show ?thesis using assms(4) log_holds_append [OF _ that(1,2)] by blast
  qed
  from op show ?thesis
  proof
    assume "open_store X T io store = Some (Inr b)"
    then have "cli_run X T L io json store cmd = Some (store', out, code)" using e(1) by (simp add: cli_run_def)
    then show ?thesis using e(2,3) b(1) mut logged by blast
  next
    assume "open_store X T io store = Some (Inl ())"
    then show ?thesis by (simp add: cli_run_def)
  qed
qed

text \<open>On an empty directory, an intent is logged as the event its arguments describe, pruning returns without a trace, and so does a proof without a directory.\<close>

theorem cli_log_typed_witness:
  "let run = cli_run sample_ext sample_tape sample_lens \<lparr>io_readable = True, io_append = Appended\<rparr> False in
     (\<exists>store line. run (Some None) (CmdIntend (key_hex 1) 0 (key_hex 2)) = Some (store, [line], 0) \<and>
        log_holds sample_tape store [Intent \<lparr>ir_neuron = 1, ir_h0 = 0, ir_scope_hash = 2, ir_signature = 0\<rparr>]) \<and>
     (\<exists>out code. run (Some None) CmdPrune = Some (Some None, out, code)) \<and>
     (\<exists>out code. run None (CmdProve ''time'' ''0'') = Some (None, out, code) \<and> code \<in> {0, 1, 2, 3})"
proof -
  let ?io = "\<lparr>io_readable = True, io_append = Appended\<rparr>" and ?cmd = "CmdIntend (key_hex 1) 0 (key_hex 2)"
  obtain g where g: "bbg_new sample_ext = Some g" "command_room sample_ext g" using genesis_room [OF hemera_laws_sample] by blast
  have h: "h32 (key_hex a) = Some a" for a using h32_hex [of "be_bytes 32 a"] by simp
  obtain bs line where r: "cli_run sample_ext sample_tape sample_lens ?io False (Some None) ?cmd = Some (Some (Some bs), [line], 0)"
    using g(1) by (auto simp: cli_run_def open_store_def h append_log_def Let_def bbg_apply_intent_def apply_intent_def)
  have "log_holds sample_tape (Some None) []" by (simp add: log_holds_def)
  note all = cli_log_typed [OF tape_laws_sample hemera_laws_sample g(1), where es = "[]" and io = ?io and L = sample_lens and json = False, simplified]
  have "log_holds sample_tape (Some (Some bs)) [Intent \<lparr>ir_neuron = 1, ir_h0 = 0, ir_scope_hash = 2, ir_signature = 0\<rparr>]"
    using all [of "Some None" ?cmd] r g(2) h by (auto simp: log_holds_def)
  moreover have "\<exists>out code. cli_run sample_ext sample_tape sample_lens ?io False (Some None) CmdPrune = Some (Some None, out, code)"
    using all [of "Some None" CmdPrune] g(2) by (auto simp: log_holds_def)
  moreover have "\<exists>out code. cli_run sample_ext sample_tape sample_lens ?io False None (CmdProve ''time'' ''0'') = Some (None, out, code) \<and> code \<in> {0, 1, 2, 3}"
    using all [of None "CmdProve ''time'' ''0''"] g(2) by (simp add: append_log_def)
  ultimately show ?thesis using r by (auto simp: Let_def)
qed

end
