(* ===== verification/Bbg_Cli_Prove.thy ===== *)
theory Bbg_Cli_Prove
  imports Bbg_Cli
begin

text \<open>
  The states the command line tool reaches, and what its \<open>prove\<close> command answers on them. The tool never selects a root
  derivation, so its states commit by tries, while a public cell proof carries a certificate whose tables are checked against the leaves of the
  flat derivation: the certificate of such a state is refused while it is built, and the query has no answer.
\<close>

section \<open>The states of the tool\<close>

inductive tool_state :: "ext \<Rightarrow> bbg \<Rightarrow> bool" for X where
  genesis: "bbg_new X = Some b \<Longrightarrow> tool_state X b"
| event: "tool_state X b \<Longrightarrow> command_room X b \<Longrightarrow> tool_event e \<Longrightarrow> replay X b [e] = Some b' \<Longrightarrow> tool_state X b'"

lemma apply_moves_version: "st_root_version (apply_moves X st ms) = st_root_version st"
  by (induction ms arbitrary: st) (auto simp: Let_def split: option.split)

lemma apply_link_version: "apply_link X n st l = Some st' \<Longrightarrow> st_root_version st' = st_root_version st"
proof -
  have "st_root_version (add_weight s a v) = st_root_version s" "st_root_version (add_energy s a v) = st_root_version s"
    "st_root_version (spend_focus s a v) = st_root_version s" "st_root_version (credit s a v) = st_root_version s"
    "st_root_version (debit s a v) = st_root_version s" for s a v
    by (simp_all add: add_weight_def add_energy_def spend_focus_def credit_def debit_def Let_def split: option.split)
  then have "st_root_version (apply_conviction X n s l a) = st_root_version s" for s a by (simp add: apply_conviction_def Let_def)
  then show "apply_link X n st l = Some st' \<Longrightarrow> st_root_version st' = st_root_version st"
    by (auto simp: apply_link_def Let_def split: bind_splits option.splits if_splits)
qed

lemma apply_links_version: "apply_links X n st ls = Some st' \<Longrightarrow> st_root_version st' = st_root_version st"
  by (induction ls arbitrary: st) (auto dest: apply_link_version split: bind_splits)

lemma bbg_insert_version: "bbg_insert X b s = Some (b', r) \<Longrightarrow> st_root_version (bb_state b') = st_root_version (bb_state b)"
  by (auto simp: bbg_insert_def state_insert_def Let_def apply_moves_version dest!: apply_links_version split: bind_splits if_splits sum.splits)

lemma tool_event_step:
  assumes "command_room X b" and "tool_event e" and "hemera_laws X"
  shows "\<exists>b'. replay X b [e] = Some b' \<and> bbg_ok X 0 b' \<and> st_root_version (bb_state b') = st_root_version (bb_state b)"
proof (cases e)
  case (Signal s)
  have "bbg_ok X (0 + 2 * length (sg_box_moves s) + 4 * length (sg_links s)) b"
    by (rule bbg_ok_mono [of X "4 + 2 * prune_size b"]) (use assms(1,2) in \<open>simp_all add: Signal command_room_def\<close>)
  from bbg_insert_ok [OF this] obtain b' r where r: "bbg_insert X b s = Some (b', r)" "bbg_ok X 0 b'" by blast
  then show ?thesis using bbg_insert_version [OF r(1)] by (simp add: Signal)
next
  case (Intent i)
  have "bbg_ok X 0 b" using assms(1) by (auto simp: command_room_def intro: bbg_ok_mono)
  then show ?thesis using bbg_setters_ok(4) [of X 0 b i] by (simp add: Intent bbg_apply_intent_def apply_intent_def Let_def)
next
  case Finalize
  have b: "bbg_ok X (0 + 2 + 2 * prune_size b) b" "prune_size b < 2 ^ 64" "st_height (bb_state b) < - 1"
    using assms(1) bbg_ok_mono [of X "4 + 2 * prune_size b" b "0 + 2 + 2 * prune_size b"] by (simp_all add: command_room_def)
  from b(1) have "state_inv X (0 + 2 + 2 * prune_size b) (bb_state b)" by (simp add: bbg_ok_def)
  from finalize_block_ok [OF this b(2) assms(3)] bbg_finalize_ok [OF b assms(3)] show ?thesis
    by (auto simp: Finalize ledger_same_def)
qed

lemma tool_state_v2: "tool_state X b \<Longrightarrow> hemera_laws X \<Longrightarrow> bbg_ok X 0 b \<and> st_root_version (bb_state b) = V2"
proof (induction rule: tool_state.induct)
  case (genesis b)
  then show ?case using bbg_new_ok [OF genesis(2), of 0] by (auto simp: same_records_def state_new_def)
next
  case (event b e b')
  then show ?case using tool_event_step [OF event(2,3,6)] by auto
qed

section \<open>Queries on a state that commits by tries\<close>

text \<open>The trie commitment of the dimension is not, by accident, the commitment of its flat table.\<close>

definition derivations_apart :: "ext \<Rightarrow> bbg_state \<Rightarrow> dim \<Rightarrow> bool" where
  "derivations_apart X st d \<longleftrightarrow>
     be_bytes 32 (commit_dim X (dim_entries X st d)) \<noteq> digest_bytes (ordered (spec_leaves X (set_root_version st V2)) ! unat (dim_as_u64 d))"

lemma certificate_refused:
  assumes X: "nebu_laws X" "hemera_laws X" and st: "state_inv X n st" "st_root_version st = V2" and a: "derivations_apart X st d"
  shows "\<exists>st'. context_from_state X L st d idx = Some (st', None)"
proof -
  have v: "set_root_version st V2 = st" using st(2) by (simp add: set_root_version_def)
  obtain st1 where st1: "state_root_leaves X st = Some (st1, spec_leaves X st)" using root_of_inv(1) [OF st(1) X(2)] by blast
  have t: "state_tables X st 0 [dim_as_u64 d] = Some (Inr [\<lparr>dt_namespace = dim_as_u64 d, dt_fields = dim_serialize X (dim_entries X st d)\<rparr>]) \<or>
      (\<exists>e. state_tables X st 0 [dim_as_u64 d] = Some (Inl e))"
    by (auto simp: Let_def simp del: dim_entries.simps split: option.split)
  let ?t = "\<lparr>dt_namespace = dim_as_u64 d, dt_fields = dim_serialize X (dim_entries X st d)\<rparr>"
  let ?c = "\<lparr>sc_version = CERTIFICATE_VERSION, sc_lens_version = ln_version L, sc_leaves = ordered (spec_leaves X st), sc_dimensions = [?t]\<rparr>"
  have "certificate_root X L ?c \<noteq> Inr r" for r
  proof
    assume "certificate_root X L ?c = Inr r"
    note ok = certificate_root_Inr [OF this]
    have "\<not> table_invalid X (dt_fields ?t)" using validate_tables_Inr [OF ok(2)] by simp
    then have "map (gl_new X) (dt_fields ?t) = dt_fields ?t" using table_canonical map_gl_new_canonical [OF X(1)] by blast
    then show False using check_tables_Inr [OF ok(3), of ?t] a by (simp add: derivations_apart_def v commit_dim_def del: dim_entries.simps)
  qed
  then have "\<exists>e. certificate_root X L ?c = Inl e" by (metis sum.exhaust)
  then show ?thesis using t st1
    by (auto simp: context_from_state_def certificate_from_state_def simp del: dim_entries.simps state_tables.simps)
qed

lemma entity_refused:
  assumes "\<And>idx. \<exists>st'. context_from_state X L st d idx = Some (st', None)" and "d \<noteq> Balances"
  shows "\<exists>st'. entity_loop X L st d key col off es = Some (st', None)"
proof (induction es arbitrary: off)
  case (Cons e es)
  have "dim_as_u64 d \<le> 9" using assms(2) by (cases d) simp_all
  then have "\<exists>st'. open_cell X L st d idx = Some (st', None)" for idx
    using assms(1) [of idx] by (auto simp: open_cell_def Let_def simp del: dim_entries.simps split: option.split)
  then show ?case using Cons by (cases e) auto
qed simp

lemma query_refused:
  assumes "nebu_laws X" "hemera_laws X" "state_inv X n st" "st_root_version st = V2" "derivations_apart X st d" "d \<noteq> Balances"
  shows "\<exists>st'. bbg_query X L st d key = Some (st', None)"
proof -
  have "\<exists>st'. open_entity X L st d k col = Some (st', None)" for k col
    unfolding open_entity_def by (rule entity_refused [OF certificate_refused [OF assms(1-5)] assms(6)])
  then show ?thesis using assms(6)
    by (cases d) (simp_all add: bbg_query_def prove_particle_def prove_axons_out_def prove_axons_in_def prove_neuron_def
      prove_location_def prove_coin_def prove_card_def prove_file_def prove_time_def prove_signal_key_def)
qed

section \<open>The command\<close>

text \<open>C39: the \<open>prove\<close> command never proves anything. In every state the tool reaches from genesis by the events it writes, \<open>prove\<close> ends with
  exit code 1 (not found) for every key it can parse, whether the dimension holds the key or not, and with 3 otherwise, and prints nothing: the state commits by tries
  and the certificate of a cell proof is checked against flat commitments, so no proof is built unless the two commitments of the dimension coincide.\<close>

theorem cli_prove_never_proves:
  assumes "nebu_laws X" and "hemera_laws X" and "tool_state X b" and "open_store X T io store = Some (Inr b)"
    and "dim_from d = Some dd" and "derivations_apart X (bb_state b) dd"
  shows "cli_run X T L io json store (CmdProve d key) = Some (store, [], if key_arg X d key = None then 3 else 1)"
proof -
  have b: "state_inv X 0 (bb_state b)" "st_root_version (bb_state b) = V2" using tool_state_v2 [OF assms(3,2)] by (simp_all add: bbg_ok_def)
  have "dd \<noteq> Balances" using assms(5) by (auto simp: dim_from_def split: if_splits)
  note q = query_refused [OF assms(1,2) b assms(6) this, of L]
  have "cmd_prove X L b d key json = Some ([], if key_arg X d key = None then 3 else 1)"
  proof (cases "key_arg X d key")
    case (Some k)
    then show ?thesis using q [of k] by (auto simp: cmd_prove_def assms(5))
  qed (simp add: cmd_prove_def assms(5))
  then show ?thesis using assms(4) by (simp add: cli_run_def)
qed

text \<open>A hash for the witness: compressions give the digest of ones, table commitments are zero.\<close>

definition flat_ext :: ext where
  "flat_ext = sample_ext\<lparr>hm_permute := \<lambda>s. [1, 1, 1, 1] @ drop 4 s, lens_commit := \<lambda>_. of_be_bytes (replicate 7 0 @ replicate 25 0)\<rparr>"

lemma flat_ext_laws: "nebu_laws flat_ext" "hemera_laws flat_ext"
proof -
  show "nebu_laws flat_ext" using nebu_laws_sample unfolding nebu_laws_def flat_ext_def by auto
  have "canonical_digest flat_ext k = canonical_digest sample_ext k" for k by (simp add: canonical_digest_def flat_ext_def)
  then show "hemera_laws flat_ext" using hemera_laws_sample padded_word_canonical [of "replicate 7 0"] by (simp add: hemera_laws_def flat_ext_def)
qed

lemma flat_compress: "ls \<noteq> [] \<Longrightarrow> foldl (compress4 flat_ext) a ls = (1, 1, 1, 1)"
  by (cases ls rule: rev_cases) (auto simp: compress4_def flat_ext_def sample_ext_def Let_def split: prod.split)

lemma flat_leaf: "leaf_digest flat_ext key vals = (1, 1, 1, 1)"
proof -
  have "chunks4 (x # xs) \<noteq> []" for x xs by (cases "x # xs" rule: chunks4.cases) simp_all
  moreover have "bytes32_limbs flat_ext key \<noteq> []" by (simp add: bytes32_limbs_def)
  ultimately have "chunks4 (bytes32_limbs flat_ext key) \<noteq> []" by (metis list.exhaust)
  then show ?thesis by (cases "chunks4 vals = []") (simp_all add: leaf_digest_def flat_compress)
qed

lemma flat_time_leaf:
  assumes "kd_map (st_time st) = fmupd h r fmempty"
  shows "derivations_apart flat_ext st Time"
proof -
  have "keyed_leaves flat_ext u64_key_bytes (bytes32_leaf_vals flat_ext) (fmupd h r fmempty) x = [u64_key_bytes h \<mapsto> (1, 1, 1, 1)] x" for x
  proof (cases "x = u64_key_bytes h")
    case True
    then show ?thesis by (simp add: height_key.leaves_kb flat_leaf)
  next
    case False
    then show ?thesis by (simp add: height_key.leaves_upd) (simp add: keyed_leaves_def)
  qed
  then have "keyed_leaves flat_ext u64_key_bytes (bytes32_leaf_vals flat_ext) (fmupd h r fmempty) = [u64_key_bytes h \<mapsto> (1, 1, 1, 1)]" by (rule ext)
  then have "keyed_spec flat_ext u64_key_bytes (bytes32_leaf_vals flat_ext) (kd_map (st_time st)) = (1, 1, 1, 1)"
    by (simp add: keyed_spec_def assms spec_root_def spec_node_def spec_tree.simps)
  then have "ordered (spec_leaves flat_ext (set_root_version st V2)) ! unat (dim_as_u64 Time) = (1, 1, 1, 1)"
    by (simp add: set_root_version_def spec_leaves_def leaves_spec_def ordered_def)
  moreover have "be_bytes 32 (commit_dim flat_ext es) = replicate 32 0" for es
    by (simp add: commit_dim_def commit_fields_def flat_ext_def be_bytes_of_be_bytes flip: replicate_add)
  moreover have "hd (digest_bytes (1, 1, 1, 1)) = 1" by (simp add: digest_bytes_def words_of_def le_bytes_def upt_rec)
  ultimately show ?thesis unfolding derivations_apart_def by (metis hd_replicate zero_neq_numeral zero_neq_one)
qed

text \<open>After the first finished block the time dimension holds height 0, and \<open>prove time 0\<close> says that it does not.\<close>

theorem cli_prove_never_proves_witness:
  "\<exists>g b. bbg_new flat_ext = Some g \<and> finalize_block flat_ext g = Some b \<and> fmlookup (kd_map (st_time (bb_state b))) 0 \<noteq> None \<and>
     (let store = Some (Some (written sample_tape [Finalize])) in
      cli_run flat_ext sample_tape sample_lens \<lparr>io_readable = True, io_append = Appended\<rparr> False store (CmdProve ''time'' ''0'') = Some (store, [], 1))"
proof -
  obtain g where g: "bbg_new flat_ext = Some g" "bbg_ok flat_ext 4 g" "same_records state_new (bb_state g)" "bb_prune_state g = prune_state_default"
    using bbg_new_ok [OF flat_ext_laws(2), of 4] by auto
  have z: "prune_size g = 0" "st_height (bb_state g) = 0" using g(3) new_prune_size [OF g(3,4)] by (simp_all add: same_records_def state_new_def)
  have room: "command_room flat_ext g" using g(2) unfolding command_room_def z by (simp add: word_greater_zero_iff)
  have "bbg_ok flat_ext 2 g" by (rule bbg_ok_mono [OF g(2)]) simp
  then have "state_inv flat_ext (0 + 2 + 2 * prune_size g) (bb_state g)" unfolding z by (simp add: bbg_ok_def numeral_2_eq_2)
  from finalize_block_ok [OF this _ flat_ext_laws(2)] obtain b where b: "finalize_block flat_ext g = Some b"
    "kd_map (st_time (bb_state b)) = fmupd 0 (root_spec flat_ext (bb_state g)) (kd_map (st_time (bb_state g)))"
    unfolding z by auto
  have t: "kd_map (st_time (bb_state b)) = fmupd 0 (root_spec flat_ext (bb_state g)) fmempty"
    using b(2) g(3) by (simp add: same_records_def state_new_def keyed_new_def)
  have run: "replay flat_ext g [Finalize] = Some b" using b(1) by simp
  let ?store = "Some (Some (written sample_tape [Finalize]))" and ?io = "\<lparr>io_readable = True, io_append = Appended\<rparr>"
  have "tool_state flat_ext b" by (rule tool_state.event [OF tool_state.genesis [OF g(1)] room _ run]) simp
  moreover have "open_store flat_ext sample_tape ?io ?store = Some (Inr b)"
    using open_log [OF tape_laws_sample, of ?io ?store "[Finalize]" flat_ext] g(1) run by (simp add: log_holds_def del: replay.simps)
  moreover have "dim_from ''time'' = Some Time" by (simp add: dim_from_def)
  ultimately have "cli_run flat_ext sample_tape sample_lens ?io False ?store (CmdProve ''time'' ''0'') =
      Some (?store, [], if key_arg flat_ext ''time'' ''0'' = None then 3 else 1)"
    by (rule cli_prove_never_proves [OF flat_ext_laws _ _ _ flat_time_leaf [OF t]])
  moreover have "key_arg flat_ext ''time'' ''0'' \<noteq> None"
    by (simp add: key_arg_def height_key_def parse_u64_def from_str_radix_def to_digit_def)
  ultimately show ?thesis using g(1) b(1) t by auto
qed

end
