(* ===== verification/Spec2Isabelle.thy ===== *)
theory Spec2Isabelle
  imports Bbg_Atomic Bbg_Positions Bbg_Query_Auth Bbg_Tiered Bbg_Archive Bbg_Cli_Prove
begin

text \<open>
  A verification development of BBG, an authenticated graph state (\<open>rs/src\<close>), its storage and its
  command line tool (\<open>cli/src\<close>).

  \<^bold>\<open>The program.\<close> The state is a set of dimensions, each a map with a commitment; the fold of the commitments is the
  root. Signals are inserted into the state, blocks are finalized (the root is recorded, old records are pruned), certificates and
  cell proofs show parts of a state against its root, and native transitions change the state as one batch that is persisted as byte records. Below it lies a
  storage stack: a buffer of pending writes, an in-memory store, a transactional database over two engines, disk and tiered stores, and an
  application store of namespaces with idempotent writes. The command line tool keeps the events of a state in a log and replays it.

  \<^bold>\<open>The state\<close> (theories in the order of their imports).
  \<^item> \<open>Bbg_Prelude\<close>: byte strings and words, results (\<open>and_then\<close>, \<open>ok_or\<close>), finite maps in key order, the collections \<open>byte_simps\<close> and \<open>result_simps\<close>. \<open>Bbg_Byte_Order\<close>: big-endian
    bytes, compared as byte strings, keep the order of words.
  \<^item> \<open>Bbg_Root\<close> (\<open>dim.rs\<close>, \<open>root.rs\<close>): field limbs, compression, flat tables, the fold of 14 leaves; the root binds its leaves.
  \<^item> \<open>Bbg_Trie\<close>, \<open>Bbg_Trie_Refine\<close>, \<open>Bbg_Trie_Spec\<close>, \<open>Bbg_Trie_Proofs\<close> (\<open>trie.rs\<close>): the arena with its free list, the abstraction to trees, the canonical trie
    as the specification and the locale \<open>authenticated_map\<close> the clients use, inclusion and absence proofs.
  \<^item> \<open>Bbg_Types\<close> (\<open>types.rs\<close>, \<open>state/commits.rs\<close>), \<open>Bbg_Keyed\<close> (\<open>keyed.rs\<close>: \<open>Keyed\<close>, \<open>KeyedSet\<close>; locale \<open>trie_key\<close>), \<open>Bbg_Axons\<close> (\<open>AxonIndex\<close>),
    \<open>Bbg_Cards\<close> and \<open>Bbg_Positions\<close> (\<open>position.rs\<close>): records, committed maps with dirty marks, the indexes. After any sequence of operations a commitment is that
    of the current records.
  \<^item> \<open>Bbg_State\<close> (\<open>state.rs\<close>, \<open>stats.rs\<close>): the state record, the root under both derivations; the root is a function of the records, whatever is pending or cached.
  \<^item> \<open>Bbg_Insert\<close> (\<open>signal.rs\<close>, \<open>BbgState::insert\<close>), \<open>Bbg_Prune\<close> (\<open>prune.rs\<close>), \<open>Bbg_Block\<close> (\<open>checkpoint.rs\<close>, \<open>lib.rs\<close>): the effect of a signal on every dimension, nullifiers,
    the rank floor and the pruning cycle, the end of a block, the invariant of every run of the facade \<open>Bbg\<close>, and the step relation \<open>bbg_step\<close> of its calls, along which a nullifier
    once spent is never accepted again.
  \<^item> \<open>Bbg_Records\<close>, \<open>Bbg_Transition\<close>, \<open>Bbg_Undo\<close>, \<open>Bbg_Native\<close>, \<open>Bbg_Atomic\<close> (\<open>transition/\<close>): byte records, batches with captured old values, and the
    proof that a batch publishes all of its effect with exactly its write set or restores the graph.
  \<^item> \<open>Bbg_Certificate\<close> (\<open>certificate.rs\<close>), \<open>Bbg_Query\<close>, \<open>Bbg_Query_Layout\<close>, \<open>Bbg_Query_Auth\<close> (\<open>proof.rs\<close>, \<open>query.rs\<close>, \<open>query_auth.rs\<close>): certificates bind the tables they
    show, queries are sound and complete, public balances are exact.

  \<^bold>\<open>Storage.\<close>
  \<^item> \<open>Bbg_Storage\<close> (\<open>storage/access.rs\<close>, \<open>buffer.rs\<close>, \<open>mem.rs\<close>): limits, encodings, the pending-write buffer with its position index, which refines a map; change identifiers.
  \<^item> \<open>Bbg_Engine\<close> (\<open>database/backend*.rs\<close>), \<open>Bbg_Database\<close> (\<open>database/mod.rs\<close>, \<open>transaction.rs\<close>, \<open>generation.rs\<close>, \<open>records.rs\<close>): both engines over the interface of their crates
    (locale of an engine, interpreted on both), transactions with budgets, markers and unknown outcomes.
  \<^item> \<open>Bbg_Disk\<close> (\<open>disk.rs\<close>, the trait of \<open>storage/mod.rs\<close>) and \<open>Bbg_Tiered\<close> (\<open>tiered.rs\<close>): the shard interface as a record of operations with its contract as a locale; the
    stores refine the map of durable rows overlaid with what is pending, failures included; a page of a scan is an ordered part of that map without gaps.
  \<^item> \<open>Bbg_Application\<close>, \<open>Bbg_Application_Spec\<close>, \<open>Bbg_Application_Runs\<close> (\<open>application.rs\<close>, the cursor of \<open>application/transfer.rs\<close>): a specification on chains of commits, receipts, contents
    and claims, the refinement of every write by it, and runs with retries, storage faults, migrations and reopenings, in which an answered write takes effect once
    and the sources of an accepted migration take no new request.
  \<^item> \<open>Bbg_Archive\<close> (\<open>application/archive.rs\<close>, \<open>validate_record\<close> of \<open>application/validation.rs\<close>): the opening of an archive and the paged inspection of its tables, which accepts only
    tables that stand for a state of that specification.

  \<^bold>\<open>The command line tool.\<close>
  \<^item> \<open>Bbg_Frame\<close> (\<open>frame.rs\<close>, opening and appending of \<open>main.rs\<close>): frames, their payloads with bounded reads, the decoding loop as a partial function with its termination on every log the tool writes,
    replay.
  \<^item> \<open>Bbg_Cli\<close>, \<open>Bbg_Cli_Prove\<close> (\<open>main.rs\<close>): key syntax, every command with output and exit code; every command returns, its answer is for the state the event it describes leads to, and
    the next invocation finds that state exactly when the append to the log succeeded; \<open>prove\<close> on the states of the tool.

  \<^bold>\<open>Conventions.\<close> A panic, an index out of range and a loop without end are \<open>None\<close> of the option type; a \<open>Result\<close> is a sum with the error on the left; a call
  that changes state returns it. \<open>[u8; 32]\<close> is a word of 256 bits, big-endian; \<open>usize\<close> is \<open>nat\<close> with the checked operations written out; \<open>BTreeMap\<close> is a finite map, traversed in key order.
  Arena indices, counts, heights and amounts are words of their width.

  \<^bold>\<open>Parameters and hypotheses.\<close> Crates that are not part of the repository are arguments: \<open>ext\<close> (the field \<open>nebu\<close>, the hash \<open>hemera\<close>, the commitment of \<open>lens\<close>; \<open>nebu_laws\<close>, \<open>hemera_laws\<close>), \<open>lens\<close>
  (\<open>lens_laws\<close>), \<open>redb\<close> and \<open>fjall\<close> (\<open>redb_laws\<close>, \<open>fjall_laws\<close>), \<open>tape\<close> (\<open>tape_laws\<close>). Each has a concrete instance (\<open>sample_ext\<close>, \<open>sample_lens\<close>, \<open>sample_redb\<close>, \<open>sample_tape\<close>) on which the
  witnesses run. No hash is injective, so binding is stated relative to the finitely many compressions at hand. \<open>lens_commit\<close> is a total function, while the
  commitment scheme documents at most \<open>2^20\<close> fields: the theorem on the root assumes \<open>lens_bounded\<close> (under the flat derivation no table is longer), and where other theorems say that an operation returns
  on a state under the flat derivation, they say so for a commitment that returns.

  \<^bold>\<open>Bounds.\<close> An arena holds at most \<open>2^32\<close> nodes, so \<open>state_inv X n\<close> and \<open>bbg_run X n\<close> count the nodes that may still be allocated: two per record, four per link; a native batch has room
  \<open>2^26\<close>, which its limits on keys and bytes imply. Heights and counts stay below \<open>2^64\<close>, a certificate has at most \<open>2^20\<close> fields, a public query at most 4096, the counts of a frame fit 32 bits. The
  storage limits are those of \<open>access.rs\<close> and \<open>database/mod.rs\<close>. No fuel is used: loops are structural, have a measure, or are partial functions with a theorem that they return.

  \<^bold>\<open>Not modelled.\<close> The conversion of application databases between engines, the copying part of a transfer and its check of links (\<open>application/migration.rs\<close>, \<open>transfer.rs\<close>, \<open>validate_links\<close> of
  \<open>validation.rs\<close>) and the opening of database files are file-system work around the transactions above; \<open>unimem.rs\<close> is unsafe code over shared memory of another crate; \<open>query_wire.rs\<close> and the other
  \<open>serde\<close> visitors depend on that crate; coordination locks and migration guards are process-wide locks, under which a transaction is one step; the argument parser and the diagnostics of the tool;
  tests, examples and the vendored engine.
\<close>

end
